(* ===== verification/Kernel_Prelude.thy ===== *)
theory Kernel_Prelude
  imports Main "HOL-Library.Word" "HOL-Library.Monad_Syntax"
begin

text \<open>
  Shared vocabulary of the chodOS development.

  \<^item> Machine integers: \<open>u8\<close> .. \<open>u64\<close> are words of their width; \<open>usize\<close> values
    that are lengths or table indices are \<open>nat\<close>; the \<open>i64\<close> results of system calls
    are \<open>int\<close>.
  \<^item> The kernel is built with the \<open>dev\<close> profile (\<open>Makefile\<close>: target directory
    \<open>debug\<close>), so an overflowing \<open>+\<close>, \<open>-\<close> or \<open>*\<close> panics, and \<open>panic = "abort"\<close>.
    A function that can panic therefore returns an \<open>option\<close> whose \<open>None\<close> is the
    panic; \<open>add_chk\<close>, \<open>sub_chk\<close> and \<open>mul_chk\<close> are the checked operators.
    Atomic counters (\<open>fetch_add\<close>) wrap, as in Rust.
  \<^item> \<open>find_idx\<close> is the "first slot with" loop that nearly every fixed table of the
    kernel uses; \<open>upd_first\<close> the loop that changes only that slot; \<open>min_idx\<close> the
    "smallest slot" loop of the eviction policies.
  \<^item> little-endian encoding of words.
\<close>

unbundle bit_operations_syntax

section \<open>Types\<close>

type_synonym u8 = "8 word"
type_synonym u16 = "16 word"
type_synonym u32 = "32 word"
type_synonym u64 = "64 word"
type_synonym pid = u64
type_synonym bytes = "u8 list"

named_theorems kernel_defs \<open>definitions a component unfolds in its own proofs\<close>
named_theorems kernel_inv \<open>preservation lemmas of the component invariants\<close>

section \<open>Error numbers (\<open>kernel/src/syscall/mod.rs\<close>)\<close>

definition EPERM :: int where "EPERM = - 1"
definition ENOENT :: int where "ENOENT = - 2"
definition EBADF :: int where "EBADF = - 9"
definition EAGAIN :: int where "EAGAIN = - 11"
definition ENOMEM :: int where "ENOMEM = - 12"
definition EFAULT :: int where "EFAULT = - 14"
definition EINVAL :: int where "EINVAL = - 22"
definition ENOSYS :: int where "ENOSYS = - 38"

lemmas errno_defs = EPERM_def ENOENT_def EBADF_def EAGAIN_def ENOMEM_def EFAULT_def
  EINVAL_def ENOSYS_def

section \<open>Checked and saturating arithmetic\<close>

definition add_chk :: "'a::len word \<Rightarrow> 'a word \<Rightarrow> 'a word option" where
  "add_chk a b = (if unat a + unat b < 2 ^ LENGTH('a) then Some (a + b) else None)"

definition sub_chk :: "'a::len word \<Rightarrow> 'a word \<Rightarrow> 'a word option" where
  "sub_chk a b = (if b \<le> a then Some (a - b) else None)"

definition mul_chk :: "'a::len word \<Rightarrow> 'a word \<Rightarrow> 'a word option" where
  "mul_chk a b = (if unat a * unat b < 2 ^ LENGTH('a) then Some (a * b) else None)"

definition sat_sub :: "'a::len word \<Rightarrow> 'a word \<Rightarrow> 'a word" where
  "sat_sub a b = (if b \<le> a then a - b else 0)"

definition sat_add :: "'a::len word \<Rightarrow> 'a word \<Rightarrow> 'a word" where
  "sat_add a b = (if unat a + unat b < 2 ^ LENGTH('a) then a + b else - 1)"

definition sat_mul :: "'a::len word \<Rightarrow> 'a word \<Rightarrow> 'a word" where
  "sat_mul a b = (if unat a * unat b < 2 ^ LENGTH('a) then a * b else - 1)"

text \<open>\<open>i32\<close> values are integers; this is their range check.\<close>

definition i32_chk :: "int \<Rightarrow> int option" where
  "i32_chk x = (if - (2 ^ 31) \<le> x \<and> x < 2 ^ 31 then Some x else None)"

lemma add_chk_code [code]: "add_chk a b = (if a \<le> a + b then Some (a + b) else None)"
proof -
  have b: "unat b < 2 ^ LENGTH('a)" by (rule unsigned_less)
  have s: "unat (a + b) = (unat a + unat b) mod 2 ^ LENGTH('a)" by (rule unat_word_ariths(1))
  have "a \<le> a + b \<longleftrightarrow> unat a + unat b < 2 ^ LENGTH('a)"
  proof (cases "unat a + unat b < 2 ^ LENGTH('a)")
    case False
    have "(unat a + unat b) mod 2 ^ LENGTH('a) \<le> unat a + unat b - 2 ^ LENGTH('a)"
      using False by (simp add: le_mod_geq)
    then show ?thesis using False b s unfolding word_le_nat_alt by linarith
  qed (use s in \<open>simp add: word_le_nat_alt\<close>)
  then show ?thesis by (simp add: add_chk_def)
qed

lemma add_chk_SomeD: "add_chk a b = Some c \<Longrightarrow> c = a + b \<and> unat c = unat a + unat b"
  by (auto simp: add_chk_def unat_word_ariths split: if_splits)

lemma sub_chk_SomeD: "sub_chk a b = Some c \<Longrightarrow> c = a - b \<and> unat c = unat a - unat b"
  by (auto simp: sub_chk_def unat_sub split: if_splits)

lemma mul_chk_SomeD: "mul_chk a b = Some c \<Longrightarrow> c = a * b \<and> unat c = unat a * unat b"
  by (auto simp: mul_chk_def unat_word_ariths split: if_splits)

lemma unat_sat_sub: "unat (sat_sub a b) = unat a - unat b"
  by (auto simp: sat_sub_def unat_sub word_le_nat_alt)

lemma unat_sat_add:
  "unat (sat_add a (b :: 'a::len word)) = min (unat a + unat b) (2 ^ LENGTH('a) - 1)"
  by (auto simp: sat_add_def unat_word_ariths unsigned_minus_1_eq_mask mask_eq_exp_minus_1 min_def)

lemma sat_add_mono: "a \<le> sat_add a (b :: 'a::len word)"
proof -
  have "unat a < 2 ^ LENGTH('a)" by (rule unsigned_less)
  then have "unat a \<le> 2 ^ LENGTH('a) - 1" by linarith
  then show ?thesis by (simp add: word_le_nat_alt unat_sat_add)
qed

section \<open>Loops over fixed tables\<close>

primrec find_idx :: "('a \<Rightarrow> bool) \<Rightarrow> 'a list \<Rightarrow> nat option" where
  "find_idx P [] = None"
| "find_idx P (x # xs) = (if P x then Some 0 else map_option Suc (find_idx P xs))"

lemma find_idx_None_iff [simp]: "find_idx P xs = None \<longleftrightarrow> (\<forall>x \<in> set xs. \<not> P x)"
  by (induction xs) auto

lemma find_idx_Some_iff:
  "find_idx P xs = Some i \<longleftrightarrow> i < length xs \<and> P (xs ! i) \<and> (\<forall>j < i. \<not> P (xs ! j))"
proof (induction xs arbitrary: i)
  case Nil
  then show ?case by simp
next
  case (Cons x xs)
  show ?case
    by (cases i) (auto simp: Cons.IH All_less_Suc2)
qed

lemma find_idx_SomeD:
  assumes "find_idx P xs = Some i"
  shows "i < length xs" and "P (xs ! i)" and "j < i \<Longrightarrow> \<not> P (xs ! j)"
  using assms by (auto simp: find_idx_Some_iff)

lemma find_idx_cong:
  "length xs = length ys \<Longrightarrow> (\<And>i. i < length xs \<Longrightarrow> P (xs ! i) = Q (ys ! i)) \<Longrightarrow>
   find_idx P xs = find_idx Q ys"
proof (induction xs ys rule: list_induct2)
  case Nil
  then show ?case by simp
next
  case (Cons x xs y ys)
  from Cons.prems [of 0] have "P x = Q y" by simp
  moreover have "find_idx P xs = find_idx Q ys"
    using Cons.prems [of "Suc i" for i] by (intro Cons.IH) simp
  ultimately show ?case by simp
qed

lemma nth_upd_ite: "j < length xs \<Longrightarrow> xs[i := v] ! j = (if i = j then v else xs ! j)"
  by (simp add: nth_list_update)

lemma map_of_update:
  assumes "distinct (map fst xs)" and "i < length xs" and "fst (xs ! i) = k"
  shows "map_of (xs[i := (k, v)]) = (map_of xs)(k \<mapsto> v)"
proof
  fix x
  have d: "distinct (map fst (xs[i := (k, v)]))"
    using assms by (metis distinct_list_update fst_conv list_update_id map_update nth_map)
  have m: "(a, b) \<in> set (xs[i := (k, v)]) \<longleftrightarrow> (if a = k then b = v else (a, b) \<in> set xs)" for a b
  proof -
    have "(a, b) \<in> set (xs[i := (k, v)]) \<longleftrightarrow> (\<exists>j < length xs. (if j = i then (k, v) else xs ! j) = (a, b))"
      by (auto simp: in_set_conv_nth nth_list_update)
    moreover have "xs ! j = (k, b) \<and> j < length xs \<Longrightarrow> j = i" for j b
      using assms by (metis fst_conv length_map nth_eq_iff_index_eq nth_map)
    moreover have "(\<exists>j < length xs. xs ! j = (a, b)) \<longleftrightarrow> (a, b) \<in> set xs" by (auto simp: in_set_conv_nth)
    ultimately show ?thesis using assms by (smt (verit, ccfv_SIG) fst_conv prod.inject)
  qed
  show "map_of (xs[i := (k, v)]) x = ((map_of xs)(k \<mapsto> v)) x"
    using m map_of_eq_Some_iff [OF d, of x] map_of_eq_Some_iff [OF assms(1), of x]
    by (cases "x = k") (simp_all, metis not_Some_eq)
qed

primrec upd_first :: "('a \<Rightarrow> bool) \<Rightarrow> ('a \<Rightarrow> 'a) \<Rightarrow> 'a list \<Rightarrow> 'a list" where
  "upd_first P f [] = []"
| "upd_first P f (x # xs) = (if P x then f x # xs else x # upd_first P f xs)"

lemma length_upd_first [simp]: "length (upd_first P f xs) = length xs"
  by (induction xs) auto

lemma upd_first_find_idx:
  "upd_first P f xs = (case find_idx P xs of None \<Rightarrow> xs | Some i \<Rightarrow> xs[i := f (xs ! i)])"
  by (induction xs) (auto simp del: find_idx_None_iff split: option.split)

lemma map_upd_first [simp]: "(\<And>x. g (f x) = g x) \<Longrightarrow> map g (upd_first P f xs) = map g xs"
  by (induction xs) auto

lemma upd_first_unique:
  "distinct (map k xs) \<Longrightarrow> i < length xs \<Longrightarrow>
    upd_first (\<lambda>x. k x = q) f xs ! i = (if k (xs ! i) = q then f (xs ! i) else xs ! i)"
proof (induction xs arbitrary: i)
  case (Cons x xs)
  have "k (xs ! j) \<noteq> q" if "k x = q" "j < length xs" for j
    using Cons.prems(1) that by (metis distinct.simps(2) image_eqI list.set_map list.simps(9) nth_mem)
  with Cons show ?case by (cases i) simp_all
qed simp

text \<open>The index of the smallest key; the first one among equals (a strict \<open><\<close> replaces).\<close>

primrec min_idx_aux :: "('a \<Rightarrow> 'b::linorder) \<Rightarrow> 'a list \<Rightarrow> nat \<Rightarrow> nat \<Rightarrow> 'b \<Rightarrow> nat" where
  "min_idx_aux key [] i m km = m"
| "min_idx_aux key (x # xs) i m km =
     (if key x < km then min_idx_aux key xs (Suc i) i (key x)
      else min_idx_aux key xs (Suc i) m km)"

definition min_idx :: "('a \<Rightarrow> 'b::linorder) \<Rightarrow> 'a list \<Rightarrow> nat" where
  "min_idx key xs = (case xs of [] \<Rightarrow> 0 | x # ys \<Rightarrow> min_idx_aux key ys 1 0 (key x))"

lemma drop_Suc_nth: "drop i xs = y # ys \<Longrightarrow> drop (Suc i) xs = ys"
  by (metis drop_Suc list.sel(3) tl_drop)

lemma min_idx_aux_spec:
  assumes "i + length ys = length xs" and "drop i xs = ys" and "m < length xs"
    and "km = key (xs ! m)" and "\<forall>j < i. km \<le> key (xs ! j)"
  shows "min_idx_aux key ys i m km < length xs \<and>
    (\<forall>j < length xs. key (xs ! min_idx_aux key ys i m km) \<le> key (xs ! j))"
  using assms
proof (induction ys arbitrary: i m km)
  case Nil
  then show ?case by simp
next
  case (Cons y ys)
  then have i: "i < length xs" and y: "y = xs ! i" and d: "drop (Suc i) xs = ys"
    by (simp_all add: nth_via_drop drop_Suc_nth)
  show ?case
  proof (cases "key y < km")
    case True
    have "\<forall>j < Suc i. key y \<le> key (xs ! j)"
      using Cons.prems(5) True y by (auto simp: less_Suc_eq intro: order.trans less_imp_le)
    with True Cons.prems(1) i y d show ?thesis by (simp add: Cons.IH)
  next
    case False
    have "\<forall>j < Suc i. km \<le> key (xs ! j)"
      using Cons.prems(5) False y by (auto simp: less_Suc_eq)
    with False Cons.prems d show ?thesis by (simp add: Cons.IH)
  qed
qed

lemma min_idx_aux_first:
  assumes "drop i xs = ys" and "i + length ys = length xs" and "km = key (xs ! m)" and "\<forall>j < i. km \<le> key (xs ! j)"
    and "\<forall>j < m. km < key (xs ! j)"
  shows "\<forall>j < min_idx_aux key ys i m km. key (xs ! min_idx_aux key ys i m km) < key (xs ! j)"
  using assms
proof (induction ys arbitrary: i m km)
  case Nil
  then show ?case by simp
next
  case (Cons y ys)
  then have y: "y = xs ! i" and d: "drop (Suc i) xs = ys" "Suc i + length ys = length xs"
    by (simp_all add: nth_via_drop drop_Suc_nth)
  show ?case
  proof (cases "key y < km")
    case True
    then have "\<forall>j < i. key y < key (xs ! j)" using Cons.prems(4) by (auto intro: less_le_trans)
    moreover from this have "\<forall>j < Suc i. key y \<le> key (xs ! j)" using y by (auto simp: less_Suc_eq less_imp_le)
    ultimately show ?thesis using Cons.IH [OF d, of "key y" i] y True by simp
  next
    case False
    then have "\<forall>j < Suc i. km \<le> key (xs ! j)" using Cons.prems(4) y by (auto simp: less_Suc_eq)
    with Cons.IH [OF d Cons.prems(3)] Cons.prems(5) False show ?thesis by simp
  qed
qed

lemma min_idx_first: "j < min_idx key xs \<Longrightarrow> key (xs ! min_idx key xs) < key (xs ! j)"
  using min_idx_aux_first [of 1 xs "tl xs" "key (hd xs)" key 0]
  by (cases xs) (auto simp: min_idx_def)

lemma min_idx_spec:
  assumes "xs \<noteq> []"
  shows "min_idx key xs < length xs"
    and "j < length xs \<Longrightarrow> key (xs ! min_idx key xs) \<le> key (xs ! j)"
proof -
  obtain x ys where xs: "xs = x # ys"
    using assms by (cases xs) auto
  have "min_idx_aux key ys 1 0 (key x) < length xs \<and>
    (\<forall>j < length xs. key (xs ! min_idx_aux key ys 1 0 (key x)) \<le> key (xs ! j))"
    by (rule min_idx_aux_spec) (auto simp: xs)
  then show "min_idx key xs < length xs"
    and "j < length xs \<Longrightarrow> key (xs ! min_idx key xs) \<le> key (xs ! j)"
    by (simp_all add: min_idx_def xs)
qed

lemma block_skip:
  "0 < n \<Longrightarrow> w * n \<le> f \<Longrightarrow> f div n \<noteq> w \<Longrightarrow> Suc w * n \<le> (f :: nat)"
  by (metis Suc_leI le_neq_implies_less less_eq_div_iff_mult_less_eq)

lemma block_mem:
  "w * n \<le> g \<Longrightarrow> g < w * n + b \<Longrightarrow> b \<le> n \<Longrightarrow> g div n = w \<and> g mod n < (b :: nat)"
proof -
  assume a: "w * n \<le> g" "g < w * n + b" "b \<le> n"
  then obtain k where g: "g = w * n + k" and k: "k < b"
    by (metis le_add_diff_inverse nat_add_left_cancel_less)
  with a(3) have "k < n" by simp
  then show ?thesis by (simp add: g k)
qed

lemma divmod_inject: "a div n = b div n \<Longrightarrow> b mod n = a mod n \<Longrightarrow> a = (b :: nat)"
  by (metis div_mult_mod_eq)

section \<open>Bits\<close>

text \<open>The simplifier turns \<open>1 << n\<close>, that is \<open>push_bit n 1\<close>, into \<open>2 ^ n\<close>.\<close>

lemma bit_set_bit_word:
  "bit (v OR (2 :: 'a::len word) ^ n) k \<longleftrightarrow> bit v k \<or> (n = k \<and> k < LENGTH('a))"
  by (auto simp: bit_simps)

lemma bit_clear_bit_word:
  "bit (v AND NOT ((2 :: 'a::len word) ^ n)) k \<longleftrightarrow> bit v k \<and> n \<noteq> k"
  by (auto simp: bit_simps dest: bit_imp_le_length)

lemma test_bit_word:
  "v AND (2 :: 'a::len word) ^ n \<noteq> 0 \<longleftrightarrow> bit v n"
proof -
  have "v AND 2 ^ n \<noteq> 0 \<longleftrightarrow> (\<exists>k. bit (v AND 2 ^ n) k)"
    by (metis bit_0_eq bit_eq_iff bot_apply bot_bool_def)
  also have "\<dots> \<longleftrightarrow> bit v n"
    by (auto simp: bit_simps dest: bit_imp_le_length)
  finally show ?thesis .
qed

lemma word_neq_0_bit: "(v :: 'a::len word) \<noteq> 0 \<longleftrightarrow> (\<exists>n < LENGTH('a). bit v n)"
  by (metis bit_0_eq bit_eq_iff bit_imp_le_length bot_apply bot_bool_def)

text \<open>\<open>u64::trailing_zeros\<close>, as a scan from the lowest bit.\<close>

function tz_from :: "nat \<Rightarrow> u64 \<Rightarrow> nat" where
  "tz_from i v = (if i < 64 then if bit v i then i else tz_from (Suc i) v else 64)"
  by pat_completeness auto
termination by (relation "measure (\<lambda>(i, v). 64 - i)") auto

declare tz_from.simps [simp del]

definition trailing_zeros :: "u64 \<Rightarrow> nat" where
  "trailing_zeros v = tz_from 0 v"

lemma tz_from_spec:
  assumes "\<exists>k \<ge> i. k < 64 \<and> bit v k"
  shows "i \<le> tz_from i v \<and> tz_from i v < 64 \<and> bit v (tz_from i v) \<and>
    (\<forall>k. i \<le> k \<longrightarrow> k < tz_from i v \<longrightarrow> \<not> bit v k)"
  using assms
proof (induction i v rule: tz_from.induct)
  case (1 i v)
  then have i: "i < 64" by auto
  show ?case
  proof (cases "bit v i")
    case True
    with i show ?thesis by (subst (1 2 3 4) tz_from.simps) simp
  next
    case False
    with 1 i have IH: "Suc i \<le> tz_from (Suc i) v \<and> tz_from (Suc i) v < 64 \<and>
      bit v (tz_from (Suc i) v) \<and> (\<forall>k. Suc i \<le> k \<longrightarrow> k < tz_from (Suc i) v \<longrightarrow> \<not> bit v k)"
      by (metis Suc_leI le_neq_implies_less)
    have "tz_from i v = tz_from (Suc i) v"
      using i False by (subst tz_from.simps) simp
    with IH False show ?thesis
      by (metis Suc_leD Suc_leI le_neq_implies_less)
  qed
qed

lemma trailing_zeros_spec:
  assumes "v \<noteq> 0"
  shows "trailing_zeros v < 64" and "bit v (trailing_zeros v)"
    and "k < trailing_zeros v \<Longrightarrow> \<not> bit v k"
  using tz_from_spec [of 0 v] assms by (auto simp: trailing_zeros_def word_neq_0_bit)

section \<open>Loops with a fallible body\<close>

primrec mfold :: "('a \<Rightarrow> 's \<Rightarrow> 's option) \<Rightarrow> 'a list \<Rightarrow> 's \<Rightarrow> 's option" where
  "mfold f [] s = Some s"
| "mfold f (x # xs) s = do { s \<leftarrow> f x s; mfold f xs s }"

lemma mfold_invariant:
  assumes "mfold f xs s = Some s'" and "I s" and "\<And>x s s'. x \<in> set xs \<Longrightarrow> I s \<Longrightarrow> f x s = Some s' \<Longrightarrow> I s'"
  shows "I s'"
  using assms by (induction xs arbitrary: s) (auto simp: bind_eq_Some_conv)

lemma mfold_total:
  assumes "I s" and "\<And>x s. x \<in> set xs \<Longrightarrow> I s \<Longrightarrow> \<exists>s'. f x s = Some s' \<and> I s'"
  shows "\<exists>s'. mfold f xs s = Some s' \<and> I s'"
  using assms
proof (induction xs arbitrary: s)
  case (Cons x xs)
  then obtain s1 where "f x s = Some s1" "I s1" by (meson list.set_intros(1))
  with Cons.IH [of s1] Cons.prems(2) show ?case by auto
qed simp

text \<open>The slots of a window of consecutive positions in a ring are distinct.\<close>

lemma mod_window: "i < n \<Longrightarrow> Suc n \<le> i + m \<Longrightarrow> i mod m \<noteq> n mod (m :: nat)"
proof
  assume "i < n" "Suc n \<le> i + m" "i mod m = n mod m"
  then have "m dvd n - i" using mod_eq_dvd_iff_nat [of i n m] by auto
  then show False using \<open>i < n\<close> \<open>Suc n \<le> i + m\<close> dvd_imp_le [of m "n - i"] by linarith
qed

section \<open>Words as little-endian bytes\<close>

definition to_le_bytes :: "u64 \<Rightarrow> bytes" where
  "to_le_bytes v = map (\<lambda>i. ucast (drop_bit (8 * i) v)) [0..<8]"

primrec from_le_bytes :: "bytes \<Rightarrow> 'a::len word" where
  "from_le_bytes [] = 0"
| "from_le_bytes (b # bs) = ucast b OR push_bit 8 (from_le_bytes bs)"

lemma length_to_le_bytes [simp]: "length (to_le_bytes v) = 8"
  by (simp add: to_le_bytes_def)

lemma bit_from_le_bytes:
  "bit (from_le_bytes bs :: 'a::len word) n \<longleftrightarrow>
     n < LENGTH('a) \<and> n div 8 < length bs \<and> bit (bs ! (n div 8)) (n mod 8)"
proof (induction bs arbitrary: n)
  case Nil
  then show ?case by simp
next
  case (Cons b bs)
  show ?case
  proof (cases "n < 8")
    case True
    then show ?thesis by (auto simp: bit_simps dest: bit_imp_le_length)
  next
    case False
    then have d: "n div 8 = Suc ((n - 8) div 8)" and m: "n mod 8 = (n - 8) mod 8"
      by (simp_all add: le_div_geq le_mod_geq)
    from False have "\<not> bit b n" by (auto dest: bit_imp_le_length)
    with False show ?thesis
      by (auto simp: bit_simps Cons.IH d m)
  qed
qed

lemma from_to_le_bytes [simp]: "(from_le_bytes (to_le_bytes v) :: u64) = v"
proof (rule bit_word_eqI)
  fix n
  assume n: "n < LENGTH(64)"
  then have k: "n div 8 < 8" by simp
  have "bit (to_le_bytes v ! (n div 8)) (n mod 8) = bit v n"
    using n k by (simp add: to_le_bytes_def bit_simps)
  with n k show "bit (from_le_bytes (to_le_bytes v) :: u64) n = bit v n"
    by (simp add: bit_from_le_bytes)
qed

end
