(* ===== verification/Frame_Alloc.thy ===== *)
theory Frame_Alloc
  imports Kernel_Prelude
begin

text \<open>
  The bitmap allocator of physical frames, \<open>kernel/src/memory/frame.rs\<close>.

  The static \<open>BITMAP\<close> is an array of 32768 words, one bit per 4 KiB frame (1 = free);
  it is a function from the word index, and every access checks the index as Rust does.
  The two counters are atomics and wrap. \<open>free_set\<close> is the abstract state: the set of
  free frame numbers. The lemmas show that each operation is the expected operation on
  that set, that \<open>FREE_FRAMES\<close> is always its cardinality, and that no operation panics.
\<close>

section \<open>State\<close>

definition PAGE_SIZE :: u64 where "PAGE_SIZE = 4096"
definition BITMAP_WORDS :: nat where "BITMAP_WORDS = 32768"
definition MAX_FRAMES :: nat where "MAX_FRAMES = BITMAP_WORDS * 64"

record frames =
  BITMAP :: "nat \<Rightarrow> u64"
  FREE_FRAMES :: u64
  TOTAL_USABLE :: u64

record memmap_entry =
  me_base :: u64
  me_length :: u64
  me_type :: u64

definition frames_bss :: frames where
  "frames_bss = \<lparr>BITMAP = (\<lambda>_. 0), FREE_FRAMES = 0, TOTAL_USABLE = 0\<rparr>"

section \<open>Bit helpers\<close>

text \<open>The three helpers index \<open>BITMAP[frame / 64]\<close>; out of range is a panic.\<close>

definition set_free :: "nat \<Rightarrow> frames \<Rightarrow> frames option" where
  "set_free frame s = (if frame div 64 < BITMAP_WORDS
     then Some (s\<lparr>BITMAP := (BITMAP s)(frame div 64 :=
            BITMAP s (frame div 64) OR push_bit (frame mod 64) 1)\<rparr>)
     else None)"

definition set_used :: "nat \<Rightarrow> frames \<Rightarrow> frames option" where
  "set_used frame s = (if frame div 64 < BITMAP_WORDS
     then Some (s\<lparr>BITMAP := (BITMAP s)(frame div 64 :=
            BITMAP s (frame div 64) AND NOT (push_bit (frame mod 64) 1))\<rparr>)
     else None)"

definition is_free :: "nat \<Rightarrow> frames \<Rightarrow> bool option" where
  "is_free frame s = (if frame div 64 < BITMAP_WORDS
     then Some (BITMAP s (frame div 64) AND push_bit (frame mod 64) 1 \<noteq> 0) else None)"

section \<open>Initialisation\<close>

text \<open>\<open>for frame in start..end \<^verbatim>\<open>{ set_free(frame); free += 1 }\<close>\<close>\<close>

function mark_range :: "nat \<Rightarrow> nat \<Rightarrow> frames \<times> u64 \<Rightarrow> (frames \<times> u64) option" where
  "mark_range i e (s, free) =
     (if i < e
      then do { s' \<leftarrow> set_free i s; free' \<leftarrow> add_chk free 1; mark_range (Suc i) e (s', free') }
      else Some (s, free))"
  by pat_completeness auto
termination by (relation "measure (\<lambda>(i, e, _). e - i)") auto

declare mark_range.simps [simp del]

text \<open>The scan of the boot loader's memory map; \<open>usable\<close> is limine's \<open>MEMMAP_USABLE\<close>.\<close>

fun scan_memmap ::
  "u64 \<Rightarrow> memmap_entry list \<Rightarrow> frames \<Rightarrow> u64 \<Rightarrow> u64 \<Rightarrow> (frames \<times> u64 \<times> u64) option"
where
  "scan_memmap usable [] s tot free = Some (s, tot, free)"
| "scan_memmap usable (e # es) s tot free =
     (if me_type e \<noteq> usable then scan_memmap usable es s tot free
      else do {
        let start_frame = unat (me_base e div PAGE_SIZE);
        end_addr \<leftarrow> add_chk (me_base e) (me_length e);
        let end_frame = unat (end_addr div PAGE_SIZE);
        (s', free') \<leftarrow> mark_range start_frame (min end_frame MAX_FRAMES) (s, free);
        tot' \<leftarrow> add_chk tot (me_length e div PAGE_SIZE);
        scan_memmap usable es s' tot' free'
      })"

definition frame_init :: "u64 \<Rightarrow> memmap_entry list \<Rightarrow> frames \<Rightarrow> frames option" where
  "frame_init usable entries s = do {
     (s', tot, free) \<leftarrow> scan_memmap usable entries s 0 0;
     Some (s'\<lparr>FREE_FRAMES := free, TOTAL_USABLE := tot\<rparr>)
   }"

section \<open>Allocation and release\<close>

text \<open>The loop of \<open>alloc_frame\<close> from word \<open>word_idx\<close> on.\<close>

function alloc_frame_from :: "nat \<Rightarrow> frames \<Rightarrow> frames \<times> u64 option" where
  "alloc_frame_from word_idx s =
     (if word_idx < BITMAP_WORDS then
        let word_val = BITMAP s word_idx in
        if word_val = 0 then alloc_frame_from (Suc word_idx) s
        else
          let bit = trailing_zeros word_val;
              s' = s\<lparr>BITMAP := (BITMAP s)(word_idx := word_val AND NOT (push_bit bit 1)),
                     FREE_FRAMES := FREE_FRAMES s - 1\<rparr>;
              frame_idx = word_idx * 64 + bit
          in (s', Some (of_nat frame_idx * PAGE_SIZE))
      else (s, None))"
  by pat_completeness auto
termination by (relation "measure (\<lambda>(w, s). BITMAP_WORDS - w)") auto

declare alloc_frame_from.simps [simp del]

definition alloc_frame :: "frames \<Rightarrow> frames \<times> u64 option" where
  "alloc_frame s = alloc_frame_from 0 s"

function mark_used_range :: "nat \<Rightarrow> nat \<Rightarrow> frames \<Rightarrow> frames option" where
  "mark_used_range i e s =
     (if i < e then do { s' \<leftarrow> set_used i s; mark_used_range (Suc i) e s' } else Some s)"
  by pat_completeness auto
termination by (relation "measure (\<lambda>(i, e, _). e - i)") auto

declare mark_used_range.simps [simp del]

text \<open>The loop of \<open>alloc_contiguous\<close>: \<open>run_start\<close> and \<open>run_len\<close> describe the current run.\<close>

function contiguous_from ::
  "nat \<Rightarrow> nat \<Rightarrow> nat \<Rightarrow> nat \<Rightarrow> frames \<Rightarrow> (frames \<times> u64 option) option"
where
  "contiguous_from count frame run_start run_len s =
     (if frame < MAX_FRAMES then do {
        fr \<leftarrow> is_free frame s;
        if fr then
          let run_start' = (if run_len = 0 then frame else run_start);
              run_len' = run_len + 1 in
          if run_len' = count then do {
            s' \<leftarrow> mark_used_range run_start' (run_start' + count) s;
            Some (s'\<lparr>FREE_FRAMES := FREE_FRAMES s' - of_nat count\<rparr>,
                  Some (of_nat run_start' * PAGE_SIZE))
          }
          else contiguous_from count (Suc frame) run_start' run_len' s
        else contiguous_from count (Suc frame) run_start 0 s
      } else Some (s, None))"
  by pat_completeness auto
termination by (relation "measure (\<lambda>(c, f, _). MAX_FRAMES - f)") auto

declare contiguous_from.simps [simp del]

definition alloc_contiguous :: "nat \<Rightarrow> frames \<Rightarrow> (frames \<times> u64 option) option" where
  "alloc_contiguous count s =
     (if count = 0 then Some (s, None) else contiguous_from count 0 0 0 s)"

definition free_frame :: "u64 \<Rightarrow> frames \<Rightarrow> frames option" where
  "free_frame phys_addr s =
     (let frame = unat (phys_addr div PAGE_SIZE) in
      if frame < MAX_FRAMES then do {
        fr \<leftarrow> is_free frame s;
        if \<not> fr then do {
          s' \<leftarrow> set_free frame s;
          Some (s'\<lparr>FREE_FRAMES := FREE_FRAMES s' + 1\<rparr>)
        } else Some s
      } else Some s)"

section \<open>The abstract allocator\<close>

definition free_set :: "frames \<Rightarrow> nat set" where
  "free_set s = {f. f < MAX_FRAMES \<and> bit (BITMAP s (f div 64)) (f mod 64)}"

definition frames_ok :: "frames \<Rightarrow> bool" where
  "frames_ok s \<longleftrightarrow> FREE_FRAMES s = of_nat (card (free_set s))"

definition frame_addr :: "nat \<Rightarrow> u64" where
  "frame_addr f = of_nat f * PAGE_SIZE"

lemmas frame_consts = BITMAP_WORDS_def MAX_FRAMES_def PAGE_SIZE_def

lemma free_set_bound: "f \<in> free_set s \<Longrightarrow> f < MAX_FRAMES"
  by (simp add: free_set_def)

lemma finite_free_set [simp]: "finite (free_set s)"
  by (rule finite_subset [of _ "{..<MAX_FRAMES}"]) (auto simp: free_set_def)

lemma free_set_counters [simp]:
  "free_set (s\<lparr>FREE_FRAMES := n\<rparr>) = free_set s"
  "free_set (s\<lparr>TOTAL_USABLE := n\<rparr>) = free_set s"
  by (simp_all add: free_set_def)

lemma frame_index: "f < MAX_FRAMES \<longleftrightarrow> f div 64 < BITMAP_WORDS"
  by (simp add: frame_consts div_less_iff_less_mult)

lemma frame_addr_inject:
  assumes "f < MAX_FRAMES" and "g < MAX_FRAMES"
  shows "frame_addr f = frame_addr g \<longleftrightarrow> f = g"
proof -
  have "unat (frame_addr h) = h * 4096" if "h < MAX_FRAMES" for h
    using that by (simp add: frame_addr_def PAGE_SIZE_def unat_word_ariths unat_of_nat
        MAX_FRAMES_def BITMAP_WORDS_def)
  with assms show ?thesis
    by (metis mult_cancel2 zero_neq_numeral)
qed

lemma frame_of_addr:
  assumes "f < MAX_FRAMES"
  shows "unat (frame_addr f div PAGE_SIZE) = f"
proof -
  have "unat (frame_addr f) = f * 4096"
    using assms by (simp add: frame_addr_def PAGE_SIZE_def unat_word_ariths unat_of_nat
        MAX_FRAMES_def BITMAP_WORDS_def)
  then show ?thesis by (simp add: unat_div PAGE_SIZE_def)
qed

lemma set_free_spec:
  assumes "f < MAX_FRAMES"
  shows "\<exists>s'. set_free f s = Some s' \<and> free_set s' = insert f (free_set s) \<and>
    FREE_FRAMES s' = FREE_FRAMES s \<and> TOTAL_USABLE s' = TOTAL_USABLE s"
proof -
  let ?s = "s\<lparr>BITMAP := (BITMAP s)(f div 64 := BITMAP s (f div 64) OR push_bit (f mod 64) 1)\<rparr>"
  have "x \<in> free_set ?s \<longleftrightarrow> x \<in> insert f (free_set s)" for x
    using assms divmod_inject [of x 64 f]
    by (auto simp: free_set_def bit_set_bit_word split: if_splits)
  then have "free_set ?s = insert f (free_set s)" by blast
  moreover have "set_free f s = Some ?s"
    using assms by (simp add: set_free_def frame_index)
  ultimately show ?thesis by simp
qed

lemma set_used_spec:
  assumes "f < MAX_FRAMES"
  shows "\<exists>s'. set_used f s = Some s' \<and> free_set s' = free_set s - {f} \<and>
    FREE_FRAMES s' = FREE_FRAMES s \<and> TOTAL_USABLE s' = TOTAL_USABLE s"
proof -
  let ?s = "s\<lparr>BITMAP := (BITMAP s)(f div 64 := BITMAP s (f div 64) AND NOT (push_bit (f mod 64) 1))\<rparr>"
  have "x \<in> free_set ?s \<longleftrightarrow> x \<in> free_set s - {f}" for x
    using divmod_inject [of x 64 f]
    by (auto simp: free_set_def bit_clear_bit_word split: if_splits)
  then have "free_set ?s = free_set s - {f}" by blast
  moreover have "set_used f s = Some ?s"
    using assms by (simp add: set_used_def frame_index)
  ultimately show ?thesis by simp
qed

lemma is_free_spec:
  assumes "f < MAX_FRAMES"
  shows "is_free f s = Some (f \<in> free_set s)"
  using assms by (simp add: is_free_def frame_index free_set_def test_bit_word)

section \<open>Operations on the abstract set\<close>

lemma mark_range_spec:
  assumes "e \<le> MAX_FRAMES" and "unat free + (e - i) < 2 ^ 64"
  shows "\<exists>s'. mark_range i e (s, free) = Some (s', free + of_nat (e - i)) \<and>
    free_set s' = free_set s \<union> {i..<e}"
  using assms
proof (induction "e - i" arbitrary: i s free)
  case 0
  then show ?case by (simp add: mark_range.simps)
next
  case (Suc n)
  then have i: "i < e" and n: "n = e - Suc i" by simp_all
  obtain s1 where s1: "set_free i s = Some s1" and f1: "free_set s1 = insert i (free_set s)"
    using set_free_spec [of i s] Suc.prems(1) i by auto
  have u: "unat (free + 1) = unat free + 1"
    using Suc.prems(2) i by (simp add: unat_word_ariths)
  have a: "add_chk free 1 = Some (free + 1)"
    using Suc.prems(2) i by (simp add: add_chk_def)
  obtain s' where s': "mark_range (Suc i) e (s1, free + 1) = Some (s', free + 1 + of_nat (e - Suc i))"
    and f': "free_set s' = free_set s1 \<union> {Suc i..<e}"
    using Suc.hyps(1) [OF n Suc.prems(1), of "free + 1" s1] Suc.prems(2) i u by force
  have "e - i = Suc (e - Suc i)" using i by simp
  then have "mark_range i e (s, free) = Some (s', free + of_nat (e - i))"
    using i s1 a s' by (subst mark_range.simps) (simp add: algebra_simps)
  moreover have "free_set s' = free_set s \<union> {i..<e}"
    using f' f1 i by fastforce
  ultimately show ?case by blast
qed

lemma alloc_frame_from_spec:
  assumes "w \<le> BITMAP_WORDS" and "\<forall>f \<in> free_set s. w * 64 \<le> f"
  shows "if free_set s = {} then alloc_frame_from w s = (s, None)
    else \<exists>s'. alloc_frame_from w s = (s', Some (frame_addr (Min (free_set s)))) \<and>
      free_set s' = free_set s - {Min (free_set s)} \<and> FREE_FRAMES s' = FREE_FRAMES s - 1 \<and>
      TOTAL_USABLE s' = TOTAL_USABLE s"
  using assms
proof (induction w s rule: alloc_frame_from.induct)
  case (1 w s)
  show ?case
  proof (cases "w < BITMAP_WORDS")
    case False
    then have "free_set s = {}"
      using "1.prems" by (fastforce simp: free_set_def MAX_FRAMES_def)
    with False show ?thesis by (simp add: alloc_frame_from.simps)
  next
    case w: True
    let ?v = "BITMAP s w"
    show ?thesis
    proof (cases "?v = 0")
      case True
      have "f \<in> free_set s \<Longrightarrow> Suc w * 64 \<le> f" for f
      proof -
        assume f: "f \<in> free_set s"
        then have "w * 64 \<le> f" and "f div 64 \<noteq> w"
          using True "1.prems"(2) by (auto simp: free_set_def)
        then show ?thesis by (intro block_skip) simp_all
      qed
      moreover have "alloc_frame_from w s = alloc_frame_from (Suc w) s"
        using w True by (subst alloc_frame_from.simps) simp
      ultimately show ?thesis
        using "1.IH" [OF w refl True] w by simp
    next
      case False
      let ?b = "trailing_zeros ?v" and ?f = "w * 64 + trailing_zeros (BITMAP s w)"
      note tz = trailing_zeros_spec [OF False]
      have d: "?f div 64 = w" "?f mod 64 = ?b" using tz(1) by simp_all
      have fM: "?f < MAX_FRAMES" using w d(1) by (simp add: frame_index)
      have mem: "?f \<in> free_set s" using fM d tz(2) by (simp add: free_set_def)
      have "?f \<le> g" if g: "g \<in> free_set s" for g
      proof (rule ccontr)
        assume "\<not> ?f \<le> g"
        moreover have "w * 64 \<le> g" using "1.prems"(2) g by blast
        ultimately have "g div 64 = w \<and> g mod 64 < ?b"
          using tz(1) by (intro block_mem) simp_all
        with tz(3) g show False by (auto simp: free_set_def)
      qed
      with mem have Min: "Min (free_set s) = ?f" by (intro Min_eqI) auto
      obtain s1 where "set_used ?f s = Some s1" and f1: "free_set s1 = free_set s - {?f}"
        and c1: "FREE_FRAMES s1 = FREE_FRAMES s" "TOTAL_USABLE s1 = TOTAL_USABLE s"
        using set_used_spec [OF fM, of s] by blast
      then have s1: "s1 = s\<lparr>BITMAP := (BITMAP s)(w := ?v AND NOT (push_bit ?b 1))\<rparr>"
        using d w by (simp add: set_used_def)
      have "alloc_frame_from w s = (s1\<lparr>FREE_FRAMES := FREE_FRAMES s - 1\<rparr>, Some (frame_addr ?f))"
        using w False unfolding s1 by (subst alloc_frame_from.simps) (simp add: Let_def frame_addr_def)
      with mem Min f1 c1 show ?thesis by auto
    qed
  qed
qed

lemmas alloc_frame_spec = alloc_frame_from_spec [of 0, simplified, folded alloc_frame_def]

lemma alloc_frame_None: "alloc_frame s = (s', None) \<longleftrightarrow> free_set s = {} \<and> s' = s"
proof (cases "free_set s = {}")
  case True
  then show ?thesis using alloc_frame_spec [of s] by auto
next
  case False
  then obtain t where "alloc_frame s = (t, Some (frame_addr (Min (free_set s))))"
    using alloc_frame_spec [of s] by metis
  with False show ?thesis by simp
qed

lemma alloc_frame_Some:
  assumes "alloc_frame s = (s', Some pa)"
  shows "free_set s \<noteq> {}" and "pa = frame_addr (Min (free_set s))"
    and "free_set s' = free_set s - {Min (free_set s)}" and "FREE_FRAMES s' = FREE_FRAMES s - 1"
  using assms alloc_frame_spec [of s] by (cases "free_set s = {}"; simp; blast)+

lemma mark_used_range_spec:
  assumes "e \<le> MAX_FRAMES"
  shows "\<exists>s'. mark_used_range i e s = Some s' \<and> free_set s' = free_set s - {i..<e} \<and>
    FREE_FRAMES s' = FREE_FRAMES s \<and> TOTAL_USABLE s' = TOTAL_USABLE s"
  using assms
proof (induction "e - i" arbitrary: i s)
  case 0
  then show ?case by (simp add: mark_used_range.simps)
next
  case (Suc n)
  then have i: "i < e" and n: "n = e - Suc i" by simp_all
  obtain s1 where s1: "set_used i s = Some s1" and f1: "free_set s1 = free_set s - {i}"
    and c1: "FREE_FRAMES s1 = FREE_FRAMES s" "TOTAL_USABLE s1 = TOTAL_USABLE s"
    using set_used_spec [of i s] Suc.prems i by auto
  obtain s' where s': "mark_used_range (Suc i) e s1 = Some s'"
    and f': "free_set s' = free_set s1 - {Suc i..<e}"
    and c': "FREE_FRAMES s' = FREE_FRAMES s1" "TOTAL_USABLE s' = TOTAL_USABLE s1"
    using Suc.hyps(1) [OF n] Suc.prems by blast
  have "mark_used_range i e s = Some s'"
    using i s1 s' by (subst mark_used_range.simps) simp
  moreover have "free_set s' = free_set s - {i..<e}"
    using f' f1 i by fastforce
  ultimately show ?case using c1 c' by simp
qed

text \<open>A run of \<open>count\<close> free frames starting at \<open>r\<close>.\<close>

definition run_at :: "nat \<Rightarrow> nat \<Rightarrow> frames \<Rightarrow> bool" where
  "run_at count r s \<longleftrightarrow> {r..<r + count} \<subseteq> free_set s"

definition contiguous_result :: "nat \<Rightarrow> nat \<Rightarrow> frames \<Rightarrow> frames \<times> u64 option \<Rightarrow> bool" where
  "contiguous_result count r s res \<longleftrightarrow>
     (\<exists>s'. res = (s', Some (frame_addr r)) \<and> free_set s' = free_set s - {r..<r + count} \<and>
       FREE_FRAMES s' = FREE_FRAMES s - of_nat count)"

lemma run_at_bound: "run_at count r s \<Longrightarrow> 0 < count \<Longrightarrow> r + count \<le> MAX_FRAMES"
proof -
  assume r: "run_at count r s" and c: "0 < count"
  then have "r + count - 1 \<in> free_set s" by (auto simp: run_at_def)
  then have "r + count - 1 < MAX_FRAMES" by (rule free_set_bound)
  with c show ?thesis by simp
qed

lemma contiguous_from_spec:
  assumes "0 < count" and "frame \<le> MAX_FRAMES" and "run_len < count" and "run_len \<le> frame"
    and "{frame - run_len..<frame} \<subseteq> free_set s"
    and "run_len > 0 \<Longrightarrow> run_start = frame - run_len"
    and "\<forall>r. run_at count r s \<longrightarrow> frame - run_len \<le> r"
  shows "\<exists>res. contiguous_from count frame run_start run_len s = Some res \<and>
    (if \<exists>r. run_at count r s
     then \<exists>r. run_at count r s \<and> (\<forall>q. run_at count q s \<longrightarrow> r \<le> q) \<and>
       contiguous_result count r s res
     else res = (s, None))"
  using assms
proof (induction "MAX_FRAMES - frame" arbitrary: frame run_start run_len)
  case 0
  then have "\<not> run_at count r s" for r
    using run_at_bound [of count r s] by fastforce
  with 0 show ?case by (simp add: contiguous_from.simps)
next
  case (Suc n)
  then have frame: "frame < MAX_FRAMES" and n: "n = MAX_FRAMES - Suc frame" by simp_all
  let ?st = "frame - run_len"
  note unfold = contiguous_from.simps [of count frame run_start run_len s]
  show ?case
  proof (cases "frame \<in> free_set s")
    case False
    have "\<forall>r. run_at count r s \<longrightarrow> Suc frame \<le> r"
    proof (intro allI impI, rule ccontr)
      fix r
      assume r: "run_at count r s" and "\<not> Suc frame \<le> r"
      with Suc.prems have "frame \<in> {r..<r + count}" by fastforce
      with r False show False by (auto simp: run_at_def)
    qed
    then show ?thesis
      using Suc.hyps(1) [OF n, of 0 run_start] Suc.prems frame False
      by (simp add: unfold is_free_spec)
  next
    case True
    let ?rs = "if run_len = 0 then frame else run_start"
    have rs: "?rs = ?st" using Suc.prems(6) by simp
    have sub: "{?st..<Suc frame} \<subseteq> free_set s"
      using Suc.prems(4,5) True by (auto simp: less_Suc_eq)
    show ?thesis
    proof (cases "run_len + 1 = count")
      case c: True
      then have e: "?st + count = Suc frame" using Suc.prems(4) by simp
      then have run: "run_at count ?st s" using sub by (simp add: run_at_def)
      obtain s' where s': "mark_used_range ?st (?st + count) s = Some s'"
        "free_set s' = free_set s - {?st..<?st + count}" "FREE_FRAMES s' = FREE_FRAMES s"
        using mark_used_range_spec [of "?st + count" ?st s] e frame by auto
      have "contiguous_from count frame run_start run_len s =
          Some (s'\<lparr>FREE_FRAMES := FREE_FRAMES s' - of_nat count\<rparr>, Some (of_nat ?st * PAGE_SIZE))"
        using frame True c s'(1) by (simp add: unfold is_free_spec rs Let_def)
      moreover have "contiguous_result count ?st s
          (s'\<lparr>FREE_FRAMES := FREE_FRAMES s' - of_nat count\<rparr>, Some (of_nat ?st * PAGE_SIZE))"
        using s' by (simp add: contiguous_result_def frame_addr_def)
      ultimately show ?thesis using run Suc.prems(7) by auto
    next
      case False
      have st: "Suc frame - (run_len + 1) = ?st" by simp
      have "contiguous_from count frame run_start run_len s =
          contiguous_from count (Suc frame) ?rs (run_len + 1) s"
        using frame True False by (simp add: unfold is_free_spec Let_def)
      moreover have "run_len + 1 < count" using Suc.prems(3) False by simp
      ultimately show ?thesis
        using Suc.hyps(1) [OF n, of "run_len + 1" ?rs] Suc.prems frame sub rs
        unfolding st by simp
    qed
  qed
qed

lemma free_frame_spec:
  "\<exists>s'. free_frame pa s = Some s' \<and>
     (let f = unat (pa div PAGE_SIZE) in
      if f < MAX_FRAMES \<and> f \<notin> free_set s
      then free_set s' = insert f (free_set s) \<and> FREE_FRAMES s' = FREE_FRAMES s + 1
      else s' = s)"
proof -
  let ?f = "unat (pa div PAGE_SIZE)"
  show ?thesis
  proof (cases "?f < MAX_FRAMES \<and> ?f \<notin> free_set s")
    case True
    then obtain s1 where "set_free ?f s = Some s1" "free_set s1 = insert ?f (free_set s)"
      "FREE_FRAMES s1 = FREE_FRAMES s"
      using set_free_spec [of ?f s] by blast
    with True show ?thesis by (simp add: free_frame_def is_free_spec Let_def)
  next
    case False
    then show ?thesis by (auto simp: free_frame_def is_free_spec Let_def)
  qed
qed

section \<open>The interface the rest of the kernel allocates through\<close>

text \<open>
  A page source hands out pages it owns and takes them back. Paging, the IPC channels
  and the ELF loader rely on these laws only.
\<close>

fun alloc_many :: "('s \<Rightarrow> 's \<times> 'p option) \<Rightarrow> nat \<Rightarrow> 's \<Rightarrow> ('s \<times> 'p list) option" where
  "alloc_many al 0 s = Some (s, [])"
| "alloc_many al (Suc n) s =
     (case al s of (s', None) \<Rightarrow> None
      | (s', Some p) \<Rightarrow> map_option (\<lambda>(t, ps). (t, p # ps)) (alloc_many al n s'))"

locale page_source =
  fixes acquire :: "'s \<Rightarrow> 's \<times> 'p option"
    and release :: "'p \<Rightarrow> 's \<Rightarrow> 's option"
    and avail :: "'s \<Rightarrow> 'p set"
    and pages :: "'p set"
  assumes acquire_Some: "acquire s = (s', Some p) \<Longrightarrow> p \<in> avail s \<and> avail s' = avail s - {p}"
    and acquire_None: "acquire s = (s', None) \<Longrightarrow> avail s = {} \<and> s' = s"
    and release_ok: "p \<in> pages \<Longrightarrow> \<exists>s'. release p s = Some s' \<and> avail s' = insert p (avail s)"
    and avail_pages: "avail s \<subseteq> pages"
begin

lemma acquire_progress: "avail s \<noteq> {} \<Longrightarrow> \<exists>s' p. acquire s = (s', Some p)"
  using acquire_None by (metis option.exhaust surj_pair)

lemma acquire_many_distinct:
  "alloc_many acquire n s = Some (s', ps) \<Longrightarrow>
     distinct ps \<and> length ps = n \<and> set ps \<subseteq> avail s \<and> avail s' = avail s - set ps"
proof (induction n arbitrary: s ps)
  case 0
  then show ?case by simp
next
  case (Suc n)
  then obtain s1 p qs where a: "acquire s = (s1, Some p)"
    and r: "alloc_many acquire n s1 = Some (s', qs)" and ps: "ps = p # qs"
    by (auto split: prod.splits option.splits)
  from Suc.IH [OF r] acquire_Some [OF a] show ?case by (auto simp: ps)
qed

lemma acquire_many_progress:
  "finite (avail s) \<Longrightarrow> n \<le> card (avail s) \<Longrightarrow> \<exists>s' ps. alloc_many acquire n s = Some (s', ps)"
proof (induction n arbitrary: s)
  case 0
  then show ?case by simp
next
  case (Suc n)
  then have "avail s \<noteq> {}" by auto
  then obtain s1 p where a: "acquire s = (s1, Some p)" using acquire_progress by blast
  from acquire_Some [OF a] Suc.prems have "finite (avail s1)" "n \<le> card (avail s1)"
    by auto
  with Suc.IH obtain s' ps where "alloc_many acquire n s1 = Some (s', ps)" by blast
  with a show ?case by simp
qed

lemma acquire_release:
  "acquire s = (s', Some p) \<Longrightarrow> \<exists>s''. release p s' = Some s'' \<and> avail s'' = avail s"
  using acquire_Some [of s s' p] release_ok [of p s'] avail_pages [of s] by fastforce

end

definition frame_avail :: "frames \<Rightarrow> u64 set" where
  "frame_avail s = frame_addr ` free_set s"

lemma frame_avail_card: "card (frame_avail s) = card (free_set s)"
  unfolding frame_avail_def
  by (rule card_image) (auto intro!: inj_onI simp: frame_addr_inject free_set_bound)

interpretation fa: page_source alloc_frame free_frame frame_avail "frame_addr ` {..<MAX_FRAMES}"
proof unfold_locales
  fix s s' p
  assume a: "alloc_frame s = (s', Some p)"
  note f = alloc_frame_Some [OF a]
  have m: "Min (free_set s) \<in> free_set s" using f(1) by simp
  have "frame_addr ` (free_set s - {Min (free_set s)}) =
      frame_addr ` free_set s - {frame_addr (Min (free_set s))}"
    using m by (subst inj_on_image_set_diff [of frame_addr "{..<MAX_FRAMES}"])
      (auto intro!: inj_onI simp: frame_addr_inject free_set_bound)
  with f m show "p \<in> frame_avail s \<and> frame_avail s' = frame_avail s - {p}"
    by (simp add: frame_avail_def)
next
  fix s s'
  assume "alloc_frame s = (s', None)"
  then show "frame_avail s = {} \<and> s' = s" by (simp add: alloc_frame_None frame_avail_def)
next
  fix p s
  assume "p \<in> frame_addr ` {..<MAX_FRAMES}"
  then obtain f where f: "f < MAX_FRAMES" "p = frame_addr f" by auto
  with free_frame_spec [of p s] frame_of_addr [of f]
  show "\<exists>s'. free_frame p s = Some s' \<and> frame_avail s' = insert p (frame_avail s)"
    by (cases "f \<in> free_set s") (auto simp: Let_def frame_avail_def)
next
  fix s
  show "frame_avail s \<subseteq> frame_addr ` {..<MAX_FRAMES}"
    by (auto simp: frame_avail_def free_set_bound)
qed

section \<open>Properties\<close>

text \<open>the allocator returns the lowest free frame, removes exactly that frame from the
  free set, and fails exactly when no frame is free.\<close>

theorem alloc_frame_lowest:
  "if free_set s = {} then alloc_frame s = (s, None)
   else \<exists>s'. alloc_frame s = (s', Some (frame_addr (Min (free_set s)))) \<and>
     free_set s' = free_set s - {Min (free_set s)}"
  using alloc_frame_spec [of s] by (cases "free_set s = {}") auto

text \<open>\<open>alloc_contiguous\<close> never panics; it takes the lowest run of \<open>count\<close> free frames, exactly
  that run leaves the free set, and it fails exactly when there is no such run.\<close>

theorem alloc_contiguous_first_fit:
  assumes "0 < count"
  shows "\<exists>res. alloc_contiguous count s = Some res \<and>
    (if \<exists>r. run_at count r s
     then \<exists>r. run_at count r s \<and> (\<forall>q. run_at count q s \<longrightarrow> r \<le> q) \<and>
       contiguous_result count r s res
     else res = (s, None))"
  using contiguous_from_spec [of count 0 0 s 0] assms
  by (simp add: alloc_contiguous_def)

theorem alloc_contiguous_first_fit_witness:
  "(0 :: nat) < 2 \<and> (\<exists>res. alloc_contiguous 2 frames_bss = Some res)"
  using alloc_contiguous_first_fit [of 2 frames_bss] by auto

lemma of_nat_card_remove:
  "finite A \<Longrightarrow> B \<subseteq> A \<Longrightarrow> (of_nat (card (A - B)) :: u64) = of_nat (card A) - of_nat (card B)"
  by (simp add: card_Diff_subset card_mono finite_subset)

lemma alloc_frame_ok [kernel_inv]:
  "frames_ok s \<Longrightarrow> alloc_frame s = (s', r) \<Longrightarrow> frames_ok s'"
proof (cases r)
  case None
  assume "frames_ok s" "alloc_frame s = (s', r)"
  with None show ?thesis by (simp add: alloc_frame_None)
next
  case (Some pa)
  assume ok: "frames_ok s" and a: "alloc_frame s = (s', r)"
  note f = alloc_frame_Some [OF a [unfolded Some]]
  have "(of_nat (card (free_set s - {Min (free_set s)})) :: u64) = of_nat (card (free_set s)) - 1"
    using of_nat_card_remove [of "free_set s" "{Min (free_set s)}"] f(1) by simp
  with ok f show ?thesis by (simp add: frames_ok_def)
qed

lemma alloc_contiguous_ok [kernel_inv]:
  "frames_ok s \<Longrightarrow> alloc_contiguous count s = Some (s', r) \<Longrightarrow> frames_ok s'"
proof (cases "count = 0")
  case True
  assume "frames_ok s" "alloc_contiguous count s = Some (s', r)"
  with True show ?thesis by (simp add: alloc_contiguous_def)
next
  case False
  assume ok: "frames_ok s" and a: "alloc_contiguous count s = Some (s', r)"
  have spec: "if \<exists>r. run_at count r s
     then \<exists>r. run_at count r s \<and> (\<forall>q. run_at count q s \<longrightarrow> r \<le> q) \<and>
       contiguous_result count r s (s', r')
     else (s', r') = (s, None)" if "r' = r" for r'
    using contiguous_from_spec [of count 0 0 s 0] a False that
    by (simp add: alloc_contiguous_def)
  show ?thesis
  proof (cases "\<exists>r. run_at count r s")
    case True
    with spec [OF refl] obtain q where q: "run_at count q s" "contiguous_result count q s (s', r)"
      by auto
    then have "(of_nat (card (free_set s - {q..<q + count})) :: u64) =
        of_nat (card (free_set s)) - of_nat count"
      using of_nat_card_remove [of "free_set s" "{q..<q + count}"] by (simp add: run_at_def)
    with ok q show ?thesis by (auto simp: frames_ok_def contiguous_result_def)
  next
    case False
    with spec [OF refl] ok show ?thesis by simp
  qed
qed

lemma free_frame_ok [kernel_inv]:
  "frames_ok s \<Longrightarrow> free_frame pa s = Some s' \<Longrightarrow> frames_ok s'"
  using free_frame_spec [of pa s]
  by (auto simp: frames_ok_def Let_def algebra_simps split: if_splits)

section \<open>Boot\<close>

text \<open>The usable frames of a memory map entry, and maps whose usable regions do not overlap and do not
  overflow.\<close>

definition usable_frames :: "u64 \<Rightarrow> memmap_entry \<Rightarrow> nat set" where
  "usable_frames usable e = (if me_type e = usable
     then {unat (me_base e div PAGE_SIZE)..<
           min (unat ((me_base e + me_length e) div PAGE_SIZE)) MAX_FRAMES}
     else {})"

fun memmap_ok :: "u64 \<Rightarrow> memmap_entry list \<Rightarrow> nat \<Rightarrow> bool" where
  "memmap_ok usable [] tot \<longleftrightarrow> True"
| "memmap_ok usable (e # es) tot \<longleftrightarrow>
     (if me_type e = usable
      then unat (me_base e) + unat (me_length e) < 2 ^ 64 \<and>
        tot + unat (me_length e div PAGE_SIZE) < 2 ^ 64 \<and>
        (\<forall>e' \<in> set es. usable_frames usable e \<inter> usable_frames usable e' = {}) \<and>
        memmap_ok usable es (tot + unat (me_length e div PAGE_SIZE))
      else memmap_ok usable es tot)"

lemma card_free_set: "card (free_set s) \<le> MAX_FRAMES"
proof -
  have "card (free_set s) \<le> card {..<MAX_FRAMES}"
    by (rule card_mono) (auto simp: free_set_bound)
  then show ?thesis by simp
qed

lemma scan_memmap_spec:
  assumes "memmap_ok usable es (unat tot)" and "free = of_nat (card (free_set s))"
    and "\<forall>e \<in> set es. usable_frames usable e \<inter> free_set s = {}"
  shows "\<exists>s' tot'. scan_memmap usable es s tot free = Some (s', tot', of_nat (card (free_set s'))) \<and>
    free_set s' = free_set s \<union> (\<Union>e \<in> set es. usable_frames usable e)"
  using assms
proof (induction es arbitrary: s tot free)
  case Nil
  then show ?case by simp
next
  case (Cons e es)
  show ?case
  proof (cases "me_type e = usable")
    case False
    with Cons show ?thesis by (simp add: usable_frames_def)
  next
    case True
    let ?st = "unat (me_base e div PAGE_SIZE)"
    let ?en = "min (unat ((me_base e + me_length e) div PAGE_SIZE)) MAX_FRAMES"
    let ?len = "me_length e div PAGE_SIZE"
    have uf: "usable_frames usable e = {?st..<?en}" using True by (simp add: usable_frames_def)
    have ac: "add_chk (me_base e) (me_length e) = Some (me_base e + me_length e)"
      and tc: "add_chk tot ?len = Some (tot + ?len)" and tu: "unat (tot + ?len) = unat tot + unat ?len"
      using Cons.prems(1) True by (simp_all add: add_chk_def unat_word_ariths)
    have fu: "unat free = card (free_set s)"
      using card_free_set [of s] by (simp add: Cons.prems(2) unat_of_nat frame_consts)
    have "unat free + (?en - ?st) \<le> MAX_FRAMES + MAX_FRAMES"
      unfolding fu by (intro add_mono card_free_set) simp
    also have "\<dots> < 2 ^ 64" by (simp add: frame_consts)
    finally have bound: "unat free + (?en - ?st) < 2 ^ 64" .
    obtain s1 where m: "mark_range ?st ?en (s, free) = Some (s1, free + of_nat (?en - ?st))"
      and f1: "free_set s1 = free_set s \<union> {?st..<?en}"
      using mark_range_spec [of ?en free ?st s] bound by auto
    have dis: "free_set s \<inter> {?st..<?en} = {}" using Cons.prems(3) uf by auto
    then have c1: "free + of_nat (?en - ?st) = of_nat (card (free_set s1))"
      by (simp add: f1 card_Un_disjoint Cons.prems(2))
    have "\<forall>e' \<in> set es. usable_frames usable e' \<inter> free_set s1 = {}"
      using Cons.prems(1,3) True by (auto simp: f1 uf)
    then obtain s' tot' where r: "scan_memmap usable es s1 (tot + ?len) (free + of_nat (?en - ?st)) =
        Some (s', tot', of_nat (card (free_set s')))"
      and f': "free_set s' = free_set s1 \<union> (\<Union>e \<in> set es. usable_frames usable e)"
      using Cons.IH [of "tot + ?len" "free + of_nat (?en - ?st)" s1] Cons.prems(1) True c1 tu by auto
    have "scan_memmap usable (e # es) s tot free = Some (s', tot', of_nat (card (free_set s')))"
      using True by (simp add: ac m tc r)
    moreover have "free_set s' = free_set s \<union> (\<Union>e \<in> set (e # es). usable_frames usable e)"
      by (simp add: f' f1 uf Un_assoc)
    ultimately show ?thesis by blast
  qed
qed

lemma free_set_bss [simp]: "free_set frames_bss = {}"
  by (simp add: free_set_def frames_bss_def)

text \<open>C27: After boot the free frames are exactly those of the usable regions of the memory map, and the
  counter of free frames agrees with the bitmap.\<close>

theorem frame_init_establishes:
  assumes "memmap_ok usable entries 0"
  shows "\<exists>s. frame_init usable entries frames_bss = Some s \<and>
    free_set s = (\<Union>e \<in> set entries. usable_frames usable e) \<and> frames_ok s"
  using scan_memmap_spec [of usable entries 0 0 frames_bss] assms
  by (auto simp: frame_init_def frames_ok_def)

theorem frame_init_establishes_witness:
  "\<exists>s. frame_init 0 [\<lparr>me_base = 0x2000, me_length = 0x3000, me_type = 0\<rparr>,
        \<lparr>me_base = 0x9000, me_length = 0x1000, me_type = 1\<rparr>] frames_bss = Some s \<and>
    free_set s = {2..<5} \<and> frames_ok s"
proof -
  let ?es = "[\<lparr>me_base = 0x2000, me_length = 0x3000, me_type = 0\<rparr>,
        \<lparr>me_base = 0x9000, me_length = 0x1000, me_type = 1\<rparr>] :: memmap_entry list"
  have "memmap_ok 0 ?es 0" by (simp add: usable_frames_def frame_consts)
  moreover have "(\<Union>e \<in> set ?es. usable_frames 0 e) = {2..<5}" by (simp add: usable_frames_def frame_consts)
  ultimately show ?thesis using frame_init_establishes [of 0 ?es] by simp
qed

end
