(* ===== verification/Vma.thy ===== *)
theory Vma
  imports Kernel_Prelude
begin

text \<open>
  The table of virtual memory areas, \<open>kernel/src/process/vma.rs\<close>.

  The global table has 128 slots; \<open>usize\<close> page counts are 64-bit words, since
  \<open>base + pages * 4096\<close> is computed with overflow checks. \<open>vma_view\<close> is the abstract
  state: which protection and which laziness an address has. The main results: on a table
  whose areas are disjoint, \<open>insert\<close> overwrites the given range and nothing else (the
  tail of a partly covered area is kept), \<open>remove\<close> takes one area away, \<open>find\<close> reads the
  view, and none of them panics.
\<close>

section \<open>Table\<close>

definition PROT_WRITE :: u32 where "PROT_WRITE = 2"
definition MAX_VMA :: nat where "MAX_VMA = 128"

record vma_entry =
  vma_base :: u64
  vma_pages :: u64
  vma_prot :: u32
  vma_lazy :: bool
  vma_valid :: bool

type_synonym vma_table = "vma_entry list"

definition vma_empty :: vma_entry where
  "vma_empty = \<lparr>vma_base = 0, vma_pages = 0, vma_prot = 0, vma_lazy = False, vma_valid = False\<rparr>"

definition VMA_TABLE_init :: vma_table where
  "VMA_TABLE_init = replicate MAX_VMA vma_empty"

section \<open>Operations\<close>

definition insert_slot :: "vma_table \<Rightarrow> vma_entry \<Rightarrow> vma_table" where
  "insert_slot t e = (case find_idx (\<lambda>x. \<not> vma_valid x) t of
     Some i \<Rightarrow> t[i := e]
   | None \<Rightarrow> t[min_idx vma_pages t := e])"

definition vma_insert :: "u64 \<Rightarrow> u64 \<Rightarrow> u32 \<Rightarrow> bool \<Rightarrow> vma_table \<Rightarrow> vma_table option" where
  "vma_insert b n p l t =
     (let new_entry = \<lparr>vma_base = b, vma_pages = n, vma_prot = p, vma_lazy = l, vma_valid = True\<rparr> in
      case find_idx (\<lambda>e. vma_valid e \<and> vma_base e = b) t of
        Some i \<Rightarrow>
          let e = t ! i in
          if n < vma_pages e then do {
            off \<leftarrow> mul_chk n 4096;
            rb \<leftarrow> add_chk b off;
            let rem = \<lparr>vma_base = rb, vma_pages = vma_pages e - n, vma_prot = vma_prot e, vma_lazy = vma_lazy e, vma_valid = True\<rparr>;
            Some (insert_slot (t[i := new_entry]) rem)
          }
          else Some (t[i := new_entry])
      | None \<Rightarrow> Some (insert_slot t new_entry))"

definition vma_reset :: "vma_table \<Rightarrow> vma_table" where
  "vma_reset t = map (\<lambda>e. e\<lparr>vma_valid := False\<rparr>) t"

definition vma_remove :: "u64 \<Rightarrow> vma_table \<Rightarrow> vma_table \<times> vma_entry option" where
  "vma_remove addr t = (case find_idx (\<lambda>e. vma_valid e \<and> vma_base e = addr) t of
     Some i \<Rightarrow> (let e = (t ! i)\<lparr>vma_valid := False\<rparr> in (t[i := e], Some e))
   | None \<Rightarrow> (t, None))"

definition vma_end :: "vma_entry \<Rightarrow> u64 option" where
  "vma_end e = do { off \<leftarrow> mul_chk (vma_pages e) 4096; add_chk (vma_base e) off }"

fun vma_find :: "u64 \<Rightarrow> vma_table \<Rightarrow> vma_entry option option" where
  "vma_find va [] = Some None"
| "vma_find va (e # es) =
     (if vma_valid e \<and> vma_base e \<le> va
      then do { en \<leftarrow> vma_end e; if va < en then Some (Some e) else vma_find va es }
      else vma_find va es)"

fun update_prot_loop ::
  "u64 \<Rightarrow> u64 \<Rightarrow> u32 \<Rightarrow> vma_table \<Rightarrow> (vma_table \<times> bool) option"
where
  "update_prot_loop addr endp p [] = Some ([], False)"
| "update_prot_loop addr endp p (e # es) =
     (if \<not> vma_valid e then map_option (\<lambda>(es', f). (e # es', f)) (update_prot_loop addr endp p es)
      else do {
        e_end \<leftarrow> vma_end e;
        (es', f) \<leftarrow> update_prot_loop addr endp p es;
        if addr < e_end \<and> vma_base e < endp then Some (e\<lparr>vma_prot := p\<rparr> # es', True)
        else Some (e # es', f)
      })"

definition update_prot :: "u64 \<Rightarrow> u64 \<Rightarrow> u32 \<Rightarrow> vma_table \<Rightarrow> (vma_table \<times> bool) option" where
  "update_prot addr len p t = do { endp \<leftarrow> add_chk addr len; update_prot_loop addr endp p t }"

section \<open>The abstract view\<close>

definition vma_wf :: "vma_entry \<Rightarrow> bool" where
  "vma_wf e \<longleftrightarrow> (vma_valid e \<longrightarrow> vma_pages e \<noteq> 0 \<and> unat (vma_base e) + unat (vma_pages e) * 4096 < 2 ^ 64)"

definition covers :: "vma_entry \<Rightarrow> u64 \<Rightarrow> bool" where
  "covers e va \<longleftrightarrow> vma_valid e \<and> vma_base e \<le> va \<and> unat va < unat (vma_base e) + unat (vma_pages e) * 4096"

definition disjoint_areas :: "vma_table \<Rightarrow> bool" where
  "disjoint_areas t \<longleftrightarrow>
     (\<forall>i < length t. \<forall>j < length t. i \<noteq> j \<longrightarrow> (\<forall>va. \<not> (covers (t ! i) va \<and> covers (t ! j) va)))"

definition vma_ok :: "vma_table \<Rightarrow> bool" where
  "vma_ok t \<longleftrightarrow> length t = MAX_VMA \<and> (\<forall>e \<in> set t. vma_wf e) \<and> disjoint_areas t"

definition vma_view :: "vma_table \<Rightarrow> u64 \<Rightarrow> (u32 \<times> bool) option" where
  "vma_view t va = map_option (\<lambda>e. (vma_prot e, vma_lazy e)) (find (\<lambda>e. covers e va) t)"

lemma vma_end_wf:
  assumes "vma_wf e" and "vma_valid e"
  shows "\<exists>en. vma_end e = Some en \<and> unat en = unat (vma_base e) + unat (vma_pages e) * 4096"
proof -
  have "unat (vma_pages e) * 4096 < 2 ^ 64"
    and s: "unat (vma_base e) + unat (vma_pages e) * 4096 < 2 ^ 64"
    using assms by (simp_all add: vma_wf_def)
  then have m: "mul_chk (vma_pages e) 4096 = Some (vma_pages e * 4096)"
    and u: "unat (vma_pages e * 4096) = unat (vma_pages e) * 4096"
    by (simp_all add: mul_chk_def unat_word_ariths)
  then show ?thesis
    using s by (simp add: vma_end_def add_chk_def unat_word_ariths)
qed

lemma vma_find_find:
  "\<forall>e \<in> set t. vma_wf e \<Longrightarrow> vma_find va t = Some (find (\<lambda>e. covers e va) t)"
proof (induction t)
  case Nil
  then show ?case by simp
next
  case (Cons e es)
  show ?case
  proof (cases "vma_valid e \<and> vma_base e \<le> va")
    case True
    then obtain en where "vma_end e = Some en" "unat en = unat (vma_base e) + unat (vma_pages e) * 4096"
      using Cons.prems vma_end_wf by auto
    with True Cons show ?thesis by (simp add: covers_def word_less_nat_alt)
  next
    case False
    with Cons show ?thesis by (auto simp: covers_def)
  qed
qed

lemma vma_view_iff:
  assumes "disjoint_areas t"
  shows "vma_view t va = Some q \<longleftrightarrow>
    (\<exists>i < length t. covers (t ! i) va \<and> q = (vma_prot (t ! i), vma_lazy (t ! i)))"
proof
  assume "vma_view t va = Some q"
  then show "\<exists>i < length t. covers (t ! i) va \<and> q = (vma_prot (t ! i), vma_lazy (t ! i))"
    by (auto simp: vma_view_def find_Some_iff)
next
  assume "\<exists>i < length t. covers (t ! i) va \<and> q = (vma_prot (t ! i), vma_lazy (t ! i))"
  then obtain i where i: "i < length t" "covers (t ! i) va" "q = (vma_prot (t ! i), vma_lazy (t ! i))"
    by blast
  then have "find (\<lambda>e. covers e va) t = Some (t ! i)"
    using assms by (auto simp: find_Some_iff disjoint_areas_def)
  with i show "vma_view t va = Some q" by (simp add: vma_view_def)
qed

lemma vma_view_eqI:
  assumes "disjoint_areas t" and "\<And>q. A = Some q \<longleftrightarrow>
    (\<exists>i < length t. covers (t ! i) va \<and> q = (vma_prot (t ! i), vma_lazy (t ! i)))"
  shows "vma_view t va = A"
  using vma_view_iff [OF assms(1), of va] assms(2) by (metis not_None_eq)

section \<open>Insertion\<close>

definition in_area :: "u64 \<Rightarrow> u64 \<Rightarrow> u64 \<Rightarrow> bool" where
  "in_area b n va \<longleftrightarrow> b \<le> va \<and> unat va < unat b + unat n * 4096"

text \<open>The new range stays clear of every area that starts elsewhere.\<close>

definition fits :: "u64 \<Rightarrow> u64 \<Rightarrow> vma_table \<Rightarrow> bool" where
  "fits b n t \<longleftrightarrow> n \<noteq> 0 \<and> unat b + unat n * 4096 < 2 ^ 64 \<and>
     (\<forall>e \<in> set t. vma_valid e \<and> vma_base e \<noteq> b \<longrightarrow> (\<forall>va. \<not> (covers e va \<and> in_area b n va)))"

lemma disjoint_areas_update:
  assumes "disjoint_areas t" and "i < length t"
    and "\<And>j va. j < length t \<Longrightarrow> j \<noteq> i \<Longrightarrow> covers (t ! j) va \<Longrightarrow> covers e va \<Longrightarrow> False"
  shows "disjoint_areas (t[i := e])"
  unfolding disjoint_areas_def
proof (intro allI impI notI)
  fix j k va
  assume jk: "j < length (t[i := e])" "k < length (t[i := e])" "j \<noteq> k"
    and c: "covers (t[i := e] ! j) va \<and> covers (t[i := e] ! k) va"
  show False
  proof (cases "j = i \<or> k = i")
    case True
    then show ?thesis using jk c assms(2) assms(3) [of j va] assms(3) [of k va] by auto
  next
    case False
    then show ?thesis using jk c assms(1) by (auto simp: disjoint_areas_def)
  qed
qed

lemma vma_view_update:
  assumes "disjoint_areas t" and "disjoint_areas (t[i := e])" and "i < length t"
  shows "vma_view (t[i := e]) va =
    (if covers e va then Some (vma_prot e, vma_lazy e)
     else if covers (t ! i) va then None else vma_view t va)"
proof (rule vma_view_eqI [OF assms(2)])
  fix q
  have other: "j = i" if "covers (t ! i) va" "j < length t" "covers (t ! j) va" for j
    using assms(1,3) that by (auto simp: disjoint_areas_def)
  have other': "j = i" if "covers e va" "j < length t" "covers (t[i := e] ! j) va" for j
    using assms(2,3) that unfolding disjoint_areas_def
    by (metis length_list_update nth_list_update_eq)
  show "(if covers e va then Some (vma_prot e, vma_lazy e)
      else if covers (t ! i) va then None else vma_view t va) = Some q \<longleftrightarrow>
    (\<exists>j < length (t[i := e]). covers (t[i := e] ! j) va \<and>
      q = (vma_prot (t[i := e] ! j), vma_lazy (t[i := e] ! j)))"
  proof (cases "covers e va")
    case True
    then have "j = i \<longleftrightarrow> j < length t \<and> covers (t[i := e] ! j) va" for j
      using other' [OF True] assms(3) by (metis nth_list_update_eq)
    then show ?thesis
      using True assms(3) by (metis length_list_update nth_list_update_eq option.inject)
  next
    case False
    then show ?thesis
      using other assms(3) vma_view_iff [OF assms(1), of va q]
      by (auto simp: nth_list_update split: if_splits)
  qed
qed

lemma vma_ok_update:
  assumes "vma_ok t" and "i < length t" and "vma_wf e"
    and "\<And>j va. j < length t \<Longrightarrow> j \<noteq> i \<Longrightarrow> covers (t ! j) va \<Longrightarrow> covers e va \<Longrightarrow> False"
  shows "vma_ok (t[i := e])"
  using assms disjoint_areas_update [of t i e]
  by (auto simp: vma_ok_def dest!: set_update_subset_insert [THEN subsetD])

lemma insert_slot_free:
  assumes "vma_ok t" and "\<exists>e \<in> set t. \<not> vma_valid e" and "vma_wf e"
    and "\<And>j va. j < length t \<Longrightarrow> covers (t ! j) va \<Longrightarrow> covers e va \<Longrightarrow> False"
  shows "vma_ok (insert_slot t e)"
    and "vma_view (insert_slot t e) va =
      (if covers e va then Some (vma_prot e, vma_lazy e) else vma_view t va)"
proof -
  obtain k where k: "find_idx (\<lambda>x. \<not> vma_valid x) t = Some k"
    using assms(2) find_idx_None_iff [of "\<lambda>x. \<not> vma_valid x" t] by (metis option.exhaust)
  note kD = find_idx_SomeD [OF k]
  have eq: "insert_slot t e = t[k := e]" by (simp add: insert_slot_def k)
  show ok: "vma_ok (insert_slot t e)"
    unfolding eq using assms(1,3,4) kD(1) by (intro vma_ok_update) auto
  have "\<not> covers (t ! k) va" using kD(2) by (simp add: covers_def)
  then show "vma_view (insert_slot t e) va =
      (if covers e va then Some (vma_prot e, vma_lazy e) else vma_view t va)"
    using assms(1) ok kD(1) unfolding eq by (simp add: vma_view_update vma_ok_def)
qed

lemma covers_in_area:
  "covers \<lparr>vma_base = b, vma_pages = n, vma_prot = p, vma_lazy = l, vma_valid = True\<rparr> va = in_area b n va"
  by (simp add: covers_def in_area_def)

text \<open>The tail that \<open>vma_insert\<close> keeps covers exactly what the old area has beyond the new one.\<close>

lemma tail_area:
  assumes "vma_wf e" and "vma_valid e" and "n < vma_pages e"
  shows "\<exists>rb. (do { off \<leftarrow> mul_chk n 4096; add_chk (vma_base e) off }) = Some rb \<and>
    unat rb + unat (vma_pages e - n) * 4096 = unat (vma_base e) + unat (vma_pages e) * 4096 \<and>
    (\<forall>va. in_area rb (vma_pages e - n) va \<longleftrightarrow> covers e va \<and> \<not> in_area (vma_base e) n va)"
proof -
  let ?off = "n * 4096" and ?rb = "vma_base e + n * 4096"
  have lt: "unat n < unat (vma_pages e)" using assms(3) by (simp add: word_less_nat_alt)
  have en: "unat (vma_base e) + unat (vma_pages e) * 4096 < 2 ^ 64"
    using assms(1,2) by (simp add: vma_wf_def)
  then have b1: "unat n * 4096 < 2 ^ 64" and b2: "unat (vma_base e) + unat n * 4096 < 2 ^ 64"
    using lt by linarith+
  have u1: "unat ?off = unat n * 4096" using b1 by (simp add: unat_word_ariths)
  have u2: "unat ?rb = unat (vma_base e) + unat n * 4096"
    using b2 u1 by (simp add: unat_word_ariths)
  have u3: "unat (vma_pages e - n) = unat (vma_pages e) - unat n"
    using assms(3) by (simp add: unat_sub)
  have "mul_chk n 4096 = Some ?off" and "add_chk (vma_base e) ?off = Some ?rb"
    using b1 b2 u1 by (simp_all add: mul_chk_def add_chk_def)
  moreover have sum: "unat ?rb + unat (vma_pages e - n) * 4096 = unat (vma_base e) + unat (vma_pages e) * 4096"
    using lt by (simp add: u2 u3 algebra_simps)
  moreover have "in_area ?rb (vma_pages e - n) va \<longleftrightarrow> covers e va \<and> \<not> in_area (vma_base e) n va" for va
    using assms(2) unfolding in_area_def covers_def word_le_nat_alt sum by (auto simp: u2)
  ultimately show ?thesis by auto
qed

lemma vma_insert_new:
  assumes ok: "vma_ok t" and fit: "fits b n t" and sp: "\<exists>e \<in> set t. \<not> vma_valid e"
    and none: "find_idx (\<lambda>e. vma_valid e \<and> vma_base e = b) t = None"
  shows "\<exists>t'. vma_insert b n p l t = Some t' \<and> vma_ok t' \<and>
    (\<forall>va. vma_view t' va = (if in_area b n va then Some (p, l) else vma_view t va))"
proof -
  let ?e = "\<lparr>vma_base = b, vma_pages = n, vma_prot = p, vma_lazy = l, vma_valid = True\<rparr>"
  have wf: "vma_wf ?e" using fit by (simp add: vma_wf_def fits_def)
  have clear: "False" if "j < length t" "covers (t ! j) va" "covers ?e va" for j va
  proof -
    have "t ! j \<in> set t" using that(1) by simp
    moreover have "vma_valid (t ! j)" using that(2) by (simp add: covers_def)
    ultimately have "vma_base (t ! j) \<noteq> b" using none by (auto simp: find_idx_None_iff)
    with fit that \<open>t ! j \<in> set t\<close> \<open>vma_valid (t ! j)\<close> show False
      by (auto simp: fits_def covers_in_area)
  qed
  note slot = insert_slot_free [OF ok sp wf clear]
  have "vma_insert b n p l t = Some (insert_slot t ?e)"
    by (simp add: vma_insert_def none del: find_idx_None_iff)
  with slot show ?thesis by (simp add: covers_in_area)
qed

lemma vma_insert_replace:
  assumes ok: "vma_ok t" and fit: "fits b n t" and sp: "\<exists>e \<in> set t. \<not> vma_valid e"
    and found: "find_idx (\<lambda>e. vma_valid e \<and> vma_base e = b) t = Some i"
  shows "\<exists>t'. vma_insert b n p l t = Some t' \<and> vma_ok t' \<and>
    (\<forall>va. vma_view t' va = (if in_area b n va then Some (p, l) else vma_view t va))"
proof -
  let ?e = "\<lparr>vma_base = b, vma_pages = n, vma_prot = p, vma_lazy = l, vma_valid = True\<rparr>" and ?o = "t ! i"
  note iD = find_idx_SomeD [OF found]
  have wf: "vma_wf ?e" using fit by (simp add: vma_wf_def fits_def)
  have len: "i < length t" and ov: "vma_valid ?o" "vma_base ?o = b" using iD by simp_all
  have wo: "vma_wf ?o" using ok len by (simp add: vma_ok_def)
  have other: "\<not> (covers (t ! j) va \<and> covers ?o va)" if "j < length t" "j \<noteq> i" for j va
    using ok len that by (auto simp: vma_ok_def disjoint_areas_def)
  have bj: "vma_base (t ! j) \<noteq> b" if "j < length t" "j \<noteq> i" "vma_valid (t ! j)" for j
  proof
    assume "vma_base (t ! j) = b"
    moreover have "vma_wf (t ! j)" using ok that(1) by (simp add: vma_ok_def)
    ultimately have "covers (t ! j) b" "covers ?o b"
      using wo ov that(3) by (simp_all add: covers_def vma_wf_def unat_gt_0)
    with other [OF that(1,2)] show False by blast
  qed
  have clear: "False" if "j < length t" "j \<noteq> i" "covers (t ! j) va" "covers ?e va" for j va
    using fit bj [of j] that by (auto simp: fits_def covers_in_area covers_def in_area_def)
  have ok1: "vma_ok (t[i := ?e])"
    using ok len wf clear by (rule vma_ok_update)
  have v1: "vma_view (t[i := ?e]) va =
      (if in_area b n va then Some (p, l) else if covers ?o va then None else vma_view t va)" for va
    using ok ok1 len by (simp add: vma_view_update vma_ok_def covers_in_area)
  show ?thesis
  proof (cases "n < vma_pages ?o")
    case True
    obtain rb where rb: "(do { off \<leftarrow> mul_chk n 4096; add_chk b off }) = Some rb"
      and sum: "unat rb + unat (vma_pages ?o - n) * 4096 = unat b + unat (vma_pages ?o) * 4096"
      and area: "\<And>va. in_area rb (vma_pages ?o - n) va \<longleftrightarrow> covers ?o va \<and> \<not> in_area b n va"
      using tail_area [OF wo ov(1) True] ov(2) by auto
    let ?r = "\<lparr>vma_base = rb, vma_pages = vma_pages ?o - n, vma_prot = vma_prot ?o, vma_lazy = vma_lazy ?o, vma_valid = True\<rparr>"
    have wr: "vma_wf ?r" using sum True wo ov by (auto simp: vma_wf_def)
    have sp1: "\<exists>x \<in> set (t[i := ?e]). \<not> vma_valid x"
      using sp ov(1) len by (metis in_set_conv_nth length_list_update nth_list_update_neq)
    have clear1: "False" if "j < length (t[i := ?e])" "covers (t[i := ?e] ! j) va" "covers ?r va" for j va
      using that other [of j va] area [of va] len
      by (cases "j = i") (auto simp: covers_in_area)
    note slot = insert_slot_free [OF ok1 sp1 wr clear1]
    have "vma_insert b n p l t = Some (insert_slot (t[i := ?e]) ?r)"
      using rb True by (auto simp: vma_insert_def found Let_def bind_eq_Some_conv)
    moreover have "vma_view t va = Some (vma_prot ?o, vma_lazy ?o)" if "covers ?o va" for va
      using ok len that vma_view_iff [of t va] by (auto simp: vma_ok_def)
    ultimately show ?thesis
      using slot v1 area by (auto simp: covers_in_area)
  next
    case False
    then have le: "unat (vma_pages ?o) \<le> unat n" by (simp add: word_less_nat_alt not_less)
    have "in_area b n va" if "covers ?o va" for va
    proof -
      have "unat (vma_pages ?o) * 4096 \<le> unat n * 4096" using le by simp
      with that show ?thesis using ov(2) by (auto simp: covers_def in_area_def)
    qed
    moreover have "vma_insert b n p l t = Some (t[i := ?e])"
      using False by (simp add: vma_insert_def found Let_def)
    ultimately show ?thesis using ok1 v1 by auto
  qed
qed

section \<open>Removal, reset and protection changes\<close>

lemma vma_remove_spec:
  assumes "vma_ok t" and "vma_remove addr t = (t', r)"
  shows "vma_ok t'" and "vma_view t' va =
    (case r of None \<Rightarrow> vma_view t va
     | Some e \<Rightarrow> if covers (e\<lparr>vma_valid := True\<rparr>) va then None else vma_view t va)"
proof -
  have "vma_ok t' \<and> vma_view t' va =
    (case r of None \<Rightarrow> vma_view t va
     | Some e \<Rightarrow> if covers (e\<lparr>vma_valid := True\<rparr>) va then None else vma_view t va)"
  proof (cases "find_idx (\<lambda>e. vma_valid e \<and> vma_base e = addr) t")
    case None
    then show ?thesis using assms by (simp add: vma_remove_def del: find_idx_None_iff)
  next
    case (Some i)
    let ?e = "(t ! i)\<lparr>vma_valid := False\<rparr>"
    note iD = find_idx_SomeD [OF Some]
    have n: "\<not> covers ?e x" for x by (simp add: covers_def)
    have r: "t' = t[i := ?e]" "r = Some ?e"
      using assms(2) Some by (simp_all add: vma_remove_def Let_def)
    have ok: "vma_ok (t[i := ?e])"
      using assms(1) iD(1) by (rule vma_ok_update) (auto simp: vma_wf_def n)
    moreover have "covers (?e\<lparr>vma_valid := True\<rparr>) va = covers (t ! i) va"
      using iD(2) by (simp add: covers_def)
    ultimately show ?thesis
      using assms(1) iD(1) n by (simp add: r vma_view_update vma_ok_def)
  qed
  then show "vma_ok t'" and "vma_view t' va =
    (case r of None \<Rightarrow> vma_view t va
     | Some e \<Rightarrow> if covers (e\<lparr>vma_valid := True\<rparr>) va then None else vma_view t va)"
    by blast+
qed

lemma vma_reset_view: "vma_view (vma_reset t) va = None"
  by (auto simp: vma_view_def vma_reset_def find_None_iff covers_def)

lemma vma_reset_ok: "vma_ok t \<Longrightarrow> vma_ok (vma_reset t)"
  by (auto simp: vma_ok_def vma_reset_def vma_wf_def disjoint_areas_def covers_def)

definition hits :: "u64 \<Rightarrow> u64 \<Rightarrow> vma_entry \<Rightarrow> bool" where
  "hits addr len e \<longleftrightarrow> vma_valid e \<and> unat addr < unat (vma_base e) + unat (vma_pages e) * 4096 \<and>
     unat (vma_base e) < unat addr + unat len"

lemma update_prot_loop_map:
  assumes "\<forall>e \<in> set t. vma_wf e" and "unat endp = unat addr + unat len"
  shows "update_prot_loop addr endp p t =
    Some (map (\<lambda>e. if hits addr len e then e\<lparr>vma_prot := p\<rparr> else e) t, \<exists>e \<in> set t. hits addr len e)"
  using assms(1)
proof (induction t)
  case Nil
  then show ?case by simp
next
  case (Cons e es)
  show ?case
  proof (cases "vma_valid e")
    case True
    then obtain en where "vma_end e = Some en" "unat en = unat (vma_base e) + unat (vma_pages e) * 4096"
      using Cons.prems vma_end_wf by auto
    with True Cons assms(2) show ?thesis by (auto simp: hits_def word_less_nat_alt)
  next
    case False
    with Cons show ?thesis by (auto simp: hits_def)
  qed
qed

lemma covers_prot [simp]: "covers (e\<lparr>vma_prot := p\<rparr>) va = covers e va"
  by (simp add: covers_def)

lemma vma_ok_map_prot:
  assumes "vma_ok t"
  shows "vma_ok (map (\<lambda>e. if P e then e\<lparr>vma_prot := p\<rparr> else e) t)"
  using assms by (auto simp: vma_ok_def vma_wf_def disjoint_areas_def)

lemma find_map_covers:
  "find (\<lambda>e. covers e va) (map (\<lambda>e. if P e then e\<lparr>vma_prot := p\<rparr> else e) t) =
   map_option (\<lambda>e. if P e then e\<lparr>vma_prot := p\<rparr> else e) (find (\<lambda>e. covers e va) t)"
  by (induction t) auto

section \<open>Properties\<close>

text \<open>Inserting an area into a table with a free slot never panics, keeps the table well formed and
  changes the view on exactly the given range: an area with the same base that is longer
  keeps its tail.\<close>

theorem vma_insert_overwrites:
  assumes "vma_ok t" and "fits b n t" and "\<exists>e \<in> set t. \<not> vma_valid e"
  shows "\<exists>t'. vma_insert b n p l t = Some t' \<and> vma_ok t' \<and>
    (\<forall>va. vma_view t' va = (if in_area b n va then Some (p, l) else vma_view t va))"
  using vma_insert_new [OF assms] vma_insert_replace [OF assms]
  by (cases "find_idx (\<lambda>e. vma_valid e \<and> vma_base e = b) t") blast+

lemma VMA_TABLE_init_ok: "vma_ok VMA_TABLE_init"
  by (auto simp: vma_ok_def VMA_TABLE_init_def vma_wf_def vma_empty_def disjoint_areas_def covers_def)

lemma fits_init: "n \<noteq> 0 \<Longrightarrow> unat b + unat n * 4096 < 2 ^ 64 \<Longrightarrow> fits b n VMA_TABLE_init"
  by (auto simp: fits_def VMA_TABLE_init_def vma_empty_def)

theorem vma_insert_overwrites_witness:
  "\<exists>t'. vma_insert 0x40000000 4 3 True VMA_TABLE_init = Some t' \<and> vma_ok t' \<and>
    (\<forall>va. vma_view t' va =
      (if in_area 0x40000000 4 va then Some (3, True) else vma_view VMA_TABLE_init va))"
proof (rule vma_insert_overwrites)
  show "vma_ok VMA_TABLE_init" by (rule VMA_TABLE_init_ok)
  show "fits 0x40000000 4 VMA_TABLE_init" by (rule fits_init) simp_all
  show "\<exists>e \<in> set VMA_TABLE_init. \<not> vma_valid e"
    by (simp add: VMA_TABLE_init_def vma_empty_def MAX_VMA_def)
qed

text \<open>On a well-formed table \<open>find\<close> never panics and returns the area whose range contains the
  address, if any: its protection and laziness are the view.\<close>

theorem vma_find_reads_view:
  assumes "vma_ok t"
  shows "\<exists>r. vma_find va t = Some r \<and> map_option (\<lambda>e. (vma_prot e, vma_lazy e)) r = vma_view t va \<and>
    (\<forall>e. r = Some e \<longrightarrow> e \<in> set t \<and> covers e va)"
  using assms vma_find_find [of t va]
  by (auto simp: vma_ok_def vma_view_def find_Some_iff)

theorem vma_find_reads_view_witness:
  "\<exists>r. vma_find 0x1000 VMA_TABLE_init = Some r \<and>
    map_option (\<lambda>e. (vma_prot e, vma_lazy e)) r = vma_view VMA_TABLE_init 0x1000 \<and>
    (\<forall>e. r = Some e \<longrightarrow> e \<in> set VMA_TABLE_init \<and> covers e 0x1000)"
  by (rule vma_find_reads_view [OF VMA_TABLE_init_ok])

text \<open>\<open>update_prot\<close> gives the new protection to every area that meets the range, for its whole
  length, keeps every other address and the laziness, and reports whether an area was hit.\<close>

theorem update_prot_whole_areas:
  assumes "vma_ok t" and "unat addr + unat len < 2 ^ 64"
  shows "\<exists>t'. update_prot addr len p t = Some (t', \<exists>e \<in> set t. hits addr len e) \<and> vma_ok t' \<and>
    (\<forall>va. vma_view t' va = (case find (\<lambda>e. covers e va) t of None \<Rightarrow> None
       | Some e \<Rightarrow> Some (if hits addr len e then p else vma_prot e, vma_lazy e)))"
proof -
  let ?t = "map (\<lambda>e. if hits addr len e then e\<lparr>vma_prot := p\<rparr> else e) t"
  have "unat (addr + len) = unat addr + unat len" "add_chk addr len = Some (addr + len)"
    using assms(2) by (simp_all add: unat_word_ariths add_chk_def)
  then have "update_prot addr len p t = Some (?t, \<exists>e \<in> set t. hits addr len e)"
    using assms(1) by (simp add: update_prot_def update_prot_loop_map vma_ok_def)
  moreover have "vma_view ?t va = (case find (\<lambda>e. covers e va) t of None \<Rightarrow> None
       | Some e \<Rightarrow> Some (if hits addr len e then p else vma_prot e, vma_lazy e))" for va
    by (auto simp: vma_view_def find_map_covers split: option.split)
  ultimately show ?thesis using vma_ok_map_prot [OF assms(1)] by blast
qed

theorem update_prot_whole_areas_witness:
  "\<exists>t'. update_prot 0x1000 0x1000 1 VMA_TABLE_init =
      Some (t', \<exists>e \<in> set VMA_TABLE_init. hits 0x1000 0x1000 e) \<and> vma_ok t' \<and>
    (\<forall>va. vma_view t' va = (case find (\<lambda>e. covers e va) VMA_TABLE_init of None \<Rightarrow> None
       | Some e \<Rightarrow> Some (if hits 0x1000 0x1000 e then 1 else vma_prot e, vma_lazy e)))"
  by (rule update_prot_whole_areas [OF VMA_TABLE_init_ok]) simp

text \<open>On a full table an insertion at a new base silently replaces an area with the fewest pages:
  that mapping is lost.\<close>

theorem vma_insert_full_evicts:
  assumes "t \<noteq> []" and "\<forall>e \<in> set t. vma_valid e \<and> vma_base e \<noteq> b"
  shows "\<exists>i < length t. (\<forall>j < length t. vma_pages (t ! i) \<le> vma_pages (t ! j)) \<and>
    vma_insert b n p l t =
      Some (t[i := \<lparr>vma_base = b, vma_pages = n, vma_prot = p, vma_lazy = l, vma_valid = True\<rparr>])"
proof -
  have "find_idx (\<lambda>e. vma_valid e \<and> vma_base e = b) t = None" "find_idx (\<lambda>e. \<not> vma_valid e) t = None"
    using assms(2) by auto
  then have "vma_insert b n p l t =
      Some (t[min_idx vma_pages t := \<lparr>vma_base = b, vma_pages = n, vma_prot = p, vma_lazy = l, vma_valid = True\<rparr>])"
    by (simp add: vma_insert_def insert_slot_def del: find_idx_None_iff)
  with min_idx_spec [OF assms(1), where key = vma_pages] show ?thesis by blast
qed

theorem vma_insert_full_evicts_witness:
  "\<exists>i < length [\<lparr>vma_base = 0x1000, vma_pages = 1, vma_prot = 3, vma_lazy = True, vma_valid = True\<rparr>].
    (\<forall>j < length [\<lparr>vma_base = 0x1000, vma_pages = 1, vma_prot = 3, vma_lazy = True, vma_valid = True\<rparr>].
      vma_pages ([\<lparr>vma_base = 0x1000, vma_pages = 1, vma_prot = 3, vma_lazy = True, vma_valid = True\<rparr>] ! i) \<le>
      vma_pages ([\<lparr>vma_base = 0x1000, vma_pages = 1, vma_prot = 3, vma_lazy = True, vma_valid = True\<rparr>] ! j)) \<and>
    vma_insert 0x5000 2 1 False [\<lparr>vma_base = 0x1000, vma_pages = 1, vma_prot = 3, vma_lazy = True, vma_valid = True\<rparr>] =
      Some ([\<lparr>vma_base = 0x1000, vma_pages = 1, vma_prot = 3, vma_lazy = True, vma_valid = True\<rparr>]
        [i := \<lparr>vma_base = 0x5000, vma_pages = 2, vma_prot = 1, vma_lazy = False, vma_valid = True\<rparr>])"
  by (rule vma_insert_full_evicts) simp_all

end
