(* ===== verification/Btree_Map.thy ===== *)
theory Btree_Map
  imports Kernel_Prelude
begin

text \<open>
  \<open>alloc::collections::BTreeMap\<close>, the ordered map of the Rust standard library that the
  handle tables, the shared buffers, the fast channels, the tmpfs directories and the mmap
  table use. It is modelled by its in-order contents, an association list with strictly
  increasing keys, so that iteration (\<open>iter\<close>, \<open>range\<close>) is the list itself. The locale
  \<open>ordered_map\<close> states what its clients rely on; \<open>bt\<close> is the interpretation.
\<close>

type_synonym ('k, 'v) btree = "('k \<times> 'v) list"

fun bt_insert :: "'k::linorder \<Rightarrow> 'v \<Rightarrow> ('k, 'v) btree \<Rightarrow> ('k, 'v) btree" where
  "bt_insert k v [] = [(k, v)]"
| "bt_insert k v (p # m) =
     (if fst p < k then p # bt_insert k v m
      else if fst p = k then (k, v) # m
      else (k, v) # p # m)"

definition bt_get :: "'k \<Rightarrow> ('k, 'v) btree \<Rightarrow> 'v option" where
  "bt_get k m = map_of m k"

definition bt_remove :: "'k \<Rightarrow> ('k, 'v) btree \<Rightarrow> ('k, 'v) btree" where
  "bt_remove k m = filter (\<lambda>p. fst p \<noteq> k) m"

definition bt_wf :: "('k::linorder, 'v) btree \<Rightarrow> bool" where
  "bt_wf m \<longleftrightarrow> sorted_wrt (<) (map fst m)"

lemma bt_get_simps [simp]:
  "bt_get k [] = None"
  "bt_get k ((k', v) # m) = (if k' = k then Some v else bt_get k m)"
  by (simp_all add: bt_get_def)

lemma bt_get_in_set: "bt_get k m = Some v \<Longrightarrow> (k, v) \<in> set m"
  by (simp add: bt_get_def map_of_SomeD)

lemma bt_get_None_iff: "bt_get k m = None \<longleftrightarrow> k \<notin> fst ` set m"
  by (auto simp: bt_get_def map_of_eq_None_iff)

lemma bt_get_smaller:
  "\<forall>p \<in> set m. (k :: 'k::linorder) < fst p \<Longrightarrow> bt_get k m = None"
  unfolding bt_get_None_iff by force

lemma fst_set_bt_insert: "fst ` set (bt_insert k v m) = insert k (fst ` set m)"
  by (induction m) auto

lemma bt_wf_Cons: "bt_wf (p # m) \<longleftrightarrow> (\<forall>q \<in> set m. fst p < fst q) \<and> bt_wf m"
  by (simp add: bt_wf_def)

lemma bt_wf_Nil [simp]: "bt_wf []"
  by (simp add: bt_wf_def)

lemma bt_wf_insert: "bt_wf m \<Longrightarrow> bt_wf (bt_insert k v m)"
proof (induction m)
  case Nil
  then show ?case by (simp add: bt_wf_def)
next
  case (Cons p m)
  have *: "\<forall>x \<in> fst ` set (bt_insert k v m). fst p < x" if "fst p < k"
    using Cons.prems that by (simp add: fst_set_bt_insert bt_wf_Cons)
  show ?case
  proof (cases "fst p < k")
    case True
    with Cons * show ?thesis by (simp add: bt_wf_Cons)
  next
    case False
    with Cons.prems show ?thesis by (auto simp: bt_wf_Cons intro: less_trans)
  qed
qed

lemma bt_wf_remove: "bt_wf m \<Longrightarrow> bt_wf (bt_remove k m)"
  by (induction m) (auto simp: bt_wf_Cons bt_remove_def)

lemma bt_get_insert:
  "bt_wf m \<Longrightarrow> bt_get k' (bt_insert k v m) = (if k' = k then Some v else bt_get k' m)"
proof (induction m)
  case Nil
  then show ?case by auto
next
  case (Cons p m)
  then show ?case by (cases p) (auto simp: bt_wf_Cons)
qed

lemma bt_get_remove: "bt_get k' (bt_remove k m) = (if k' = k then None else bt_get k' m)"
  by (induction m) (auto simp: bt_remove_def)

lemma bt_wf_distinct: "bt_wf m \<Longrightarrow> distinct (map fst m)"
  by (simp add: bt_wf_def strict_sorted_iff)

lemma bt_get_iff_set: "bt_wf m \<Longrightarrow> bt_get k m = Some v \<longleftrightarrow> (k, v) \<in> set m"
  by (simp add: bt_get_def bt_wf_distinct)

lemma length_bt_insert_fresh: "bt_get k m = None \<Longrightarrow> length (bt_insert k v m) = Suc (length m)"
  by (induction m) (auto split: if_splits)

lemma map_bt_insert_fst:
  "(\<And>k v. f (k, v) = f' k) \<Longrightarrow> set (map f (bt_insert k v m)) = insert (f' k) (set (map f m))"
  by (induction m) auto

section \<open>The interface\<close>

locale ordered_map =
  fixes ins :: "'k \<Rightarrow> 'v \<Rightarrow> 'm \<Rightarrow> 'm"
    and get :: "'k \<Rightarrow> 'm \<Rightarrow> 'v option"
    and del :: "'k \<Rightarrow> 'm \<Rightarrow> 'm"
    and wf :: "'m \<Rightarrow> bool"
  assumes get_ins: "wf m \<Longrightarrow> get k' (ins k v m) = (if k' = k then Some v else get k' m)"
    and get_del: "wf m \<Longrightarrow> get k' (del k m) = (if k' = k then None else get k' m)"
    and wf_ins: "wf m \<Longrightarrow> wf (ins k v m)"
    and wf_del: "wf m \<Longrightarrow> wf (del k m)"
begin

lemma get_ins_same: "wf m \<Longrightarrow> get k (ins k v m) = Some v"
  by (simp add: get_ins)

lemma get_ins_other: "wf m \<Longrightarrow> k' \<noteq> k \<Longrightarrow> get k' (ins k v m) = get k' m"
  by (simp add: get_ins)

lemma get_del_ins: "wf m \<Longrightarrow> get k m = None \<Longrightarrow> get k' (del k (ins k v m)) = get k' m"
  by (simp add: get_del wf_ins get_ins)

text \<open>A fold of insertions, as the kernel's initialisation loops do.\<close>

lemma get_fold_ins:
  "wf m \<Longrightarrow> wf (fold (\<lambda>(k, v). ins k v) kvs m) \<and>
    get k (fold (\<lambda>(k, v). ins k v) kvs m) =
      (case map_of (rev kvs) k of Some v \<Rightarrow> Some v | None \<Rightarrow> get k m)"
  by (induction kvs arbitrary: m)
    (auto simp: get_ins wf_ins map_add_def map_of_append split: option.splits)

end

interpretation bt: ordered_map
  "bt_insert :: 'k::linorder \<Rightarrow> 'v \<Rightarrow> ('k, 'v) btree \<Rightarrow> ('k, 'v) btree"
  bt_get bt_remove bt_wf
  by unfold_locales (simp_all add: bt_get_insert bt_get_remove bt_wf_insert bt_wf_remove)

lemmas bt_laws [simp] = bt.get_ins bt.get_del bt.wf_ins bt.wf_del

end
