(* ===== verification/Handle_Table.thy ===== *)
theory Handle_Table
  imports Btree_Map
begin

text \<open>
  Capability handles, \<open>kernel/src/process/handle.rs\<close>.

  A resource is a value of any type \<open>'o\<close>; \<open>Arc::downcast\<close> to a Rust type is a partial
  projection \<open>'o \<Rightarrow> 't option\<close> passed to \<open>ht_get\<close>. The lemmas show that a fresh handle
  never names an existing resource, that a lookup needs every right it asks for, that
  \<open>restrict\<close> only ever shrinks rights, and that a table reads as a map that \<open>insert\<close> and
  \<open>close\<close> update at one identifier.
\<close>

section \<open>Rights\<close>

type_synonym rights = u32

definition R_NONE :: rights where "R_NONE = 0"
definition R_READ :: rights where "R_READ = 1"
definition R_WRITE :: rights where "R_WRITE = 2"
definition R_EXEC :: rights where "R_EXEC = 4"
definition R_GRANT :: rights where "R_GRANT = 8"
definition R_ALL :: rights where "R_ALL = 0b1111"

lemmas rights_defs = R_NONE_def R_READ_def R_WRITE_def R_EXEC_def R_GRANT_def R_ALL_def

definition rights_contains :: "rights \<Rightarrow> rights \<Rightarrow> bool" where
  "rights_contains self other \<longleftrightarrow> self AND other = other"

definition fmt_bits :: "rights \<Rightarrow> string" where
  "fmt_bits self =
     (let b = self AND 0b111 in
      if b = 0b000 then ''---'' else if b = 0b001 then ''r--'' else if b = 0b010 then ''-w-''
      else if b = 0b011 then ''rw-'' else if b = 0b100 then ''--x'' else if b = 0b101 then ''r-x''
      else if b = 0b110 then ''-wx'' else if b = 0b111 then ''rwx'' else ''???'')"

definition rights_fmt :: "rights \<Rightarrow> string" where
  "rights_fmt self = fmt_bits self @ (if rights_contains self R_GRANT then ''+grant'' else '''')"

section \<open>Capabilities and the table\<close>

record 'o capability =
  cap_object :: 'o
  cap_rights :: rights

definition cap_restrict :: "'o capability \<Rightarrow> rights \<Rightarrow> 'o capability" where
  "cap_restrict c m = \<lparr>cap_object = cap_object c, cap_rights = cap_rights c AND m\<rparr>"

record handle =
  h_id :: u32
  h_rights :: rights

record 'o handle_table =
  ht_table :: "(u32, 'o capability) btree"
  next_id :: u32

definition ht_new :: "'o handle_table" where
  "ht_new = \<lparr>ht_table = [], next_id = 3\<rparr>"

text \<open>\<open>self.next_id += 1\<close> panics when it overflows.\<close>

definition ht_insert :: "'o capability \<Rightarrow> 'o handle_table \<Rightarrow> ('o handle_table \<times> handle) option" where
  "ht_insert cap t = do {
     let i = next_id t;
     nid \<leftarrow> add_chk (next_id t) 1;
     Some (\<lparr>ht_table = bt_insert i cap (ht_table t), next_id = nid\<rparr>,
           \<lparr>h_id = i, h_rights = cap_rights cap\<rparr>)
   }"

definition ht_get :: "('o \<Rightarrow> 't option) \<Rightarrow> u32 \<Rightarrow> rights \<Rightarrow> 'o handle_table \<Rightarrow> 't option" where
  "ht_get downcast i required t = do {
     raw \<leftarrow> bt_get i (ht_table t);
     if \<not> rights_contains (cap_rights raw) required then None else downcast (cap_object raw)
   }"

definition ht_contains :: "u32 \<Rightarrow> 'o handle_table \<Rightarrow> bool" where
  "ht_contains i t \<longleftrightarrow> bt_get i (ht_table t) \<noteq> None"

definition rights_of :: "u32 \<Rightarrow> 'o handle_table \<Rightarrow> rights option" where
  "rights_of i t = map_option cap_rights (bt_get i (ht_table t))"

definition ht_close :: "u32 \<Rightarrow> 'o handle_table \<Rightarrow> 'o handle_table \<times> bool" where
  "ht_close i t = (t\<lparr>ht_table := bt_remove i (ht_table t)\<rparr>, bt_get i (ht_table t) \<noteq> None)"

definition ht_len :: "'o handle_table \<Rightarrow> nat" where
  "ht_len t = length (ht_table t)"

definition ht_list :: "'o handle_table \<Rightarrow> (u32 \<times> rights) list" where
  "ht_list t = map (\<lambda>(i, raw). (i, cap_rights raw)) (ht_table t)"

section \<open>Invariant and lemmas\<close>

text \<open>Every identifier in use was handed out: it is at least 3 and below \<open>next_id\<close>.\<close>

definition ht_ok :: "'o handle_table \<Rightarrow> bool" where
  "ht_ok t \<longleftrightarrow> bt_wf (ht_table t) \<and> 3 \<le> next_id t \<and>
     (\<forall>p \<in> set (ht_table t). 3 \<le> fst p \<and> fst p < next_id t)"

lemma rights_contains_iff:
  "rights_contains a b \<longleftrightarrow> (\<forall>n. bit b n \<longrightarrow> bit a n)"
proof -
  have "\<not> bit b n" if "32 \<le> n" for n
    using that by (auto dest: bit_imp_le_length)
  then show ?thesis
    unfolding rights_contains_def bit_eq_iff bit_and_iff by (metis bit_imp_le_length possible_bit_word)
qed

lemma rights_contains_refl [simp]: "rights_contains r r"
  by (simp add: rights_contains_iff)

lemma rights_contains_trans:
  "rights_contains a b \<Longrightarrow> rights_contains b c \<Longrightarrow> rights_contains a c"
  by (simp add: rights_contains_iff)

lemma rights_contains_None [simp]: "rights_contains r R_NONE"
  by (simp add: rights_contains_iff R_NONE_def)

lemma ht_new_ok [kernel_inv]: "ht_ok ht_new"
  by (simp add: ht_ok_def ht_new_def)

lemma ht_insert_ok [kernel_inv]:
  assumes "ht_ok t" and "ht_insert cap t = Some (t', h)"
  shows "ht_ok t'"
proof -
  from assms(2) obtain nid where a: "add_chk (next_id t) 1 = Some nid"
    and t': "t' = \<lparr>ht_table = bt_insert (next_id t) cap (ht_table t), next_id = nid\<rparr>"
    by (auto simp: ht_insert_def Let_def bind_eq_Some_conv)
  have n: "unat nid = unat (next_id t) + 1" using add_chk_SomeD [OF a] by (metis unsigned_1)
  have "3 \<le> fst p \<and> fst p < nid" if "p \<in> set (bt_insert (next_id t) cap (ht_table t))" for p
  proof -
    have "fst p = next_id t \<or> fst p \<in> fst ` set (ht_table t)"
      using that fst_set_bt_insert [of "next_id t" cap "ht_table t"] by blast
    then have "3 \<le> fst p \<and> fst p \<le> next_id t"
      using assms(1) by (auto simp: ht_ok_def less_imp_le)
    then show ?thesis using n by (auto simp: word_le_nat_alt word_less_nat_alt)
  qed
  moreover have "3 \<le> nid" using assms(1) n by (simp add: ht_ok_def word_le_nat_alt)
  ultimately show ?thesis using assms(1) by (simp add: ht_ok_def t')
qed

lemma ht_close_ok [kernel_inv]: "ht_ok t \<Longrightarrow> ht_ok (fst (ht_close i t))"
  by (auto simp: ht_ok_def ht_close_def bt_remove_def bt_wf_remove [unfolded bt_remove_def])

lemma ht_next_fresh: "ht_ok t \<Longrightarrow> bt_get (next_id t) (ht_table t) = None"
  by (auto simp: ht_ok_def bt_get_None_iff)

section \<open>Properties\<close>

text \<open>A handle is fresh: no open handle has its identifier (not even 0, 1 and 2); it carries
  the rights of the capability; looking it up gives the object exactly when the requested
  rights are contained in them; every other identifier reads as before.\<close>

theorem ht_insert_fresh_handle:
  assumes "ht_ok t" and "ht_insert cap t = Some (t', h)"
  shows "\<not> ht_contains (h_id h) t \<and> 3 \<le> h_id h \<and> h_rights h = cap_rights cap \<and> ht_ok t' \<and>
    ht_get d i req t' =
      (if i = h_id h
       then if rights_contains (cap_rights cap) req then d (cap_object cap) else None
       else ht_get d i req t)"
proof -
  have h: "h_id h = next_id t" "h_rights h = cap_rights cap"
    and t': "ht_table t' = bt_insert (next_id t) cap (ht_table t)"
    using assms(2) by (auto simp: ht_insert_def Let_def bind_eq_Some_conv)
  have "bt_wf (ht_table t)" "3 \<le> next_id t" using assms(1) by (simp_all add: ht_ok_def)
  then show ?thesis
    using ht_next_fresh [OF assms(1)] ht_insert_ok [OF assms] h t'
    by (simp add: ht_contains_def ht_get_def)
qed

theorem ht_insert_fresh_handle_witness:
  "\<exists>t' h. ht_insert \<lparr>cap_object = (7 :: nat), cap_rights = R_READ\<rparr> ht_new = Some (t', h) \<and>
    \<not> ht_contains (h_id h) (ht_new :: nat handle_table) \<and> 3 \<le> h_id h \<and>
    h_rights h = R_READ \<and> ht_ok t' \<and> ht_get Some 3 R_WRITE t' = None"
proof -
  let ?c = "\<lparr>cap_object = (7 :: nat), cap_rights = R_READ\<rparr>"
  obtain t' h where r: "ht_insert ?c ht_new = Some (t', h)" and i: "h_id h = 3"
    by (simp add: ht_insert_def Let_def ht_new_def add_chk_def)
  from ht_insert_fresh_handle [OF ht_new_ok r, where d = Some and i = 3 and req = R_WRITE] r i
  show ?thesis by (auto simp: rights_contains_def rights_defs)
qed

text \<open>Rights only shrink: \<open>restrict\<close> keeps the object and yields rights contained in both the
  old rights and the mask, so nothing a restricted capability can be asked for was not
  already granted.\<close>

theorem cap_restrict_monotone:
  "cap_object (cap_restrict c m) = cap_object c \<and>
   rights_contains (cap_rights c) (cap_rights (cap_restrict c m)) \<and>
   rights_contains m (cap_rights (cap_restrict c m)) \<and>
   (rights_contains (cap_rights (cap_restrict c m)) r \<longleftrightarrow>
     rights_contains (cap_rights c) r \<and> rights_contains m r)"
  by (auto simp: cap_restrict_def rights_contains_iff bit_simps)

text \<open>Closing a handle reports whether it was open, and afterwards no lookup finds it while all
  others are unchanged.\<close>

theorem ht_close_spec:
  "snd (ht_close i t) = ht_contains i t \<and> \<not> ht_contains i (fst (ht_close i t)) \<and>
   ht_get d j req (fst (ht_close i t)) = (if j = i then None else ht_get d j req t)"
  by (simp add: ht_close_def ht_contains_def ht_get_def bt_get_remove)

end
