(* ===== verification/Scheduler.thy ===== *)
theory Scheduler
  imports Handle_Table
begin

text \<open>
  The process table and the preemptive scheduler, \<open>kernel/src/process/mod.rs\<close> and
  \<open>kernel/src/process/scheduler.rs\<close>.

  The record \<open>process\<close> is the process control block, \<open>scheduler\<close> the singleton \<open>SCHEDULER\<close>
  together with the two statics the methods read and write (\<open>SCHED_MODE\<close>, \<open>SWITCH_COUNT\<close>).
  What the hardware and other modules supply is in \<open>sched_env\<close>: the timer tick, the two time
  stamp counter reads of a switch (one for the outgoing accounting, one for the incoming
  process) and the number of the running core. The tick is read several times in one switch;
  interrupts are off there, so it is one value.
  Calls into the Policy Engine that do not return anything are appended to \<open>policy_calls\<close>;
  the theory \<open>Policy\<close> executes them. A vector index out of range and an arithmetic overflow
  panic (\<open>None\<close>).

  The candidate loops of both scheduling modes are instances of one locale, \<open>first_best\<close>:
  the first index, in round robin order, that no other candidate beats.
\<close>

section \<open>Process control blocks (\<open>process/mod.rs\<close>)\<close>

definition KERNEL_STACK_SIZE :: nat where "KERNEL_STACK_SIZE = 64 * 1024"
definition ISR_REG_COUNT :: nat where "ISR_REG_COUNT = 15"
definition IRETQ_FRAME_SIZE :: nat where "IRETQ_FRAME_SIZE = 3"
definition PREEMPT_FRAME_BYTES :: nat where
  "PREEMPT_FRAME_BYTES = (ISR_REG_COUNT + IRETQ_FRAME_SIZE) * 8"
definition KERNEL_CODE_SEL :: u64 where "KERNEL_CODE_SEL = 0x08"

datatype process_state = Ready | Running | Blocked | Dead

datatype priority = Idle | Low | Normal | High

primrec priority_u8 :: "priority \<Rightarrow> u8" where
  "priority_u8 Idle = 0"
| "priority_u8 Low = 1"
| "priority_u8 Normal = 2"
| "priority_u8 High = 3"

text \<open>The derived \<open>Ord\<close> of the enumeration is the order of its discriminants.\<close>

instantiation priority :: linorder
begin

definition less_eq_priority :: "priority \<Rightarrow> priority \<Rightarrow> bool" where
  "p \<le> q \<longleftrightarrow> priority_u8 p \<le> priority_u8 q"

definition less_priority :: "priority \<Rightarrow> priority \<Rightarrow> bool" where
  "p < q \<longleftrightarrow> priority_u8 p < priority_u8 q"

instance
proof
  fix x y z :: priority
  show "x < y \<longleftrightarrow> x \<le> y \<and> \<not> y \<le> x"
    by (auto simp: less_eq_priority_def less_priority_def)
  show "x \<le> x" by (simp add: less_eq_priority_def)
  show "x \<le> y \<Longrightarrow> y \<le> z \<Longrightarrow> x \<le> z" by (simp add: less_eq_priority_def)
  show "x \<le> y \<Longrightarrow> y \<le> x \<Longrightarrow> x = y"
    by (cases x; cases y) (simp_all add: less_eq_priority_def word_le_nat_alt)
  show "x \<le> y \<or> y \<le> x" by (auto simp: less_eq_priority_def)
qed

end

lemma priority_le_High [simp]: "p \<le> High"
  by (cases p) (simp_all add: less_eq_priority_def)

lemma priority_Idle_le [simp]: "Idle \<le> p"
  by (cases p) (simp_all add: less_eq_priority_def)

definition priority_from_u8 :: "u8 \<Rightarrow> priority" where
  "priority_from_u8 v = (if v = 0 then Idle else if v = 1 then Low else if v = 3 then High else Normal)"

fun priority_name :: "priority \<Rightarrow> string" where
  "priority_name Idle = ''Idle''"
| "priority_name Low = ''Low''"
| "priority_name Normal = ''Normal''"
| "priority_name High = ''High''"

record message =
  sender :: pid
  msg_len :: nat
  msg_data :: bytes
  fast_cap :: u64

record 'o process =
  p_pid :: pid
  p_name :: string
  p_state :: process_state
  p_priority :: priority
  preempt_rsp :: u64
  kernel_stack :: bytes
  message_queue :: "message list"
  forced_preempts :: u64
  voluntary_yields :: u64
  boost_ticks :: u64
  ready_since_tick :: u64
  pending_sleep_ticks :: u64
  wake_at_tick :: u64
  vruntime :: u64
  run_start_ts :: u64
  reaped :: bool
  handle_table :: "'o handle_table"
  preferred_cpu :: u8
  ipc_peer_pids :: "pid list"
  ipc_peer_counts :: "u64 list"

text \<open>
  \<open>Process::new\<close>: a zeroed stack with a forged interrupt frame at its top. \<open>stack_ptr\<close> is the
  address the heap gave the stack, \<open>entry\<close> and \<open>process_start\<close> the addresses of the entry
  function and of the assembly trampoline. The frame is a list of 18 words, index 0 lowest.
\<close>

definition initial_frame :: "u64 \<Rightarrow> u64 \<Rightarrow> u64 \<Rightarrow> u64 list" where
  "initial_frame stack_top entry process_start =
     (replicate (ISR_REG_COUNT + IRETQ_FRAME_SIZE) 0)
       [5 := stack_top, 14 := entry, 15 := process_start, 16 := KERNEL_CODE_SEL, 17 := 0x202]"

definition process_new :: "u64 \<Rightarrow> u64 \<Rightarrow> pid \<Rightarrow> string \<Rightarrow> u64 \<Rightarrow> 'o process option" where
  "process_new stack_ptr process_start pid name entry = do {
     stack_top \<leftarrow> add_chk stack_ptr (of_nat KERNEL_STACK_SIZE);
     frame_start \<leftarrow> sub_chk stack_top (of_nat PREEMPT_FRAME_BYTES);
     Some \<lparr>p_pid = pid, p_name = name, p_state = Ready, p_priority = Normal,
       preempt_rsp = frame_start,
       kernel_stack = replicate (KERNEL_STACK_SIZE - PREEMPT_FRAME_BYTES) 0 @
         concat (map to_le_bytes (initial_frame stack_top entry process_start)),
       message_queue = [], forced_preempts = 0, voluntary_yields = 0, boost_ticks = 0,
       ready_since_tick = 0, pending_sleep_ticks = 0, wake_at_tick = 0, vruntime = 0,
       run_start_ts = 0, reaped = False, handle_table = ht_new, preferred_cpu = - 1,
       ipc_peer_pids = replicate 8 0, ipc_peer_counts = replicate 8 0\<rparr>
   }"

definition new_kernel_main :: "'o process" where
  "new_kernel_main =
     \<lparr>p_pid = 0, p_name = ''kernel_main'', p_state = Running, p_priority = Normal,
       preempt_rsp = 0, kernel_stack = [], message_queue = [], forced_preempts = 0,
       voluntary_yields = 0, boost_ticks = 0, ready_since_tick = 0, pending_sleep_ticks = 0,
       wake_at_tick = 0, vruntime = 0, run_start_ts = 0, reaped = False, handle_table = ht_new,
       preferred_cpu = 0, ipc_peer_pids = replicate 8 0, ipc_peer_counts = replicate 8 0\<rparr>"

definition reap :: "'o process \<Rightarrow> 'o process" where
  "reap p = p\<lparr>message_queue := [], handle_table := ht_new, reaped := True\<rparr>"

text \<open>The eight peer counters, seen as the pairs of the two arrays.\<close>

definition record_ipc_send :: "'o process \<Rightarrow> pid \<Rightarrow> 'o process \<times> u64" where
  "record_ipc_send p to =
     (let peers = zip (ipc_peer_pids p) (ipc_peer_counts p) in
      case find_idx (\<lambda>(q, c). c > 0 \<and> q = to) peers of
        Some i \<Rightarrow>
          let c = sat_add (ipc_peer_counts p ! i) 1
          in (p\<lparr>ipc_peer_counts := (ipc_peer_counts p)[i := c]\<rparr>, c)
      | None \<Rightarrow>
          let i = (case find_idx (\<lambda>c. c = 0) (ipc_peer_counts p) of
                     Some i \<Rightarrow> i
                   | None \<Rightarrow> min_idx id (ipc_peer_counts p))
          in (p\<lparr>ipc_peer_pids := (ipc_peer_pids p)[i := to],
                ipc_peer_counts := (ipc_peer_counts p)[i := 1]\<rparr>, 1))"

section \<open>The scheduler (\<open>process/scheduler.rs\<close>)\<close>

primrec priority_weight :: "priority \<Rightarrow> u8" where
  "priority_weight High = 4"
| "priority_weight Normal = 2"
| "priority_weight Low = 1"
| "priority_weight Idle = 0"

primrec starvation_threshold :: "priority \<Rightarrow> u64 option" where
  "starvation_threshold Low = Some 72"
| "starvation_threshold Normal = Some 36"
| "starvation_threshold High = None"
| "starvation_threshold Idle = None"

definition FAIRNESS_FLOOR_TICKS :: u64 where "FAIRNESS_FLOOR_TICKS = 200"

definition effective_priority :: "'o process \<Rightarrow> u64 \<Rightarrow> priority" where
  "effective_priority p now =
     (if boost_ticks p > 0 then High
      else
        let wait = sat_sub now (ready_since_tick p) in
        if p_priority p \<noteq> Idle \<and> wait \<ge> FAIRNESS_FLOOR_TICKS then High
        else case starvation_threshold (p_priority p) of
            Some threshold \<Rightarrow>
              if wait \<ge> threshold then priority_from_u8 (priority_u8 (p_priority p) + 1)
              else p_priority p
          | None \<Rightarrow> p_priority p)"

datatype sched_mode = WeightedPriority | Cfs

definition NICE0_WEIGHT :: u64 where "NICE0_WEIGHT = 1024"

primrec cfs_weight :: "priority \<Rightarrow> u64" where
  "cfs_weight High = 88761"
| "cfs_weight Normal = 1024"
| "cfs_weight Low = 335"
| "cfs_weight Idle = 15"

datatype policy_call =
    Register_pid pid
  | Unregister_pid pid
  | Observe_ipc pid pid u64 u64

record 'o scheduler =
  processes :: "'o process list"
  current :: nat
  next_pid :: pid
  remaining_quanta :: u8
  mode :: sched_mode
  switch_count :: u64
  policy_calls :: "policy_call list"

record sched_env =
  env_tick :: u64
  env_ts_out :: u64
  env_ts_in :: u64
  env_cpu :: u8

definition scheduler_new :: "'o scheduler" where
  "scheduler_new = \<lparr>processes = [], current = 0, next_pid = 1, remaining_quanta = 1,
     mode = WeightedPriority, switch_count = 0, policy_calls = []\<rparr>"

definition scheduler_init :: "'o scheduler" where
  "scheduler_init = scheduler_new\<lparr>processes := [new_kernel_main], policy_calls := [Register_pid 0]\<rparr>"

text \<open>\<open>self.processes[i].field = ..\<close>; callers have checked the index.\<close>

definition upd_proc :: "nat \<Rightarrow> ('o process \<Rightarrow> 'o process) \<Rightarrow> 'o scheduler \<Rightarrow> 'o scheduler" where
  "upd_proc i f s = s\<lparr>processes := (processes s)[i := f (processes s ! i)]\<rparr>"

text \<open>The loops \<open>for p in processes.iter_mut() { if p.pid == pid { ..; return } }\<close>.\<close>

definition upd_pid :: "pid \<Rightarrow> ('o process \<Rightarrow> 'o process) \<Rightarrow> 'o scheduler \<Rightarrow> 'o scheduler" where
  "upd_pid q f s = s\<lparr>processes := upd_first (\<lambda>p. p_pid p = q) f (processes s)\<rparr>"

definition cur_proc :: "'o scheduler \<Rightarrow> 'o process option" where
  "cur_proc s = (if current s < length (processes s) then Some (processes s ! current s) else None)"

definition rebase_vruntime :: "'o scheduler \<Rightarrow> 'o scheduler" where
  "rebase_vruntime s = s\<lparr>processes := map (\<lambda>p. p\<lparr>vruntime := 0\<rparr>) (processes s)\<rparr>"

definition set_mode :: "sched_mode \<Rightarrow> 'o scheduler \<Rightarrow> 'o scheduler" where
  "set_mode m s = (let s = s\<lparr>mode := m\<rparr> in if m = Cfs then rebase_vruntime s else s)"

definition alloc_pid :: "'o scheduler \<Rightarrow> ('o scheduler \<times> pid) option" where
  "alloc_pid s = do {
     n \<leftarrow> add_chk (next_pid s) 1;
     Some (s\<lparr>next_pid := n\<rparr>, next_pid s)
   }"

definition current_pid :: "'o scheduler \<Rightarrow> pid option" where
  "current_pid s = map_option p_pid (cur_proc s)"

definition spawn :: "'o process \<Rightarrow> 'o scheduler \<Rightarrow> 'o scheduler" where
  "spawn p s =
     (let s = s\<lparr>policy_calls := policy_calls s @ [Register_pid (p_pid p)]\<rparr>;
          vrs = map vruntime (filter (\<lambda>q. p_state q = Ready) (processes s));
          p = (if mode s = Cfs \<and> vrs \<noteq> [] then p\<lparr>vruntime := foldl min (hd vrs) (tl vrs)\<rparr> else p)
      in s\<lparr>processes := processes s @ [p]\<rparr>)"

definition kill :: "pid \<Rightarrow> 'o scheduler \<Rightarrow> 'o scheduler" where
  "kill q s =
     (let s = upd_pid q (\<lambda>p. p\<lparr>p_state := Dead\<rparr>) s
      in s\<lparr>policy_calls := policy_calls s @ [Unregister_pid q]\<rparr>)"

definition reap_dead :: "'o scheduler \<Rightarrow> 'o scheduler" where
  "reap_dead s = s\<lparr>processes := map (\<lambda>(i, p).
      if i \<noteq> current s \<and> p_state p = Dead \<and> \<not> reaped p then reap p else p)
      (enumerate 0 (processes s))\<rparr>"

definition keyboard_boost :: "'o scheduler \<Rightarrow> 'o scheduler option" where
  "keyboard_boost s = do {
     p \<leftarrow> cur_proc s;
     Some (if p_priority p = Idle then s
           else upd_proc (current s) (\<lambda>p. p\<lparr>boost_ticks := max (boost_ticks p) 8\<rparr>) s)
   }"

definition boost_pid :: "pid \<Rightarrow> u64 \<Rightarrow> 'o scheduler \<Rightarrow> 'o scheduler" where
  "boost_pid q ticks s = upd_pid q
     (\<lambda>p. if p_priority p = Idle then p else p\<lparr>boost_ticks := max (boost_ticks p) ticks\<rparr>) s"

definition set_priority :: "pid \<Rightarrow> priority \<Rightarrow> 'o scheduler \<Rightarrow> 'o scheduler" where
  "set_priority q pri s = upd_pid q (\<lambda>p. p\<lparr>p_priority := pri\<rparr>) s"

definition get_priority :: "pid \<Rightarrow> 'o scheduler \<Rightarrow> priority" where
  "get_priority q s =
     (case find (\<lambda>p. p_pid p = q) (processes s) of Some p \<Rightarrow> p_priority p | None \<Rightarrow> Normal)"

definition request_sleep :: "u64 \<Rightarrow> 'o scheduler \<Rightarrow> 'o scheduler option" where
  "request_sleep ticks s = do {
     _ \<leftarrow> cur_proc s;
     Some (upd_proc (current s) (\<lambda>p. p\<lparr>pending_sleep_ticks := max ticks 1\<rparr>) s)
   }"

definition set_preferred_cpu :: "pid \<Rightarrow> u8 \<Rightarrow> 'o scheduler \<Rightarrow> 'o scheduler" where
  "set_preferred_cpu q cpu s = upd_pid q (\<lambda>p. p\<lparr>preferred_cpu := cpu\<rparr>) s"

definition get_stats :: "pid \<Rightarrow> 'o scheduler \<Rightarrow> (u64 \<times> u64) option" where
  "get_stats q s = map_option (\<lambda>p. (voluntary_yields p, forced_preempts p))
     (find (\<lambda>p. p_pid p = q) (processes s))"

text \<open>The scan order of the candidate loops: \<open>(start + i) % count\<close> for \<open>i\<close> in \<open>1..=count\<close>.\<close>

definition scan_order :: "nat \<Rightarrow> nat \<Rightarrow> nat list" where
  "scan_order start count = map (\<lambda>i. (start + i) mod count) [1..<Suc count]"

definition same_cpu :: "sched_env \<Rightarrow> 'o process \<Rightarrow> bool" where
  "same_cpu env p \<longleftrightarrow> preferred_cpu p = - 1 \<or> preferred_cpu p = env_cpu env"

text \<open>
  The loop variables \<open>best_idx\<close>, \<open>best_pri\<close>, \<open>best_same_cpu\<close> are one optional tuple: the last
  two are read only when the first is \<open>Some\<close>.
\<close>

definition better_wp :: "priority \<times> bool \<Rightarrow> priority \<times> bool \<Rightarrow> bool" where
  "better_wp new best \<longleftrightarrow>
     fst new > fst best \<or> (fst new = fst best \<and> snd new \<and> \<not> snd best)"

definition better_cfs :: "u64 \<times> bool \<Rightarrow> u64 \<times> bool \<Rightarrow> bool" where
  "better_cfs new best \<longleftrightarrow>
     fst new < fst best \<or> (fst new = fst best \<and> snd new \<and> \<not> snd best)"

definition wp_key :: "sched_env \<Rightarrow> 'o process \<Rightarrow> priority \<times> bool" where
  "wp_key env p = (effective_priority p (env_tick env), same_cpu env p)"

definition cfs_key :: "sched_env \<Rightarrow> 'o process \<Rightarrow> u64 \<times> bool" where
  "cfs_key env p = (vruntime p, same_cpu env p)"

definition scan_step ::
  "('k \<Rightarrow> 'k \<Rightarrow> bool) \<Rightarrow> ('o process \<Rightarrow> 'k) \<Rightarrow> 'o process list \<Rightarrow> (nat \<times> 'k) option \<Rightarrow> nat
     \<Rightarrow> (nat \<times> 'k) option" where
  "scan_step better key ps best idx =
     (let p = ps ! idx in
      if p_state p \<noteq> Ready then best
      else case best of
          None \<Rightarrow> Some (idx, key p)
        | Some (_, k) \<Rightarrow> if better (key p) k then Some (idx, key p) else best)"

definition pick ::
  "('k \<Rightarrow> 'k \<Rightarrow> bool) \<Rightarrow> ('o process \<Rightarrow> 'k) \<Rightarrow> 'o process list \<Rightarrow> nat \<Rightarrow> nat option" where
  "pick better key ps start =
     map_option fst (foldl (scan_step better key ps) None (scan_order start (length ps)))"

definition wake_sleepers :: "u64 \<Rightarrow> 'o process list \<Rightarrow> 'o process list" where
  "wake_sleepers now ps = map (\<lambda>p.
     if p_state p = Blocked \<and> wake_at_tick p \<noteq> 0 \<and> now \<ge> wake_at_tick p
     then p\<lparr>p_state := Ready, wake_at_tick := 0, ready_since_tick := now\<rparr> else p) ps"

text \<open>The common tail of both modes: the chosen process runs.\<close>

definition dispatch :: "sched_env \<Rightarrow> nat \<Rightarrow> 'o scheduler \<Rightarrow> 'o scheduler \<times> u64" where
  "dispatch env nxt s =
     (let s = upd_proc nxt (\<lambda>p. p\<lparr>p_state := Running, run_start_ts := env_ts_in env\<rparr>) s;
          s = s\<lparr>current := nxt\<rparr>
      in (s, preempt_rsp (processes s ! nxt)))"

definition keep_running :: "u64 \<Rightarrow> 'o scheduler \<Rightarrow> 'o scheduler \<times> u64" where
  "keep_running rsp s = (upd_proc (current s) (\<lambda>p. p\<lparr>p_state := Running\<rparr>) s, rsp)"

definition first_boosted :: "'o process list \<Rightarrow> nat \<Rightarrow> nat option" where
  "first_boosted ps start =
     find (\<lambda>i. p_state (ps ! i) = Ready \<and> boost_ticks (ps ! i) > 0) (scan_order start (length ps))"

definition switch_to_next_cfs :: "sched_env \<Rightarrow> u64 \<Rightarrow> 'o scheduler \<Rightarrow> 'o scheduler \<times> u64" where
  "switch_to_next_cfs env rsp s =
     (case first_boosted (processes s) (current s) of
        Some i \<Rightarrow> dispatch env i s
      | None \<Rightarrow>
         (case pick better_cfs (cfs_key env) (processes s) (current s) of
            Some i \<Rightarrow> dispatch env i s
          | None \<Rightarrow> keep_running rsp s))"

definition switch_to_next :: "sched_env \<Rightarrow> u64 \<Rightarrow> bool \<Rightarrow> 'o scheduler \<Rightarrow> ('o scheduler \<times> u64) option" where
  "switch_to_next env rsp force_switch s0 =
     (let s = s0\<lparr>processes := wake_sleepers (env_tick env) (processes s0)\<rparr> in
      if current s \<ge> length (processes s) then None
      else if length (processes s) \<le> 1 then Some (keep_running rsp s)
      else if mode s \<noteq> Cfs \<and> \<not> force_switch \<and> remaining_quanta s > 1 then
        Some (keep_running rsp (s\<lparr>remaining_quanta := remaining_quanta s - 1\<rparr>))
      else if mode s = Cfs then Some (switch_to_next_cfs env rsp s)
      else case pick better_wp (wp_key env) (processes s) (current s) of
          None \<Rightarrow> Some (keep_running rsp (s\<lparr>remaining_quanta := 1\<rparr>))
        | Some nxt \<Rightarrow>
            let epri = effective_priority (processes s ! nxt) (env_tick env)
            in Some (dispatch env nxt (s\<lparr>remaining_quanta := max (priority_weight epri) 1\<rparr>)))"

definition account_vruntime :: "sched_env \<Rightarrow> 'o process \<Rightarrow> 'o process" where
  "account_vruntime env p =
     (let elapsed = sat_sub (env_ts_out env) (run_start_ts p);
          w = max (cfs_weight (effective_priority p (env_tick env))) 1;
          delta = sat_mul elapsed NICE0_WEIGHT div w
      in p\<lparr>vruntime := sat_add (vruntime p) delta\<rparr>)"

text \<open>What \<open>do_preempt\<close> does to the outgoing process before it looks for the next one: the
  accounting, then the new state.\<close>

definition charge :: "sched_env \<Rightarrow> bool \<Rightarrow> sched_mode \<Rightarrow> u64 \<Rightarrow> 'o process \<Rightarrow> 'o process option" where
  "charge env is_voluntary m rsp p = do {
     p \<leftarrow> (if is_voluntary
           then map_option (\<lambda>n. p\<lparr>voluntary_yields := n\<rparr>) (add_chk (voluntary_yields p) 1)
           else map_option (\<lambda>n. p\<lparr>forced_preempts := n\<rparr>) (add_chk (forced_preempts p) 1));
     let p = (if boost_ticks p > 0 then p\<lparr>boost_ticks := boost_ticks p - 1\<rparr> else p);
     let p = p\<lparr>preempt_rsp := rsp\<rparr>;
     Some (if m = Cfs then account_vruntime env p else p)
   }"

definition outgoing :: "sched_env \<Rightarrow> bool \<Rightarrow> sched_mode \<Rightarrow> u64 \<Rightarrow> 'o process \<Rightarrow> 'o process option" where
  "outgoing env is_voluntary m rsp p = do {
     p \<leftarrow> charge env is_voluntary m rsp p;
     if pending_sleep_ticks p > 0 then do {
       wake \<leftarrow> add_chk (env_tick env) (pending_sleep_ticks p);
       Some (p\<lparr>pending_sleep_ticks := 0, p_state := Blocked, wake_at_tick := wake\<rparr>)
     } else Some (p\<lparr>p_state := Ready, ready_since_tick := env_tick env\<rparr>)
   }"

definition do_preempt ::
  "sched_env \<Rightarrow> u64 \<Rightarrow> bool \<Rightarrow> 'o scheduler \<Rightarrow> ('o scheduler \<times> u64 \<times> pid \<times> pid \<times> u64) option" where
  "do_preempt env rsp is_voluntary s = do {
     p \<leftarrow> cur_proc s;
     p' \<leftarrow> outgoing env is_voluntary (mode s) rsp p;
     let s = upd_proc (current s) (\<lambda>_. p') (s\<lparr>switch_count := switch_count s + 1\<rparr>);
     (s, new_rsp) \<leftarrow> switch_to_next env rsp is_voluntary s;
     to_pid \<leftarrow> current_pid s;
     Some (s, new_rsp, p_pid p, to_pid, env_tick env)
   }"

definition exit_current :: "sched_env \<Rightarrow> u64 \<Rightarrow> 'o scheduler \<Rightarrow> ('o scheduler \<times> u64) option" where
  "exit_current env rsp s = do {
     p \<leftarrow> cur_proc s;
     let s = upd_proc (current s) (\<lambda>p. p\<lparr>p_state := Dead, preempt_rsp := rsp\<rparr>) s;
     let s = s\<lparr>remaining_quanta := 0, policy_calls := policy_calls s @ [Unregister_pid (p_pid p)]\<rparr>;
     switch_to_next env rsp True s
   }"

definition recv_message :: "'o scheduler \<Rightarrow> ('o scheduler \<times> message option) option" where
  "recv_message s = do {
     p \<leftarrow> cur_proc s;
     Some (case message_queue p of
         [] \<Rightarrow> (s, None)
       | m # ms \<Rightarrow> (upd_proc (current s) (\<lambda>p. p\<lparr>message_queue := ms\<rparr>) s, Some m))
   }"

definition send_message :: "pid \<Rightarrow> message \<Rightarrow> 'o scheduler \<Rightarrow> ('o scheduler \<times> bool) option" where
  "send_message to msg s = do {
     p \<leftarrow> cur_proc s;
     let (p', count) = record_ipc_send p to;
     let s = upd_proc (current s) (\<lambda>_. p') s;
     let s = s\<lparr>policy_calls := policy_calls s @ [Observe_ipc (p_pid p) to count (of_nat (msg_len msg))]\<rparr>;
     Some (upd_pid to (\<lambda>q. q\<lparr>message_queue := message_queue q @ [msg]\<rparr>) s,
           \<exists>q \<in> set (processes s). p_pid q = to)
   }"

text \<open>\<open>sleep_ticks\<close>: plant the request, then yield (\<open>int 0x40\<close> enters \<open>do_preempt\<close>).\<close>

definition sleep_ticks ::
  "sched_env \<Rightarrow> u64 \<Rightarrow> u64 \<Rightarrow> 'o scheduler \<Rightarrow> 'o scheduler option" where
  "sleep_ticks env rsp ticks s =
     (if ticks = 0 then Some s
      else do {
        s \<leftarrow> request_sleep ticks s;
        (s, _) \<leftarrow> do_preempt env rsp True s;
        Some s
      })"

section \<open>Handles of the current process\<close>

definition insert_capability :: "'o capability \<Rightarrow> 'o scheduler \<Rightarrow> ('o scheduler \<times> handle) option" where
  "insert_capability cap s = do {
     p \<leftarrow> cur_proc s;
     (t, h) \<leftarrow> ht_insert cap (handle_table p);
     Some (upd_proc (current s) (\<lambda>p. p\<lparr>handle_table := t\<rparr>) s, h)
   }"

definition get_capability ::
  "('o \<Rightarrow> 't option) \<Rightarrow> u32 \<Rightarrow> rights \<Rightarrow> 'o scheduler \<Rightarrow> 't option option" where
  "get_capability downcast i required s = do {
     p \<leftarrow> cur_proc s;
     Some (ht_get downcast i required (handle_table p))
   }"

definition close_handle :: "u32 \<Rightarrow> 'o scheduler \<Rightarrow> ('o scheduler \<times> bool) option" where
  "close_handle i s = do {
     p \<leftarrow> cur_proc s;
     let (t, b) = ht_close i (handle_table p);
     Some (upd_proc (current s) (\<lambda>p. p\<lparr>handle_table := t\<rparr>) s, b)
   }"

definition handle_count :: "'o scheduler \<Rightarrow> nat option" where
  "handle_count s = map_option (ht_len \<circ> handle_table) (cur_proc s)"

definition list_handles :: "'o scheduler \<Rightarrow> (u32 \<times> rights) list option" where
  "list_handles s = map_option (ht_list \<circ> handle_table) (cur_proc s)"


section \<open>The candidate loop\<close>

text \<open>
  \<open>better a b\<close>: key \<open>a\<close> displaces key \<open>b\<close>. For a strict weak order the loop finds the first
  eligible index that nothing eligible beats.
\<close>

definition first_in :: "'a list \<Rightarrow> 'a \<Rightarrow> ('a \<Rightarrow> bool) \<Rightarrow> bool" where
  "first_in is j P \<longleftrightarrow> (\<exists>us vs. is = us @ j # vs \<and> (\<forall>i \<in> set us. P i))"

lemma first_in_append: "first_in is j P \<Longrightarrow> first_in (is @ [x]) j P"
  unfolding first_in_def by (metis append.assoc append_Cons)

lemma first_in_last: "\<forall>i \<in> set is. P i \<Longrightarrow> first_in (is @ [j]) j P"
  unfolding first_in_def by blast

lemma first_in_set: "first_in is j P \<Longrightarrow> j \<in> set is"
  by (auto simp: first_in_def)

locale first_best =
  fixes better :: "'k \<Rightarrow> 'k \<Rightarrow> bool"
  assumes irrefl: "\<not> better a a"
    and trans: "better a b \<Longrightarrow> better b c \<Longrightarrow> better a c"
    and weak: "better a c \<Longrightarrow> better a b \<or> better b c"
begin

lemma scan_best:
  assumes "foldl (scan_step better key ps) None idxs = r"
  shows "case r of
      None \<Rightarrow> \<forall>i \<in> set idxs. p_state (ps ! i) \<noteq> Ready
    | Some (j, k) \<Rightarrow> k = key (ps ! j) \<and> p_state (ps ! j) = Ready \<and>
        (\<forall>i \<in> set idxs. p_state (ps ! i) = Ready \<longrightarrow> \<not> better (key (ps ! i)) k) \<and>
        first_in idxs j (\<lambda>i. p_state (ps ! i) = Ready \<longrightarrow> better k (key (ps ! i)))"
  using assms
proof (induction idxs arbitrary: r rule: rev_induct)
  case Nil
  then show ?case by auto
next
  case (snoc x xs)
  let ?r = "foldl (scan_step better key ps) None xs"
  have r: "r = scan_step better key ps ?r x" using snoc.prems by simp
  show ?case
  proof (cases "p_state (ps ! x) = Ready")
    case False
    then have "r = ?r" by (simp add: r scan_step_def Let_def)
    with snoc.IH [OF refl] False show ?thesis
      by (auto split: option.splits intro: first_in_append)
  next
    case True
    show ?thesis
    proof (cases ?r)
      case None
      then have "r = Some (x, key (ps ! x))"
        using True by (simp add: r scan_step_def Let_def)
      with None snoc.IH [OF refl] True show ?thesis
        by (auto simp: irrefl intro: first_in_last)
    next
      case (Some jk)
      obtain j k where jk: "jk = (j, k)" by (cases jk)
      note ih = snoc.IH [OF refl, unfolded Some jk option.case prod.case]
      show ?thesis
      proof (cases "better (key (ps ! x)) k")
        case False
        then have "r = Some (j, k)"
          using True Some jk by (simp add: r scan_step_def Let_def)
        with ih False True show ?thesis by (auto intro: first_in_append)
      next
        case bt: True
        have w: "\<not> better (key (ps ! i)) (key (ps ! x))" if "i \<in> set xs" "p_state (ps ! i) = Ready" for i
          using ih that trans [OF _ bt] by blast
        have u: "better (key (ps ! x)) (key (ps ! i))" if "i \<in> set xs" "p_state (ps ! i) = Ready" for i
          using weak [OF bt, of "key (ps ! i)"] ih that by blast
        have "r = Some (x, key (ps ! x))"
          using True Some jk bt by (simp add: r scan_step_def Let_def)
        with w u True show ?thesis by (auto simp: irrefl intro: first_in_last)
      qed
    qed
  qed
qed

lemma pick_None: "pick better key ps start = None \<Longrightarrow>
    \<forall>i \<in> set (scan_order start (length ps)). p_state (ps ! i) \<noteq> Ready"
  using scan_best [OF refl, where key = key and ps = ps and idxs = "scan_order start (length ps)"]
  by (auto simp: pick_def split: option.splits)

lemma pick_Some:
  assumes "pick better key ps start = Some j"
  shows "j \<in> set (scan_order start (length ps))" and "p_state (ps ! j) = Ready"
    and "\<And>i. i \<in> set (scan_order start (length ps)) \<Longrightarrow> p_state (ps ! i) = Ready \<Longrightarrow>
      \<not> better (key (ps ! i)) (key (ps ! j))"
    and "first_in (scan_order start (length ps)) j
      (\<lambda>i. p_state (ps ! i) = Ready \<longrightarrow> better (key (ps ! j)) (key (ps ! i)))"
  using scan_best [OF refl, where key = key and ps = ps and idxs = "scan_order start (length ps)"] assms
  by (auto simp: pick_def dest: first_in_set split: option.splits)

end

interpretation wp: first_best better_wp
  by unfold_locales (auto simp: better_wp_def)

interpretation cfs: first_best better_cfs
  by unfold_locales (auto simp: better_cfs_def)

lemma set_scan_order [simp]: "start < n \<Longrightarrow> set (scan_order start n) = {..<n}"
proof -
  assume s: "start < n"
  have "i \<in> (\<lambda>i. (start + i) mod n) ` {1..<Suc n}" if "i < n" for i
  proof (cases "start < i")
    case True
    with that have "(start + (i - start)) mod n = i" "i - start \<in> {1..<Suc n}" by auto
    then show ?thesis by (metis imageI)
  next
    case False
    with that s have "(start + (n + i - start)) mod n = i" "n + i - start \<in> {1..<Suc n}" by auto
    then show ?thesis by (metis imageI)
  qed
  moreover have "set (scan_order start n) = (\<lambda>i. (start + i) mod n) ` {1..<Suc n}"
    by (simp add: scan_order_def del: upt_Suc)
  ultimately show ?thesis using s by auto
qed

lemma length_scan_order [simp]: "length (scan_order start n) = n"
  by (simp add: scan_order_def)

lemma nth_scan_order: "k < n \<Longrightarrow> scan_order start n ! k = (start + Suc k) mod n"
  by (simp add: scan_order_def del: upt_Suc)

section \<open>Invariant\<close>

text \<open>
  A well-formed process: its identifier was handed out, its handle table is sound, the peer
  arrays have their eight slots, and if it is blocked it has a tick to wake at.
\<close>

definition proc_ok :: "pid \<Rightarrow> 'o process \<Rightarrow> bool" where
  "proc_ok np p \<longleftrightarrow> p_pid p < np \<and> ht_ok (handle_table p) \<and>
     length (ipc_peer_pids p) = 8 \<and> length (ipc_peer_counts p) = 8 \<and>
     (p_state p = Blocked \<longrightarrow> wake_at_tick p \<noteq> 0)"

definition sched_wf :: "'o scheduler \<Rightarrow> bool" where
  "sched_wf s \<longleftrightarrow> current s < length (processes s) \<and> (\<forall>p \<in> set (processes s). proc_ok (next_pid s) p) \<and>
     distinct (map p_pid (processes s))"

text \<open>Only the current process can be in state \<open>Running\<close>.\<close>

definition running_only :: "'o scheduler \<Rightarrow> bool" where
  "running_only s \<longleftrightarrow> (\<forall>i < length (processes s). p_state (processes s ! i) = Running \<longrightarrow> i = current s)"

definition sched_ok :: "'o scheduler \<Rightarrow> bool" where
  "sched_ok s \<longleftrightarrow> sched_wf s \<and> running_only s"

definition none_running :: "'o scheduler \<Rightarrow> bool" where
  "none_running s \<longleftrightarrow> (\<forall>p \<in> set (processes s). p_state p \<noteq> Running)"

lemma upd_proc_simps [simp]:
  "current (upd_proc i f s) = current s" "next_pid (upd_proc i f s) = next_pid s"
  "mode (upd_proc i f s) = mode s" "remaining_quanta (upd_proc i f s) = remaining_quanta s"
  "policy_calls (upd_proc i f s) = policy_calls s"
  "processes (upd_proc i f s) = (processes s)[i := f (processes s ! i)]"
  by (simp_all add: upd_proc_def)

lemma upd_pid_simps [simp]:
  "current (upd_pid q f s) = current s" "next_pid (upd_pid q f s) = next_pid s"
  "mode (upd_pid q f s) = mode s" "remaining_quanta (upd_pid q f s) = remaining_quanta s"
  "policy_calls (upd_pid q f s) = policy_calls s"
  "processes (upd_pid q f s) = upd_first (\<lambda>p. p_pid p = q) f (processes s)"
  by (simp_all add: upd_pid_def)

text \<open>Any pointwise change that keeps the process identifiers and the process invariant.\<close>

lemma sched_wf_pointwise:
  assumes "sched_wf s" and "length (processes s') = length (processes s)"
    and "\<And>i. i < length (processes s) \<Longrightarrow> proc_ok (next_pid s) (processes s ! i) \<Longrightarrow>
      p_pid (processes s' ! i) = p_pid (processes s ! i) \<and> proc_ok (next_pid s) (processes s' ! i)"
    and "current s' < length (processes s)" and "next_pid s' = next_pid s"
  shows "sched_wf s'"
proof -
  have *: "p_pid (processes s' ! i) = p_pid (processes s ! i) \<and> proc_ok (next_pid s) (processes s' ! i)"
    if "i < length (processes s)" for i
    using assms(1,3) that by (auto simp: sched_wf_def)
  then have "map p_pid (processes s') = map p_pid (processes s)"
    using assms(2) by (auto intro: nth_equalityI)
  with * show ?thesis
    using assms by (auto simp: sched_wf_def in_set_conv_nth)
qed

lemma sched_wf_upd_proc:
  assumes "sched_wf s" and "p_pid (f (processes s ! i)) = p_pid (processes s ! i)"
    and "i < length (processes s) \<Longrightarrow> proc_ok (next_pid s) (processes s ! i) \<Longrightarrow>
      proc_ok (next_pid s) (f (processes s ! i))"
  shows "sched_wf (upd_proc i f s)"
  by (rule sched_wf_pointwise [OF assms(1)]) (use assms in \<open>auto simp: sched_wf_def nth_upd_ite\<close>)

lemma sched_ok_upd_proc:
  assumes "sched_ok s" and "p_pid (f (processes s ! i)) = p_pid (processes s ! i)"
    and "i < length (processes s) \<Longrightarrow> proc_ok (next_pid s) (processes s ! i) \<Longrightarrow>
      proc_ok (next_pid s) (f (processes s ! i))"
    and "p_state (f (processes s ! i)) = Running \<Longrightarrow> p_state (processes s ! i) = Running"
  shows "sched_ok (upd_proc i f s)"
  using assms sched_wf_upd_proc [of s f i]
  by (auto simp: sched_ok_def running_only_def nth_upd_ite split: if_splits)

lemma upd_pid_cases:
  "upd_pid q f s = s \<or> (\<exists>i < length (processes s). upd_pid q f s = upd_proc i f s)"
  by (auto simp: upd_pid_def upd_proc_def upd_first_find_idx find_idx_Some_iff split: option.split)

lemma sched_ok_upd_pid:
  assumes "sched_ok s" and "\<And>p. p_pid (f p) = p_pid p"
    and "\<And>p. proc_ok (next_pid s) p \<Longrightarrow> proc_ok (next_pid s) (f p)"
    and "\<And>p. p_state (f p) = Running \<Longrightarrow> p_state p = Running"
  shows "sched_ok (upd_pid q f s)"
  using upd_pid_cases [of q f s] assms sched_ok_upd_proc [of s f] by metis

lemma wake_sleepers_nth:
  "i < length ps \<Longrightarrow> wake_sleepers now ps ! i =
    (if p_state (ps ! i) = Blocked \<and> wake_at_tick (ps ! i) \<noteq> 0 \<and> now \<ge> wake_at_tick (ps ! i)
     then (ps ! i)\<lparr>p_state := Ready, wake_at_tick := 0, ready_since_tick := now\<rparr> else ps ! i)"
  by (simp add: wake_sleepers_def)

lemma length_wake_sleepers [simp]: "length (wake_sleepers now ps) = length ps"
  by (simp add: wake_sleepers_def)

lemma sched_wf_wake:
  "sched_wf s \<Longrightarrow> sched_wf (s\<lparr>processes := wake_sleepers now (processes s)\<rparr>)"
  by (rule sched_wf_pointwise [of s]) (auto simp: wake_sleepers_nth proc_ok_def sched_wf_def)

lemma none_running_wake:
  "none_running s \<Longrightarrow> none_running (s\<lparr>processes := wake_sleepers now (processes s)\<rparr>)"
  by (auto simp: none_running_def wake_sleepers_def)

definition cur_running :: "'o scheduler \<Rightarrow> bool" where
  "cur_running s \<longleftrightarrow> p_state (processes s ! current s) = Running"

lemma dispatch_ok:
  assumes "sched_wf s" and "none_running s" and "i < length (processes s)"
  shows "sched_ok (fst (dispatch env i s)) \<and> cur_running (fst (dispatch env i s))"
proof -
  let ?f = "\<lambda>p. p\<lparr>p_state := Running, run_start_ts := env_ts_in env\<rparr>"
  have "sched_wf (upd_proc i ?f s)"
    using assms(1) by (rule sched_wf_upd_proc) (simp_all add: proc_ok_def)
  then have "sched_wf (fst (dispatch env i s))"
    using assms(3) by (simp add: dispatch_def Let_def sched_wf_def)
  then show ?thesis
    using assms(2,3)
    by (auto simp: sched_ok_def running_only_def cur_running_def none_running_def dispatch_def
        Let_def nth_upd_ite)
qed

lemma keep_running_ok:
  assumes "sched_wf s" and "none_running s"
  shows "sched_ok (fst (keep_running rsp s)) \<and> cur_running (fst (keep_running rsp s))"
proof -
  have "sched_wf (fst (keep_running rsp s))"
    unfolding keep_running_def fst_conv
    using assms(1) by (rule sched_wf_upd_proc) (simp_all add: proc_ok_def)
  moreover have "current s < length (processes s)" using assms(1) by (simp add: sched_wf_def)
  ultimately show ?thesis
    using assms(2)
    by (auto simp: sched_ok_def running_only_def cur_running_def none_running_def keep_running_def
        nth_upd_ite)
qed

lemma sched_wf_quanta [simp]: "sched_wf (s\<lparr>remaining_quanta := q\<rparr>) = sched_wf s"
  "none_running (s\<lparr>remaining_quanta := q\<rparr>) = none_running s"
  by (simp_all add: sched_wf_def none_running_def)

lemma pick_in_range:
  "current s < length (processes s) \<Longrightarrow>
    pick better_wp k (processes s) (current s) = Some j \<Longrightarrow> j < length (processes s)"
  "current s < length (processes s) \<Longrightarrow>
    pick better_cfs k' (processes s) (current s) = Some j \<Longrightarrow> j < length (processes s)"
  using wp.pick_Some(1) cfs.pick_Some(1) by fastforce+

lemma find_SomeD: "find P xs = Some x \<Longrightarrow> x \<in> set xs \<and> P x"
  by (metis find_Some_iff nth_mem)

lemma find_first_in: "find P xs = Some j \<Longrightarrow> first_in xs j (\<lambda>i. \<not> P i)"
proof (induction xs)
  case (Cons x xs)
  show ?case
  proof (cases "P x")
    case True
    with Cons.prems show ?thesis unfolding first_in_def by (auto intro: exI [of _ "[]"])
  next
    case False
    with Cons obtain us vs where "xs = us @ j # vs" "\<forall>i \<in> set us. \<not> P i"
      by (auto simp: first_in_def)
    with False show ?thesis unfolding first_in_def by (rule_tac x = "x # us" in exI) auto
  qed
qed simp

lemma first_boosted_in_range:
  "start < length ps \<Longrightarrow> first_boosted ps start = Some i \<Longrightarrow>
    i < length ps \<and> p_state (ps ! i) = Ready \<and> boost_ticks (ps ! i) > 0"
  by (auto simp: first_boosted_def dest: find_SomeD)

lemma switch_to_next_ok:
  assumes "sched_wf s" and "none_running s"
  shows "\<exists>s' r. switch_to_next env rsp force s = Some (s', r) \<and> sched_ok s' \<and> cur_running s'"
proof -
  let ?s = "s\<lparr>processes := wake_sleepers (env_tick env) (processes s)\<rparr>"
  have wf: "sched_wf ?s" and nr: "none_running ?s"
    using sched_wf_wake [OF assms(1)] none_running_wake [OF assms(2)] by blast+
  have c: "current ?s < length (processes ?s)" using wf by (simp add: sched_wf_def)
  note d = dispatch_ok [of "?s\<lparr>remaining_quanta := q\<rparr>" for q, simplified, simplified, OF wf nr]
  note d' = dispatch_ok [OF wf nr]
  note k = keep_running_ok [of "?s\<lparr>remaining_quanta := q\<rparr>" for q, simplified, simplified, OF wf nr]
  note k' = keep_running_ok [OF wf nr]
  have ex: "\<exists>s' r. Some x = Some (s', r) \<and> sched_ok s' \<and> cur_running s'"
    if "sched_ok (fst x) \<and> cur_running (fst x)" for x :: "'a scheduler \<times> u64"
    using that by (cases x) simp
  have cfs: "sched_ok (fst (switch_to_next_cfs env rsp ?s)) \<and> cur_running (fst (switch_to_next_cfs env rsp ?s))"
    using first_boosted_in_range [OF c] pick_in_range(2) [OF c] d' k'
    unfolding switch_to_next_cfs_def by (auto split: option.split)
  show ?thesis
    unfolding switch_to_next_def Let_def
    using c ex k k' cfs d pick_in_range(1) [OF c, of "wp_key env"]
    by (auto split: option.splits)
qed

lemma account_vruntime_fields [simp]:
  "p_pid (account_vruntime env p) = p_pid p"
  "handle_table (account_vruntime env p) = handle_table p"
  "ipc_peer_pids (account_vruntime env p) = ipc_peer_pids p"
  "ipc_peer_counts (account_vruntime env p) = ipc_peer_counts p"
  "pending_sleep_ticks (account_vruntime env p) = pending_sleep_ticks p"
  "preempt_rsp (account_vruntime env p) = preempt_rsp p"
  "message_queue (account_vruntime env p) = message_queue p"
  "p_priority (account_vruntime env p) = p_priority p"
  "preferred_cpu (account_vruntime env p) = preferred_cpu p"
  by (simp_all add: account_vruntime_def Let_def)

lemma charge_spec:
  assumes "charge env v m rsp p = Some q"
  shows "p_pid q = p_pid p" and "handle_table q = handle_table p"
    and "ipc_peer_pids q = ipc_peer_pids p" and "ipc_peer_counts q = ipc_peer_counts p"
    and "preempt_rsp q = rsp" and "message_queue q = message_queue p"
    and "p_priority q = p_priority p" and "preferred_cpu q = preferred_cpu p"
    and "pending_sleep_ticks q = pending_sleep_ticks p"
  using assms by (auto simp: charge_def Let_def bind_eq_Some_conv split: if_splits)

lemma outgoing_spec:
  assumes "outgoing env v m rsp p = Some p'"
  shows "p_pid p' = p_pid p" and "handle_table p' = handle_table p"
    and "ipc_peer_pids p' = ipc_peer_pids p" and "ipc_peer_counts p' = ipc_peer_counts p"
    and "preempt_rsp p' = rsp" and "message_queue p' = message_queue p"
    and "p_priority p' = p_priority p" and "preferred_cpu p' = preferred_cpu p"
    and "if pending_sleep_ticks p > 0
     then p_state p' = Blocked \<and> unat (wake_at_tick p') = unat (env_tick env) + unat (pending_sleep_ticks p)
     else p_state p' = Ready \<and> ready_since_tick p' = env_tick env"
proof -
  from assms obtain q where q: "charge env v m rsp p = Some q"
    and p': "(if pending_sleep_ticks q > 0
        then \<exists>w. add_chk (env_tick env) (pending_sleep_ticks q) = Some w \<and>
          p' = q\<lparr>pending_sleep_ticks := 0, p_state := Blocked, wake_at_tick := w\<rparr>
        else p' = q\<lparr>p_state := Ready, ready_since_tick := env_tick env\<rparr>)"
    by (auto simp: outgoing_def bind_eq_Some_conv split: if_splits)
  from charge_spec [OF q] p' show "p_pid p' = p_pid p" "handle_table p' = handle_table p"
    "ipc_peer_pids p' = ipc_peer_pids p" "ipc_peer_counts p' = ipc_peer_counts p"
    "preempt_rsp p' = rsp" "message_queue p' = message_queue p"
    "p_priority p' = p_priority p" "preferred_cpu p' = preferred_cpu p"
    by (simp_all split: if_splits) (elim exE conjE, simp)+
  from charge_spec [OF q] p' show "if pending_sleep_ticks p > 0
     then p_state p' = Blocked \<and> unat (wake_at_tick p') = unat (env_tick env) + unat (pending_sleep_ticks p)
     else p_state p' = Ready \<and> ready_since_tick p' = env_tick env"
    by (auto dest: add_chk_SomeD split: if_splits)
qed

lemma outgoing_proc_ok:
  assumes "outgoing env v m rsp p = Some p'" and "proc_ok np p"
  shows "proc_ok np p' \<and> p_state p' \<noteq> Running"
proof -
  have "wake_at_tick p' \<noteq> 0" if "p_state p' = Blocked"
    using outgoing_spec(9) [OF assms(1)] that
    by (metis add_is_0 not_less_iff_gr_or_eq process_state.distinct(3) unat_eq_zero unsigned_0)
  then show ?thesis
    using outgoing_spec [OF assms(1)] assms(2) by (auto simp: proc_ok_def split: if_splits)
qed

lemma cur_proc_Some_iff: "cur_proc s = Some p \<longleftrightarrow> current s < length (processes s) \<and> p = processes s ! current s"
  by (auto simp: cur_proc_def)

text \<open>The state in which \<open>do_preempt\<close> and \<open>exit_current\<close> look for the next process.\<close>

lemma sched_ok_leave:
  assumes "sched_ok s" and "p_pid p' = p_pid (processes s ! current s)"
    and "proc_ok (next_pid s) (processes s ! current s) \<Longrightarrow> proc_ok (next_pid s) p'"
    and "p_state p' \<noteq> Running"
  shows "sched_wf (upd_proc (current s) (\<lambda>_. p') s) \<and> none_running (upd_proc (current s) (\<lambda>_. p') s)"
proof -
  have "sched_wf (upd_proc (current s) (\<lambda>_. p') s)"
    using assms by (intro sched_wf_upd_proc) (auto simp: sched_ok_def)
  moreover have "none_running (upd_proc (current s) (\<lambda>_. p') s)"
    unfolding none_running_def
    using assms(1,4) by (auto simp: sched_ok_def running_only_def in_set_conv_nth nth_upd_ite split: if_splits)
  ultimately show ?thesis ..
qed

lemma wf_switch_count [simp]: "sched_wf (s\<lparr>switch_count := n\<rparr>) = sched_wf s"
  "none_running (s\<lparr>switch_count := n\<rparr>) = none_running s"
  "sched_ok (s\<lparr>switch_count := n\<rparr>) = sched_ok s"
  "sched_wf (s\<lparr>policy_calls := l\<rparr>) = sched_wf s"
  "none_running (s\<lparr>policy_calls := l\<rparr>) = none_running s"
  "sched_ok (s\<lparr>policy_calls := l\<rparr>) = sched_ok s"
  by (simp_all add: sched_wf_def none_running_def sched_ok_def running_only_def)

lemma upd_proc_ext:
  "upd_proc i f (s\<lparr>switch_count := n\<rparr>) = (upd_proc i f s)\<lparr>switch_count := n\<rparr>"
  by (simp add: upd_proc_def)

lemma do_preempt_ok [kernel_inv]:
  assumes "sched_ok s" and "do_preempt env rsp v s = Some (s', r)"
  shows "sched_ok s' \<and> cur_running s'"
proof -
  from assms(2) obtain p p' where p: "cur_proc s = Some p" and o: "outgoing env v (mode s) rsp p = Some p'"
    and sw: "map_option fst (switch_to_next env rsp v
        ((upd_proc (current s) (\<lambda>_. p') s)\<lparr>switch_count := switch_count s + 1\<rparr>)) = Some s'"
    by (auto simp: do_preempt_def Let_def bind_eq_Some_conv upd_proc_ext)
  have "sched_wf (upd_proc (current s) (\<lambda>_. p') s) \<and> none_running (upd_proc (current s) (\<lambda>_. p') s)"
  proof (rule sched_ok_leave [OF assms(1)])
    have q: "p = processes s ! current s" and ok: "proc_ok (next_pid s) p"
      using p assms(1) by (auto simp: cur_proc_Some_iff sched_ok_def sched_wf_def)
    from outgoing_spec [OF o] outgoing_proc_ok [OF o ok] q
    show "p_pid p' = p_pid (processes s ! current s)" and "proc_ok (next_pid s) p'"
      and "p_state p' \<noteq> Running"
      by simp_all
  qed
  from switch_to_next_ok [of "(upd_proc (current s) (\<lambda>_. p') s)\<lparr>switch_count := switch_count s + 1\<rparr>" env rsp v]
    this sw show ?thesis by auto
qed

lemma exit_current_ok [kernel_inv]:
  assumes "sched_ok s" and "exit_current env rsp s = Some (s', r)"
  shows "sched_ok s' \<and> cur_running s'"
proof -
  let ?p = "processes s ! current s"
  let ?l = "upd_proc (current s) (\<lambda>_. ?p\<lparr>p_state := Dead, preempt_rsp := rsp\<rparr>) s"
  have wf: "sched_wf ?l \<and> none_running ?l"
    by (rule sched_ok_leave [OF assms(1)]) (auto simp: proc_ok_def)
  have u: "upd_proc (current s) (\<lambda>p. p\<lparr>p_state := Dead, preempt_rsp := rsp\<rparr>) s = ?l"
    by (simp add: upd_proc_def)
  from assms(2) obtain q l where
    "switch_to_next env rsp True (?l\<lparr>remaining_quanta := q, policy_calls := l\<rparr>) = Some (s', r)"
    by (auto simp: exit_current_def u bind_eq_Some_conv Let_def)
  with switch_to_next_ok [of "?l\<lparr>remaining_quanta := q, policy_calls := l\<rparr>" env rsp True] wf
  show ?thesis by simp
qed

section \<open>The scheduler as a transition system\<close>

text \<open>Every entry point of the module, in any order, with any environment.\<close>

inductive sched_step :: "'o scheduler \<Rightarrow> 'o scheduler \<Rightarrow> bool" where
  step_preempt: "do_preempt env rsp v s = Some (s', r) \<Longrightarrow> sched_step s s'"
| step_exit: "exit_current env rsp s = Some (s', r') \<Longrightarrow> sched_step s s'"
| step_sleep: "request_sleep n s = Some s' \<Longrightarrow> sched_step s s'"
| step_spawn: "alloc_pid s = Some (s1, pid) \<Longrightarrow> process_new ptr start pid name entry = Some p \<Longrightarrow>
    sched_step s (spawn p s1)"
| step_kill: "sched_step s (kill q s)"
| step_reap: "sched_step s (reap_dead s)"
| step_kbd: "keyboard_boost s = Some s' \<Longrightarrow> sched_step s s'"
| step_boost: "sched_step s (boost_pid q n s)"
| step_prio: "sched_step s (set_priority q pri s)"
| step_cpu: "sched_step s (set_preferred_cpu q cpu s)"
| step_mode: "sched_step s (set_mode m s)"
| step_send: "send_message to msg s = Some (s', b) \<Longrightarrow> sched_step s s'"
| step_recv: "recv_message s = Some (s', m') \<Longrightarrow> sched_step s s'"
| step_cap: "insert_capability cap s = Some (s', h) \<Longrightarrow> sched_step s s'"
| step_close: "close_handle i s = Some (s', b) \<Longrightarrow> sched_step s s'"

lemma process_new_fields:
  assumes "process_new ptr start pid name entry = Some p"
  shows "p_pid p = pid" and "p_state p = Ready" and "handle_table p = ht_new"
    and "ipc_peer_pids p = replicate 8 0" and "ipc_peer_counts p = replicate 8 0"
  using assms by (auto simp: process_new_def bind_eq_Some_conv)

lemma proc_ok_mono: "proc_ok np p \<Longrightarrow> np \<le> np' \<Longrightarrow> proc_ok np' p"
  by (auto simp: proc_ok_def)

lemma record_ipc_send_fields [simp]:
  "p_pid (fst (record_ipc_send p to)) = p_pid p"
  "p_state (fst (record_ipc_send p to)) = p_state p"
  "handle_table (fst (record_ipc_send p to)) = handle_table p"
  "wake_at_tick (fst (record_ipc_send p to)) = wake_at_tick p"
  "message_queue (fst (record_ipc_send p to)) = message_queue p"
  "length (ipc_peer_pids (fst (record_ipc_send p to))) = length (ipc_peer_pids p)"
  "length (ipc_peer_counts (fst (record_ipc_send p to))) = length (ipc_peer_counts p)"
  by (simp_all add: record_ipc_send_def Let_def split: option.split)

lemma spawn_ok [kernel_inv]:
  assumes "sched_ok s" and a: "alloc_pid s = Some (s1, pid)"
    and n: "process_new ptr start pid name entry = Some p"
  shows "sched_ok (spawn p s1)"
proof -
  from a obtain m where m: "add_chk (next_pid s) 1 = Some m" and s1: "s1 = s\<lparr>next_pid := m\<rparr>"
    and pid: "pid = next_pid s"
    by (auto simp: alloc_pid_def bind_eq_Some_conv)
  have lt: "next_pid s < m" and le: "next_pid s \<le> m"
    using add_chk_SomeD [OF m] by (auto simp: word_less_nat_alt word_le_nat_alt)
  obtain q where q: "processes (spawn p s1) = processes s @ [q]" "current (spawn p s1) = current s"
      "next_pid (spawn p s1) = m"
    and f: "p_pid q = p_pid p" "p_state q = p_state p" "proc_ok m q = proc_ok m p"
    by (simp add: spawn_def Let_def s1 proc_ok_def)
  have "proc_ok m q" using process_new_fields [OF n] f lt by (simp add: pid proc_ok_def ht_new_ok)
  moreover have "p_pid q \<notin> p_pid ` set (processes s)"
    using assms(1) process_new_fields(1) [OF n] f
    by (auto simp: pid sched_ok_def sched_wf_def proc_ok_def)
  moreover have "p_state q = Ready" using process_new_fields(2) [OF n] f by simp
  ultimately show ?thesis
    using assms(1) q le proc_ok_mono [OF _ le]
    by (auto simp: sched_ok_def sched_wf_def running_only_def nth_append less_Suc_eq)
qed

lemma reap_dead_nth:
  "i < length (processes s) \<Longrightarrow> processes (reap_dead s) ! i =
    (let p = processes s ! i in
     if i \<noteq> current s \<and> p_state p = Dead \<and> \<not> reaped p then reap p else p)"
  by (simp add: reap_dead_def Let_def nth_enumerate_eq)

lemma reap_dead_ok [kernel_inv]: "sched_ok s \<Longrightarrow> sched_ok (reap_dead s)"
proof -
  assume a: "sched_ok s"
  have l: "length (processes (reap_dead s)) = length (processes s)" "current (reap_dead s) = current s"
    "next_pid (reap_dead s) = next_pid s"
    by (simp_all add: reap_dead_def)
  have "sched_wf (reap_dead s)"
    by (rule sched_wf_pointwise [of s])
      (use a l in \<open>auto simp: sched_ok_def sched_wf_def reap_dead_nth Let_def reap_def proc_ok_def ht_new_ok\<close>)
  moreover have "running_only (reap_dead s)"
    using a l by (auto simp: sched_ok_def running_only_def reap_dead_nth Let_def reap_def split: if_splits)
  ultimately show ?thesis by (simp add: sched_ok_def)
qed

lemma set_mode_ok [kernel_inv]: "sched_ok s \<Longrightarrow> sched_ok (set_mode m s)"
  by (auto simp: sched_ok_def sched_wf_def running_only_def set_mode_def rebase_vruntime_def Let_def
      proc_ok_def comp_def)

lemma send_message_ok [kernel_inv]:
  assumes "sched_ok s" and "send_message to msg s = Some (s', b)"
  shows "sched_ok s'"
proof -
  let ?p = "fst (record_ipc_send (processes s ! current s) to)"
  from assms(2) obtain l where
    s': "s' = upd_pid to (\<lambda>q. q\<lparr>message_queue := message_queue q @ [msg]\<rparr>)
      ((upd_proc (current s) (\<lambda>_. ?p) s)\<lparr>policy_calls := l\<rparr>)"
    by (auto simp: send_message_def cur_proc_Some_iff bind_eq_Some_conv split: prod.splits)
  have "sched_ok (upd_proc (current s) (\<lambda>_. ?p) s)"
    using assms(1) by (rule sched_ok_upd_proc) (auto simp: proc_ok_def)
  then show ?thesis
    unfolding s' by (intro sched_ok_upd_pid) (auto simp: proc_ok_def)
qed

lemma sched_step_ok [kernel_inv]: "sched_step s s' \<Longrightarrow> sched_ok s \<Longrightarrow> sched_ok s'"
proof (induction rule: sched_step.induct)
  case (step_preempt env rsp v s s' r)
  then show ?case using do_preempt_ok by blast
next
  case (step_exit env rsp s s' r')
  then show ?case using exit_current_ok by blast
next
  case (step_sleep n s s')
  then show ?case
    by (auto simp: request_sleep_def bind_eq_Some_conv proc_ok_def intro!: sched_ok_upd_proc)
next
  case (step_spawn s s1 pid ptr start name entry p)
  then show ?case by (rule_tac spawn_ok)
next
  case (step_kill s q)
  then show ?case by (auto simp: kill_def Let_def proc_ok_def intro!: sched_ok_upd_pid)
next
  case (step_kbd s s')
  then show ?case
    by (auto simp: keyboard_boost_def bind_eq_Some_conv proc_ok_def intro!: sched_ok_upd_proc)
next
  case (step_send to msg s s' b)
  then show ?case by (rule_tac send_message_ok)
next
  case (step_recv s s' m')
  then have "s' = s \<or> (\<exists>ms. s' = upd_proc (current s) (\<lambda>p. p\<lparr>message_queue := ms\<rparr>) s)"
    by (cases "message_queue (processes s ! current s)")
      (auto simp: recv_message_def cur_proc_def split: if_splits)
  then show ?case
    using step_recv.prems by (auto simp: proc_ok_def intro!: sched_ok_upd_proc)
next
  case (step_cap cap s s' h)
  then obtain t where "ht_insert cap (handle_table (processes s ! current s)) = Some (t, h)"
    and "s' = upd_proc (current s) (\<lambda>p. p\<lparr>handle_table := t\<rparr>) s"
    by (auto simp: insert_capability_def bind_eq_Some_conv cur_proc_Some_iff)
  then show ?case
    using step_cap.prems ht_insert_ok by (auto simp: proc_ok_def intro!: sched_ok_upd_proc)
next
  case (step_close i s s' b)
  then have "s' = upd_proc (current s) (\<lambda>p. p\<lparr>handle_table :=
      fst (ht_close i (handle_table (processes s ! current s)))\<rparr>) s"
    by (auto simp: close_handle_def bind_eq_Some_conv cur_proc_Some_iff split: prod.splits)
  then show ?case
    using step_close.prems by (auto simp: proc_ok_def ht_close_ok intro!: sched_ok_upd_proc)
qed (auto simp: reap_dead_ok set_mode_ok boost_pid_def set_priority_def set_preferred_cpu_def
    proc_ok_def intro!: sched_ok_upd_pid split: if_splits)

lemma scheduler_init_ok [kernel_inv]: "sched_ok scheduler_init"
  by (simp add: sched_ok_def sched_wf_def running_only_def scheduler_init_def scheduler_new_def
      new_kernel_main_def proc_ok_def ht_new_ok)

inductive_cases sched_stepE: "sched_step s s'"

section \<open>Properties\<close>

text \<open>C4: In every state the scheduler can reach from boot, whatever the order of its entry points, the
  current index is in range, at most one process is Running and it is the current one, process
  identifiers are distinct and were handed out, every blocked process has a tick to wake at and
  every handle table is sound.\<close>

theorem scheduler_invariant:
  assumes "sched_step\<^sup>*\<^sup>* scheduler_init s"
  shows "sched_ok s"
  using assms by (induction rule: rtranclp_induct) (auto intro: scheduler_init_ok sched_step_ok)

theorem scheduler_invariant_witness:
  "sched_ok (kill 0 (set_priority 0 High scheduler_init) :: nat scheduler)"
proof (rule scheduler_invariant)
  have "sched_step (scheduler_init :: nat scheduler) (set_priority 0 High scheduler_init)"
    by (rule step_prio)
  moreover have "sched_step (set_priority 0 High scheduler_init)
      (kill 0 (set_priority 0 High scheduler_init) :: nat scheduler)"
    by (rule step_kill)
  ultimately show "sched_step\<^sup>*\<^sup>* scheduler_init
      (kill 0 (set_priority 0 High scheduler_init) :: nat scheduler)"
    by (rule converse_rtranclp_into_rtranclp [OF _ r_into_rtranclp])
qed

lemma switch_weighted_pick:
  assumes ps: "ps = wake_sleepers (env_tick env) (processes s)"
    and "sched_wf s" and "1 < length (processes s)" and "mode s = WeightedPriority"
    and "force \<or> remaining_quanta s \<le> 1"
    and "\<exists>i < length ps. p_state (ps ! i) = Ready"
  shows "\<exists>j s'. pick better_wp (wp_key env) ps (current s) = Some j \<and> j < length ps \<and>
    switch_to_next env rsp force s = Some (s', preempt_rsp (ps ! j)) \<and> current s' = j \<and>
    processes s' = ps[j := (ps ! j)\<lparr>p_state := Running, run_start_ts := env_ts_in env\<rparr>] \<and>
    remaining_quanta s' = max (priority_weight (effective_priority (ps ! j) (env_tick env))) 1"
proof -
  have l: "length ps = length (processes s)" by (simp add: ps)
  have c: "current s < length ps" using assms(2) l by (simp add: sched_wf_def)
  obtain j where j: "pick better_wp (wp_key env) ps (current s) = Some j"
    using wp.pick_None [of "wp_key env" ps "current s"] assms(6) c by fastforce
  have jl: "j < length ps" using wp.pick_Some(1) [OF j] c by simp
  have "\<not> (\<not> force \<and> remaining_quanta s > 1)" using assms(5) by (auto simp: not_less)
  with assms(3,4) c j jl l show ?thesis
    by (auto simp: switch_to_next_def Let_def dispatch_def ps [symmetric])
qed

lemma pick_best_priority:
  assumes j: "pick better_wp (wp_key env) ps c = Some j" and "c < length ps"
    and "i < length ps" and "p_state (ps ! i) = Ready"
  shows "effective_priority (ps ! i) (env_tick env) \<le> effective_priority (ps ! j) (env_tick env) \<and>
    (effective_priority (ps ! i) (env_tick env) = effective_priority (ps ! j) (env_tick env) \<and>
     same_cpu env (ps ! i) \<longrightarrow> same_cpu env (ps ! j))"
  using wp.pick_Some(3) [OF j, of i] assms(2-) unfolding better_wp_def wp_key_def
  by (auto simp: not_less)

text \<open>C24: The weighted mode switches to the best candidate: when a switch is due and some process is
  Ready after the sleepers were woken, the chosen process is Ready, no Ready process has a
  higher effective priority, among equals one that may run on this core is preferred, and among
  those the first in round robin order after the current one wins. It becomes Running, its saved
  stack pointer is returned, its quantum is the weight of its effective priority (at least 1)
  and no other process changes.\<close>

theorem switch_weighted_best:
  assumes ps: "ps = wake_sleepers (env_tick env) (processes s)"
    and "sched_wf s" and "1 < length (processes s)" and "mode s = WeightedPriority"
    and "force \<or> remaining_quanta s \<le> 1"
    and "\<exists>i < length ps. p_state (ps ! i) = Ready"
  shows "\<exists>j s'. switch_to_next env rsp force s = Some (s', preempt_rsp (ps ! j)) \<and>
    j < length ps \<and> p_state (ps ! j) = Ready \<and>
    (\<forall>i < length ps. p_state (ps ! i) = Ready \<longrightarrow>
       effective_priority (ps ! i) (env_tick env) \<le> effective_priority (ps ! j) (env_tick env) \<and>
       (effective_priority (ps ! i) (env_tick env) = effective_priority (ps ! j) (env_tick env) \<and>
        same_cpu env (ps ! i) \<longrightarrow> same_cpu env (ps ! j))) \<and>
    first_in (scan_order (current s) (length ps)) j
      (\<lambda>i. p_state (ps ! i) = Ready \<longrightarrow> better_wp (wp_key env (ps ! j)) (wp_key env (ps ! i))) \<and>
    current s' = j \<and>
    processes s' = ps[j := (ps ! j)\<lparr>p_state := Running, run_start_ts := env_ts_in env\<rparr>] \<and>
    remaining_quanta s' = max (priority_weight (effective_priority (ps ! j) (env_tick env))) 1"
proof -
  have c: "current s < length ps" using assms(2) by (simp add: ps sched_wf_def)
  obtain j s' where j: "pick better_wp (wp_key env) ps (current s) = Some j" and jl: "j < length ps"
    and r: "switch_to_next env rsp force s = Some (s', preempt_rsp (ps ! j)) \<and> current s' = j \<and>
      processes s' = ps[j := (ps ! j)\<lparr>p_state := Running, run_start_ts := env_ts_in env\<rparr>] \<and>
      remaining_quanta s' = max (priority_weight (effective_priority (ps ! j) (env_tick env))) 1"
    using switch_weighted_pick [OF assms] by blast
  with wp.pick_Some(2,4) [OF j] pick_best_priority [OF j c] show ?thesis by blast
qed

text \<open>Two processes, the second ready: the concrete state of the witnesses below.\<close>

definition demo_env :: sched_env where
  "demo_env = \<lparr>env_tick = 10, env_ts_out = 5, env_ts_in = 6, env_cpu = 0\<rparr>"

definition demo_a :: "nat process" where
  "demo_a = new_kernel_main"

definition demo_b :: "nat process" where
  "demo_b = new_kernel_main\<lparr>p_pid := 1, p_state := Ready, preempt_rsp := 77\<rparr>"

definition demo_sched :: "sched_mode \<Rightarrow> nat scheduler" where
  "demo_sched m = scheduler_init\<lparr>processes := [demo_a, demo_b], next_pid := 2, mode := m\<rparr>"

lemma demo_ab:
  "p_state demo_a = Running" "p_state demo_b = Ready" "preempt_rsp demo_b = 77"
  "p_pid demo_a = 0" "p_pid demo_b = 1" "proc_ok 2 demo_a" "proc_ok 2 demo_b"
  "effective_priority demo_b 10 = Normal"
  by (simp_all add: demo_a_def demo_b_def new_kernel_main_def proc_ok_def ht_new_ok
      effective_priority_def sat_sub_def FAIRNESS_FLOOR_TICKS_def)

lemma demo_sched_simps:
  "processes (demo_sched m) = [demo_a, demo_b]" "mode (demo_sched m) = m" "current (demo_sched m) = 0"
  "next_pid (demo_sched m) = 2" "wake_sleepers t [demo_a, demo_b] = [demo_a, demo_b]"
  by (simp_all add: demo_sched_def scheduler_init_def scheduler_new_def wake_sleepers_def demo_ab)

lemma demo_sched_ok: "sched_ok (demo_sched m)"
  by (simp add: demo_sched_simps demo_ab sched_ok_def sched_wf_def running_only_def less_Suc_eq)

lemma demo_wf: "sched_wf (demo_sched m)" "1 < length (processes (demo_sched m))"
  "\<exists>i < length [demo_a, demo_b]. p_state ([demo_a, demo_b] ! i) = Ready"
  using demo_sched_ok by (auto simp: sched_ok_def demo_sched_simps demo_ab intro: exI [of _ 1])

theorem switch_weighted_best_witness:
  "\<exists>s'. switch_to_next demo_env 5 True (demo_sched WeightedPriority) = Some (s', 77) \<and>
    current s' = 1 \<and> remaining_quanta s' = 2"
proof -
  obtain j s' where j: "j < 2" "p_state ([demo_a, demo_b] ! j) = Ready" "current s' = j"
    and sw: "switch_to_next demo_env 5 True (demo_sched WeightedPriority) =
      Some (s', preempt_rsp ([demo_a, demo_b] ! j))"
    and q: "remaining_quanta s' =
      max (priority_weight (effective_priority ([demo_a, demo_b] ! j) (env_tick demo_env))) 1"
    using switch_weighted_best [of "[demo_a, demo_b]" demo_env "demo_sched WeightedPriority" True 5]
      demo_wf by (auto simp: demo_sched_simps)
  from j have "j = 1" by (auto simp: less_2_cases_iff demo_ab)
  with j sw q show ?thesis by (simp add: demo_ab demo_env_def max_def word_le_nat_alt)
qed

text \<open>The CFS mode switches to the first Ready process with a keyboard boost in round robin order if
  there is one, and otherwise to the Ready process with the smallest virtual runtime, preferring
  this core and then round robin order among equals.\<close>

theorem switch_cfs_fairest:
  assumes ps: "ps = wake_sleepers (env_tick env) (processes s)"
    and "sched_wf s" and "1 < length (processes s)" and "mode s = Cfs"
    and "\<exists>i < length ps. p_state (ps ! i) = Ready"
  shows "\<exists>j s'. switch_to_next env rsp force s = Some (s', preempt_rsp (ps ! j)) \<and>
    j < length ps \<and> p_state (ps ! j) = Ready \<and>
    (if \<exists>i < length ps. p_state (ps ! i) = Ready \<and> boost_ticks (ps ! i) > 0
     then boost_ticks (ps ! j) > 0 \<and>
       first_in (scan_order (current s) (length ps)) j
         (\<lambda>i. \<not> (p_state (ps ! i) = Ready \<and> boost_ticks (ps ! i) > 0))
     else (\<forall>i < length ps. p_state (ps ! i) = Ready \<longrightarrow> vruntime (ps ! j) \<le> vruntime (ps ! i)) \<and>
       first_in (scan_order (current s) (length ps)) j
         (\<lambda>i. p_state (ps ! i) = Ready \<longrightarrow> better_cfs (cfs_key env (ps ! j)) (cfs_key env (ps ! i)))) \<and>
    current s' = j \<and>
    processes s' = ps[j := (ps ! j)\<lparr>p_state := Running, run_start_ts := env_ts_in env\<rparr>]"
proof -
  let ?B = "\<lambda>i. p_state (ps ! i) = Ready \<and> boost_ticks (ps ! i) > 0"
  have l: "length ps = length (processes s)" by (simp add: ps)
  have c: "current s < length ps" using assms(2) l by (simp add: sched_wf_def)
  have sw: "\<exists>s'. switch_to_next env rsp force s = Some (s', preempt_rsp (ps ! j)) \<and> current s' = j \<and>
      processes s' = ps[j := (ps ! j)\<lparr>p_state := Running, run_start_ts := env_ts_in env\<rparr>]"
    if "j < length ps" "first_boosted ps (current s) = Some j \<or>
      first_boosted ps (current s) = None \<and> pick better_cfs (cfs_key env) ps (current s) = Some j" for j
    using assms(3,4) c l that
    by (auto simp: switch_to_next_def switch_to_next_cfs_def Let_def dispatch_def ps [symmetric])
  show ?thesis
  proof (cases "first_boosted ps (current s)")
    case (Some j)
    have b: "j < length ps" "?B j" using first_boosted_in_range [OF c Some] by auto
    have "first_in (scan_order (current s) (length ps)) j (\<lambda>i. \<not> ?B i)"
      using Some unfolding first_boosted_def by (rule find_first_in)
    moreover obtain s' where "switch_to_next env rsp force s = Some (s', preempt_rsp (ps ! j)) \<and>
        current s' = j \<and>
        processes s' = ps[j := (ps ! j)\<lparr>p_state := Running, run_start_ts := env_ts_in env\<rparr>]"
      using sw [of j] b Some by blast
    moreover have "\<exists>i < length ps. ?B i" using b by blast
    ultimately show ?thesis using b by (intro exI [of _ j] exI [of _ s']) simp
  next
    case None
    then have nb: "\<not> (\<exists>i < length ps. ?B i)"
      using c by (auto simp: first_boosted_def find_None_iff)
    obtain j where j: "pick better_cfs (cfs_key env) ps (current s) = Some j"
      using cfs.pick_None [of "cfs_key env" ps "current s"] assms(5) c by fastforce
    note best = cfs.pick_Some [OF j]
    have jl: "j < length ps" using best(1) c by simp
    have "vruntime (ps ! j) \<le> vruntime (ps ! i)" if "i < length ps" "p_state (ps ! i) = Ready" for i
      using best(3) [of i] c that unfolding better_cfs_def cfs_key_def by (auto simp: not_less)
    moreover obtain s' where "switch_to_next env rsp force s = Some (s', preempt_rsp (ps ! j)) \<and>
        current s' = j \<and>
        processes s' = ps[j := (ps ! j)\<lparr>p_state := Running, run_start_ts := env_ts_in env\<rparr>]"
      using sw [of j] jl None j by blast
    ultimately show ?thesis using nb best(2,4) jl
      by (intro exI [of _ j] exI [of _ s']) (simp only: if_False simp_thms, blast)
  qed
qed

theorem switch_cfs_fairest_witness:
  "\<exists>s'. switch_to_next demo_env 5 False (demo_sched Cfs) = Some (s', 77) \<and> current s' = 1"
proof -
  obtain j s' where j: "j < 2" "p_state ([demo_a, demo_b] ! j) = Ready" "current s' = j"
    and sw: "switch_to_next demo_env 5 False (demo_sched Cfs) =
      Some (s', preempt_rsp ([demo_a, demo_b] ! j))"
    using switch_cfs_fairest [of "[demo_a, demo_b]" demo_env "demo_sched Cfs" 5 False]
      demo_wf by (fastforce simp: demo_sched_simps)
  from j have "j = 1" by (auto simp: less_2_cases_iff demo_ab)
  with j sw show ?thesis by (simp add: demo_ab)
qed

definition rr_distance :: "nat \<Rightarrow> nat \<Rightarrow> nat \<Rightarrow> nat" where
  "rr_distance n start i = (if start < i then i - start else n + i - start)"

lemma rr_distance_scan:
  "start < n \<Longrightarrow> i < n \<Longrightarrow> scan_order start n ! (rr_distance n start i - 1) = i \<and>
    0 < rr_distance n start i \<and> rr_distance n start i \<le> n"
  by (auto simp: rr_distance_def nth_scan_order)

lemma rr_distance_nth:
  "start < n \<Longrightarrow> k < n \<Longrightarrow> rr_distance n start (scan_order start n ! k) = Suc k"
proof -
  assume a: "start < n" "k < n"
  show ?thesis
  proof (cases "start + Suc k < n")
    case True
    then show ?thesis by (simp add: nth_scan_order a rr_distance_def)
  next
    case False
    then have "(start + Suc k) mod n = start + Suc k - n"
      using a by (simp add: le_mod_geq)
    then show ?thesis using a False by (simp add: nth_scan_order rr_distance_def)
  qed
qed

lemma rr_distance_closer:
  assumes "c < n" "j < n" "t < n" "j \<noteq> t" "rr_distance n c j < rr_distance n c t"
  shows "rr_distance n j t < rr_distance n c t"
  using assms by (auto simp: rr_distance_def split: if_splits)

lemma first_in_not_after:
  assumes "first_in (scan_order c n) j P" and "c < n" and "t < n" and "\<not> P t"
  shows "rr_distance n c j \<le> rr_distance n c t"
proof -
  from assms(1) obtain us vs where uv: "scan_order c n = us @ j # vs" "\<forall>i \<in> set us. P i"
    by (auto simp: first_in_def)
  then have lu: "length us < n" by (metis length_append length_scan_order length_Cons add_Suc_right
        le_add1 le_imp_less_Suc)
  have dj: "rr_distance n c j = Suc (length us)"
    using rr_distance_nth [OF assms(2) lu] uv(1) by simp
  let ?k = "rr_distance n c t - 1"
  have k: "scan_order c n ! ?k = t" "0 < rr_distance n c t"
    using rr_distance_scan [OF assms(2,3)] by auto
  have "\<not> ?k < length us"
    using k(1) uv assms(4) by (metis nth_append nth_mem)
  with dj k(2) show ?thesis by simp
qed



text \<open>The effective priority never falls below the configured one, only grows while the process
  waits, reaches High after \<open>FAIRNESS_FLOOR_TICKS\<close> unless the process is Idle, and an Idle
  process without a boost stays Idle however long it waits.\<close>

theorem effective_priority_aging:
  "p_priority p \<le> effective_priority p now \<and>
   (now \<le> now' \<longrightarrow> effective_priority p now \<le> effective_priority p now') \<and>
   (p_priority p \<noteq> Idle \<and> FAIRNESS_FLOOR_TICKS \<le> sat_sub now (ready_since_tick p) \<longrightarrow>
     effective_priority p now = High) \<and>
   (p_priority p = Idle \<and> boost_ticks p = 0 \<longrightarrow> effective_priority p now = Idle)"
proof -
  have mono: "sat_sub now (ready_since_tick p) \<le> sat_sub now' (ready_since_tick p)" if "now \<le> now'"
    using that by (simp add: word_le_nat_alt unat_sat_sub)
  show ?thesis
  proof (cases "boost_ticks p > 0")
    case True
    then show ?thesis by (auto simp: effective_priority_def)
  next
    case False
    let ?w = "sat_sub now (ready_since_tick p)" and ?w' = "sat_sub now' (ready_since_tick p)"
    show ?thesis
      by (cases "p_priority p"; cases "?w \<ge> 36"; cases "?w \<ge> 72"; cases "?w \<ge> 200")
        (use False mono in \<open>auto simp: effective_priority_def Let_def FAIRNESS_FLOOR_TICKS_def
          priority_from_u8_def less_eq_priority_def word_le_nat_alt\<close>)
  qed
qed

theorem effective_priority_aging_witness:
  "effective_priority (new_kernel_main :: nat process) 10 \<le>
     effective_priority (new_kernel_main :: nat process) 40 \<and>
   effective_priority (new_kernel_main :: nat process) 300 = High"
proof -
  have "(10 :: u64) \<le> 40" by simp
  moreover have "p_priority (new_kernel_main :: nat process) \<noteq> Idle \<and>
      FAIRNESS_FLOOR_TICKS \<le> sat_sub 300 (ready_since_tick (new_kernel_main :: nat process))"
    by (simp add: new_kernel_main_def FAIRNESS_FLOOR_TICKS_def sat_sub_def)
  ultimately show ?thesis
    using effective_priority_aging [of "new_kernel_main :: nat process" 10 40]
      effective_priority_aging [of "new_kernel_main :: nat process" 300 300] by simp
qed

lemma unat_numeral_65536: "unat (65536 :: u64) = 65536"
  by simp

lemma initial_frame_concat_nth:
  assumes "k < length ws"
  shows "take 8 (drop (8 * k) (concat (map to_le_bytes ws))) = to_le_bytes (ws ! k)"
  using assms
proof (induction ws arbitrary: k)
  case (Cons w ws)
  show ?case
  proof (cases k)
    case (Suc k')
    have "drop (8 * k) (to_le_bytes w @ concat (map to_le_bytes ws)) =
        drop (8 * k') (concat (map to_le_bytes ws))"
      by (simp add: Suc)
    with Cons Suc show ?thesis by simp
  qed simp
qed simp

text \<open>A new process is dispatched into its entry function: the 18 words from its saved stack pointer
  up to the top of its 64 KB stack are the frame the interrupt stub pops, with the entry
  function in rax, the stack top in rbx, the trampoline as return address, the kernel code
  selector, interrupts enabled, and zero in every other register.\<close>

theorem process_new_frame:
  assumes "process_new ptr start pid name entry = Some p"
  shows "length (kernel_stack p) = KERNEL_STACK_SIZE \<and>
    unat (preempt_rsp p) + PREEMPT_FRAME_BYTES = unat ptr + KERNEL_STACK_SIZE \<and>
    (\<forall>k < 18. (from_le_bytes (take 8 (drop (unat (preempt_rsp p) - unat ptr + 8 * k) (kernel_stack p))) :: u64) =
      (if k = 5 then ptr + of_nat KERNEL_STACK_SIZE else if k = 14 then entry else if k = 15 then start
       else if k = 16 then KERNEL_CODE_SEL else if k = 17 then 0x202 else 0))"
proof -
  from assms obtain top fs where top: "add_chk ptr (of_nat KERNEL_STACK_SIZE) = Some top"
    and fs: "sub_chk top (of_nat PREEMPT_FRAME_BYTES) = Some fs" and p: "preempt_rsp p = fs"
    "kernel_stack p = replicate (KERNEL_STACK_SIZE - PREEMPT_FRAME_BYTES) 0 @
       concat (map to_le_bytes (initial_frame top entry start))"
    by (auto simp: process_new_def bind_eq_Some_conv)
  have sizes: "KERNEL_STACK_SIZE = 65536" "PREEMPT_FRAME_BYTES = 144"
    by (simp_all add: KERNEL_STACK_SIZE_def PREEMPT_FRAME_BYTES_def ISR_REG_COUNT_def IRETQ_FRAME_SIZE_def)
  have t: "top = ptr + 65536" and "unat top = unat ptr + unat (65536 :: u64)"
    using add_chk_SomeD [OF top] by (auto simp only: sizes of_nat_numeral)
  then have t2: "unat top = unat ptr + 65536" by (metis unat_numeral_65536)
  have f: "unat fs = unat ptr + 65392"
    using sub_chk_SomeD [OF fs, THEN conjunct2] t2 by (simp add: sizes)
  have len: "length (initial_frame top entry start) = 18"
    by (simp add: initial_frame_def ISR_REG_COUNT_def IRETQ_FRAME_SIZE_def)
  have "length (kernel_stack p) = 65536"
    by (simp add: p sizes length_concat comp_def sum_list_triv len)
  moreover have "take 8 (drop (65392 + 8 * k) (kernel_stack p)) =
      to_le_bytes (initial_frame top entry start ! k)" if "k < 18" for k
    using initial_frame_concat_nth [of k "initial_frame top entry start"] that by (simp add: p sizes len)
  moreover have "initial_frame top entry start ! k =
      (if k = 5 then top else if k = 14 then entry else if k = 15 then start
       else if k = 16 then KERNEL_CODE_SEL else if k = 17 then 0x202 else 0)" if "k < 18" for k
    using that by (simp add: initial_frame_def ISR_REG_COUNT_def IRETQ_FRAME_SIZE_def nth_list_update)
  ultimately show ?thesis using p(1) f t by (simp add: sizes)
qed

theorem process_new_frame_witness:
  "\<exists>p :: nat process. process_new 0x100000 0x2000 1 ''task'' 0x3000 = Some p \<and>
    (from_le_bytes (take 8 (drop (unat (preempt_rsp p) - 0x100000 + 120) (kernel_stack p))) :: u64) = 0x2000"
proof -
  obtain p :: "nat process" where p: "process_new 0x100000 0x2000 1 ''task'' 0x3000 = Some p"
    by (auto simp: process_new_def add_chk_def sub_chk_def KERNEL_STACK_SIZE_def PREEMPT_FRAME_BYTES_def
        ISR_REG_COUNT_def IRETQ_FRAME_SIZE_def)
  from process_new_frame [OF p] have "(from_le_bytes (take 8 (drop (unat (preempt_rsp p) -
      unat (0x100000 :: u64) + 8 * 15) (kernel_stack p))) :: u64) = 0x2000"
    by (elim conjE, drule_tac x = 15 in spec) simp
  with p show ?thesis by auto
qed

section \<open>Sleeping and messages\<close>

lemma switch_blocked_untouched:
  assumes "sched_wf s" and "switch_to_next env rsp force s = Some (s', r)"
    and "i < length (processes s)" and "p_state (processes s ! i) = Blocked"
    and "env_tick env < wake_at_tick (processes s ! i)"
  shows "if i \<noteq> current s' then processes s' ! i = processes s ! i
    else current s' = current s"
proof -
  let ?s = "s\<lparr>processes := wake_sleepers (env_tick env) (processes s)\<rparr>"
  have c: "current ?s < length (processes ?s)" using assms(1) by (simp add: sched_wf_def)
  have w: "processes ?s ! i = processes s ! i"
    using assms(3-5) by (auto simp: wake_sleepers_nth)
  have d: ?thesis if "s' = fst (dispatch env j (?s\<lparr>remaining_quanta := q\<rparr>)) \<or> s' = fst (dispatch env j ?s)"
      "j < length (processes ?s)" "p_state (processes ?s ! j) = Ready" for j q
    using that w assms(3,4) by (cases "i = j") (auto simp: dispatch_def Let_def nth_upd_ite)
  have k: ?thesis if "s' = fst (keep_running rsp (?s\<lparr>remaining_quanta := q\<rparr>)) \<or> s' = fst (keep_running rsp ?s)" for q
    using that w assms(3) by (auto simp: keep_running_def nth_upd_ite)
  have p: "j < length (processes ?s) \<and> p_state (processes ?s ! j) = Ready"
    if "pick better_wp (wp_key env) (processes ?s) (current ?s) = Some j \<or>
      pick better_cfs (cfs_key env) (processes ?s) (current ?s) = Some j \<or>
      first_boosted (processes ?s) (current ?s) = Some j" for j
    using that pick_in_range [OF c] wp.pick_Some(2) cfs.pick_Some(2) first_boosted_in_range [OF c] by blast
  consider j q where "s' = fst (dispatch env j (?s\<lparr>remaining_quanta := q\<rparr>)) \<or> s' = fst (dispatch env j ?s)"
      "j < length (processes ?s) \<and> p_state (processes ?s ! j) = Ready"
    | q where "s' = fst (keep_running rsp (?s\<lparr>remaining_quanta := q\<rparr>)) \<or> s' = fst (keep_running rsp ?s)"
    using assms(2) p unfolding switch_to_next_def switch_to_next_cfs_def Let_def
    by (auto split: if_splits option.splits) (metis fst_conv)+
  then show ?thesis using d k by cases blast+
qed

lemma outgoing_total:
  assumes "unat (voluntary_yields p) + 1 < 2 ^ 64" and "unat (forced_preempts p) + 1 < 2 ^ 64"
    and "unat (env_tick env) + unat (pending_sleep_ticks p) < 2 ^ 64"
  shows "\<exists>p'. outgoing env v m rsp p = Some p'"
proof -
  have "\<exists>q. charge env v m rsp p = Some q"
    using assms(1,2) by (simp add: charge_def add_chk_def Let_def)
  then obtain q where q: "charge env v m rsp p = Some q" ..
  with charge_spec(9) [OF q] assms(3) show ?thesis
    by (simp add: outgoing_def add_chk_def)
qed

lemma do_preempt_total:
  assumes "sched_ok s" and "p = processes s ! current s"
    and "unat (voluntary_yields p) + 1 < 2 ^ 64" and "unat (forced_preempts p) + 1 < 2 ^ 64"
    and "unat (env_tick env) + unat (pending_sleep_ticks p) < 2 ^ 64"
  shows "\<exists>x. do_preempt env rsp v s = Some x"
proof -
  have c: "cur_proc s = Some p" using assms(1,2) by (simp add: cur_proc_def sched_ok_def sched_wf_def)
  then have ok: "proc_ok (next_pid s) p" and pc: "p = processes s ! current s"
    using assms(1) by (auto simp: cur_proc_Some_iff sched_ok_def sched_wf_def)
  obtain p' where o: "outgoing env v (mode s) rsp p = Some p'"
    using outgoing_total [OF assms(3-5)] by blast
  let ?l = "(upd_proc (current s) (\<lambda>_. p') s)\<lparr>switch_count := switch_count s + 1\<rparr>"
  have "sched_wf ?l \<and> none_running ?l"
    using sched_ok_leave [OF assms(1), of p'] outgoing_spec(1) [OF o] outgoing_proc_ok [OF o ok] pc by simp
  then obtain s' r where sw: "switch_to_next env rsp v ?l = Some (s', r)" and "sched_ok s'"
    using switch_to_next_ok [of ?l env rsp v] by blast
  then have "\<exists>q. current_pid s' = Some q"
    by (simp add: current_pid_def cur_proc_def sched_ok_def sched_wf_def)
  with c o sw show ?thesis by (auto simp: do_preempt_def upd_proc_ext Let_def)
qed

text \<open>\<open>sleep_ticks\<close> really sleeps: when another process is Ready, the caller loses the CPU and is
  Blocked with the wake tick exactly \<open>n\<close> ticks ahead.\<close>

theorem sleep_ticks_blocks:
  assumes "sched_ok s" and "mode s = WeightedPriority" and "0 < n"
    and "k < length (processes s)" and "k \<noteq> current s" and "p_state (processes s ! k) = Ready"
    and "sleep_ticks env rsp n s = Some s'"
  shows "current s' \<noteq> current s \<and> p_state (processes s' ! current s) = Blocked \<and>
    unat (wake_at_tick (processes s' ! current s)) = unat (env_tick env) + unat n"
proof -
  let ?c = "current s"
  define q where "q = (processes s ! ?c)\<lparr>pending_sleep_ticks := max n 1\<rparr>"
  have "1 \<le> n" using assms(3) by (simp add: word_le_nat_alt word_less_nat_alt)
  then have n: "max n 1 = n" by (simp add: max_absorb1)
  have c: "?c < length (processes s)" using assms(1) by (simp add: sched_ok_def sched_wf_def)
  have rs: "request_sleep n s = Some (upd_proc ?c (\<lambda>_. q) s)"
    using c by (simp add: request_sleep_def cur_proc_def upd_proc_def q_def)
  have nz: "n \<noteq> 0" using assms(3) by simp
  obtain p' r where o: "outgoing env True WeightedPriority rsp q = Some p'"
    and sw: "switch_to_next env rsp True
      (upd_proc ?c (\<lambda>_. p') (s\<lparr>switch_count := switch_count s + 1\<rparr>)) = Some (s', r)"
    using assms(2,7) nz c
    by (auto simp: sleep_ticks_def rs do_preempt_def cur_proc_Some_iff Let_def bind_eq_Some_conv
        upd_proc_def)
  let ?l = "(upd_proc ?c (\<lambda>_. p') s)\<lparr>switch_count := switch_count s + 1\<rparr>"
  have sw': "switch_to_next env rsp True ?l = Some (s', r)"
    using sw by (simp add: upd_proc_ext)
  have b: "p_state p' = Blocked" "unat (wake_at_tick p') = unat (env_tick env) + unat n"
    using outgoing_spec(9) [OF o] assms(3) n by (simp_all add: q_def)
  have "proc_ok (next_pid s) q" using assms(1) c by (simp add: sched_ok_def sched_wf_def proc_ok_def q_def)
  then have "proc_ok (next_pid s) p'" using outgoing_proc_ok [OF o] by simp
  then have wf: "sched_wf ?l"
    using sched_ok_leave [OF assms(1), of p'] outgoing_spec(1) [OF o] b by (simp add: q_def)
  have pc: "processes ?l ! ?c = p'" using c by simp
  have lt: "env_tick env < wake_at_tick p'"
    using b(2) assms(3) by (simp add: word_less_nat_alt)
  have "\<exists>j s1. switch_to_next env rsp True ?l = Some (s1, preempt_rsp (wake_sleepers (env_tick env) (processes ?l) ! j)) \<and>
      current s1 = j \<and> p_state (wake_sleepers (env_tick env) (processes ?l) ! j) = Ready"
  proof -
    have "\<exists>i < length (wake_sleepers (env_tick env) (processes ?l)).
        p_state (wake_sleepers (env_tick env) (processes ?l) ! i) = Ready"
      using assms(4-6) by (intro exI [of _ k]) (simp add: wake_sleepers_nth nth_upd_ite)
    moreover have "1 < length (processes ?l)" using assms(4,5) c by simp
    ultimately show ?thesis
      using switch_weighted_pick [OF refl wf, of True] assms(2) wp.pick_Some(2) by fastforce
  qed
  moreover have "p_state (wake_sleepers (env_tick env) (processes ?l) ! ?c) = Blocked"
    using c b lt by (auto simp: wake_sleepers_nth)
  ultimately have ne: "current s' \<noteq> ?c" using sw' by auto
  moreover have "processes s' ! ?c = p'"
    using switch_blocked_untouched [OF wf sw', of ?c] c b lt ne pc by simp
  ultimately show ?thesis using b by simp
qed

theorem sleep_ticks_blocks_witness:
  "\<exists>s'. sleep_ticks demo_env 5 3 (demo_sched WeightedPriority) = Some s' \<and> current s' \<noteq> 0 \<and>
    p_state (processes s' ! 0) = Blocked \<and> unat (wake_at_tick (processes s' ! 0)) = 13"
proof -
  let ?s = "upd_proc 0 (\<lambda>p. p\<lparr>pending_sleep_ticks := 3\<rparr>) (demo_sched WeightedPriority)"
  have r: "request_sleep 3 (demo_sched WeightedPriority) = Some ?s"
    by (simp add: request_sleep_def cur_proc_def demo_sched_simps max_absorb1)
  have "sched_step (demo_sched WeightedPriority) ?s" using r by (rule step_sleep)
  then have "sched_ok ?s" using sched_step_ok demo_sched_ok by blast
  then obtain x s' where "do_preempt demo_env 5 True ?s = Some (s', x)"
    using do_preempt_total [of ?s _ demo_env 5 True]
    by (auto simp: demo_sched_simps demo_a_def new_kernel_main_def demo_env_def)
  then have s': "sleep_ticks demo_env 5 3 (demo_sched WeightedPriority) = Some s'"
    by (simp add: sleep_ticks_def r)
  from sleep_ticks_blocks [OF demo_sched_ok demo_sched_simps(2) _ _ _ _ s', of 1] s'
  show ?thesis by (simp add: demo_sched_simps demo_ab demo_env_def)
qed

lemma send_message_queues:
  assumes "sched_ok s" and "send_message to msg s = Some (s', b)"
  shows "b = (\<exists>p \<in> set (processes s). p_pid p = to) \<and> length (processes s') = length (processes s) \<and>
    (\<forall>i < length (processes s).
       p_pid (processes s' ! i) = p_pid (processes s ! i) \<and>
       p_state (processes s' ! i) = p_state (processes s ! i) \<and>
       handle_table (processes s' ! i) = handle_table (processes s ! i) \<and>
       message_queue (processes s' ! i) =
         message_queue (processes s ! i) @ (if p_pid (processes s ! i) = to then [msg] else [])) \<and>
    (\<exists>n. policy_calls s' = policy_calls s @
       [Observe_ipc (p_pid (processes s ! current s)) to n (of_nat (msg_len msg))])"
proof -
  let ?p = "fst (record_ipc_send (processes s ! current s) to)"
  let ?s = "upd_proc (current s) (\<lambda>_. ?p) s"
  let ?f = "\<lambda>q. q\<lparr>message_queue := message_queue q @ [msg]\<rparr>"
  have c: "current s < length (processes s)" using assms(1) by (simp add: sched_ok_def sched_wf_def)
  from assms(2) obtain l where l: "policy_calls s' = policy_calls s @
      [Observe_ipc (p_pid (processes s ! current s)) to l (of_nat (msg_len msg))]"
    and s': "processes s' = upd_first (\<lambda>p. p_pid p = to) ?f (processes ?s)"
    and b: "b = (\<exists>p \<in> set (processes ?s). p_pid p = to)"
    by (auto simp: send_message_def cur_proc_Some_iff bind_eq_Some_conv split: prod.splits)
  have f: "p_pid (processes ?s ! i) = p_pid (processes s ! i)"
      "p_state (processes ?s ! i) = p_state (processes s ! i)"
      "handle_table (processes ?s ! i) = handle_table (processes s ! i)"
      "message_queue (processes ?s ! i) = message_queue (processes s ! i)" if "i < length (processes s)" for i
    using that by (simp_all add: nth_upd_ite)
  then have m: "map p_pid (processes ?s) = map p_pid (processes s)"
    by (intro nth_equalityI) auto
  then have d: "distinct (map p_pid (processes ?s))"
    using assms(1) by (simp add: sched_ok_def sched_wf_def)
  have "processes s' ! i = (if p_pid (processes ?s ! i) = to then ?f (processes ?s ! i) else processes ?s ! i)"
    if "i < length (processes s)" for i
    unfolding s' using upd_first_unique [OF d, where q = to and f = ?f and i = i] that by simp
  moreover have "b = (\<exists>p \<in> set (processes s). p_pid p = to)"
  proof -
    have "p_pid ` set (processes ?s) = p_pid ` set (processes s)" using m by (metis list.set_map)
    moreover have "b = (to \<in> p_pid ` set (processes ?s))" unfolding b by blast
    ultimately have "b = (to \<in> p_pid ` set (processes s))" by (simp only:)
    then show ?thesis by blast
  qed
  ultimately show ?thesis using l f by (simp add: s')
qed

text \<open>Messages between processes are queues. A send appends the message to the queue of the receiver
  and of nobody else, reports whether the receiver exists, and tells the Policy Engine once;
  identifiers, states and handle tables stay as they were.\<close>

theorem send_message_appends:
  assumes "sched_ok s" and "send_message to msg s = Some (s', b)"
  shows "b = (\<exists>p \<in> set (processes s). p_pid p = to) \<and> length (processes s') = length (processes s) \<and>
    (\<forall>i < length (processes s).
       p_pid (processes s' ! i) = p_pid (processes s ! i) \<and>
       p_state (processes s' ! i) = p_state (processes s ! i) \<and>
       handle_table (processes s' ! i) = handle_table (processes s ! i) \<and>
       message_queue (processes s' ! i) =
         message_queue (processes s ! i) @ (if p_pid (processes s ! i) = to then [msg] else [])) \<and>
    (\<exists>n. policy_calls s' = policy_calls s @
       [Observe_ipc (p_pid (processes s ! current s)) to n (of_nat (msg_len msg))])"
  by (rule send_message_queues [OF assms])

theorem send_message_appends_witness:
  "\<exists>s'. send_message 1 \<lparr>sender = 0, msg_len = 2, msg_data = [7, 8], fast_cap = 0\<rparr> (demo_sched Cfs) =
      Some (s', True) \<and> map message_queue (processes s') =
      [[], [\<lparr>sender = 0, msg_len = 2, msg_data = [7, 8], fast_cap = 0\<rparr>]]"
proof -
  let ?m = "\<lparr>sender = 0, msg_len = 2, msg_data = [7, 8], fast_cap = 0\<rparr> :: message"
  obtain s' b where r: "send_message 1 ?m (demo_sched Cfs) = Some (s', b)"
    by (cases "record_ipc_send demo_a 1")
      (auto simp: send_message_def cur_proc_def demo_sched_simps)
  note w = send_message_appends [OF demo_sched_ok r]
  have q: "message_queue demo_a = []" "message_queue demo_b = []"
    by (simp_all add: demo_a_def demo_b_def new_kernel_main_def)
  have l: "length (processes s') = 2" and b: b using w by (simp_all add: demo_sched_simps demo_ab)
  then obtain x y where xy: "processes s' = [x, y]"
    by (metis (no_types, lifting) length_0_conv length_Suc_conv numeral_2_eq_2)
  have "message_queue (processes s' ! 0) = [] \<and> message_queue (processes s' ! 1) = [?m]"
    using w by (simp add: demo_sched_simps demo_ab q All_less_Suc)
  with r b xy show ?thesis by simp
qed

text \<open>Receiving takes the oldest message of the current process and leaves everything else alone; on
  an empty queue it returns nothing and changes nothing.\<close>

theorem recv_message_pops:
  assumes "sched_ok s"
  shows "\<exists>s'. recv_message s =
      Some (s', case message_queue (processes s ! current s) of [] \<Rightarrow> None | m # _ \<Rightarrow> Some m) \<and>
    s' = s\<lparr>processes := (processes s)[current s := (processes s ! current s)
      \<lparr>message_queue := tl (message_queue (processes s ! current s))\<rparr>]\<rparr>"
proof -
  let ?p = "processes s ! current s"
  have c: "cur_proc s = Some ?p" using assms by (simp add: cur_proc_def sched_ok_def sched_wf_def)
  show ?thesis
  proof (cases "message_queue ?p")
    case Nil
    then have "?p\<lparr>message_queue := tl (message_queue ?p)\<rparr> = ?p" by (cases "?p") simp
    then have "s\<lparr>processes := (processes s)[current s := ?p\<lparr>message_queue := tl (message_queue ?p)\<rparr>]\<rparr> = s"
      by (cases s) simp
    with c Nil show ?thesis by (simp add: recv_message_def)
  next
    case (Cons m ms)
    with c show ?thesis by (simp add: recv_message_def upd_proc_def)
  qed
qed

theorem recv_message_pops_witness:
  "\<exists>s'. recv_message (demo_sched Cfs) = Some (s', None)"
  using recv_message_pops [OF demo_sched_ok, of Cfs]
  by (auto simp: demo_sched_simps demo_a_def new_kernel_main_def)

text \<open>The per-peer send counters: the returned value is the counter now stored for the receiver,
  which is one more than before (saturating) if the receiver had a slot and 1 otherwise; no
  other slot changes except the one the receiver takes, which was free, or the smallest when
  all eight are in use.\<close>

theorem record_ipc_send_counts:
  assumes "length (ipc_peer_pids p) = 8" and "length (ipc_peer_counts p) = 8"
    and "record_ipc_send p to = (p', n)"
  shows "\<exists>i < 8. p' = p\<lparr>ipc_peer_pids := (ipc_peer_pids p)[i := to],
        ipc_peer_counts := (ipc_peer_counts p)[i := n]\<rparr> \<and>
    (if \<exists>j < 8. ipc_peer_counts p ! j > 0 \<and> ipc_peer_pids p ! j = to
     then ipc_peer_pids p ! i = to \<and> n = sat_add (ipc_peer_counts p ! i) 1
     else n = 1 \<and> (if \<exists>j < 8. ipc_peer_counts p ! j = 0 then ipc_peer_counts p ! i = 0
       else \<forall>j < 8. ipc_peer_counts p ! i \<le> ipc_peer_counts p ! j))"
proof (cases "find_idx (\<lambda>(q, c). c > 0 \<and> q = to) (zip (ipc_peer_pids p) (ipc_peer_counts p))")
  case (Some i)
  then have i: "i < 8" "ipc_peer_pids p ! i = to" "ipc_peer_counts p ! i > 0"
    using assms(1,2) by (auto simp: find_idx_Some_iff)
  then have "(ipc_peer_pids p)[i := to] = ipc_peer_pids p"
    by (metis list_update_id)
  then have "p' = p\<lparr>ipc_peer_pids := (ipc_peer_pids p)[i := to],
        ipc_peer_counts := (ipc_peer_counts p)[i := n]\<rparr>" "n = sat_add (ipc_peer_counts p ! i) 1"
    using assms(3) Some by (auto simp: record_ipc_send_def Let_def)
  moreover have "\<exists>j < 8. ipc_peer_counts p ! j > 0 \<and> ipc_peer_pids p ! j = to" using i by blast
  ultimately show ?thesis using i by (intro exI [of _ i]) simp
next
  case None
  have no: "\<not> (\<exists>j < 8. ipc_peer_counts p ! j > 0 \<and> ipc_peer_pids p ! j = to)"
  proof
    assume "\<exists>j < 8. ipc_peer_counts p ! j > 0 \<and> ipc_peer_pids p ! j = to"
    then obtain j where j: "j < 8" "ipc_peer_counts p ! j > 0" "ipc_peer_pids p ! j = to" by blast
    have "(ipc_peer_pids p ! j, ipc_peer_counts p ! j) \<in> set (zip (ipc_peer_pids p) (ipc_peer_counts p))"
      using j(1) assms(1,2) by (auto simp: set_zip)
    with None j show False by auto
  qed
  let ?cs = "ipc_peer_counts p"
  define i where "i = (case find_idx (\<lambda>c. c = 0) ?cs of Some i \<Rightarrow> i | None \<Rightarrow> min_idx id ?cs)"
  have ne: "?cs \<noteq> []" using assms(2) by auto
  have "i < 8 \<and> (if \<exists>j < 8. ?cs ! j = 0 then ?cs ! i = 0 else \<forall>j < 8. ?cs ! i \<le> ?cs ! j)"
  proof (cases "find_idx (\<lambda>c. c = 0) ?cs")
    case None
    then have z: "\<not> (\<exists>j < 8. ?cs ! j = 0)" using assms(2) by (simp add: all_set_conv_all_nth)
    have "i = min_idx id ?cs" using None by (simp add: i_def del: find_idx_None_iff)
    with min_idx_spec [OF ne, where key = id] assms(2) z show ?thesis by auto
  next
    case (Some k)
    with find_idx_SomeD [OF Some] assms(2) show ?thesis by (auto simp: i_def)
  qed
  moreover have "p' = p\<lparr>ipc_peer_pids := (ipc_peer_pids p)[i := to],
        ipc_peer_counts := ?cs[i := n]\<rparr>" "n = 1"
    using assms(3) None by (auto simp: record_ipc_send_def Let_def i_def simp del: find_idx_None_iff)
  ultimately show ?thesis unfolding if_not_P [OF no] by blast
qed

theorem record_ipc_send_counts_witness:
  "\<exists>i < 8. fst (record_ipc_send demo_a 4) = demo_a\<lparr>ipc_peer_pids := (ipc_peer_pids demo_a)[i := 4],
        ipc_peer_counts := (ipc_peer_counts demo_a)[i := 1]\<rparr>"
proof -
  obtain p' n where r: "record_ipc_send demo_a 4 = (p', n)" by (cases "record_ipc_send demo_a 4")
  have l: "length (ipc_peer_pids demo_a) = 8" "length (ipc_peer_counts demo_a) = 8"
    and z: "\<forall>j < 8. ipc_peer_counts demo_a ! j = 0"
    by (simp_all add: demo_a_def new_kernel_main_def)
  have nz: "\<not> (\<exists>j < 8. ipc_peer_counts demo_a ! j > 0 \<and> ipc_peer_pids demo_a ! j = 4)"
    using z by (metis less_irrefl)
  from record_ipc_send_counts [OF l r] show ?thesis unfolding if_not_P [OF nz] r fst_conv by blast
qed

text \<open>A process that exits while nothing else can run is put back to Running: with no Ready process
  left after waking the sleepers, \<open>exit_current\<close> returns to the stack of the process it has
  just marked Dead.\<close>

theorem exit_current_without_successor:
  assumes "sched_ok s" and "mode s = WeightedPriority"
    and "\<forall>i < length (processes s). i \<noteq> current s \<longrightarrow>
      p_state (wake_sleepers (env_tick env) (processes s) ! i) \<noteq> Ready"
  shows "\<exists>s'. exit_current env rsp s = Some (s', rsp) \<and> current s' = current s \<and>
    p_state (processes s' ! current s) = Running"
proof -
  let ?c = "current s"
  let ?d = "\<lambda>p. p\<lparr>p_state := Dead, preempt_rsp := rsp\<rparr>"
  have c: "?c < length (processes s)" using assms(1) by (simp add: sched_ok_def sched_wf_def)
  let ?ps = "wake_sleepers (env_tick env) ((processes s)[?c := ?d (processes s ! ?c)])"
  have "p_state (?ps ! i) \<noteq> Ready" if "i < length (processes s)" for i
    using assms(3) that c by (cases "i = ?c") (auto simp: wake_sleepers_nth)
  then have "pick better_wp (wp_key env) ?ps ?c = None"
    using wp.pick_Some(1,2) [of "wp_key env" ?ps ?c] c by (cases "pick better_wp (wp_key env) ?ps ?c") auto
  then show ?thesis
    using c assms(2)
    by (auto simp: exit_current_def cur_proc_def Let_def switch_to_next_def keep_running_def)
qed

theorem exit_current_without_successor_witness:
  "\<exists>s'. exit_current demo_env 5 (scheduler_init :: nat scheduler) = Some (s', 5) \<and> current s' = 0 \<and>
    p_state (processes s' ! 0) = Running"
proof -
  have "current (scheduler_init :: nat scheduler) = 0" "mode (scheduler_init :: nat scheduler) = WeightedPriority"
    "length (processes (scheduler_init :: nat scheduler)) = 1"
    by (simp_all add: scheduler_init_def scheduler_new_def)
  then show ?thesis
    using exit_current_without_successor [OF scheduler_init_ok, where 'a = nat and env = demo_env and rsp = 5]
    by simp
qed

end
