(* ===== verification/Paging.thy ===== *)
theory Paging
  imports Frame_Alloc Vma
begin

text \<open>
  The four-level page tables, \<open>kernel/src/paging/mod.rs\<close>, and the demand paging entry point of
  \<open>kernel/src/process/vma.rs\<close>.

  Physical memory is a function from the address of a 4 KB frame and the index of a 64-bit slot
  in it to the slot; \<open>page_byte\<close> and \<open>put_byte\<close> give the byte view of a frame. The kernel
  reaches a frame at \<open>phys + hhdm_offset()\<close> and subtracts the same offset again, so only the
  physical address appears here. Table entries are masked with \<open>!0xFFF\<close> before they are
  followed, as in \<open>table_at\<close>. Flushing the TLB and loading CR3 have no counterpart. The
  allocator panics the kernel when it is out of frames (\<open>expect\<close>), which is \<open>None\<close>.

  The lemmas establish that \<open>map_4k\<close> changes the translation of one page and of no other, and
  keeps a table tree without sharing whose tables are never free frames.
\<close>

section \<open>State\<close>

definition PTE_PRESENT :: u64 where "PTE_PRESENT = 1"
definition PTE_WRITABLE :: u64 where "PTE_WRITABLE = 2"
definition PTE_USER :: u64 where "PTE_USER = 4"
definition PTE_PS :: u64 where "PTE_PS = 0x80"
definition USER_CODE_VADDR :: u64 where "USER_CODE_VADDR = 0x10000"
definition USER_STACK_TOP :: u64 where "USER_STACK_TOP = 0x100000"
definition USER_STACK_PAGES :: nat where "USER_STACK_PAGES = 4"
definition RO_CHANNEL_BASE :: u64 where "RO_CHANNEL_BASE = 0xFFFFA00000000000"

type_synonym page = "nat \<Rightarrow> u64"

record vm =
  pmem :: "u64 \<Rightarrow> page"
  frames :: frames
  kernel_cr3 :: u64
  ro_channel_slot :: u64

definition zero_page :: page where "zero_page = (\<lambda>_. 0)"

definition page_base :: "u64 \<Rightarrow> u64" where "page_base e = e AND NOT 0xFFF"

definition present :: "u64 \<Rightarrow> bool" where "present e \<longleftrightarrow> e AND PTE_PRESENT \<noteq> 0"
definition huge :: "u64 \<Rightarrow> bool" where "huge e \<longleftrightarrow> e AND PTE_PS \<noteq> 0"

definition rd :: "u64 \<Rightarrow> nat \<Rightarrow> vm \<Rightarrow> u64" where "rd t i st = pmem st t i"

definition wr :: "u64 \<Rightarrow> nat \<Rightarrow> u64 \<Rightarrow> vm \<Rightarrow> vm" where
  "wr t i v st = st\<lparr>pmem := (pmem st)(t := (pmem st t)(i := v))\<rparr>"

definition put_page :: "u64 \<Rightarrow> page \<Rightarrow> vm \<Rightarrow> vm" where
  "put_page t p st = st\<lparr>pmem := (pmem st)(t := p)\<rparr>"

text \<open>Bytes of a page, little-endian in its slots.\<close>

definition page_byte :: "page \<Rightarrow> nat \<Rightarrow> u8" where
  "page_byte p k = ucast (drop_bit (8 * (k mod 8)) (p (k div 8)))"

definition put_byte :: "nat \<Rightarrow> u8 \<Rightarrow> page \<Rightarrow> page" where
  "put_byte k b p = p(k div 8 :=
     (p (k div 8) AND NOT (push_bit (8 * (k mod 8)) 0xFF)) OR push_bit (8 * (k mod 8)) (ucast b))"

fun put_bytes :: "nat \<Rightarrow> bytes \<Rightarrow> page \<Rightarrow> page" where
  "put_bytes k [] p = p"
| "put_bytes k (b # bs) p = put_bytes (Suc k) bs (put_byte k b p)"

definition page_bytes :: "page \<Rightarrow> nat \<Rightarrow> nat \<Rightarrow> bytes" where
  "page_bytes p k n = map (\<lambda>i. page_byte p (k + i)) [0..<n]"

section \<open>Tables\<close>

definition pt_idx :: "nat \<Rightarrow> u64 \<Rightarrow> nat" where
  "pt_idx sh va = unat (drop_bit sh va AND 0x1FF)"

definition take_frame :: "vm \<Rightarrow> (vm \<times> u64) option" where
  "take_frame st = (case alloc_frame (frames st) of
     (fr, Some pa) \<Rightarrow> Some (st\<lparr>frames := fr\<rparr>, pa)
   | (_, None) \<Rightarrow> None)"

definition alloc_table :: "vm \<Rightarrow> (vm \<times> u64) option" where
  "alloc_table st = do {
     (st, pa) \<leftarrow> take_frame st;
     Some (put_page pa zero_page st, pa)
   }"

definition get_or_create :: "u64 \<Rightarrow> nat \<Rightarrow> u64 \<Rightarrow> vm \<Rightarrow> (vm \<times> u64) option" where
  "get_or_create t i flags st = do {
     st \<leftarrow> (if rd t i st AND PTE_PRESENT = 0 then do {
             (st, pa) \<leftarrow> alloc_table st;
             Some (wr t i (pa OR flags) st)
           } else Some st);
     Some (st, page_base (rd t i st))
   }"

definition map_4k :: "u64 \<Rightarrow> u64 \<Rightarrow> u64 \<Rightarrow> u64 \<Rightarrow> vm \<Rightarrow> vm option" where
  "map_4k pml4 vaddr paddr flags st = do {
     let i4 = pt_idx 39 vaddr;
     let i3 = pt_idx 30 vaddr;
     let i2 = pt_idx 21 vaddr;
     let i1 = pt_idx 12 vaddr;
     let mid_flags = PTE_PRESENT OR PTE_WRITABLE OR PTE_USER;
     (st, pdpt) \<leftarrow> get_or_create pml4 i4 mid_flags st;
     (st, pd) \<leftarrow> get_or_create pdpt i3 mid_flags st;
     (st, pt) \<leftarrow> get_or_create pd i2 mid_flags st;
     Some (wr pt i1 (page_base paddr OR flags OR PTE_PRESENT) st)
   }"

definition virt_to_phys :: "u64 \<Rightarrow> u64 \<Rightarrow> vm \<Rightarrow> u64 option" where
  "virt_to_phys cr3 vaddr st =
     (let pml4e = rd (page_base cr3) (pt_idx 39 vaddr) st in
      if pml4e AND PTE_PRESENT = 0 then None else
      let pdpte = rd (page_base pml4e) (pt_idx 30 vaddr) st in
      if pdpte AND PTE_PRESENT = 0 then None else
      if pdpte AND PTE_PS \<noteq> 0 then Some ((pdpte AND NOT 0x3FFFFFFF) OR (vaddr AND 0x3FFFFFFF)) else
      let pde = rd (page_base pdpte) (pt_idx 21 vaddr) st in
      if pde AND PTE_PRESENT = 0 then None else
      if pde AND PTE_PS \<noteq> 0 then Some ((pde AND NOT 0x1FFFFF) OR (vaddr AND 0x1FFFFF)) else
      let pte = rd (page_base pde) (pt_idx 12 vaddr) st in
      if pte AND PTE_PRESENT = 0 then None
      else Some (page_base pte OR (vaddr AND 0xFFF)))"

definition get_user_pte :: "u64 \<Rightarrow> u64 \<Rightarrow> vm \<Rightarrow> u64 option" where
  "get_user_pte cr3 vaddr st =
     (let pml4e = rd (page_base cr3) (pt_idx 39 vaddr) st in
      if pml4e AND PTE_PRESENT = 0 then None else
      let pdpte = rd (page_base pml4e) (pt_idx 30 vaddr) st in
      if pdpte AND PTE_PRESENT = 0 then None else
      if pdpte AND PTE_PS \<noteq> 0 then Some pdpte else
      let pde = rd (page_base pdpte) (pt_idx 21 vaddr) st in
      if pde AND PTE_PRESENT = 0 then None else
      if pde AND PTE_PS \<noteq> 0 then Some pde else
      let pte = rd (page_base pde) (pt_idx 12 vaddr) st in
      if pte AND PTE_PRESENT = 0 then None else Some pte)"

definition get_kernel_pte :: "u64 \<Rightarrow> vm \<Rightarrow> u64 option" where
  "get_kernel_pte vaddr st = get_user_pte (kernel_cr3 st) vaddr st"

text \<open>The address of the table entry the walks of \<open>munmap_pages\<close> and \<open>set_page_prot\<close> reach: they stop
  at an absent entry and do not look at the page size bit.\<close>

definition pte_slot :: "u64 \<Rightarrow> u64 \<Rightarrow> vm \<Rightarrow> (u64 \<times> nat) option" where
  "pte_slot cr3 va st =
     (let pml4e = rd (page_base cr3) (pt_idx 39 va) st in
      if pml4e AND PTE_PRESENT = 0 then None else
      let pdpte = rd (page_base pml4e) (pt_idx 30 va) st in
      if pdpte AND PTE_PRESENT = 0 then None else
      let pde = rd (page_base pdpte) (pt_idx 21 va) st in
      if pde AND PTE_PRESENT = 0 then None else Some (page_base pde, pt_idx 12 va))"

text \<open>\<open>vaddr + (i as u64) * 4096\<close>, which panics on overflow.\<close>

definition page_addr :: "u64 \<Rightarrow> nat \<Rightarrow> u64 option" where
  "page_addr vaddr i = do { off \<leftarrow> mul_chk (of_nat i) 4096; add_chk vaddr off }"

text \<open>\<open>for i in 0..n\<close> over a body that can panic.\<close>

primrec for_each :: "('i \<Rightarrow> 's \<Rightarrow> 's option) \<Rightarrow> 'i list \<Rightarrow> 's \<Rightarrow> 's option" where
  "for_each f [] s = Some s"
| "for_each f (i # is) s = do { s \<leftarrow> f i s; for_each f is s }"

definition munmap_page :: "u64 \<Rightarrow> u64 \<Rightarrow> vm \<Rightarrow> vm option" where
  "munmap_page cr3 va st =
     (case virt_to_phys cr3 va st of
        None \<Rightarrow> Some st
      | Some phys \<Rightarrow> do {
          fr \<leftarrow> free_frame (page_base phys) (frames st);
          let st = st\<lparr>frames := fr\<rparr>;
          Some (case pte_slot cr3 va st of None \<Rightarrow> st | Some (pt, i) \<Rightarrow> wr pt i 0 st)
        })"

definition munmap_pages :: "u64 \<Rightarrow> u64 \<Rightarrow> nat \<Rightarrow> vm \<Rightarrow> vm option" where
  "munmap_pages cr3 vaddr count = for_each (\<lambda>i st. do {
     va \<leftarrow> page_addr vaddr i; munmap_page cr3 va st }) [0..<count]"

definition demand_alloc_page :: "u64 \<Rightarrow> u64 \<Rightarrow> bool \<Rightarrow> vm \<Rightarrow> vm option" where
  "demand_alloc_page cr3 vaddr writable st = do {
     (st, phys) \<leftarrow> take_frame st;
     let st = put_page phys zero_page st;
     let flags = PTE_USER OR (if writable then PTE_WRITABLE else 0);
     map_4k (page_base cr3) vaddr phys flags st
   }"

definition prot_pte :: "u32 \<Rightarrow> u64 \<Rightarrow> u64" where
  "prot_pte pr pte =
     (let phys_bits = page_base pte in
      if pr = 0 then phys_bits AND NOT PTE_PRESENT
      else
        let f = PTE_PRESENT OR PTE_USER;
            f = (if pr AND 2 \<noteq> 0 then f OR PTE_WRITABLE else f)
        in phys_bits OR f)"

definition set_page_prot1 :: "u64 \<Rightarrow> u64 \<Rightarrow> u32 \<Rightarrow> vm \<Rightarrow> vm" where
  "set_page_prot1 cr3 va pr st =
     (case pte_slot cr3 va st of
        None \<Rightarrow> st
      | Some (pt, i) \<Rightarrow>
          let pte = rd pt i st in
          if pte AND PTE_PRESENT = 0 then st else wr pt i (prot_pte pr pte) st)"

definition set_page_prot :: "u64 \<Rightarrow> u64 \<Rightarrow> nat \<Rightarrow> u32 \<Rightarrow> vm \<Rightarrow> vm option" where
  "set_page_prot cr3 vaddr n pr = for_each (\<lambda>i st. do {
     va \<leftarrow> page_addr vaddr i; Some (set_page_prot1 cr3 va pr st) }) [0..<n]"

text \<open>\<open>for i in 256..512 { new.0[i] = kpml4.0[i] }\<close>\<close>

definition share_kernel_half :: "u64 \<Rightarrow> vm \<Rightarrow> vm" where
  "share_kernel_half t st = put_page t
     (\<lambda>i. if 256 \<le> i \<and> i < 512 then rd (page_base (kernel_cr3 st)) i st else rd t i st) st"

definition alloc_user_pml4 :: "vm \<Rightarrow> (vm \<times> u64) option" where
  "alloc_user_pml4 st = do {
     (st, t) \<leftarrow> alloc_table st;
     Some (share_kernel_half t st, t)
   }"

text \<open>\<open>paging::init\<close>: \<open>old_cr3\<close> is the boot loader's CR3. Control registers, TSS and the system call
  stack are not part of the model.\<close>

definition paging_init :: "u64 \<Rightarrow> vm \<Rightarrow> vm option" where
  "paging_init old_cr3 st = do {
     (st, t) \<leftarrow> alloc_table st;
     let st = put_page t
       (\<lambda>i. if 256 \<le> i \<and> i < 512 then rd (page_base old_cr3) i st else rd t i st) st;
     Some (st\<lparr>kernel_cr3 := t\<rparr>)
   }"

definition mmap_map :: "u64 \<Rightarrow> u64 \<Rightarrow> bytes \<Rightarrow> bool \<Rightarrow> vm \<Rightarrow> vm option" where
  "mmap_map cr3 vaddr data writable st =
     (let n = (length data + 4095) div 4096;
          n = (if n = 0 then 1 else n);
          flags = PTE_USER OR (if writable then PTE_WRITABLE else 0)
      in for_each (\<lambda>i st. do {
           (st, phys) \<leftarrow> take_frame st;
           let lo = i * 4096;
           let hi = min ((i + 1) * 4096) (length data);
           let page = (if lo < hi then put_bytes 0 (take (hi - lo) (drop lo data)) zero_page else zero_page);
           let st = put_page phys page st;
           va \<leftarrow> page_addr vaddr i;
           map_4k (page_base cr3) va phys flags st
         }) [0..<n] st)"

definition mmap_anon :: "u64 \<Rightarrow> u64 \<Rightarrow> nat \<Rightarrow> bool \<Rightarrow> vm \<Rightarrow> vm option" where
  "mmap_anon cr3 vaddr n writable =
     (let flags = (if writable then PTE_USER OR PTE_WRITABLE else PTE_USER)
      in for_each (\<lambda>i st. do {
           (st, phys) \<leftarrow> take_frame st;
           let st = put_page phys zero_page st;
           va \<leftarrow> page_addr vaddr i;
           map_4k (page_base cr3) va phys flags st
         }) [0..<n])"

definition pub_map_4k :: "u64 \<Rightarrow> u64 \<Rightarrow> u64 \<Rightarrow> bool \<Rightarrow> vm \<Rightarrow> vm option" where
  "pub_map_4k cr3 vaddr phys writable =
     map_4k (page_base cr3) vaddr phys (PTE_USER OR (if writable then PTE_WRITABLE else 0))"

section \<open>Copying an address space\<close>

definition clone_page :: "u64 \<Rightarrow> u64 \<Rightarrow> nat \<Rightarrow> vm \<Rightarrow> vm option" where
  "clone_page src_pt new_pt i1 st =
     (let pte = rd src_pt i1 st in
      if pte AND PTE_PRESENT = 0 then Some st
      else do {
        (st, dst) \<leftarrow> take_frame st;
        let st = put_page dst (pmem st (page_base pte)) st;
        Some (wr new_pt i1 (dst OR (pte AND 0xFFF)) st)
      })"

definition clone_pt :: "u64 \<Rightarrow> u64 \<Rightarrow> nat \<Rightarrow> vm \<Rightarrow> vm option" where
  "clone_pt src_pd new_pd i2 st =
     (let pde = rd src_pd i2 st in
      if pde AND PTE_PRESENT = 0 then Some st
      else if pde AND PTE_PS \<noteq> 0 then Some (wr new_pd i2 pde st)
      else do {
        (st, new_pt) \<leftarrow> alloc_table st;
        let st = wr new_pd i2 (new_pt OR (pde AND 0xFFF)) st;
        for_each (clone_page (page_base pde) new_pt) [0..<512] st
      })"

definition clone_pd :: "u64 \<Rightarrow> u64 \<Rightarrow> nat \<Rightarrow> vm \<Rightarrow> vm option" where
  "clone_pd src_pdpt new_pdpt i3 st =
     (let pdpte = rd src_pdpt i3 st in
      if pdpte AND PTE_PRESENT = 0 then Some st
      else do {
        (st, new_pd) \<leftarrow> alloc_table st;
        let st = wr new_pdpt i3 (new_pd OR (pdpte AND 0xFFF)) st;
        for_each (clone_pt (page_base pdpte) new_pd) [0..<512] st
      })"

definition clone_pdpt :: "u64 \<Rightarrow> u64 \<Rightarrow> nat \<Rightarrow> vm \<Rightarrow> vm option" where
  "clone_pdpt src_pml4 new_pml4 i4 st =
     (let pml4e = rd src_pml4 i4 st in
      if pml4e AND PTE_PRESENT = 0 then Some st
      else do {
        (st, new_pdpt) \<leftarrow> alloc_table st;
        let st = wr new_pml4 i4 (new_pdpt OR (pml4e AND 0xFFF)) st;
        for_each (clone_pd (page_base pml4e) new_pdpt) [0..<512] st
      })"

definition clone_user_space :: "u64 \<Rightarrow> vm \<Rightarrow> (vm \<times> u64) option" where
  "clone_user_space src_cr3 st = do {
     (st, t) \<leftarrow> alloc_table st;
     let st = share_kernel_half t st;
     st \<leftarrow> for_each (clone_pdpt (page_base src_cr3) t) [0..<256] st;
     Some (st, t)
   }"

section \<open>Initial user stack\<close>

text \<open>The \<open>push!\<close> macro: the cursor moves down a slot and the slot is written.\<close>

definition push_slot :: "u64 \<Rightarrow> nat \<times> page \<Rightarrow> nat \<times> page" where
  "push_slot v cp = (fst cp - 8, (snd cp)((fst cp - 8) div 8 := v))"

text \<open>Both set-ups start alike: the program name at the very top, then alignment to 16 bytes.\<close>

definition prog_str :: bytes where "prog_str = [0x70, 0x72, 0x6F, 0x67, 0]"

definition stack_strings :: "page \<Rightarrow> nat \<times> page" where
  "stack_strings p = (4096 - length prog_str - (4096 - length prog_str) mod 16,
     put_bytes (4096 - length prog_str) prog_str p)"

definition prog_ptr :: "u64 \<Rightarrow> u64" where
  "prog_ptr page_ubase = page_ubase + of_nat (4096 - length prog_str)"

definition setup_elf_stack :: "u64 \<Rightarrow> u64 \<Rightarrow> vm \<Rightarrow> vm \<times> u64" where
  "setup_elf_stack phys tp st =
     (let page_ubase = tp - 4096;
          (cur, p) = fold push_slot
            [0, 0, 100, 17, 4096, 6, 0, 0, prog_ptr page_ubase, 1] (stack_strings (pmem st phys))
      in (put_page phys p st, page_ubase + of_nat cur))"

definition setup_elf_stack_dyn ::
  "u64 \<Rightarrow> u64 \<Rightarrow> u64 \<Rightarrow> u16 \<Rightarrow> u16 \<Rightarrow> u64 \<Rightarrow> u64 \<Rightarrow> vm \<Rightarrow> vm \<times> u64" where
  "setup_elf_stack_dyn phys tp phdr_va phent phnum base exec_entry st =
     (let page_ubase = tp - 4096;
          (cur, p) = fold push_slot
            [0, 0, exec_entry, 9, base, 7, ucast phnum, 5, ucast phent, 4, phdr_va, 3, 100, 17, 4096, 6,
             0, 0, prog_ptr page_ubase, 1] (stack_strings (pmem st phys))
      in (put_page phys p st, page_ubase + of_nat cur))"

text \<open>The stack pages: page 0 is the highest; its physical address is kept for the set-up.\<close>

definition map_user_stack :: "u64 \<Rightarrow> vm \<Rightarrow> (vm \<times> u64) option" where
  "map_user_stack pml4 st = for_each (\<lambda>i (st, top_phys). do {
     (st, phys) \<leftarrow> take_frame st;
     st \<leftarrow> map_4k pml4 (USER_STACK_TOP - of_nat (i + 1) * 4096) phys (PTE_WRITABLE OR PTE_USER) st;
     Some (st, if i = 0 then phys else top_phys)
   }) [0..<USER_STACK_PAGES] (st, 0)"

definition setup_user_stack ::
  "u64 \<Rightarrow> u64 \<Rightarrow> u16 \<Rightarrow> u16 \<Rightarrow> u64 \<Rightarrow> u64 \<Rightarrow> vm \<Rightarrow> (vm \<times> u64) option" where
  "setup_user_stack cr3 phdr_va phent phnum base entry st = do {
     (st, top_phys) \<leftarrow> map_user_stack (page_base cr3) st;
     Some (if phdr_va \<noteq> 0 \<or> base \<noteq> 0
           then setup_elf_stack_dyn top_phys USER_STACK_TOP phdr_va phent phnum base entry st
           else setup_elf_stack top_phys USER_STACK_TOP st)
   }"

section \<open>Channel frames\<close>

definition alloc_channel_frame :: "u64 \<Rightarrow> vm \<Rightarrow> (vm \<times> u64 \<times> u64 \<times> u64) option" where
  "alloc_channel_frame hhdm st = do {
     (st, phys) \<leftarrow> take_frame st;
     write_va \<leftarrow> add_chk phys hhdm;
     let slot = ro_channel_slot st;
     let st = st\<lparr>ro_channel_slot := slot + 1\<rparr>;
     off \<leftarrow> mul_chk slot 4096;
     read_va \<leftarrow> add_chk RO_CHANNEL_BASE off;
     st \<leftarrow> map_4k (page_base (kernel_cr3 st)) read_va phys PTE_PRESENT st;
     Some (st, write_va, read_va, phys)
   }"

definition free_channel_frame :: "u64 \<Rightarrow> vm \<Rightarrow> vm option" where
  "free_channel_frame phys st = do {
     fr \<leftarrow> free_frame phys (frames st);
     Some (st\<lparr>frames := fr\<rparr>)
   }"

section \<open>Demand paging (\<open>vma.rs\<close>)\<close>

text \<open>\<open>try_demand_page\<close>: the mapping table and the address space of the faulting process.\<close>

definition try_demand_page :: "u64 \<Rightarrow> u64 \<Rightarrow> vma_table \<Rightarrow> vm \<Rightarrow> (vm \<times> bool) option" where
  "try_demand_page cr2 cr3 t st = do {
     found \<leftarrow> vma_find cr2 t;
     case found of
       None \<Rightarrow> Some (st, False)
     | Some e \<Rightarrow>
         if vma_lazy e then do {
           st \<leftarrow> demand_alloc_page cr3 (page_base cr2) (vma_prot e AND PROT_WRITE \<noteq> 0) st;
           Some (st, True)
         } else Some (st, False)
   }"

lemma pt_idx_nat: "pt_idx sh va = unat va div 2 ^ sh mod 512"
proof -
  have "drop_bit sh va AND 0x1FF = take_bit 9 (drop_bit sh va)"
    by (simp add: take_bit_eq_mask mask_eq_exp_minus_1)
  then have "pt_idx sh va = take_bit 9 (unat (drop_bit sh va))" by (simp add: pt_idx_def unsigned_take_bit_eq)
  moreover have "unat (drop_bit sh va) = unat va div 2 ^ sh"
    unfolding unat_drop_bit_eq by (rule drop_bit_eq_div)
  ultimately show ?thesis by (simp add: take_bit_eq_mod)
qed

section \<open>The table tree\<close>

text \<open>
  \<open>table_of st root p\<close> is the table reached from \<open>root\<close> along the indices \<open>p\<close>; \<open>entry_at\<close> the
  present entry \<open>j\<close> of that table. A tree is well formed when no table is reached by two paths,
  no table is a free frame, and the root has no large entry.
\<close>

fun table_of :: "vm \<Rightarrow> u64 \<Rightarrow> nat list \<Rightarrow> u64 option" where
  "table_of st t [] = Some t"
| "table_of st t (i # is) =
     (let e = rd t i st in if present e \<and> \<not> huge e then table_of st (page_base e) is else None)"

definition entry_at :: "vm \<Rightarrow> u64 \<Rightarrow> nat list \<Rightarrow> nat \<Rightarrow> u64 option" where
  "entry_at st root q j = (case table_of st root q of
     None \<Rightarrow> None
   | Some t \<Rightarrow> let e = rd t j st in if present e then Some e else None)"

definition path_ok :: "nat list \<Rightarrow> bool" where
  "path_ok p \<longleftrightarrow> length p \<le> 3 \<and> (\<forall>i \<in> set p. i < 512)"

definition vavail :: "vm \<Rightarrow> u64 set" where
  "vavail st = frame_avail (frames st)"

definition tree_wf :: "vm \<Rightarrow> u64 \<Rightarrow> bool" where
  "tree_wf st root \<longleftrightarrow>
     (\<forall>p q t. path_ok p \<longrightarrow> path_ok q \<longrightarrow> table_of st root p = Some t \<longrightarrow> table_of st root q = Some t \<longrightarrow> p = q) \<and>
     (\<forall>p t. path_ok p \<longrightarrow> table_of st root p = Some t \<longrightarrow> t \<notin> vavail st) \<and>
     page_base root = root \<and>
     (\<forall>i < 512. present (rd root i st) \<longrightarrow> \<not> huge (rd root i st))"

lemma tree_wf_inj:
  "tree_wf st root \<Longrightarrow> path_ok p \<Longrightarrow> path_ok q \<Longrightarrow> table_of st root p = Some t \<Longrightarrow>
    table_of st root q = Some t \<Longrightarrow> p = q"
  unfolding tree_wf_def by blast

lemma tree_wf_used:
  "tree_wf st root \<Longrightarrow> path_ok p \<Longrightarrow> table_of st root p = Some t \<Longrightarrow> t \<notin> vavail st"
  unfolding tree_wf_def by blast

lemma table_of_snoc:
  "table_of st t (p @ [j]) = (case entry_at st t p j of
     None \<Rightarrow> None | Some e \<Rightarrow> if huge e then None else Some (page_base e))"
  by (induction p arbitrary: t) (auto simp: entry_at_def Let_def split: option.splits)

lemma entry_at_below_None:
  "entry_at st t p j = None \<Longrightarrow> entry_at st t (p @ [j]) k = None"
  by (simp add: entry_at_def [of st t "p @ [j]"] table_of_snoc)

lemma path_ok_Nil [simp]: "path_ok []"
  by (simp add: path_ok_def)

lemma path_ok_snoc: "path_ok (p @ [i]) \<longleftrightarrow> path_ok p \<and> length p \<le> 2 \<and> i < 512"
  by (auto simp: path_ok_def)

lemma pt_idx_less [simp]: "pt_idx sh va < 512"
proof -
  have "drop_bit sh va AND 0x1FF = take_bit 9 (drop_bit sh va)"
    by (simp add: take_bit_eq_mask mask_eq_exp_minus_1)
  then have "unat (drop_bit sh va AND 0x1FF) = take_bit 9 (unat (drop_bit sh va))"
    by (simp add: unsigned_take_bit_eq)
  then show ?thesis
    using take_bit_nat_less_exp [of 9 "unat (drop_bit sh va)"] by (simp add: pt_idx_def)
qed

lemma FFF_mask: "(0xFFF :: u64) = mask 12"
  by (simp add: mask_eq_exp_minus_1)

lemma low_bits_clear: "(pa :: u64) AND 0xFFF = 0 \<Longrightarrow> n < 12 \<Longrightarrow> \<not> bit pa n"
proof
  assume a: "pa AND 0xFFF = 0" "n < 12" "bit pa n"
  have "bit (pa AND 0xFFF) n"
    using a(2,3) unfolding FFF_mask by (simp add: bit_simps)
  with a(1) show False by simp
qed

lemma high_bits_clear: "(f :: u64) AND NOT 0xFFF = 0 \<Longrightarrow> 12 \<le> n \<Longrightarrow> \<not> bit f n"
proof
  assume a: "f AND NOT 0xFFF = 0" "12 \<le> n" "bit f n"
  have "bit (f AND NOT 0xFFF) n"
    using a(2,3) bit_imp_le_length [OF a(3)] unfolding FFF_mask by (simp add: bit_simps)
  with a(1) show False by simp
qed

lemma page_base_OR:
  assumes "pa AND 0xFFF = 0" and "page_base f = 0"
  shows "page_base (pa OR f) = pa"
proof (rule bit_word_eqI)
  fix n
  assume n: "n < LENGTH(64)"
  show "bit (page_base (pa OR f)) n = bit pa n"
    using low_bits_clear [OF assms(1), of n] high_bits_clear [OF assms(2) [unfolded page_base_def], of n] n
    unfolding page_base_def FFF_mask by (cases "n < 12") (simp_all add: bit_simps)
qed

lemma frame_addr_aligned: "frame_addr f AND 0xFFF = 0"
proof -
  have "frame_addr f = push_bit 12 (of_nat f)"
    by (simp add: frame_addr_def push_bit_eq_mult mult.commute PAGE_SIZE_def)
  then show ?thesis unfolding FFF_mask by (simp only: flip: take_bit_eq_mask) (simp add: take_bit_push_bit)
qed

lemma rd_wr: "rd t' j (wr t i v st) = (if t' = t \<and> j = i then v else rd t' j st)"
  by (simp add: rd_def wr_def)

lemma rd_put_page: "rd t' j (put_page t p st) = (if t' = t then p j else rd t' j st)"
  by (simp add: rd_def put_page_def)

lemma vm_other_fields [simp]:
  "frames (wr t i v st) = frames st" "frames (put_page t p st) = frames st"
  "kernel_cr3 (wr t i v st) = kernel_cr3 st" "kernel_cr3 (put_page t p st) = kernel_cr3 st"
  "vavail (wr t i v st) = vavail st" "vavail (put_page t p st) = vavail st"
  by (simp_all add: wr_def put_page_def vavail_def)

lemma take_frame_SomeD:
  assumes "take_frame st = Some (st', pa)"
  shows "pa \<in> vavail st" and "vavail st' = vavail st - {pa}" and "pmem st' = pmem st"
    and "kernel_cr3 st' = kernel_cr3 st" and "pa AND 0xFFF = 0" and "\<And>t j. rd t j st' = rd t j st"
proof -
  from assms obtain fr where a: "alloc_frame (frames st) = (fr, Some pa)" and st': "st' = st\<lparr>frames := fr\<rparr>"
    by (auto simp: take_frame_def split: prod.splits option.splits)
  from fa.acquire_Some [OF a] st' show m: "pa \<in> vavail st" and "vavail st' = vavail st - {pa}"
    by (simp_all add: vavail_def)
  from st' show "pmem st' = pmem st" "kernel_cr3 st' = kernel_cr3 st" "\<And>t j. rd t j st' = rd t j st"
    by (simp_all add: rd_def)
  from m obtain f where "pa = frame_addr f"
    by (auto simp: vavail_def frame_avail_def)
  then show "pa AND 0xFFF = 0" by (simp add: frame_addr_aligned)
qed

text \<open>Writing a present, small entry that points to a zeroed frame nobody uses grows the tree by one
  empty table.\<close>

lemma table_grow:
  assumes wf: "tree_wf st root" and p: "path_ok p" and t: "table_of st root p = Some t"
    and new: "pa \<in> vavail st" and absent: "\<not> present (rd t i st)"
    and e: "present e" "\<not> huge e" "page_base e = pa"
    and rd': "\<And>t' j. rd t' j st' = (if t' = t \<and> j = i then e else if t' = pa then 0 else rd t' j st)"
    and q: "path_ok q"
  shows "table_of st' root q = (if q = p @ [i] then Some pa else table_of st root q)"
  using q
proof (induction q rule: rev_induct)
  case Nil
  then show ?case by simp
next
  case (snoc j q)
  have q: "path_ok q" using snoc.prems by (simp add: path_ok_snoc)
  have z: "\<not> present 0" by (simp add: present_def)
  have tpa: "t \<noteq> pa" using tree_wf_used [OF wf p t] new by blast
  show ?case
  proof (cases "q = p @ [i]")
    case True
    have i: "table_of st' root q = Some pa" using snoc.IH [OF q] True by simp
    have "entry_at st' root q j = None" using i tpa z rd' by (simp add: entry_at_def)
    moreover have "entry_at st root q j = None"
      using True absent t entry_at_below_None [of st root p i j] by (simp add: entry_at_def)
    ultimately show ?thesis using True by (simp only: table_of_snoc) simp
  next
    case False
    have eq: "table_of st' root q = table_of st root q" using snoc.IH [OF q] False by simp
    show ?thesis
    proof (cases "table_of st root q")
      case None
      then have "q \<noteq> p" using t by auto
      with None eq show ?thesis by (simp add: table_of_snoc entry_at_def)
    next
      case (Some t')
      have t'pa: "t' \<noteq> pa" using tree_wf_used [OF wf q Some] new by blast
      show ?thesis
      proof (cases "t' = t \<and> j = i")
        case True
        then have "q = p" using tree_wf_inj [OF wf q p] Some t by simp
        with True Some eq e rd' show ?thesis by (simp add: table_of_snoc entry_at_def)
      next
        case False
        then have "\<not> (q = p \<and> j = i)" using Some t by auto
        with False Some eq t'pa rd' show ?thesis by (auto simp: table_of_snoc entry_at_def)
      qed
    qed
  qed
qed

lemma entry_grow:
  assumes wf: "tree_wf st root" and p: "path_ok p" and t: "table_of st root p = Some t"
    and new: "pa \<in> vavail st" and absent: "\<not> present (rd t i st)"
    and e: "present e" "\<not> huge e" "page_base e = pa"
    and rd': "\<And>t' j. rd t' j st' = (if t' = t \<and> j = i then e else if t' = pa then 0 else rd t' j st)"
    and q: "path_ok q"
  shows "entry_at st' root q j = (if q = p \<and> j = i then Some e else entry_at st root q j)"
proof -
  note tg = table_grow [OF wf p t new absent e rd' q]
  have z: "\<not> present 0" by (simp add: present_def)
  have tpa: "t \<noteq> pa" using tree_wf_used [OF wf p t] new by blast
  show ?thesis
  proof (cases "q = p @ [i]")
    case True
    then have "entry_at st root q j = None"
      using absent t entry_at_below_None [of st root p i j] by (simp add: entry_at_def)
    with True tg tpa z rd' show ?thesis by (simp add: entry_at_def)
  next
    case False
    show ?thesis
    proof (cases "table_of st root q")
      case None
      then have "q \<noteq> p" using t by auto
      with None tg False show ?thesis by (simp add: entry_at_def)
    next
      case (Some t')
      have "t' \<noteq> pa" using tree_wf_used [OF wf q Some] new by blast
      moreover have "t' = t \<Longrightarrow> q = p" using tree_wf_inj [OF wf q p] Some t by simp
      ultimately show ?thesis using Some tg False t e(1) rd' by (auto simp: entry_at_def)
    qed
  qed
qed

definition mid_ok :: "u64 \<Rightarrow> bool" where
  "mid_ok f \<longleftrightarrow> present f \<and> \<not> huge f \<and> page_base f = 0"

lemma present_OR [simp]: "present (a OR b) \<longleftrightarrow> present a \<or> present b"
  by (simp add: present_def PTE_PRESENT_def bit.conj_disj_distrib2 or_eq_0_iff)

lemma huge_OR [simp]: "huge (a OR b) \<longleftrightarrow> huge a \<or> huge b"
  by (simp add: huge_def bit.conj_disj_distrib2 or_eq_0_iff)

lemma aligned_not_huge: "pa AND 0xFFF = 0 \<Longrightarrow> \<not> huge pa"
proof -
  assume a: "pa AND 0xFFF = 0"
  have "pa AND PTE_PS = pa AND 0xFFF AND PTE_PS" by (simp add: PTE_PS_def and.assoc)
  also have "\<dots> = 0" using a by (simp add: and.assoc [symmetric])
  finally show ?thesis by (simp add: huge_def)
qed

lemma get_or_create_spec:
  assumes wf: "tree_wf st root" and pi: "pi = p @ [i]" and ppi: "path_ok pi" and t: "table_of st root p = Some t"
    and f: "mid_ok f" and h: "\<And>e. entry_at st root p i = Some e \<Longrightarrow> \<not> huge e"
    and g: "get_or_create t i f st = Some (st', u)"
  shows "tree_wf st' root" and "table_of st' root pi = Some u"
    and "\<exists>e'. \<not> huge e' \<and> (\<forall>q j. path_ok q \<longrightarrow> j < 512 \<longrightarrow> entry_at st' root q j =
      (if q = p \<and> j = i \<and> entry_at st root p i = None then Some e' else entry_at st root q j))"
    and "kernel_cr3 st' = kernel_cr3 st" and "vavail st' \<subseteq> vavail st"
    and "\<forall>q x. path_ok q \<longrightarrow> table_of st' root q = Some x \<longrightarrow> table_of st root q = Some x \<or> x \<in> vavail st"
    and "\<forall>x. x \<notin> vavail st \<longrightarrow> x \<noteq> t \<longrightarrow> pmem st' x = pmem st x"
proof -
  have p: "path_ok (p @ [i])" using pi ppi by simp
  have pp: "path_ok p" and i: "i < 512" using p by (simp_all add: path_ok_snoc)
  have "tree_wf st' root \<and> table_of st' root (p @ [i]) = Some u \<and>
    (\<exists>e'. \<not> huge e' \<and> (\<forall>q j. path_ok q \<longrightarrow> j < 512 \<longrightarrow> entry_at st' root q j =
      (if q = p \<and> j = i \<and> entry_at st root p i = None then Some e' else entry_at st root q j))) \<and>
    kernel_cr3 st' = kernel_cr3 st \<and> vavail st' \<subseteq> vavail st \<and>
    (\<forall>q x. path_ok q \<longrightarrow> table_of st' root q = Some x \<longrightarrow> table_of st root q = Some x \<or> x \<in> vavail st) \<and>
    (\<forall>x. x \<notin> vavail st \<longrightarrow> x \<noteq> t \<longrightarrow> pmem st' x = pmem st x)"
  proof (cases "present (rd t i st)")
    case True
    then have e: "entry_at st root p i = Some (rd t i st)" using t by (simp add: entry_at_def)
    have "st' = st" "u = page_base (rd t i st)"
      using g True by (auto simp: get_or_create_def present_def)
    with wf e h [OF e] show ?thesis by (auto simp: table_of_snoc intro: exI [of _ 0] simp: huge_def)
  next
    case False
    from g False obtain st1 pa where a: "take_frame st = Some (st1, pa)"
      and st': "st' = wr t i (pa OR f) (put_page pa zero_page st1)" and u: "u = page_base (rd t i st')"
      by (auto simp: get_or_create_def alloc_table_def present_def bind_eq_Some_conv)
    note tf = take_frame_SomeD [OF a]
    let ?e = "pa OR f"
    have e: "present ?e" "\<not> huge ?e" "page_base ?e = pa"
      using f tf(5) by (simp_all add: mid_ok_def page_base_OR aligned_not_huge)
    have rd': "rd t' j st' = (if t' = t \<and> j = i then ?e else if t' = pa then 0 else rd t' j st)" for t' j
      by (simp add: st' rd_wr rd_put_page tf(6) zero_page_def)
    note tg = table_grow [OF wf pp t tf(1) False e rd'] and eg = entry_grow [OF wf pp t tf(1) False e rd']
    have av: "vavail st' = vavail st - {pa}" by (simp add: st' tf(2))
    have old: "table_of st root q \<noteq> Some pa" if "path_ok q" for q
      using tree_wf_used [OF wf that] tf(1) by blast
    have none: "entry_at st root p i = None" using False t by (simp add: entry_at_def)
    have rootpa: "root \<noteq> pa" using old [of "[]"] by simp
    have "tree_wf st' root"
      unfolding tree_wf_def
    proof (intro conjI allI impI)
      fix p' q' t'
      assume "path_ok p'" "path_ok q'" "table_of st' root p' = Some t'" "table_of st' root q' = Some t'"
      then show "p' = q'" using old tree_wf_inj [OF wf] by (auto simp: tg split: if_splits)
    next
      fix p' t'
      assume "path_ok p'" "table_of st' root p' = Some t'"
      then show "t' \<notin> vavail st'" using tree_wf_used [OF wf] by (auto simp: tg av split: if_splits)
    next
      show "page_base root = root" using wf by (simp add: tree_wf_def)
    next
      fix k :: nat
      assume "k < 512" "present (rd root k st')"
      then show "\<not> huge (rd root k st')"
        using wf e(2) rootpa by (auto simp: rd' tree_wf_def split: if_splits)
    qed
    moreover have "table_of st' root (p @ [i]) = Some u"
      using tg [OF p] by (simp add: u rd' e(3))
    moreover have "\<not> huge ?e \<and> (\<forall>q j. path_ok q \<longrightarrow> j < 512 \<longrightarrow> entry_at st' root q j =
      (if q = p \<and> j = i \<and> entry_at st root p i = None then Some ?e else entry_at st root q j))"
      using eg e(2) none by simp
    moreover have "kernel_cr3 st' = kernel_cr3 st" by (simp add: st' tf(4))
    moreover have "\<forall>q x. path_ok q \<longrightarrow> table_of st' root q = Some x \<longrightarrow>
        table_of st root q = Some x \<or> x \<in> vavail st"
      using tf(1) by (auto simp: tg split: if_splits)
    moreover have "\<forall>x. x \<notin> vavail st \<longrightarrow> x \<noteq> t \<longrightarrow> pmem st' x = pmem st x"
      using tf(1,3) by (auto simp: st' wr_def put_page_def)
    ultimately show ?thesis using av by blast
  qed
  then show "tree_wf st' root" "table_of st' root pi = Some u"
    "\<exists>e'. \<not> huge e' \<and> (\<forall>q j. path_ok q \<longrightarrow> j < 512 \<longrightarrow> entry_at st' root q j =
      (if q = p \<and> j = i \<and> entry_at st root p i = None then Some e' else entry_at st root q j))"
    "kernel_cr3 st' = kernel_cr3 st" "vavail st' \<subseteq> vavail st"
    "\<forall>q x. path_ok q \<longrightarrow> table_of st' root q = Some x \<longrightarrow> table_of st root q = Some x \<or> x \<in> vavail st"
    "\<forall>x. x \<notin> vavail st \<longrightarrow> x \<noteq> t \<longrightarrow> pmem st' x = pmem st x"
    unfolding pi by blast+
qed

section \<open>Mapping a page\<close>

definition va_path :: "u64 \<Rightarrow> nat list" where
  "va_path va = [pt_idx 39 va, pt_idx 30 va, pt_idx 21 va]"

text \<open>The translation reads only present entries along the path of the address.\<close>

lemma present_huge_iff:
  "e AND PTE_PRESENT = 0 \<longleftrightarrow> \<not> present e" "e AND PTE_PS = 0 \<longleftrightarrow> \<not> huge e"
  by (simp_all add: present_def huge_def)

lemma virt_to_phys_entries:
  assumes "page_base cr3 = cr3" and "\<forall>i < 512. present (rd cr3 i st) \<longrightarrow> \<not> huge (rd cr3 i st)"
  shows "virt_to_phys cr3 va st =
    (case entry_at st cr3 [] (pt_idx 39 va) of None \<Rightarrow> None | Some _ \<Rightarrow>
     (case entry_at st cr3 [pt_idx 39 va] (pt_idx 30 va) of None \<Rightarrow> None | Some e3 \<Rightarrow>
      if huge e3 then Some ((e3 AND NOT 0x3FFFFFFF) OR (va AND 0x3FFFFFFF)) else
      (case entry_at st cr3 [pt_idx 39 va, pt_idx 30 va] (pt_idx 21 va) of None \<Rightarrow> None | Some e2 \<Rightarrow>
       if huge e2 then Some ((e2 AND NOT 0x1FFFFF) OR (va AND 0x1FFFFF)) else
       (case entry_at st cr3 (va_path va) (pt_idx 12 va) of None \<Rightarrow> None | Some e1 \<Rightarrow>
        Some (page_base e1 OR (va AND 0xFFF))))))"
proof -
  have "\<not> huge (rd cr3 (pt_idx 39 va) st)" if "present (rd cr3 (pt_idx 39 va) st)"
    using assms(2) that by simp
  then show ?thesis
    by (simp add: virt_to_phys_def entry_at_def va_path_def Let_def assms(1) present_huge_iff)
qed

text \<open>No entry on the way to \<open>va\<close> is a large page.\<close>

definition small_path :: "u64 \<Rightarrow> u64 \<Rightarrow> vm \<Rightarrow> bool" where
  "small_path root va st \<longleftrightarrow>
     (\<forall>e. entry_at st root [pt_idx 39 va] (pt_idx 30 va) = Some e \<longrightarrow> \<not> huge e) \<and>
     (\<forall>e. entry_at st root [pt_idx 39 va, pt_idx 30 va] (pt_idx 21 va) = Some e \<longrightarrow> \<not> huge e)"

lemma mid_flags_ok: "mid_ok (PTE_PRESENT OR PTE_WRITABLE OR PTE_USER)"
  by (simp add: mid_ok_def present_def huge_def page_base_def PTE_PRESENT_def PTE_WRITABLE_def PTE_USER_def
      PTE_PS_def)

lemma path_ok_va [simp]:
  "path_ok [pt_idx 39 va]" "path_ok [pt_idx 39 va, pt_idx 30 va]" "path_ok (va_path va)"
  by (simp_all add: path_ok_def va_path_def)

text \<open>Changing a leaf entry of a lowest-level table.\<close>

lemma leaf_write:
  assumes wf: "tree_wf st root" and p: "path_ok p" "length p = 3" and t: "table_of st root p = Some t"
    and q: "path_ok q"
  shows "table_of (wr t i v st) root q = table_of st root q"
    and "entry_at (wr t i v st) root q j =
      (if q = p \<and> j = i then if present v then Some v else None else entry_at st root q j)"
proof -
  have tab: "table_of (wr t i v st) root q = table_of st root q" if "path_ok q" for q
    using that
  proof (induction q rule: rev_induct)
    case (snoc k q)
    then have q: "path_ok q" "length q \<le> 2" by (simp_all add: path_ok_snoc)
    have "t' \<noteq> t" if "table_of st root q = Some t'" for t'
      using tree_wf_inj [OF wf q(1) p(1) that] t q(2) p(2) by fastforce
    then show ?case using snoc.IH [OF q(1)]
      by (auto simp: table_of_snoc entry_at_def rd_wr split: option.splits)
  qed simp
  then show "table_of (wr t i v st) root q = table_of st root q" using q by blast
  have "t' = t \<longleftrightarrow> q = p" if "table_of st root q = Some t'" for t'
    using tree_wf_inj [OF wf q p(1) that] t that by auto
  then show "entry_at (wr t i v st) root q j =
      (if q = p \<and> j = i then if present v then Some v else None else entry_at st root q j)"
    using tab [OF q] t by (auto simp: entry_at_def rd_wr split: option.splits)
qed

lemma leaf_write_wf:
  assumes wf: "tree_wf st root" and p: "path_ok p" "length p = 3" and t: "table_of st root p = Some t"
  shows "tree_wf (wr t i v st) root"
proof -
  have "root \<noteq> t" using tree_wf_inj [OF wf p(1), of "[]"] t p(2) by fastforce
  then have "rd root k (wr t i v st) = rd root k st" for k by (simp add: rd_wr)
  then show ?thesis
    using wf leaf_write(1) [OF wf p t] unfolding tree_wf_def by simp
qed

lemma map_4k_entries:
  assumes wf: "tree_wf st root" and sp: "small_path root va st"
    and m: "map_4k root va pa f st = Some st'"
  shows "tree_wf st' root"
    and "kernel_cr3 st' = kernel_cr3 st" and "vavail st' \<subseteq> vavail st"
    and "entry_at st' root (va_path va) (pt_idx 12 va) = Some (page_base pa OR f OR PTE_PRESENT)"
    and "\<exists>e. entry_at st' root [] (pt_idx 39 va) = Some e"
    and "\<exists>e. entry_at st' root [pt_idx 39 va] (pt_idx 30 va) = Some e \<and> \<not> huge e"
    and "\<exists>e. entry_at st' root [pt_idx 39 va, pt_idx 30 va] (pt_idx 21 va) = Some e \<and> \<not> huge e"
    and "x \<notin> vavail st \<Longrightarrow> \<forall>p. path_ok p \<longrightarrow> table_of st root p \<noteq> Some x \<Longrightarrow> pmem st' x = pmem st x"
    and "path_ok q \<Longrightarrow> j < 512 \<Longrightarrow>
      entry_at st' root q j = entry_at st root q j \<or>
      (q, j) = (va_path va, pt_idx 12 va) \<or>
      (entry_at st root q j = None \<and> (\<exists>e. entry_at st' root q j = Some e \<and> \<not> huge e) \<and>
       q @ [j] \<in> {[pt_idx 39 va], [pt_idx 39 va, pt_idx 30 va], va_path va})"
    and "path_ok q \<Longrightarrow> table_of st' root q = Some y \<Longrightarrow> table_of st root q = Some y \<or> y \<in> vavail st"
proof -
  let ?f = "PTE_PRESENT OR PTE_WRITABLE OR PTE_USER"
  let ?i4 = "pt_idx 39 va" and ?i3 = "pt_idx 30 va" and ?i2 = "pt_idx 21 va" and ?i1 = "pt_idx 12 va"
  from m obtain s1 t3 s2 t2 s3 t1 where g1: "get_or_create root ?i4 ?f st = Some (s1, t3)"
    and g2: "get_or_create t3 ?i3 ?f s1 = Some (s2, t2)" and g3: "get_or_create t2 ?i2 ?f s2 = Some (s3, t1)"
    and st': "st' = wr t1 ?i1 (page_base pa OR f OR PTE_PRESENT) s3"
    by (auto simp: map_4k_def Let_def bind_eq_Some_conv)
  have nh4: "\<And>e. entry_at st root [] ?i4 = Some e \<Longrightarrow> \<not> huge e"
    using wf by (auto simp: tree_wf_def entry_at_def Let_def split: if_splits)
  have x: "[?i4] = [] @ [?i4]" "[?i4, ?i3] = [?i4] @ [?i3]" "va_path va = [?i4, ?i3] @ [?i2]"
    and root: "table_of st root [] = Some root"
    by (simp_all add: va_path_def)
  note r1 = get_or_create_spec [OF wf x(1) path_ok_va(1) root mid_flags_ok nh4 g1]
  from r1(3) obtain e1 where e1: "\<not> huge e1" "\<And>q j. path_ok q \<Longrightarrow> j < 512 \<Longrightarrow> entry_at s1 root q j =
      (if q = [] \<and> j = ?i4 \<and> entry_at st root [] ?i4 = None then Some e1 else entry_at st root q j)" by blast
  have nh3: "\<And>e. entry_at s1 root [?i4] ?i3 = Some e \<Longrightarrow> \<not> huge e"
    using sp e1(2) [of "[?i4]" ?i3] by (simp add: small_path_def)
  note r2 = get_or_create_spec [OF r1(1) x(2) path_ok_va(2) r1(2) mid_flags_ok nh3 g2]
  from r2(3) obtain e2 where e2: "\<not> huge e2" "\<And>q j. path_ok q \<Longrightarrow> j < 512 \<Longrightarrow> entry_at s2 root q j =
      (if q = [?i4] \<and> j = ?i3 \<and> entry_at s1 root [?i4] ?i3 = None then Some e2 else entry_at s1 root q j)" by blast
  have nh2: "\<And>e. entry_at s2 root [?i4, ?i3] ?i2 = Some e \<Longrightarrow> \<not> huge e"
    using sp e1(2) [of "[?i4, ?i3]" ?i2] e2(2) [of "[?i4, ?i3]" ?i2] by (simp add: small_path_def)
  note r3 = get_or_create_spec [OF r2(1) x(3) path_ok_va(3) r2(2) mid_flags_ok nh2 g3]
  from r3(3) obtain e3 where e3: "\<not> huge e3" "\<And>q j. path_ok q \<Longrightarrow> j < 512 \<Longrightarrow> entry_at s3 root q j =
      (if q = [?i4, ?i3] \<and> j = ?i2 \<and> entry_at s2 root [?i4, ?i3] ?i2 = None then Some e3 else entry_at s2 root q j)"
    by blast
  have t1: "table_of s3 root (va_path va) = Some t1" by (rule r3(2))
  have len: "length (va_path va) = 3" by (simp add: va_path_def)
  let ?v = "page_base pa OR f OR PTE_PRESENT"
  have "present PTE_PRESENT" by (simp add: present_def PTE_PRESENT_def)
  then have pv: "present ?v" by simp
  have E: "entry_at st' root q j = (if q = va_path va \<and> j = ?i1 then Some ?v else entry_at s3 root q j)"
    if "path_ok q" for q j
    using leaf_write(2) [OF r3(1) path_ok_va(3) len t1 that] pv by (simp add: st')
  show "tree_wf st' root" unfolding st' by (rule leaf_write_wf [OF r3(1) path_ok_va(3) len t1])
  show "kernel_cr3 st' = kernel_cr3 st" "vavail st' \<subseteq> vavail st"
    using r1(4,5) r2(4,5) r3(4,5) by (auto simp: st')
  show "entry_at st' root (va_path va) ?i1 = Some ?v" by (simp add: E)
  have nv: "[] \<noteq> va_path va" "[?i4] \<noteq> va_path va" "[?i4, ?i3] \<noteq> va_path va"
    by (simp_all add: va_path_def)
  show "\<exists>e. entry_at st' root [] ?i4 = Some e"
    using nv by (auto simp: E e3(2) e2(2) e1(2))
  show "\<exists>e. entry_at st' root [?i4] ?i3 = Some e \<and> \<not> huge e"
    using nv nh3 e2(1) by (auto simp: E e3(2) e2(2))
  show "\<exists>e. entry_at st' root [?i4, ?i3] ?i2 = Some e \<and> \<not> huge e"
    using nv nh2 e3(1) by (auto simp: E e3(2))
  show "table_of st root q = Some y \<or> y \<in> vavail st" if "path_ok q" "table_of st' root q = Some y"
  proof -
    have "table_of s3 root q = Some y" using that leaf_write(1) [OF r3(1) path_ok_va(3) len t1] by (simp add: st')
    then show ?thesis using that(1) r1(5,6) r2(5,6) r3(6) by blast
  qed
  show "pmem st' x = pmem st x" if x: "x \<notin> vavail st" "\<forall>p. path_ok p \<longrightarrow> table_of st root p \<noteq> Some x"
  proof -
    have n1: "\<forall>p. path_ok p \<longrightarrow> table_of s1 root p \<noteq> Some x" and a1: "x \<notin> vavail s1"
      using r1(5,6) x by blast+
    have n2: "\<forall>p. path_ok p \<longrightarrow> table_of s2 root p \<noteq> Some x" and a2: "x \<notin> vavail s2"
      using r2(5,6) n1 a1 by blast+
    have n3: "\<forall>p. path_ok p \<longrightarrow> table_of s3 root p \<noteq> Some x"
      using r3(6) n2 a2 by blast
    have "x \<noteq> root" using x(2) root by (metis path_ok_Nil)
    moreover have "x \<noteq> t3" using n1 r1(2) path_ok_va(1) by blast
    moreover have "x \<noteq> t2" using n2 r2(2) path_ok_va(2) by blast
    moreover have "x \<noteq> t1" using n3 t1 path_ok_va(3) by blast
    ultimately show ?thesis using r1(7) r2(7) r3(7) x(1) a1 a2 by (simp add: st' wr_def)
  qed
  show "entry_at st' root q j = entry_at st root q j \<or> (q, j) = (va_path va, ?i1) \<or>
      (entry_at st root q j = None \<and> (\<exists>e. entry_at st' root q j = Some e \<and> \<not> huge e) \<and>
       q @ [j] \<in> {[?i4], [?i4, ?i3], va_path va})" if "path_ok q" "j < 512"
    using that nv e1(1) e2(1) e3(1) by (auto simp: E e3(2) e2(2) e1(2) va_path_def)
qed

text \<open>Every table after a mapping was a table before or a free frame.\<close>

lemma map_4k_tables:
  assumes wf: "tree_wf st root" and sp: "small_path root va st" and m: "map_4k root va pa f st = Some st'"
    and "path_ok q" and "table_of st' root q = Some x"
  shows "(\<exists>p. path_ok p \<and> table_of st root p = Some x) \<or> x \<in> vavail st"
  using map_4k_entries(10) [OF wf sp m assms(4) assms(5)] assms(4) by blast

definition same_page :: "u64 \<Rightarrow> u64 \<Rightarrow> bool" where
  "same_page va va' \<longleftrightarrow> va_path va' = va_path va \<and> pt_idx 12 va' = pt_idx 12 va"

lemma page_base_simps [simp]:
  "page_base (a OR b) = page_base a OR page_base b" "page_base (page_base a) = page_base a"
  "page_base PTE_PRESENT = 0" "page_base PTE_WRITABLE = 0" "page_base PTE_USER = 0" "page_base 0 = 0"
  by (simp_all add: page_base_def bit.conj_disj_distrib2 and.assoc PTE_PRESENT_def PTE_WRITABLE_def PTE_USER_def)

lemma page_base_aligned: "pa AND 0xFFF = 0 \<Longrightarrow> page_base pa = pa"
  using page_base_OR [of pa 0] by (simp add: page_base_def)

text \<open>A walk whose entries only change from absent to a small table with nothing new below it.\<close>

lemma walk_unchanged:
  assumes "A' = A \<or> A = None" and "B' = B \<or> B = None \<and> (\<exists>e. B' = Some e \<and> \<not> huge e)"
    and "C' = C \<or> C = None \<and> (\<exists>e. C' = Some e \<and> \<not> huge e)" and "D' = D"
    and "A = None \<Longrightarrow> B = None" and "B = None \<Longrightarrow> C = None" and "C = None \<Longrightarrow> D = None"
  shows "(case A' of None \<Rightarrow> None | Some _ \<Rightarrow> (case B' of None \<Rightarrow> None | Some e3 \<Rightarrow>
      if huge e3 then h3 e3 else (case C' of None \<Rightarrow> None | Some e2 \<Rightarrow>
       if huge e2 then h2 e2 else (case D' of None \<Rightarrow> None | Some e1 \<Rightarrow> h1 e1)))) =
    (case A of None \<Rightarrow> None | Some _ \<Rightarrow> (case B of None \<Rightarrow> None | Some e3 \<Rightarrow>
      if huge e3 then h3 e3 else (case C of None \<Rightarrow> None | Some e2 \<Rightarrow>
       if huge e2 then h2 e2 else (case D of None \<Rightarrow> None | Some e1 \<Rightarrow> h1 e1))))"
  using assms by (cases A; cases B; cases C; cases D; cases A') auto

lemma map_4k_translation:
  assumes wf: "tree_wf st root" and sp: "small_path root va st" and f: "page_base f = 0"
    and m: "map_4k root va pa f st = Some st'"
  shows "virt_to_phys root va' st' =
    (if same_page va va' then Some (page_base pa OR (va' AND 0xFFF)) else virt_to_phys root va' st)"
proof -
  note r = map_4k_entries [OF wf sp m]
  have v: "page_base root = root" "\<forall>i < 512. present (rd root i st) \<longrightarrow> \<not> huge (rd root i st)"
    "\<forall>i < 512. present (rd root i st') \<longrightarrow> \<not> huge (rd root i st')"
    using wf r(1) by (simp_all add: tree_wf_def)
  note old = virt_to_phys_entries [OF v(1,2)] and new = virt_to_phys_entries [OF v(1,3)]
  show ?thesis
  proof (cases "same_page va va'")
    case True
    then have i: "pt_idx 39 va' = pt_idx 39 va" "pt_idx 30 va' = pt_idx 30 va" "pt_idx 21 va' = pt_idx 21 va"
      "pt_idx 12 va' = pt_idx 12 va" "va_path va' = va_path va"
      by (auto simp: same_page_def va_path_def)
    show ?thesis using r(4-7) True by (auto simp: new i f)
  next
    case False
    let ?i4 = "pt_idx 39 va'" and ?i3 = "pt_idx 30 va'" and ?i2 = "pt_idx 21 va'" and ?i1 = "pt_idx 12 va'"
    have ch: "entry_at st' root q j = entry_at st root q j \<or>
      (entry_at st root q j = None \<and> (\<exists>e. entry_at st' root q j = Some e \<and> \<not> huge e))"
      if "path_ok q" "j < 512" "(q, j) \<noteq> (va_path va, pt_idx 12 va)" for q j
      using r(9) [OF that(1,2)] that(3) by blast
    have nv: "[] \<noteq> va_path va" "[?i4] \<noteq> va_path va" "[?i4, ?i3] \<noteq> va_path va"
      by (simp_all add: va_path_def)
    have a: "entry_at st' root [] ?i4 = entry_at st root [] ?i4 \<or>
        entry_at st root [] ?i4 = None" using ch [of "[]" ?i4] nv by auto
    have b: "entry_at st' root [?i4] ?i3 = entry_at st root [?i4] ?i3 \<or>
        entry_at st root [?i4] ?i3 = None \<and> (\<exists>e. entry_at st' root [?i4] ?i3 = Some e \<and> \<not> huge e)"
      using ch [of "[?i4]" ?i3] nv by auto
    have c: "entry_at st' root [?i4, ?i3] ?i2 = entry_at st root [?i4, ?i3] ?i2 \<or>
        entry_at st root [?i4, ?i3] ?i2 = None \<and> (\<exists>e. entry_at st' root [?i4, ?i3] ?i2 = Some e \<and> \<not> huge e)"
      using ch [of "[?i4, ?i3]" ?i2] nv by auto
    have d: "entry_at st' root (va_path va') ?i1 = entry_at st root (va_path va') ?i1"
      using r(9) [OF path_ok_va(3) [of va'] pt_idx_less [of 12 va']] False
      by (auto simp: same_page_def va_path_def)
    have n: "entry_at st root [] ?i4 = None \<Longrightarrow> entry_at st root [?i4] ?i3 = None"
      "entry_at st root [?i4] ?i3 = None \<Longrightarrow> entry_at st root [?i4, ?i3] ?i2 = None"
      "entry_at st root [?i4, ?i3] ?i2 = None \<Longrightarrow> entry_at st root (va_path va') ?i1 = None"
      using entry_at_below_None [of st root "[]" ?i4 ?i3] entry_at_below_None [of st root "[?i4]" ?i3 ?i2]
        entry_at_below_None [of st root "[?i4, ?i3]" ?i2 ?i1]
      by (simp_all add: va_path_def)
    have "virt_to_phys root va' st' = virt_to_phys root va' st"
      unfolding old new using a b c d n by (rule walk_unchanged)
    with False show ?thesis by simp
  qed
qed

lemma finite_vavail [simp]: "finite (vavail st)"
  by (simp add: vavail_def frame_avail_def)

lemma take_frame_total: "vavail st \<noteq> {} \<Longrightarrow> \<exists>st' pa. take_frame st = Some (st', pa)"
  using fa.acquire_progress [of "frames st"] by (auto simp: vavail_def take_frame_def)

lemma get_or_create_total:
  assumes "n < card (vavail st)"
  shows "\<exists>st' u. get_or_create t i f st = Some (st', u) \<and> n \<le> card (vavail st')"
proof (cases "present (rd t i st)")
  case True
  with assms show ?thesis by (simp add: get_or_create_def present_huge_iff)
next
  case False
  have "vavail st \<noteq> {}" using assms by auto
  then obtain st1 pa where a: "take_frame st = Some (st1, pa)" using take_frame_total by blast
  note tf = take_frame_SomeD [OF a]
  have "n \<le> card (vavail st1)" using tf(1,2) assms by simp
  with a False show ?thesis by (simp add: get_or_create_def present_huge_iff alloc_table_def)
qed

lemma map_4k_progress:
  assumes "n + 3 \<le> card (vavail st)"
  shows "\<exists>st'. map_4k root va pa f st = Some st' \<and> n \<le> card (vavail st')"
proof -
  let ?f = "PTE_PRESENT OR PTE_WRITABLE OR PTE_USER"
  obtain s1 t3 where g1: "get_or_create root (pt_idx 39 va) ?f st = Some (s1, t3)" "n + 2 \<le> card (vavail s1)"
    using get_or_create_total [of "n + 2" st root "pt_idx 39 va" ?f] assms by auto
  obtain s2 t2 where g2: "get_or_create t3 (pt_idx 30 va) ?f s1 = Some (s2, t2)" "n + 1 \<le> card (vavail s2)"
    using get_or_create_total [of "n + 1" s1 t3 "pt_idx 30 va" ?f] g1(2) by auto
  obtain s3 t1 where g3: "get_or_create t2 (pt_idx 21 va) ?f s2 = Some (s3, t1)" "n \<le> card (vavail s3)"
    using get_or_create_total [of n s2 t2 "pt_idx 21 va" ?f] g2(2) by auto
  from g1 g2 g3 show ?thesis by (simp add: map_4k_def Let_def)
qed

lemma map_4k_total:
  assumes "3 \<le> card (vavail st)"
  shows "\<exists>st'. map_4k root va pa f st = Some st'"
  using map_4k_progress [of 0 st root va pa f] assms by auto

section \<open>A concrete machine\<close>

text \<open>Zeroed memory, frame 1 as the root, frames 2 to 63 free: the state of the witnesses.\<close>

definition demo_vm :: vm where
  "demo_vm = \<lparr>pmem = (\<lambda>_. zero_page),
     frames = \<lparr>BITMAP = (\<lambda>w. if w = 0 then NOT (mask 2) else 0), FREE_FRAMES = 62, TOTAL_USABLE = 64\<rparr>,
     kernel_cr3 = 0x1000, ro_channel_slot = 0\<rparr>"

lemma demo_vm_free: "free_set (frames demo_vm) = {2..<64}"
proof -
  have b: "bit (BITMAP (frames demo_vm) (f div 64)) (f mod 64) \<longleftrightarrow> 2 \<le> f \<and> f < 64" for f :: nat
  proof (cases "f < 64")
    case True
    then show ?thesis by (simp add: demo_vm_def bit_simps not_less)
  next
    case False
    then have "f div 64 \<noteq> 0" by simp
    with False show ?thesis by (simp add: demo_vm_def)
  qed
  show ?thesis unfolding free_set_def b by (auto simp: frame_consts)
qed

lemma demo_vm_avail: "vavail demo_vm = frame_addr ` {2..<64}"
  by (simp add: vavail_def frame_avail_def demo_vm_free)

lemma demo_vm_card: "card (vavail demo_vm) = 62"
  using frame_avail_card [of "frames demo_vm"] by (simp add: vavail_def demo_vm_free)

lemma demo_vm_wf: "tree_wf demo_vm 0x1000" and demo_vm_small: "small_path 0x1000 va demo_vm"
proof -
  have rd: "rd t j demo_vm = 0" for t j by (simp add: rd_def demo_vm_def zero_page_def)
  have z: "\<not> present 0" by (simp add: present_def)
  have t: "table_of demo_vm 0x1000 p = Some t \<longleftrightarrow> p = [] \<and> t = 0x1000" for p t
    by (cases p) (auto simp: rd z)
  have "f = 1" if "f < MAX_FRAMES" "0x1000 = frame_addr f" for f
    using that frame_addr_inject [of 1 f] by (simp add: frame_addr_def frame_consts)
  then have "f < 64 \<Longrightarrow> 0x1000 = frame_addr f \<Longrightarrow> f = 1" for f
    by (simp add: frame_consts)
  then have "0x1000 \<notin> vavail demo_vm"
    unfolding demo_vm_avail by fastforce
  then show "tree_wf demo_vm 0x1000" by (simp add: tree_wf_def t rd z page_base_def)
  show "small_path 0x1000 va demo_vm" by (simp add: small_path_def entry_at_def rd z)
qed

section \<open>Properties\<close>

text \<open>C8: Mapping a page changes the translation of exactly that page: afterwards every address of the
  page translates into the mapped frame at the same offset, every other address translates as
  before, and the tables still form a tree of frames that are not free.\<close>

theorem map_4k_translates:
  assumes "tree_wf st root" and "small_path root va st" and "page_base f = 0"
    and "map_4k root va pa f st = Some st'"
  shows "tree_wf st' root \<and>
    (\<forall>va'. virt_to_phys root va' st' =
      (if same_page va va' then Some (page_base pa OR (va' AND 0xFFF)) else virt_to_phys root va' st))"
  using map_4k_translation [OF assms] map_4k_entries(1) [OF assms(1,2,4)] by blast

theorem map_4k_translates_witness:
  "\<exists>st'. map_4k 0x1000 0x400000 0x5000 PTE_USER demo_vm = Some st' \<and>
    virt_to_phys 0x1000 0x400123 st' = Some 0x5123"
proof -
  obtain st' where m: "map_4k 0x1000 0x400000 0x5000 PTE_USER demo_vm = Some st'"
    using map_4k_total [of demo_vm "0x1000" "0x400000" "0x5000" PTE_USER] by (auto simp: demo_vm_card)
  have "same_page 0x400000 0x400123" by (simp add: same_page_def va_path_def pt_idx_def)
  moreover have "page_base PTE_USER = 0" by simp
  ultimately show ?thesis
    using map_4k_translates [OF demo_vm_wf demo_vm_small _ m] m by (simp add: page_base_def)
qed

lemma take_frame_tree:
  assumes "tree_wf st root" and a: "take_frame st = Some (st1, pa)"
  shows "tree_wf (put_page pa p st1) root"
    and "\<And>q. path_ok q \<Longrightarrow> table_of (put_page pa p st1) root q = table_of st root q"
    and "\<And>q j. path_ok q \<Longrightarrow> entry_at (put_page pa p st1) root q j = entry_at st root q j"
    and "\<And>q. path_ok q \<Longrightarrow> table_of st root q \<noteq> Some pa"
proof -
  note tf = take_frame_SomeD [OF a]
  show np: "\<And>q. path_ok q \<Longrightarrow> table_of st root q \<noteq> Some pa"
    using tree_wf_used [OF assms(1)] tf(1) by blast
  have rd': "rd t j (put_page pa p st1) = rd t j st" if "t \<noteq> pa" for t j
    using that by (simp add: rd_put_page tf(6))
  have e: "entry_at (put_page pa p st1) root q j = entry_at st root q j"
    if "path_ok q" "table_of (put_page pa p st1) root q = table_of st root q" for q j
    using that np [OF that(1)] rd' by (cases "table_of st root q") (auto simp: entry_at_def Let_def)
  show t: "table_of (put_page pa p st1) root q = table_of st root q" if "path_ok q" for q
    using that
  proof (induction q rule: rev_induct)
    case (snoc j q)
    then show ?case using e [of q j] by (simp add: table_of_snoc path_ok_snoc)
  qed simp
  then show "\<And>q j. path_ok q \<Longrightarrow> entry_at (put_page pa p st1) root q j = entry_at st root q j"
    using e by blast
  have "root \<noteq> pa" using np [of "[]"] by simp
  then show "tree_wf (put_page pa p st1) root"
    using assms(1) t rd' unfolding tree_wf_def by (auto simp: tf(2))
qed

lemma virt_to_phys_cong:
  assumes "tree_wf st root" and "tree_wf st' root"
    and "\<And>q j. path_ok q \<Longrightarrow> j < 512 \<Longrightarrow> entry_at st' root q j = entry_at st root q j"
  shows "virt_to_phys root va st' = virt_to_phys root va st"
proof -
  have v: "page_base root = root" "\<forall>i < 512. present (rd root i st) \<longrightarrow> \<not> huge (rd root i st)"
    "\<forall>i < 512. present (rd root i st') \<longrightarrow> \<not> huge (rd root i st')"
    using assms(1,2) by (simp_all add: tree_wf_def)
  have "entry_at st' root [] (pt_idx 39 va) = entry_at st root [] (pt_idx 39 va)"
    "entry_at st' root [pt_idx 39 va] (pt_idx 30 va) = entry_at st root [pt_idx 39 va] (pt_idx 30 va)"
    "entry_at st' root [pt_idx 39 va, pt_idx 30 va] (pt_idx 21 va) =
      entry_at st root [pt_idx 39 va, pt_idx 30 va] (pt_idx 21 va)"
    "entry_at st' root (va_path va) (pt_idx 12 va) = entry_at st root (va_path va) (pt_idx 12 va)"
    by (rule assms(3); simp)+
  then show ?thesis
    unfolding virt_to_phys_entries [OF v(1,2)] virt_to_phys_entries [OF v(1,3)] by (simp only:)
qed

text \<open>Demand paging: the fault handler's allocation maps the faulting page to a frame that was free,
  filled with zeroes and in use by no table, and changes no other translation.\<close>

theorem demand_alloc_page_fresh:
  assumes wf: "tree_wf st root" and sp: "small_path root va st"
    and d: "demand_alloc_page root va w st = Some st'"
  shows "\<exists>phys \<in> vavail st. phys \<notin> vavail st' \<and> pmem st' phys = zero_page \<and> tree_wf st' root \<and>
    (\<forall>va'. virt_to_phys root va' st' =
      (if same_page va va' then Some (phys OR (va' AND 0xFFF)) else virt_to_phys root va' st))"
proof -
  let ?f = "PTE_USER OR (if w then PTE_WRITABLE else 0)"
  have r: "page_base root = root" using wf by (simp add: tree_wf_def)
  from d obtain st1 phys where t: "take_frame st = Some (st1, phys)"
    and m: "map_4k root va phys ?f (put_page phys zero_page st1) = Some st'"
    by (auto simp: demand_alloc_page_def r Let_def bind_eq_Some_conv)
  let ?s = "put_page phys zero_page st1"
  note tf = take_frame_SomeD [OF t] and tt = take_frame_tree(1-3) [OF wf t, where p = zero_page]
    and tn = take_frame_tree(4) [OF wf t]
  have sp': "small_path root va ?s"
    using sp tt(3) [OF path_ok_va(1)] tt(3) [OF path_ok_va(2)] by (simp add: small_path_def)
  have f: "page_base ?f = 0" by simp
  note me = map_4k_entries [OF tt(1) sp' m]
  have av: "phys \<notin> vavail ?s" by (simp add: tf(2))
  have "pmem st' phys = pmem ?s phys"
    by (rule me(8) [OF av]) (simp add: tt(2) tn)
  then have z: "pmem st' phys = zero_page" by (simp add: put_page_def)
  have pb: "page_base phys = phys" using tf(5) by (rule page_base_aligned)
  have v: "virt_to_phys root va' ?s = virt_to_phys root va' st" for va'
    using virt_to_phys_cong [OF wf tt(1)] tt(3) by blast
  show ?thesis
    using map_4k_translation [OF tt(1) sp' f m] me(1,3) z tf(1) av
    by (intro bexI [of _ phys]) (auto simp: v pb)
qed

theorem demand_alloc_page_fresh_witness:
  "\<exists>st'. demand_alloc_page 0x1000 0x400000 True demo_vm = Some st' \<and>
    (\<exists>phys. virt_to_phys 0x1000 0x400123 st' = Some (phys OR 0x123) \<and> pmem st' phys = zero_page)"
proof -
  have "vavail demo_vm \<noteq> {}" using demo_vm_card by fastforce
  then obtain s1 phys where t: "take_frame demo_vm = Some (s1, phys)" using take_frame_total by blast
  have "card (vavail (put_page phys zero_page s1)) = 61"
    using take_frame_SomeD(1,2) [OF t] demo_vm_card by simp
  then obtain st' where "map_4k 0x1000 0x400000 phys (PTE_USER OR PTE_WRITABLE) (put_page phys zero_page s1) = Some st'"
    using map_4k_total [of "put_page phys zero_page s1"] by (metis (no_types) numeral_le_iff semiring_norm(68,69,70,71,72,73))
  then have d: "demand_alloc_page 0x1000 0x400000 True demo_vm = Some st'"
    by (simp add: demand_alloc_page_def t Let_def page_base_def)
  have "same_page 0x400000 0x400123" by (simp add: same_page_def va_path_def pt_idx_def)
  with demand_alloc_page_fresh [OF demo_vm_wf demo_vm_small d] d show ?thesis by force
qed

lemma pte_slot_table:
  assumes wf: "tree_wf st root" and sp: "small_path root va st"
  shows "pte_slot root va st = (case table_of st root (va_path va) of None \<Rightarrow> None | Some t \<Rightarrow> Some (t, pt_idx 12 va))"
proof -
  let ?e4 = "rd root (pt_idx 39 va) st"
  let ?e3 = "rd (page_base ?e4) (pt_idx 30 va) st"
  let ?e2 = "rd (page_base ?e3) (pt_idx 21 va) st"
  have b: "page_base root = root" and h4: "present ?e4 \<Longrightarrow> \<not> huge ?e4"
    using wf by (simp_all add: tree_wf_def)
  have h3: "\<not> huge ?e3" if "present ?e4" "present ?e3"
    using sp that h4 by (simp add: small_path_def entry_at_def)
  have h2: "\<not> huge ?e2" if "present ?e4" "present ?e3" "present ?e2"
    using sp that h4 h3 by (simp add: small_path_def entry_at_def)
  show ?thesis
    unfolding pte_slot_def Let_def present_huge_iff b va_path_def
    using h4 h3 h2 by (cases "present ?e4"; cases "present ?e3"; cases "present ?e2") simp_all
qed

text \<open>The leaf entry of an address, and what a write to it does to the translations.\<close>

lemma leaf_write_translation:
  assumes wf: "tree_wf st root" and sp: "small_path root va st" and t: "table_of st root (va_path va) = Some t"
  shows "virt_to_phys root va' (wr t (pt_idx 12 va) v st) =
    (if same_page va va'
     then if present v then Some (page_base v OR (va' AND 0xFFF)) else None
     else virt_to_phys root va' st)"
proof -
  have len: "length (va_path va) = 3" by (simp add: va_path_def)
  let ?s = "wr t (pt_idx 12 va) v st"
  note lw = leaf_write(2) [OF wf path_ok_va(3) len t] and wf' = leaf_write_wf [OF wf path_ok_va(3) len t]
  have v: "page_base root = root" "\<forall>i < 512. present (rd root i st) \<longrightarrow> \<not> huge (rd root i st)"
    "\<forall>i < 512. present (rd root i ?s) \<longrightarrow> \<not> huge (rd root i ?s)"
    using wf wf' [of "pt_idx 12 va" v] by (simp_all add: tree_wf_def)
  have e: "entry_at ?s root [] j = entry_at st root [] j"
    "entry_at ?s root [pt_idx 39 va'] j = entry_at st root [pt_idx 39 va'] j"
    "entry_at ?s root [pt_idx 39 va', pt_idx 30 va'] j = entry_at st root [pt_idx 39 va', pt_idx 30 va'] j"
    "entry_at ?s root (va_path va') j = (if va_path va' = va_path va \<and> j = pt_idx 12 va
      then if present v then Some v else None else entry_at st root (va_path va') j)" for j
    by (subst lw; simp add: va_path_def path_ok_def)+
  show ?thesis
  proof (cases "same_page va va'")
    case False
    then have "entry_at ?s root (va_path va') (pt_idx 12 va') = entry_at st root (va_path va') (pt_idx 12 va')"
      by (auto simp: e same_page_def)
    with False show ?thesis
      unfolding virt_to_phys_entries [OF v(1,2)] virt_to_phys_entries [OF v(1,3)] e(1-3) by (simp only: if_False)
  next
    case True
    then have i: "pt_idx 39 va' = pt_idx 39 va" "pt_idx 30 va' = pt_idx 30 va" "pt_idx 21 va' = pt_idx 21 va"
      "pt_idx 12 va' = pt_idx 12 va" "va_path va' = va_path va"
      by (auto simp: same_page_def va_path_def)
    from t have "\<exists>a. entry_at st root [] (pt_idx 39 va) = Some a"
      "\<exists>b. entry_at st root [pt_idx 39 va] (pt_idx 30 va) = Some b \<and> \<not> huge b"
      "\<exists>c. entry_at st root [pt_idx 39 va, pt_idx 30 va] (pt_idx 21 va) = Some c \<and> \<not> huge c"
      by (auto simp: va_path_def entry_at_def Let_def split: if_splits)
    then show ?thesis
      using True e(4) [unfolded i] unfolding virt_to_phys_entries [OF v(1,3)] i e(1-3) [unfolded i] by auto
  qed
qed

lemma virt_to_phys_table:
  assumes wf: "tree_wf st root" and sp: "small_path root va st" and "virt_to_phys root va st = Some pa"
  shows "\<exists>t. table_of st root (va_path va) = Some t \<and> present (rd t (pt_idx 12 va) st) \<and>
    pa = page_base (rd t (pt_idx 12 va) st) OR (va AND 0xFFF)"
proof -
  have v: "page_base root = root" "\<forall>i < 512. present (rd root i st) \<longrightarrow> \<not> huge (rd root i st)"
    using wf by (simp_all add: tree_wf_def)
  from assms(3) sp obtain e where e: "entry_at st root (va_path va) (pt_idx 12 va) = Some e"
    and pa: "pa = page_base e OR (va AND 0xFFF)"
    unfolding virt_to_phys_entries [OF v] small_path_def by (auto split: option.splits if_splits)
  from e pa show ?thesis by (auto simp: entry_at_def Let_def split: option.splits if_splits)
qed

text \<open>Unmapping a mapped page removes its translation and no other, and gives the frame it was mapped
  to back to the allocator.\<close>

theorem munmap_page_unmaps:
  assumes wf: "tree_wf st root" and sp: "small_path root va st"
    and v: "virt_to_phys root va st = Some pa" and pg: "page_base pa \<in> frame_addr ` {..<MAX_FRAMES}"
  shows "\<exists>st'. munmap_page root va st = Some st' \<and> vavail st' = insert (page_base pa) (vavail st) \<and>
    (\<forall>va'. virt_to_phys root va' st' = (if same_page va va' then None else virt_to_phys root va' st))"
proof -
  obtain t where t: "table_of st root (va_path va) = Some t"
    using virt_to_phys_table [OF wf sp v] by blast
  obtain fr where fr: "free_frame (page_base pa) (frames st) = Some fr"
    and av: "frame_avail fr = insert (page_base pa) (frame_avail (frames st))"
    using fa.release_ok [OF pg] by blast
  let ?s = "st\<lparr>frames := fr\<rparr>"
  have "pte_slot root va ?s = pte_slot root va st" by (simp add: pte_slot_def rd_def Let_def)
  then have slot: "pte_slot root va ?s = Some (t, pt_idx 12 va)"
    using pte_slot_table [OF wf sp] t by simp
  have m: "munmap_page root va st = Some (wr t (pt_idx 12 va) 0 ?s)"
    using v fr slot by (simp add: munmap_page_def page_base_def)
  have eq: "wr t (pt_idx 12 va) 0 ?s = (wr t (pt_idx 12 va) 0 st)\<lparr>frames := fr\<rparr>"
    by (simp add: wr_def)
  have vt: "virt_to_phys root x (y\<lparr>frames := fr\<rparr>) = virt_to_phys root x y" for x y
    by (simp add: virt_to_phys_def rd_def Let_def)
  have "\<not> present 0" by (simp add: present_def)
  then show ?thesis
    using m leaf_write_translation [OF wf sp t, of _ 0] av
    by (simp add: eq vt vavail_def)
qed

lemma demo_mapped:
  "\<exists>st. map_4k 0x1000 0x400000 0x5000 PTE_USER demo_vm = Some st \<and> tree_wf st 0x1000 \<and>
    small_path 0x1000 0x400000 st \<and> virt_to_phys 0x1000 0x400000 st = Some 0x5000"
proof -
  obtain st where m: "map_4k 0x1000 0x400000 0x5000 PTE_USER demo_vm = Some st"
    using map_4k_total [of demo_vm "0x1000" "0x400000" "0x5000" PTE_USER] by (auto simp: demo_vm_card)
  have f: "page_base PTE_USER = 0" by simp
  note me = map_4k_entries [OF demo_vm_wf demo_vm_small m]
  have "small_path 0x1000 0x400000 st" using me(6,7) by (auto simp: small_path_def)
  moreover have "virt_to_phys 0x1000 0x400000 st = Some 0x5000"
    using map_4k_translation [OF demo_vm_wf demo_vm_small f m, of "0x400000"]
    by (simp add: page_base_def same_page_def)
  ultimately show ?thesis using m me(1) by blast
qed

theorem munmap_page_unmaps_witness:
  "\<exists>st st'. virt_to_phys 0x1000 0x400000 st = Some 0x5000 \<and> munmap_page 0x1000 0x400000 st = Some st' \<and>
    virt_to_phys 0x1000 0x400000 st' = None"
proof -
  obtain st where st: "tree_wf st 0x1000" "small_path 0x1000 0x400000 st"
    "virt_to_phys 0x1000 0x400000 st = Some 0x5000"
    using demo_mapped by blast
  have "page_base 0x5000 = frame_addr 5" by (simp add: page_base_def frame_addr_def PAGE_SIZE_def)
  then have "page_base 0x5000 \<in> frame_addr ` {..<MAX_FRAMES}" by (auto simp: frame_consts)
  from munmap_page_unmaps [OF st this] st show ?thesis by (auto simp: same_page_def)
qed

lemma get_user_pte_table:
  assumes wf: "tree_wf st root" and t: "table_of st root (va_path va) = Some t"
    and "present (rd t (pt_idx 12 va) st)"
  shows "get_user_pte root va st = Some (rd t (pt_idx 12 va) st)"
proof -
  have "page_base root = root" using wf by (simp add: tree_wf_def)
  with t assms(3) show ?thesis
    by (auto simp: get_user_pte_def Let_def va_path_def present_huge_iff split: if_splits)
qed

lemma prot_pte_facts:
  "present (prot_pte p e) \<longleftrightarrow> p \<noteq> 0"
  "p \<noteq> 0 \<Longrightarrow> page_base (prot_pte p e) = page_base e"
  "p \<noteq> 0 \<Longrightarrow> prot_pte p e AND PTE_WRITABLE = 0 \<longleftrightarrow> p AND 2 = 0"
proof -
  have pp: "present PTE_PRESENT" by (simp add: present_def PTE_PRESENT_def)
  have "page_base e AND NOT PTE_PRESENT AND PTE_PRESENT = 0" by (simp add: and.assoc)
  then show "present (prot_pte p e) \<longleftrightarrow> p \<noteq> 0"
    using pp by (auto simp: prot_pte_def Let_def) (simp add: present_def and.assoc)
  assume p: "p \<noteq> 0"
  show "page_base (prot_pte p e) = page_base e"
    using p by (simp add: prot_pte_def Let_def)
  have w: "page_base e AND PTE_WRITABLE = 0" by (simp add: page_base_def PTE_WRITABLE_def and.assoc)
  then show "prot_pte p e AND PTE_WRITABLE = 0 \<longleftrightarrow> p AND 2 = 0"
    using p by (simp add: prot_pte_def Let_def bit.conj_disj_distrib2 or_eq_0_iff)
      (simp add: PTE_PRESENT_def PTE_USER_def PTE_WRITABLE_def)
qed

text \<open>Changing the protection of a mapped page: PROT_NONE removes its translation; any other
  protection keeps it and makes the page writable exactly when PROT_WRITE is set. No other page
  is affected, and a page that is not mapped stays as it is.\<close>

theorem set_page_prot_effect:
  assumes wf: "tree_wf st root" and sp: "small_path root va st"
  shows "case virt_to_phys root va st of
      None \<Rightarrow> set_page_prot1 root va p st = st
    | Some pa \<Rightarrow>
        (\<forall>va'. virt_to_phys root va' (set_page_prot1 root va p st) =
          (if same_page va va' \<and> p = 0 then None else virt_to_phys root va' st)) \<and>
        (p \<noteq> 0 \<longrightarrow> (\<exists>pte. get_user_pte root va (set_page_prot1 root va p st) = Some pte \<and>
          (pte AND PTE_WRITABLE \<noteq> 0 \<longleftrightarrow> p AND 2 \<noteq> 0)))"
proof (cases "virt_to_phys root va st")
  case None
  have v: "page_base root = root" "\<forall>i < 512. present (rd root i st) \<longrightarrow> \<not> huge (rd root i st)"
    using wf by (simp_all add: tree_wf_def)
  have "\<not> present (rd t (pt_idx 12 va) st)" if t: "table_of st root (va_path va) = Some t" for t
  proof
    assume pr: "present (rd t (pt_idx 12 va) st)"
    have "wr t (pt_idx 12 va) (rd t (pt_idx 12 va) st) st = st" by (simp add: wr_def rd_def)
    with leaf_write_translation [OF wf sp t, of va "rd t (pt_idx 12 va) st"] pr None
    show False by (simp add: same_page_def)
  qed
  then have "set_page_prot1 root va p st = st"
    using pte_slot_table [OF wf sp]
    by (auto simp: set_page_prot1_def Let_def present_huge_iff split: option.splits)
  with None show ?thesis by simp
next
  case (Some pa)
  then obtain t where t: "table_of st root (va_path va) = Some t" and pr: "present (rd t (pt_idx 12 va) st)"
    and pa: "pa = page_base (rd t (pt_idx 12 va) st) OR (va AND 0xFFF)"
    using virt_to_phys_table [OF wf sp] by blast
  let ?e = "rd t (pt_idx 12 va) st"
  let ?s = "wr t (pt_idx 12 va) (prot_pte p ?e) st"
  have s: "set_page_prot1 root va p st = ?s"
    using pte_slot_table [OF wf sp] t pr by (simp add: set_page_prot1_def Let_def present_huge_iff)
  have same: "virt_to_phys root va' st = Some (page_base ?e OR (va' AND 0xFFF))" if "same_page va va'" for va'
    using leaf_write_translation [OF wf sp t, of va' ?e] pr that by (simp add: wr_def rd_def)
  have len: "length (va_path va) = 3" by (simp add: va_path_def)
  have t': "table_of ?s root (va_path va) = Some t"
    using leaf_write(1) [OF wf path_ok_va(3) len t path_ok_va(3)] t by simp
  have "get_user_pte root va ?s = Some (prot_pte p ?e)" if "p \<noteq> 0"
    using get_user_pte_table [OF leaf_write_wf [OF wf path_ok_va(3) len t] t'] that
    by (simp add: rd_wr prot_pte_facts(1))
  then show ?thesis
    using Some leaf_write_translation [OF wf sp t, of _ "prot_pte p ?e"] same
    unfolding s by (auto simp: prot_pte_facts)
qed

theorem set_page_prot_effect_witness:
  "\<exists>st. virt_to_phys 0x1000 0x400000 st = Some 0x5000 \<and>
    virt_to_phys 0x1000 0x400000 (set_page_prot1 0x1000 0x400000 0 st) = None \<and>
    virt_to_phys 0x1000 0x400000 (set_page_prot1 0x1000 0x400000 1 st) = Some 0x5000"
proof -
  obtain st where st: "tree_wf st 0x1000" "small_path 0x1000 0x400000 st"
    "virt_to_phys 0x1000 0x400000 st = Some 0x5000"
    using demo_mapped by blast
  from set_page_prot_effect [OF st(1,2), of 0] set_page_prot_effect [OF st(1,2), of 1] st(3)
  show ?thesis by (intro exI [of _ st]) (simp add: same_page_def)
qed

text \<open>A new address space starts empty and shares the kernel: the root of \<open>alloc_user_pml4\<close> is a
  frame that was free, its 256 user entries are absent, so no user address translates, and its
  256 kernel entries are those of the kernel's root table, while every frame in use before is
  untouched.\<close>

theorem alloc_user_pml4_layout:
  assumes k: "page_base (kernel_cr3 st) \<notin> vavail st" and a: "alloc_user_pml4 st = Some (st', root)"
  shows "root \<in> vavail st \<and> root \<notin> vavail st' \<and>
    (\<forall>i < 256. \<not> present (rd root i st')) \<and>
    (\<forall>i. 256 \<le> i \<longrightarrow> i < 512 \<longrightarrow> rd root i st' = rd (page_base (kernel_cr3 st)) i st) \<and>
    (\<forall>x. x \<notin> vavail st \<longrightarrow> pmem st' x = pmem st x) \<and>
    (\<forall>va. pt_idx 39 va < 256 \<longrightarrow> virt_to_phys root va st' = None)"
proof -
  from a obtain st1 where t: "take_frame st = Some (st1, root)"
    and st': "st' = share_kernel_half root (put_page root zero_page st1)"
    by (auto simp: alloc_user_pml4_def alloc_table_def bind_eq_Some_conv)
  note tf = take_frame_SomeD [OF t]
  have ne: "page_base (kernel_cr3 st) \<noteq> root" using k tf(1) by blast
  have rd': "rd x i st' = (if x = root then if 256 \<le> i \<and> i < 512
      then rd (page_base (kernel_cr3 st)) i st else 0 else rd x i st)" for x i
    using ne by (auto simp: st' share_kernel_half_def rd_put_page tf(4,6) zero_page_def)
  have z: "\<not> present 0" by (simp add: present_def)
  have al: "page_base root = root" using tf(5) by (rule page_base_aligned)
  have "virt_to_phys root va st' = None" if "pt_idx 39 va < 256" for va
    using that z by (simp add: virt_to_phys_def Let_def al rd' present_huge_iff)
  moreover have "pmem st' x = pmem st x" if "x \<notin> vavail st" for x
    using that tf(1,3) by (auto simp: st' share_kernel_half_def put_page_def)
  moreover have "vavail st' = vavail st - {root}" by (simp add: st' share_kernel_half_def tf(2))
  ultimately show ?thesis using tf(1) z by (auto simp: rd')
qed

theorem alloc_user_pml4_layout_witness:
  "\<exists>st' root. alloc_user_pml4 demo_vm = Some (st', root) \<and> virt_to_phys root 0x400000 st' = None"
proof -
  have ne: "vavail demo_vm \<noteq> {}" using demo_vm_card by fastforce
  then obtain s1 root where t: "take_frame demo_vm = Some (s1, root)" using take_frame_total by blast
  have k: "page_base (kernel_cr3 demo_vm) = 0x1000" by (simp add: demo_vm_def page_base_def)
  have "0x1000 \<notin> vavail demo_vm" using tree_wf_used [OF demo_vm_wf, of "[]"] by simp
  moreover obtain st' where "alloc_user_pml4 demo_vm = Some (st', root)"
    by (simp add: alloc_user_pml4_def alloc_table_def t)
  moreover have "pt_idx 39 0x400000 < 256" by (simp add: pt_idx_def)
  ultimately show ?thesis using alloc_user_pml4_layout [of demo_vm st' root] k by auto
qed

section \<open>Bytes of a page\<close>

lemma bit_page_byte: "bit (page_byte p k) n \<longleftrightarrow> n < 8 \<and> bit (p (k div 8)) (8 * (k mod 8) + n)"
  by (auto simp: page_byte_def bit_simps)

lemma page_byte_put_byte: "page_byte (put_byte k b p) k' = (if k' = k then b else page_byte p k')"
proof (rule bit_word_eqI)
  fix n
  assume n: "n < LENGTH(8)"
  have FF: "bit (0xFF :: u64) m \<longleftrightarrow> m < 8" for m
  proof -
    have e: "(0xFF :: u64) = mask 8" by (simp add: mask_eq_exp_minus_1)
    show ?thesis unfolding e by (auto simp: bit_simps)
  qed
  show "bit (page_byte (put_byte k b p) k') n = bit (if k' = k then b else page_byte p k') n"
  proof (cases "k' div 8 = k div 8")
    case False
    then show ?thesis by (auto simp: bit_page_byte put_byte_def)
  next
    case True
    let ?a = "k mod 8" and ?a' = "k' mod 8"
    have lt: "8 * ?a' + n < 64" using n mod_less_divisor [of 8 k'] by simp
    have n8: "n < 8" using n by simp
    have in_byte: "8 * x \<le> 8 * y + n \<and> 8 * y + n - 8 * x < 8 \<longleftrightarrow> y = x" for x y :: nat
      using n8 by presburger
    have kk: "k' = k \<longleftrightarrow> ?a' = ?a" using True by (metis div_mod_decomp)
    have mask: "bit (push_bit (8 * ?a) 0xFF :: u64) (8 * ?a' + n) \<longleftrightarrow> ?a' = ?a"
      unfolding bit_push_bit_iff FF using in_byte [of ?a ?a'] lt by simp
    have val: "bit (push_bit (8 * ?a) (ucast b) :: u64) (8 * ?a' + n) \<longleftrightarrow> ?a' = ?a \<and> bit b n"
    proof (cases "?a' = ?a")
      case True
      then show ?thesis using lt n8 by (simp add: bit_push_bit_iff bit_ucast_iff)
    next
      case False
      have "\<not> bit b (8 * ?a' + n - 8 * ?a)" if "8 * ?a \<le> 8 * ?a' + n"
        using in_byte [of ?a ?a'] False that bit_imp_le_length [of b "8 * ?a' + n - 8 * ?a"] by auto
      with False show ?thesis by (auto simp: bit_push_bit_iff bit_ucast_iff)
    qed
    have "bit (page_byte (put_byte k b p) k') n \<longleftrightarrow>
        (bit (p (k div 8)) (8 * ?a' + n) \<and> ?a' \<noteq> ?a) \<or> (?a' = ?a \<and> bit b n)"
      unfolding bit_page_byte put_byte_def True fun_upd_same bit_or_iff bit_and_iff bit_not_iff mask val
      using n8 lt by simp
    then show ?thesis using n8 True kk by (auto simp: bit_page_byte)
  qed
qed

lemma page_byte_put_bytes:
  "page_byte (put_bytes k bs p) i = (if k \<le> i \<and> i < k + length bs then bs ! (i - k) else page_byte p i)"
proof (induction bs arbitrary: k p)
  case (Cons b bs)
  show ?case
  proof (cases "i = k")
    case True
    then show ?thesis using Cons.IH [of "Suc k" "put_byte k b p"] by (simp add: page_byte_put_byte)
  next
    case False
    then show ?thesis by (auto simp: Cons.IH page_byte_put_byte nth_Cons')
  qed
qed auto

text \<open>What was written reads back.\<close>

lemma page_bytes_put_bytes [simp]: "page_bytes (put_bytes k bs p) k (length bs) = bs"
  by (rule nth_equalityI) (simp_all add: page_bytes_def page_byte_put_bytes)

lemma put_bytes_slot_above:
  "k mod 8 + length bs \<le> 8 \<Longrightarrow> j \<noteq> k div 8 \<Longrightarrow> put_bytes k bs p j = p j"
proof (induction bs arbitrary: k p)
  case (Cons b bs)
  show ?case
  proof (cases "bs = []")
    case True
    then show ?thesis using Cons.prems by (simp add: put_byte_def)
  next
    case False
    then have "k mod 8 < 7" using Cons.prems(1) by (cases bs) auto
    then have "Suc k mod 8 = Suc (k mod 8)" "Suc k div 8 = k div 8"
      by (simp_all add: mod_Suc div_Suc)
    then show ?thesis using Cons by (simp add: put_byte_def)
  qed
qed simp

lemma page_bytes_upd [simp]: "j < k div 8 \<Longrightarrow> page_bytes (p(j := v)) k n = page_bytes p k n"
proof -
  assume "j < k div 8"
  then have "(k + i) div 8 \<noteq> j" for i using div_le_mono [of k "k + i" 8] by simp
  then show ?thesis by (simp add: page_bytes_def page_byte_def)
qed

lemma stack_strings_eval:
  "stack_strings p = (4080, put_bytes 4091 prog_str p)" "prog_ptr b = b + 4091"
  by (simp_all add: stack_strings_def prog_str_def prog_ptr_def)

text \<open>The initial stack of a program follows the System V layout. The stack pointer is 16-byte
  aligned and lies in the top page; the words from it upwards are argc = 1, a pointer to the
  program name, the null that ends argv, the null that ends envp, and the auxiliary vector
  AT_PAGESZ, AT_CLKTCK, AT_NULL; the name pointer points to the bytes of "prog" and a nul.\<close>

theorem setup_elf_stack_layout:
  assumes "setup_elf_stack phys USER_STACK_TOP st = (st', sp)"
  shows "unat sp mod 16 = 0 \<and> sp = USER_STACK_TOP - 4096 + 4000 \<and>
    map (pmem st' phys) [500..<510] =
      [1, USER_STACK_TOP - 4096 + 4091, 0, 0, 6, 4096, 17, 100, 0, 0] \<and>
    page_bytes (pmem st' phys) 4091 5 = prog_str \<and>
    (\<forall>i < 500. pmem st' phys i = pmem st phys i)"
proof -
  have b: "USER_STACK_TOP - 4096 = 0xFF000" by (simp add: USER_STACK_TOP_def)
  let ?p = "put_bytes 4091 prog_str (pmem st phys)"
  have low: "?p i = pmem st phys i" if "i < 511" for i
    using put_bytes_slot_above [of 4091 prog_str i] that by (simp add: prog_str_def)
  have len: "length prog_str = 5" by (simp add: prog_str_def)
  have str: "page_bytes ?p 4091 5 = prog_str"
    using page_bytes_put_bytes [of 4091 prog_str "pmem st phys"] len by (simp only:)
  have sp: "sp = 0xFF000 + 4000"
    and m: "pmem st' phys = ?p(509 := 0, 508 := 0, 507 := 100, 506 := 17, 505 := 4096, 504 := 6, 503 := 0,
      502 := 0, 501 := 0xFF000 + 4091, 500 := 1)"
    using assms by (auto simp: setup_elf_stack_def Let_def b stack_strings_eval push_slot_def put_page_def)
  have "unat sp mod 16 = 0" by (simp add: sp)
  moreover have "page_bytes (pmem st' phys) 4091 5 = prog_str" using str by (simp add: m)
  moreover have "map (pmem st' phys) [500..<510] = [1, 0xFF000 + 4091, 0, 0, 6, 4096, 17, 100, 0, 0]"
    by (simp add: m upt_rec)
  moreover have "\<forall>i < 500. pmem st' phys i = pmem st phys i" using low by (simp add: m)
  ultimately show ?thesis by (simp add: sp b)
qed

theorem setup_elf_stack_layout_witness:
  "\<exists>st' sp. setup_elf_stack 0x5000 USER_STACK_TOP demo_vm = (st', sp) \<and> pmem st' 0x5000 500 = 1"
proof -
  obtain st' sp where r: "setup_elf_stack 0x5000 USER_STACK_TOP demo_vm = (st', sp)"
    by (cases "setup_elf_stack 0x5000 USER_STACK_TOP demo_vm")
  have "map (pmem st' 0x5000) [500..<510] ! 0 = 1" using setup_elf_stack_layout [OF r] by simp
  with r show ?thesis by (simp add: upt_rec)
qed

lemma get_or_create_slot: "get_or_create t i f st = Some (st', u) \<Longrightarrow> ro_channel_slot st' = ro_channel_slot st"
  by (auto simp: get_or_create_def alloc_table_def take_frame_def wr_def put_page_def bind_eq_Some_conv
      split: if_splits prod.splits option.splits)

lemma map_4k_slot: "map_4k root va pa f st = Some st' \<Longrightarrow> ro_channel_slot st' = ro_channel_slot st"
  by (auto simp: map_4k_def Let_def bind_eq_Some_conv wr_def dest!: get_or_create_slot)

lemma slot_irrelevant [simp]:
  "rd t i (st\<lparr>ro_channel_slot := n\<rparr>) = rd t i st" "vavail (st\<lparr>ro_channel_slot := n\<rparr>) = vavail st"
  by (simp_all add: rd_def vavail_def)

lemma slot_irrelevant_tree [simp]:
  "table_of (st\<lparr>ro_channel_slot := n\<rparr>) root q = table_of st root q"
  "entry_at (st\<lparr>ro_channel_slot := n\<rparr>) root q j = entry_at st root q j"
  "tree_wf (st\<lparr>ro_channel_slot := n\<rparr>) root = tree_wf st root"
  "virt_to_phys root va (st\<lparr>ro_channel_slot := n\<rparr>) = virt_to_phys root va st"
proof -
  show t: "table_of (st\<lparr>ro_channel_slot := n\<rparr>) root q = table_of st root q" for root q
    by (induction q arbitrary: root) (simp_all add: Let_def)
  show "entry_at (st\<lparr>ro_channel_slot := n\<rparr>) root q j = entry_at st root q j"
    "tree_wf (st\<lparr>ro_channel_slot := n\<rparr>) root = tree_wf st root"
    by (simp_all add: entry_at_def tree_wf_def t Let_def split: option.split)
  show "virt_to_phys root va (st\<lparr>ro_channel_slot := n\<rparr>) = virt_to_phys root va st"
    by (simp add: virt_to_phys_def Let_def)
qed

lemma alloc_channel_frame_spec:
  assumes wf: "tree_wf st (kernel_cr3 st)"
    and sp: "small_path (kernel_cr3 st) (RO_CHANNEL_BASE + ro_channel_slot st * 4096) st"
    and a: "alloc_channel_frame hhdm st = Some (st', write_va, read_va, phys)"
  shows "phys \<in> vavail st" and "phys \<notin> vavail st'" and "write_va = phys + hhdm" and "page_base phys = phys"
    and "read_va = RO_CHANNEL_BASE + ro_channel_slot st * 4096" and "ro_channel_slot st' = ro_channel_slot st + 1"
    and "kernel_cr3 st' = kernel_cr3 st" and "tree_wf st' (kernel_cr3 st)"
    and "virt_to_phys (kernel_cr3 st) va st' =
      (if same_page read_va va then Some (phys OR (va AND 0xFFF)) else virt_to_phys (kernel_cr3 st) va st)"
    and "entry_at st' (kernel_cr3 st) (va_path read_va) (pt_idx 12 read_va) = Some (phys OR PTE_PRESENT)"
    and "path_ok p \<Longrightarrow> table_of st' (kernel_cr3 st) p \<noteq> Some phys"
    and "vavail st' \<subseteq> vavail st"
    and "path_ok q \<Longrightarrow> table_of st' (kernel_cr3 st) q = Some x \<Longrightarrow>
      table_of st (kernel_cr3 st) q = Some x \<or> x \<in> vavail st"
    and "small_path (kernel_cr3 st) va' st \<Longrightarrow> small_path (kernel_cr3 st) va' st'"
    and "path_ok q \<Longrightarrow> j < 512 \<Longrightarrow> (q, j) \<noteq> (va_path read_va, pt_idx 12 read_va) \<Longrightarrow>
      entry_at st (kernel_cr3 st) q j = Some e \<Longrightarrow> entry_at st' (kernel_cr3 st) q j = Some e"
proof -
  let ?k = "kernel_cr3 st"
  have r: "page_base ?k = ?k" using wf by (simp add: tree_wf_def)
  from a obtain st1 off where t: "take_frame st = Some (st1, phys)" and w: "add_chk phys hhdm = Some write_va"
    and o: "mul_chk (ro_channel_slot st1) 4096 = Some off" and rv: "add_chk RO_CHANNEL_BASE off = Some read_va"
    and m: "map_4k (page_base (kernel_cr3 st1)) read_va phys PTE_PRESENT
      (st1\<lparr>ro_channel_slot := ro_channel_slot st1 + 1\<rparr>) = Some st'"
    by (auto simp: alloc_channel_frame_def Let_def bind_eq_Some_conv)
  note tf = take_frame_SomeD [OF t]
  have slot: "ro_channel_slot st1 = ro_channel_slot st"
    using t by (auto simp: take_frame_def split: prod.splits option.splits)
  let ?s = "st1\<lparr>ro_channel_slot := ro_channel_slot st1 + 1\<rparr>"
  have id: "put_page phys (pmem st1 phys) st1 = st1" by (simp add: put_page_def)
  note tt = take_frame_tree(1-3) [OF wf t, where p = "pmem st1 phys", unfolded id]
  show read: "read_va = RO_CHANNEL_BASE + ro_channel_slot st * 4096"
    using mul_chk_SomeD [OF o] add_chk_SomeD [OF rv] by (simp add: slot)
  have wf': "tree_wf ?s ?k" using tt(1) by simp
  have sp': "small_path ?k read_va ?s"
    using sp tt(3) [OF path_ok_va(1)] tt(3) [OF path_ok_va(2)] by (simp add: small_path_def read)
  have m': "map_4k ?k read_va phys PTE_PRESENT ?s = Some st'" using m by (simp add: tf(4) r)
  note me = map_4k_entries [OF wf' sp' m']
  show pb: "page_base phys = phys" using tf(5) by (rule page_base_aligned)
  show "phys \<in> vavail st" "phys \<notin> vavail st'" "write_va = phys + hhdm" "kernel_cr3 st' = kernel_cr3 st"
    "ro_channel_slot st' = ro_channel_slot st + 1" "tree_wf st' (kernel_cr3 st)"
    using tf(1,2,4) me(1-3) add_chk_SomeD [OF w] map_4k_slot [OF m'] slot by auto
  have "virt_to_phys ?k va st1 = virt_to_phys ?k va st"
    using virt_to_phys_cong [OF wf tt(1)] tt(3) by simp
  then show "virt_to_phys ?k va st' =
      (if same_page read_va va then Some (phys OR (va AND 0xFFF)) else virt_to_phys ?k va st)"
    using map_4k_translation [OF wf' sp' _ m'] by (simp add: pb)
  show "entry_at st' ?k (va_path read_va) (pt_idx 12 read_va) = Some (phys OR PTE_PRESENT)"
    using me(4) by (simp add: pb)
  have "phys \<notin> vavail ?s" by (simp add: tf(2))
  moreover have "table_of ?s ?k q \<noteq> Some phys" if "path_ok q" for q
    using that tt(2) take_frame_tree(4) [OF wf t] by simp
  ultimately show "table_of st' ?k p \<noteq> Some phys" if "path_ok p"
    using map_4k_tables [OF wf' sp' m'] that by blast
  have av: "vavail ?s \<subseteq> vavail st" by (auto simp: tf(2))
  then show "vavail st' \<subseteq> vavail st" using me(3) by blast
  show "table_of st ?k q = Some x \<or> x \<in> vavail st" if "path_ok q" "table_of st' ?k q = Some x"
    using me(10) [OF that] tt(2) [OF that(1)] av by auto
  have same: "entry_at st1 ?k q j = entry_at st ?k q j" if "path_ok q" for q j
    using tt(3) [OF that] by simp
  show "small_path ?k va' st'" if "small_path ?k va' st"
  proof -
    have n: "[pt_idx 39 va'] \<noteq> va_path read_va" "[pt_idx 39 va', pt_idx 30 va'] \<noteq> va_path read_va"
      by (simp_all add: va_path_def)
    have "\<not> huge e" if "entry_at st' ?k [pt_idx 39 va'] (pt_idx 30 va') = Some e" for e
      using me(9) [OF path_ok_va(1) [of va'], of "pt_idx 30 va'"] that n \<open>small_path ?k va' st\<close>
      by (auto simp: small_path_def same)
    moreover have "\<not> huge e" if "entry_at st' ?k [pt_idx 39 va', pt_idx 30 va'] (pt_idx 21 va') = Some e" for e
      using me(9) [OF path_ok_va(2) [of va'], of "pt_idx 21 va'"] that n \<open>small_path ?k va' st\<close>
      by (auto simp: small_path_def same)
    ultimately show ?thesis by (simp add: small_path_def)
  qed
  show "entry_at st' ?k q j = Some e"
    if "path_ok q" "j < 512" "(q, j) \<noteq> (va_path read_va, pt_idx 12 read_va)" "entry_at st ?k q j = Some e"
    using me(9) [OF that(1,2)] that(3,4) same [OF that(1)] by auto
qed

lemma alloc_channel_frame_pte:
  assumes wf: "tree_wf st (kernel_cr3 st)"
    and sp: "small_path (kernel_cr3 st) (RO_CHANNEL_BASE + ro_channel_slot st * 4096) st"
    and a: "alloc_channel_frame hhdm st = Some (st', write_va, read_va, phys)"
  shows "get_kernel_pte read_va st' = Some (phys OR PTE_PRESENT)" and "(phys OR PTE_PRESENT) AND PTE_WRITABLE = 0"
proof -
  let ?k = "kernel_cr3 st"
  note sp = alloc_channel_frame_spec [OF wf sp a]
  obtain x where x: "table_of st' ?k (va_path read_va) = Some x"
      "rd x (pt_idx 12 read_va) st' = phys OR PTE_PRESENT"
    using sp(10) by (auto simp: entry_at_def Let_def split: option.splits if_splits)
  have "present PTE_PRESENT" by (simp add: present_def PTE_PRESENT_def)
  then show "get_kernel_pte read_va st' = Some (phys OR PTE_PRESENT)"
    using get_user_pte_table [OF sp(8) x(1)] x(2) by (simp add: get_kernel_pte_def sp(7))
  have "phys AND PTE_WRITABLE = page_base phys AND PTE_WRITABLE" by (simp add: sp(4))
  also have "\<dots> = 0" by (simp add: page_base_def PTE_WRITABLE_def and.assoc)
  finally have nw: "phys AND PTE_WRITABLE = 0" .
  then show "(phys OR PTE_PRESENT) AND PTE_WRITABLE = 0"
    by (simp add: bit.conj_disj_distrib2) (simp add: PTE_PRESENT_def PTE_WRITABLE_def)
qed

text \<open>A channel frame is writable by the sender and read-only for the receiver: in the kernel's tables
  the read window translates to the new frame, its entry lacks the writable bit, and no other
  kernel translation changes.\<close>

theorem alloc_channel_frame_read_only:
  assumes wf: "tree_wf st (kernel_cr3 st)"
    and sp: "small_path (kernel_cr3 st) (RO_CHANNEL_BASE + ro_channel_slot st * 4096) st"
    and a: "alloc_channel_frame hhdm st = Some (st', write_va, read_va, phys)"
  shows "phys \<in> vavail st \<and> phys \<notin> vavail st' \<and> write_va = phys + hhdm \<and>
    read_va = RO_CHANNEL_BASE + ro_channel_slot st * 4096 \<and> ro_channel_slot st' = ro_channel_slot st + 1 \<and>
    virt_to_phys (kernel_cr3 st) read_va st' = Some (phys OR (read_va AND 0xFFF)) \<and>
    (\<exists>pte. get_kernel_pte read_va st' = Some pte \<and> pte AND PTE_WRITABLE = 0) \<and>
    (\<forall>va. \<not> same_page read_va va \<longrightarrow>
       virt_to_phys (kernel_cr3 st) va st' = virt_to_phys (kernel_cr3 st) va st)"
proof -
  note spec = alloc_channel_frame_spec [OF wf sp a]
  have "\<exists>pte. get_kernel_pte read_va st' = Some pte \<and> pte AND PTE_WRITABLE = 0"
    using alloc_channel_frame_pte [OF wf sp a] by blast
  then show ?thesis
    using spec(1-3,5,6) spec(9) by (auto simp: same_page_def)
qed

theorem alloc_channel_frame_read_only_witness:
  "\<exists>st' w r phys. alloc_channel_frame 0 demo_vm = Some (st', w, r, phys) \<and>
    virt_to_phys 0x1000 r st' = Some (phys OR (r AND 0xFFF))"
proof -
  have "vavail demo_vm \<noteq> {}" using demo_vm_card by fastforce
  then obtain s1 phys where t: "take_frame demo_vm = Some (s1, phys)" using take_frame_total by blast
  have k: "kernel_cr3 demo_vm = 0x1000" "ro_channel_slot demo_vm = 0" by (simp_all add: demo_vm_def)
  have k1: "kernel_cr3 s1 = 0x1000" "ro_channel_slot s1 = 0"
    using t k by (auto simp: take_frame_def split: prod.splits option.splits)
  have "card (vavail (s1\<lparr>ro_channel_slot := 1\<rparr>)) = 61"
    using take_frame_SomeD(1,2) [OF t] demo_vm_card by simp
  then obtain st' where m: "map_4k 0x1000 RO_CHANNEL_BASE phys PTE_PRESENT (s1\<lparr>ro_channel_slot := 1\<rparr>) = Some st'"
    using map_4k_total [of "s1\<lparr>ro_channel_slot := 1\<rparr>" "0x1000" RO_CHANNEL_BASE phys PTE_PRESENT] by auto
  have "unat phys < 2 ^ LENGTH(64)" by (rule unsigned_less)
  then have a: "alloc_channel_frame 0 demo_vm = Some (st', phys, RO_CHANNEL_BASE, phys)"
    using m by (simp add: alloc_channel_frame_def t k1 Let_def add_chk_def mul_chk_def RO_CHANNEL_BASE_def page_base_def)
  have "tree_wf demo_vm (kernel_cr3 demo_vm)"
    "small_path (kernel_cr3 demo_vm) (RO_CHANNEL_BASE + ro_channel_slot demo_vm * 4096) demo_vm"
    using demo_vm_wf demo_vm_small by (simp_all add: k)
  from alloc_channel_frame_read_only [OF this a] a show ?thesis by (auto simp: k)
qed

end
