(* ===== verification/Ipc.thy ===== *)
theory Ipc
  imports Scheduler Paging "HOL-Library.Product_Lexorder"
begin

text \<open>
  Message passing: \<open>kernel/src/process/ipc.rs\<close> (64-byte messages), \<open>ipc_cap.rs\<close> (shared buffers,
  doorbells) and \<open>ipc_fast.rs\<close> (the registry of fast channels).

  The record \<open>kern\<close> joins the scheduler, the memory and the statics of the three modules. A fast
  channel is a frame the sender writes through the direct map (\<open>write_va = phys + hhdm\<close>) and the
  receiver reads through the kernel's read-only window: a read translates \<open>read_va\<close> with the
  kernel's tables, and a missing translation is a page fault in the kernel. A sender spins while
  the doorbell is raised; \<open>Spinning\<close> is the state in which it still waits. \<open>None\<close> is a panic.
  Tracing and the serial log are not modelled.
\<close>

section \<open>State\<close>

definition SW_SLOTS :: nat where "SW_SLOTS = 64"

record shared_buffer =
  sb_id :: u64
  sb_data :: bytes
  sb_owner :: pid
  frame_backed :: bool
  write_va :: u64
  read_va :: u64
  sb_phys :: u64
  frame_len :: nat

record 'o kern =
  sched :: "'o scheduler"
  kvm :: vm
  hhdm_offset :: u64
  SHARED_BUFFERS :: "(u64, shared_buffer) btree"
  NEXT_CAP_ID :: u64
  SW_DOORBELLS :: "u64 list"
  FAST_CHANNELS :: "(pid \<times> pid, u64) btree"

datatype 'a attempt = Spinning | Done 'a

definition sw_slot :: "u64 \<Rightarrow> nat" where
  "sw_slot cap_id = unat cap_id mod SW_SLOTS"

definition doorbell :: "u64 \<Rightarrow> 'o kern \<Rightarrow> u64" where
  "doorbell i k = SW_DOORBELLS k ! sw_slot i"

definition set_doorbell :: "u64 \<Rightarrow> u64 \<Rightarrow> 'o kern \<Rightarrow> 'o kern" where
  "set_doorbell i v k = k\<lparr>SW_DOORBELLS := (SW_DOORBELLS k)[sw_slot i := v]\<rparr>"

text \<open>The frame behind a read-only window address; \<open>None\<close> is a fault.\<close>

definition read_page :: "u64 \<Rightarrow> 'o kern \<Rightarrow> page option" where
  "read_page va k = map_option (\<lambda>pa. pmem (kvm k) (page_base pa))
     (virt_to_phys (kernel_cr3 (kvm k)) va (kvm k))"

text \<open>A write through the direct map.\<close>

definition write_frame :: "u64 \<Rightarrow> bytes \<Rightarrow> 'o kern \<Rightarrow> 'o kern" where
  "write_frame va bs k =
     (let pa = va - hhdm_offset k
      in k\<lparr>kvm := put_page pa (put_bytes 0 bs (pmem (kvm k) pa)) (kvm k)\<rparr>)"

section \<open>Shared buffers (\<open>ipc_cap.rs\<close>)\<close>

definition alloc_shared :: "pid \<Rightarrow> bytes \<Rightarrow> 'o kern \<Rightarrow> 'o kern \<times> u64" where
  "alloc_shared owner data k =
     (let i = NEXT_CAP_ID k in
      (k\<lparr>NEXT_CAP_ID := i + 1,
         SHARED_BUFFERS := bt_insert i \<lparr>sb_id = i, sb_data = data, sb_owner = owner, frame_backed = False,
           write_va = 0, read_va = 0, sb_phys = 0, frame_len = 0\<rparr> (SHARED_BUFFERS k)\<rparr>, i))"

definition alloc_shared_frame :: "pid \<Rightarrow> nat \<Rightarrow> 'o kern \<Rightarrow> ('o kern \<times> u64) option" where
  "alloc_shared_frame owner capacity k = do {
     (m, w, r, phys) \<leftarrow> alloc_channel_frame (hhdm_offset k) (kvm k);
     let i = NEXT_CAP_ID k;
     Some (k\<lparr>kvm := m, NEXT_CAP_ID := i + 1,
         SHARED_BUFFERS := bt_insert i \<lparr>sb_id = i, sb_data = [], sb_owner = owner, frame_backed = True,
           write_va = w, read_va = r, sb_phys = phys, frame_len = min capacity 4096\<rparr> (SHARED_BUFFERS k)\<rparr>, i)
   }"

definition overwrite_shared :: "u64 \<Rightarrow> bytes \<Rightarrow> 'o kern \<Rightarrow> 'o kern \<times> bool" where
  "overwrite_shared i data k =
     (case bt_get i (SHARED_BUFFERS k) of
        None \<Rightarrow> (k, False)
      | Some buf \<Rightarrow>
          if frame_backed buf then
            let write_len = min (length data) 4096;
                k = write_frame (write_va buf) (take write_len data) k
            in (k\<lparr>SHARED_BUFFERS := bt_insert i (buf\<lparr>frame_len := write_len\<rparr>) (SHARED_BUFFERS k)\<rparr>, True)
          else (k\<lparr>SHARED_BUFFERS := bt_insert i (buf\<lparr>sb_data := data\<rparr>) (SHARED_BUFFERS k)\<rparr>, True))"

definition append_shared :: "u64 \<Rightarrow> bytes \<Rightarrow> 'o kern \<Rightarrow> 'o kern \<times> bool" where
  "append_shared i extra k =
     (case bt_get i (SHARED_BUFFERS k) of
        None \<Rightarrow> (k, False)
      | Some buf \<Rightarrow>
          (k\<lparr>SHARED_BUFFERS := bt_insert i (buf\<lparr>sb_data := sb_data buf @ extra\<rparr>) (SHARED_BUFFERS k)\<rparr>, True))"

text \<open>\<open>read_shared\<close> returns the bytes it passes to the closure.\<close>

definition read_shared :: "u64 \<Rightarrow> 'o kern \<Rightarrow> bytes option option" where
  "read_shared i k =
     (case bt_get i (SHARED_BUFFERS k) of
        None \<Rightarrow> Some None
      | Some buf \<Rightarrow>
          if frame_backed buf
          then do { p \<leftarrow> read_page (read_va buf) k; Some (Some (page_bytes p 0 (frame_len buf))) }
          else Some (Some (sb_data buf)))"

definition drop_shared :: "u64 \<Rightarrow> 'o kern \<Rightarrow> ('o kern \<times> bool) option" where
  "drop_shared i k =
     (case bt_get i (SHARED_BUFFERS k) of
        None \<Rightarrow> Some (k, False)
      | Some buf \<Rightarrow> do {
          let k = k\<lparr>SHARED_BUFFERS := bt_remove i (SHARED_BUFFERS k)\<rparr>;
          m \<leftarrow> (if frame_backed buf then free_channel_frame (sb_phys buf) (kvm k) else Some (kvm k));
          Some (k\<lparr>kvm := m\<rparr>, True)
        })"

definition buffer_count :: "'o kern \<Rightarrow> nat" where
  "buffer_count k = length (SHARED_BUFFERS k)"

definition is_valid :: "u64 \<Rightarrow> 'o kern \<Rightarrow> bool" where
  "is_valid i k \<longleftrightarrow> bt_get i (SHARED_BUFFERS k) \<noteq> None"

datatype isolation_result = NotApplicable | Isolation_Ok | PteMissing | ReadVaIsWritable | DataMismatch

definition verify_channel_isolation :: "u64 \<Rightarrow> 'o kern \<Rightarrow> ('o kern \<times> isolation_result) option" where
  "verify_channel_isolation i k =
     (case bt_get i (SHARED_BUFFERS k) of
        None \<Rightarrow> Some (k, NotApplicable)
      | Some buf \<Rightarrow>
          if \<not> frame_backed buf then Some (k, NotApplicable)
          else case get_kernel_pte (read_va buf) (kvm k) of
              None \<Rightarrow> Some (k, PteMissing)
            | Some pte \<Rightarrow>
                if pte AND 2 \<noteq> 0 then Some (k, ReadVaIsWritable)
                else do {
                  let k1 = write_frame (write_va buf) [0x5A] k;
                  p \<leftarrow> read_page (read_va buf) k1;
                  if page_byte p 0 \<noteq> 0x5A then Some (k1, DataMismatch)
                  else Some (write_frame (write_va buf) [0] k1, Isolation_Ok)
                })"

definition send_switchless :: "u64 \<Rightarrow> bytes \<Rightarrow> 'o kern \<Rightarrow> ('o kern \<times> bool) attempt" where
  "send_switchless i data k =
     (case bt_get i (SHARED_BUFFERS k) of
        None \<Rightarrow> Done (k, False)
      | Some buf \<Rightarrow>
          if \<not> frame_backed buf then Done (k, False)
          else
            let write_len = min (length data) 4096 in
            if doorbell i k \<noteq> 0 then Spinning
            else Done (set_doorbell i (of_nat write_len) (write_frame (write_va buf) (take write_len data) k), True))"

text \<open>\<open>poll_switchless\<close> with an output buffer of \<open>out_len\<close> bytes; the result is what it copied.\<close>

definition poll_switchless :: "u64 \<Rightarrow> nat \<Rightarrow> 'o kern \<Rightarrow> ('o kern \<times> bytes option) option" where
  "poll_switchless i out_len k =
     (let len = doorbell i k in
      if len = 0 then Some (k, None)
      else case bt_get i (SHARED_BUFFERS k) of
          None \<Rightarrow> Some (k, None)
        | Some buf \<Rightarrow>
            if \<not> frame_backed buf then Some (k, None)
            else do {
              let copy_len = min (unat len) out_len;
              p \<leftarrow> read_page (read_va buf) k;
              Some (set_doorbell i 0 k, Some (page_bytes p 0 copy_len))
            })"

definition doorbell_pending :: "u64 \<Rightarrow> 'o kern \<Rightarrow> bool" where
  "doorbell_pending i k \<longleftrightarrow> doorbell i k \<noteq> 0"

definition reset_doorbell :: "u64 \<Rightarrow> 'o kern \<Rightarrow> 'o kern" where
  "reset_doorbell i k = set_doorbell i 0 k"

section \<open>The channel registry (\<open>ipc_fast.rs\<close>)\<close>

definition ensure_channel_cap :: "pid \<Rightarrow> pid \<Rightarrow> nat \<Rightarrow> 'o kern \<Rightarrow> ('o kern \<times> u64) option" where
  "ensure_channel_cap from to capacity k =
     (case bt_get (from, to) (FAST_CHANNELS k) of
        Some i \<Rightarrow> Some (k, i)
      | None \<Rightarrow> do {
          (k, i) \<leftarrow> alloc_shared_frame from capacity k;
          let k = reset_doorbell i k;
          let k = k\<lparr>FAST_CHANNELS := bt_insert (from, to) i (FAST_CHANNELS k)\<rparr>;
          (k, _) \<leftarrow> verify_channel_isolation i k;
          Some (k, i)
        })"

definition ensure_channel :: "pid \<Rightarrow> pid \<Rightarrow> 'o kern \<Rightarrow> ('o kern \<times> u64) option" where
  "ensure_channel from to k = ensure_channel_cap from to 512 k"

definition get_channel :: "pid \<Rightarrow> pid \<Rightarrow> 'o kern \<Rightarrow> u64 option" where
  "get_channel from to k = bt_get (from, to) (FAST_CHANNELS k)"

definition write_fast :: "u64 \<Rightarrow> bytes \<Rightarrow> 'o kern \<Rightarrow> 'o kern \<times> bool" where
  "write_fast i data k = overwrite_shared i data k"

definition drop_channel :: "pid \<Rightarrow> pid \<Rightarrow> 'o kern \<Rightarrow> 'o kern option" where
  "drop_channel from to k =
     (case bt_get (from, to) (FAST_CHANNELS k) of
        None \<Rightarrow> Some k
      | Some i \<Rightarrow> do {
          let k = k\<lparr>FAST_CHANNELS := bt_remove (from, to) (FAST_CHANNELS k)\<rparr>;
          (k, _) \<leftarrow> drop_shared i k;
          Some k
        })"

definition channel_count :: "'o kern \<Rightarrow> nat" where
  "channel_count k = length (FAST_CHANNELS k)"

definition find_incoming_channels :: "pid \<Rightarrow> nat \<Rightarrow> 'o kern \<Rightarrow> (u64 \<times> pid) list" where
  "find_incoming_channels to mx k =
     take mx (map (\<lambda>((from, _), i). (i, from)) (filter (\<lambda>((_, t), _). t = to) (FAST_CHANNELS k)))"

section \<open>Messages (\<open>ipc.rs\<close>)\<close>

definition pad64 :: "bytes \<Rightarrow> bytes" where
  "pad64 bs = bs @ replicate (64 - length bs) 0"

definition ipc_send :: "pid \<Rightarrow> bytes \<Rightarrow> 'o kern \<Rightarrow> ('o kern \<times> bool) attempt option" where
  "ipc_send to data k = do {
     sender \<leftarrow> current_pid (sched k);
     case get_channel sender to k of
       Some i \<Rightarrow> Some (send_switchless i data k)
     | None \<Rightarrow> do {
         let n = min (length data) 64;
         let msg = \<lparr>sender = sender, msg_len = n, msg_data = pad64 (take n data), fast_cap = 0\<rparr>;
         (s, b) \<leftarrow> send_message to msg (sched k);
         Some (Done (k\<lparr>sched := s\<rparr>, b))
       }
   }"

text \<open>The loop over the incoming channels: the first one with a message wins.\<close>

fun poll_channels :: "(u64 \<times> pid) list \<Rightarrow> 'o kern \<Rightarrow> ('o kern \<times> message option) option" where
  "poll_channels [] k = Some (k, None)"
| "poll_channels ((i, from) # cs) k = do {
     (k, r) \<leftarrow> poll_switchless i 64 k;
     case r of
       Some bs \<Rightarrow> Some (k, Some \<lparr>sender = from, msg_len = length bs, msg_data = pad64 bs, fast_cap = 0\<rparr>)
     | None \<Rightarrow> poll_channels cs k
   }"

definition ipc_recv :: "'o kern \<Rightarrow> ('o kern \<times> message option) option" where
  "ipc_recv k = do {
     my_pid \<leftarrow> current_pid (sched k);
     (k, r) \<leftarrow> poll_channels (find_incoming_channels my_pid 8 k) k;
     case r of
       Some m \<Rightarrow> Some (k, Some m)
     | None \<Rightarrow> do {
         (s, mo) \<leftarrow> recv_message (sched k);
         let k = k\<lparr>sched := s\<rparr>;
         case mo of
           None \<Rightarrow> Some (k, None)
         | Some msg \<Rightarrow>
             if fast_cap msg \<noteq> 0 then do {
               filled \<leftarrow> read_shared (fast_cap msg) k;
               Some (k, Some (case filled of
                   Some data \<Rightarrow>
                     let n = min (length data) 64
                     in \<lparr>sender = sender msg, msg_len = n, msg_data = pad64 (take n data), fast_cap = fast_cap msg\<rparr>
                 | None \<Rightarrow> msg))
             } else Some (k, Some msg)
       }
   }"

definition send_u64 :: "pid \<Rightarrow> u64 \<Rightarrow> 'o kern \<Rightarrow> ('o kern \<times> bool) attempt option" where
  "send_u64 to value k = ipc_send to (to_le_bytes value) k"

definition msg_as_u64 :: "message \<Rightarrow> u64" where
  "msg_as_u64 msg =
     (let len = min (msg_len msg) 8
      in from_le_bytes (take len (msg_data msg) @ replicate (8 - len) 0))"

definition send_cap :: "pid \<Rightarrow> pid \<Rightarrow> u64 \<Rightarrow> 'o kern \<Rightarrow> ('o kern \<times> bool) attempt option" where
  "send_cap from to cap_id k = ipc_send to (to_le_bytes cap_id) k"

definition recv_cap :: "'o kern \<Rightarrow> ('o kern \<times> u64 option) option" where
  "recv_cap k = do {
     (k, r) \<leftarrow> ipc_recv k;
     Some (k, case r of
         None \<Rightarrow> None
       | Some msg \<Rightarrow> if msg_len msg \<noteq> 8 then None else Some (from_le_bytes (take 8 (msg_data msg))))
   }"

section \<open>Lemmas\<close>

text \<open>A frame-backed buffer whose window shows the frame the sender writes, with no page table in it.\<close>

definition buf_ok :: "'o kern \<Rightarrow> shared_buffer \<Rightarrow> bool" where
  "buf_ok k buf \<longleftrightarrow> frame_backed buf \<and> write_va buf = sb_phys buf + hhdm_offset k \<and>
     page_base (sb_phys buf) = sb_phys buf \<and> tree_wf (kvm k) (kernel_cr3 (kvm k)) \<and>
     (\<forall>p. path_ok p \<longrightarrow> table_of (kvm k) (kernel_cr3 (kvm k)) p \<noteq> Some (sb_phys buf)) \<and>
     (\<exists>pa. virt_to_phys (kernel_cr3 (kvm k)) (read_va buf) (kvm k) = Some pa \<and> page_base pa = sb_phys buf)"

definition kern_ok :: "'o kern \<Rightarrow> bool" where
  "kern_ok k \<longleftrightarrow> length (SW_DOORBELLS k) = SW_SLOTS \<and> bt_wf (SHARED_BUFFERS k) \<and> bt_wf (FAST_CHANNELS k)"

lemma sw_slot_less [simp]: "sw_slot i < SW_SLOTS"
  by (simp add: sw_slot_def SW_SLOTS_def)

text \<open>Writing a frame that holds no table changes no translation.\<close>

lemma put_page_tree:
  assumes "tree_wf st root" and np: "\<And>q. path_ok q \<Longrightarrow> table_of st root q \<noteq> Some pa"
  shows "tree_wf (put_page pa p st) root" and "virt_to_phys root va (put_page pa p st) = virt_to_phys root va st"
    and "\<And>q. path_ok q \<Longrightarrow> table_of (put_page pa p st) root q = table_of st root q"
proof -
  have rd': "rd t j (put_page pa p st) = rd t j st" if "t \<noteq> pa" for t j
    using that by (simp add: rd_put_page)
  have e: "entry_at (put_page pa p st) root q j = entry_at st root q j"
    if "path_ok q" "table_of (put_page pa p st) root q = table_of st root q" for q j
    using that np [OF that(1)] rd' by (cases "table_of st root q") (auto simp: entry_at_def Let_def)
  show t: "table_of (put_page pa p st) root q = table_of st root q" if "path_ok q" for q
    using that
  proof (induction q rule: rev_induct)
    case (snoc j q)
    then show ?case using e [of q j] by (simp add: table_of_snoc path_ok_snoc)
  qed simp
  have "root \<noteq> pa" using np [of "[]"] by simp
  then show wf: "tree_wf (put_page pa p st) root"
    using assms(1) t rd' unfolding tree_wf_def by auto
  show "virt_to_phys root va (put_page pa p st) = virt_to_phys root va st"
    using virt_to_phys_cong [OF assms(1) wf] e t by blast
qed

lemma put_page_slot [simp]: "ro_channel_slot (put_page pa p st) = ro_channel_slot st"
  by (simp add: put_page_def)

lemma put_page_entry:
  assumes "tree_wf st root" and np: "\<And>q. path_ok q \<Longrightarrow> table_of st root q \<noteq> Some pa" and q: "path_ok q"
  shows "entry_at (put_page pa p st) root q j = entry_at st root q j"
  using np [OF q] put_page_tree(3) [OF assms(1) np q, where p = p]
  by (cases "table_of st root q") (auto simp: entry_at_def Let_def rd_put_page)

lemma page_bytes_prefix: "m \<le> n \<Longrightarrow> page_bytes p k m = take m (page_bytes p k n)"
  by (simp add: page_bytes_def take_map)

lemma page_bytes_written: "m \<le> length bs \<Longrightarrow> page_bytes (put_bytes 0 bs p) 0 m = take m bs"
  using page_bytes_prefix [of m "length bs" "put_bytes 0 bs p" 0] by simp

lemma write_frame_fields [simp]:
  "SHARED_BUFFERS (write_frame va bs k) = SHARED_BUFFERS k" "SW_DOORBELLS (write_frame va bs k) = SW_DOORBELLS k"
  "FAST_CHANNELS (write_frame va bs k) = FAST_CHANNELS k" "sched (write_frame va bs k) = sched k"
  "hhdm_offset (write_frame va bs k) = hhdm_offset k" "NEXT_CAP_ID (write_frame va bs k) = NEXT_CAP_ID k"
  by (simp_all add: write_frame_def Let_def)

lemma set_doorbell_fields [simp]:
  "SHARED_BUFFERS (set_doorbell i v k) = SHARED_BUFFERS k" "FAST_CHANNELS (set_doorbell i v k) = FAST_CHANNELS k"
  "kvm (set_doorbell i v k) = kvm k" "sched (set_doorbell i v k) = sched k"
  "hhdm_offset (set_doorbell i v k) = hhdm_offset k" "NEXT_CAP_ID (set_doorbell i v k) = NEXT_CAP_ID k"
  by (simp_all add: set_doorbell_def)

lemma doorbell_set [simp]:
  "length (SW_DOORBELLS k) = SW_SLOTS \<Longrightarrow>
    doorbell j (set_doorbell i v k) = (if sw_slot j = sw_slot i then v else doorbell j k)"
  by (auto simp: doorbell_def set_doorbell_def nth_upd_ite)

lemma kern_ok_update [simp]:
  "kern_ok (set_doorbell i v k) = kern_ok k" "kern_ok (write_frame va bs k) = kern_ok k"
  by (simp_all add: kern_ok_def set_doorbell_def)

text \<open>After a write through the direct map the window of the buffer reads the new bytes.\<close>

lemma write_frame_read:
  assumes "buf_ok k buf"
  shows "read_page (read_va buf) (write_frame (write_va buf) bs k) =
      Some (put_bytes 0 bs (pmem (kvm k) (sb_phys buf)))"
    and "buf_ok (write_frame (write_va buf) bs k) buf"
proof -
  let ?r = "kernel_cr3 (kvm k)"
  have w: "write_frame (write_va buf) bs k =
      k\<lparr>kvm := put_page (sb_phys buf) (put_bytes 0 bs (pmem (kvm k) (sb_phys buf))) (kvm k)\<rparr>"
    using assms by (simp add: write_frame_def Let_def buf_ok_def)
  have wf: "tree_wf (kvm k) ?r" and np: "\<And>q. path_ok q \<Longrightarrow> table_of (kvm k) ?r q \<noteq> Some (sb_phys buf)"
    using assms by (simp_all add: buf_ok_def)
  note pt = put_page_tree [OF wf np]
  obtain pa where pa: "virt_to_phys ?r (read_va buf) (kvm k) = Some pa" "page_base pa = sb_phys buf"
    using assms by (auto simp: buf_ok_def)
  show "read_page (read_va buf) (write_frame (write_va buf) bs k) =
      Some (put_bytes 0 bs (pmem (kvm k) (sb_phys buf)))"
    by (simp add: read_page_def w pt(2) pa) (simp add: put_page_def)
  show "buf_ok (write_frame (write_va buf) bs k) buf"
    unfolding w using assms pa pt(3) by (simp add: buf_ok_def pt(1,2))
qed

lemma buf_ok_doorbell [simp]: "buf_ok (set_doorbell i v k) buf = buf_ok k buf"
  by (simp add: buf_ok_def)

lemma read_page_doorbell [simp]: "read_page va (set_doorbell i v k) = read_page va k"
  by (simp add: read_page_def)

section \<open>Isolation of the channels\<close>

text \<open>Window addresses of different slots lie on different pages.\<close>

definition ro_window :: "u64 \<Rightarrow> u64" where
  "ro_window s = RO_CHANNEL_BASE + s * 4096"

lemma unat_ro_window:
  assumes "unat s < 2 ^ 27"
  shows "unat (ro_window s) = 0xFFFFA00000000000 + unat s * 4096"
proof -
  have "unat (s * 4096) = unat s * 4096" using assms by (simp add: unat_word_ariths)
  with assms show ?thesis by (simp add: ro_window_def RO_CHANNEL_BASE_def unat_word_ariths)
qed

lemma div_mod_512: "(a :: nat) div b mod 512 = a' div b mod 512 \<Longrightarrow> a div (b * 512) mod c = a' div (b * 512) mod c \<Longrightarrow>
    a div b mod (512 * c) = a' div b mod (512 * c)"
  by (simp add: mod_mult2_eq flip: div_mult2_eq)

lemma page_number_eq:
  assumes "(a :: nat) div 2 ^ 12 mod 512 = b div 2 ^ 12 mod 512" and "a div 2 ^ 21 mod 512 = b div 2 ^ 21 mod 512"
    and "a div 2 ^ 30 mod 512 = b div 2 ^ 30 mod 512"
  shows "a div 2 ^ 12 mod 2 ^ 27 = b div 2 ^ 12 mod 2 ^ 27"
proof -
  have p: "(2 :: nat) ^ 21 * 512 = 2 ^ 30" "(2 :: nat) ^ 12 * 512 = 2 ^ 21" "(512 :: nat) * (512 * 512) = 2 ^ 27"
    by simp_all
  have "a div 2 ^ 21 mod (512 * 512) = b div 2 ^ 21 mod (512 * 512)"
    by (rule div_mod_512 [OF assms(2)]) (simp only: p assms)
  then have "a div 2 ^ 12 mod (512 * (512 * 512)) = b div 2 ^ 12 mod (512 * (512 * 512))"
    by (intro div_mod_512 [OF assms(1)]) (simp only: p)
  then show ?thesis by (simp only: p)
qed

lemma ro_window_page:
  assumes "unat s < 2 ^ 27"
  shows "unat (ro_window s) div 2 ^ 12 mod 2 ^ 27 = unat s"
proof -
  have "unat (ro_window s) div 2 ^ 12 = 0xFFFFA00000000 + unat s"
    unfolding unat_ro_window [OF assms] by simp
  also have "\<dots> mod 2 ^ 27 = unat s mod 2 ^ 27"
    using mod_mult_self3 [of "0xFFFFA00000000 div 134217728" 134217728 "unat s"] by simp
  finally show ?thesis using assms by simp
qed

lemma ro_window_inj:
  assumes "unat s < 2 ^ 27" and "unat t < 2 ^ 27" and "same_page (ro_window s) (ro_window t)"
  shows "s = t"
proof -
  have "unat (ro_window s) div 2 ^ 12 mod 2 ^ 27 = unat (ro_window t) div 2 ^ 12 mod 2 ^ 27"
    by (rule page_number_eq; use assms(3) in \<open>simp only: same_page_def va_path_def pt_idx_nat list.inject\<close>)
  then show ?thesis unfolding ro_window_page [OF assms(1)] ro_window_page [OF assms(2)]
    by (simp add: word_unat_eq_iff)
qed

text \<open>A live channel: its window entry maps its frame read-only, and the frame is not free.\<close>

definition channel_live :: "'o kern \<Rightarrow> shared_buffer \<Rightarrow> bool" where
  "channel_live k buf \<longleftrightarrow> buf_ok k buf \<and> sb_phys buf \<notin> vavail (kvm k) \<and>
     (\<exists>s. unat s < unat (ro_channel_slot (kvm k)) \<and> read_va buf = ro_window s) \<and>
     entry_at (kvm k) (kernel_cr3 (kvm k)) (va_path (read_va buf)) (pt_idx 12 (read_va buf)) =
       Some (sb_phys buf OR PTE_PRESENT)"

definition channels_ok :: "'o kern \<Rightarrow> bool" where
  "channels_ok k \<longleftrightarrow> kern_ok k \<and> tree_wf (kvm k) (kernel_cr3 (kvm k)) \<and>
     unat (ro_channel_slot (kvm k)) \<le> 2 ^ 27 \<and>
     (\<forall>s. unat s < 2 ^ 27 \<longrightarrow> small_path (kernel_cr3 (kvm k)) (ro_window s) (kvm k)) \<and>
     (\<forall>i buf. bt_get i (SHARED_BUFFERS k) = Some buf \<longrightarrow> frame_backed buf \<longrightarrow> channel_live k buf) \<and>
     (\<forall>i j bi bj. bt_get i (SHARED_BUFFERS k) = Some bi \<longrightarrow> bt_get j (SHARED_BUFFERS k) = Some bj \<longrightarrow>
        frame_backed bi \<longrightarrow> frame_backed bj \<longrightarrow> i \<noteq> j \<longrightarrow> sb_phys bi \<noteq> sb_phys bj)"

text \<open>Only the memory and the frame fields of the table matter.\<close>

lemma channel_live_cong:
  "kvm k' = kvm k \<Longrightarrow> hhdm_offset k' = hhdm_offset k \<Longrightarrow> channel_live k' buf = channel_live k buf"
  by (simp add: channel_live_def buf_ok_def)

lemma channels_ok_same_memory:
  assumes "channels_ok k" and "kern_ok k'" and "kvm k' = kvm k" and "hhdm_offset k' = hhdm_offset k"
    and "SHARED_BUFFERS k' = SHARED_BUFFERS k"
  shows "channels_ok k'"
  using assms unfolding channels_ok_def by (simp add: channel_live_cong [OF assms(3,4)])

lemma put_page_live:
  assumes "tree_wf (kvm k) (kernel_cr3 (kvm k))"
    and np: "\<And>q. path_ok q \<Longrightarrow> table_of (kvm k) (kernel_cr3 (kvm k)) q \<noteq> Some pa"
    and "channel_live k buf"
  shows "channel_live (k\<lparr>kvm := put_page pa p (kvm k)\<rparr>) buf"
proof -
  let ?r = "kernel_cr3 (kvm k)"
  note pt = put_page_tree [OF assms(1) np]
  note en = put_page_entry [OF assms(1) np]
  show ?thesis using assms(3) pt en by (simp add: channel_live_def buf_ok_def)
qed

lemma channels_ok_put_page:
  assumes ok: "channels_ok k"
    and np: "\<And>q. path_ok q \<Longrightarrow> table_of (kvm k) (kernel_cr3 (kvm k)) q \<noteq> Some pa"
  shows "channels_ok (k\<lparr>kvm := put_page pa p (kvm k)\<rparr>)"
proof -
  let ?r = "kernel_cr3 (kvm k)"
  have wf: "tree_wf (kvm k) ?r" using ok by (simp add: channels_ok_def)
  note pt = put_page_tree [OF wf np] and lv = put_page_live [OF wf np]
  note en = put_page_entry [OF wf np]
  have sp: "small_path ?r va (put_page pa p (kvm k)) = small_path ?r va (kvm k)" for va
    by (simp add: small_path_def en)
  show ?thesis using ok lv pt(1) unfolding channels_ok_def by (simp add: sp kern_ok_def)
qed

lemma channels_ok_write:
  assumes "channels_ok k" and "bt_get i (SHARED_BUFFERS k) = Some buf" and "frame_backed buf"
  shows "channels_ok (write_frame (write_va buf) bs k)"
proof -
  have b: "buf_ok k buf" using assms by (auto simp: channels_ok_def channel_live_def)
  then show ?thesis
    using channels_ok_put_page [OF assms(1), of "sb_phys buf"]
    by (simp add: write_frame_def Let_def buf_ok_def)
qed

text \<open>Replacing a buffer by one with the same frame, or by one without.\<close>

lemma channels_ok_insert:
  assumes ok: "channels_ok k"
    and "\<not> frame_backed buf' \<or> (\<exists>buf. bt_get i (SHARED_BUFFERS k) = Some buf \<and> frame_backed buf \<and>
      sb_phys buf' = sb_phys buf \<and> write_va buf' = write_va buf \<and> read_va buf' = read_va buf)"
  shows "channels_ok (k\<lparr>SHARED_BUFFERS := bt_insert i buf' (SHARED_BUFFERS k)\<rparr>)"
proof -
  let ?k = "k\<lparr>SHARED_BUFFERS := bt_insert i buf' (SHARED_BUFFERS k)\<rparr>"
  have w: "bt_wf (SHARED_BUFFERS k)" using ok by (simp add: channels_ok_def kern_ok_def)
  have live: "channel_live ?k b = channel_live k b" for b by (rule channel_live_cong) simp_all
  have l: "channel_live k buf'" if "frame_backed buf'"
    using that assms unfolding channels_ok_def channel_live_def buf_ok_def by metis
  have d: "sb_phys buf' \<noteq> sb_phys bj"
    if "frame_backed buf'" "j \<noteq> i" "bt_get j (SHARED_BUFFERS k) = Some bj" "frame_backed bj" for j bj
    using that assms unfolding channels_ok_def by metis
  show ?thesis
    using ok l d d [symmetric] unfolding channels_ok_def live by (auto simp: w kern_ok_def)
qed

text \<open>A new channel frame: every older channel survives, and the new one is live.\<close>

lemma alloc_frame_keeps_live:
  assumes ok: "channels_ok k" and s: "unat (ro_channel_slot (kvm k)) < 2 ^ 27"
    and a: "alloc_channel_frame (hhdm_offset k) (kvm k) = Some (m, w, r, phys)"
    and l: "channel_live k buf"
  shows "channel_live (k\<lparr>kvm := m\<rparr>) buf" and "sb_phys buf \<noteq> phys"
proof -
  let ?r = "kernel_cr3 (kvm k)"
  have wf: "tree_wf (kvm k) ?r" using ok by (simp add: channels_ok_def)
  have sp: "small_path ?r (RO_CHANNEL_BASE + ro_channel_slot (kvm k) * 4096) (kvm k)"
    using ok s by (simp add: channels_ok_def flip: ro_window_def)
  note f = alloc_channel_frame_spec [OF wf sp a]
  obtain t where t: "unat t < unat (ro_channel_slot (kvm k))" "read_va buf = ro_window t"
    using l by (auto simp: channel_live_def)
  have np: "\<not> same_page r (read_va buf)"
    using ro_window_inj [of "ro_channel_slot (kvm k)" t] t s f(5) by (auto simp: ro_window_def)
  have e: "entry_at m ?r (va_path (read_va buf)) (pt_idx 12 (read_va buf)) = Some (sb_phys buf OR PTE_PRESENT)"
    using f(15) [OF path_ok_va(3) pt_idx_less] l np
    by (auto simp: channel_live_def same_page_def)
  have "unat (ro_channel_slot (kvm k) + 1) = unat (ro_channel_slot (kvm k)) + 1"
    using s by (simp add: unat_word_ariths)
  then have "\<exists>t. unat t < unat (ro_channel_slot m) \<and> read_va buf = ro_window t"
    using t by (intro exI [of _ t]) (simp add: f(6))
  moreover have "virt_to_phys ?r (read_va buf) m = virt_to_phys ?r (read_va buf) (kvm k)"
    using f(9) np by simp
  ultimately show "channel_live (k\<lparr>kvm := m\<rparr>) buf"
    using l e f(7,8,12) f(13) unfolding channel_live_def buf_ok_def by auto
  show "sb_phys buf \<noteq> phys" using l f(1) by (auto simp: channel_live_def)
qed

lemma alloc_shared_frame_ok:
  assumes ok: "channels_ok k" and s: "unat (ro_channel_slot (kvm k)) < 2 ^ 27"
    and a: "alloc_shared_frame owner c k = Some (k', i)"
  shows "channels_ok k'"
    and "\<exists>buf. bt_get i (SHARED_BUFFERS k') = Some buf \<and> frame_backed buf \<and> sb_owner buf = owner \<and>
      sb_phys buf \<in> vavail (kvm k) \<and> frame_len buf = min c 4096 \<and> read_va buf = ro_window (ro_channel_slot (kvm k))"
    and "\<And>j. j \<noteq> i \<Longrightarrow> bt_get j (SHARED_BUFFERS k') = bt_get j (SHARED_BUFFERS k)"
    and "FAST_CHANNELS k' = FAST_CHANNELS k" and "i = NEXT_CAP_ID k" and "sched k' = sched k"
    and "ro_channel_slot (kvm k') = ro_channel_slot (kvm k) + 1"
proof -
  let ?r = "kernel_cr3 (kvm k)"
  from a obtain m w r phys where c: "alloc_channel_frame (hhdm_offset k) (kvm k) = Some (m, w, r, phys)"
    and k': "k' = k\<lparr>kvm := m, NEXT_CAP_ID := i + 1, SHARED_BUFFERS := bt_insert i
      \<lparr>sb_id = i, sb_data = [], sb_owner = owner, frame_backed = True, write_va = w, read_va = r,
       sb_phys = phys, frame_len = min c 4096\<rparr> (SHARED_BUFFERS k)\<rparr>" and i: "i = NEXT_CAP_ID k"
    by (auto simp: alloc_shared_frame_def Let_def bind_eq_Some_conv)
  let ?b = "\<lparr>sb_id = i, sb_data = [], sb_owner = owner, frame_backed = True, write_va = w, read_va = r,
       sb_phys = phys, frame_len = min c 4096\<rparr>"
  have w: "bt_wf (SHARED_BUFFERS k)" and wf: "tree_wf (kvm k) ?r"
    using ok by (simp_all add: channels_ok_def kern_ok_def)
  have sp: "small_path ?r (RO_CHANNEL_BASE + ro_channel_slot (kvm k) * 4096) (kvm k)"
    using ok s by (simp add: channels_ok_def flip: ro_window_def)
  note f = alloc_channel_frame_spec [OF wf sp c]
  note keep = alloc_frame_keeps_live [OF ok s c]
  have live: "channel_live k' b = channel_live (k\<lparr>kvm := m\<rparr>) b" for b
    by (rule channel_live_cong) (simp_all add: k')
  have u: "unat (ro_channel_slot (kvm k) + 1) = unat (ro_channel_slot (kvm k)) + 1"
    using s by (simp add: unat_word_ariths)
  have "virt_to_phys ?r r m = Some (phys OR (r AND 0xFFF))" using f(9) by (simp add: same_page_def)
  moreover have "page_base (phys OR (r AND 0xFFF)) = phys"
    using f(4) by simp (simp add: page_base_def and.assoc)
  ultimately have lb: "channel_live k' ?b"
    using f(2-8,10,11) unfolding live unfolding channel_live_def buf_ok_def
    by (auto simp: ro_window_def u intro: exI [of _ "ro_channel_slot (kvm k)"])
  show nth: "\<And>j. j \<noteq> i \<Longrightarrow> bt_get j (SHARED_BUFFERS k') = bt_get j (SHARED_BUFFERS k)"
    "\<exists>buf. bt_get i (SHARED_BUFFERS k') = Some buf \<and> frame_backed buf \<and> sb_owner buf = owner \<and>
      sb_phys buf \<in> vavail (kvm k) \<and> frame_len buf = min c 4096 \<and> read_va buf = ro_window (ro_channel_slot (kvm k))"
    "FAST_CHANNELS k' = FAST_CHANNELS k" "i = NEXT_CAP_ID k" "sched k' = sched k"
    "ro_channel_slot (kvm k') = ro_channel_slot (kvm k) + 1"
    using w f(1,5,6) by (simp_all add: k' i ro_window_def)
  have old: "channel_live k' b \<and> sb_phys b \<noteq> phys"
    if "bt_get j (SHARED_BUFFERS k) = Some b" "frame_backed b" for j b
    using that ok keep unfolding live channels_ok_def by blast
  have bi: "bt_get i (SHARED_BUFFERS k') = Some ?b" using w by (simp add: k')
  have mem: "kern_ok k'" "tree_wf (kvm k') (kernel_cr3 (kvm k'))" "unat (ro_channel_slot (kvm k')) \<le> 2 ^ 27"
    "\<forall>s. unat s < 2 ^ 27 \<longrightarrow> small_path (kernel_cr3 (kvm k')) (ro_window s) (kvm k')"
    using ok f(6-8,14) s u by (simp_all add: k' kern_ok_def channels_ok_def)
  have "channel_live k' b" if "bt_get j (SHARED_BUFFERS k') = Some b" "frame_backed b" for j b
    using that lb old nth(1) bi by (cases "j = i") auto
  moreover have "sb_phys b \<noteq> sb_phys b'" if "bt_get j (SHARED_BUFFERS k') = Some b" "frame_backed b"
    "bt_get j' (SHARED_BUFFERS k') = Some b'" "frame_backed b'" "j \<noteq> j'" for j b j' b'
  proof (cases "j = i")
    case True
    then have "b = ?b" "bt_get j' (SHARED_BUFFERS k) = Some b'" using that nth(1) bi by auto
    then show ?thesis using old that(4) by fastforce
  next
    case False
    then have j: "bt_get j (SHARED_BUFFERS k) = Some b" using that nth(1) by auto
    show ?thesis
    proof (cases "j' = i")
      case True
      then show ?thesis using that old [OF j] bi by auto
    next
      case False
      then have "bt_get j' (SHARED_BUFFERS k) = Some b'" using that nth(1) by auto
      then show ?thesis using j that(2,4,5) ok unfolding channels_ok_def by blast
    qed
  qed
  ultimately show "channels_ok k'" using mem unfolding channels_ok_def by blast
qed

lemma page_base_div: "page_base pa = pa div 4096 * 4096"
proof -
  have "page_base pa = push_bit 12 (drop_bit 12 pa)"
    unfolding page_base_def FFF_mask by (rule bit_eqI) (auto simp: bit_simps)
  then show ?thesis by (simp add: push_bit_eq_mult drop_bit_eq_div)
qed

lemma free_frame_avail:
  assumes "free_frame pa fr = Some fr'" and "page_base pa = pa"
  shows "frame_avail fr' \<subseteq> insert pa (frame_avail fr)"
proof -
  let ?f = "unat (pa div PAGE_SIZE)"
  have "frame_addr ?f = pa" using assms(2) by (simp add: frame_addr_def PAGE_SIZE_def page_base_div)
  then show ?thesis
    using free_frame_spec [of pa fr] assms(1)
    by (cases "?f < MAX_FRAMES \<and> ?f \<notin> free_set fr") (auto simp: frame_avail_def Let_def)
qed

lemma drop_shared_ok:
  assumes ok: "channels_ok k" and d: "drop_shared i k = Some (k', b)"
  shows "channels_ok k'"
proof (cases "bt_get i (SHARED_BUFFERS k)")
  case None
  then show ?thesis using ok d by (simp add: drop_shared_def)
next
  case (Some buf)
  let ?t = "k\<lparr>SHARED_BUFFERS := bt_remove i (SHARED_BUFFERS k)\<rparr>"
  have w: "bt_wf (SHARED_BUFFERS k)" using ok by (simp add: channels_ok_def kern_ok_def)
  have live: "channel_live ?t c = channel_live k c" for c by (rule channel_live_cong) simp_all
  have t: "channels_ok ?t" using ok unfolding channels_ok_def live by (auto simp: w kern_ok_def)
  show ?thesis
  proof (cases "frame_backed buf")
    case False
    then show ?thesis using t d Some by (simp add: drop_shared_def)
  next
    case True
    with d Some obtain fr where fr: "free_frame (sb_phys buf) (frames (kvm k)) = Some fr"
      and k': "k' = ?t\<lparr>kvm := (kvm k)\<lparr>frames := fr\<rparr>\<rparr>"
      by (auto simp: drop_shared_def free_channel_frame_def bind_eq_Some_conv Let_def)
    let ?m = "(kvm k)\<lparr>frames := fr\<rparr>" and ?r = "kernel_cr3 (kvm k)"
    have lb: "channel_live k buf" using ok Some True by (simp add: channels_ok_def)
    have av: "vavail ?m \<subseteq> insert (sb_phys buf) (vavail (kvm k))"
      using free_frame_avail [OF fr] lb by (simp add: vavail_def channel_live_def buf_ok_def)
    have rd: "rd t j ?m = rd t j (kvm k)" for t j by (simp add: rd_def)
    have tab: "table_of ?m ?r q = table_of (kvm k) ?r q" for q
      by (induction q rule: rev_induct) (simp_all add: table_of_snoc entry_at_def rd cong: option.case_cong)
    have en: "entry_at ?m ?r q j = entry_at (kvm k) ?r q j" for q j
      by (simp add: entry_at_def tab rd cong: option.case_cong)
    have wf: "tree_wf (kvm k) ?r" using ok by (simp add: channels_ok_def)
    have wf': "tree_wf ?m ?r"
    proof -
      have "t \<notin> vavail ?m" if "path_ok q" "table_of (kvm k) ?r q = Some t" for q t
        using tree_wf_used [OF wf that] that av lb by (auto simp: channel_live_def buf_ok_def)
      then show ?thesis using wf unfolding tree_wf_def tab rd by blast
    qed
    have v: "virt_to_phys ?r va ?m = virt_to_phys ?r va (kvm k)" for va
      by (rule virt_to_phys_cong [OF wf wf']) (simp add: en)
    have "channel_live k' c" if "channel_live k c" "sb_phys c \<noteq> sb_phys buf" for c
      using that wf' av by (auto simp: channel_live_def buf_ok_def k' tab en v)
    moreover have "small_path ?r va ?m = small_path ?r va (kvm k)" for va by (simp add: small_path_def en)
    ultimately show ?thesis
      using t ok wf' Some True unfolding channels_ok_def by (auto simp: k' kern_ok_def w)
  qed
qed

lemma channels_okD:
  assumes "channels_ok k"
  shows "kern_ok k" "tree_wf (kvm k) (kernel_cr3 (kvm k))"
    and "bt_get i (SHARED_BUFFERS k) = Some buf \<Longrightarrow> frame_backed buf \<Longrightarrow> channel_live k buf"
    and "bt_get i (SHARED_BUFFERS k) = Some buf \<Longrightarrow> frame_backed buf \<Longrightarrow> buf_ok k buf"
    and "bt_get i (SHARED_BUFFERS k) = Some bi \<Longrightarrow> bt_get j (SHARED_BUFFERS k) = Some bj \<Longrightarrow>
      frame_backed bi \<Longrightarrow> frame_backed bj \<Longrightarrow> i \<noteq> j \<Longrightarrow> sb_phys bi \<noteq> sb_phys bj"
  using assms unfolding channels_ok_def channel_live_def by blast+

lemma channels_ok_doorbell [simp]: "channels_ok (set_doorbell i v k) = channels_ok k"
  using channels_ok_same_memory [of k "set_doorbell i v k"] channels_ok_same_memory [of "set_doorbell i v k" k]
    channels_okD(1) [of k] channels_okD(1) [of "set_doorbell i v k"] by auto

lemma reset_doorbell_ok: "channels_ok k \<Longrightarrow> channels_ok (reset_doorbell i k)"
  by (simp add: reset_doorbell_def)

lemma overwrite_shared_ok:
  assumes "channels_ok k"
  shows "channels_ok (fst (overwrite_shared i data k))"
proof (cases "bt_get i (SHARED_BUFFERS k)")
  case (Some buf)
  then show ?thesis
    using channels_ok_insert [OF assms, where i = i and buf' = "buf\<lparr>sb_data := data\<rparr>"]
      channels_ok_write [OF assms Some, of "take (min (length data) 4096) data"]
      channels_ok_insert [where i = i and buf' = "buf\<lparr>frame_len := min (length data) 4096\<rparr>"
        and k = "write_frame (write_va buf) (take (min (length data) 4096) data) k"]
    by (cases "frame_backed buf") (simp_all add: overwrite_shared_def Let_def)
qed (simp add: overwrite_shared_def assms)

lemma append_shared_ok:
  assumes "channels_ok k"
  shows "channels_ok (fst (append_shared i data k))"
proof (cases "bt_get i (SHARED_BUFFERS k)")
  case (Some buf)
  then show ?thesis
    using channels_ok_insert [OF assms, where i = i and buf' = "buf\<lparr>sb_data := sb_data buf @ data\<rparr>"]
    by (cases "frame_backed buf") (simp_all add: append_shared_def)
qed (simp add: append_shared_def assms)

lemma alloc_shared_ok:
  assumes "channels_ok k"
  shows "channels_ok (fst (alloc_shared owner data k))"
proof -
  let ?b = "\<lparr>sb_id = NEXT_CAP_ID k, sb_data = data, sb_owner = owner, frame_backed = False,
    write_va = 0, read_va = 0, sb_phys = 0, frame_len = 0\<rparr>"
  have "channels_ok (k\<lparr>SHARED_BUFFERS := bt_insert (NEXT_CAP_ID k) ?b (SHARED_BUFFERS k)\<rparr>)" (is "channels_ok ?t")
    by (rule channels_ok_insert [OF assms]) simp
  then show ?thesis
    by (rule channels_ok_same_memory)
      (use channels_okD(1) [OF \<open>channels_ok ?t\<close>] in \<open>simp_all add: alloc_shared_def Let_def kern_ok_def\<close>)
qed

lemma send_switchless_ok:
  assumes "channels_ok k" and "send_switchless i data k = Done (k', b)"
  shows "channels_ok k'"
  using assms channels_ok_write [OF assms(1)]
  by (auto simp: send_switchless_def Let_def split: option.splits if_splits)

lemma poll_switchless_ok:
  assumes "channels_ok k" and "poll_switchless i n k = Some (k', r)"
  shows "channels_ok k'"
  using assms by (auto simp: poll_switchless_def Let_def bind_eq_Some_conv split: option.splits if_splits)

text \<open>The self test of a live channel succeeds; it leaves a zero in the first byte.\<close>

lemma isolation_check:
  assumes ok: "channels_ok k" and b: "bt_get i (SHARED_BUFFERS k) = Some buf" and fb: "frame_backed buf"
  shows "verify_channel_isolation i k = Some (write_frame (write_va buf) [0] (write_frame (write_va buf) [0x5A] k), Isolation_Ok)"
    and "channels_ok (write_frame (write_va buf) [0] (write_frame (write_va buf) [0x5A] k))"
proof -
  let ?r = "kernel_cr3 (kvm k)" and ?m = "kvm k"
  note lv = channels_okD(3) [OF ok b fb] and bo = channels_okD(4) [OF ok b fb]
  obtain x where x: "table_of ?m ?r (va_path (read_va buf)) = Some x"
      "rd x (pt_idx 12 (read_va buf)) ?m = sb_phys buf OR PTE_PRESENT"
    using lv by (auto simp: channel_live_def entry_at_def Let_def split: option.splits if_splits)
  have "present PTE_PRESENT" by (simp add: present_def PTE_PRESENT_def)
  then have pte: "get_kernel_pte (read_va buf) ?m = Some (sb_phys buf OR PTE_PRESENT)"
    using get_user_pte_table [OF channels_okD(2) [OF ok] x(1)] x(2) by (simp add: get_kernel_pte_def)
  have pb: "page_base (sb_phys buf) = sb_phys buf" using bo by (simp add: buf_ok_def)
  have "sb_phys buf AND 2 = page_base (sb_phys buf) AND 2" by (simp add: pb)
  also have "\<dots> = 0" by (simp add: page_base_def and.assoc)
  finally have nw: "(sb_phys buf OR PTE_PRESENT) AND 2 = 0"
    by (simp add: bit.conj_disj_distrib2 PTE_PRESENT_def)
  have "page_byte (put_bytes 0 [0x5A] (pmem ?m (sb_phys buf))) 0 = 0x5A"
    using page_bytes_written [of 1 "[0x5A]" "pmem ?m (sb_phys buf)"] by (simp add: page_bytes_def)
  then show "verify_channel_isolation i k =
      Some (write_frame (write_va buf) [0] (write_frame (write_va buf) [0x5A] k), Isolation_Ok)"
    using b fb pte nw write_frame_read(1) [OF bo, of "[0x5A]"]
    by (simp add: verify_channel_isolation_def Let_def)
  have "channels_ok (write_frame (write_va buf) [0x5A] k)" by (rule channels_ok_write [OF ok b fb])
  from channels_ok_write [OF this, of i buf] b fb
  show "channels_ok (write_frame (write_va buf) [0] (write_frame (write_va buf) [0x5A] k))" by simp
qed

lemma verify_ok:
  assumes "channels_ok k" and "verify_channel_isolation i k = Some (k', r)"
  shows "channels_ok k'"
proof (cases "\<exists>buf. bt_get i (SHARED_BUFFERS k) = Some buf \<and> frame_backed buf")
  case True
  then show ?thesis using isolation_check [OF assms(1)] assms(2) by fastforce
next
  case False
  then show ?thesis using assms by (auto simp: verify_channel_isolation_def split: option.splits if_splits)
qed

text \<open>The operations on the channels and buffers.\<close>

inductive ipc_step :: "'o kern \<Rightarrow> 'o kern \<Rightarrow> bool" where
  ipc_alloc: "ipc_step k (fst (alloc_shared owner data k))"
| ipc_alloc_frame: "unat (ro_channel_slot (kvm k)) < 2 ^ 27 \<Longrightarrow> alloc_shared_frame owner c k = Some (k', i) \<Longrightarrow>
    ipc_step k k'"
| ipc_ensure: "unat (ro_channel_slot (kvm k)) < 2 ^ 27 \<Longrightarrow> ensure_channel_cap from to c k = Some (k', i) \<Longrightarrow>
    ipc_step k k'"
| ipc_overwrite: "ipc_step k (fst (overwrite_shared i data k))"
| ipc_append: "ipc_step k (fst (append_shared i data k))"
| ipc_drop: "drop_shared i k = Some (k', b) \<Longrightarrow> ipc_step k k'"
| ipc_drop_channel: "drop_channel from to k = Some k' \<Longrightarrow> ipc_step k k'"
| ipc_verify: "verify_channel_isolation i k = Some (k', r) \<Longrightarrow> ipc_step k k'"
| ipc_reset: "ipc_step k (reset_doorbell i k)"
| ipc_send: "ipc_send to data k = Some (Done (k', b)) \<Longrightarrow> ipc_step k k'"
| ipc_recv: "ipc_recv k = Some (k', m) \<Longrightarrow> ipc_step k k'"

lemma ensure_channel_ok:
  assumes ok: "channels_ok k" and s: "unat (ro_channel_slot (kvm k)) < 2 ^ 27"
    and e: "ensure_channel_cap f t c k = Some (k', i)"
  shows "channels_ok k'"
    and "get_channel f t k = None \<Longrightarrow> i = NEXT_CAP_ID k \<and> get_channel f t k' = Some i \<and> doorbell i k' = 0 \<and>
      sched k' = sched k \<and> ro_channel_slot (kvm k') = ro_channel_slot (kvm k) + 1 \<and>
      FAST_CHANNELS k' = bt_insert (f, t) i (FAST_CHANNELS k) \<and>
      (\<exists>buf. bt_get i (SHARED_BUFFERS k') = Some buf \<and> frame_backed buf \<and> sb_owner buf = f \<and>
        sb_phys buf \<in> vavail (kvm k)) \<and>
      (\<forall>j. j \<noteq> i \<longrightarrow> bt_get j (SHARED_BUFFERS k') = bt_get j (SHARED_BUFFERS k))"
proof -
  have "channels_ok k' \<and> (get_channel f t k = None \<longrightarrow> i = NEXT_CAP_ID k \<and> get_channel f t k' = Some i \<and>
      doorbell i k' = 0 \<and> sched k' = sched k \<and> ro_channel_slot (kvm k') = ro_channel_slot (kvm k) + 1 \<and>
      FAST_CHANNELS k' = bt_insert (f, t) i (FAST_CHANNELS k) \<and>
      (\<exists>buf. bt_get i (SHARED_BUFFERS k') = Some buf \<and> frame_backed buf \<and> sb_owner buf = f \<and>
        sb_phys buf \<in> vavail (kvm k)) \<and>
      (\<forall>j. j \<noteq> i \<longrightarrow> bt_get j (SHARED_BUFFERS k') = bt_get j (SHARED_BUFFERS k)))"
  proof (cases "get_channel f t k")
    case (Some j)
    then show ?thesis using ok e by (simp add: ensure_channel_cap_def get_channel_def)
  next
    case None
    from None e obtain k1 r where a: "alloc_shared_frame f c k = Some (k1, i)"
      and v: "verify_channel_isolation i
        ((set_doorbell i 0 k1)\<lparr>FAST_CHANNELS := bt_insert (f, t) i (FAST_CHANNELS k1)\<rparr>) = Some (k', r)"
      by (auto simp: ensure_channel_cap_def get_channel_def Let_def bind_eq_Some_conv reset_doorbell_def)
    let ?k2 = "(set_doorbell i 0 k1)\<lparr>FAST_CHANNELS := bt_insert (f, t) i (FAST_CHANNELS k1)\<rparr>"
    note af = alloc_shared_frame_ok [OF ok s a]
    have ko: "kern_ok k1" by (rule channels_okD(1) [OF af(1)])
    have "channels_ok (set_doorbell i 0 k1)" using af(1) by simp
    then have ok2: "channels_ok ?k2"
      by (rule channels_ok_same_memory) (use ko in \<open>simp_all add: kern_ok_def set_doorbell_def\<close>)
    obtain buf where buf: "bt_get i (SHARED_BUFFERS k1) = Some buf" "frame_backed buf" "sb_owner buf = f"
      "sb_phys buf \<in> vavail (kvm k)" using af(2) by blast
    have "k' = write_frame (write_va buf) [0] (write_frame (write_va buf) [0x5A] ?k2)"
      and c: "channels_ok k'"
      using isolation_check [OF ok2, of i buf] v buf(1,2) by auto
    then have f: "SHARED_BUFFERS k' = SHARED_BUFFERS k1" "FAST_CHANNELS k' = FAST_CHANNELS ?k2"
      "SW_DOORBELLS k' = SW_DOORBELLS ?k2" "sched k' = sched k1" "ro_channel_slot (kvm k') = ro_channel_slot (kvm k1)"
      by (simp_all add: write_frame_def Let_def)
    have "doorbell i k' = doorbell i (set_doorbell i 0 k1)" using f(3) by (simp add: doorbell_def)
    also have "\<dots> = 0" using ko by (simp add: kern_ok_def)
    finally show ?thesis using c f buf af(3-7) ko by (auto simp: get_channel_def kern_ok_def)
  qed
  then show "channels_ok k'" and "get_channel f t k = None \<Longrightarrow> i = NEXT_CAP_ID k \<and> get_channel f t k' = Some i \<and>
      doorbell i k' = 0 \<and> sched k' = sched k \<and> ro_channel_slot (kvm k') = ro_channel_slot (kvm k) + 1 \<and>
      FAST_CHANNELS k' = bt_insert (f, t) i (FAST_CHANNELS k) \<and>
      (\<exists>buf. bt_get i (SHARED_BUFFERS k') = Some buf \<and> frame_backed buf \<and> sb_owner buf = f \<and>
        sb_phys buf \<in> vavail (kvm k)) \<and>
      (\<forall>j. j \<noteq> i \<longrightarrow> bt_get j (SHARED_BUFFERS k') = bt_get j (SHARED_BUFFERS k))"
    by blast+
qed

lemma channels_ok_sched:
  assumes "channels_ok k"
  shows "channels_ok (k\<lparr>sched := s\<rparr>)"
  by (rule channels_ok_same_memory [OF assms]) (use channels_okD(1) [OF assms] in \<open>simp_all add: kern_ok_def\<close>)

lemma poll_channels_ok:
  "channels_ok k \<Longrightarrow> poll_channels cs k = Some (k', r) \<Longrightarrow> channels_ok k'"
proof (induction cs arbitrary: k)
  case (Cons c cs)
  obtain i frm where c: "c = (i, frm)" by fastforce
  with Cons.prems(2) obtain k1 q where q: "poll_switchless i 64 k = Some (k1, q)"
    by (auto simp: bind_eq_Some_conv)
  have "channels_ok k1" by (rule poll_switchless_ok [OF Cons.prems(1) q])
  then show ?case using Cons.IH Cons.prems(2) q c by (cases q) auto
qed simp

lemma ipc_recv_ok:
  assumes "channels_ok k" and "ipc_recv k = Some (k', m)"
  shows "channels_ok k'"
proof -
  from assms(2) obtain p k1 r where p: "poll_channels (find_incoming_channels p 8 k) k = Some (k1, r)"
    and "k' = k1 \<or> (\<exists>s. k' = k1\<lparr>sched := s\<rparr>)"
    unfolding ipc_recv_def
    by (fastforce simp: bind_eq_Some_conv Let_def split: option.splits if_splits)
  moreover have "channels_ok k1" by (rule poll_channels_ok [OF assms(1) p])
  ultimately show ?thesis using channels_ok_sched by blast
qed

lemma ipc_send_ok:
  assumes "channels_ok k" and "ipc_send to data k = Some (Done (k', b))"
  shows "channels_ok k'"
  using assms send_switchless_ok [OF assms(1)] channels_ok_sched
  by (auto simp: ipc_send_def bind_eq_Some_conv Let_def split: option.splits)

lemma drop_channel_ok: "channels_ok k \<Longrightarrow> drop_channel f t k = Some k' \<Longrightarrow> channels_ok k'"
proof -
  assume ok: "channels_ok k" and d: "drop_channel f t k = Some k'"
  have "channels_ok (k\<lparr>FAST_CHANNELS := bt_remove (f, t) (FAST_CHANNELS k)\<rparr>)" (is "channels_ok ?k")
    by (rule channels_ok_same_memory [OF ok]) (use channels_okD(1) [OF ok] in \<open>simp_all add: kern_ok_def\<close>)
  then show "channels_ok k'"
    using ok d drop_shared_ok [of ?k] by (auto simp: drop_channel_def bind_eq_Some_conv Let_def split: option.splits)
qed

lemma ipc_step_ok: "ipc_step k k' \<Longrightarrow> channels_ok k \<Longrightarrow> channels_ok k'"
  by (induction rule: ipc_step.induct)
    (erule alloc_shared_ok alloc_shared_frame_ok(1) ensure_channel_ok(1) overwrite_shared_ok append_shared_ok
      drop_shared_ok drop_channel_ok verify_ok reset_doorbell_ok
      ipc_send_ok ipc_recv_ok; assumption)+

section \<open>A kernel with a fast channel\<close>

definition demo_kern :: "nat kern" where
  "demo_kern = \<lparr>sched = demo_sched Cfs, kvm = demo_vm, hhdm_offset = 0, SHARED_BUFFERS = [], NEXT_CAP_ID = 1,
     SW_DOORBELLS = replicate 64 0, FAST_CHANNELS = []\<rparr>"

lemma demo_kern_ok: "channels_ok demo_kern"
  using demo_vm_wf demo_vm_small
  by (simp add: channels_ok_def demo_kern_def kern_ok_def SW_SLOTS_def) (simp add: demo_vm_def)

lemma write_frame_vavail: "vavail (kvm (write_frame va bs k)) = vavail (kvm k)"
  by (simp add: write_frame_def Let_def)

lemma alloc_channel_frame_total:
  assumes "n + 3 < card (vavail m)" and "unat (ro_channel_slot m) < 2 ^ 27"
  shows "\<exists>m' w r pa. alloc_channel_frame 0 m = Some (m', w, r, pa) \<and> n \<le> card (vavail m')"
proof -
  have "vavail m \<noteq> {}" using assms(1) by fastforce
  then obtain s1 phys where t: "take_frame m = Some (s1, phys)" using take_frame_total by blast
  note tf = take_frame_SomeD [OF t]
  have slot: "ro_channel_slot s1 = ro_channel_slot m"
    using t by (auto simp: take_frame_def split: prod.splits option.splits)
  let ?s = "s1\<lparr>ro_channel_slot := ro_channel_slot s1 + 1\<rparr>"
  let ?va = "ro_window (ro_channel_slot m)"
  have "n + 3 \<le> card (vavail ?s)" using tf(1,2) assms(1) by simp
  then obtain st' where m': "map_4k (page_base (kernel_cr3 s1)) ?va phys PTE_PRESENT ?s = Some st'"
    "n \<le> card (vavail st')" using map_4k_progress by blast
  have "mul_chk (ro_channel_slot m) 4096 = Some (ro_channel_slot m * 4096)"
    "add_chk RO_CHANNEL_BASE (ro_channel_slot m * 4096) = Some ?va"
    using assms(2) by (simp_all add: mul_chk_def add_chk_def ro_window_def unat_word_ariths RO_CHANNEL_BASE_def)
  moreover have "unat phys < 2 ^ LENGTH(64)" by (rule unsigned_less)
  ultimately show ?thesis
    using m' by (simp add: alloc_channel_frame_def t slot Let_def add_chk_def [of _ 0])
qed

lemma ensure_channel_total:
  assumes ok: "channels_ok k" and "n + 3 < card (vavail (kvm k))" and s: "unat (ro_channel_slot (kvm k)) < 2 ^ 27"
    and "hhdm_offset k = 0"
  shows "\<exists>k' i. ensure_channel_cap f t c k = Some (k', i) \<and>
    (get_channel f t k = None \<longrightarrow> n \<le> card (vavail (kvm k')) \<and> hhdm_offset k' = 0)"
proof -
  obtain k1 i where a: "alloc_shared_frame f c k = Some (k1, i)" "n \<le> card (vavail (kvm k1))" "hhdm_offset k1 = 0"
    using alloc_channel_frame_total [OF assms(2,3)] assms(4) by (auto simp: alloc_shared_frame_def Let_def)
  let ?k2 = "(reset_doorbell i k1)\<lparr>FAST_CHANNELS := bt_insert (f, t) i (FAST_CHANNELS (reset_doorbell i k1))\<rparr>"
  have ok1: "channels_ok (reset_doorbell i k1)"
    by (rule reset_doorbell_ok [OF alloc_shared_frame_ok(1) [OF ok s a(1)]])
  have ok2: "channels_ok ?k2"
    by (rule channels_ok_same_memory [OF ok1]) (use channels_okD(1) [OF ok1] in \<open>simp_all add: kern_ok_def\<close>)
  obtain buf where "bt_get i (SHARED_BUFFERS k1) = Some buf" "frame_backed buf"
    using alloc_shared_frame_ok(2) [OF ok s a(1)] by blast
  then obtain k3 where "verify_channel_isolation i ?k2 = Some (k3, Isolation_Ok)"
    "vavail (kvm k3) = vavail (kvm k1)" "hhdm_offset k3 = hhdm_offset k1"
    using isolation_check(1) [OF ok2, of i buf] by (simp add: reset_doorbell_def write_frame_vavail)
  then show ?thesis using a
    by (auto simp: ensure_channel_cap_def get_channel_def Let_def split: option.splits)
qed

lemma demo_channel:
  obtains k buf where "ensure_channel_cap 0 1 512 demo_kern = Some (k, 1)" "channels_ok k"
    "bt_get 1 (SHARED_BUFFERS k) = Some buf" "frame_backed buf" "doorbell 1 k = 0" "sched k = demo_sched Cfs"
    "get_channel 0 1 k = Some 1" "10 \<le> card (vavail (kvm k))" "hhdm_offset k = 0"
    "unat (ro_channel_slot (kvm k)) = 1" "FAST_CHANNELS k = [((0, 1), 1)]"
proof -
  have d: "kvm demo_kern = demo_vm" "NEXT_CAP_ID demo_kern = 1" "get_channel 0 1 demo_kern = None"
    "hhdm_offset demo_kern = 0" "sched demo_kern = demo_sched Cfs" "ro_channel_slot demo_vm = 0"
    "FAST_CHANNELS demo_kern = []"
    by (simp_all add: demo_kern_def get_channel_def demo_vm_def)
  then obtain k i where e: "ensure_channel_cap 0 1 512 demo_kern = Some (k, i)"
    and c: "10 \<le> card (vavail (kvm k))" "hhdm_offset k = 0"
    using ensure_channel_total [OF demo_kern_ok, of 10 0 1 512] by (auto simp: demo_vm_card)
  from ensure_channel_ok [OF demo_kern_ok _ e] d c e show thesis
    by (auto intro: that [of k])
qed

section \<open>Properties\<close>

lemma switchless_send_poll:
  assumes "kern_ok k" and "bt_get i (SHARED_BUFFERS k) = Some buf" and "buf_ok k buf" and "doorbell i k = 0"
    and "data \<noteq> []" and "length data \<le> 4096"
  shows "\<exists>k1 k2. send_switchless i data k = Done (k1, True) \<and> doorbell_pending i k1 \<and>
    poll_switchless i n k1 = Some (k2, Some (take n data)) \<and> \<not> doorbell_pending i k2 \<and>
    poll_switchless i n k2 = Some (k2, None)"
proof -
  let ?w = "write_frame (write_va buf) data k"
  let ?k1 = "set_doorbell i (of_nat (length data)) ?w"
  let ?k2 = "set_doorbell i 0 ?k1"
  have fb: "frame_backed buf" using assms(3) by (simp add: buf_ok_def)
  have len: "length (SW_DOORBELLS ?w) = SW_SLOTS" "length (SW_DOORBELLS ?k1) = SW_SLOTS"
    using assms(1) by (simp_all add: kern_ok_def set_doorbell_def)
  have u: "unat (of_nat (length data) :: u64) = length data"
    using assms(6) by (simp add: unat_of_nat)
  then have nz: "(of_nat (length data) :: u64) \<noteq> 0" using assms(5) by (metis length_0_conv unsigned_0)
  have d1: "doorbell i ?k1 = of_nat (length data)" and d2: "doorbell i ?k2 = 0"
    using len by simp_all
  have s: "send_switchless i data k = Done (?k1, True)"
    using assms(2,4,6) fb by (simp add: send_switchless_def Let_def min_absorb1)
  have "page_bytes (put_bytes 0 data (pmem (kvm k) (sb_phys buf))) 0 (min (length data) n) = take n data"
    by (cases "n \<le> length data") (simp_all add: page_bytes_written)
  then have p: "poll_switchless i n ?k1 = Some (?k2, Some (take n data))"
    using assms(2) fb d1 nz write_frame_read(1) [OF assms(3)]
    by (simp add: poll_switchless_def Let_def u)
  have "poll_switchless i n ?k2 = Some (?k2, None)" using d2 by (simp add: poll_switchless_def)
  moreover have "doorbell_pending i ?k1" "\<not> doorbell_pending i ?k2"
    using d1 d2 nz by (simp_all add: doorbell_pending_def)
  ultimately show ?thesis using s p by blast
qed

text \<open>A message sent over a fast channel whose doorbell is down arrives: the send succeeds and raises
  the doorbell, the receiver's poll returns the first bytes of the message up to the size of its
  buffer, lowers the doorbell, and a second poll finds nothing.\<close>

theorem switchless_round_trip:
  assumes "kern_ok k" and "bt_get i (SHARED_BUFFERS k) = Some buf" and "buf_ok k buf" and "doorbell i k = 0"
    and "data \<noteq> []" and "length data \<le> 4096"
  shows "\<exists>k1 k2. send_switchless i data k = Done (k1, True) \<and> doorbell_pending i k1 \<and>
    poll_switchless i n k1 = Some (k2, Some (take n data)) \<and> \<not> doorbell_pending i k2 \<and>
    poll_switchless i n k2 = Some (k2, None)"
  by (rule switchless_send_poll [OF assms])

theorem switchless_round_trip_witness:
  "\<exists>k k1 k2. ensure_channel_cap 0 1 512 demo_kern = Some (k, 1) \<and> send_switchless 1 [7, 8] k = Done (k1, True) \<and>
    poll_switchless 1 64 k1 = Some (k2, Some [7, 8])"
proof -
  obtain k buf where k: "ensure_channel_cap 0 1 512 demo_kern = Some (k, 1)" "channels_ok k"
    "bt_get 1 (SHARED_BUFFERS k) = Some buf" "frame_backed buf" "doorbell 1 k = 0" by (rule demo_channel)
  from switchless_round_trip [OF channels_okD(1) [OF k(2)] k(3) channels_okD(4) [OF k(2-4)] k(5), of "[7, 8]" 64] k(1)
  show ?thesis by auto
qed

text \<open>An empty message over a fast channel is lost: the send reports success and the receiver finds
  nothing, because the length is also the doorbell.\<close>

theorem switchless_empty_lost:
  assumes "kern_ok k" and "bt_get i (SHARED_BUFFERS k) = Some buf" and "frame_backed buf" and "doorbell i k = 0"
  shows "\<exists>k1. send_switchless i [] k = Done (k1, True) \<and> poll_switchless i n k1 = Some (k1, None)"
  using assms by (auto simp: send_switchless_def poll_switchless_def kern_ok_def)

theorem switchless_empty_lost_witness:
  "\<exists>k k1. ensure_channel_cap 0 1 512 demo_kern = Some (k, 1) \<and> send_switchless 1 [] k = Done (k1, True) \<and>
    poll_switchless 1 64 k1 = Some (k1, None)"
proof -
  obtain k buf where k: "ensure_channel_cap 0 1 512 demo_kern = Some (k, 1)" "channels_ok k"
    "bt_get 1 (SHARED_BUFFERS k) = Some buf" "frame_backed buf" "doorbell 1 k = 0" by (rule demo_channel)
  from switchless_empty_lost [OF channels_okD(1) [OF k(2)] k(3-5)] k(1) show ?thesis by blast
qed

text \<open>Doorbells are shared by channels whose identifiers agree modulo 64: a poll of another channel of
  the same slot returns the contents of its own frame for a message it was never sent, and
  consumes the doorbell, so the real receiver finds nothing.\<close>

theorem doorbell_collision:
  assumes "kern_ok k" and "bt_get i (SHARED_BUFFERS k) = Some bi" and "buf_ok k bi" and "doorbell i k = 0"
    and "bt_get j (SHARED_BUFFERS k) = Some bj" and "buf_ok k bj" and "sw_slot j = sw_slot i"
    and "sb_phys bi \<noteq> sb_phys bj" and "data \<noteq> []" and "length data \<le> 4096"
  shows "\<exists>k1 k2. send_switchless i data k = Done (k1, True) \<and>
    poll_switchless j n k1 =
      Some (k2, Some (page_bytes (pmem (kvm k) (sb_phys bj)) 0 (min (length data) n))) \<and>
    poll_switchless i n k2 = Some (k2, None)"
proof -
  let ?w = "write_frame (write_va bi) data k"
  let ?k1 = "set_doorbell i (of_nat (length data)) ?w"
  let ?k2 = "set_doorbell j 0 ?k1"
  let ?r = "kernel_cr3 (kvm k)"
  have fb: "frame_backed bi" "frame_backed bj" using assms(3,6) by (simp_all add: buf_ok_def)
  have len: "length (SW_DOORBELLS ?w) = SW_SLOTS" "length (SW_DOORBELLS ?k1) = SW_SLOTS"
    using assms(1) by (simp_all add: kern_ok_def set_doorbell_def)
  have u: "unat (of_nat (length data) :: u64) = length data"
    using assms(10) by (simp add: unat_of_nat)
  then have nz: "(of_nat (length data) :: u64) \<noteq> 0" using assms(9) by (metis length_0_conv unsigned_0)
  have d: "doorbell j ?k1 = of_nat (length data)" "doorbell i ?k2 = 0" using len assms(7) by simp_all
  have s: "send_switchless i data k = Done (?k1, True)"
    using assms(2,4,10) fb by (simp add: send_switchless_def Let_def min_absorb1)
  have w: "?w = k\<lparr>kvm := put_page (sb_phys bi) (put_bytes 0 data (pmem (kvm k) (sb_phys bi))) (kvm k)\<rparr>"
    using assms(3) by (simp add: write_frame_def Let_def buf_ok_def)
  have wf: "tree_wf (kvm k) ?r" and np: "\<And>q. path_ok q \<Longrightarrow> table_of (kvm k) ?r q \<noteq> Some (sb_phys bi)"
    using assms(3) by (simp_all add: buf_ok_def)
  obtain pa where pa: "virt_to_phys ?r (read_va bj) (kvm k) = Some pa" "page_base pa = sb_phys bj"
    using assms(6) by (auto simp: buf_ok_def)
  have "read_page (read_va bj) ?w = Some (pmem (kvm k) (sb_phys bj))"
    using assms(8) by (simp add: read_page_def w put_page_tree(2) [OF wf np] pa) (simp add: put_page_def)
  then have p: "poll_switchless j n ?k1 =
      Some (?k2, Some (page_bytes (pmem (kvm k) (sb_phys bj)) 0 (min (length data) n)))"
    using assms(5) fb d(1) nz by (simp add: poll_switchless_def Let_def u)
  have "poll_switchless i n ?k2 = Some (?k2, None)" using d(2) by (simp add: poll_switchless_def)
  with s p show ?thesis by blast
qed

lemma demo_two_channels:
  obtains k k' bi bj where "ensure_channel_cap 0 1 512 demo_kern = Some (k, 1)"
    "ensure_channel_cap 1 0 512 (k\<lparr>NEXT_CAP_ID := 65\<rparr>) = Some (k', 65)" "channels_ok k'"
    "bt_get 1 (SHARED_BUFFERS k') = Some bi" "frame_backed bi" "bt_get 65 (SHARED_BUFFERS k') = Some bj" "frame_backed bj"
    "doorbell 1 k' = 0"
proof -
  obtain k bi where k: "ensure_channel_cap 0 1 512 demo_kern = Some (k, 1)" "channels_ok k"
    "bt_get 1 (SHARED_BUFFERS k) = Some bi" "frame_backed bi" "10 \<le> card (vavail (kvm k))" "hhdm_offset k = 0"
    "unat (ro_channel_slot (kvm k)) = 1" "FAST_CHANNELS k = [((0, 1), 1)]"
    by (rule demo_channel)
  let ?k = "k\<lparr>NEXT_CAP_ID := 65\<rparr>"
  have ok: "channels_ok ?k"
    by (rule channels_ok_same_memory [OF k(2)]) (use channels_okD(1) [OF k(2)] in \<open>simp_all add: kern_ok_def\<close>)
  obtain k' i where e: "ensure_channel_cap 1 0 512 ?k = Some (k', i)"
    using ensure_channel_total [OF ok, of 0 1 0 512] k(5-7) by auto
  have n: "get_channel 1 0 ?k = None" by (simp add: get_channel_def k(8))
  have s: "unat (ro_channel_slot (kvm ?k)) < 2 ^ 27" by (simp add: k(7))
  note c = ensure_channel_ok [OF ok s e]
  note d = c(2) [OF n]
  have i: "i = 65" using d by simp
  have "doorbell 1 k' = doorbell 65 k'" by (simp add: doorbell_def sw_slot_def SW_SLOTS_def)
  then show thesis using that [OF k(1) _ c(1)] e d k(3,4) unfolding i by auto
qed

theorem doorbell_collision_witness:
  "\<exists>k k' k1 k2 bs. ensure_channel_cap 0 1 512 demo_kern = Some (k, 1) \<and>
    ensure_channel_cap 1 0 512 (k\<lparr>NEXT_CAP_ID := 65\<rparr>) = Some (k', 65) \<and>
    send_switchless 1 [7, 8] k' = Done (k1, True) \<and> poll_switchless 65 64 k1 = Some (k2, Some bs) \<and>
    poll_switchless 1 64 k2 = Some (k2, None)"
proof -
  obtain k k' bi bj where k: "ensure_channel_cap 0 1 512 demo_kern = Some (k, 1)"
    "ensure_channel_cap 1 0 512 (k\<lparr>NEXT_CAP_ID := 65\<rparr>) = Some (k', 65)" and ok: "channels_ok k'"
    and b: "bt_get 1 (SHARED_BUFFERS k') = Some bi" "frame_backed bi"
    "bt_get 65 (SHARED_BUFFERS k') = Some bj" "frame_backed bj" and d: "doorbell 1 k' = 0"
    by (rule demo_two_channels)
  have s: "sw_slot 65 = sw_slot 1" by (simp add: sw_slot_def SW_SLOTS_def)
  have p: "sb_phys bi \<noteq> sb_phys bj" using channels_okD(5) [OF ok b(1,3,2,4)] by simp
  show ?thesis
    using doorbell_collision [OF channels_okD(1) [OF ok] b(1) channels_okD(4) [OF ok b(1,2)] d b(3)
      channels_okD(4) [OF ok b(3,4)] s p, of "[7, 8]" 64] k by auto
qed

text \<open>Asking for a channel between the same two processes again returns the same channel and changes
  nothing; a new channel gets a new identifier, is registered for exactly that pair, and its
  buffer is the frame the kernel's read-only window shows.\<close>

theorem ensure_channel_idempotent:
  assumes "kern_ok k" and "ensure_channel_cap f t c k = Some (k', i)"
  shows "get_channel f t k' = Some i \<and> ensure_channel_cap f t c' k' = Some (k', i) \<and>
    (\<forall>f' t'. (f', t') \<noteq> (f, t) \<longrightarrow> get_channel f' t' k' = get_channel f' t' k) \<and>
    (get_channel f t k = None \<longrightarrow> i = NEXT_CAP_ID k \<and> is_valid i k')"
proof (cases "bt_get (f, t) (FAST_CHANNELS k)")
  case (Some j)
  with assms(2) have "k' = k" "i = j" by (simp_all add: ensure_channel_cap_def)
  with Some show ?thesis by (simp add: get_channel_def ensure_channel_cap_def)
next
  case None
  with assms(2) obtain k1 where a: "alloc_shared_frame f c k = Some (k1, i)"
    and v: "map_option fst (verify_channel_isolation i
      ((reset_doorbell i k1)\<lparr>FAST_CHANNELS := bt_insert (f, t) i (FAST_CHANNELS k1)\<rparr>)) = Some k'"
    by (auto simp: ensure_channel_cap_def Let_def bind_eq_Some_conv reset_doorbell_def)
  from a have k1: "FAST_CHANNELS k1 = FAST_CHANNELS k" "i = NEXT_CAP_ID k"
    "bt_get i (SHARED_BUFFERS k1) \<noteq> None"
    using assms(1) by (auto simp: alloc_shared_frame_def Let_def bind_eq_Some_conv kern_ok_def)
  have vf: "FAST_CHANNELS k'' = FAST_CHANNELS kk \<and> SHARED_BUFFERS k'' = SHARED_BUFFERS kk"
    if "verify_channel_isolation i kk = Some (k'', r)" for kk k'' :: "'a kern" and r
    using that by (auto simp: verify_channel_isolation_def Let_def bind_eq_Some_conv
        split: option.splits if_splits)
  from v obtain r where "verify_channel_isolation i
      ((reset_doorbell i k1)\<lparr>FAST_CHANNELS := bt_insert (f, t) i (FAST_CHANNELS k1)\<rparr>) = Some (k', r)"
    by auto
  from vf [OF this] have k': "FAST_CHANNELS k' = bt_insert (f, t) i (FAST_CHANNELS k)"
    "SHARED_BUFFERS k' = SHARED_BUFFERS k1"
    by (simp_all add: k1 reset_doorbell_def)
  have "bt_wf (FAST_CHANNELS k)" using assms(1) by (simp add: kern_ok_def)
  then show ?thesis
    using k1(2,3) by (auto simp: get_channel_def ensure_channel_cap_def k' is_valid_def)
qed

theorem ensure_channel_idempotent_witness:
  "\<exists>k. ensure_channel_cap 0 1 512 demo_kern = Some (k, 1) \<and> ensure_channel_cap 0 1 64 k = Some (k, 1) \<and> is_valid 1 k"
proof -
  obtain k where k: "ensure_channel_cap 0 1 512 demo_kern = Some (k, 1)" by (rule demo_channel)
  have "get_channel 0 1 demo_kern = None" by (simp add: demo_kern_def get_channel_def)
  with ensure_channel_idempotent [OF channels_okD(1) [OF demo_kern_ok] k, of 64] k show ?thesis by blast
qed


text \<open>C1: Channels stay isolated under every sequence of message operations: the frames of two live
  channels differ, no live frame is on the free list, and each is mapped read-only in its window.\<close>

theorem channels_stay_isolated:
  assumes "channels_ok k" and "ipc_step\<^sup>*\<^sup>* k k'"
    and "bt_get i (SHARED_BUFFERS k') = Some bi" and "frame_backed bi"
    and "bt_get j (SHARED_BUFFERS k') = Some bj" and "frame_backed bj" and "i \<noteq> j"
  shows "sb_phys bi \<noteq> sb_phys bj \<and> sb_phys bi \<notin> vavail (kvm k') \<and>
    entry_at (kvm k') (kernel_cr3 (kvm k')) (va_path (read_va bi)) (pt_idx 12 (read_va bi)) =
      Some (sb_phys bi OR PTE_PRESENT) \<and>
    map_option snd (verify_channel_isolation i k') = Some Isolation_Ok"
proof -
  have ok: "channels_ok k'" using assms(2,1) by (induction rule: rtranclp_induct) (simp_all add: ipc_step_ok)
  show ?thesis
    using channels_okD(3,5) [OF ok] isolation_check(1) [OF ok] assms(3-7) by (simp add: channel_live_def)
qed

theorem channels_stay_isolated_witness:
  "\<exists>k k' bi bj. ensure_channel_cap 0 1 512 demo_kern = Some (k, 1) \<and>
    ensure_channel_cap 1 0 512 (k\<lparr>NEXT_CAP_ID := 65\<rparr>) = Some (k', 65) \<and>
    bt_get 1 (SHARED_BUFFERS k') = Some bi \<and> bt_get 65 (SHARED_BUFFERS k') = Some bj \<and> sb_phys bi \<noteq> sb_phys bj"
proof -
  obtain k k' bi bj where k: "ensure_channel_cap 0 1 512 demo_kern = Some (k, 1)"
    "ensure_channel_cap 1 0 512 (k\<lparr>NEXT_CAP_ID := 65\<rparr>) = Some (k', 65)" "channels_ok k'"
    "bt_get 1 (SHARED_BUFFERS k') = Some bi" "frame_backed bi" "bt_get 65 (SHARED_BUFFERS k') = Some bj" "frame_backed bj"
    by (rule demo_two_channels)
  from channels_stay_isolated [OF k(3) rtranclp.rtrancl_refl k(4-7)] k show ?thesis by auto
qed

text \<open>A message sent on one channel does not change what another channel shows its receiver.\<close>

theorem channel_noninterference:
  assumes ok: "channels_ok k" and "send_switchless i data k = Done (k', b)"
    and bj: "bt_get j (SHARED_BUFFERS k) = Some bj" "frame_backed bj" and "i \<noteq> j"
  shows "read_page (read_va bj) k' = read_page (read_va bj) k \<and> read_shared j k' = read_shared j k"
proof (cases "\<exists>bi. bt_get i (SHARED_BUFFERS k) = Some bi \<and> frame_backed bi")
  case False
  then have "k' = k" using assms(2) by (auto simp: send_switchless_def split: option.splits if_splits)
  then show ?thesis by simp
next
  case True
  then obtain bi where bi: "bt_get i (SHARED_BUFFERS k) = Some bi" "frame_backed bi" by blast
  let ?r = "kernel_cr3 (kvm k)" and ?d = "take (min (length data) 4096) data"
  note boi = channels_okD(4) [OF ok bi] and boj = channels_okD(4) [OF ok bj]
  from assms(2) bi have k': "k' = set_doorbell i (of_nat (min (length data) 4096)) (write_frame (write_va bi) ?d k)"
    by (simp add: send_switchless_def Let_def split: if_splits)
  have w: "write_frame (write_va bi) ?d k =
      k\<lparr>kvm := put_page (sb_phys bi) (put_bytes 0 ?d (pmem (kvm k) (sb_phys bi))) (kvm k)\<rparr>"
    using boi by (simp add: write_frame_def Let_def buf_ok_def)
  have wf: "tree_wf (kvm k) ?r" and np: "\<And>q. path_ok q \<Longrightarrow> table_of (kvm k) ?r q \<noteq> Some (sb_phys bi)"
    using boi by (simp_all add: buf_ok_def)
  obtain pa where pa: "virt_to_phys ?r (read_va bj) (kvm k) = Some pa" "page_base pa = sb_phys bj"
    using boj by (auto simp: buf_ok_def)
  have "sb_phys bi \<noteq> sb_phys bj" using channels_okD(5) [OF ok] bi bj assms(5) by blast
  then have r: "read_page (read_va bj) k' = read_page (read_va bj) k"
    by (simp add: read_page_def k' w put_page_tree(2) [OF wf np] pa) (simp add: put_page_def)
  moreover have "SHARED_BUFFERS k' = SHARED_BUFFERS k" by (simp add: k')
  ultimately show ?thesis using bj by (simp add: read_shared_def)
qed

theorem channel_noninterference_witness:
  "\<exists>k k' k1. ensure_channel_cap 0 1 512 demo_kern = Some (k, 1) \<and>
    ensure_channel_cap 1 0 512 (k\<lparr>NEXT_CAP_ID := 65\<rparr>) = Some (k', 65) \<and>
    send_switchless 1 [7, 8] k' = Done (k1, True) \<and> read_shared 65 k1 = read_shared 65 k'"
proof -
  obtain k k' bi bj where k: "ensure_channel_cap 0 1 512 demo_kern = Some (k, 1)"
    "ensure_channel_cap 1 0 512 (k\<lparr>NEXT_CAP_ID := 65\<rparr>) = Some (k', 65)" and ok: "channels_ok k'"
    and b: "bt_get 1 (SHARED_BUFFERS k') = Some bi" "frame_backed bi"
    "bt_get 65 (SHARED_BUFFERS k') = Some bj" "frame_backed bj" and d: "doorbell 1 k' = 0"
    by (rule demo_two_channels)
  obtain k1 where s: "send_switchless 1 [7, 8] k' = Done (k1, True)"
    using b d by (simp add: send_switchless_def)
  from channel_noninterference [OF ok s b(3,4)] k s show ?thesis by auto
qed

lemma poll_channels_down:
  "\<forall>c \<in> set cs. doorbell (fst c) k = 0 \<Longrightarrow> poll_channels cs k = Some (k, None)"
  by (induction cs) (auto simp: poll_switchless_def)

lemma poll_channels_first:
  assumes "(i, f) \<in> set cs" and "\<forall>c \<in> set cs. c \<noteq> (i, f) \<longrightarrow> doorbell (fst c) k = 0"
    and "poll_switchless i 64 k = Some (k', Some bs)"
  shows "poll_channels cs k =
    Some (k', Some \<lparr>sender = f, msg_len = length bs, msg_data = pad64 bs, fast_cap = 0\<rparr>)"
  using assms(1,2)
proof (induction cs)
  case (Cons c cs)
  show ?case
  proof (cases "c = (i, f)")
    case True
    then show ?thesis by (simp add: assms(3))
  next
    case False
    then have "poll_switchless (fst c) 64 k = Some (k, None)"
      using Cons.prems by (simp add: poll_switchless_def)
    then show ?thesis using Cons False by (cases c) auto
  qed
qed simp


lemma demo_pids: "current_pid (demo_sched m) = Some 0" "current_pid ((demo_sched m)\<lparr>current := 1\<rparr>) = Some 1"
  by (simp_all add: current_pid_def cur_proc_def demo_sched_simps demo_ab)


text \<open>Without a channel the message goes through the receiver's queue.\<close>

lemma queued_message:
  assumes ok: "sched_ok (sched k)" and f: "current_pid (sched k) = Some f" and ch: "get_channel f t k = None"
    and j: "j < length (processes (sched k))" "p_pid (processes (sched k) ! j) = t"
    and q: "message_queue (processes (sched k) ! j) = []"
    and down: "\<forall>c \<in> set (find_incoming_channels t 8 k). doorbell (fst c) k = 0"
  shows "\<exists>k1 k2. ipc_send t data k = Some (Done (k1, True)) \<and>
    ipc_recv (k1\<lparr>sched := (sched k1)\<lparr>current := j\<rparr>\<rparr>) =
      Some (k2, Some \<lparr>sender = f, msg_len = min (length data) 64, msg_data = pad64 (take 64 data), fast_cap = 0\<rparr>)"
proof -
  let ?n = "min (length data) 64"
  let ?m = "\<lparr>sender = f, msg_len = ?n, msg_data = pad64 (take ?n data), fast_cap = 0\<rparr>"
  have m: "take ?n data = take 64 data" by (simp add: min_def)
  have "\<exists>s b. send_message t ?m (sched k) = Some (s, b)"
    using ok by (simp add: send_message_def cur_proc_def sched_ok_def sched_wf_def Let_def split: prod.split)
  then obtain s b where s: "send_message t ?m (sched k) = Some (s, b)" by blast
  note sp = send_message_queues [OF ok s]
  have "processes (sched k) ! j \<in> set (processes (sched k))" using j(1) by simp
  then have b: b using sp j(2) by blast
  let ?k1 = "k\<lparr>sched := s\<rparr>" and ?s = "s\<lparr>current := j\<rparr>"
  have send: "ipc_send t data k = Some (Done (?k1, True))" using f ch s b by (simp add: ipc_send_def Let_def)
  have js: "j < length (processes s)" "p_pid (processes s ! j) = t" "message_queue (processes s ! j) = [?m]"
    using sp j q by auto
  then have c: "current_pid ?s = Some t" "\<exists>s'. recv_message ?s = Some (s', Some ?m)"
    by (simp_all add: current_pid_def cur_proc_def recv_message_def)
  have "poll_channels (find_incoming_channels t 8 k) (k\<lparr>sched := ?s\<rparr>) = Some (k\<lparr>sched := ?s\<rparr>, None)"
    using down by (intro poll_channels_down) (simp add: doorbell_def)
  moreover have "find_incoming_channels t 8 (k\<lparr>sched := ?s\<rparr>) = find_incoming_channels t 8 k"
    by (simp add: find_incoming_channels_def)
  ultimately have "\<exists>k2. ipc_recv (?k1\<lparr>sched := ?s\<rparr>) = Some (k2, Some ?m)"
    using c by (auto simp: ipc_recv_def)
  with send m show ?thesis by auto
qed

lemma poll_channels_buffers: "poll_channels cs k = Some (k', r) \<Longrightarrow> SHARED_BUFFERS k' = SHARED_BUFFERS k"
proof (induction cs arbitrary: k)
  case (Cons c cs)
  obtain i g where c: "c = (i, g)" by fastforce
  with Cons.prems obtain k1 q where q: "poll_switchless i 64 k = Some (k1, q)" by (auto simp: bind_eq_Some_conv)
  then have "SHARED_BUFFERS k1 = SHARED_BUFFERS k"
    by (auto simp: poll_switchless_def Let_def bind_eq_Some_conv split: option.splits if_splits)
  then show ?case using Cons q c by (cases q) auto
qed simp

lemma ipc_recv_buffers:
  assumes "ipc_recv k = Some (k', m)"
  shows "SHARED_BUFFERS k' = SHARED_BUFFERS k"
proof -
  from assms obtain p k1 r where p: "poll_channels (find_incoming_channels p 8 k) k = Some (k1, r)"
    and "k' = k1 \<or> (\<exists>s. k' = k1\<lparr>sched := s\<rparr>)"
    unfolding ipc_recv_def
    by (fastforce simp: bind_eq_Some_conv Let_def split: option.splits if_splits)
  with poll_channels_buffers [OF p] show ?thesis by auto
qed

text \<open>A value sent as a message arrives: without a channel, a sent \<open>u64\<close> is queued, and the receiver,
  once it runs with an otherwise empty queue and no doorbell up, reads the same value from the
  message it receives.\<close>

theorem u64_message_round_trip:
  assumes "sched_ok (sched k)" and "current_pid (sched k) = Some f" and "get_channel f t k = None"
    and "j < length (processes (sched k))" and "p_pid (processes (sched k) ! j) = t"
    and "message_queue (processes (sched k) ! j) = []"
    and "\<forall>c \<in> set (find_incoming_channels t 8 k). doorbell (fst c) k = 0"
  shows "\<exists>k1 k2 m. send_u64 t v k = Some (Done (k1, True)) \<and>
    ipc_recv (k1\<lparr>sched := (sched k1)\<lparr>current := j\<rparr>\<rparr>) = Some (k2, Some m) \<and> sender m = f \<and> msg_as_u64 m = v"
proof -
  let ?m = "\<lparr>sender = f, msg_len = 8, msg_data = pad64 (to_le_bytes v), fast_cap = 0\<rparr>"
  have "msg_as_u64 ?m = v" by (simp add: msg_as_u64_def pad64_def Let_def)
  then show ?thesis
    using queued_message [OF assms, of "to_le_bytes v"] unfolding send_u64_def
    by (auto intro!: exI [of _ ?m])
qed

theorem u64_message_round_trip_witness:
  "\<exists>k1 k2 m. send_u64 1 77 demo_kern = Some (Done (k1, True)) \<and>
    ipc_recv (k1\<lparr>sched := (sched k1)\<lparr>current := 1\<rparr>\<rparr>) = Some (k2, Some m) \<and> msg_as_u64 m = 77"
  using u64_message_round_trip [of demo_kern 0 1 1 77] demo_sched_ok [of Cfs]
  by (auto simp: demo_kern_def demo_pids get_channel_def find_incoming_channels_def demo_sched_simps demo_ab demo_b_def
      new_kernel_main_def)

text \<open>Passing a capability: the identifier the receiver takes from the message is the one sent, so
  \<open>read_shared\<close> in the receiver shows the buffer the sender allocated.\<close>

theorem capability_transfer:
  assumes "sched_ok (sched k)" and "current_pid (sched k) = Some f" and "bt_wf (SHARED_BUFFERS k)"
    and "alloc_shared f data k = (k0, i)" and "get_channel f t k = None"
    and "j < length (processes (sched k))" and "p_pid (processes (sched k) ! j) = t"
    and "message_queue (processes (sched k) ! j) = []"
    and "\<forall>c \<in> set (find_incoming_channels t 8 k). doorbell (fst c) k = 0"
  shows "\<exists>k1 k2. send_cap f t i k0 = Some (Done (k1, True)) \<and>
    recv_cap (k1\<lparr>sched := (sched k1)\<lparr>current := j\<rparr>\<rparr>) = Some (k2, Some i) \<and> read_shared i k2 = Some (Some data)"
proof -
  have k0: "sched k0 = sched k" "get_channel a b k0 = get_channel a b k" "doorbell c k0 = doorbell c k"
    "find_incoming_channels t 8 k0 = find_incoming_channels t 8 k" for a b c
    using assms(4) by (auto simp: alloc_shared_def Let_def get_channel_def doorbell_def find_incoming_channels_def)
  obtain k1 k2 where s: "ipc_send t (to_le_bytes i) k0 = Some (Done (k1, True))"
    and r: "ipc_recv (k1\<lparr>sched := (sched k1)\<lparr>current := j\<rparr>\<rparr>) =
      Some (k2, Some \<lparr>sender = f, msg_len = 8, msg_data = pad64 (to_le_bytes i), fast_cap = 0\<rparr>)"
    using queued_message [of k0 f t j "to_le_bytes i"] assms(1,2,5-9) by (auto simp: k0)
  have "SHARED_BUFFERS k1 = SHARED_BUFFERS k0"
    using s assms(2,5) by (auto simp: ipc_send_def k0 bind_eq_Some_conv Let_def)
  moreover have "SHARED_BUFFERS k2 = SHARED_BUFFERS (k1\<lparr>sched := (sched k1)\<lparr>current := j\<rparr>\<rparr>)"
    by (rule ipc_recv_buffers [OF r])
  ultimately have "bt_get i (SHARED_BUFFERS k2) = bt_get i (SHARED_BUFFERS k0)" by simp
  also have "\<dots> = Some \<lparr>sb_id = i, sb_data = data, sb_owner = f, frame_backed = False,
      write_va = 0, read_va = 0, sb_phys = 0, frame_len = 0\<rparr>"
    using assms(3,4) by (auto simp: alloc_shared_def Let_def)
  finally have "read_shared i k2 = Some (Some data)" by (simp add: read_shared_def)
  with s r show ?thesis by (auto simp: send_cap_def recv_cap_def pad64_def)
qed

theorem capability_transfer_witness:
  "\<exists>k0 k1 k2. alloc_shared 0 [1, 2, 3] demo_kern = (k0, 1) \<and> send_cap 0 1 1 k0 = Some (Done (k1, True)) \<and>
    recv_cap (k1\<lparr>sched := (sched k1)\<lparr>current := 1\<rparr>\<rparr>) = Some (k2, Some 1) \<and>
    read_shared 1 k2 = Some (Some [1, 2, 3])"
proof -
  let ?k0 = "fst (alloc_shared 0 [1, 2, 3] demo_kern)"
  have a: "alloc_shared 0 [1, 2, 3] demo_kern = (?k0, 1)" by (simp add: alloc_shared_def demo_kern_def Let_def)
  have q: "sched demo_kern = demo_sched Cfs" "FAST_CHANNELS demo_kern = []" "SHARED_BUFFERS demo_kern = []"
    "message_queue demo_b = []"
    by (simp_all add: demo_kern_def demo_b_def new_kernel_main_def)
  show ?thesis
    using capability_transfer [of demo_kern 0 "[1, 2, 3]" ?k0 1 1 1] demo_sched_ok [of Cfs] a
    by (auto simp: q demo_pids get_channel_def find_incoming_channels_def demo_sched_simps demo_ab)
qed

end
