(* ===== verification/Policy_Learn.thy ===== *)
theory Policy_Learn
  imports Kernel_Prelude "HOL-Library.Multiset" "HOL-Library.Signed_Division"
begin

text \<open>
  The decision procedures of the Policy Engine (\<open>kernel/src/policy/mod.rs\<close>): the boosted decision
  trees \<open>ml2_gbdt\<close>, the reinforcement learner (\<open>rl_*\<close>), the Bayesian counters, the ladders of
  the self-tuned parameters, the eviction table with its cool-down, and the selection loop that
  ranks the pairs.

  \<open>i64\<close> and \<open>i32\<close> values are integers; \<open>i32_chk\<close> is the range check of the \<open>dev\<close> profile, \<open>sdiv\<close>
  the division that truncates towards zero.
\<close>

section \<open>Constants\<close>

definition BAYES_PRIOR_ALPHA :: u32 where "BAYES_PRIOR_ALPHA = 1"
definition BAYES_PRIOR_BETA :: u32 where "BAYES_PRIOR_BETA = 4"
definition BAYES_HOT_GAIN :: u32 where "BAYES_HOT_GAIN = 2"
definition BAYES_GAIN_CAP :: u32 where "BAYES_GAIN_CAP = 5"
definition BAYES_COLD_GAIN :: u32 where "BAYES_COLD_GAIN = 1"
definition BAYES_COLD_DECAY :: u32 where "BAYES_COLD_DECAY = 3"
definition BAYES_HOT_SCORE :: u32 where "BAYES_HOT_SCORE = 650"
definition BAYES_MAX :: u32 where "BAYES_MAX = 500"
definition ML2_HOT_THRESHOLD :: int where "ML2_HOT_THRESHOLD = 300"
definition RL_N_STATES :: nat where "RL_N_STATES = 36"
definition RL_N_ACTIONS :: nat where "RL_N_ACTIONS = 4"
definition RL_NOOP :: u8 where "RL_NOOP = 0"
definition RL_ENCOURAGE :: u8 where "RL_ENCOURAGE = 1"
definition RL_DISCOURAGE :: u8 where "RL_DISCOURAGE = 2"
definition RL_PIN_PUSH :: u8 where "RL_PIN_PUSH = 3"
definition RL_THRESHOLD_DELTA :: int where "RL_THRESHOLD_DELTA = 80"
definition RL_LR_DEN :: int where "RL_LR_DEN = 10"
definition RL_GAMMA_NUM :: int where "RL_GAMMA_NUM = 9"
definition RL_GAMMA_DEN :: int where "RL_GAMMA_DEN = 10"
definition RL_EPSILON_INIT :: u8 where "RL_EPSILON_INIT = 20"
definition RL_EPSILON_MIN :: u8 where "RL_EPSILON_MIN = 5"
definition RL_EPSILON_DECAY_TICKS :: u64 where "RL_EPSILON_DECAY_TICKS = 1000"
definition CHANNEL_RECREATE_COOLDOWN_TICKS :: u64 where "CHANNEL_RECREATE_COOLDOWN_TICKS = 72"
definition MAX_EVICT_PAIRS :: nat where "MAX_EVICT_PAIRS = 8"

lemmas bayes_consts = BAYES_PRIOR_ALPHA_def BAYES_PRIOR_BETA_def BAYES_HOT_GAIN_def BAYES_GAIN_CAP_def
  BAYES_COLD_GAIN_def BAYES_COLD_DECAY_def BAYES_HOT_SCORE_def BAYES_MAX_def
lemmas rl_consts = RL_N_STATES_def RL_N_ACTIONS_def RL_NOOP_def RL_ENCOURAGE_def RL_DISCOURAGE_def
  RL_PIN_PUSH_def RL_LR_DEN_def RL_GAMMA_NUM_def RL_GAMMA_DEN_def

section \<open>The decision trees\<close>

definition ml2_gbdt :: "int \<Rightarrow> int \<Rightarrow> int \<Rightarrow> int \<Rightarrow> int \<Rightarrow> int" where
  "ml2_gbdt f_alpha f_beta f_rate f_cold f_trend =
     (let t1 = (if f_alpha \<ge> 10 then if f_cold = 0 then 200 else if f_alpha \<ge> 20 then 140 else 80
                else if f_rate \<ge> 20 then if f_alpha \<ge> 5 then 60 else 20
                else 0);
          t2 = (if f_rate \<ge> 15 then if f_alpha \<ge> 6 then 160 else if f_trend = 1 then 80 else 30
                else if f_alpha \<ge> 8 then 60
                else 0);
          t3 = (if f_cold \<ge> 2 then - 80
                else if f_cold \<ge> 1 then if f_alpha \<ge> 12 then 40 else - 20
                else if f_rate \<ge> 30 then 120
                else 40);
          t4 = (if f_beta \<le> 5 then if f_alpha \<ge> 8 then 100 else 30
                else if f_alpha \<ge> 25 then 50
                else if f_beta \<ge> 10 then - 40
                else - 10)
      in t1 + t2 + t3 + t4)"

section \<open>The reinforcement learner\<close>

definition rl_state_idx :: "u32 \<Rightarrow> u64 \<Rightarrow> u8 \<Rightarrow> nat" where
  "rl_state_idx f_alpha f_rate f_cold =
     (let ab = (if f_alpha \<ge> 25 then 3 else if f_alpha \<ge> 10 then 2 else if f_alpha \<ge> 3 then 1 else 0);
          rb = (if f_rate \<ge> 21 then 2 else if f_rate \<ge> 6 then 1 else 0);
          cb = (if f_cold \<ge> 2 then 2 else unat f_cold)
      in ab * 9 + rb * 3 + cb)"

text \<open>\<open>q[s][a]\<close> outside the table is a panic.\<close>

definition rl_update_q :: "int list list \<Rightarrow> nat \<Rightarrow> u8 \<Rightarrow> int \<Rightarrow> nat \<Rightarrow> int list list option" where
  "rl_update_q q s a reward next_s =
     (if next_s < length q \<and> s < length q \<and> q ! next_s \<noteq> [] \<and> unat a < length (q ! s) then do {
        let max_next = foldl (\<lambda>m v. if v > m then v else m) (q ! next_s ! 0) (tl (q ! next_s));
        let q_val = q ! s ! unat a;
        r \<leftarrow> i32_chk (reward * 100);
        g \<leftarrow> i32_chk (RL_GAMMA_NUM * max_next);
        td_target \<leftarrow> i32_chk (r + g sdiv RL_GAMMA_DEN);
        td_error \<leftarrow> i32_chk (td_target - q_val);
        v \<leftarrow> i32_chk (q_val + td_error sdiv RL_LR_DEN);
        Some (q[s := (q ! s)[unat a := v]])
      } else None)"

definition xorshift :: "u64 \<Rightarrow> u64" where
  "xorshift x =
     (let x = x XOR push_bit 13 x; x = x XOR drop_bit 7 x in x XOR push_bit 17 x)"

text \<open>The result is the new generator state and the action; the first of equal maxima wins.\<close>

definition rl_select_action :: "int list \<Rightarrow> u8 \<Rightarrow> u64 \<Rightarrow> u64 \<times> u8" where
  "rl_select_action q_row epsilon_pct rng =
     (let rng = xorshift (if rng = 0 then 0xdeadbeefcafe else rng);
          r = rng mod 100
      in if r < ucast epsilon_pct
         then let rng = xorshift rng in (rng, ucast (rng mod of_nat RL_N_ACTIONS))
         else (rng, of_nat (min_idx uminus q_row)))"

definition rl_compute_reward :: "u8 \<Rightarrow> u64 \<Rightarrow> u64 \<Rightarrow> bool \<Rightarrow> int" where
  "rl_compute_reward action delta prev_delta channel_exists =
     (let growing = delta \<ge> 20;
          is_spike = growing \<and> prev_delta < 5 \<and> delta \<ge> 50;
          push = action = RL_ENCOURAGE \<or> action = RL_PIN_PUSH
      in if is_spike then
           if action = RL_DISCOURAGE then 10
           else if action = RL_NOOP then - 3
           else if push then - 8
           else 0
         else
           if push \<and> growing \<and> channel_exists then 12
           else if push \<and> growing then 8
           else if push then 2
           else if action = RL_NOOP \<and> growing \<and> channel_exists then 5
           else if action = RL_NOOP \<and> growing then 3
           else if action = RL_NOOP then 1
           else if action = RL_DISCOURAGE \<and> growing then - 2
           else 0)"

definition rl_action_name :: "u8 \<Rightarrow> string" where
  "rl_action_name a =
     (if a = RL_NOOP then ''NOOP'' else if a = RL_ENCOURAGE then ''ENCOURAGE''
      else if a = RL_DISCOURAGE then ''DISCOURAGE'' else if a = RL_PIN_PUSH then ''PIN_PUSH'' else ''?'')"

section \<open>Bayesian counters, moving averages, ladders\<close>

text \<open>The update of \<open>bayes_alpha\<close> and \<open>bayes_beta\<close> in \<open>adapt_and_report\<close>; \<open>as u32\<close> truncates.\<close>

definition bayes_update :: "u64 \<Rightarrow> u32 \<times> u32 \<Rightarrow> u32 \<times> u32" where
  "bayes_update delta ab =
     (case ab of (a, b) \<Rightarrow>
      if delta > 0 then
        let gain = min (max (ucast (delta div 10)) BAYES_HOT_GAIN) BAYES_GAIN_CAP
        in (min (sat_add a gain) BAYES_MAX, max (sat_sub b 1) BAYES_PRIOR_BETA)
      else (max (sat_sub a BAYES_COLD_DECAY) BAYES_PRIOR_ALPHA, min (sat_add b BAYES_COLD_GAIN) BAYES_MAX))"

definition bayes_score :: "u32 \<Rightarrow> u32 \<Rightarrow> u64 option" where
  "bayes_score a b = do {
     n \<leftarrow> mul_chk (ucast a :: u64) 1000;
     d \<leftarrow> add_chk (ucast a :: u64) (ucast b);
     d \<leftarrow> add_chk d 1;
     Some (n div d)
   }"

text \<open>\<open>(3 * x + 7 * ema) / 10\<close>, the exponential moving average all windows use.\<close>

definition ema_3_7 :: "u64 \<Rightarrow> u64 \<Rightarrow> u64 option" where
  "ema_3_7 x ema = do {
     a \<leftarrow> mul_chk 3 x;
     b \<leftarrow> mul_chk 7 ema;
     c \<leftarrow> add_chk a b;
     Some (c div 10)
   }"

text \<open>One rung per window towards the target.\<close>

definition ladder_step :: "nat \<Rightarrow> nat \<Rightarrow> nat" where
  "ladder_step target cur = (if target > cur then cur + 1 else if target < cur then cur - 1 else cur)"

section \<open>The eviction table\<close>

type_synonym evict = "(pid \<times> pid \<times> u64) list \<times> nat"

definition in_evict_cooldown :: "evict \<Rightarrow> pid \<Rightarrow> pid \<Rightarrow> u64 \<Rightarrow> bool" where
  "in_evict_cooldown ev from to tick \<longleftrightarrow>
     list_ex (\<lambda>(ef, et, min_tick). ef = from \<and> et = to \<and> tick < min_tick) (take (snd ev) (fst ev))"

definition record_eviction :: "pid \<Rightarrow> pid \<Rightarrow> u64 \<Rightarrow> evict \<Rightarrow> evict option" where
  "record_eviction from to tick ev = do {
     min_tick \<leftarrow> add_chk tick CHANNEL_RECREATE_COOLDOWN_TICKS;
     let (tab, n) = ev;
     Some (case find_idx (\<lambda>(f, t, _). f = from \<and> t = to) (take n tab) of
         Some i \<Rightarrow> (tab[i := (fst (tab ! i), fst (snd (tab ! i)), min_tick)], n)
       | None \<Rightarrow>
           if n < MAX_EVICT_PAIRS then (tab[n := (from, to, min_tick)], n + 1)
           else (tab[min_idx (\<lambda>(_, _, m). m) tab := (from, to, min_tick)], n))
   }"

function expire_loop :: "u64 \<Rightarrow> nat \<Rightarrow> evict \<Rightarrow> evict" where
  "expire_loop tick i (tab, n) =
     (if i < n then
        if tick \<ge> snd (snd (tab ! i)) then
          let n = n - 1;
              tab = tab[i := tab ! n];
              tab = tab[n := (0, 0, 0)]
          in expire_loop tick i (tab, n)
        else expire_loop tick (i + 1) (tab, n)
      else (tab, n))"
  by pat_completeness auto
termination
  by (relation "measure (\<lambda>(_, i, _, n). n - i)") auto

definition expire_evictions :: "u64 \<Rightarrow> evict \<Rightarrow> evict" where
  "expire_evictions tick ev = expire_loop tick 0 ev"

declare expire_loop.simps [simp del]

section \<open>Ranking\<close>

text \<open>
  The selection loops of \<open>hot_ipc_pairs\<close> and \<open>adapt_and_report\<close>: round \<open>i\<close> swaps the first largest
  of the rest to position \<open>i\<close>; \<open>k\<close> rounds starting at \<open>i\<close>.
\<close>

definition swap_at :: "nat \<Rightarrow> nat \<Rightarrow> 'a list \<Rightarrow> 'a list" where
  "swap_at i j xs = xs[i := xs ! j, j := xs ! i]"

fun select_rounds :: "('a \<Rightarrow> int) \<Rightarrow> nat \<Rightarrow> nat \<Rightarrow> 'a list \<Rightarrow> 'a list" where
  "select_rounds key i 0 xs = xs"
| "select_rounds key i (Suc k) xs =
     (let best = i + min_idx (\<lambda>x. - key x) (drop i xs)
      in select_rounds key (Suc i) k (swap_at i best xs))"

section \<open>Properties of the classifier and the counters\<close>

text \<open>The score of the decision trees lies between -120 and 580, so the bias of 1000 added before it is
  ranked as an unsigned number keeps it positive; and it is monotone in the evidence: more Bayesian
  weight, a higher rate, a rising trend, fewer cold windows and a smaller counter weight never
  lower it.\<close>

theorem ml2_gbdt_monotone:
  assumes "a \<le> a'" and "b' \<le> b" and "r \<le> r'" and "0 \<le> c'" and "c' \<le> c" and "t = 1 \<longrightarrow> t' = 1"
  shows "- 120 \<le> ml2_gbdt a b r c t \<and> ml2_gbdt a b r c t \<le> ml2_gbdt a' b' r' c' t' \<and>
    ml2_gbdt a' b' r' c' t' \<le> 580"
  using assms unfolding ml2_gbdt_def Let_def
  by (intro conjI add_mono) (auto split: if_splits)

theorem ml2_gbdt_monotone_witness:
  "- 120 \<le> ml2_gbdt 5 6 16 1 0 \<and> ml2_gbdt 5 6 16 1 0 \<le> ml2_gbdt 12 4 40 0 1 \<and> ml2_gbdt 12 4 40 0 1 \<le> 580"
  by (rule ml2_gbdt_monotone) simp_all

definition bayes_ok :: "u32 \<times> u32 \<Rightarrow> bool" where
  "bayes_ok ab \<longleftrightarrow> 1 \<le> fst ab \<and> fst ab \<le> 500 \<and> 4 \<le> snd ab \<and> snd ab \<le> 500"

lemma bayes_update_nat:
  assumes "bayes_ok (a, b)"
  shows "unat (fst (bayes_update d (a, b))) =
      (if d > 0 then min (unat a + max 2 (min 5 (unat (ucast (d div 10) :: u32)))) 500 else max (unat a - 3) 1)"
    and "unat (snd (bayes_update d (a, b))) = (if d > 0 then max (unat b - 1) 4 else min (unat b + 1) 500)"
proof -
  have u: "unat a \<le> 500" "unat b \<le> 500" using assms by (simp_all add: bayes_ok_def word_le_nat_alt)
  have g: "unat (min (max (ucast (d div 10)) BAYES_HOT_GAIN) BAYES_GAIN_CAP) =
      max 2 (min 5 (unat (ucast (d div 10) :: u32)))"
    by (auto simp: min_def max_def word_le_nat_alt bayes_consts)
  have m: "unat (min x y) = min (unat x) (unat y)" "unat (max x y) = max (unat x) (unat y)" for x y :: u32
    by (auto simp: min_def max_def word_le_nat_alt)
  show "unat (fst (bayes_update d (a, b))) =
      (if d > 0 then min (unat a + max 2 (min 5 (unat (ucast (d div 10) :: u32)))) 500 else max (unat a - 3) 1)"
    using u g by (simp add: bayes_update_def m unat_sat_add unat_sat_sub bayes_consts Let_def)
  show "unat (snd (bayes_update d (a, b))) = (if d > 0 then max (unat b - 1) 4 else min (unat b + 1) 500)"
    using u by (simp add: bayes_update_def m unat_sat_add unat_sat_sub bayes_consts Let_def)
qed

lemma bayes_update_ok:
  assumes "bayes_ok ab"
  shows "bayes_ok (bayes_update d ab)"
proof -
  obtain a b where ab: "ab = (a, b)" by fastforce
  have "1 \<le> unat a" "4 \<le> unat b" "unat a \<le> 500" "unat b \<le> 500"
    using assms by (simp_all add: ab bayes_ok_def word_le_nat_alt)
  then show ?thesis
    using bayes_update_nat [of a b d] assms by (auto simp: bayes_ok_def word_le_nat_alt ab min_def max_def)
qed

lemma bayes_score_total:
  assumes "bayes_ok (a, b)"
  shows "\<exists>s. bayes_score a b = Some s \<and> unat s = unat a * 1000 div (unat a + unat b + 1) \<and> unat s < 1000"
proof -
  have u: "unat a \<le> 500" "unat b \<le> 500" using assms by (simp_all add: bayes_ok_def word_le_nat_alt)
  have c: "unat (ucast x :: u64) = unat x" for x :: u32
  proof -
    have "unat x < 2 ^ LENGTH(32)" by (rule unsigned_less)
    then show ?thesis by (simp add: unsigned_ucast_eq take_bit_nat_eq_self_iff)
  qed
  have "unat (ucast a * 1000 :: u64) = unat a * 1000" "unat (ucast a + ucast b + 1 :: u64) = unat a + unat b + 1"
    "unat (ucast a + ucast b :: u64) = unat a + unat b"
    using u by (simp_all add: unat_word_ariths c)
  moreover from this have "bayes_score a b = Some ((ucast a * 1000) div (ucast a + ucast b + 1))"
    using u by (simp add: bayes_score_def mul_chk_def add_chk_def c)
  moreover have "unat a * 1000 div (unat a + unat b + 1) < 1000"
    by (simp add: less_mult_imp_div_less)
  ultimately show ?thesis by (simp add: unat_div)
qed

text \<open>Windows with traffic move the counters up, whatever the volume.\<close>

lemma bayes_windows:
  assumes "bayes_ok ab" and "\<forall>d \<in> set ds. 0 < d"
  shows "bayes_ok (fold bayes_update ds ab)"
    and "min 500 (unat (fst ab) + 2 * length ds) \<le> unat (fst (fold bayes_update ds ab))"
    and "unat (snd (fold bayes_update ds ab)) = max 4 (unat (snd ab) - length ds)"
  using assms
proof (induction ds arbitrary: ab)
  case Nil
  {
    case 1
    then show ?case by simp
  next
    case 2
    then show ?case by simp
  next
    case 3
    then show ?case by (auto simp: bayes_ok_def word_le_nat_alt)
  }
next
  case (Cons d ds)
  {
    case 1
    then show ?case using Cons.IH(1) bayes_update_ok by simp
  next
    case 2
    obtain a b where ab: "ab = (a, b)" by fastforce
    from 2 have ok: "bayes_ok (bayes_update d ab)" "bayes_ok (a, b)" and d: "0 < d"
      using bayes_update_ok [of ab d] by (simp_all add: ab)
    have "min 500 (unat (fst ab) + 2) \<le> unat (fst (bayes_update d ab))"
      using bayes_update_nat(1) [OF ok(2), of d] d by (auto simp: ab min_def max_def)
    with Cons.IH(2) [OF ok(1)] 2 show ?case by auto
  next
    case 3
    obtain a b where ab: "ab = (a, b)" by fastforce
    from 3 have ok: "bayes_ok (bayes_update d ab)" "bayes_ok (a, b)" and d: "0 < d"
      using bayes_update_ok [of ab d] by (simp_all add: ab)
    have "unat (snd (bayes_update d ab)) = max 4 (unat (snd ab) - 1)"
      using bayes_update_nat(2) [OF ok(2), of d] d by (simp add: ab max.commute)
    with Cons.IH(3) [OF ok(1)] 3 show ?case by (auto simp: max_def)
  }
qed

text \<open>A pair that keeps talking becomes hot: from any reachable counters, after 496 windows in a row
  with at least one message the Bayesian score is at least 650 (from the initial counters after
  five), and the counters never leave their range, so the score is always computed without overflow.\<close>

theorem active_pair_becomes_hot:
  assumes ok: "bayes_ok ab" and act: "\<forall>d \<in> set ds. 0 < d"
    and n: "496 \<le> length ds \<or> ab = (BAYES_PRIOR_ALPHA, BAYES_PRIOR_BETA) \<and> 5 \<le> length ds"
  shows "bayes_ok (fold bayes_update ds ab) \<and>
    (\<exists>s. bayes_score (fst (fold bayes_update ds ab)) (snd (fold bayes_update ds ab)) = Some s \<and>
      ucast BAYES_HOT_SCORE \<le> s \<and> s < 1000)"
proof -
  obtain a b where f: "fold bayes_update ds ab = (a, b)" by fastforce
  note w = bayes_windows [OF ok act, unfolded f]
  obtain s where s: "bayes_score a b = Some s" "unat s = unat a * 1000 div (unat a + unat b + 1)" "unat s < 1000"
    using bayes_score_total [of a b] w(1) by blast
  have r: "1 \<le> unat (fst ab)" "unat (snd ab) \<le> 500"
    using ok by (simp_all add: bayes_ok_def word_le_nat_alt)
  have b: "unat b = 4" and a: "11 \<le> unat a"
    using n w(2,3) r by (auto simp: bayes_consts)
  have "650 * (unat a + unat b + 1) \<le> unat a * 1000" using a b by simp
  then have "650 \<le> unat s" unfolding s(2) by (simp add: less_eq_div_iff_mult_less_eq)
  then show ?thesis using w(1) s f by (simp add: word_le_nat_alt word_less_nat_alt bayes_consts)
qed

theorem active_pair_becomes_hot_witness:
  "\<exists>s. bayes_score (fst (fold bayes_update [1, 1, 1, 1, 1] (1, 4))) (snd (fold bayes_update [1, 1, 1, 1, 1] (1, 4))) = Some s \<and>
    650 \<le> s"
  using active_pair_becomes_hot [of "(1, 4)" "[1, 1, 1, 1, 1]"] by (auto simp: bayes_ok_def bayes_consts)

section \<open>Properties of the learner\<close>

definition q_ok :: "int list list \<Rightarrow> bool" where
  "q_ok q \<longleftrightarrow> length q = RL_N_STATES \<and> (\<forall>row \<in> set q. length row = RL_N_ACTIONS \<and> (\<forall>v \<in> set row. \<bar>v\<bar> \<le> 20000))"

lemma foldl_max_mem: "foldl (\<lambda>m v. if v > m then v else m) x xs \<in> insert x (set xs)" for x :: int
  by (induction xs arbitrary: x) (auto split: if_splits)

lemma sdiv_10: "x sdiv 10 = (if 0 \<le> x then x div 10 else - ((- x) div 10))" for x :: int
  by (simp add: signed_divide_int_def sgn_if)

lemma rl_update_q_spec:
  assumes q: "q_ok q" and s: "s < RL_N_STATES" and n: "next_s < RL_N_STATES" and a: "a < 4" and r: "\<bar>reward\<bar> \<le> 20"
  shows "\<exists>v target. rl_update_q q s a reward next_s = Some (q[s := (q ! s)[unat a := v]]) \<and>
    q_ok (q[s := (q ! s)[unat a := v]]) \<and> \<bar>target\<bar> \<le> 20000 \<and>
    v = q ! s ! unat a + (target - q ! s ! unat a) sdiv 10"
proof -
  let ?x = "q ! s ! unat a"
  have rows: "length q = RL_N_STATES" "length (q ! s) = 4" "length (q ! next_s) = 4" "q ! next_s \<in> set q" "q ! s \<in> set q"
    using q s n by (auto simp: q_ok_def RL_N_ACTIONS_def)
  have ua: "unat a < 4" using a by (simp add: word_less_nat_alt)
  have x: "\<bar>?x\<bar> \<le> 20000" using q rows ua by (auto simp: q_ok_def)
  define m where "m = foldl (\<lambda>m v. if v > m then v else m) (q ! next_s ! 0) (tl (q ! next_s))"
  have ne: "q ! next_s \<noteq> []" using rows(3) by auto
  then have "m \<in> set (q ! next_s)"
    using foldl_max_mem [of "q ! next_s ! 0" "tl (q ! next_s)"] unfolding m_def
    by (cases "q ! next_s") auto
  then have m: "\<bar>m\<bar> \<le> 20000" using q rows(4) by (auto simp: q_ok_def)
  define t where "t = reward * 100 + (9 * m) sdiv 10"
  have t: "\<bar>t\<bar> \<le> 20000" using m r by (auto simp: t_def sdiv_10 abs_le_iff)
  define v where "v = ?x + (t - ?x) sdiv 10"
  have v: "\<bar>v\<bar> \<le> 20000" using x t by (auto simp: v_def sdiv_10 abs_le_iff)
  have "i32_chk (reward * 100) = Some (reward * 100)" "i32_chk (9 * m) = Some (9 * m)" "i32_chk t = Some t"
    "i32_chk (t - ?x) = Some (t - ?x)" "i32_chk v = Some v"
    using r m t x v by (auto simp: i32_chk_def abs_le_iff)
  then have "rl_update_q q s a reward next_s = Some (q[s := (q ! s)[unat a := v]])"
    using rows s n ua ne
    by (simp add: rl_update_q_def Let_def rl_consts flip: m_def t_def v_def)
  moreover have "q_ok (q[s := (q ! s)[unat a := v]])"
    unfolding q_ok_def
  proof (intro conjI ballI)
    fix row w
    assume row: "row \<in> set (q[s := (q ! s)[unat a := v]])"
    then have "row \<in> set q \<or> row = (q ! s)[unat a := v]" by (meson insertE set_update_subset_insert subsetD)
    then show "length row = RL_N_ACTIONS" using q rows(2) by (auto simp: q_ok_def RL_N_ACTIONS_def)
    assume w: "w \<in> set row"
    with \<open>row \<in> set q \<or> row = _\<close> have "(\<exists>rw \<in> set q. w \<in> set rw) \<or> w = v"
      using rows(5) by (meson insertE set_update_subset_insert subsetD)
    then show "\<bar>w\<bar> \<le> 20000" using q v by (auto simp: q_ok_def)
  qed (simp add: rows)
  ultimately show ?thesis using t v_def by blast
qed

text \<open>C36: The value table of the learner never overflows: while every entry is within 20000 of zero, an
  update with a reward between -20 and 20 for valid states and actions succeeds (no \<open>i32\<close>
  overflow, no index out of range) and keeps every entry within 20000; only the entry of the old
  state and action changes, and it moves towards the target by a tenth of the distance.\<close>

theorem rl_update_q_bounded:
  assumes q: "q_ok q" and s: "s < RL_N_STATES" and n: "next_s < RL_N_STATES" and a: "a < 4" and r: "\<bar>reward\<bar> \<le> 20"
  shows "\<exists>v target. rl_update_q q s a reward next_s = Some (q[s := (q ! s)[unat a := v]]) \<and>
    q_ok (q[s := (q ! s)[unat a := v]]) \<and> \<bar>target\<bar> \<le> 20000 \<and>
    v = q ! s ! unat a + (target - q ! s ! unat a) sdiv 10"
  by (rule rl_update_q_spec [OF assms])

definition q_init :: "int list list" where
  "q_init = replicate RL_N_STATES [10, 0, 0, 0]"

lemma q_init_ok: "q_ok q_init"
  by (simp add: q_ok_def q_init_def rl_consts)

theorem rl_update_q_bounded_witness:
  "\<exists>v. rl_update_q q_init 3 1 (- 20) 7 = Some (q_init[3 := (q_init ! 3)[1 := v]])"
  using rl_update_q_bounded [OF q_init_ok, of 3 7 1 "- 20"] by (auto simp: RL_N_STATES_def)

lemma rl_state_idx_less: "rl_state_idx a r c < RL_N_STATES"
proof -
  have "unat c < 2" if "\<not> 2 \<le> c" using that by (simp add: word_le_nat_alt)
  then show ?thesis by (auto simp: rl_state_idx_def Let_def RL_N_STATES_def)
qed

lemma reward_bounds: "\<bar>rl_compute_reward a d p c\<bar> \<le> 20"
  by (auto simp: rl_compute_reward_def Let_def)

lemma xor_push_nonzero: "x \<noteq> 0 \<Longrightarrow> 0 < n \<Longrightarrow> x XOR push_bit n x \<noteq> 0" for x :: u64
proof
  assume x: "x \<noteq> 0" and n: "0 < n" and z: "x XOR push_bit n x = 0"
  obtain j where "bit x j" using x by (auto simp: bit_eq_iff)
  then obtain k where k: "bit x k" "\<And>j. j < k \<Longrightarrow> \<not> bit x j"
    using exists_least_iff [of "bit x"] by auto
  have "bit (x XOR push_bit n x) k"
    using k n bit_imp_le_length [OF k(1)] by (auto simp: bit_simps)
  then show False using z by simp
qed

lemma xor_drop_nonzero: "x \<noteq> 0 \<Longrightarrow> 0 < n \<Longrightarrow> x XOR drop_bit n x \<noteq> 0" for x :: u64
proof
  assume x: "x \<noteq> 0" and n: "0 < n" and z: "x XOR drop_bit n x = 0"
  obtain j where j: "bit x j" using x by (auto simp: bit_eq_iff)
  let ?S = "{j. bit x j}"
  have fin: "finite ?S" by (rule finite_subset [of _ "{..<64}"]) (auto dest: bit_imp_le_length)
  define k where "k = Max ?S"
  have k: "bit x k" using Max_in [OF fin] j by (auto simp: k_def)
  have "\<not> bit x (k + n)" using Max_ge [OF fin, of "k + n"] n by (auto simp: k_def)
  then have "bit (x XOR drop_bit n x) k" using k by (simp add: bit_simps add.commute)
  then show False using z by simp
qed

lemma xorshift_nonzero: "x \<noteq> 0 \<Longrightarrow> xorshift x \<noteq> 0"
  unfolding xorshift_def Let_def by (intro xor_push_nonzero xor_drop_nonzero) simp_all

lemma rl_select_action_spec:
  assumes row: "length row = RL_N_ACTIONS" and r: "rl_select_action row eps rng = (rng', a)"
  shows "a < 4 \<and> rng' \<noteq> 0 \<and>
    (ucast eps \<le> rng' mod 100 \<and> rng' = xorshift (if rng = 0 then 0xdeadbeefcafe else rng) \<longrightarrow>
      (\<forall>i < 4. row ! i \<le> row ! unat a) \<and> (\<forall>i < unat a. row ! i < row ! unat a))"
proof -
  let ?g = "xorshift (if rng = 0 then 0xdeadbeefcafe else rng)"
  have g: "?g \<noteq> 0" "xorshift ?g \<noteq> 0" by (simp_all add: xorshift_nonzero)
  let ?b = "min_idx uminus row"
  have ne: "row \<noteq> []" using row by (auto simp: RL_N_ACTIONS_def)
  have b: "?b < 4" "\<forall>i < 4. row ! i \<le> row ! ?b" "\<forall>i < ?b. row ! i < row ! ?b"
    using min_idx_spec [OF ne, where key = uminus] min_idx_first [where key = uminus and xs = row] row
    by (auto simp: RL_N_ACTIONS_def)
  have ub: "unat (of_nat ?b :: u8) = ?b" using b(1) by (simp add: unat_of_nat)
  show ?thesis
  proof (cases "?g mod 100 < ucast eps")
    case True
    then have e: "rng' = xorshift ?g" "a = ucast (xorshift ?g mod 4)"
      using r by (auto simp: rl_select_action_def Let_def RL_N_ACTIONS_def)
    have "xorshift ?g mod 4 < 4" by (simp add: word_mod_less_divisor)
    then have "unat (xorshift ?g mod 4) < 4" by (simp add: word_less_nat_alt)
    then have "unat (ucast (xorshift ?g mod 4) :: u8) < 4"
      by (simp add: unsigned_ucast_eq take_bit_nat_eq_self_iff take_bit_eq_mod)
    then have "a < 4" by (simp add: e word_less_nat_alt)
    moreover have "\<not> (ucast eps \<le> rng' mod 100 \<and> rng' = ?g)" using True by auto
    moreover have "rng' \<noteq> 0" using g(2) e(1) by simp
    ultimately show ?thesis by blast
  next
    case False
    then have e: "rng' = ?g" "a = of_nat ?b"
      using r by (simp_all add: rl_select_action_def Let_def)
    then show ?thesis using g b ub by (simp add: word_less_nat_alt)
  qed
qed

text \<open>Choosing an action: the result is one of the four actions, and the generator never reaches the
  state 0 in which a xorshift would stay; when the learner does not explore, the chosen action has
  the largest value of the row, the first of these in case of a tie.\<close>

theorem rl_select_action_sound:
  assumes row: "length row = RL_N_ACTIONS" and r: "rl_select_action row eps rng = (rng', a)"
  shows "a < 4 \<and> rng' \<noteq> 0 \<and>
    (ucast eps \<le> rng' mod 100 \<and> rng' = xorshift (if rng = 0 then 0xdeadbeefcafe else rng) \<longrightarrow>
      (\<forall>i < 4. row ! i \<le> row ! unat a) \<and> (\<forall>i < unat a. row ! i < row ! unat a))"
  by (rule rl_select_action_spec [OF assms])

theorem rl_select_action_sound_witness:
  "snd (rl_select_action [10, 0, 0, 0] 0 1) < 4"
  using rl_select_action_sound [of "[10, 0, 0, 0]" 0 1 "fst (rl_select_action [10, 0, 0, 0] 0 1)"
      "snd (rl_select_action [10, 0, 0, 0] 0 1)"]
  by (simp add: RL_N_ACTIONS_def)

section \<open>Properties of the eviction table\<close>

abbreviation evicted :: "evict \<Rightarrow> (pid \<times> pid \<times> u64) list" where
  "evicted ev \<equiv> take (snd ev) (fst ev)"

abbreviation evict_pairs :: "(pid \<times> pid \<times> u64) list \<Rightarrow> (pid \<times> pid) list" where
  "evict_pairs xs \<equiv> map (\<lambda>x. (fst x, fst (snd x))) xs"

definition evict_ok :: "evict \<Rightarrow> bool" where
  "evict_ok ev \<longleftrightarrow> length (fst ev) = MAX_EVICT_PAIRS \<and> snd ev \<le> MAX_EVICT_PAIRS \<and>
     distinct (evict_pairs (evicted ev))"

lemma in_evict_cooldown_iff: "in_evict_cooldown ev f t u \<longleftrightarrow> (\<exists>m. (f, t, m) \<in> set (evicted ev) \<and> u < m)"
  by (auto simp: in_evict_cooldown_def list_ex_iff)

lemma distinct_filter_mset:
  assumes "mset xs' = filter_mset P (mset xs)" and "distinct (map g xs)"
  shows "distinct (map g xs')"
proof -
  have "image_mset g (mset xs') \<subseteq># image_mset g (mset xs)"
    unfolding assms(1) by (rule image_mset_subseteq_mono) simp
  then have "count (mset (map g xs')) a \<le> count (mset (map g xs)) a" for a
    by (metis mset_map mset_subset_eq_count)
  then have "count (mset (map g xs')) a \<le> 1" for a
    using assms(2) by (metis distinct_count_atmost_1 le_trans linear zero_le_one)
  then show ?thesis
    unfolding distinct_count_atmost_1 by (metis One_nat_def count_greater_zero_iff le_antisym not_gr_zero set_mset_mset Suc_leI)
qed

lemma expire_loop_spec:
  assumes "n \<le> length tab" and "i \<le> n"
  shows "case expire_loop tick i (tab, n) of (tab', n') \<Rightarrow>
    length tab' = length tab \<and> i \<le> n' \<and> n' \<le> n \<and> take i tab' = take i tab \<and>
    mset (drop i (take n' tab')) = filter_mset (\<lambda>(_, _, m). tick < m) (mset (drop i (take n tab)))"
  using assms
proof (induction tick i "(tab, n)" arbitrary: tab n rule: expire_loop.induct)
  case (1 tick i tab n)
  note unf = expire_loop.simps [of tick i tab n]
  show ?case
  proof (cases "i < n")
    case False
    then have "expire_loop tick i (tab, n) = (tab, n)" by (simp add: unf)
    with False 1(4) show ?thesis by simp
  next
    case i: True
    have head: "drop i (take n tab) = tab ! i # drop (Suc i) (take n tab)"
      using i 1(3) Cons_nth_drop_Suc [of i "take n tab", symmetric] by simp
    show ?thesis
    proof (cases "tick \<ge> snd (snd (tab ! i))")
      case False
      have sub: "mset (drop i (take n' tab')) = add_mset (tab ! i) (mset (drop (Suc i) (take n' tab')))"
        if "Suc i \<le> n'" "n' \<le> n" "length tab' = length tab" "take (Suc i) tab' = take (Suc i) tab" for n' tab'
      proof -
        have "tab' ! i = tab ! i" using that(4) by (metis lessI nth_take)
        moreover have "drop i (take n' tab') = tab' ! i # drop (Suc i) (take n' tab')"
          using that 1(3) i Cons_nth_drop_Suc [of i "take n' tab'", symmetric] by simp
        ultimately show ?thesis by simp
      qed
      have tk: "take i tab' = take i tab" if "take (Suc i) tab' = take (Suc i) tab" for tab' :: "(pid \<times> pid \<times> u64) list"
        using that by (metis Suc_n_not_le_n nat_le_linear take_take min.absorb1)
      have "case expire_loop tick (Suc i) (tab, n) of (tab', n') \<Rightarrow>
          length tab' = length tab \<and> Suc i \<le> n' \<and> n' \<le> n \<and> take (Suc i) tab' = take (Suc i) tab \<and>
          mset (drop (Suc i) (take n' tab')) = filter_mset (\<lambda>(_, _, m). tick < m) (mset (drop (Suc i) (take n tab)))"
        using 1(2) [OF i False] 1(3) i by simp
      then obtain tab' n' where e: "expire_loop tick (Suc i) (tab, n) = (tab', n')" "length tab' = length tab"
        "Suc i \<le> n'" "n' \<le> n" "take (Suc i) tab' = take (Suc i) tab" and
        ms: "mset (drop (Suc i) (take n' tab')) = filter_mset (\<lambda>(_, _, m). tick < m) (mset (drop (Suc i) (take n tab)))"
        by (cases "expire_loop tick (Suc i) (tab, n)") auto
      have "expire_loop tick i (tab, n) = (tab', n')" using i False e(1) by (simp add: unf)
      moreover have "filter_mset (\<lambda>(_, _, m). tick < m) (mset (drop i (take n tab))) =
          add_mset (tab ! i) (filter_mset (\<lambda>(_, _, m). tick < m) (mset (drop (Suc i) (take n tab))))"
        using False by (simp add: head not_le split_beta)
      ultimately show ?thesis using e(2-5) sub [OF e(3,4,2,5)] tk [OF e(5)] ms by simp
    next
      case True
      let ?n = "n - 1" and ?t = "tab[i := tab ! (n - 1), n - 1 := (0, 0, 0)]"
      have "case expire_loop tick i (?t, ?n) of (tab', n') \<Rightarrow>
          length tab' = length ?t \<and> i \<le> n' \<and> n' \<le> ?n \<and> take i tab' = take i ?t \<and>
          mset (drop i (take n' tab')) = filter_mset (\<lambda>(_, _, m). tick < m) (mset (drop i (take ?n ?t)))"
        by (rule 1(1) [OF i True refl refl refl]) (use 1(3) i in auto)
      moreover have "take i ?t = take i tab" using i by simp
      moreover have "filter_mset (\<lambda>(_, _, m). tick < m) (mset (drop i (take ?n ?t))) =
          filter_mset (\<lambda>(_, _, m). tick < m) (mset (drop i (take n tab)))"
      proof (cases "i = n - 1")
        case True
        then have "drop i (take n tab) = [tab ! i]" "drop i (take ?n ?t) = []" using head i by simp_all
        then show ?thesis using \<open>tick \<ge> _\<close> by (simp add: not_less split_beta)
      next
        case False
        then have l: "i < n - 1" using i by simp
        have "take ?n ?t = (take ?n tab)[i := tab ! (n - 1)]"
          by (simp add: take_update_swap list_update_beyond)
        then have d: "drop i (take ?n ?t) = tab ! (n - 1) # drop (Suc i) (take ?n tab)"
          using l 1(3) Cons_nth_drop_Suc [of i "(take ?n tab)[i := tab ! (n - 1)]", symmetric] by simp
        have "take n tab = take ?n tab @ [tab ! (n - 1)]"
          using i 1(3) by (metis Suc_pred' Suc_le_lessD gr_implies_not0 not_gr_zero take_Suc_conv_app_nth)
        then have "drop (Suc i) (take n tab) = drop (Suc i) (take ?n tab) @ [tab ! (n - 1)]"
          using l 1(3) by simp
        then show ?thesis using True d head by (simp add: not_less split_beta)
      qed
      ultimately show ?thesis
        using i True by (auto simp: unf Let_def split: prod.splits)
    qed
  qed
qed

lemma expire_evictions_spec:
  assumes "evict_ok ev"
  shows "evict_ok (expire_evictions tick ev) \<and>
    mset (evicted (expire_evictions tick ev)) = filter_mset (\<lambda>(_, _, m). tick < m) (mset (evicted ev)) \<and>
    in_evict_cooldown (expire_evictions tick ev) f t tick = in_evict_cooldown ev f t tick"
proof -
  obtain tab n where ev: "ev = (tab, n)" by fastforce
  obtain tab' n' where ev': "expire_evictions tick ev = (tab', n')" by fastforce
  have sp: "length tab' = length tab" "n' \<le> n"
    and ms: "mset (take n' tab') = filter_mset (\<lambda>(_, _, m). tick < m) (mset (take n tab))"
    using expire_loop_spec [of n tab 0 tick] assms ev' by (auto simp: ev evict_ok_def expire_evictions_def)
  have "set (take n' tab') = {x \<in> set (take n tab). case x of (_, _, m) \<Rightarrow> tick < m}"
    using arg_cong [OF ms, of set_mset] by simp
  then have "in_evict_cooldown (tab', n') f t tick = in_evict_cooldown (tab, n) f t tick"
    by (auto simp: in_evict_cooldown_def list_ex_iff)
  moreover have "distinct (evict_pairs (take n' tab'))"
    by (rule distinct_filter_mset [OF ms]) (use assms in \<open>simp add: ev evict_ok_def\<close>)
  ultimately show ?thesis using sp ms assms unfolding ev' unfolding ev by (simp add: evict_ok_def)
qed

text \<open>Expiring evictions keeps exactly the entries whose cool-down is not over (the swap-removal loop is
  a filter of the table, up to order), keeps the table's size and never ends a running cool-down.\<close>

theorem expire_evictions_filters:
  assumes "evict_ok ev"
  shows "evict_ok (expire_evictions tick ev) \<and>
    mset (evicted (expire_evictions tick ev)) = filter_mset (\<lambda>(_, _, m). tick < m) (mset (evicted ev)) \<and>
    in_evict_cooldown (expire_evictions tick ev) f t tick = in_evict_cooldown ev f t tick"
  by (rule expire_evictions_spec [OF assms])

definition demo_evict :: evict where
  "demo_evict = ([(1, 2, 50), (3, 4, 90), (5, 6, 20)] @ replicate 5 (0, 0, 0), 3)"

theorem expire_evictions_filters_witness:
  "mset (evicted (expire_evictions 60 demo_evict)) = {#(3, 4, 90)#} \<and> in_evict_cooldown (expire_evictions 60 demo_evict) 3 4 60"
  using expire_evictions_filters [of demo_evict 60 3 4]
  by (simp add: evict_ok_def demo_evict_def MAX_EVICT_PAIRS_def in_evict_cooldown_def)

lemma record_eviction_cases:
  assumes ok: "evict_ok ev" and r: "record_eviction from to tick ev = Some ev'"
  obtains (known) i where "i < snd ev" "evict_pairs (evicted ev) ! i = (from, to)"
      "evicted ev' = (evicted ev)[i := (from, to, tick + 72)]" "snd ev' = snd ev" "length (fst ev') = length (fst ev)"
      "unat (tick + 72) = unat tick + 72"
  | (new) "(from, to) \<notin> set (evict_pairs (evicted ev))" "snd ev < MAX_EVICT_PAIRS"
      "evicted ev' = evicted ev @ [(from, to, tick + 72)]" "snd ev' = Suc (snd ev)" "length (fst ev') = length (fst ev)"
      "unat (tick + 72) = unat tick + 72"
  | (full) i where "(from, to) \<notin> set (evict_pairs (evicted ev))" "snd ev = MAX_EVICT_PAIRS" "i < MAX_EVICT_PAIRS"
      "\<And>j. j < MAX_EVICT_PAIRS \<Longrightarrow> snd (snd (evicted ev ! i)) \<le> snd (snd (evicted ev ! j))"
      "evicted ev' = (evicted ev)[i := (from, to, tick + 72)]" "snd ev' = snd ev" "length (fst ev') = length (fst ev)"
      "unat (tick + 72) = unat tick + 72"
proof -
  obtain tab n where ev: "ev = (tab, n)" by fastforce
  have l: "length tab = MAX_EVICT_PAIRS" "n \<le> MAX_EVICT_PAIRS" using ok by (simp_all add: ev evict_ok_def)
  from r have a: "add_chk tick 72 = Some (tick + 72)"
    by (auto simp: record_eviction_def ev bind_eq_Some_conv CHANNEL_RECREATE_COOLDOWN_TICKS_def dest: add_chk_SomeD)
  then have u: "unat (tick + 72) = unat tick + 72" using add_chk_SomeD [OF a] by simp
  let ?f = "find_idx (\<lambda>(f, t, _). f = from \<and> t = to) (take n tab)"
  show thesis
  proof (cases ?f)
    case (Some i)
    then have i: "i < n" "fst (tab ! i) = from" "fst (snd (tab ! i)) = to"
      using l by (auto simp: find_idx_Some_iff)
    have "ev' = (tab[i := (from, to, tick + 72)], n)"
      using r a Some i by (simp add: record_eviction_def ev CHANNEL_RECREATE_COOLDOWN_TICKS_def)
    then show thesis using known [of i] i l u by (simp add: ev take_update_swap)
  next
    case None
    then have no: "(from, to) \<notin> set (evict_pairs (take n tab))" by auto
    show thesis
    proof (cases "n < MAX_EVICT_PAIRS")
      case True
      then have "ev' = (tab[n := (from, to, tick + 72)], Suc n)"
        using r a None by (simp add: record_eviction_def ev CHANNEL_RECREATE_COOLDOWN_TICKS_def del: find_idx_None_iff)
      moreover have "take (Suc n) (tab[n := (from, to, tick + 72)]) = take n tab @ [(from, to, tick + 72)]"
        using True l by (simp add: take_Suc_conv_app_nth)
      ultimately show thesis using new no True u by (simp add: ev)
    next
      case False
      then have n: "n = MAX_EVICT_PAIRS" using l by simp
      let ?i = "min_idx (\<lambda>(_, _, m). m) tab"
      have ne: "tab \<noteq> []" using l by (auto simp: MAX_EVICT_PAIRS_def)
      have i: "?i < length tab" "\<And>j. j < length tab \<Longrightarrow> snd (snd (tab ! ?i)) \<le> snd (snd (tab ! j))"
        using min_idx_spec [OF ne, where key = "\<lambda>(_, _, m). m"] by (auto simp: split_beta)
      have "ev' = (tab[?i := (from, to, tick + 72)], n)"
        using r a None False by (simp add: record_eviction_def ev CHANNEL_RECREATE_COOLDOWN_TICKS_def del: find_idx_None_iff)
      then show thesis using full [of ?i] no n i l u by (simp add: ev)
    qed
  qed
qed

lemma record_eviction_spec:
  assumes ok: "evict_ok ev" and r: "record_eviction from to tick ev = Some ev'"
  shows "evict_ok ev' \<and> (in_evict_cooldown ev' from to u \<longleftrightarrow> u < tick + 72) \<and> tick < tick + 72 \<and>
    ((f, t) \<noteq> (from, to) \<and> in_evict_cooldown ev f t u \<and> \<not> in_evict_cooldown ev' f t u \<longrightarrow>
      snd ev = MAX_EVICT_PAIRS \<and> (\<exists>m. (f, t, m) \<in> set (evicted ev) \<and> (\<forall>x \<in> set (evicted ev). m \<le> snd (snd x)))) \<and>
    ((f, t) \<noteq> (from, to) \<and> in_evict_cooldown ev' f t u \<longrightarrow> in_evict_cooldown ev f t u)"
proof -
  let ?xs = "evicted ev"
  have d: "distinct (evict_pairs ?xs)" and l: "length (fst ev) = MAX_EVICT_PAIRS" "snd ev \<le> MAX_EVICT_PAIRS"
    using ok by (simp_all add: evict_ok_def)
  then have dx: "distinct ?xs" by (simp add: distinct_map)
  have len: "length ?xs = snd ev" using l by simp
  have lt: "tick < tick + 72" if "unat (tick + 72) = unat tick + 72" using that by (simp add: word_less_nat_alt)
  have upd: "set (?xs[i := y]) = insert y (set ?xs - {?xs ! i})" if "i < snd ev" for i y
    using set_update_distinct [OF dx, of i] that len by simp
  from ok r show ?thesis
  proof (cases rule: record_eviction_cases)
    case (known i)
    have pi: "(fst (?xs ! i), fst (snd (?xs ! i))) = (from, to)" using known(1,2) len by simp
    have only: "x = ?xs ! i" if "x \<in> set ?xs" "fst x = from" "fst (snd x) = to" for x
    proof -
      have "?xs ! i \<in> set ?xs" using known(1) len by (metis nth_mem)
      then show ?thesis using that d pi unfolding distinct_map inj_on_def by auto
    qed
    have "evict_pairs (evicted ev') = evict_pairs ?xs"
      using known(1,2,3) len by (simp add: map_update list_update_same_conv)
    then have ok': "evict_ok ev'" using d l known(4,5) by (simp add: evict_ok_def)
    have s: "set (evicted ev') = insert (from, to, tick + 72) (set ?xs - {?xs ! i})"
      unfolding known(3) by (rule upd [OF known(1)])
    obtain m0 where m0: "?xs ! i = (from, to, m0)" using pi by (cases "?xs ! i") auto
    have mem: "(f, t, m) \<in> set (evicted ev') \<longleftrightarrow>
        (f, t) = (from, to) \<and> m = tick + 72 \<or> (f, t) \<noteq> (from, to) \<and> (f, t, m) \<in> set ?xs" for f t m
      using s m0 only [of "(f, t, m)"] by auto
    show ?thesis using ok' lt [OF known(6)] unfolding in_evict_cooldown_iff mem by auto
  next
    case new
    have "(from, to, m) \<notin> set ?xs" for m using new(1) by force
    then have mem: "(f, t, m) \<in> set (evicted ev') \<longleftrightarrow>
        (f, t) = (from, to) \<and> m = tick + 72 \<or> (f, t) \<noteq> (from, to) \<and> (f, t, m) \<in> set ?xs" for f t m
      unfolding new(3) by auto
    have "evict_ok ev'" unfolding evict_ok_def new(3) using new(1,2,4,5) l d by simp
    then show ?thesis using lt [OF new(6)] unfolding in_evict_cooldown_iff mem by auto
  next
    case (full i)
    have no: "(from, to, m) \<notin> set ?xs" for m using full(1) by force
    have i: "i < snd ev" using full(2,3) by simp
    have m: "\<forall>x \<in> set ?xs. snd (snd (?xs ! i)) \<le> snd (snd x)"
      using full(2,4) len by (metis in_set_conv_nth)
    have "distinct (evict_pairs (evicted ev'))"
      unfolding full(5) map_update using d full(1) by (intro distinct_list_update) auto
    then have ok': "evict_ok ev'" using full(6,7) l by (simp add: evict_ok_def)
    have s: "set (evicted ev') = insert (from, to, tick + 72) (set ?xs - {?xs ! i})"
      unfolding full(5) by (rule upd [OF i])
    then have mem: "(f, t, m) \<in> set (evicted ev') \<longleftrightarrow> (f, t, m) = (from, to, tick + 72) \<or>
        (f, t, m) \<in> set ?xs \<and> (f, t, m) \<noteq> ?xs ! i" for f t m by auto
    have gone: "(f, t, m) = ?xs ! i \<Longrightarrow> (f, t, m) \<in> set ?xs \<Longrightarrow>
        \<exists>m. (f, t, m) \<in> set ?xs \<and> (\<forall>x \<in> set ?xs. m \<le> snd (snd x))" for f t m
      using m by (intro exI [of _ m]) (metis snd_conv)
    show ?thesis
      unfolding in_evict_cooldown_iff mem using ok' lt [OF full(8)] no full(2) gone by (intro conjI) blast+
  qed
qed

text \<open>A recorded eviction keeps its pair from being reconnected for exactly 72 ticks. While the table has
  room every other cool-down is unchanged; when it is full, at most the cool-down that ends first
  is given up.\<close>

theorem record_eviction_cools_down:
  assumes ok: "evict_ok ev" and r: "record_eviction from to tick ev = Some ev'"
  shows "evict_ok ev' \<and> (in_evict_cooldown ev' from to u \<longleftrightarrow> u < tick + 72) \<and> tick < tick + 72 \<and>
    ((f, t) \<noteq> (from, to) \<and> in_evict_cooldown ev f t u \<and> \<not> in_evict_cooldown ev' f t u \<longrightarrow>
      snd ev = MAX_EVICT_PAIRS \<and> (\<exists>m. (f, t, m) \<in> set (evicted ev) \<and> (\<forall>x \<in> set (evicted ev). m \<le> snd (snd x)))) \<and>
    ((f, t) \<noteq> (from, to) \<and> in_evict_cooldown ev' f t u \<longrightarrow> in_evict_cooldown ev f t u)"
  by (rule record_eviction_spec [OF assms])

theorem record_eviction_cools_down_witness:
  "\<exists>ev'. record_eviction 7 8 100 demo_evict = Some ev' \<and> in_evict_cooldown ev' 7 8 171 \<and> \<not> in_evict_cooldown ev' 7 8 172"
proof -
  have ok: "evict_ok demo_evict" by (simp add: evict_ok_def demo_evict_def MAX_EVICT_PAIRS_def)
  obtain ev' where r: "record_eviction 7 8 100 demo_evict = Some ev'"
    by (simp add: record_eviction_def demo_evict_def add_chk_def CHANNEL_RECREATE_COOLDOWN_TICKS_def)
  from record_eviction_cools_down [OF ok r, of 171] record_eviction_cools_down [OF ok r, of 172] r
  show ?thesis by auto
qed

section \<open>Properties of the ranking\<close>

lemma in_set_drop_iff: "x \<in> set (drop i xs) \<longleftrightarrow> (\<exists>j. i \<le> j \<and> j < length xs \<and> x = xs ! j)"
proof
  assume "x \<in> set (drop i xs)"
  then obtain k where "k < length xs - i" "x = xs ! (i + k)" by (auto simp: in_set_conv_nth)
  then show "\<exists>j. i \<le> j \<and> j < length xs \<and> x = xs ! j" by (intro exI [of _ "i + k"]) simp
next
  assume "\<exists>j. i \<le> j \<and> j < length xs \<and> x = xs ! j"
  then obtain j where "i \<le> j" "j < length xs" "x = xs ! j" by blast
  then show "x \<in> set (drop i xs)" by (auto simp: in_set_conv_nth intro!: exI [of _ "j - i"])
qed

lemma swap_at_mset: "i < length xs \<Longrightarrow> j < length xs \<Longrightarrow> mset (swap_at i j xs) = mset xs"
  unfolding swap_at_def by (rule mset_swap) simp_all

lemma length_swap_at [simp]: "length (swap_at i j xs) = length xs"
  by (simp add: swap_at_def)

lemma swap_at_prefix: "i \<le> j \<Longrightarrow> take i (swap_at i j xs) = take i xs"
  by (simp add: swap_at_def)

lemma select_rounds_spec:
  assumes "i + k \<le> length xs"
  shows "mset (select_rounds key i k xs) = mset xs \<and> take i (select_rounds key i k xs) = take i xs \<and>
    (\<forall>a b. i \<le> a \<longrightarrow> a < i + k \<longrightarrow> a \<le> b \<longrightarrow> b < length xs \<longrightarrow>
      key (select_rounds key i k xs ! b) \<le> key (select_rounds key i k xs ! a))"
  using assms
proof (induction k arbitrary: i xs)
  case 0
  then show ?case by simp
next
  case (Suc k)
  define best where "best = i + min_idx (\<lambda>x. - key x) (drop i xs)"
  let ?ys = "swap_at i best xs"
  let ?zs = "select_rounds key (Suc i) k ?ys"
  have ne: "drop i xs \<noteq> []" using Suc.prems by simp
  note m = min_idx_spec [OF ne, where key = "\<lambda>x. - key x"]
  have b: "i \<le> best" "best < length xs" using m(1) by (auto simp: best_def)
  have top: "key (xs ! j) \<le> key (xs ! best)" if "i \<le> j" "j < length xs" for j
    using m(2) [of "j - i"] that by (simp add: best_def)
  have yi: "?ys ! i = xs ! best" using b Suc.prems by (auto simp: swap_at_def nth_list_update)
  have IH: "mset ?zs = mset ?ys" "take (Suc i) ?zs = take (Suc i) ?ys"
    "\<And>a c. Suc i \<le> a \<Longrightarrow> a < Suc i + k \<Longrightarrow> a \<le> c \<Longrightarrow> c < length xs \<Longrightarrow> key (?zs ! c) \<le> key (?zs ! a)"
    using Suc.IH [of "Suc i" ?ys] Suc.prems by auto
  have ms: "mset ?zs = mset xs" using IH(1) b Suc.prems by (simp add: swap_at_mset)
  have len: "length ?zs = length xs" using arg_cong [OF ms, of size] by simp
  have zi: "?zs ! i = xs ! best" using IH(2) yi by (metis lessI nth_take)
  have tk: "take i ?zs = take i xs"
    using IH(2) swap_at_prefix [OF b(1), of xs] by (metis Suc_n_not_le_n nat_le_linear take_take min.absorb1)
  have "mset (drop i ?zs) = mset (drop i xs)"
    using ms tk by (metis append_take_drop_id mset_append add_left_cancel)
  then have "set (drop i ?zs) = set (drop i xs)" by (rule mset_eq_setD)
  then have le: "key (?zs ! c) \<le> key (?zs ! i)" if "i \<le> c" "c < length xs" for c
  proof -
    have "?zs ! c \<in> set (drop i ?zs)" using that len by (metis in_set_drop_iff)
    then have "?zs ! c \<in> set (drop i xs)" using \<open>set (drop i ?zs) = _\<close> by simp
    then obtain j where "i \<le> j" "j < length xs" "?zs ! c = xs ! j" by (auto simp: in_set_drop_iff)
    then show ?thesis using top zi by simp
  qed
  have "select_rounds key i (Suc k) xs = ?zs" by (simp add: best_def Let_def)
  then show ?case
    using ms tk le IH(3) by (auto simp: le_less [of i] less_eq_Suc_le)
qed

text \<open>The ranking loop is a partial selection sort: after \<open>k\<close> rounds the first \<open>k\<close> entries are in
  descending order of their key and none after them is larger, and the entries are a permutation
  of the input; with as many rounds as entries the list is sorted.\<close>

theorem select_rounds_ranks:
  assumes "k \<le> length xs"
  shows "mset (select_rounds key 0 k xs) = mset xs \<and>
    sorted_wrt (\<lambda>x y. key y \<le> key x) (take k (select_rounds key 0 k xs)) \<and>
    (\<forall>x \<in> set (take k (select_rounds key 0 k xs)). \<forall>y \<in> set (drop k (select_rounds key 0 k xs)). key y \<le> key x)"
proof -
  let ?zs = "select_rounds key 0 k xs"
  have sp: "mset ?zs = mset xs" "\<And>a b. a < k \<Longrightarrow> a \<le> b \<Longrightarrow> b < length xs \<Longrightarrow> key (?zs ! b) \<le> key (?zs ! a)"
    using select_rounds_spec [of 0 k xs key] assms by auto
  have len: "length ?zs = length xs" using arg_cong [OF sp(1), of size] by simp
  have "sorted_wrt (\<lambda>x y. key y \<le> key x) (take k ?zs)"
    using sp(2) len by (simp add: sorted_wrt_iff_nth_less)
  moreover have "key y \<le> key x" if x: "x \<in> set (take k ?zs)" and y: "y \<in> set (drop k ?zs)" for x y
  proof -
    obtain a where "a < length (take k ?zs)" "x = take k ?zs ! a" using x unfolding in_set_conv_nth by blast
    then have a: "a < k" "x = ?zs ! a" by simp_all
    obtain b where "k \<le> b" "b < length xs" "y = ?zs ! b" using y len by (auto simp: in_set_drop_iff)
    then show ?thesis using sp(2) [of a b] a by simp
  qed
  ultimately show ?thesis using sp(1) by blast
qed

theorem select_rounds_ranks_witness:
  "sorted_wrt (\<lambda>x y. y \<le> x) (take 2 (select_rounds id 0 2 [3, 9, 4, 7]))"
  using select_rounds_ranks [of 2 "[3, 9, 4, 7]" id] by simp

end
