(* ===== verification/Policy.thy ===== *)
theory Policy
  imports Policy_Learn Ipc
begin

text \<open>
  The Policy Engine (\<open>kernel/src/policy/mod.rs\<close>) and the affinity table it drives (\<open>smp.rs\<close>).

  The record \<open>psys\<close> joins the kernel of theory \<open>Ipc\<close> with the engine, the time slice, the on/off
  switch and the affinity table. \<open>adapt_and_report\<close> is the composition of its sections in source
  order: \<open>tune_interval\<close>, \<open>cpu_report\<close>, \<open>tune_profile\<close>, \<open>tune_slice\<close>, \<open>ipc_report\<close>, \<open>mem_report\<close>,
  \<open>power_report\<close>, \<open>decay_report\<close>. The readings of the two performance counters are inputs; the
  serial log and trace events are left out, the arithmetic of logged values is kept because it can
  panic. \<open>None\<close> is a panic.
\<close>

section \<open>State\<close>

definition BASELINE_TIME_SLICE :: u64 where "BASELINE_TIME_SLICE = 3"
definition MAX_PROCS :: nat where "MAX_PROCS = 32"
definition MAX_IPC_PAIRS :: nat where "MAX_IPC_PAIRS = 16"
definition MAX_MEM_ENTRIES :: nat where "MAX_MEM_ENTRIES = 16"
definition MEM_HOT_THRESHOLD :: u64 where "MEM_HOT_THRESHOLD = 10"
definition DECAY_THRESHOLD :: u64 where "DECAY_THRESHOLD = 5"
definition DECAY_COLD_WINDOWS :: u8 where "DECAY_COLD_WINDOWS = 2"
definition ANOMALY_EMA_MIN_BASELINE :: u64 where "ANOMALY_EMA_MIN_BASELINE = 10"
definition ANOMALY_RATE_SPIKE_MULT :: u64 where "ANOMALY_RATE_SPIKE_MULT = 20"
definition ANOMALY_RATE_SPIKE_MIN :: u64 where "ANOMALY_RATE_SPIKE_MIN = 200"
definition ANOMALY_PAYLOAD_SPIKE_MULT :: u64 where "ANOMALY_PAYLOAD_SPIKE_MULT = 20"
definition PRIORITY_COOLDOWN_WINDOWS :: u8 where "PRIORITY_COOLDOWN_WINDOWS = 3"
definition REPORT_INTERVAL_LEVELS :: "u64 list" where "REPORT_INTERVAL_LEVELS = [8, 18, 36, 72]"
definition REPORT_INTERVAL_BASELINE_LEVEL :: nat where "REPORT_INTERVAL_BASELINE_LEVEL = 2"
definition REPORT_INTERVAL_BASELINE :: u64 where
  "REPORT_INTERVAL_BASELINE = REPORT_INTERVAL_LEVELS ! REPORT_INTERVAL_BASELINE_LEVEL"
definition SWITCH_RATE_HIGH_X10 :: u64 where "SWITCH_RATE_HIGH_X10 = 15"
definition SWITCH_RATE_LOW_X10 :: u64 where "SWITCH_RATE_LOW_X10 = 3"
definition SWITCH_SAMPLE_MIN :: u64 where "SWITCH_SAMPLE_MIN = 5"
definition ALPHA_LEVELS :: "u64 list" where "ALPHA_LEVELS = [1, 2, 3, 4, 5]"
definition ALPHA_BASELINE_LEVEL :: nat where "ALPHA_BASELINE_LEVEL = 2"
definition VOLATILITY_HIGH_X10 :: u64 where "VOLATILITY_HIGH_X10 = 3000"
definition VOLATILITY_LOW_X10 :: u64 where "VOLATILITY_LOW_X10 = 500"
definition ALPHA_SAMPLE_MIN :: u64 where "ALPHA_SAMPLE_MIN = 5"
definition WORKLOAD_PROFILE_BASELINE_LEVEL :: nat where "WORKLOAD_PROFILE_BASELINE_LEVEL = 2"
definition WORKLOAD_BIAS_HIGH :: int where "WORKLOAD_BIAS_HIGH = 2"
definition WORKLOAD_BIAS_LOW :: int where "WORKLOAD_BIAS_LOW = - 2"
definition WORKLOAD_PROFILE_SAMPLE_MIN :: u32 where "WORKLOAD_PROFILE_SAMPLE_MIN = 2"
definition TIME_SLICE_RANGE_LEVELS :: "(u64 \<times> u64) list" where
  "TIME_SLICE_RANGE_LEVELS = [(2, 3), (1, 3), (1, 4)]"
definition MAX_CHANNELS_PER_WINDOW :: u8 where "MAX_CHANNELS_PER_WINDOW = 2"

lemmas policy_consts = BASELINE_TIME_SLICE_def MAX_PROCS_def MAX_IPC_PAIRS_def MAX_MEM_ENTRIES_def
  MEM_HOT_THRESHOLD_def DECAY_THRESHOLD_def DECAY_COLD_WINDOWS_def PRIORITY_COOLDOWN_WINDOWS_def
  REPORT_INTERVAL_LEVELS_def REPORT_INTERVAL_BASELINE_LEVEL_def REPORT_INTERVAL_BASELINE_def
  ALPHA_LEVELS_def ALPHA_BASELINE_LEVEL_def WORKLOAD_PROFILE_BASELINE_LEVEL_def TIME_SLICE_RANGE_LEVELS_def
  MAX_CHANNELS_PER_WINDOW_def

record cpu_stats =
  cs_pid :: pid
  cs_active :: bool
  ticks_run :: u64
  recent_ticks :: u64
  run_start_tick :: u64
  switch_in_count :: u64
  pri_cooldown :: u8
  vol_ema :: u64
  alpha_level :: u8
  prev_vol_10 :: u64
  volatility_ema :: u64

definition cpu_stats_empty :: cpu_stats where
  "cpu_stats_empty = \<lparr>cs_pid = 0, cs_active = False, ticks_run = 0, recent_ticks = 0, run_start_tick = 0,
     switch_in_count = 0, pri_cooldown = 0, vol_ema = 500, alpha_level = of_nat ALPHA_BASELINE_LEVEL,
     prev_vol_10 = 500, volatility_ema = 0\<rparr>"

record ipc_entry =
  ie_from :: pid
  ie_to :: pid
  ie_count :: u64
  ie_active :: bool
  last_count :: u64
  cold_windows :: u8
  rate_ema :: u64
  payload_bytes_window :: u64
  payload_ema :: u64
  bayes_alpha :: u32
  bayes_beta :: u32
  delta_prev :: u64
  rl_prev_state :: u8
  rl_action :: u8

text \<open>A slot for a pair seen for the first time; \<open>IpcEntry::empty()\<close> is this with \<open>ie_active = False\<close>.\<close>

definition ipc_entry_new :: "pid \<Rightarrow> pid \<Rightarrow> u64 \<Rightarrow> u64 \<Rightarrow> ipc_entry" where
  "ipc_entry_new from to cnt payload_bytes = \<lparr>ie_from = from, ie_to = to, ie_count = cnt, ie_active = True,
     last_count = 0, cold_windows = 0, rate_ema = 0, payload_bytes_window = payload_bytes, payload_ema = 0,
     bayes_alpha = BAYES_PRIOR_ALPHA, bayes_beta = BAYES_PRIOR_BETA, delta_prev = 0, rl_prev_state = 0,
     rl_action = RL_NOOP\<rparr>"

definition ipc_entry_empty :: ipc_entry where
  "ipc_entry_empty = (ipc_entry_new 0 0 0 0)\<lparr>ie_active := False\<rparr>"

record mem_entry =
  me_pid :: pid
  mmap_calls :: u64
  page_faults :: u64
  last_mmap :: u64
  last_faults :: u64
  me_active :: bool

definition mem_entry_empty :: mem_entry where
  "mem_entry_empty = \<lparr>me_pid = 0, mmap_calls = 0, page_faults = 0, last_mmap = 0, last_faults = 0, me_active = False\<rparr>"

record power_stats =
  last_aperf :: u64
  last_mperf :: u64
  idle_pct_ema :: u64

record policy_engine =
  stats :: "cpu_stats list"
  total_ticks :: u64
  last_report_tick :: u64
  report_interval :: u64
  ipc_table :: "ipc_entry list"
  mem_table :: "mem_entry list"
  power :: power_stats
  channels_this_window :: u8
  evicts :: evict
  rl_q :: "int list list"
  rl_epsilon :: u8
  rl_rng :: u64
  switches_this_window :: u64
  switch_rate_ema :: u64
  report_interval_level :: nat
  workload_bias_ema :: int
  workload_profile_level :: nat

definition policy_new :: policy_engine where
  "policy_new = \<lparr>stats = replicate MAX_PROCS cpu_stats_empty, total_ticks = 0, last_report_tick = 0,
     report_interval = 36, ipc_table = replicate MAX_IPC_PAIRS ipc_entry_empty,
     mem_table = replicate MAX_MEM_ENTRIES mem_entry_empty,
     power = \<lparr>last_aperf = 0, last_mperf = 0, idle_pct_ema = 500\<rparr>, channels_this_window = 0,
     evicts = (replicate MAX_EVICT_PAIRS (0, 0, 0), 0), rl_q = replicate RL_N_STATES [10, 0, 0, 0],
     rl_epsilon = RL_EPSILON_INIT, rl_rng = 0x123456789abcdef0, switches_this_window = 0, switch_rate_ema = 0,
     report_interval_level = REPORT_INTERVAL_BASELINE_LEVEL, workload_bias_ema = 0,
     workload_profile_level = WORKLOAD_PROFILE_BASELINE_LEVEL\<rparr>"

record 'o psys =
  pk :: "'o kern"
  pe :: policy_engine
  TIME_SLICE :: u64
  POLICY_ENABLED :: bool
  AFFINITY :: "(pid, u8) btree"

text \<open>The two readings of each performance counter in \<open>power_report\<close>.\<close>

record msr_env =
  aperf_1 :: u64
  mperf_1 :: u64
  aperf_2 :: u64
  mperf_2 :: u64

abbreviation on_pe :: "(policy_engine \<Rightarrow> policy_engine) \<Rightarrow> 'o psys \<Rightarrow> 'o psys" where
  "on_pe f p \<equiv> p\<lparr>pe := f (pe p)\<rparr>"

abbreviation on_sched :: "('o scheduler \<Rightarrow> 'o scheduler) \<Rightarrow> 'o psys \<Rightarrow> 'o psys" where
  "on_sched f p \<equiv> p\<lparr>pk := (pk p)\<lparr>sched := f (sched (pk p))\<rparr>\<rparr>"

definition set_enabled :: "bool \<Rightarrow> 'o psys \<Rightarrow> 'o psys" where
  "set_enabled b p = p\<lparr>POLICY_ENABLED := b\<rparr>"

section \<open>Affinity (\<open>smp.rs\<close>)\<close>

definition get_affinity :: "pid \<Rightarrow> (pid, u8) btree \<Rightarrow> u8 option" where
  "get_affinity q aff = bt_get q aff"

definition pin_to_cpu :: "pid \<Rightarrow> u8 \<Rightarrow> (pid, u8) btree \<Rightarrow> (pid, u8) btree" where
  "pin_to_cpu q cpu aff = bt_insert q cpu aff"

definition least_loaded_cpu :: u8 where
  "least_loaded_cpu = 0"

definition pin_pair :: "pid \<Rightarrow> pid \<Rightarrow> (pid, u8) btree \<Rightarrow> (pid, u8) btree" where
  "pin_pair from to aff =
     (let from_cpu = get_affinity from aff;
          to_cpu = get_affinity to aff;
          target = (case from_cpu of Some c \<Rightarrow> c
            | None \<Rightarrow> (case to_cpu of Some c \<Rightarrow> c | None \<Rightarrow> least_loaded_cpu))
      in if from_cpu = Some target \<and> to_cpu = Some target then aff
         else pin_to_cpu to target (pin_to_cpu from target aff))"

definition unpin :: "pid \<Rightarrow> (pid, u8) btree \<Rightarrow> (pid, u8) btree" where
  "unpin q aff = bt_remove q aff"

section \<open>Workload profile and idle recommendation\<close>

datatype workload_profile = Build | Balanced | Game

definition from_level :: "nat \<Rightarrow> workload_profile" where
  "from_level level = (if level = 0 then Build else if level = 1 then Balanced else Game)"

fun idle_bias :: "workload_profile \<Rightarrow> int" where
  "idle_bias Game = - 15"
| "idle_bias Build = 15"
| "idle_bias Balanced = 0"

datatype core_type = PCore | ECore | UnknownCore

fun normal_core_hint :: "workload_profile \<Rightarrow> core_type" where
  "normal_core_hint Game = PCore"
| "normal_core_hint Build = ECore"
| "normal_core_hint Balanced = UnknownCore"

fun recommend_core_for_priority :: "priority \<Rightarrow> core_type" where
  "recommend_core_for_priority High = PCore"
| "recommend_core_for_priority Low = ECore"
| "recommend_core_for_priority _ = UnknownCore"

datatype idle_mode = Active | Hlt | Mwait

definition recommend_idle :: "u64 \<Rightarrow> idle_mode" where
  "recommend_idle idle_pct = (if idle_pct > 70 then Mwait else if idle_pct \<ge> 30 then Hlt else Active)"

definition recommend_idle_profiled :: "u64 \<Rightarrow> int \<Rightarrow> idle_mode" where
  "recommend_idle_profiled idle_pct bias =
     recommend_idle (of_int (min (max (sint idle_pct + bias) 0) 100))"

definition freq_util_pct :: "msr_env \<Rightarrow> u64 \<Rightarrow> u64 \<Rightarrow> u8 option" where
  "freq_util_pct env prev_aperf prev_mperf =
     (let da = sat_sub (aperf_1 env) prev_aperf;
          dm = sat_sub (mperf_1 env) prev_mperf
      in if dm = 0 then Some 0
         else do { x \<leftarrow> mul_chk da 100; Some (ucast (min (x div dm) 100)) })"

section \<open>Bookkeeping\<close>

definition find_slot :: "pid \<Rightarrow> policy_engine \<Rightarrow> nat option" where
  "find_slot q e = find_idx (\<lambda>s. cs_active s \<and> cs_pid s = q) (stats e)"

abbreviation upd_stat :: "nat \<Rightarrow> (cpu_stats \<Rightarrow> cpu_stats) \<Rightarrow> policy_engine \<Rightarrow> policy_engine" where
  "upd_stat i f e \<equiv> e\<lparr>stats := (stats e)[i := f (stats e ! i)]\<rparr>"

definition register :: "pid \<Rightarrow> policy_engine \<Rightarrow> policy_engine" where
  "register q e =
     (case find_slot q e of
        Some _ \<Rightarrow> e
      | None \<Rightarrow>
          (case find_idx (\<lambda>s. \<not> cs_active s) (stats e) of
             None \<Rightarrow> e
           | Some i \<Rightarrow> e\<lparr>stats := (stats e)[i := cpu_stats_empty\<lparr>cs_pid := q, cs_active := True,
               run_start_tick := total_ticks e\<rparr>]\<rparr>))"

definition unregister :: "pid \<Rightarrow> policy_engine \<Rightarrow> policy_engine" where
  "unregister q e =
     (case find_slot q e of None \<Rightarrow> e | Some i \<Rightarrow> upd_stat i (\<lambda>s. s\<lparr>cs_active := False\<rparr>) e)"

definition observe_ipc :: "pid \<Rightarrow> pid \<Rightarrow> u64 \<Rightarrow> u64 \<Rightarrow> policy_engine \<Rightarrow> policy_engine" where
  "observe_ipc from to cnt payload_bytes e =
     (case find_idx (\<lambda>x. ie_active x \<and> ie_from x = from \<and> ie_to x = to) (ipc_table e) of
        Some i \<Rightarrow>
          let x = ipc_table e ! i in
          e\<lparr>ipc_table := (ipc_table e)[i := x\<lparr>ie_count := cnt,
            payload_bytes_window := sat_add (payload_bytes_window x) payload_bytes\<rparr>]\<rparr>
      | None \<Rightarrow>
          let i = (case find_idx (\<lambda>x. \<not> ie_active x) (ipc_table e) of
                     Some i \<Rightarrow> i | None \<Rightarrow> min_idx ie_count (ipc_table e))
          in e\<lparr>ipc_table := (ipc_table e)[i := ipc_entry_new from to cnt payload_bytes]\<rparr>)"

definition observe_mmap :: "pid \<Rightarrow> policy_engine \<Rightarrow> policy_engine option" where
  "observe_mmap q e =
     (case find_idx (\<lambda>x. me_active x \<and> me_pid x = q) (mem_table e) of
        Some i \<Rightarrow> do {
          n \<leftarrow> add_chk (mmap_calls (mem_table e ! i)) 1;
          Some (e\<lparr>mem_table := (mem_table e)[i := (mem_table e ! i)\<lparr>mmap_calls := n\<rparr>]\<rparr>)
        }
      | None \<Rightarrow>
          let i = (case find_idx (\<lambda>x. \<not> me_active x) (mem_table e) of
                     Some i \<Rightarrow> i | None \<Rightarrow> min_idx mmap_calls (mem_table e))
          in Some (e\<lparr>mem_table := (mem_table e)[i := mem_entry_empty\<lparr>me_pid := q, mmap_calls := 1, me_active := True\<rparr>]\<rparr>))"

definition observe_page_fault :: "pid \<Rightarrow> policy_engine \<Rightarrow> policy_engine option" where
  "observe_page_fault q e =
     (case find_idx (\<lambda>x. me_active x \<and> me_pid x = q) (mem_table e) of
        Some i \<Rightarrow> do {
          n \<leftarrow> add_chk (page_faults (mem_table e ! i)) 1;
          Some (e\<lparr>mem_table := (mem_table e)[i := (mem_table e ! i)\<lparr>page_faults := n\<rparr>]\<rparr>)
        }
      | None \<Rightarrow>
          (case find_idx (\<lambda>x. \<not> me_active x) (mem_table e) of
             Some i \<Rightarrow> Some (e\<lparr>mem_table := (mem_table e)[i :=
               mem_entry_empty\<lparr>me_pid := q, page_faults := 1, me_active := True\<rparr>]\<rparr>)
           | None \<Rightarrow> Some e))"

section \<open>Scores\<close>

definition entry_score :: "ipc_entry \<Rightarrow> int option" where
  "entry_score x = do {
     d \<leftarrow> mul_chk (delta_prev x) 10;
     Some (ml2_gbdt (uint (bayes_alpha x)) (uint (bayes_beta x)) (uint (rate_ema x div 10))
       (uint (cold_windows x)) (if d > rate_ema x then 1 else 0))
   }"

text \<open>The candidates of \<open>hot_ipc_pairs\<close> with their score, in table order.\<close>

fun hot_candidates :: "ipc_entry list \<Rightarrow> (pid \<times> pid \<times> int) list option" where
  "hot_candidates [] = Some []"
| "hot_candidates (x # xs) =
     (if \<not> ie_active x then hot_candidates xs
      else do {
        ml2 \<leftarrow> entry_score x;
        bayes \<leftarrow> bayes_score (bayes_alpha x) (bayes_beta x);
        rest \<leftarrow> hot_candidates xs;
        Some (if ml2 \<ge> ML2_HOT_THRESHOLD \<and> bayes \<ge> ucast BAYES_HOT_SCORE
              then (ie_from x, ie_to x, ml2) # rest else rest)
      })"

definition hot_ipc_pairs :: "nat \<Rightarrow> nat \<Rightarrow> policy_engine \<Rightarrow> (pid \<times> pid) list option" where
  "hot_ipc_pairs out_len mx e = do {
     buf \<leftarrow> hot_candidates (ipc_table e);
     let buf = select_rounds (\<lambda>(_, _, s). s) 0 (length buf) buf;
     let n = min (min (length buf) mx) out_len;
     Some (map (\<lambda>(f, t, _). (f, t)) (take n buf))
   }"

section \<open>The sections of \<open>adapt_and_report\<close>\<close>

definition begin_window :: "u64 \<Rightarrow> policy_engine \<Rightarrow> policy_engine" where
  "begin_window tick e = e\<lparr>channels_this_window := 0, evicts := expire_evictions tick (evicts e)\<rparr>"

definition tune_interval :: "bool \<Rightarrow> u64 \<Rightarrow> policy_engine \<Rightarrow> policy_engine option" where
  "tune_interval enabled window e =
     (let switches = switches_this_window e;
          e = e\<lparr>switches_this_window := 0\<rparr>
      in if enabled then
           if switches < SWITCH_SAMPLE_MIN then Some e
           else do {
             x \<leftarrow> mul_chk switches 10;
             new_ema \<leftarrow> ema_3_7 (x div window) (switch_rate_ema e);
             let target = (if new_ema \<ge> SWITCH_RATE_HIGH_X10 then 0
                           else if new_ema \<le> SWITCH_RATE_LOW_X10 then length REPORT_INTERVAL_LEVELS - 1
                           else REPORT_INTERVAL_BASELINE_LEVEL);
             let level = ladder_step target (report_interval_level e);
             (if level < length REPORT_INTERVAL_LEVELS
              then Some (e\<lparr>switch_rate_ema := new_ema, report_interval_level := level,
                report_interval := REPORT_INTERVAL_LEVELS ! level\<rparr>)
              else None)
           }
         else Some (e\<lparr>report_interval := REPORT_INTERVAL_BASELINE,
           report_interval_level := REPORT_INTERVAL_BASELINE_LEVEL\<rparr>))"

text \<open>\<open>(3 * x * 10 + 7 * ema) / 10\<close>\<close>

definition ema_x10 :: "u64 \<Rightarrow> u64 \<Rightarrow> u64 option" where
  "ema_x10 x ema = do {
     a \<leftarrow> mul_chk 3 x;
     a \<leftarrow> mul_chk a 10;
     b \<leftarrow> mul_chk 7 ema;
     c \<leftarrow> add_chk a b;
     Some (c div 10)
   }"

definition abs_diff :: "u64 \<Rightarrow> u64 \<Rightarrow> u64" where
  "abs_diff a b = (if a < b then b - a else a - b)"

text \<open>The share of voluntary yields in per mille, its smoothing, and the smoothing factor's own ladder.\<close>

definition vol_sample :: "u64 \<Rightarrow> u64 \<Rightarrow> cpu_stats \<Rightarrow> (u64 \<times> u64) option" where
  "vol_sample vol forced s = do {
     total_sched \<leftarrow> add_chk vol forced;
     (if total_sched = 0 then Some (total_sched, vol_ema s)
      else do { x \<leftarrow> mul_chk vol 1000; Some (total_sched, x div total_sched) })
   }"

definition smooth_vol :: "u64 \<Rightarrow> cpu_stats \<Rightarrow> cpu_stats option" where
  "smooth_vol cur_vol_10 s =
     (if unat (alpha_level s) < length ALPHA_LEVELS then do {
        let alpha_num = ALPHA_LEVELS ! unat (alpha_level s);
        a \<leftarrow> mul_chk alpha_num cur_vol_10;
        c \<leftarrow> sub_chk 10 alpha_num;
        b \<leftarrow> mul_chk c (vol_ema s);
        x \<leftarrow> add_chk a b;
        Some (s\<lparr>vol_ema := x div 10\<rparr>)
      } else None)"

definition tune_alpha :: "u64 \<Rightarrow> u64 \<Rightarrow> cpu_stats \<Rightarrow> cpu_stats option" where
  "tune_alpha total_sched cur_vol_10 s =
     (if total_sched \<ge> ALPHA_SAMPLE_MIN then do {
        let delta = abs_diff cur_vol_10 (prev_vol_10 s);
        new_vol_ema \<leftarrow> ema_x10 delta (volatility_ema s);
        let target = (if new_vol_ema \<ge> VOLATILITY_HIGH_X10 then length ALPHA_LEVELS - 1
                      else if new_vol_ema \<le> VOLATILITY_LOW_X10 then 0
                      else ALPHA_BASELINE_LEVEL);
        Some (s\<lparr>prev_vol_10 := cur_vol_10, volatility_ema := new_vol_ema,
          alpha_level := of_nat (ladder_step target (unat (alpha_level s)))\<rparr>)
      } else Some s)"

definition vol_update :: "u64 \<Rightarrow> u64 \<Rightarrow> cpu_stats \<Rightarrow> cpu_stats option" where
  "vol_update vol forced s = do {
     (total_sched, cur_vol_10) \<leftarrow> vol_sample vol forced s;
     s \<leftarrow> smooth_vol cur_vol_10 s;
     tune_alpha total_sched cur_vol_10 s
   }"

definition class_of :: "u64 \<Rightarrow> priority" where
  "class_of ema = (if ema \<ge> 600 then High else if ema \<le> 200 then Low else Normal)"

record cpu_acc =
  max_pct :: u64
  cnt_high :: u32
  cnt_low :: u32
  busy_ticks :: u64

text \<open>One process of the CPU report: smoothing, the priority change with its cool-down, the counts.\<close>

definition cool_down :: "u8 \<Rightarrow> u8" where
  "cool_down c = (if c > 0 then c - 1 else c)"

definition apply_class :: "nat \<Rightarrow> priority \<Rightarrow> 'o psys \<Rightarrow> 'o psys" where
  "apply_class i new_pri p =
     (let s = stats (pe p) ! i; q = cs_pid s in
      if \<not> POLICY_ENABLED p then p
      else if get_priority q (sched (pk p)) \<noteq> new_pri \<and> pri_cooldown s = 0
      then on_pe (upd_stat i (\<lambda>s. s\<lparr>pri_cooldown := cool_down PRIORITY_COOLDOWN_WINDOWS\<rparr>))
             (on_sched (set_priority q new_pri) p)
      else on_pe (upd_stat i (\<lambda>s. s\<lparr>pri_cooldown := cool_down (pri_cooldown s)\<rparr>)) p)"

definition cpu_count :: "u64 \<Rightarrow> u64 \<Rightarrow> cpu_stats \<Rightarrow> priority \<Rightarrow> cpu_acc \<Rightarrow> cpu_acc option" where
  "cpu_count tick window s new_pri acc = do {
     busy \<leftarrow> (if cs_pid s \<noteq> 0 then add_chk (busy_ticks acc) (recent_ticks s) else Some (busy_ticks acc));
     x \<leftarrow> mul_chk (recent_ticks s) 100;
     let recent_pct = x div window;
     _ \<leftarrow> (if tick > 0 then mul_chk (ticks_run s) 100 else Some 0);
     high \<leftarrow> (if new_pri = High then add_chk (cnt_high acc) 1 else Some (cnt_high acc));
     low \<leftarrow> (if new_pri = Low then add_chk (cnt_low acc) 1 else Some (cnt_low acc));
     Some \<lparr>max_pct = (if recent_pct > max_pct acc then recent_pct else max_pct acc),
       cnt_high = high, cnt_low = low, busy_ticks = busy\<rparr>
   }"

definition sched_counts :: "pid \<Rightarrow> 'o psys \<Rightarrow> u64 \<times> u64" where
  "sched_counts q p = (case get_stats q (sched (pk p)) of None \<Rightarrow> (0, 0) | Some vf \<Rightarrow> vf)"

definition cpu_one :: "u64 \<Rightarrow> u64 \<Rightarrow> nat \<Rightarrow> 'o psys \<times> cpu_acc \<Rightarrow> ('o psys \<times> cpu_acc) option" where
  "cpu_one tick window i pa =
     (case pa of (p, acc) \<Rightarrow>
      let s = stats (pe p) ! i in
      if \<not> cs_active s then Some (p, acc)
      else do {
        s' \<leftarrow> vol_update (fst (sched_counts (cs_pid s) p)) (snd (sched_counts (cs_pid s) p)) s;
        let new_pri = class_of (vol_ema s');
        let p = apply_class i new_pri (on_pe (upd_stat i (\<lambda>_. s')) p);
        acc \<leftarrow> cpu_count tick window s new_pri acc;
        Some (on_pe (upd_stat i (\<lambda>s. s\<lparr>recent_ticks := 0\<rparr>)) p, acc)
      })"

definition cpu_report :: "u64 \<Rightarrow> u64 \<Rightarrow> 'o psys \<Rightarrow> ('o psys \<times> cpu_acc) option" where
  "cpu_report tick window p =
     mfold (cpu_one tick window) [0..<MAX_PROCS] (p, \<lparr>max_pct = 0, cnt_high = 0, cnt_low = 0, busy_ticks = 0\<rparr>)"

text \<open>\<open>i64\<close> arithmetic; the division truncates.\<close>

definition i64_chk :: "int \<Rightarrow> int option" where
  "i64_chk x = (if - (2 ^ 63) \<le> x \<and> x < 2 ^ 63 then Some x else None)"

definition tune_profile :: "bool \<Rightarrow> cpu_acc \<Rightarrow> policy_engine \<Rightarrow> policy_engine option" where
  "tune_profile enabled acc e =
     (if enabled then do {
        n \<leftarrow> add_chk (cnt_high acc) (cnt_low acc);
        (if n \<ge> WORKLOAD_PROFILE_SAMPLE_MIN then do {
           let bias = uint (cnt_high acc) - uint (cnt_low acc);
           a \<leftarrow> i64_chk (3 * bias * 10);
           b \<leftarrow> i64_chk (7 * workload_bias_ema e);
           x \<leftarrow> i64_chk (a + b);
           let new_ema = x sdiv 10;
           let target = (if new_ema \<ge> WORKLOAD_BIAS_HIGH * 10 then 2
                         else if new_ema \<le> WORKLOAD_BIAS_LOW * 10 then 0
                         else WORKLOAD_PROFILE_BASELINE_LEVEL);
           Some (e\<lparr>workload_bias_ema := new_ema,
             workload_profile_level := ladder_step target (workload_profile_level e)\<rparr>)
         } else Some e)
      } else Some (e\<lparr>workload_profile_level := WORKLOAD_PROFILE_BASELINE_LEVEL\<rparr>))"

definition tune_slice :: "u64 \<Rightarrow> 'o psys \<Rightarrow> 'o psys option" where
  "tune_slice mx p =
     (if workload_profile_level (pe p) < length TIME_SLICE_RANGE_LEVELS then
        let (lo, hi) = TIME_SLICE_RANGE_LEVELS ! workload_profile_level (pe p);
            raw_slice = (if mx \<ge> 70 then 1 else if mx \<ge> 40 then 2 else 3);
            new_slice = (if POLICY_ENABLED p then min (max raw_slice lo) hi else BASELINE_TIME_SLICE)
        in Some (p\<lparr>TIME_SLICE := new_slice\<rparr>)
      else None)"

text \<open>The ranking: table index and score plus 1000, of the active pairs that sent something.\<close>

fun ranked_from :: "nat \<Rightarrow> ipc_entry list \<Rightarrow> (nat \<times> int) list option" where
  "ranked_from i [] = Some []"
| "ranked_from i (x # xs) =
     (if ie_active x \<and> ie_count x > 0 then do {
        ml2 \<leftarrow> entry_score x;
        rest \<leftarrow> ranked_from (Suc i) xs;
        Some ((i, ml2 + 1000) # rest)
      } else ranked_from (Suc i) xs)"

definition epsilon_decay :: "policy_engine \<Rightarrow> policy_engine" where
  "epsilon_decay e =
     (if total_ticks e > 0 \<and> total_ticks e mod RL_EPSILON_DECAY_TICKS = 0 \<and> rl_epsilon e > RL_EPSILON_MIN
      then e\<lparr>rl_epsilon := rl_epsilon e - 1\<rparr> else e)"

definition effective_threshold :: "u8 \<Rightarrow> int" where
  "effective_threshold a =
     (if a = RL_ENCOURAGE then ML2_HOT_THRESHOLD - RL_THRESHOLD_DELTA
      else if a = RL_DISCOURAGE then ML2_HOT_THRESHOLD + RL_THRESHOLD_DELTA
      else ML2_HOT_THRESHOLD)"

text \<open>The channel of a hot pair: kept, refused by the window's limit or the cool-down, or created.\<close>

definition hot_channel :: "u64 \<Rightarrow> pid \<Rightarrow> pid \<Rightarrow> 'o psys \<Rightarrow> 'o psys option" where
  "hot_channel tick from to p =
     (if get_channel from to (pk p) \<noteq> None then do {
        (k, _) \<leftarrow> ensure_channel from to (pk p);
        Some (p\<lparr>pk := k\<rparr>)
      }
      else if channels_this_window (pe p) \<ge> MAX_CHANNELS_PER_WINDOW then Some p
      else if in_evict_cooldown (evicts (pe p)) from to tick then Some p
      else do {
        (k, _) \<leftarrow> ensure_channel from to (pk p);
        let n_before = channel_count (pk p);
        let n_after = channel_count k;
        c \<leftarrow> (if n_after > n_before then add_chk (channels_this_window (pe p)) 1
              else Some (channels_this_window (pe p)));
        Some (on_pe (\<lambda>e. e\<lparr>channels_this_window := c\<rparr>) (p\<lparr>pk := k\<rparr>))
      })"

definition hot_pair :: "u64 \<Rightarrow> nat \<times> int \<Rightarrow> 'o psys \<Rightarrow> 'o psys option" where
  "hot_pair tick r p = do {
     let x = ipc_table (pe p) ! fst r;
     let ml2 = snd r - 1000;
     let from = ie_from x; let to = ie_to x;
     bayes \<leftarrow> bayes_score (bayes_alpha x) (bayes_beta x);
     let ml1_hot = bayes \<ge> ucast BAYES_HOT_SCORE;
     let ml2_hot = ml2 \<ge> effective_threshold (rl_action x) \<or> rl_action x = RL_PIN_PUSH;
     (if ml1_hot \<and> ml2_hot \<and> POLICY_ENABLED p then do {
        p \<leftarrow> hot_channel tick from to p;
        let aff = pin_pair from to (AFFINITY p);
        let target_cpu = (case get_affinity from aff of None \<Rightarrow> 0 | Some c \<Rightarrow> c);
        let p = p\<lparr>AFFINITY := aff\<rparr>;
        let p = on_sched (set_preferred_cpu from target_cpu) p;
        let p = on_sched (set_preferred_cpu to target_cpu) p;
        Some (if rl_action x = RL_PIN_PUSH
              then on_sched (set_priority to High) (on_sched (set_priority from High) p) else p)
      } else Some p)
   }"

definition ipc_report :: "u64 \<Rightarrow> 'o psys \<Rightarrow> 'o psys option" where
  "ipc_report tick p = do {
     ranked \<leftarrow> ranked_from 0 (ipc_table (pe p));
     let top3 = min (length ranked) 3;
     let ranked = select_rounds snd 0 top3 ranked;
     let p = on_pe epsilon_decay p;
     mfold (hot_pair tick) (take top3 ranked) p
   }"

definition mem_one :: "nat \<Rightarrow> 'o psys \<Rightarrow> 'o psys option" where
  "mem_one i p =
     (let x = mem_table (pe p) ! i in
      if \<not> me_active x then Some p
      else
        let mmap_delta = sat_sub (mmap_calls x) (last_mmap x);
            p = on_pe (\<lambda>e. e\<lparr>mem_table := (mem_table e)[i := x\<lparr>last_mmap := mmap_calls x, last_faults := page_faults x\<rparr>]\<rparr>) p
        in Some (if mmap_delta \<ge> MEM_HOT_THRESHOLD \<and> POLICY_ENABLED p
                 then on_sched (set_priority (me_pid x) High) p else p))"

definition mem_report :: "'o psys \<Rightarrow> 'o psys option" where
  "mem_report p = mfold mem_one [0..<MAX_MEM_ENTRIES] p"

definition power_report :: "msr_env \<Rightarrow> u64 \<Rightarrow> policy_engine \<Rightarrow> policy_engine option" where
  "power_report env busy e = do {
     let window = max (report_interval e) 1;
     let idle_ticks = sat_sub window (min busy window);
     x \<leftarrow> mul_chk idle_ticks 100;
     new_ema \<leftarrow> ema_x10 (x div window) (idle_pct_ema (power e));
     _ \<leftarrow> freq_util_pct env (last_aperf (power e)) (last_mperf (power e));
     Some (e\<lparr>power := \<lparr>last_aperf = aperf_2 env, last_mperf = mperf_2 env, idle_pct_ema = new_ema\<rparr>\<rparr>)
   }"

text \<open>The window of one pair: counters, anomaly, decay, and the learner's step.\<close>

definition is_anomaly :: "u64 \<Rightarrow> u64 \<Rightarrow> u64 \<Rightarrow> u64 \<Rightarrow> bool option" where
  "is_anomaly delta rate payload_window payload = do {
     rate_spike \<leftarrow> (if rate \<ge> ANOMALY_EMA_MIN_BASELINE \<and> delta \<ge> ANOMALY_RATE_SPIKE_MIN then do {
          a \<leftarrow> mul_chk delta 10; b \<leftarrow> mul_chk rate ANOMALY_RATE_SPIKE_MULT; Some (a > b)
        } else Some False);
     payload_spike \<leftarrow> (if payload \<ge> ANOMALY_EMA_MIN_BASELINE then do {
          a \<leftarrow> mul_chk payload_window 10; b \<leftarrow> mul_chk payload ANOMALY_PAYLOAD_SPIKE_MULT; Some (a > b)
        } else Some False);
     Some (rate_spike \<or> payload_spike)
   }"

definition window_update :: "ipc_entry \<Rightarrow> ipc_entry option" where
  "window_update x = do {
     let delta = sat_sub (ie_count x) (last_count x);
     new_rate \<leftarrow> ema_x10 delta (rate_ema x);
     new_payload \<leftarrow> ema_x10 (payload_bytes_window x) (payload_ema x);
     let (a, b) = bayes_update delta (bayes_alpha x, bayes_beta x);
     Some (x\<lparr>last_count := ie_count x, payload_bytes_window := 0, rate_ema := new_rate, payload_ema := new_payload,
       bayes_alpha := a, bayes_beta := b, delta_prev := delta\<rparr>)
   }"

abbreviation set_entry :: "nat \<Rightarrow> ipc_entry \<Rightarrow> policy_engine \<Rightarrow> policy_engine" where
  "set_entry i x e \<equiv> e\<lparr>ipc_table := (ipc_table e)[i := x]\<rparr>"

text \<open>Reclaiming a pair; only the decay path also clears the preferred cores.\<close>

definition reclaim :: "u64 \<Rightarrow> bool \<Rightarrow> nat \<Rightarrow> int \<Rightarrow> nat \<Rightarrow> 'o psys \<Rightarrow> 'o psys option" where
  "reclaim tick clear_cpu i reward next_state p = do {
     let x = ipc_table (pe p) ! i;
     let from = ie_from x; let to = ie_to x;
     q \<leftarrow> rl_update_q (rl_q (pe p)) (unat (rl_prev_state x)) (rl_action x) reward next_state;
     k \<leftarrow> drop_channel from to (pk p);
     let p = p\<lparr>pk := k, AFFINITY := unpin to (unpin from (AFFINITY p))\<rparr>;
     let p = (if clear_cpu
              then on_sched (set_preferred_cpu to (- 1)) (on_sched (set_preferred_cpu from (- 1)) p) else p);
     ev \<leftarrow> record_eviction from to tick (evicts (pe p));
     Some (on_pe (\<lambda>e. (set_entry i (x\<lparr>ie_active := False, cold_windows := 0\<rparr>) e)\<lparr>rl_q := q, evicts := ev\<rparr>) p)
   }"

definition learn :: "nat \<Rightarrow> int \<Rightarrow> nat \<Rightarrow> policy_engine \<Rightarrow> policy_engine option" where
  "learn i reward next_state e = do {
     let x = ipc_table e ! i;
     q \<leftarrow> rl_update_q (rl_q e) (unat (rl_prev_state x)) (rl_action x) reward next_state;
     let (rng, a) = rl_select_action (q ! next_state) (rl_epsilon e) (rl_rng e);
     Some ((set_entry i (x\<lparr>rl_prev_state := of_nat next_state, rl_action := a\<rparr>) e)\<lparr>rl_q := q, rl_rng := rng\<rparr>)
   }"

definition learn_in :: "nat \<Rightarrow> int \<Rightarrow> nat \<Rightarrow> 'o psys \<Rightarrow> 'o psys option" where
  "learn_in i reward next_state p = do { e \<leftarrow> learn i reward next_state (pe p); Some (p\<lparr>pe := e\<rparr>) }"

text \<open>\<open>x\<close> is the entry before the window's update, \<open>x'\<close> after it.\<close>

definition settle :: "u64 \<Rightarrow> nat \<Rightarrow> ipc_entry \<Rightarrow> ipc_entry \<Rightarrow> bool \<Rightarrow> 'o psys \<Rightarrow> 'o psys option" where
  "settle tick i x x' anomaly p =
     (let delta = sat_sub (ie_count x) (last_count x);
          push = rl_action x = RL_ENCOURAGE \<or> rl_action x = RL_PIN_PUSH;
          next_state = rl_state_idx (bayes_alpha x') (rate_ema x' div 10) (cold_windows x');
          cw = sat_add (cold_windows x') 1
      in if anomaly then reclaim tick False i (if push then - 20 else - 5) next_state (on_pe (set_entry i x') p)
         else if delta < DECAY_THRESHOLD then
           let p = on_pe (set_entry i (x'\<lparr>cold_windows := cw\<rparr>)) p in
           if cw \<ge> DECAY_COLD_WINDOWS then reclaim tick True i (if push then - 8 else - 2) next_state p
           else learn_in i (if rl_action x = RL_ENCOURAGE then - 4 else - 1) next_state p
         else
           learn_in i (rl_compute_reward (rl_action x) delta (delta_prev x)
               (get_channel (ie_from x) (ie_to x) (pk p) \<noteq> None)) next_state
             (on_pe (set_entry i (x'\<lparr>cold_windows := 0\<rparr>)) p))"

definition decay_one :: "u64 \<Rightarrow> nat \<Rightarrow> 'o psys \<Rightarrow> 'o psys option" where
  "decay_one tick i p =
     (let x = ipc_table (pe p) ! i in
      if \<not> ie_active x then Some p
      else do {
        x' \<leftarrow> window_update x;
        anomaly \<leftarrow> is_anomaly (sat_sub (ie_count x) (last_count x)) (rate_ema x) (payload_bytes_window x) (payload_ema x);
        settle tick i x x' anomaly p
      })"

definition decay_report :: "u64 \<Rightarrow> 'o psys \<Rightarrow> 'o psys option" where
  "decay_report tick p = mfold (decay_one tick) [0..<MAX_IPC_PAIRS] p"

definition adapt_and_report :: "msr_env \<Rightarrow> u64 \<Rightarrow> 'o psys \<Rightarrow> 'o psys option" where
  "adapt_and_report env tick p = do {
     let p = on_pe (begin_window tick) p;
     let window = max (report_interval (pe p)) 1;
     e \<leftarrow> tune_interval (POLICY_ENABLED p) window (pe p);
     (p, acc) \<leftarrow> cpu_report tick window (p\<lparr>pe := e\<rparr>);
     e \<leftarrow> tune_profile (POLICY_ENABLED p) acc (pe p);
     p \<leftarrow> tune_slice (max_pct acc) (p\<lparr>pe := e\<rparr>);
     p \<leftarrow> ipc_report tick p;
     p \<leftarrow> mem_report p;
     e \<leftarrow> power_report env (busy_ticks acc) (pe p);
     decay_report tick (p\<lparr>pe := e\<rparr>)
   }"

definition account_out :: "pid \<Rightarrow> u64 \<Rightarrow> policy_engine \<Rightarrow> policy_engine option" where
  "account_out from tick e =
     (case find_slot from e of
        None \<Rightarrow> Some e
      | Some i \<Rightarrow> do {
          let s = stats e ! i;
          let elapsed = sat_sub tick (run_start_tick s);
          a \<leftarrow> add_chk (ticks_run s) elapsed;
          b \<leftarrow> add_chk (recent_ticks s) elapsed;
          Some (upd_stat i (\<lambda>s. s\<lparr>ticks_run := a, recent_ticks := b\<rparr>) e)
        })"

definition account_in :: "pid \<Rightarrow> u64 \<Rightarrow> policy_engine \<Rightarrow> policy_engine option" where
  "account_in to tick e =
     (case find_slot to e of
        None \<Rightarrow> Some e
      | Some i \<Rightarrow> do {
          c \<leftarrow> add_chk (switch_in_count (stats e ! i)) 1;
          Some (upd_stat i (\<lambda>s. s\<lparr>run_start_tick := tick, switch_in_count := c\<rparr>) e)
        })"

definition account_switch :: "pid \<Rightarrow> pid \<Rightarrow> u64 \<Rightarrow> policy_engine \<Rightarrow> policy_engine option" where
  "account_switch from to tick e = do {
     let e = e\<lparr>total_ticks := tick\<rparr>;
     n \<leftarrow> add_chk (switches_this_window e) 1;
     let e = e\<lparr>switches_this_window := n\<rparr>;
     e \<leftarrow> account_out from tick e;
     account_in to tick e
   }"

definition on_switch :: "msr_env \<Rightarrow> pid \<Rightarrow> pid \<Rightarrow> u64 \<Rightarrow> 'o psys \<Rightarrow> 'o psys option" where
  "on_switch env from to tick p = do {
     e \<leftarrow> account_switch from to tick (pe p);
     let p = p\<lparr>pe := e\<rparr>;
     due \<leftarrow> add_chk (last_report_tick e) (report_interval e);
     (if tick \<ge> due then adapt_and_report env tick (on_pe (\<lambda>e. e\<lparr>last_report_tick := tick\<rparr>) p)
      else Some p)
   }"

section \<open>The engine in the kernel\<close>

text \<open>The calls the scheduler makes while it runs.\<close>

fun run_policy_call :: "policy_call \<Rightarrow> policy_engine \<Rightarrow> policy_engine" where
  "run_policy_call (Register_pid q) e = register q e"
| "run_policy_call (Unregister_pid q) e = unregister q e"
| "run_policy_call (Observe_ipc from to n len) e = observe_ipc from to n len e"

definition flush_calls :: "'o psys \<Rightarrow> 'o psys" where
  "flush_calls p = (on_sched (\<lambda>s. s\<lparr>policy_calls := []\<rparr>) p)
     \<lparr>pe := fold run_policy_call (policy_calls (sched (pk p))) (pe p)\<rparr>"

text \<open>\<open>scheduler::preempt\<close> and \<open>voluntary_preempt\<close>: switch, then report the switch to the engine.\<close>

definition preempt :: "sched_env \<Rightarrow> msr_env \<Rightarrow> u64 \<Rightarrow> bool \<Rightarrow> 'o psys \<Rightarrow> ('o psys \<times> u64) option" where
  "preempt env menv rsp voluntary p = do {
     (s, new_rsp, from_pid, to_pid, tick) \<leftarrow> do_preempt env rsp voluntary (sched (pk p));
     let p = flush_calls (on_sched (\<lambda>_. s) p);
     p \<leftarrow> on_switch menv from_pid to_pid tick p;
     Some (p, new_rsp)
   }"

section \<open>The invariant of the engine\<close>

definition cpu_stat_ok :: "cpu_stats \<Rightarrow> bool" where
  "cpu_stat_ok s \<longleftrightarrow> unat (alpha_level s) < length ALPHA_LEVELS \<and> vol_ema s \<le> 1000 \<and> prev_vol_10 s \<le> 1000 \<and>
     volatility_ema s \<le> 10000 \<and> pri_cooldown s \<le> PRIORITY_COOLDOWN_WINDOWS"

definition ipc_entry_ok :: "ipc_entry \<Rightarrow> bool" where
  "ipc_entry_ok x \<longleftrightarrow> bayes_ok (bayes_alpha x, bayes_beta x) \<and> unat (rl_prev_state x) < RL_N_STATES \<and>
     rl_action x < 4 \<and> cold_windows x < DECAY_COLD_WINDOWS"

definition policy_ok :: "policy_engine \<Rightarrow> bool" where
  "policy_ok e \<longleftrightarrow> length (stats e) = MAX_PROCS \<and> (\<forall>s \<in> set (stats e). cpu_stat_ok s) \<and>
     length (ipc_table e) = MAX_IPC_PAIRS \<and> (\<forall>x \<in> set (ipc_table e). ipc_entry_ok x) \<and>
     length (mem_table e) = MAX_MEM_ENTRIES \<and> q_ok (rl_q e) \<and> evict_ok (evicts e) \<and>
     RL_EPSILON_MIN \<le> rl_epsilon e \<and> rl_epsilon e \<le> RL_EPSILON_INIT \<and> rl_rng e \<noteq> 0 \<and>
     report_interval_level e < length REPORT_INTERVAL_LEVELS \<and>
     report_interval e = REPORT_INTERVAL_LEVELS ! report_interval_level e \<and>
     workload_profile_level e < length TIME_SLICE_RANGE_LEVELS \<and>
     channels_this_window e \<le> MAX_CHANNELS_PER_WINDOW \<and> idle_pct_ema (power e) \<le> 1000"

lemma unat_chk:
  "add_chk a b = Some c \<Longrightarrow> unat c = unat a + unat b" "sub_chk a b = Some c \<Longrightarrow> unat c = unat a - unat b"
  "mul_chk a b = Some c \<Longrightarrow> unat c = unat a * unat b"
  by (auto dest: add_chk_SomeD sub_chk_SomeD mul_chk_SomeD)

lemma ball_update: "\<forall>x \<in> set xs. P x \<Longrightarrow> P v \<Longrightarrow> \<forall>x \<in> set (xs[i := v]). P x"
  using set_update_subset_insert [of xs i v] by blast

lemma ladder_step_le: "target \<le> n \<Longrightarrow> cur \<le> n \<Longrightarrow> ladder_step target cur \<le> n"
  by (auto simp: ladder_step_def)

lemma ema_x10_SomeD: "ema_x10 x m = Some y \<Longrightarrow> unat y = (30 * unat x + 7 * unat m) div 10"
  by (auto simp: ema_x10_def bind_eq_Some_conv unat_div dest!: mul_chk_SomeD add_chk_SomeD)

lemma ema_x10_bound: "ema_x10 x m = Some y \<Longrightarrow> unat x \<le> n \<Longrightarrow> unat m \<le> 10 * n \<Longrightarrow> unat y \<le> 10 * n"
  by (drule ema_x10_SomeD) simp

lemma abs_diff_le: "unat a \<le> n \<Longrightarrow> unat b \<le> n \<Longrightarrow> unat (abs_diff a b) \<le> n"
  by (auto simp: abs_diff_def unat_sub word_le_nat_alt word_less_nat_alt)

lemma weighted_mean_bound:
  "(a :: nat) \<le> 10 \<Longrightarrow> x \<le> n \<Longrightarrow> y \<le> n \<Longrightarrow> (a * x + (10 - a) * y) div 10 \<le> n"
proof -
  assume a: "a \<le> 10" "x \<le> n" "y \<le> n"
  then have "a * x + (10 - a) * y \<le> a * n + (10 - a) * n" by (intro add_mono mult_left_mono) auto
  also have "\<dots> = 10 * n" using a(1) by (simp flip: add_mult_distrib)
  finally show ?thesis by simp
qed

lemma alpha_levels_le: "i < length ALPHA_LEVELS \<Longrightarrow> unat (ALPHA_LEVELS ! i) \<le> 10"
  by (auto simp: ALPHA_LEVELS_def less_Suc_eq nth_Cons split: nat.splits)

lemma vol_sample_bound:
  assumes "vol_sample vol forced s = Some (tot, cur)" and "unat (vol_ema s) \<le> 1000"
  shows "unat cur \<le> 1000"
proof (cases "tot = 0")
  case True
  with assms show ?thesis by (auto simp: vol_sample_def bind_eq_Some_conv split: if_splits)
next
  case False
  with assms obtain y where t: "add_chk vol forced = Some tot" and y: "mul_chk vol 1000 = Some y" "cur = y div tot"
    by (auto simp: vol_sample_def bind_eq_Some_conv split: if_splits)
  have "unat cur = unat vol * 1000 div unat tot" using y(2) unat_chk(3) [OF y(1)] by (simp add: unat_div)
  also have "\<dots> \<le> (1000 * unat tot) div unat tot"
    using unat_chk(1) [OF t] by (intro div_le_mono) simp
  finally show ?thesis by (cases "unat tot = 0") auto
qed

lemma smooth_vol_ok:
  assumes ok: "cpu_stat_ok s" and v: "smooth_vol cur s = Some s'" and c: "unat cur \<le> 1000"
  shows "cpu_stat_ok s' \<and> (\<exists>v. s' = s\<lparr>vol_ema := v\<rparr>)"
proof -
  have r: "unat (vol_ema s) \<le> 1000" "unat (alpha_level s) < length ALPHA_LEVELS"
    using ok by (simp_all add: cpu_stat_ok_def word_le_nat_alt)
  let ?al = "ALPHA_LEVELS ! unat (alpha_level s)"
  from v r(2) obtain a d b x where x: "mul_chk ?al cur = Some a" "sub_chk 10 ?al = Some d"
    "mul_chk d (vol_ema s) = Some b" "add_chk a b = Some x" and s': "s' = s\<lparr>vol_ema := x div 10\<rparr>"
    by (auto simp: smooth_vol_def bind_eq_Some_conv Let_def)
  have "unat x = unat ?al * unat cur + (10 - unat ?al) * unat (vol_ema s)"
    using unat_chk(3) [OF x(1)] unat_chk(2) [OF x(2)] unat_chk(3) [OF x(3)] unat_chk(1) [OF x(4)] by simp
  then have "unat (x div 10) \<le> 1000"
    using weighted_mean_bound [OF alpha_levels_le [OF r(2)] c r(1)] by (simp add: unat_div)
  then show ?thesis using ok by (auto simp: s' cpu_stat_ok_def word_le_nat_alt)
qed

lemma tune_alpha_ok:
  assumes ok: "cpu_stat_ok s" and v: "tune_alpha tot cur s = Some s'" and c: "unat cur \<le> 1000"
  shows "cpu_stat_ok s' \<and> (\<exists>a b l. s' = s\<lparr>prev_vol_10 := a, volatility_ema := b, alpha_level := l\<rparr>)"
proof (cases "tot \<ge> ALPHA_SAMPLE_MIN")
  case False
  have "s = s\<lparr>prev_vol_10 := prev_vol_10 s, volatility_ema := volatility_ema s, alpha_level := alpha_level s\<rparr>" by simp
  then show ?thesis using False ok v unfolding tune_alpha_def by (metis option.inject)
next
  case True
  have r: "unat (prev_vol_10 s) \<le> 1000" "unat (volatility_ema s) \<le> 10000" "unat (alpha_level s) < 5"
    using ok by (simp_all add: cpu_stat_ok_def word_le_nat_alt ALPHA_LEVELS_def)
  from v True obtain m tg where m: "ema_x10 (abs_diff cur (prev_vol_10 s)) (volatility_ema s) = Some m"
    and s': "s' = s\<lparr>prev_vol_10 := cur, volatility_ema := m,
      alpha_level := of_nat (ladder_step tg (unat (alpha_level s)))\<rparr>" and tg: "tg \<le> 4"
    by (auto simp: tune_alpha_def bind_eq_Some_conv Let_def ALPHA_LEVELS_def ALPHA_BASELINE_LEVEL_def)
  have "unat m \<le> 10000" using ema_x10_bound [OF m, of 1000] abs_diff_le [OF c r(1)] r(2) by simp
  moreover have "unat (of_nat (ladder_step tg (unat (alpha_level s))) :: u8) < 5"
    using r(3) ladder_step_le [OF tg, of "unat (alpha_level s)"] by (simp add: unat_of_nat)
  ultimately have "cpu_stat_ok s'" using ok c unfolding s' by (simp add: cpu_stat_ok_def word_le_nat_alt ALPHA_LEVELS_def)
  then show ?thesis using s' by blast
qed

lemma vol_update_ok:
  assumes ok: "cpu_stat_ok s" and v: "vol_update vol forced s = Some s'"
  shows "cpu_stat_ok s' \<and> cs_pid s' = cs_pid s \<and> cs_active s' = cs_active s \<and>
    recent_ticks s' = recent_ticks s \<and> pri_cooldown s' = pri_cooldown s"
proof -
  from v obtain t c s1 where 1: "vol_sample vol forced s = Some (t, c)" and 2: "smooth_vol c s = Some s1"
    and 3: "tune_alpha t c s1 = Some s'"
    by (auto simp: vol_update_def bind_eq_Some_conv)
  have c: "unat c \<le> 1000" using vol_sample_bound [OF 1] ok by (simp add: cpu_stat_ok_def word_le_nat_alt)
  from smooth_vol_ok [OF ok 2 c] obtain x where s1: "cpu_stat_ok s1" "s1 = s\<lparr>vol_ema := x\<rparr>" by blast
  from tune_alpha_ok [OF s1(1) 3 c] show ?thesis by (auto simp: s1(2))
qed

text \<open>The engine, the scheduler and the channels together.\<close>

definition psys_ok :: "'o psys \<Rightarrow> bool" where
  "psys_ok p \<longleftrightarrow> policy_ok (pe p) \<and> 1 \<le> TIME_SLICE p \<and> TIME_SLICE p \<le> 4 \<and> sched_ok (sched (pk p)) \<and> channels_ok (pk p)"

definition slots :: "'o psys \<Rightarrow> nat" where
  "slots p = unat (ro_channel_slot (kvm (pk p)))"

lemma sched_ok_policy:
  assumes "sched_ok s"
  shows "sched_ok (set_priority q x s)" and "sched_ok (set_preferred_cpu q c s)"
  using assms by (auto simp: set_priority_def set_preferred_cpu_def proc_ok_def intro!: sched_ok_upd_pid)

lemma psys_ok_sched:
  assumes "psys_ok p" and "\<And>s. sched_ok s \<Longrightarrow> sched_ok (f s)"
  shows "psys_ok (on_sched f p)" and "slots (on_sched f p) = slots p"
  using assms by (simp_all add: psys_ok_def slots_def channels_ok_sched)

lemma psys_ok_pe: "psys_ok p \<Longrightarrow> policy_ok e \<Longrightarrow> psys_ok (p\<lparr>pe := e\<rparr>)"
  by (simp add: psys_ok_def)

lemma slots_pe [simp]: "slots (p\<lparr>pe := e\<rparr>) = slots p"
  by (simp add: slots_def)

lemma policy_okD: "policy_ok e \<Longrightarrow> i < length (stats e) \<Longrightarrow> cpu_stat_ok (stats e ! i)"
  "policy_ok e \<Longrightarrow> i < length (ipc_table e) \<Longrightarrow> ipc_entry_ok (ipc_table e ! i)"
  by (simp_all add: policy_ok_def)

lemma policy_ok_stat: "policy_ok e \<Longrightarrow> cpu_stat_ok s \<Longrightarrow> policy_ok (e\<lparr>stats := (stats e)[i := s]\<rparr>)"
  using ball_update [of "stats e" cpu_stat_ok s i] by (simp add: policy_ok_def)

lemma policy_ok_entry: "policy_ok e \<Longrightarrow> ipc_entry_ok x \<Longrightarrow> policy_ok (e\<lparr>ipc_table := (ipc_table e)[i := x]\<rparr>)"
  using ball_update [of "ipc_table e" ipc_entry_ok x i] by (simp add: policy_ok_def)

lemma policy_ok_mem: "policy_ok e \<Longrightarrow> policy_ok (e\<lparr>mem_table := (mem_table e)[i := x]\<rparr>)"
  by (simp add: policy_ok_def)

lemma begin_window_ok: "policy_ok e \<Longrightarrow> policy_ok (begin_window tick e)"
  using expire_evictions_spec [of "evicts e" tick 0 0] by (simp add: policy_ok_def begin_window_def)

lemma tune_interval_ok:
  assumes ok: "policy_ok e" and t: "tune_interval b w e = Some e'"
  shows "policy_ok e'"
proof (cases "b \<and> \<not> switches_this_window e < SWITCH_SAMPLE_MIN")
  case True
  with t obtain m l where "l < length REPORT_INTERVAL_LEVELS"
    and e': "e' = e\<lparr>switches_this_window := 0, switch_rate_ema := m, report_interval_level := l,
      report_interval := REPORT_INTERVAL_LEVELS ! l\<rparr>"
    by (auto simp: tune_interval_def Let_def bind_eq_Some_conv split: if_splits)
  then show ?thesis using ok by (simp add: policy_ok_def)
next
  case False
  then show ?thesis using ok t
    by (auto simp: tune_interval_def Let_def policy_ok_def policy_consts split: if_splits)
qed

lemma cool_down_le: "c \<le> PRIORITY_COOLDOWN_WINDOWS \<Longrightarrow> cool_down c \<le> PRIORITY_COOLDOWN_WINDOWS"
proof -
  assume c: "c \<le> PRIORITY_COOLDOWN_WINDOWS"
  have "c - 1 \<le> c" if "c > 0"
  proof -
    have "c \<noteq> 0" using that by auto
    then have "unat (c - 1) = unat c - 1" by (rule unat_minus_one)
    then show ?thesis by (simp add: word_le_nat_alt)
  qed
  then show ?thesis using c by (auto simp: cool_down_def intro: order.trans)
qed

lemma apply_class_ok:
  assumes ok: "psys_ok p" and i: "i < MAX_PROCS"
  shows "psys_ok (apply_class i pri p) \<and> slots (apply_class i pri p) = slots p"
proof -
  let ?s = "stats (pe p) ! i"
  have l: "length (stats (pe p)) = MAX_PROCS" and po: "policy_ok (pe p)"
    using ok by (simp_all add: psys_ok_def policy_ok_def)
  have so: "cpu_stat_ok ?s" using policy_okD(1) [OF po] i l by simp
  have c: "policy_ok (upd_stat i (\<lambda>s. s\<lparr>pri_cooldown := cool_down c\<rparr>) (pe p))"
    if "c \<le> PRIORITY_COOLDOWN_WINDOWS" for c
    by (rule policy_ok_stat [OF po]) (use so cool_down_le [OF that] in \<open>simp add: cpu_stat_ok_def\<close>)
  have sc: "pri_cooldown ?s \<le> PRIORITY_COOLDOWN_WINDOWS" using so by (simp add: cpu_stat_ok_def)
  let ?p = "on_sched (set_priority (cs_pid ?s) pri) p"
  have st: "psys_ok ?p" "slots ?p = slots p"
    using psys_ok_sched [OF ok, where f = "set_priority (cs_pid ?s) pri"] sched_ok_policy(1) by blast+
  have "psys_ok (?p\<lparr>pe := upd_stat i (\<lambda>s. s\<lparr>pri_cooldown := cool_down PRIORITY_COOLDOWN_WINDOWS\<rparr>) (pe p)\<rparr>)"
    by (rule psys_ok_pe [OF st(1) c]) simp
  moreover have "psys_ok (p\<lparr>pe := upd_stat i (\<lambda>s. s\<lparr>pri_cooldown := cool_down (pri_cooldown ?s)\<rparr>) (pe p)\<rparr>)"
    by (rule psys_ok_pe [OF ok c [OF sc]])
  ultimately show ?thesis using ok st(2) by (simp add: apply_class_def Let_def)
qed

lemma cpu_one_ok:
  assumes ok: "psys_ok p" and i: "i < MAX_PROCS" and c: "cpu_one tick w i (p, acc) = Some (p', acc')"
  shows "psys_ok p' \<and> slots p' = slots p"
proof (cases "cs_active (stats (pe p) ! i)")
  case False
  then show ?thesis using ok c by (simp add: cpu_one_def Let_def)
next
  case True
  let ?s = "stats (pe p) ! i"
  have l: "length (stats (pe p)) = MAX_PROCS" and po: "policy_ok (pe p)"
    using ok by (simp_all add: psys_ok_def policy_ok_def)
  have so: "cpu_stat_ok ?s" using policy_okD(1) [OF po] i l by simp
  from c True obtain vol forced s' where v: "vol_update vol forced ?s = Some s'"
    and p': "p' = on_pe (upd_stat i (\<lambda>s. s\<lparr>recent_ticks := 0\<rparr>))
      (apply_class i (class_of (vol_ema s')) (on_pe (upd_stat i (\<lambda>_. s')) p))"
    by (auto simp: cpu_one_def bind_eq_Some_conv Let_def)
  have s': "cpu_stat_ok s'" using vol_update_ok [OF so v] by blast
  let ?p1 = "on_pe (upd_stat i (\<lambda>_. s')) p"
  have ok1: "psys_ok ?p1" by (rule psys_ok_pe [OF ok policy_ok_stat [OF po s']])
  note ok2 = conjunct1 [OF apply_class_ok [OF ok1 i, of "class_of (vol_ema s')"]] conjunct2 [OF apply_class_ok [OF ok1 i, of "class_of (vol_ema s')"]]
  let ?p2 = "apply_class i (class_of (vol_ema s')) ?p1"
  have po2: "policy_ok (pe ?p2)" using ok2(1) by (simp add: psys_ok_def)
  have "length (stats (pe ?p2)) = MAX_PROCS" using po2 by (simp add: policy_ok_def)
  then have "cpu_stat_ok ((stats (pe ?p2) ! i)\<lparr>recent_ticks := 0\<rparr>)"
    using policy_okD(1) [OF po2, of i] i by (simp add: cpu_stat_ok_def)
  then have "policy_ok (upd_stat i (\<lambda>s. s\<lparr>recent_ticks := 0\<rparr>) (pe ?p2))" by (rule policy_ok_stat [OF po2])
  from psys_ok_pe [OF ok2(1) this] show ?thesis unfolding p' using ok2(2) by simp
qed

lemma cpu_report_ok:
  assumes "psys_ok p" and "cpu_report tick w p = Some (p', acc)"
  shows "psys_ok p' \<and> slots p' = slots p"
proof -
  have "psys_ok (fst (p', acc)) \<and> slots (fst (p', acc)) = slots p"
    by (rule mfold_invariant [where I = "\<lambda>pa. psys_ok (fst pa) \<and> slots (fst pa) = slots p",
          OF assms(2) [unfolded cpu_report_def]])
      (use assms(1) cpu_one_ok in \<open>fastforce+\<close>)
  then show ?thesis by simp
qed

lemma tune_profile_ok:
  assumes ok: "policy_ok e" and t: "tune_profile b acc e = Some e'"
  shows "policy_ok e'"
proof (cases "b \<and> (\<exists>n. add_chk (cnt_high acc) (cnt_low acc) = Some n \<and> n \<ge> WORKLOAD_PROFILE_SAMPLE_MIN)")
  case True
  with t obtain x tg where e': "e' = e\<lparr>workload_bias_ema := x, workload_profile_level := ladder_step tg (workload_profile_level e)\<rparr>"
    and tg: "tg \<le> 2"
    by (auto simp: tune_profile_def Let_def bind_eq_Some_conv WORKLOAD_PROFILE_BASELINE_LEVEL_def)
  have "workload_profile_level e \<le> 2" using ok by (simp add: policy_ok_def TIME_SLICE_RANGE_LEVELS_def)
  then have "ladder_step tg (workload_profile_level e) \<le> 2" using tg by (simp add: ladder_step_le)
  then show ?thesis using ok by (simp add: policy_ok_def e' TIME_SLICE_RANGE_LEVELS_def)
next
  case False
  with t have "e' = e \<or> e' = e\<lparr>workload_profile_level := WORKLOAD_PROFILE_BASELINE_LEVEL\<rparr>"
    by (auto simp: tune_profile_def bind_eq_Some_conv split: if_splits)
  then show ?thesis using ok by (auto simp: policy_ok_def policy_consts)
qed

lemma slice_range:
  assumes "l < length TIME_SLICE_RANGE_LEVELS" and "TIME_SLICE_RANGE_LEVELS ! l = (lo, hi)"
  shows "1 \<le> min (max r lo) hi \<and> min (max r lo) hi \<le> 4"
proof -
  have "l = 0 \<or> l = 1 \<or> l = 2" using assms(1) by (auto simp: TIME_SLICE_RANGE_LEVELS_def)
  then have "1 \<le> lo \<and> 1 \<le> hi \<and> hi \<le> 4"
    using assms(2) by (auto simp: TIME_SLICE_RANGE_LEVELS_def word_le_nat_alt)
  then show ?thesis by (auto simp: le_max_iff_disj min_le_iff_disj)
qed

lemma tune_slice_ok:
  assumes ok: "psys_ok p" and t: "tune_slice mx p = Some p'"
  shows "psys_ok p' \<and> slots p' = slots p"
proof -
  obtain lo hi where lh: "TIME_SLICE_RANGE_LEVELS ! workload_profile_level (pe p) = (lo, hi)" by fastforce
  have l: "workload_profile_level (pe p) < length TIME_SLICE_RANGE_LEVELS"
    using ok by (simp add: psys_ok_def policy_ok_def)
  from t l lh obtain v where "p' = p\<lparr>TIME_SLICE := v\<rparr>" "1 \<le> v" "v \<le> 4"
    using slice_range [OF l lh]
    by (auto simp: tune_slice_def Let_def BASELINE_TIME_SLICE_def word_le_nat_alt split: if_splits)
  then show ?thesis using ok by (simp add: psys_ok_def slots_def)
qed

lemma ensure_channel_slots:
  assumes ok: "channels_ok k" and s: "unat (ro_channel_slot (kvm k)) < 2 ^ 27" and e: "ensure_channel f t k = Some (k', i)"
  shows "channels_ok k'" and "sched k' = sched k" and "unat (ro_channel_slot (kvm k')) \<le> unat (ro_channel_slot (kvm k)) + 1"
    and "get_channel f t k = None \<Longrightarrow> channel_count k' = Suc (channel_count k)"
    and "(g, h) \<noteq> (f, t) \<Longrightarrow> get_channel g h k' = get_channel g h k"
proof -
  note e' = e [unfolded ensure_channel_def]
  note c = ensure_channel_ok [OF ok s e']
  show "channels_ok k'" by (rule c(1))
  have w: "bt_wf (FAST_CHANNELS k)" using channels_okD(1) [OF ok] by (simp add: kern_ok_def)
  have "sched k' = sched k \<and> unat (ro_channel_slot (kvm k')) \<le> unat (ro_channel_slot (kvm k)) + 1 \<and>
      (get_channel f t k = None \<longrightarrow> channel_count k' = Suc (channel_count k)) \<and>
      ((g, h) \<noteq> (f, t) \<longrightarrow> get_channel g h k' = get_channel g h k)" for g h
  proof (cases "get_channel f t k")
    case None
    note c = c(2) [OF None]
    have "unat (ro_channel_slot (kvm k) + 1) = unat (ro_channel_slot (kvm k)) + 1"
      using s by (simp add: unat_word_ariths)
    with c None w show ?thesis
      by (simp add: channel_count_def length_bt_insert_fresh get_channel_def)
  next
    case (Some j)
    then have "k' = k" using e' by (simp add: ensure_channel_cap_def get_channel_def)
    with Some show ?thesis by simp
  qed
  then show "sched k' = sched k" "unat (ro_channel_slot (kvm k')) \<le> unat (ro_channel_slot (kvm k)) + 1"
    "get_channel f t k = None \<Longrightarrow> channel_count k' = Suc (channel_count k)"
    "(g, h) \<noteq> (f, t) \<Longrightarrow> get_channel g h k' = get_channel g h k"
    by blast+
qed

lemma hot_channel_cases:
  assumes ok: "channels_ok (pk p)" and s: "slots p < 2 ^ 27" and h: "hot_channel tick f t p = Some p'"
  obtains (same) "p' = p"
  | (fresh) k i where "get_channel f t (pk p) = None" "channels_this_window (pe p) < MAX_CHANNELS_PER_WINDOW"
      "\<not> in_evict_cooldown (evicts (pe p)) f t tick" "ensure_channel f t (pk p) = Some (k, i)"
      "p' = (on_pe (\<lambda>e. e\<lparr>channels_this_window := channels_this_window (pe p) + 1\<rparr>) p)\<lparr>pk := k\<rparr>"
proof (cases "get_channel f t (pk p)")
  case (Some j)
  have "ensure_channel f t (pk p) = Some (pk p, j)"
    using Some by (simp add: ensure_channel_def ensure_channel_cap_def get_channel_def)
  then have "p' = p" using h Some by (simp add: hot_channel_def)
  then show thesis by (rule same)
next
  case None
  show thesis
  proof (cases "channels_this_window (pe p) \<ge> MAX_CHANNELS_PER_WINDOW \<or> in_evict_cooldown (evicts (pe p)) f t tick")
    case True
    then have "p' = p" using h None by (auto simp: hot_channel_def split: if_splits)
    then show thesis by (rule same)
  next
    case False
    with h None obtain k i where e: "ensure_channel f t (pk p) = Some (k, i)"
      by (auto simp: hot_channel_def bind_eq_Some_conv)
    have "channel_count k = Suc (channel_count (pk p))"
      using ensure_channel_slots(4) [OF ok _ e None] s by (simp add: slots_def)
    with h None False e have "p' = (on_pe (\<lambda>e. e\<lparr>channels_this_window := channels_this_window (pe p) + 1\<rparr>) p)\<lparr>pk := k\<rparr>"
      by (auto simp: hot_channel_def bind_eq_Some_conv Let_def dest: add_chk_SomeD)
    then show thesis using fresh None False e by auto
  qed
qed

lemma hot_channel_ok:
  assumes ok: "psys_ok p" and s: "slots p < 2 ^ 27" and h: "hot_channel tick f t p = Some p'"
  shows "psys_ok p' \<and> slots p' \<le> slots p + 1 \<and> ipc_table (pe p') = ipc_table (pe p)"
proof -
  have co: "channels_ok (pk p)" using ok by (simp add: psys_ok_def)
  from co s h show ?thesis
  proof (cases rule: hot_channel_cases)
    case same
    then show ?thesis using ok by simp
  next
    case (fresh k i)
    note es = ensure_channel_slots [OF co _ fresh(4)]
    have "channels_this_window (pe p) + 1 \<le> MAX_CHANNELS_PER_WINDOW"
      using fresh(2) by (simp add: word_le_nat_alt word_less_nat_alt MAX_CHANNELS_PER_WINDOW_def unat_word_ariths)
    then show ?thesis using ok es(1-3) s by (simp add: fresh(5) psys_ok_def policy_ok_def slots_def)
  qed
qed

lemma hot_pair_ok:
  assumes ok: "psys_ok p" and s: "slots p < 2 ^ 27" and h: "hot_pair tick r p = Some p'"
  shows "psys_ok p' \<and> slots p' \<le> slots p + 1 \<and> ipc_table (pe p') = ipc_table (pe p)"
proof -
  let ?x = "ipc_table (pe p) ! fst r"
  from h consider "p' = p" | p1 aff c where "hot_channel tick (ie_from ?x) (ie_to ?x) p = Some p1"
    "p' = on_sched (set_preferred_cpu (ie_to ?x) c) (on_sched (set_preferred_cpu (ie_from ?x) c) (p1\<lparr>AFFINITY := aff\<rparr>)) \<or>
     p' = on_sched (set_priority (ie_to ?x) High) (on_sched (set_priority (ie_from ?x) High)
       (on_sched (set_preferred_cpu (ie_to ?x) c) (on_sched (set_preferred_cpu (ie_from ?x) c) (p1\<lparr>AFFINITY := aff\<rparr>))))"
    by (auto simp: hot_pair_def Let_def bind_eq_Some_conv split: if_splits)
  then show ?thesis
  proof cases
    case 1
    then show ?thesis using ok by simp
  next
    case 2
    have p1: "psys_ok p1" "slots p1 \<le> slots p + 1" "ipc_table (pe p1) = ipc_table (pe p)"
      using hot_channel_ok [OF ok s 2(1)] by simp_all
    let ?p2 = "p1\<lparr>AFFINITY := aff\<rparr>"
    have p2: "psys_ok ?p2" "slots ?p2 = slots p1" using p1(1) by (simp_all add: psys_ok_def slots_def)
    let ?p3 = "on_sched (set_preferred_cpu (ie_to ?x) c) (on_sched (set_preferred_cpu (ie_from ?x) c) ?p2)"
    have p3: "psys_ok ?p3" by (intro psys_ok_sched sched_ok_policy p2(1))
    have p4: "psys_ok (on_sched (set_priority (ie_to ?x) High) (on_sched (set_priority (ie_from ?x) High) ?p3))"
      by (intro psys_ok_sched sched_ok_policy p3)
    from 2(2) show ?thesis
    proof
      assume e: "p' = ?p3"
      show ?thesis unfolding e using p3 p1(2,3) by (simp add: slots_def)
    next
      assume e: "p' = on_sched (set_priority (ie_to ?x) High) (on_sched (set_priority (ie_from ?x) High) ?p3)"
      show ?thesis unfolding e using p4 p1(2,3) by (simp add: slots_def)
    qed
  qed
qed

lemma hot_pairs_ok:
  assumes "psys_ok p" and "slots p + length rs \<le> 2 ^ 27" and "mfold (hot_pair tick) rs p = Some p'"
  shows "psys_ok p' \<and> slots p' \<le> slots p + length rs"
  using assms
proof (induction rs arbitrary: p)
  case (Cons r rs)
  then obtain p1 where h: "hot_pair tick r p = Some p1" "mfold (hot_pair tick) rs p1 = Some p'"
    by (auto simp: bind_eq_Some_conv)
  have "psys_ok p1" "slots p1 \<le> slots p + 1" using hot_pair_ok [OF Cons.prems(1) _ h(1)] Cons.prems(2) by simp_all
  with Cons.IH [OF _ _ h(2)] Cons.prems(2) show ?case by simp
qed simp

lemma epsilon_decay_ok: "policy_ok e \<Longrightarrow> policy_ok (epsilon_decay e)"
proof -
  assume ok: "policy_ok e"
  have "RL_EPSILON_MIN \<le> x - 1 \<and> x - 1 \<le> RL_EPSILON_INIT" if "RL_EPSILON_MIN < x" "x \<le> RL_EPSILON_INIT" for x :: u8
  proof -
    have "x \<noteq> 0" using that(1) by (auto simp: RL_EPSILON_MIN_def)
    then have "unat (x - 1) = unat x - 1" by (rule unat_minus_one)
    then show ?thesis using that by (auto simp: word_le_nat_alt word_less_nat_alt RL_EPSILON_MIN_def RL_EPSILON_INIT_def)
  qed
  then show ?thesis using ok by (simp add: epsilon_decay_def policy_ok_def)
qed

lemma ipc_report_ok:
  assumes ok: "psys_ok p" and s: "slots p + 3 \<le> 2 ^ 27" and i: "ipc_report tick p = Some p'"
  shows "psys_ok p' \<and> slots p' \<le> slots p + 3"
proof -
  from i obtain rs where m: "mfold (hot_pair tick) rs (on_pe epsilon_decay p) = Some p'" and l: "length rs \<le> 3"
    by (auto simp: ipc_report_def Let_def bind_eq_Some_conv)
  have "policy_ok (pe p)" using ok by (simp add: psys_ok_def)
  from psys_ok_pe [OF ok epsilon_decay_ok [OF this]] have "psys_ok (on_pe epsilon_decay p)" .
  from hot_pairs_ok [OF this _ m] s l show ?thesis by simp
qed

lemma mem_one_ok:
  assumes ok: "psys_ok p" and m: "mem_one i p = Some p'"
  shows "psys_ok p' \<and> slots p' = slots p"
proof -
  let ?x = "mem_table (pe p) ! i"
  let ?p1 = "p\<lparr>pe := (pe p)\<lparr>mem_table := (mem_table (pe p))[i := ?x\<lparr>last_mmap := mmap_calls ?x, last_faults := page_faults ?x\<rparr>]\<rparr>\<rparr>"
  have "policy_ok (pe p)" using ok by (simp add: psys_ok_def)
  note ok1 = psys_ok_pe [OF ok policy_ok_mem [OF this]]
  have ok2: "psys_ok (on_sched (set_priority (me_pid ?x) High) ?p1)"
    by (intro psys_ok_sched sched_ok_policy ok1)
  from m have "p' = p \<or> p' = ?p1 \<or> p' = on_sched (set_priority (me_pid ?x) High) ?p1"
    by (auto simp: mem_one_def Let_def split: if_splits)
  then show ?thesis using ok ok1 ok2 by (elim disjE) (simp_all add: slots_def)
qed

lemma mem_report_ok: "psys_ok p \<Longrightarrow> mem_report p = Some p' \<Longrightarrow> psys_ok p' \<and> slots p' = slots p"
  unfolding mem_report_def
  by (rule mfold_invariant [where I = "\<lambda>q. psys_ok q \<and> slots q = slots p"]) (auto dest: mem_one_ok)

lemma power_report_ok:
  assumes ok: "policy_ok e" and p: "power_report env busy e = Some e'"
  shows "policy_ok e'"
proof -
  let ?w = "max (report_interval e) 1"
  from p obtain x m a b where x: "mul_chk (sat_sub ?w (min busy ?w)) 100 = Some x"
    and m: "ema_x10 (x div ?w) (idle_pct_ema (power e)) = Some m"
    and e': "e' = e\<lparr>power := \<lparr>last_aperf = a, last_mperf = b, idle_pct_ema = m\<rparr>\<rparr>"
    by (auto simp: power_report_def Let_def bind_eq_Some_conv)
  have "unat x \<le> unat ?w * 100" using unat_chk(3) [OF x] by (simp add: unat_sat_sub)
  then have "unat (x div ?w) \<le> 100" by (metis unat_div div_le_mono div_mult_self1_is_m le0 mult.commute div_by_0 not_gr_zero)
  moreover have "unat (idle_pct_ema (power e)) \<le> 1000" using ok by (simp add: policy_ok_def word_le_nat_alt)
  ultimately have "unat m \<le> 1000" using ema_x10_bound [OF m, of 100] by simp
  then show ?thesis using ok by (simp add: e' policy_ok_def word_le_nat_alt)
qed

lemma window_update_spec:
  assumes ok: "ipc_entry_ok x" and w: "window_update x = Some x'"
  shows "ipc_entry_ok x'" and "ie_from x' = ie_from x" and "ie_to x' = ie_to x" and "rl_action x' = rl_action x"
    and "rl_prev_state x' = rl_prev_state x" and "cold_windows x' = cold_windows x" and "ie_active x' = ie_active x"
proof -
  obtain a b where ab: "bayes_update (sat_sub (ie_count x) (last_count x)) (bayes_alpha x, bayes_beta x) = (a, b)"
    by fastforce
  have "bayes_ok (a, b)"
    using bayes_update_ok [of "(bayes_alpha x, bayes_beta x)"] ok ab by (metis ipc_entry_ok_def)
  then show "ipc_entry_ok x'" "ie_from x' = ie_from x" "ie_to x' = ie_to x" "rl_action x' = rl_action x"
    "rl_prev_state x' = rl_prev_state x" "cold_windows x' = cold_windows x" "ie_active x' = ie_active x"
    using ok w ab by (auto simp: window_update_def Let_def bind_eq_Some_conv ipc_entry_ok_def)
qed

lemma drop_channel_frame:
  assumes "drop_channel f t k = Some k'"
  shows "sched k' = sched k" and "ro_channel_slot (kvm k') = ro_channel_slot (kvm k)"
    and "get_channel g h k' = (if (g, h) = (f, t) then None else get_channel g h k)"
    and "channel_count k' \<le> channel_count k"
proof -
  have d: "sched k2 = sched k1 \<and> ro_channel_slot (kvm k2) = ro_channel_slot (kvm k1) \<and> FAST_CHANNELS k2 = FAST_CHANNELS k1"
    if "drop_shared i k1 = Some (k2, b)" for i k1 and k2 :: "'a kern" and b
    using that by (auto simp: drop_shared_def free_channel_frame_def bind_eq_Some_conv Let_def
        split: option.splits if_splits)
  have c: "sched k' = sched k \<and> ro_channel_slot (kvm k') = ro_channel_slot (kvm k) \<and>
    FAST_CHANNELS k' = bt_remove (f, t) (FAST_CHANNELS k)"
  proof (cases "bt_get (f, t) (FAST_CHANNELS k)")
    case None
    then have "k' = k" using assms by (simp add: drop_channel_def)
    moreover have "bt_remove (f, t) (FAST_CHANNELS k) = FAST_CHANNELS k"
      using None unfolding bt_get_None_iff bt_remove_def by (intro filter_True) force
    ultimately show ?thesis by simp
  next
    case (Some i)
    then obtain b where "drop_shared i (k\<lparr>FAST_CHANNELS := bt_remove (f, t) (FAST_CHANNELS k)\<rparr>) = Some (k', b)"
      using assms by (auto simp: drop_channel_def bind_eq_Some_conv Let_def)
    from d [OF this] show ?thesis by simp
  qed
  from c show "sched k' = sched k" "ro_channel_slot (kvm k') = ro_channel_slot (kvm k)"
    "get_channel g h k' = (if (g, h) = (f, t) then None else get_channel g h k)"
    by (simp_all add: get_channel_def bt_get_remove)
  show "channel_count k' \<le> channel_count k" using c by (simp add: channel_count_def bt_remove_def)
qed

lemma entry_actions:
  assumes "ipc_entry_ok x" and "q_ok q" and "\<bar>reward\<bar> \<le> 20" and "n < RL_N_STATES"
    and "rl_update_q q (unat (rl_prev_state x)) (rl_action x) reward n = Some q'"
  shows "q_ok q'"
  using rl_update_q_spec [OF assms(2), of "unat (rl_prev_state x)" n "rl_action x" reward] assms
  by (auto simp: ipc_entry_ok_def)

lemma reclaim_ok:
  assumes ok: "psys_ok p" and i: "i < MAX_IPC_PAIRS" and rw: "\<bar>reward\<bar> \<le> 20" and n: "n < RL_N_STATES"
    and x: "ipc_entry_ok (y\<lparr>cold_windows := 0\<rparr>)"
    and r: "reclaim tick b i reward n (on_pe (set_entry i y) p) = Some p'"
  shows "psys_ok p' \<and> slots p' = slots p"
proof -
  have po: "policy_ok (pe p)" and co: "channels_ok (pk p)" and so: "sched_ok (sched (pk p))"
    using ok by (simp_all add: psys_ok_def)
  have len: "length (ipc_table (pe p)) = MAX_IPC_PAIRS" using po by (simp add: policy_ok_def)
  let ?f = "ie_from y" and ?t = "ie_to y"
  let ?e = "(set_entry i (y\<lparr>ie_active := False, cold_windows := 0\<rparr>) (pe p))"
  from r i len obtain q k ev where q: "rl_update_q (rl_q (pe p)) (unat (rl_prev_state y)) (rl_action y) reward n = Some q"
    and k: "drop_channel ?f ?t (pk p) = Some k" and ev: "record_eviction ?f ?t tick (evicts (pe p)) = Some ev"
    and p': "p' = (if b then on_sched (set_preferred_cpu ?t (- 1)) (on_sched (set_preferred_cpu ?f (- 1))
        (p\<lparr>pk := k, AFFINITY := unpin ?t (unpin ?f (AFFINITY p))\<rparr>))
      else p\<lparr>pk := k, AFFINITY := unpin ?t (unpin ?f (AFFINITY p))\<rparr>)\<lparr>pe := ?e\<lparr>rl_q := q, evicts := ev\<rparr>\<rparr>"
    by (auto simp: reclaim_def Let_def bind_eq_Some_conv split: if_splits)
  have qo: "q_ok (rl_q (pe p))" "evict_ok (evicts (pe p))" using po by (simp_all add: policy_ok_def)
  have q': "q_ok q" using entry_actions [OF x qo(1) rw n] q by simp
  have ev': "evict_ok ev" using record_eviction_spec [OF qo(2) ev, of 0 0 0] by simp
  have "ipc_entry_ok (y\<lparr>ie_active := False, cold_windows := 0\<rparr>)" using x by (simp add: ipc_entry_ok_def)
  from policy_ok_entry [OF po this, of i] q' ev' have pe': "policy_ok (?e\<lparr>rl_q := q, evicts := ev\<rparr>)"
    by (simp add: policy_ok_def)
  let ?p1 = "p\<lparr>pk := k, AFFINITY := unpin ?t (unpin ?f (AFFINITY p))\<rparr>"
  have ok1: "psys_ok ?p1"
    using ok drop_channel_ok [OF co k] drop_channel_frame(1) [OF k] by (simp add: psys_ok_def)
  have s1: "slots ?p1 = slots p" using drop_channel_frame(2) [OF k] by (simp add: slots_def)
  have ok2: "psys_ok (on_sched (set_preferred_cpu ?t (- 1)) (on_sched (set_preferred_cpu ?f (- 1)) ?p1))"
    by (intro psys_ok_sched sched_ok_policy ok1)
  show ?thesis
  proof (cases b)
    case True
    show ?thesis unfolding p' using psys_ok_pe [OF ok2 pe'] s1 True by (simp add: slots_def)
  next
    case False
    show ?thesis unfolding p' using psys_ok_pe [OF ok1 pe'] s1 False by simp
  qed
qed

lemma learn_ok:
  assumes ok: "policy_ok e" and i: "i < MAX_IPC_PAIRS" and rw: "\<bar>reward\<bar> \<le> 20" and n: "n < RL_N_STATES"
    and l: "learn i reward n e = Some e'"
  shows "policy_ok e'"
proof -
  let ?x = "ipc_table e ! i"
  have len: "length (ipc_table e) = MAX_IPC_PAIRS" using ok by (simp add: policy_ok_def)
  have xo: "ipc_entry_ok ?x" using policy_okD(2) [OF ok] i len by simp
  from l obtain q rng a where q: "rl_update_q (rl_q e) (unat (rl_prev_state ?x)) (rl_action ?x) reward n = Some q"
    and s: "rl_select_action (q ! n) (rl_epsilon e) (rl_rng e) = (rng, a)"
    and e': "e' = (set_entry i (?x\<lparr>rl_prev_state := of_nat n, rl_action := a\<rparr>) e)\<lparr>rl_q := q, rl_rng := rng\<rparr>"
  proof -
    from l obtain q where q: "rl_update_q (rl_q e) (unat (rl_prev_state ?x)) (rl_action ?x) reward n = Some q"
      by (auto simp: learn_def Let_def bind_eq_Some_conv)
    obtain rng a where "rl_select_action (q ! n) (rl_epsilon e) (rl_rng e) = (rng, a)" by fastforce
    then show thesis using that [of q rng a] q l by (simp add: learn_def Let_def)
  qed
  have q': "q_ok q" using entry_actions [OF xo _ rw n q] ok by (simp add: policy_ok_def)
  then have "length (q ! n) = RL_N_ACTIONS" using n by (simp add: q_ok_def)
  from rl_select_action_spec [OF this s] have a: "a < 4" "rng \<noteq> 0" by simp_all
  have "unat (of_nat n :: u8) = n" using n by (simp add: unat_of_nat RL_N_STATES_def)
  then have "ipc_entry_ok (?x\<lparr>rl_prev_state := of_nat n, rl_action := a\<rparr>)"
    using xo a n by (simp add: ipc_entry_ok_def)
  from policy_ok_entry [OF ok this, of i] q' a show ?thesis by (simp add: e' policy_ok_def)
qed

lemma settle_ok:
  assumes ok: "psys_ok p" and i: "i < MAX_IPC_PAIRS" and x': "ipc_entry_ok x'" and s: "settle tick i x x' an p = Some p'"
  shows "psys_ok p' \<and> slots p' = slots p"
proof -
  let ?n = "rl_state_idx (bayes_alpha x') (rate_ema x' div 10) (cold_windows x')"
  note n = rl_state_idx_less [of "bayes_alpha x'" "rate_ema x' div 10" "cold_windows x'"]
  have po: "policy_ok (pe p)" using ok by (simp add: psys_ok_def)
  have len: "length (ipc_table (pe p)) = MAX_IPC_PAIRS" using po by (simp add: policy_ok_def)
  have x0: "ipc_entry_ok (x'\<lparr>cold_windows := c\<rparr>)" if "c < DECAY_COLD_WINDOWS" for c
    using x' that by (simp add: ipc_entry_ok_def)
  have learn: "psys_ok q \<and> slots q = slots p"
    if "ipc_entry_ok y" "\<bar>r\<bar> \<le> 20" "learn_in i r ?n (on_pe (set_entry i y) p) = Some q" for y r q
  proof -
    from that(3) obtain e where e: "learn i r ?n (set_entry i y (pe p)) = Some e" and q: "q = p\<lparr>pe := e\<rparr>"
      by (auto simp: learn_in_def bind_eq_Some_conv)
    show ?thesis using psys_ok_pe [OF ok learn_ok [OF policy_ok_entry [OF po that(1)] i that(2) n e]] by (simp add: q)
  qed
  have cold: "0 < DECAY_COLD_WINDOWS" by (simp add: DECAY_COLD_WINDOWS_def)
  let ?cw = "sat_add (cold_windows x') 1"
  consider (anomaly) an | (cold) "\<not> an" "sat_sub (ie_count x) (last_count x) < DECAY_THRESHOLD" "?cw \<ge> DECAY_COLD_WINDOWS"
    | (cool) "\<not> an" "sat_sub (ie_count x) (last_count x) < DECAY_THRESHOLD" "\<not> ?cw \<ge> DECAY_COLD_WINDOWS"
    | (warm) "\<not> an" "\<not> sat_sub (ie_count x) (last_count x) < DECAY_THRESHOLD" by blast
  then show ?thesis
  proof cases
    case anomaly
    then have r: "reclaim tick False i (if rl_action x = RL_ENCOURAGE \<or> rl_action x = RL_PIN_PUSH then - 20 else - 5) ?n
        (on_pe (set_entry i x') p) = Some p'"
      using s by (simp add: settle_def Let_def)
    show ?thesis by (rule reclaim_ok [OF ok i _ n x0 [OF cold] r]) simp
  next
    case cold
    then have r: "reclaim tick True i (if rl_action x = RL_ENCOURAGE \<or> rl_action x = RL_PIN_PUSH then - 8 else - 2) ?n
        (on_pe (set_entry i (x'\<lparr>cold_windows := ?cw\<rparr>)) p) = Some p'"
      using s by (simp add: settle_def Let_def)
    have x: "ipc_entry_ok (x'\<lparr>cold_windows := ?cw\<rparr>\<lparr>cold_windows := 0\<rparr>)"
      using x0 [OF \<open>0 < DECAY_COLD_WINDOWS\<close>] by simp
    show ?thesis by (rule reclaim_ok [OF ok i _ n x r]) simp
  next
    case cool
    then have l: "learn_in i (if rl_action x = RL_ENCOURAGE then - 4 else - 1) ?n
        (on_pe (set_entry i (x'\<lparr>cold_windows := ?cw\<rparr>)) p) = Some p'"
      using s by (simp add: settle_def Let_def)
    have "ipc_entry_ok (x'\<lparr>cold_windows := ?cw\<rparr>)" using x0 cool(3) by (simp add: not_le)
    from learn [OF this _ l] show ?thesis by simp
  next
    case warm
    then have "learn_in i (rl_compute_reward (rl_action x) (sat_sub (ie_count x) (last_count x)) (delta_prev x)
        (get_channel (ie_from x) (ie_to x) (pk p) \<noteq> None)) ?n (on_pe (set_entry i (x'\<lparr>cold_windows := 0\<rparr>)) p) = Some p'"
      using s by (simp add: settle_def Let_def)
    with learn [OF x0 [OF \<open>0 < DECAY_COLD_WINDOWS\<close>] reward_bounds] show ?thesis by blast
  qed
qed

lemma decay_one_ok:
  assumes ok: "psys_ok p" and i: "i < MAX_IPC_PAIRS" and d: "decay_one tick i p = Some p'"
  shows "psys_ok p' \<and> slots p' = slots p"
proof (cases "ie_active (ipc_table (pe p) ! i)")
  case False
  then show ?thesis using ok d by (simp add: decay_one_def Let_def)
next
  case True
  let ?x = "ipc_table (pe p) ! i"
  have po: "policy_ok (pe p)" using ok by (simp add: psys_ok_def)
  have xo: "ipc_entry_ok ?x" using policy_okD(2) [OF po] i po by (simp add: policy_ok_def)
  from d True obtain x' an where w: "window_update ?x = Some x'" and s: "settle tick i ?x x' an p = Some p'"
    by (auto simp: decay_one_def Let_def bind_eq_Some_conv)
  show ?thesis by (rule settle_ok [OF ok i window_update_spec(1) [OF xo w] s])
qed

lemma decay_report_ok: "psys_ok p \<Longrightarrow> decay_report tick p = Some p' \<Longrightarrow> psys_ok p' \<and> slots p' = slots p"
  unfolding decay_report_def
  by (rule mfold_invariant [where I = "\<lambda>q. psys_ok q \<and> slots q = slots p"]) (auto dest: decay_one_ok)

lemma adapt_stages:
  assumes "adapt_and_report env tick p = Some p'"
  obtains e1 p2 acc e3 p4 p5 p6 e7 where
    "tune_interval (POLICY_ENABLED p) (max (report_interval (pe p)) 1) (begin_window tick (pe p)) = Some e1"
    "cpu_report tick (max (report_interval (pe p)) 1) (p\<lparr>pe := e1\<rparr>) = Some (p2, acc)"
    "tune_profile (POLICY_ENABLED p2) acc (pe p2) = Some e3"
    "tune_slice (max_pct acc) (p2\<lparr>pe := e3\<rparr>) = Some p4" "ipc_report tick p4 = Some p5"
    "mem_report p5 = Some p6" "power_report env (busy_ticks acc) (pe p6) = Some e7"
    "decay_report tick (p6\<lparr>pe := e7\<rparr>) = Some p'"
proof -
  have w: "report_interval (begin_window tick (pe p)) = report_interval (pe p)" by (simp add: begin_window_def)
  from assms obtain e1 q2 where
    1: "tune_interval (POLICY_ENABLED p) (max (report_interval (pe p)) 1) (begin_window tick (pe p)) = Some e1" and
    2: "cpu_report tick (max (report_interval (pe p)) 1) (p\<lparr>pe := e1\<rparr>) = Some q2"
    by (auto simp: adapt_and_report_def Let_def bind_eq_Some_conv w)
  obtain p2 acc where q: "q2 = (p2, acc)" by (cases q2)
  from assms 1 2 show thesis unfolding q
    using that by (auto simp: adapt_and_report_def Let_def bind_eq_Some_conv w)
qed

lemma adapt_ok:
  assumes ok: "psys_ok p" and s: "slots p + 3 \<le> 2 ^ 27" and a: "adapt_and_report env tick p = Some p'"
  shows "psys_ok p' \<and> slots p' \<le> slots p + 3"
  using a
proof (rule adapt_stages)
  fix e1 p2 acc e3 p4 p5 p6 e7
  assume 1: "tune_interval (POLICY_ENABLED p) (max (report_interval (pe p)) 1) (begin_window tick (pe p)) = Some e1"
    and 2: "cpu_report tick (max (report_interval (pe p)) 1) (p\<lparr>pe := e1\<rparr>) = Some (p2, acc)"
    and 3: "tune_profile (POLICY_ENABLED p2) acc (pe p2) = Some e3"
    and 4: "tune_slice (max_pct acc) (p2\<lparr>pe := e3\<rparr>) = Some p4" and 5: "ipc_report tick p4 = Some p5"
    and 6: "mem_report p5 = Some p6" and 7: "power_report env (busy_ticks acc) (pe p6) = Some e7"
    and 8: "decay_report tick (p6\<lparr>pe := e7\<rparr>) = Some p'"
  have pe: "policy_ok (pe q)" if "psys_ok q" for q :: "'a psys" using that by (simp add: psys_ok_def)
  have ok1: "psys_ok (p\<lparr>pe := e1\<rparr>)"
    by (rule psys_ok_pe [OF ok tune_interval_ok [OF begin_window_ok [OF pe [OF ok]] 1]])
  have ok2: "psys_ok p2" "slots p2 = slots p" using cpu_report_ok [OF ok1 2] by simp_all
  have ok3: "psys_ok (p2\<lparr>pe := e3\<rparr>)" by (rule psys_ok_pe [OF ok2(1) tune_profile_ok [OF pe [OF ok2(1)] 3]])
  have ok4: "psys_ok p4" "slots p4 = slots p" using tune_slice_ok [OF ok3 4] ok2(2) by simp_all
  have ok5: "psys_ok p5" "slots p5 \<le> slots p + 3" using ipc_report_ok [OF ok4(1) _ 5] s ok4(2) by simp_all
  have ok6: "psys_ok p6" "slots p6 \<le> slots p + 3" using mem_report_ok [OF ok5(1) 6] ok5(2) by simp_all
  have ok7: "psys_ok (p6\<lparr>pe := e7\<rparr>)" by (rule psys_ok_pe [OF ok6(1) power_report_ok [OF pe [OF ok6(1)] 7]])
  show ?thesis using decay_report_ok [OF ok7 8] ok6(2) by simp
qed

end
