(* ===== verification/Policy_Safety.thy ===== *)
theory Policy_Safety
  imports Policy
begin

text \<open>
  What the Policy Engine of theory \<open>Policy\<close> guarantees: every context switch keeps the joint invariant
  of engine, scheduler and channels; a report window creates at most two channels and none that is in
  its cool-down; with the engine switched off a report restores the baseline and changes no priority.
\<close>

section \<open>Bookkeeping keeps the invariant\<close>

lemma policy_ok_stat_upd:
  assumes "policy_ok e" and "i < length (stats e)" and "\<And>s. cpu_stat_ok s \<Longrightarrow> cpu_stat_ok (f s)"
  shows "policy_ok (upd_stat i f e)"
  using policy_ok_stat [OF assms(1) assms(3) [OF policy_okD(1) [OF assms(1,2)]]] .

lemma cpu_stats_empty_ok: "cpu_stat_ok (cpu_stats_empty\<lparr>cs_pid := q, cs_active := b, run_start_tick := t\<rparr>)"
  by (simp add: cpu_stat_ok_def cpu_stats_empty_def policy_consts)

lemma ipc_entry_new_ok: "ipc_entry_ok (ipc_entry_new f t n len)"
  by (simp add: ipc_entry_ok_def ipc_entry_new_def bayes_ok_def RL_N_STATES_def RL_NOOP_def DECAY_COLD_WINDOWS_def
      BAYES_PRIOR_ALPHA_def BAYES_PRIOR_BETA_def)

lemma register_ok: "policy_ok e \<Longrightarrow> policy_ok (register q e)"
  by (auto simp: register_def intro!: policy_ok_stat cpu_stats_empty_ok split: option.split)

lemma unregister_ok: "policy_ok e \<Longrightarrow> policy_ok (unregister q e)"
  by (auto simp: unregister_def find_slot_def find_idx_Some_iff cpu_stat_ok_def
      intro!: policy_ok_stat_upd split: option.split)

lemma observe_ipc_ok:
  assumes ok: "policy_ok e"
  shows "policy_ok (observe_ipc f t n len e)"
proof (cases "find_idx (\<lambda>x. ie_active x \<and> ie_from x = f \<and> ie_to x = t) (ipc_table e)")
  case None
  show ?thesis unfolding observe_ipc_def None option.case Let_def by (rule policy_ok_entry [OF ok ipc_entry_new_ok])
next
  case (Some i)
  then have "ipc_entry_ok (ipc_table e ! i)" by (intro policy_okD(2) [OF ok] find_idx_SomeD(1))
  then have "ipc_entry_ok ((ipc_table e ! i)\<lparr>ie_count := n,
      payload_bytes_window := sat_add (payload_bytes_window (ipc_table e ! i)) len\<rparr>)"
    by (simp add: ipc_entry_ok_def)
  from policy_ok_entry [OF ok this] Some show ?thesis by (simp add: observe_ipc_def Let_def)
qed

lemma observe_mem_ok:
  "policy_ok e \<Longrightarrow> observe_mmap q e = Some e' \<Longrightarrow> policy_ok e'"
  "policy_ok e \<Longrightarrow> observe_page_fault q e = Some e' \<Longrightarrow> policy_ok e'"
  by (auto simp: observe_mmap_def observe_page_fault_def Let_def bind_eq_Some_conv intro!: policy_ok_mem
      split: option.splits)

lemma run_policy_call_ok: "policy_ok e \<Longrightarrow> policy_ok (run_policy_call c e)"
  by (cases c) (simp_all add: register_ok unregister_ok observe_ipc_ok)

lemma run_policy_calls_ok: "policy_ok e \<Longrightarrow> policy_ok (fold run_policy_call cs e)"
  by (induction cs arbitrary: e) (simp_all add: run_policy_call_ok)

lemma policy_new_ok: "policy_ok policy_new"
proof -
  have "ipc_entry_ok ipc_entry_empty" using ipc_entry_new_ok [of 0 0 0 0] by (simp add: ipc_entry_empty_def ipc_entry_ok_def)
  moreover have "cpu_stat_ok cpu_stats_empty" by (simp add: cpu_stat_ok_def cpu_stats_empty_def policy_consts)
  moreover have "evict_ok (replicate MAX_EVICT_PAIRS (0, 0, 0), 0)" by (simp add: evict_ok_def)
  ultimately show ?thesis using q_init_ok [unfolded q_init_def]
    by (simp add: policy_ok_def policy_new_def policy_consts RL_EPSILON_MIN_def RL_EPSILON_INIT_def)
qed

lemma account_one_ok:
  "policy_ok e \<Longrightarrow> account_out q tick e = Some e' \<Longrightarrow> policy_ok e'"
  "policy_ok e \<Longrightarrow> account_in q tick e = Some e' \<Longrightarrow> policy_ok e'"
  by (auto simp: account_out_def account_in_def Let_def bind_eq_Some_conv find_slot_def find_idx_Some_iff
      cpu_stat_ok_def intro!: policy_ok_stat_upd split: option.splits)

lemma account_switch_ok:
  assumes ok: "policy_ok e" and a: "account_switch f t tick e = Some e'"
  shows "policy_ok e'"
proof -
  from a obtain n e1 where 1: "account_out f tick (e\<lparr>total_ticks := tick, switches_this_window := n\<rparr>) = Some e1"
    and 2: "account_in t tick e1 = Some e'"
    by (auto simp: account_switch_def bind_eq_Some_conv)
  have "policy_ok (e\<lparr>total_ticks := tick, switches_this_window := n\<rparr>)" using ok by (simp add: policy_ok_def)
  from account_one_ok(2) [OF account_one_ok(1) [OF this 1] 2] show ?thesis .
qed

lemma on_switch_ok:
  assumes ok: "psys_ok p" and s: "slots p + 3 \<le> 2 ^ 27" and o: "on_switch env f t tick p = Some p'"
  shows "psys_ok p' \<and> slots p' \<le> slots p + 3"
proof -
  from o obtain e where e: "account_switch f t tick (pe p) = Some e"
    and c: "p' = p\<lparr>pe := e\<rparr> \<or> adapt_and_report env tick (p\<lparr>pe := e\<lparr>last_report_tick := tick\<rparr>\<rparr>) = Some p'"
    by (auto simp: on_switch_def Let_def bind_eq_Some_conv split: if_splits)
  have "policy_ok e" using account_switch_ok [OF _ e] ok by (simp add: psys_ok_def)
  then have "policy_ok (e\<lparr>last_report_tick := tick\<rparr>)" by (simp add: policy_ok_def)
  note ok' = psys_ok_pe [OF ok \<open>policy_ok e\<close>] psys_ok_pe [OF ok this]
  from c show ?thesis
  proof
    assume "p' = p\<lparr>pe := e\<rparr>"
    then show ?thesis using ok'(1) by simp
  next
    assume "adapt_and_report env tick (p\<lparr>pe := e\<lparr>last_report_tick := tick\<rparr>\<rparr>) = Some p'"
    from adapt_ok [OF ok'(2) _ this] s show ?thesis by simp
  qed
qed

lemma flush_calls_ok: "psys_ok p \<Longrightarrow> psys_ok (flush_calls p) \<and> slots (flush_calls p) = slots p"
  unfolding flush_calls_def
  using psys_ok_sched [of p "\<lambda>s. s\<lparr>policy_calls := []\<rparr>"] psys_ok_pe run_policy_calls_ok
  by (fastforce simp: psys_ok_def slots_def sched_ok_def sched_wf_def running_only_def)

lemma preempt_ok:
  assumes ok: "psys_ok p" and s: "slots p + 3 \<le> 2 ^ 27" and pr: "preempt env menv rsp v p = Some (p', r)"
  shows "psys_ok p' \<and> slots p' \<le> slots p + 3"
proof -
  from pr obtain s' x f t tick where d: "do_preempt env rsp v (sched (pk p)) = Some (s', x, f, t, tick)"
    and o: "on_switch menv f t tick (flush_calls (on_sched (\<lambda>_. s') p)) = Some p'"
    by (auto simp: preempt_def Let_def bind_eq_Some_conv)
  have "sched_ok s'" using do_preempt_ok [OF _ d] ok by (simp add: psys_ok_def)
  then have "psys_ok (on_sched (\<lambda>_. s') p)" "slots (on_sched (\<lambda>_. s') p) = slots p"
    using ok by (simp_all add: psys_ok_def slots_def channels_ok_sched)
  with flush_calls_ok on_switch_ok [OF _ _ o] s show ?thesis by metis
qed

section \<open>Channels a report may create\<close>

text \<open>What the stages before and after the ranking leave alone.\<close>

definition chan_view :: "'o psys \<Rightarrow> ((pid \<times> pid, u64) btree \<times> evict) \<times> u8 \<times> bool" where
  "chan_view p = ((FAST_CHANNELS (pk p), evicts (pe p)), channels_this_window (pe p), POLICY_ENABLED p)"

lemma chan_viewD:
  assumes "chan_view p' = chan_view p"
  shows "get_channel f t (pk p') = get_channel f t (pk p)" "channel_count (pk p') = channel_count (pk p)"
    "evicts (pe p') = evicts (pe p)" "channels_this_window (pe p') = channels_this_window (pe p)"
    "POLICY_ENABLED p' = POLICY_ENABLED p"
  using assms by (simp_all add: chan_view_def get_channel_def channel_count_def)

lemma cpu_one_view: "cpu_one tick w i (p, acc) = Some (p', acc') \<Longrightarrow> chan_view p' = chan_view p"
  by (auto simp: cpu_one_def apply_class_def Let_def bind_eq_Some_conv chan_view_def split: if_splits)

lemma cpu_report_view:
  assumes "cpu_report tick w p = Some (p', acc)"
  shows "chan_view p' = chan_view p"
proof -
  have "chan_view (fst (p', acc)) = chan_view p"
    by (rule mfold_invariant [where I = "\<lambda>x. chan_view (fst x) = chan_view p", OF assms [unfolded cpu_report_def]])
      (use cpu_one_view in \<open>fastforce+\<close>)
  then show ?thesis by simp
qed

lemma mem_report_view: "mem_report p = Some p' \<Longrightarrow> chan_view p' = chan_view p"
  unfolding mem_report_def
  by (rule mfold_invariant [where I = "\<lambda>x. chan_view x = chan_view p"])
    (auto simp: mem_one_def Let_def chan_view_def split: if_splits)

lemma tune_profile_view:
  assumes "tune_profile b acc e = Some e'"
  shows "evicts e' = evicts e \<and> channels_this_window e' = channels_this_window e \<and> report_interval e' = report_interval e"
proof (cases "\<exists>n. b \<and> add_chk (cnt_high acc) (cnt_low acc) = Some n \<and> n \<ge> WORKLOAD_PROFILE_SAMPLE_MIN")
  case True
  then show ?thesis using assms by (auto simp: tune_profile_def Let_def bind_eq_Some_conv)
next
  case False
  then show ?thesis using assms by (cases b) (auto simp: tune_profile_def bind_eq_Some_conv split: if_splits)
qed

lemma tune_slice_view: "tune_slice mx p = Some p' \<Longrightarrow> \<exists>x. p' = p\<lparr>TIME_SLICE := x\<rparr>"
  unfolding tune_slice_def Let_def split_beta by (auto split: if_splits)

lemma power_report_view: "power_report env n e = Some e' \<Longrightarrow> \<exists>x. e' = e\<lparr>power := x\<rparr>"
  unfolding power_report_def Let_def bind_eq_Some_conv by blast

lemma window_view:
  assumes "tune_interval b w (begin_window tick (pe p)) = Some e"
  shows "channels_this_window e = 0 \<and> evicts e = expire_evictions tick (evicts (pe p))"
  using assms by (auto simp: tune_interval_def begin_window_def Let_def bind_eq_Some_conv split: if_splits)

text \<open>One ranked pair adds at most the channel it counts, and only outside its cool-down.\<close>

definition budget :: "u64 \<Rightarrow> 'o psys \<Rightarrow> 'o psys \<Rightarrow> bool" where
  "budget tick p p' \<longleftrightarrow> evicts (pe p') = evicts (pe p) \<and>
     channel_count (pk p') + unat (channels_this_window (pe p)) \<le> channel_count (pk p) + unat (channels_this_window (pe p')) \<and>
     (\<forall>f t. get_channel f t (pk p') \<noteq> None \<and> get_channel f t (pk p) = None \<longrightarrow>
        \<not> in_evict_cooldown (evicts (pe p)) f t tick \<and> POLICY_ENABLED p) \<and>
     POLICY_ENABLED p' = POLICY_ENABLED p"

lemma budget_view: "chan_view p' = chan_view p \<Longrightarrow> budget tick p p'"
  unfolding budget_def using chan_viewD [of p' p] by auto

lemma budget_refl [simp]: "budget tick p p"
  by (rule budget_view) simp

lemma budget_trans:
  assumes "budget tick p p1" and "budget tick p1 p'"
  shows "budget tick p p'"
proof -
  have "\<not> in_evict_cooldown (evicts (pe p)) f t tick \<and> POLICY_ENABLED p"
    if "get_channel f t (pk p') \<noteq> None" "get_channel f t (pk p) = None" for f t
    using assms that unfolding budget_def by (cases "get_channel f t (pk p1) = None") metis+
  moreover have "evicts (pe p') = evicts (pe p)" "POLICY_ENABLED p' = POLICY_ENABLED p"
    "channel_count (pk p') + unat (channels_this_window (pe p)) \<le> channel_count (pk p) + unat (channels_this_window (pe p'))"
    using assms unfolding budget_def by simp_all
  ultimately show ?thesis unfolding budget_def by blast
qed

lemma hot_channel_budget:
  assumes ok: "psys_ok p" and s: "slots p < 2 ^ 27" and e: "POLICY_ENABLED p" and h: "hot_channel tick f t p = Some p'"
  shows "budget tick p p'"
proof -
  have co: "channels_ok (pk p)" using ok by (simp add: psys_ok_def)
  from co s h show ?thesis
  proof (cases rule: hot_channel_cases)
    case same
    then show ?thesis by simp
  next
    case (fresh k i)
    have s': "unat (ro_channel_slot (kvm (pk p))) < 2 ^ 27" using s by (simp add: slots_def)
    have "channel_count k = Suc (channel_count (pk p))" by (rule ensure_channel_slots(4) [OF co s' fresh(4,1)])
    moreover have "unat (channels_this_window (pe p) + 1) = unat (channels_this_window (pe p)) + 1"
      using fresh(2) by (simp add: word_less_nat_alt MAX_CHANNELS_PER_WINDOW_def unat_word_ariths)
    moreover have "(g, h) = (f, t)" if "get_channel g h k \<noteq> None" "get_channel g h (pk p) = None" for g h
      using ensure_channel_slots(5) [OF co s' fresh(4), of g h] that by force
    ultimately show ?thesis using fresh(3) e unfolding fresh(5) by (auto simp: budget_def)
  qed
qed

lemma hot_pair_budget:
  assumes ok: "psys_ok p" and s: "slots p < 2 ^ 27" and h: "hot_pair tick r p = Some p'"
  shows "budget tick p p' \<and> (\<not> POLICY_ENABLED p \<longrightarrow> p' = p)"
proof (cases "p' = p")
  case True
  then show ?thesis by simp
next
  case False
  let ?x = "ipc_table (pe p) ! fst r"
  from h False obtain p1 where e: "POLICY_ENABLED p" and p1: "hot_channel tick (ie_from ?x) (ie_to ?x) p = Some p1"
    and v: "chan_view p' = chan_view p1"
    by (auto simp: hot_pair_def Let_def bind_eq_Some_conv chan_view_def split: if_splits)
  show ?thesis using budget_trans [OF hot_channel_budget [OF ok s e p1] budget_view [OF v]] e by simp
qed

lemma hot_pairs_budget:
  assumes "psys_ok p" and "slots p + length rs \<le> 2 ^ 27" and "mfold (hot_pair tick) rs p = Some p'"
  shows "budget tick p p' \<and> (\<not> POLICY_ENABLED p \<longrightarrow> p' = p)"
  using assms
proof (induction rs arbitrary: p)
  case Nil
  then show ?case by simp
next
  case (Cons r rs)
  then obtain p1 where h: "hot_pair tick r p = Some p1" "mfold (hot_pair tick) rs p1 = Some p'"
    by (auto simp: bind_eq_Some_conv)
  have sl: "slots p < 2 ^ 27" using Cons.prems(2) by simp
  have p1: "psys_ok p1" "slots p1 \<le> slots p + 1" using hot_pair_ok [OF Cons.prems(1) sl h(1)] by simp_all
  have b: "budget tick p p1 \<and> (\<not> POLICY_ENABLED p \<longrightarrow> p1 = p)" by (rule hot_pair_budget [OF Cons.prems(1) sl h(1)])
  have "budget tick p1 p' \<and> (\<not> POLICY_ENABLED p1 \<longrightarrow> p' = p1)"
    using Cons.IH [OF p1(1) _ h(2)] p1(2) Cons.prems(2) by simp
  with b show ?case using budget_trans [of tick p p1 p'] by (metis budget_def)
qed

lemma ipc_report_budget:
  assumes ok: "psys_ok p" and s: "slots p + 3 \<le> 2 ^ 27" and i: "ipc_report tick p = Some p'"
  shows "budget tick p p' \<and> (\<not> POLICY_ENABLED p \<longrightarrow> p' = on_pe epsilon_decay p)"
proof -
  from i obtain rs where m: "mfold (hot_pair tick) rs (on_pe epsilon_decay p) = Some p'" and l: "length rs \<le> 3"
    by (auto simp: ipc_report_def Let_def bind_eq_Some_conv)
  have po: "policy_ok (pe p)" using ok by (simp add: psys_ok_def)
  have v: "chan_view (on_pe epsilon_decay p) = chan_view p" by (simp add: chan_view_def epsilon_decay_def)
  have "slots (on_pe epsilon_decay p) + length rs \<le> 2 ^ 27" using s l by simp
  from hot_pairs_budget [OF psys_ok_pe [OF ok epsilon_decay_ok [OF po]] this m]
  show ?thesis using budget_trans [OF budget_view [OF v], of tick p'] by simp
qed

text \<open>The decay stage only removes channels.\<close>

definition shrinks :: "'o psys \<Rightarrow> 'o psys \<Rightarrow> bool" where
  "shrinks p p' \<longleftrightarrow> channel_count (pk p') \<le> channel_count (pk p) \<and>
     (\<forall>f t. get_channel f t (pk p) = None \<longrightarrow> get_channel f t (pk p') = None) \<and>
     TIME_SLICE p' = TIME_SLICE p \<and> report_interval (pe p') = report_interval (pe p) \<and>
     (\<forall>q. get_priority q (sched (pk p')) = get_priority q (sched (pk p)))"

lemma find_upd_first:
  "(\<And>x. P (f x) = P x) \<Longrightarrow> (\<And>x. Q (f x) = Q x) \<Longrightarrow> (\<And>x. g (f x) = g x) \<Longrightarrow>
   map_option g (find P (upd_first Q f xs)) = map_option g (find P xs)"
  by (induction xs) auto

lemma get_priority_alt: "get_priority q s = (case map_option p_priority (find (\<lambda>p. p_pid p = q) (processes s)) of Some x \<Rightarrow> x | None \<Rightarrow> Normal)"
  by (simp add: get_priority_def split: option.split)

lemma get_priority_preferred [simp]: "get_priority q (set_preferred_cpu r c s) = get_priority q s"
  unfolding get_priority_alt set_preferred_cpu_def upd_pid_simps by (subst find_upd_first) simp_all

lemma shrinks_trans: "shrinks p p1 \<Longrightarrow> shrinks p1 p' \<Longrightarrow> shrinks p p'"
  unfolding shrinks_def by auto

lemma reclaim_shrinks:
  assumes "reclaim tick b i r n p = Some p'"
  shows "shrinks p p'"
proof -
  let ?f = "ie_from (ipc_table (pe p) ! i)" and ?t = "ie_to (ipc_table (pe p) ! i)"
  from assms obtain k where k: "drop_channel ?f ?t (pk p) = Some k" and v: "FAST_CHANNELS (pk p') = FAST_CHANNELS k"
    "TIME_SLICE p' = TIME_SLICE p" "report_interval (pe p') = report_interval (pe p)"
    "\<And>q. get_priority q (sched (pk p')) = get_priority q (sched k)"
    unfolding reclaim_def Let_def bind_eq_Some_conv by (cases b) auto
  have "get_channel f t (pk p') = get_channel f t k" "channel_count (pk p') = channel_count k" for f t
    using v(1) by (simp_all add: get_channel_def channel_count_def)
  with v drop_channel_frame [OF k] show ?thesis by (auto simp: shrinks_def)
qed

lemma learn_shrinks: "learn_in i r n p = Some p' \<Longrightarrow> shrinks p p'"
  by (auto simp: learn_in_def learn_def Let_def bind_eq_Some_conv shrinks_def split_beta)

lemma set_entry_shrinks: "shrinks p (on_pe (set_entry i x) p)"
  by (simp add: shrinks_def)

lemma shrinks_refl [simp]: "shrinks p p"
  by (simp add: shrinks_def)

lemma settle_shrinks: "settle tick i x x' an p = Some p' \<Longrightarrow> shrinks p p'"
  unfolding settle_def Let_def
  by (simp split: if_splits) (drule reclaim_shrinks learn_shrinks, erule shrinks_trans [OF set_entry_shrinks])+

lemma decay_one_shrinks:
  assumes "decay_one tick i p = Some p'"
  shows "shrinks p p'"
proof (cases "ie_active (ipc_table (pe p) ! i)")
  case True
  then obtain x' an where "settle tick i (ipc_table (pe p) ! i) x' an p = Some p'"
    using assms by (auto simp: decay_one_def Let_def bind_eq_Some_conv)
  then show ?thesis by (rule settle_shrinks)
qed (use assms in \<open>simp add: decay_one_def Let_def\<close>)

lemma decay_report_shrinks: "decay_report tick p = Some p' \<Longrightarrow> shrinks p p'"
  unfolding decay_report_def
  by (rule mfold_invariant [where I = "shrinks p"])
    (auto dest: decay_one_shrinks intro: shrinks_trans simp: shrinks_def)

lemma adapt_channels:
  assumes ok: "psys_ok p" and s: "slots p + 3 \<le> 2 ^ 27" and a: "adapt_and_report env tick p = Some p'"
  shows "channel_count (pk p') \<le> channel_count (pk p) + 2 \<and>
    (\<forall>f t. get_channel f t (pk p') \<noteq> None \<and> get_channel f t (pk p) = None \<longrightarrow>
      \<not> in_evict_cooldown (evicts (pe p)) f t tick \<and> POLICY_ENABLED p)"
  using a
proof (rule adapt_stages)
  fix e1 p2 acc e3 p4 p5 p6 e7
  assume 1: "tune_interval (POLICY_ENABLED p) (max (report_interval (pe p)) 1) (begin_window tick (pe p)) = Some e1"
    and 2: "cpu_report tick (max (report_interval (pe p)) 1) (p\<lparr>pe := e1\<rparr>) = Some (p2, acc)"
    and 3: "tune_profile (POLICY_ENABLED p2) acc (pe p2) = Some e3"
    and 4: "tune_slice (max_pct acc) (p2\<lparr>pe := e3\<rparr>) = Some p4" and 5: "ipc_report tick p4 = Some p5"
    and 6: "mem_report p5 = Some p6" and 7: "power_report env (busy_ticks acc) (pe p6) = Some e7"
    and 8: "decay_report tick (p6\<lparr>pe := e7\<rparr>) = Some p'"
  have po: "policy_ok (pe q)" if "psys_ok q" for q :: "'a psys" using that by (simp add: psys_ok_def)
  let ?p1 = "p\<lparr>pe := e1\<rparr>"
  have ok1: "psys_ok ?p1" by (rule psys_ok_pe [OF ok tune_interval_ok [OF begin_window_ok [OF po [OF ok]] 1]])
  have ok2: "psys_ok p2" "slots p2 = slots p" using cpu_report_ok [OF ok1 2] by simp_all
  have "psys_ok (p2\<lparr>pe := e3\<rparr>)" by (rule psys_ok_pe [OF ok2(1) tune_profile_ok [OF po [OF ok2(1)] 3]])
  from tune_slice_ok [OF this 4] ok2(2) have ok4: "psys_ok p4" "slots p4 = slots p" by simp_all
  have "chan_view p4 = chan_view p2"
    using tune_slice_view [OF 4] tune_profile_view [OF 3] by (auto simp: chan_view_def)
  then have v4: "chan_view p4 = chan_view ?p1" using cpu_report_view [OF 2] by simp
  have b: "budget tick p4 p5" using ipc_report_budget [OF ok4(1) _ 5] s ok4(2) by simp
  let ?p7 = "p6\<lparr>pe := e7\<rparr>"
  have v7: "chan_view ?p7 = chan_view p5"
    using mem_report_view [OF 6] power_report_view [OF 7] by (auto simp: chan_view_def)
  have "budget tick ?p1 ?p7"
    by (rule budget_trans [OF budget_trans [OF budget_view [OF v4] b] budget_view [OF v7]])
  moreover have w: "channels_this_window e1 = 0" "evicts e1 = expire_evictions tick (evicts (pe p))"
    using window_view [OF 1] by simp_all
  moreover have "unat (channels_this_window e7) \<le> 2"
  proof -
    have "psys_ok p5" using ipc_report_ok [OF ok4(1) _ 5] s ok4(2) by simp
    then have "unat (channels_this_window (pe p5)) \<le> 2"
      using po by (fastforce simp: policy_ok_def MAX_CHANNELS_PER_WINDOW_def word_le_nat_alt)
    then show ?thesis using chan_viewD(4) [OF v7] by simp
  qed
  moreover have "evict_ok (evicts (pe p))" using po [OF ok] by (simp add: policy_ok_def)
  note expire_evictions_spec [OF this, of tick]
  ultimately have c: "channel_count (pk ?p7) \<le> channel_count (pk p) + 2"
    "\<And>f t. get_channel f t (pk ?p7) \<noteq> None \<Longrightarrow> get_channel f t (pk p) = None \<Longrightarrow>
      \<not> in_evict_cooldown (evicts (pe p)) f t tick \<and> POLICY_ENABLED p"
    by (auto simp: budget_def)
  have d: "channel_count (pk p') \<le> channel_count (pk ?p7)"
    "\<And>f t. get_channel f t (pk p') \<noteq> None \<Longrightarrow> get_channel f t (pk ?p7) \<noteq> None"
    using decay_report_shrinks [OF 8, unfolded shrinks_def] by (rule conjunct1, metis)
  show ?thesis using c d by (meson order_trans)
qed

section \<open>The engine switched off\<close>

definition calm :: "'o psys \<Rightarrow> 'o psys \<Rightarrow> bool" where
  "calm p p' \<longleftrightarrow> sched (pk p') = sched (pk p) \<and> report_interval (pe p') = report_interval (pe p) \<and>
     TIME_SLICE p' = TIME_SLICE p \<and> \<not> POLICY_ENABLED p'"

lemma cpu_report_calm:
  assumes "cpu_report tick w p = Some (p', acc)" and "\<not> POLICY_ENABLED p"
  shows "calm p p'"
proof -
  have "cpu_one tick w i (q, c) = Some (q', c') \<Longrightarrow> calm p q \<Longrightarrow> calm p q'" for i q c q' c'
    by (auto simp: cpu_one_def apply_class_def Let_def bind_eq_Some_conv calm_def split: if_splits)
  then have "calm p (fst (p', acc))"
    by (intro mfold_invariant [where I = "\<lambda>x. calm p (fst x)", OF assms(1) [unfolded cpu_report_def]])
      (use assms(2) in \<open>fastforce simp: calm_def\<close>)+
  then show ?thesis by simp
qed

lemma mem_report_calm: "mem_report p = Some p' \<Longrightarrow> \<not> POLICY_ENABLED p \<Longrightarrow> calm p p'"
  unfolding mem_report_def
  by (rule mfold_invariant [where I = "calm p"])
    (auto simp: mem_one_def Let_def calm_def split: if_splits)

lemma adapt_disabled:
  assumes ok: "psys_ok p" and s: "slots p + 3 \<le> 2 ^ 27" and off: "\<not> POLICY_ENABLED p"
    and a: "adapt_and_report env tick p = Some p'"
  shows "TIME_SLICE p' = BASELINE_TIME_SLICE \<and> report_interval (pe p') = REPORT_INTERVAL_BASELINE \<and>
    get_priority q (sched (pk p')) = get_priority q (sched (pk p))"
  using a
proof (rule adapt_stages)
  fix e1 p2 acc e3 p4 p5 p6 e7
  assume 1: "tune_interval (POLICY_ENABLED p) (max (report_interval (pe p)) 1) (begin_window tick (pe p)) = Some e1"
    and 2: "cpu_report tick (max (report_interval (pe p)) 1) (p\<lparr>pe := e1\<rparr>) = Some (p2, acc)"
    and 3: "tune_profile (POLICY_ENABLED p2) acc (pe p2) = Some e3"
    and 4: "tune_slice (max_pct acc) (p2\<lparr>pe := e3\<rparr>) = Some p4" and 5: "ipc_report tick p4 = Some p5"
    and 6: "mem_report p5 = Some p6" and 7: "power_report env (busy_ticks acc) (pe p6) = Some e7"
    and 8: "decay_report tick (p6\<lparr>pe := e7\<rparr>) = Some p'"
  have po: "policy_ok (pe q)" if "psys_ok q" for q :: "'a psys" using that by (simp add: psys_ok_def)
  have ok1: "psys_ok (p\<lparr>pe := e1\<rparr>)" by (rule psys_ok_pe [OF ok tune_interval_ok [OF begin_window_ok [OF po [OF ok]] 1]])
  have ok2: "psys_ok p2" "slots p2 = slots p" using cpu_report_ok [OF ok1 2] by simp_all
  have ok3: "psys_ok (p2\<lparr>pe := e3\<rparr>)" by (rule psys_ok_pe [OF ok2(1) tune_profile_ok [OF po [OF ok2(1)] 3]])
  from tune_slice_ok [OF ok3 4] ok2(2) have ok4: "psys_ok p4" "slots p4 = slots p" by simp_all
  have r1: "report_interval e1 = REPORT_INTERVAL_BASELINE" using 1 off by (auto simp: tune_interval_def Let_def)
  have c2: "calm (p\<lparr>pe := e1\<rparr>) p2" using cpu_report_calm [OF 2] off by simp
  have "p4 = p2\<lparr>pe := e3, TIME_SLICE := BASELINE_TIME_SLICE\<rparr>"
    using 4 c2 by (auto simp: tune_slice_def Let_def calm_def split_beta split: if_splits)
  then have 4: "sched (pk p4) = sched (pk p)" "report_interval (pe p4) = REPORT_INTERVAL_BASELINE"
    "TIME_SLICE p4 = BASELINE_TIME_SLICE" "\<not> POLICY_ENABLED p4"
    using c2 tune_profile_view [OF 3] r1 by (simp_all add: calm_def)
  have "p5 = on_pe epsilon_decay p4" using ipc_report_budget [OF ok4(1) _ 5] s ok4(2) 4 by simp
  then have "calm p4 p5" using 4 by (simp add: calm_def epsilon_decay_def)
  moreover have "calm p5 p6" using mem_report_calm [OF 6] calculation by (simp add: calm_def)
  ultimately show ?thesis using decay_report_shrinks [OF 8] power_report_view [OF 7] 4
    by (auto simp: shrinks_def calm_def)
qed

section \<open>An engine with no tracked process\<close>

definition quiet :: "policy_engine \<Rightarrow> bool" where
  "quiet e \<longleftrightarrow> (\<forall>s \<in> set (stats e). \<not> cs_active s) \<and> (\<forall>x \<in> set (ipc_table e). \<not> ie_active x) \<and>
     (\<forall>x \<in> set (mem_table e). \<not> me_active x) \<and> switches_this_window e < SWITCH_SAMPLE_MIN"

definition no_msr :: msr_env where
  "no_msr = \<lparr>aperf_1 = 0, mperf_1 = 0, aperf_2 = 0, mperf_2 = 0\<rparr>"

lemma mfold_id: "(\<And>x. x \<in> set xs \<Longrightarrow> f x s = Some s) \<Longrightarrow> mfold f xs s = Some s"
  by (induction xs) auto

lemma quiet_stages:
  assumes q: "quiet (pe p)" and ok: "policy_ok (pe p)"
  shows "cpu_report tick w p = Some (p, \<lparr>max_pct = 0, cnt_high = 0, cnt_low = 0, busy_ticks = 0\<rparr>)"
    and "mem_report p = Some p" and "decay_report tick p = Some p" and "ranked_from i (ipc_table (pe p)) = Some []"
proof -
  have l: "length (stats (pe p)) = MAX_PROCS" "length (mem_table (pe p)) = MAX_MEM_ENTRIES"
    "length (ipc_table (pe p)) = MAX_IPC_PAIRS" using ok by (simp_all add: policy_ok_def)
  show "cpu_report tick w p = Some (p, \<lparr>max_pct = 0, cnt_high = 0, cnt_low = 0, busy_ticks = 0\<rparr>)"
    unfolding cpu_report_def using q l by (intro mfold_id) (simp add: cpu_one_def quiet_def)
  show "mem_report p = Some p"
    unfolding mem_report_def using q l by (intro mfold_id) (simp add: mem_one_def quiet_def)
  show "decay_report tick p = Some p"
    unfolding decay_report_def using q l by (intro mfold_id) (simp add: decay_one_def quiet_def)
  have "\<forall>x \<in> set xs. \<not> ie_active x \<Longrightarrow> ranked_from i xs = Some []" for xs
    by (induction xs arbitrary: i) auto
  then show "ranked_from i (ipc_table (pe p)) = Some []" using q by (simp add: quiet_def)
qed

lemma chk_total:
  "unat a + unat b < 2 ^ 64 \<Longrightarrow> \<exists>c. add_chk a b = Some (c :: u64)" "unat a * unat b < 2 ^ 64 \<Longrightarrow> \<exists>c. mul_chk a b = Some (c :: u64)"
  by (simp_all add: add_chk_def mul_chk_def)

lemma ema_x10_total:
  assumes "unat x \<le> 100" and "unat m \<le> 1000"
  shows "\<exists>y. ema_x10 x m = Some y"
proof -
  obtain a where a: "mul_chk 3 x = Some a" using chk_total(2) [of 3 x] assms by auto
  obtain b where b: "mul_chk a 10 = Some b" using chk_total(2) [of a 10] assms unat_chk(3) [OF a] by auto
  obtain c where c: "mul_chk 7 m = Some c" using chk_total(2) [of 7 m] assms by auto
  obtain d where "add_chk b c = Some d"
    using chk_total(1) [of b c] assms unat_chk(3) [OF a] unat_chk(3) [OF b] unat_chk(3) [OF c] by auto
  with a b c show ?thesis by (simp add: ema_x10_def)
qed

lemma power_report_total:
  assumes ok: "policy_ok e"
  shows "\<exists>e'. power_report no_msr 0 e = Some e'"
proof -
  have "report_interval_level e \<in> {0, 1, 2, 3}" "report_interval e = REPORT_INTERVAL_LEVELS ! report_interval_level e"
    using ok by (auto simp: policy_ok_def REPORT_INTERVAL_LEVELS_def)
  then have r: "report_interval e \<in> {8, 18, 36, 72}" by (auto simp: REPORT_INTERVAL_LEVELS_def)
  have idle: "unat (idle_pct_ema (power e)) \<le> 1000" using ok by (simp add: policy_ok_def word_le_nat_alt)
  from r obtain x where x: "mul_chk (sat_sub (max (report_interval e) 1) 0) 100 = Some x" "unat (x div max (report_interval e) 1) \<le> 100"
    by (auto simp: mul_chk_def sat_sub_def max_def word_le_nat_alt unat_div)
  obtain m where "ema_x10 (x div max (report_interval e) 1) (idle_pct_ema (power e)) = Some m"
    using ema_x10_total [OF x(2), of "idle_pct_ema (power e)"] idle by blast
  moreover have "freq_util_pct no_msr a b = Some 0" for a b
    by (simp add: freq_util_pct_def no_msr_def sat_sub_def Let_def)
  ultimately show ?thesis using x(1) by (simp add: power_report_def Let_def)
qed

lemma quiet_adapt:
  assumes ok: "psys_ok p" and q: "quiet (pe p)"
  shows "\<exists>p'. adapt_and_report no_msr tick p = Some p'"
proof -
  have po: "policy_ok (pe p)" using ok by (simp add: psys_ok_def)
  have "switches_this_window (begin_window tick (pe p)) < SWITCH_SAMPLE_MIN" using q by (simp add: quiet_def begin_window_def)
  then obtain e1 where e1: "tune_interval (POLICY_ENABLED p) (max (report_interval (pe p)) 1) (begin_window tick (pe p)) = Some e1"
    and q1: "quiet e1"
    using q by (cases "POLICY_ENABLED p") (auto simp: tune_interval_def Let_def quiet_def begin_window_def SWITCH_SAMPLE_MIN_def)
  have p1: "policy_ok e1" by (rule tune_interval_ok [OF begin_window_ok [OF po] e1])
  obtain e3 where e3: "tune_profile (POLICY_ENABLED p) \<lparr>max_pct = 0, cnt_high = 0, cnt_low = 0, busy_ticks = 0\<rparr> e1 = Some e3"
    and q3: "quiet e3"
    using q1 by (cases "POLICY_ENABLED p") (auto simp: tune_profile_def add_chk_def WORKLOAD_PROFILE_SAMPLE_MIN_def quiet_def)
  have p3: "policy_ok e3" by (rule tune_profile_ok [OF p1 e3])
  then obtain ts where ts: "tune_slice 0 (p\<lparr>pe := e3\<rparr>) = Some (p\<lparr>pe := e3, TIME_SLICE := ts\<rparr>)"
    by (auto simp: tune_slice_def policy_ok_def Let_def split_beta)
  let ?p5 = "p\<lparr>pe := epsilon_decay e3, TIME_SLICE := ts\<rparr>"
  have q5: "quiet (epsilon_decay e3)" using q3 by (simp add: epsilon_decay_def quiet_def)
  have p5: "policy_ok (epsilon_decay e3)" by (rule epsilon_decay_ok [OF p3])
  have i: "ipc_report tick (p\<lparr>pe := e3, TIME_SLICE := ts\<rparr>) = Some ?p5"
    using quiet_stages(4) [of "p\<lparr>pe := e3\<rparr>" 0] q3 p3 by (simp add: ipc_report_def)
  obtain e7 where e7: "power_report no_msr 0 (epsilon_decay e3) = Some e7" using power_report_total [OF p5] by blast
  have q7: "quiet e7" "policy_ok e7"
    using power_report_view [OF e7] q5 power_report_ok [OF p5 e7] by (auto simp: quiet_def)
  have "report_interval (begin_window tick (pe p)) = report_interval (pe p)" by (simp add: begin_window_def)
  then show ?thesis
    using e1 e3 ts i e7 quiet_stages(1) [of "p\<lparr>pe := e1\<rparr>"] quiet_stages(2) [of ?p5] quiet_stages(3) [of "?p5\<lparr>pe := e7\<rparr>"] q1 p1 q5 p5 q7
    by (simp add: adapt_and_report_def)
qed

definition demo_idle :: "nat scheduler" where
  "demo_idle = (demo_sched Cfs)\<lparr>policy_calls := []\<rparr>"

lemma demo_idle_ok: "sched_ok demo_idle"
  using demo_sched_ok [of Cfs] by (simp add: demo_idle_def sched_ok_def sched_wf_def running_only_def)

definition demo_psys :: "bool \<Rightarrow> nat psys" where
  "demo_psys b = \<lparr>pk = demo_kern\<lparr>sched := demo_idle\<rparr>, pe = policy_new\<lparr>evicts := ((0, 1, 90) # replicate 7 (0, 0, 0), 1)\<rparr>, TIME_SLICE = 1,
     POLICY_ENABLED = b, AFFINITY = []\<rparr>"

lemma demo_psys_ok: "psys_ok (demo_psys b)" "quiet (pe (demo_psys b))" "slots (demo_psys b) = 0"
proof -
  have "evict_ok ((0, 1, 90) # replicate 7 (0, 0, 0), 1)" by (simp add: evict_ok_def MAX_EVICT_PAIRS_def)
  then have "policy_ok (policy_new\<lparr>evicts := ((0, 1, 90) # replicate 7 (0, 0, 0), 1)\<rparr>)"
    using policy_new_ok by (simp add: policy_ok_def)
  then show "psys_ok (demo_psys b)"
    using channels_ok_sched [OF demo_kern_ok] demo_idle_ok by (simp add: psys_ok_def demo_psys_def word_le_nat_alt)
  show "quiet (pe (demo_psys b))"
    by (simp add: quiet_def demo_psys_def policy_new_def cpu_stats_empty_def ipc_entry_empty_def mem_entry_empty_def
        SWITCH_SAMPLE_MIN_def)
  show "slots (demo_psys b) = 0" by (simp add: slots_def demo_psys_def demo_kern_def demo_vm_def)
qed

section \<open>Properties\<close>

text \<open>C23: A report window creates at most two fast channels, creates none while the engine is switched
  off, and never recreates one that was reclaimed less than the cool-down ago.\<close>

theorem report_channel_budget:
  assumes "psys_ok p" and "slots p + 3 \<le> 2 ^ 27" and "adapt_and_report env tick p = Some p'"
  shows "channel_count (pk p') \<le> channel_count (pk p) + 2 \<and>
    (\<forall>f t. get_channel f t (pk p') \<noteq> None \<and> get_channel f t (pk p) = None \<longrightarrow>
      \<not> in_evict_cooldown (evicts (pe p)) f t tick \<and> POLICY_ENABLED p)"
  by (rule adapt_channels [OF assms])

theorem report_channel_budget_witness:
  "\<exists>p'. adapt_and_report no_msr 40 (demo_psys True) = Some p' \<and> get_channel 0 1 (pk p') = None \<and> channel_count (pk p') \<le> 2"
proof -
  obtain p' where a: "adapt_and_report no_msr 40 (demo_psys True) = Some p'"
    using quiet_adapt [OF demo_psys_ok(1,2)] by blast
  have "in_evict_cooldown (evicts (pe (demo_psys True))) 0 1 40" "get_channel 0 1 (pk (demo_psys True)) = None"
    "channel_count (pk (demo_psys True)) = 0"
    by (simp_all add: demo_psys_def in_evict_cooldown_def demo_kern_def get_channel_def channel_count_def)
  with report_channel_budget [OF demo_psys_ok(1) _ a]
  have "\<not> get_channel 0 1 (pk p') \<noteq> None" "channel_count (pk p') \<le> 2"
    unfolding demo_psys_ok(3) by (fastforce, simp)
  then show ?thesis using a by auto
qed

text \<open>With the engine switched off, a report sets the time slice and the report interval back to their
  baselines and leaves the priority of every process as it was.\<close>

theorem disabled_engine_is_baseline:
  assumes "psys_ok p" and "slots p + 3 \<le> 2 ^ 27" and "\<not> POLICY_ENABLED p" and "adapt_and_report env tick p = Some p'"
  shows "TIME_SLICE p' = BASELINE_TIME_SLICE \<and> report_interval (pe p') = REPORT_INTERVAL_BASELINE \<and>
    get_priority q (sched (pk p')) = get_priority q (sched (pk p))"
  by (rule adapt_disabled [OF assms])

theorem disabled_engine_is_baseline_witness:
  "\<exists>p'. adapt_and_report no_msr 40 (demo_psys False) = Some p' \<and> TIME_SLICE (demo_psys False) = 1 \<and> TIME_SLICE p' = 3"
proof -
  obtain p' where a: "adapt_and_report no_msr 40 (demo_psys False) = Some p'"
    using quiet_adapt [OF demo_psys_ok(1,2)] by blast
  have "\<not> POLICY_ENABLED (demo_psys False)" "TIME_SLICE (demo_psys False) = 1" by (simp_all add: demo_psys_def)
  with a disabled_engine_is_baseline [OF demo_psys_ok(1) _ _ a] show ?thesis
    by (auto simp: demo_psys_ok(3) BASELINE_TIME_SLICE_def)
qed

text \<open>C11: A context switch, with the report it may trigger, keeps the joint invariant of the engine, the
  scheduler and the channels: among others the time slice stays between 1 and 4, every table keeps its
  size, every smoothed value its range, and it uses at most three new channel windows.\<close>

theorem preempt_keeps_system:
  assumes "psys_ok p" and "slots p + 3 \<le> 2 ^ 27" and "preempt env menv rsp v p = Some (p', r)"
  shows "psys_ok p' \<and> slots p' \<le> slots p + 3"
  by (rule preempt_ok [OF assms])

lemma switch_to_next_calls: "switch_to_next env rsp v s = Some (s', r) \<Longrightarrow> policy_calls s' = policy_calls s"
  unfolding switch_to_next_def switch_to_next_cfs_def Let_def
  by (auto simp: dispatch_def keep_running_def Let_def split: if_splits option.splits)

lemma do_preempt_calls:
  "do_preempt env rsp v s = Some (s', x, f, t, tick) \<Longrightarrow> policy_calls s' = policy_calls s \<and> tick = env_tick env"
  by (auto simp: do_preempt_def bind_eq_Some_conv Let_def dest: switch_to_next_calls)

lemma quiet_switch:
  assumes "psys_ok p" and q: "quiet (pe p)" and "switches_this_window (pe p) = 0"
    and "last_report_tick (pe p) = 0" and "report_interval (pe p) = 36"
  shows "\<exists>p'. on_switch no_msr f t tick p = Some p'"
proof -
  let ?e = "(pe p)\<lparr>total_ticks := tick, switches_this_window := 1\<rparr>"
  have "find_slot g ?e = None" for g using q by (auto simp: find_slot_def quiet_def)
  then have a: "account_switch f t tick (pe p) = Some ?e"
    using assms(3) by (simp add: account_switch_def account_out_def account_in_def add_chk_def)
  have "quiet (?e\<lparr>last_report_tick := tick\<rparr>)" using q by (simp add: quiet_def SWITCH_SAMPLE_MIN_def word_less_nat_alt)
  moreover have "psys_ok (p\<lparr>pe := ?e\<lparr>last_report_tick := tick\<rparr>\<rparr>)"
    using assms(1) by (simp add: psys_ok_def policy_ok_def)
  ultimately obtain p' where "adapt_and_report no_msr tick (p\<lparr>pe := ?e\<lparr>last_report_tick := tick\<rparr>\<rparr>) = Some p'"
    using quiet_adapt [of "p\<lparr>pe := ?e\<lparr>last_report_tick := tick\<rparr>\<rparr>" tick] by auto
  with a assms(4,5) show ?thesis by (auto simp: on_switch_def add_chk_def Let_def)
qed

theorem preempt_keeps_system_witness:
  "\<exists>p' r. preempt (demo_env\<lparr>env_tick := 40\<rparr>) no_msr 5 True (demo_psys True) = Some (p', r) \<and> psys_ok p'"
proof -
  let ?s = demo_idle
  have pk: "sched (pk (demo_psys True)) = ?s" by (simp add: demo_psys_def)
  obtain s' x f t where d: "do_preempt (demo_env\<lparr>env_tick := 40\<rparr>) 5 True ?s = Some (s', x, f, t, 40)"
    and c: "policy_calls s' = []"
  proof -
    obtain s' x f t tick where "do_preempt (demo_env\<lparr>env_tick := 40\<rparr>) 5 True ?s = Some (s', x, f, t, tick)"
      using do_preempt_total [OF demo_idle_ok refl, of "demo_env\<lparr>env_tick := 40\<rparr>" 5 True]
      by (auto simp: demo_idle_def demo_sched_simps demo_a_def new_kernel_main_def demo_env_def)
    with do_preempt_calls [OF this] that show thesis by (simp add: demo_idle_def)
  qed
  let ?p = "flush_calls (on_sched (\<lambda>_. s') (demo_psys True))"
  have pe: "pe ?p = pe (demo_psys True)" using c by (simp add: flush_calls_def)
  have "sched_ok s'" using do_preempt_ok [OF demo_idle_ok d] by simp
  then have "psys_ok (on_sched (\<lambda>_. s') (demo_psys True))"
    using demo_psys_ok(1) [of True] by (simp add: psys_ok_def channels_ok_sched)
  then have ok: "psys_ok ?p" using flush_calls_ok by blast
  obtain p' where "on_switch no_msr f t 40 ?p = Some p'"
    using quiet_switch [OF ok, of f t 40] demo_psys_ok(2) [of True] unfolding pe
    by (auto simp: demo_psys_def policy_new_def)
  then have r: "preempt (demo_env\<lparr>env_tick := 40\<rparr>) no_msr 5 True (demo_psys True) = Some (p', x)"
    using d by (simp add: preempt_def pk)
  from preempt_keeps_system [OF demo_psys_ok(1) _ this] r show ?thesis by (auto simp: demo_psys_ok(3))
qed

end
