(* ===== verification/Ring.thy ===== *)
theory Ring
  imports Kernel_Prelude
begin

text \<open>
  Ring buffers. The kernel has the same single-producer, single-consumer ring three times: the keyboard
  buffer (\<open>kbd.rs\<close>), the input event ring (\<open>input_direct.rs\<close>) and the pipe (\<open>syscall/pipe.rs\<close>). A ring over
  an array of \<open>n\<close> slots holds at most \<open>n - 1\<close> elements; equal indices mean empty.

  The locale \<open>bounded_queue\<close> is what the clients rely on, its lemmas describe the loops that fill and
  drain a queue, and that any sequence of operations behaves as on a bounded list. The interpretation
  \<open>ring\<close> discharges the laws for the array implementation.
\<close>

section \<open>The array implementation\<close>

record 'a ring =
  rbuf :: "'a list"
  rhead :: nat
  rtail :: nat

definition ring_new :: "nat \<Rightarrow> 'a \<Rightarrow> 'a ring" where
  "ring_new cap x = \<lparr>rbuf = replicate cap x, rhead = 0, rtail = 0\<rparr>"

text \<open>\<open>None\<close>: the ring is full and the element is dropped.\<close>

definition ring_push :: "'a \<Rightarrow> 'a ring \<Rightarrow> 'a ring option" where
  "ring_push x r =
     (let tail = rtail r; next = (tail + 1) mod length (rbuf r) in
      if next = rhead r then None
      else Some (r\<lparr>rbuf := (rbuf r)[tail := x], rtail := next\<rparr>))"

definition ring_pop :: "'a ring \<Rightarrow> ('a \<times> 'a ring) option" where
  "ring_pop r =
     (let head = rhead r in
      if head = rtail r then None
      else Some (rbuf r ! head, r\<lparr>rhead := (head + 1) mod length (rbuf r)\<rparr>))"

definition ring_has :: "'a ring \<Rightarrow> bool" where
  "ring_has r \<longleftrightarrow> rhead r \<noteq> rtail r"

text \<open>The loops over a queue: push until the queue is full, pop until it is empty or enough was read.\<close>

fun push_all :: "('a \<Rightarrow> 'q \<Rightarrow> 'q option) \<Rightarrow> 'a list \<Rightarrow> 'q \<Rightarrow> 'q \<times> nat" where
  "push_all push [] q = (q, 0)"
| "push_all push (x # xs) q =
     (case push x q of
        None \<Rightarrow> (q, 0)
      | Some q \<Rightarrow> (let (q, n) = push_all push xs q in (q, n + 1)))"

fun pop_upto :: "('q \<Rightarrow> ('a \<times> 'q) option) \<Rightarrow> nat \<Rightarrow> 'q \<Rightarrow> 'a list \<times> 'q" where
  "pop_upto pop 0 q = ([], q)"
| "pop_upto pop (Suc n) q =
     (case pop q of
        None \<Rightarrow> ([], q)
      | Some (x, q) \<Rightarrow> (let (xs, q) = pop_upto pop n q in (x # xs, q)))"

section \<open>Bounded queues\<close>

text \<open>The abstract queue: a list of at most \<open>cap\<close> elements.\<close>

definition list_push :: "nat \<Rightarrow> 'a \<Rightarrow> 'a list \<Rightarrow> 'a list option" where
  "list_push cap x xs = (if length xs < cap then Some (xs @ [x]) else None)"

fun list_pop :: "'a list \<Rightarrow> ('a \<times> 'a list) option" where
  "list_pop [] = None"
| "list_pop (x # xs) = Some (x, xs)"

datatype 'a qop = Push 'a | Pop

datatype 'a qres = Pushed bool | Popped "'a option"

text \<open>A client that issues operations in any order and records every answer.\<close>

fun run_queue :: "('a \<Rightarrow> 'q \<Rightarrow> 'q option) \<Rightarrow> ('q \<Rightarrow> ('a \<times> 'q) option) \<Rightarrow> 'a qop list \<Rightarrow> 'q \<Rightarrow> 'a qres list \<times> 'q" where
  "run_queue push pop [] q = ([], q)"
| "run_queue push pop (Push x # ops) q =
     (case push x q of
        None \<Rightarrow> (let (rs, q) = run_queue push pop ops q in (Pushed False # rs, q))
      | Some q \<Rightarrow> (let (rs, q) = run_queue push pop ops q in (Pushed True # rs, q)))"
| "run_queue push pop (Pop # ops) q =
     (case pop q of
        None \<Rightarrow> (let (rs, q) = run_queue push pop ops q in (Popped None # rs, q))
      | Some (x, q) \<Rightarrow> (let (rs, q) = run_queue push pop ops q in (Popped (Some x) # rs, q)))"

locale bounded_queue =
  fixes push :: "'a \<Rightarrow> 'q \<Rightarrow> 'q option"
    and pop :: "'q \<Rightarrow> ('a \<times> 'q) option"
    and contents :: "'q \<Rightarrow> 'a list"
    and ok :: "'q \<Rightarrow> bool"
    and cap :: nat
  assumes push_law: "ok q \<Longrightarrow> map_option contents (push x q) = list_push cap x (contents q)"
    and push_ok: "ok q \<Longrightarrow> push x q = Some q' \<Longrightarrow> ok q'"
    and pop_law: "ok q \<Longrightarrow> map_option (apsnd contents) (pop q) = list_pop (contents q)"
    and pop_ok: "ok q \<Longrightarrow> pop q = Some (x, q') \<Longrightarrow> ok q'"
begin

lemma push_None_iff: "ok q \<Longrightarrow> push x q = None \<longleftrightarrow> cap \<le> length (contents q)"
  using push_law [of q x] by (auto simp: list_push_def split: if_splits)

lemma push_SomeD: "ok q \<Longrightarrow> push x q = Some q' \<Longrightarrow> contents q' = contents q @ [x] \<and> ok q' \<and> length (contents q) < cap"
  using push_law [of q x] push_ok [of q x q'] by (auto simp: list_push_def split: if_splits)

lemma pop_None_iff: "ok q \<Longrightarrow> pop q = None \<longleftrightarrow> contents q = []"
  using pop_law [of q] by (cases "contents q") auto

lemma pop_SomeD: "ok q \<Longrightarrow> pop q = Some (x, q') \<Longrightarrow> contents q = x # contents q' \<and> ok q'"
  using pop_law [of q] pop_ok [of q x q'] by (cases "contents q") auto

lemma push_all_spec:
  assumes "ok q" and "push_all push xs q = (q', n)" and "length (contents q) \<le> cap"
  shows "ok q' \<and> n = min (length xs) (cap - length (contents q)) \<and> contents q' = contents q @ take n xs"
  using assms
proof (induction xs arbitrary: q n)
  case Nil
  then show ?case by simp
next
  case (Cons x xs)
  show ?case
  proof (cases "push x q")
    case None
    then show ?thesis using Cons.prems push_None_iff [of q x] by simp
  next
    case (Some q1)
    note q1 = push_SomeD [OF Cons.prems(1) Some]
    obtain m where m: "push_all push xs q1 = (q', m)" and n: "n = Suc m"
      using Cons.prems(2) Some by (cases "push_all push xs q1") auto
    from Cons.IH [OF _ m] q1 show ?thesis by (auto simp: n)
  qed
qed

lemma pop_upto_spec:
  "ok q \<Longrightarrow> pop_upto pop n q = (xs, q') \<Longrightarrow> ok q' \<and> xs = take n (contents q) \<and> contents q' = drop n (contents q)"
proof (induction n arbitrary: q xs)
  case 0
  then show ?case by simp
next
  case (Suc n)
  show ?case
  proof (cases "pop q")
    case None
    then show ?thesis using Suc.prems pop_None_iff [of q] by simp
  next
    case (Some y)
    obtain x q1 where y: "y = (x, q1)" by (cases y)
    note q1 = pop_SomeD [OF Suc.prems(1) Some [unfolded y]]
    obtain zs where z: "pop_upto pop n q1 = (zs, q')" and xs: "xs = x # zs"
      using Suc.prems(2) Some y by (cases "pop_upto pop n q1") auto
    from Suc.IH [OF _ z] q1 show ?thesis by (simp add: xs)
  qed
qed

lemma run_refines:
  "ok q \<Longrightarrow> run_queue push pop ops q = (rs, q') \<Longrightarrow>
    ok q' \<and> run_queue (list_push cap) list_pop ops (contents q) = (rs, contents q')"
proof (induction ops arbitrary: q rs)
  case Nil
  then show ?case by simp
next
  case (Cons op ops)
  show ?case
  proof (cases op)
    case (Push x)
    show ?thesis
    proof (cases "push x q")
      case None
      then have "list_push cap x (contents q) = None" using push_law [OF Cons.prems(1), of x] by simp
      then show ?thesis using Cons.prems Cons.IH [of q] None Push
        by (cases "run_queue push pop ops q") auto
    next
      case (Some q1)
      then have "list_push cap x (contents q) = Some (contents q1)" using push_law [OF Cons.prems(1), of x] by simp
      then show ?thesis using Cons.prems Cons.IH [of q1] Some Push push_ok [OF Cons.prems(1) Some]
        by (cases "run_queue push pop ops q1") auto
    qed
  next
    case Pop
    show ?thesis
    proof (cases "pop q")
      case None
      then have "list_pop (contents q) = None" using pop_law [OF Cons.prems(1)] by simp
      then show ?thesis using Cons.prems Cons.IH [of q] None Pop
        by (cases "run_queue push pop ops q") auto
    next
      case (Some y)
      obtain x q1 where y: "pop q = Some (x, q1)" using Some by (cases y) auto
      then have "list_pop (contents q) = Some (x, contents q1)" using pop_law [OF Cons.prems(1)] by simp
      then show ?thesis using Cons.prems Cons.IH [of q1] y Pop pop_ok [OF Cons.prems(1) y]
        by (cases "run_queue push pop ops q1") auto
    qed
  qed
qed

end

section \<open>The laws for the ring\<close>

lemma mod_wrap: "m < 2 * n \<Longrightarrow> m mod n = (if m < n then m else m - n)" for m n :: nat
  by (simp add: le_mod_geq)

definition ring_ok :: "nat \<Rightarrow> 'a ring \<Rightarrow> bool" where
  "ring_ok n r \<longleftrightarrow> length (rbuf r) = n \<and> rhead r < n \<and> rtail r < n"

definition ring_len :: "'a ring \<Rightarrow> nat" where
  "ring_len r = (rtail r + length (rbuf r) - rhead r) mod length (rbuf r)"

definition ring_contents :: "'a ring \<Rightarrow> 'a list" where
  "ring_contents r = map (\<lambda>i. rbuf r ! ((rhead r + i) mod length (rbuf r))) [0..<ring_len r]"

lemma ring_new_ok: "0 < n \<Longrightarrow> ring_ok n (ring_new n x) \<and> ring_contents (ring_new n x) = []"
  by (simp add: ring_ok_def ring_new_def ring_contents_def ring_len_def)

lemma ring_len_less: "ring_ok n r \<Longrightarrow> ring_len r < n"
  by (simp add: ring_ok_def ring_len_def)

lemma length_ring_contents [simp]: "length (ring_contents r) = ring_len r"
  by (simp add: ring_contents_def)

lemma ring_tail:
  assumes "ring_ok n r"
  shows "(rhead r + ring_len r) mod n = rtail r" and "ring_len r = 0 \<longleftrightarrow> rhead r = rtail r"
    and "(rtail r + 1) mod n = rhead r \<longleftrightarrow> Suc (ring_len r) = n"
proof -
  have b: "rhead r < n" "rtail r < n" "length (rbuf r) = n" using assms by (simp_all add: ring_ok_def)
  have l: "ring_len r = (if rhead r \<le> rtail r then rtail r - rhead r else rtail r + n - rhead r)"
    using b mod_wrap [of "rtail r + n - rhead r" n] by (auto simp: ring_len_def)
  show "(rhead r + ring_len r) mod n = rtail r" using b mod_wrap [of "rhead r + ring_len r" n] by (auto simp: l)
  show "ring_len r = 0 \<longleftrightarrow> rhead r = rtail r" using b by (auto simp: l)
  show "(rtail r + 1) mod n = rhead r \<longleftrightarrow> Suc (ring_len r) = n"
    using b mod_wrap [of "rtail r + 1" n] by (auto simp: l)
qed

lemma ring_push_None: "ring_ok n r \<Longrightarrow> ring_push x r = None \<longleftrightarrow> Suc (ring_len r) = n"
  using ring_tail(3) [of n r] by (simp add: ring_push_def Let_def ring_ok_def)

lemma ring_push_Some:
  assumes ok: "ring_ok n r" and p: "ring_push x r = Some r'"
  shows "ring_ok n r' \<and> ring_contents r' = ring_contents r @ [x]"
proof -
  have b: "rhead r < n" "rtail r < n" "length (rbuf r) = n" using ok by (simp_all add: ring_ok_def)
  have r': "r' = r\<lparr>rbuf := (rbuf r)[rtail r := x], rtail := (rtail r + 1) mod n\<rparr>"
    and full: "Suc (ring_len r) \<noteq> n"
    using p ring_push_None [OF ok, of x] b by (auto simp: ring_push_def Let_def split: if_splits)
  have ok': "ring_ok n r'" using b by (simp add: r' ring_ok_def)
  have lt: "Suc (ring_len r) < n" using ring_len_less [OF ok] full by simp
  have idx: "(rhead r + i) mod n = (rhead r + j) mod n \<longleftrightarrow> i = j" if "i < n" "j < n" for i j
    using that b mod_wrap [of "rhead r + i" n] mod_wrap [of "rhead r + j" n] by (auto split: if_splits)
  have len: "ring_len r' = Suc (ring_len r)"
  proof -
    have "(rhead r + ring_len r') mod n = Suc (rtail r) mod n" using ring_tail(1) [OF ok'] by (simp add: r')
    also have "\<dots> = Suc (rhead r + ring_len r) mod n" using ring_tail(1) [OF ok] mod_Suc_eq by metis
    finally have "(rhead r + ring_len r') mod n = (rhead r + Suc (ring_len r)) mod n" by simp
    then show ?thesis using idx ring_len_less [OF ok'] lt by blast
  qed
  have t: "rtail r = (rhead r + ring_len r) mod n" using ring_tail(1) [OF ok] by simp
  show ?thesis
  proof (rule conjI [OF ok'], rule nth_equalityI)
    show "length (ring_contents r') = length (ring_contents r @ [x])" by (simp add: len)
  next
    fix i assume "i < length (ring_contents r')"
    then have i: "i < Suc (ring_len r)" by (simp add: len)
    have n: "(rhead r + i) mod n < length (rbuf r)" using b by simp
    have "ring_contents r' ! i = (rbuf r)[rtail r := x] ! ((rhead r + i) mod n)"
      using i b len by (simp add: ring_contents_def r' del: upt_Suc)
    also have "\<dots> = (if i = ring_len r then x else rbuf r ! ((rhead r + i) mod n))"
      using n idx [of "ring_len r" i] i lt by (auto simp: nth_upd_ite t)
    also have "\<dots> = (ring_contents r @ [x]) ! i"
      using i b by (auto simp: nth_append ring_contents_def)
    finally show "ring_contents r' ! i = (ring_contents r @ [x]) ! i" .
  qed
qed

lemma ring_pop_Some:
  assumes ok: "ring_ok n r" and p: "ring_pop r = Some (x, r')"
  shows "ring_ok n r' \<and> ring_contents r = x # ring_contents r'"
proof -
  have b: "rhead r < n" "rtail r < n" "length (rbuf r) = n" using ok by (simp_all add: ring_ok_def)
  have r': "r' = r\<lparr>rhead := (rhead r + 1) mod n\<rparr>" and x: "x = rbuf r ! rhead r" and ne: "rhead r \<noteq> rtail r"
    using p b by (auto simp: ring_pop_def Let_def split: if_splits)
  have ok': "ring_ok n r'" using b by (simp add: r' ring_ok_def)
  have l: "ring_len r = (if rhead r \<le> rtail r then rtail r - rhead r else rtail r + n - rhead r)"
    using b mod_wrap [of "rtail r + n - rhead r" n] by (auto simp: ring_len_def)
  have len: "ring_len r = Suc (ring_len r')"
  proof (cases "rhead r + 1 = n")
    case True
    then have "(rhead r + 1) mod n = 0" by simp
    then have "ring_len r' = rtail r" using b by (simp add: r' ring_len_def)
    then show ?thesis using b ne True by (auto simp: l)
  next
    case False
    then have h: "(rhead r + 1) mod n = rhead r + 1" using b by simp
    have "ring_len r' = (rtail r + n - (rhead r + 1)) mod n" using b h by (simp add: r' ring_len_def)
    then show ?thesis using b ne mod_wrap [of "rtail r + n - (rhead r + 1)" n] by (auto simp: l)
  qed
  have "ring_contents r = map (\<lambda>i. rbuf r ! ((rhead r + i) mod n)) (0 # map Suc [0..<ring_len r'])"
    using b by (simp add: ring_contents_def len map_Suc_upt upt_conv_Cons del: upt_Suc)
  also have "\<dots> = x # ring_contents r'"
    using b by (simp add: x ring_contents_def r' comp_def mod_add_left_eq)
  finally show ?thesis using ok' by simp
qed

interpretation ring: bounded_queue ring_push ring_pop ring_contents "ring_ok (Suc n)" n for n
proof unfold_locales
  fix q :: "'a ring" and x
  assume ok: "ring_ok (Suc n) q"
  show "map_option ring_contents (ring_push x q) = list_push n x (ring_contents q)"
  proof (cases "ring_push x q")
    case None
    then show ?thesis using ring_push_None [OF ok, of x] by (simp add: list_push_def)
  next
    case (Some q')
    then have "ring_len q < n" using ring_push_None [OF ok, of x] ring_len_less [OF ok] by simp
    then show ?thesis using Some ring_push_Some [OF ok Some] by (simp add: list_push_def)
  qed
next
  fix q :: "'a ring" and x q'
  assume "ring_ok (Suc n) q" and "ring_push x q = Some q'"
  then show "ring_ok (Suc n) q'" by (rule conjunct1 [OF ring_push_Some])
next
  fix q :: "'a ring"
  assume ok: "ring_ok (Suc n) q"
  show "map_option (apsnd ring_contents) (ring_pop q) = list_pop (ring_contents q)"
  proof (cases "ring_pop q")
    case None
    then have "ring_contents q = []" using ring_tail(2) [OF ok] by (simp add: ring_pop_def Let_def ring_contents_def split: if_splits)
    with None show ?thesis by simp
  next
    case (Some y)
    obtain x r where y: "y = (x, r)" by (cases y)
    have "ring_contents q = x # ring_contents r" using ring_pop_Some [OF ok Some [unfolded y]] by simp
    then show ?thesis by (simp add: Some y)
  qed
next
  fix q :: "'a ring" and x q'
  assume "ring_ok (Suc n) q" and "ring_pop q = Some (x, q')"
  then show "ring_ok (Suc n) q'" by (rule conjunct1 [OF ring_pop_Some])
qed

lemma ring_has_iff: "ring_ok (Suc n) r \<Longrightarrow> ring_has r \<longleftrightarrow> ring_contents r \<noteq> []"
  using ring_tail(2) [of "Suc n" r] by (simp add: ring_has_def ring_contents_def)

end
