(* ===== verification/Input.thy ===== *)
theory Input
  imports Ring
begin

text \<open>
  Keyboard input (\<open>kbd.rs\<close>) and the event ring that feeds the foreground application
  (\<open>input_direct.rs\<close>). The interrupt handler translates a scan code with the Shift and Caps Lock state
  and pushes the character into the keyboard ring and, packed into a word, into the event ring.

  The tables are the association lists of the source's assignments over a zeroed array.
\<close>

section \<open>State\<close>

definition BUF_CAP :: nat where "BUF_CAP = 64"
definition EVT_CAP :: nat where "EVT_CAP = 64"
definition EVT_KEY :: u64 where "EVT_KEY = 0"
definition EVT_MOUSE_MOVE :: u64 where "EVT_MOUSE_MOVE = 1"
definition EVT_MOUSE_CLICK :: u64 where "EVT_MOUSE_CLICK = 2"

record input =
  KBD :: "u8 ring"
  SHIFT :: bool
  CAPS :: bool
  RING :: "u64 ring"
  FOREGROUND_PID :: pid

definition input_init :: input where
  "input_init = \<lparr>KBD = ring_new BUF_CAP 0, SHIFT = False, CAPS = False, RING = ring_new EVT_CAP 0, FOREGROUND_PID = 0\<rparr>"

definition scan_table :: "(nat \<times> u8) list \<Rightarrow> u8 list" where
  "scan_table = foldl (\<lambda>t (i, c). t[i := c]) (replicate 128 0)"

definition LOWER :: "u8 list" where
  "LOWER = scan_table [
     (1, 27), (2, 49), (3, 50), (4, 51), (5, 52), (6, 53), (7, 54), (8, 55), (9, 56), (10, 57),
     (11, 48), (12, 45), (13, 61), (14, 8), (15, 9), (16, 113), (17, 119), (18, 101), (19, 114), (20, 116),
     (21, 121), (22, 117), (23, 105), (24, 111), (25, 112), (26, 91), (27, 93), (28, 10), (30, 97), (31, 115),
     (32, 100), (33, 102), (34, 103), (35, 104), (36, 106), (37, 107), (38, 108), (39, 59), (40, 39), (41, 96),
     (43, 92), (44, 122), (45, 120), (46, 99), (47, 118), (48, 98), (49, 110), (50, 109), (51, 44), (52, 46),
     (53, 47), (57, 32), (55, 42)]"

definition UPPER :: "u8 list" where
  "UPPER = scan_table [
     (2, 33), (3, 64), (4, 35), (5, 36), (6, 37), (7, 94), (8, 38), (9, 42), (10, 40), (11, 41),
     (12, 95), (13, 43), (14, 8), (15, 9), (16, 81), (17, 87), (18, 69), (19, 82), (20, 84), (21, 89),
     (22, 85), (23, 73), (24, 79), (25, 80), (26, 123), (27, 125), (28, 10), (30, 65), (31, 83), (32, 68),
     (33, 70), (34, 71), (35, 72), (36, 74), (37, 75), (38, 76), (39, 58), (40, 34), (41, 126), (43, 124),
     (44, 90), (45, 88), (46, 67), (47, 86), (48, 66), (49, 78), (50, 77), (51, 60), (52, 62), (53, 63),
     (57, 32), (55, 42), (1, 27)]"

section \<open>Events\<close>

definition push_event :: "u64 \<Rightarrow> input \<Rightarrow> input" where
  "push_event val s = (case ring_push val (RING s) of None \<Rightarrow> s | Some r \<Rightarrow> s\<lparr>RING := r\<rparr>)"

definition pop_event :: "input \<Rightarrow> u64 option \<times> input" where
  "pop_event s = (case ring_pop (RING s) of None \<Rightarrow> (None, s) | Some (v, r) \<Rightarrow> (Some v, s\<lparr>RING := r\<rparr>))"

definition key_event :: "u8 \<Rightarrow> u64" where
  "key_event ascii = EVT_KEY OR push_bit 2 (ucast ascii)"

definition push_key_event :: "u8 \<Rightarrow> input \<Rightarrow> input" where
  "push_key_event ascii s = push_event (key_event ascii) s"

definition clamp_coord :: "int \<Rightarrow> u64" where
  "clamp_coord x = of_int (min (max x 0) 2047)"

definition move_event :: "int \<Rightarrow> int \<Rightarrow> u64" where
  "move_event x y = EVT_MOUSE_MOVE OR push_bit 10 (clamp_coord x) OR push_bit 21 (clamp_coord y)"

definition click_event :: "int \<Rightarrow> int \<Rightarrow> u8 \<Rightarrow> u64" where
  "click_event x y btns = EVT_MOUSE_CLICK OR push_bit 2 (ucast btns AND 7) OR push_bit 10 (clamp_coord x) OR
     push_bit 21 (clamp_coord y)"

definition push_mouse_move :: "int \<Rightarrow> int \<Rightarrow> input \<Rightarrow> input" where
  "push_mouse_move x y s = push_event (move_event x y) s"

definition push_mouse_click :: "int \<Rightarrow> int \<Rightarrow> u8 \<Rightarrow> input \<Rightarrow> input" where
  "push_mouse_click x y btns s = push_event (click_event x y btns) s"

definition set_foreground :: "pid \<Rightarrow> input \<Rightarrow> input" where
  "set_foreground q s = s\<lparr>FOREGROUND_PID := q\<rparr>"

text \<open>How the consumer reads the type and the character of an event.\<close>

definition event_type :: "u64 \<Rightarrow> u64" where
  "event_type val = val AND 3"

definition event_ascii :: "u64 \<Rightarrow> u8" where
  "event_ascii val = ucast (drop_bit 2 val AND 0xFF)"

section \<open>Keyboard\<close>

definition push_key :: "u8 \<Rightarrow> input \<Rightarrow> input" where
  "push_key ascii s =
     (case ring_push ascii (KBD s) of
        None \<Rightarrow> s
      | Some r \<Rightarrow> push_key_event ascii (s\<lparr>KBD := r\<rparr>))"

definition try_pop :: "input \<Rightarrow> u8 option \<times> input" where
  "try_pop s = (case ring_pop (KBD s) of None \<Rightarrow> (None, s) | Some (v, r) \<Rightarrow> (Some v, s\<lparr>KBD := r\<rparr>))"

definition has_key :: "input \<Rightarrow> bool" where
  "has_key s = ring_has (KBD s)"

definition is_alpha :: "nat \<Rightarrow> bool" where
  "is_alpha mcode \<longleftrightarrow> (0x10 \<le> mcode \<and> mcode \<le> 0x19) \<or> (0x1E \<le> mcode \<and> mcode \<le> 0x26) \<or> (0x2C \<le> mcode \<and> mcode \<le> 0x32)"

definition handle_scancode :: "u8 \<Rightarrow> input \<Rightarrow> input" where
  "handle_scancode scancode s =
     (let is_break = scancode \<ge> 0x80;
          mcode = unat (scancode AND 0x7F)
      in if mcode = 0x2A \<or> mcode = 0x36 then s\<lparr>SHIFT := \<not> is_break\<rparr>
         else if \<not> is_break \<and> mcode = 0x3A then s\<lparr>CAPS := \<not> CAPS s\<rparr>
         else if is_break \<or> mcode \<ge> 128 then s
         else
           let use_upper = (if is_alpha mcode then SHIFT s \<noteq> CAPS s else SHIFT s);
               ascii = (if use_upper then UPPER ! mcode else LOWER ! mcode)
           in if ascii \<noteq> 0 then push_key ascii s else s)"

section \<open>Invariant\<close>

definition input_ok :: "input \<Rightarrow> bool" where
  "input_ok s \<longleftrightarrow> ring_ok BUF_CAP (KBD s) \<and> ring_ok EVT_CAP (RING s)"

lemma input_init_ok: "input_ok input_init" "ring_contents (KBD input_init) = []" "ring_contents (RING input_init) = []"
  by (simp_all add: input_ok_def input_init_def ring_new_ok BUF_CAP_def EVT_CAP_def)

lemma ring_push_64:
  assumes "ring_ok 64 r"
  shows "ring_push x r = None \<longleftrightarrow> 63 \<le> length (ring_contents r)"
    and "ring_push x r = Some r' \<Longrightarrow> ring_ok 64 r' \<and> ring_contents r' = ring_contents r @ [x] \<and> length (ring_contents r) < 63"
  using ring.push_None_iff [of 63 r x] ring.push_SomeD [of 63 r x r'] assms by simp_all

lemma contents_le: "ring_ok 64 r \<Longrightarrow> length (ring_contents r) \<le> 63"
  using ring_len_less [of 64 r] by simp

lemma push_event_spec:
  assumes "input_ok s"
  shows "input_ok (push_event v s) \<and> ring_contents (RING (push_event v s)) = take 63 (ring_contents (RING s) @ [v]) \<and>
    KBD (push_event v s) = KBD s \<and> SHIFT (push_event v s) = SHIFT s \<and> CAPS (push_event v s) = CAPS s"
proof -
  have r: "ring_ok 64 (RING s)" using assms by (simp add: input_ok_def EVT_CAP_def)
  show ?thesis
  proof (cases "ring_push v (RING s)")
    case None
    then show ?thesis using ring_push_64(1) [OF r, of v] contents_le [OF r] assms by (simp add: push_event_def)
  next
    case (Some r')
    then show ?thesis using ring_push_64(2) [OF r Some] assms by (simp add: push_event_def input_ok_def EVT_CAP_def take_Cons')
  qed
qed

lemma push_key_spec:
  assumes ok: "input_ok s"
  shows "input_ok (push_key c s) \<and> ring_contents (KBD (push_key c s)) = take 63 (ring_contents (KBD s) @ [c]) \<and>
    SHIFT (push_key c s) = SHIFT s \<and> CAPS (push_key c s) = CAPS s \<and>
    ring_contents (RING (push_key c s)) =
      (if length (ring_contents (KBD s)) < 63 then take 63 (ring_contents (RING s) @ [key_event c]) else ring_contents (RING s))"
proof -
  have r: "ring_ok 64 (KBD s)" using ok by (simp add: input_ok_def BUF_CAP_def)
  show ?thesis
  proof (cases "ring_push c (KBD s)")
    case None
    then show ?thesis using ring_push_64(1) [OF r, of c] contents_le [OF r] ok by (simp add: push_key_def)
  next
    case (Some r')
    note p = ring_push_64(2) [OF r Some]
    have "input_ok (s\<lparr>KBD := r'\<rparr>)" using ok p by (simp add: input_ok_def BUF_CAP_def)
    from push_event_spec [OF this, of "key_event c"] show ?thesis
      using Some p by (simp add: push_key_def push_key_event_def take_Cons')
  qed
qed

section \<open>Typing\<close>

text \<open>What a keyboard in a given Shift and Caps Lock state means by a scan code: the new state and the
  character, if any.\<close>

definition key_char :: "bool \<Rightarrow> bool \<Rightarrow> nat \<Rightarrow> u8 option" where
  "key_char shift caps mcode =
     (let c = (if (if is_alpha mcode then shift \<noteq> caps else shift) then UPPER ! mcode else LOWER ! mcode)
      in if c = 0 then None else Some c)"

fun typed :: "bool \<Rightarrow> bool \<Rightarrow> u8 list \<Rightarrow> u8 list" where
  "typed shift caps [] = []"
| "typed shift caps (c # cs) =
     (let mcode = unat (c AND 0x7F); released = 0x80 \<le> c in
      if mcode \<in> {0x2A, 0x36} then typed (\<not> released) caps cs
      else if released then typed shift caps cs
      else if mcode = 0x3A then typed shift (\<not> caps) cs
      else (case key_char shift caps mcode of
          None \<Rightarrow> typed shift caps cs
        | Some a \<Rightarrow> a # typed shift caps cs))"

lemma mcode_less: "unat (c AND 0x7F :: u8) < 128"
proof -
  have "c AND 0x7F \<le> (0x7F :: u8)" by (rule word_and_le1)
  then show ?thesis by (simp add: word_le_nat_alt)
qed

lemma handle_scancode_cases:
  "handle_scancode c s =
     (let mcode = unat (c AND 0x7F); released = 0x80 \<le> c in
      if mcode \<in> {0x2A, 0x36} then s\<lparr>SHIFT := \<not> released\<rparr>
      else if released then s
      else if mcode = 0x3A then s\<lparr>CAPS := \<not> CAPS s\<rparr>
      else (case key_char (SHIFT s) (CAPS s) mcode of None \<Rightarrow> s | Some a \<Rightarrow> push_key a s))"
  using mcode_less [of c] by (auto simp: handle_scancode_def key_char_def Let_def)

lemma handle_scancodes_spec:
  assumes "input_ok s"
  shows "input_ok (fold handle_scancode cs s) \<and>
    ring_contents (KBD (fold handle_scancode cs s)) = take 63 (ring_contents (KBD s) @ typed (SHIFT s) (CAPS s) cs) \<and>
    ring_contents (RING (fold handle_scancode cs s)) =
      take 63 (ring_contents (RING s) @
        map key_event (take (63 - length (ring_contents (KBD s))) (typed (SHIFT s) (CAPS s) cs)))"
  using assms
proof (induction cs arbitrary: s)
  case Nil
  then have "ring_ok 64 (KBD s)" "ring_ok 64 (RING s)" by (simp_all add: input_ok_def BUF_CAP_def EVT_CAP_def)
  then show ?case using Nil contents_le [of "KBD s"] contents_le [of "RING s"] by simp
next
  case (Cons c cs)
  let ?mcode = "unat (c AND 0x7F)"
  show ?case
  proof (cases "?mcode \<in> {0x2A, 0x36} \<or> 0x80 \<le> c \<or> ?mcode = 0x3A \<or> key_char (SHIFT s) (CAPS s) ?mcode = None")
    case True
    have "input_ok (s\<lparr>SHIFT := b\<rparr>)" "input_ok (s\<lparr>CAPS := b\<rparr>)" for b using Cons.prems by (simp_all add: input_ok_def)
    with True Cons.IH [of "handle_scancode c s"] Cons.prems show ?thesis
      by (auto simp: handle_scancode_cases Let_def split: if_splits)
  next
    case False
    then obtain a where a: "key_char (SHIFT s) (CAPS s) ?mcode = Some a" by auto
    then have h: "handle_scancode c s = push_key a s" and t: "typed (SHIFT s) (CAPS s) (c # cs) = a # typed (SHIFT s) (CAPS s) cs"
      using False by (simp_all add: handle_scancode_cases Let_def)
    note p = push_key_spec [OF Cons.prems, of a]
    have ih: "ring_contents (KBD (fold handle_scancode cs (push_key a s))) =
        take 63 (take 63 (ring_contents (KBD s) @ [a]) @ typed (SHIFT s) (CAPS s) cs)"
      "input_ok (fold handle_scancode cs (push_key a s))"
      "ring_contents (RING (fold handle_scancode cs (push_key a s))) =
        take 63 (ring_contents (RING (push_key a s)) @
          map key_event (take (63 - length (ring_contents (KBD (push_key a s)))) (typed (SHIFT s) (CAPS s) cs)))"
      using Cons.IH [of "push_key a s"] p by simp_all
    have le: "length (ring_contents (KBD s)) \<le> 63"
      using Cons.prems contents_le [of "KBD s"] by (simp add: input_ok_def BUF_CAP_def)
    have "take 63 (take 63 (xs @ [a]) @ ys) = take 63 (xs @ a # ys)" if "length xs \<le> 63" for xs ys
      using that by (cases "length xs = 63") (simp_all add: min_def)
    from this [OF le] ih(1) have k: "ring_contents (KBD (fold handle_scancode cs (push_key a s))) =
        take 63 (ring_contents (KBD s) @ a # typed (SHIFT s) (CAPS s) cs)" by simp
    have r: "ring_contents (RING (fold handle_scancode cs (push_key a s))) =
      take 63 (ring_contents (RING s) @
        map key_event (take (63 - length (ring_contents (KBD s))) (a # typed (SHIFT s) (CAPS s) cs)))"
    proof (cases "length (ring_contents (KBD s)) < 63")
      case True
      then have n: "63 - length (ring_contents (KBD s)) = Suc (62 - length (ring_contents (KBD s)))" by simp
      have le': "length (ring_contents (RING s)) \<le> 63" using Cons.prems contents_le [of "RING s"] by (simp add: input_ok_def EVT_CAP_def)
      have "take 63 (take 63 (xs @ [x]) @ ys) = take 63 (xs @ x # ys)" if "length xs \<le> 63" for xs ys and x :: u64
        using that by (cases "length xs = 63") (simp_all add: min_def)
      from this [OF le'] show ?thesis using ih(3) p True by (simp add: n [simplified])
    next
      case False
      then show ?thesis using ih(3) p le by simp
    qed
    show ?thesis using ih(2) k r h t by simp
  qed
qed

lemma event_key_bits: "event_type (key_event c) = EVT_KEY \<and> event_ascii (key_event c) = c"
proof
  have "(3 :: u64) = mask 2" by (simp add: mask_eq_exp_minus_1)
  then have "event_type (key_event c) = take_bit 2 (push_bit 2 (ucast c))"
    by (simp only: event_type_def key_event_def EVT_KEY_def or.left_neutral take_bit_eq_mask)
  then show "event_type (key_event c) = EVT_KEY" by (simp only: take_bit_push_bit EVT_KEY_def) simp
  have "(0xFF :: u64) = mask 8" by (simp add: mask_eq_exp_minus_1)
  then have "event_ascii (key_event c) = ucast (drop_bit 2 (push_bit 2 (ucast c :: u64)) AND mask 8)"
    by (simp only: event_ascii_def key_event_def EVT_KEY_def or.left_neutral)
  also have "\<dots> = c" by (rule bit_word_eqI) (auto simp only: bit_simps, simp_all add: bit_simps)
  finally show "event_ascii (key_event c) = c" .
qed

section \<open>Properties\<close>

text \<open>Typing. After any sequence of scan codes the keyboard buffer holds what was there followed by the
  typed characters in order, cut off at the 63 the ring can hold; the event ring received exactly the
  characters the keyboard buffer accepted, also in order and also cut off at 63, and the consumer's
  decoding of an event gives back the key.\<close>

theorem typed_keys_in_order:
  assumes "input_ok s"
  shows "input_ok (fold handle_scancode cs s) \<and>
    ring_contents (KBD (fold handle_scancode cs s)) = take 63 (ring_contents (KBD s) @ typed (SHIFT s) (CAPS s) cs) \<and>
    ring_contents (RING (fold handle_scancode cs s)) =
      take 63 (ring_contents (RING s) @
        map key_event (take (63 - length (ring_contents (KBD s))) (typed (SHIFT s) (CAPS s) cs))) \<and>
    event_type (key_event c) = EVT_KEY \<and> event_ascii (key_event c) = c"
  using handle_scancodes_spec [OF assms, of cs] event_key_bits [of c] by blast

text \<open>Shift down, H, Shift up, I, Caps Lock down and up, O.\<close>

theorem typed_keys_in_order_witness:
  "ring_contents (KBD (fold handle_scancode [0x2A, 0x23, 0xAA, 0x17, 0x3A, 0xBA, 0x18] input_init)) = [72, 105, 79]"
proof -
  let ?cs = "[0x2A, 0x23, 0xAA, 0x17, 0x3A, 0xBA, 0x18]"
  have t: "typed False False ?cs = [72, 105, 79]" by code_simp
  have i: "SHIFT input_init = False" "CAPS input_init = False" by (simp_all add: input_init_def)
  from typed_keys_in_order [OF input_init_ok(1), of ?cs 0]
  have "ring_contents (KBD (fold handle_scancode ?cs input_init)) = take 63 (typed False False ?cs)"
    unfolding i input_init_ok(2) append_Nil by blast
  then show ?thesis unfolding t by simp
qed

end
