(* ===== verification/Desktop.thy ===== *)
theory Desktop
  imports Input "HOL-Library.Signed_Division"
begin

text \<open>
  The mouse (\<open>mouse.rs\<close>) and the window manager's event handlers (\<open>wm.rs\<close>). The mouse interrupt collects
  three-byte packets, moves the cursor and calls the window manager, which drags, hides and restores
  the three windows; clicks and moves also go to the event ring of theory \<open>Input\<close>.

  \<open>i32\<close> values are integers; \<open>None\<close> is a panic. The size of the screen is a field. Drawing is left out.
\<close>

section \<open>Windows\<close>

definition WIN_COUNT :: nat where "WIN_COUNT = 3"
definition WIN_W :: "u32 list" where "WIN_W = [290, 290, 600]"
definition WIN_H :: "u32 list" where "WIN_H = [200, 200, 130]"
definition WIN_INIT_X :: "int list" where "WIN_INIT_X = [20, 330, 20]"
definition WIN_INIT_Y :: "int list" where "WIN_INIT_Y = [20, 20, 240]"
definition TITLE_H :: u32 where "TITLE_H = 16"
definition BORDER :: u32 where "BORDER = 1"

record wm =
  WIN_X :: "int list"
  WIN_Y :: "int list"
  WIN_VIS :: "bool list"
  DRAG_WIN :: int
  DRAG_OX :: int
  DRAG_OY :: int

definition wm_init :: wm where
  "wm_init = \<lparr>WIN_X = WIN_INIT_X, WIN_Y = WIN_INIT_Y, WIN_VIS = [True, True, True], DRAG_WIN = - 1, DRAG_OX = 0, DRAG_OY = 0\<rparr>"

record rect =
  rx :: u32
  ry :: u32
  rw :: u32
  rh :: u32

text \<open>The conjunctions are evaluated from the left; an addition is reached only if the comparison before it holds.\<close>

definition rect_contains :: "rect \<Rightarrow> u32 \<Rightarrow> u32 \<Rightarrow> bool option" where
  "rect_contains r px py =
     (if px < rx r then Some False
      else do {
        right \<leftarrow> add_chk (rx r) (rw r);
        (if \<not> px < right \<or> py < ry r then Some False
         else do {
           bottom \<leftarrow> add_chk (ry r) (rh r);
           Some (py < bottom)
         })
      })"

definition close_btn :: "rect \<Rightarrow> rect option" where
  "close_btn r = do {
     b \<leftarrow> add_chk BORDER 13;
     x \<leftarrow> add_chk (rx r) (sat_sub (rw r) b);
     y \<leftarrow> add_chk (ry r) BORDER;
     y \<leftarrow> add_chk y 2;
     Some \<lparr>rx = x, ry = y, rw = 12, rh = 12\<rparr>
   }"

definition title_bar :: "rect \<Rightarrow> rect option" where
  "title_bar r = do {
     x \<leftarrow> add_chk (rx r) BORDER;
     y \<leftarrow> add_chk (ry r) BORDER;
     b \<leftarrow> mul_chk BORDER 2;
     Some \<lparr>rx = x, ry = y, rw = sat_sub (rw r) b, rh = TITLE_H\<rparr>
   }"

definition win_rect :: "wm \<Rightarrow> nat \<Rightarrow> rect" where
  "win_rect s i = \<lparr>rx = of_int (WIN_X s ! i), ry = of_int (WIN_Y s ! i), rw = WIN_W ! i, rh = WIN_H ! i\<rparr>"

definition restore_all :: "wm \<Rightarrow> wm" where
  "restore_all s = s\<lparr>WIN_VIS := [True, True, True], WIN_X := WIN_INIT_X, WIN_Y := WIN_INIT_Y\<rparr>"

definition taskbar_click :: "u32 \<Rightarrow> wm \<Rightarrow> wm" where
  "taskbar_click cx s =
     (if 2 \<le> cx \<and> cx < 58 then restore_all s
      else case find_idx (\<lambda>bx. bx \<le> cx \<and> cx < bx + 68) [66, 138, 210] of
          None \<Rightarrow> s
        | Some i \<Rightarrow> s\<lparr>WIN_VIS := (WIN_VIS s)[i := \<not> WIN_VIS s ! i]\<rparr>)"

definition start_drag :: "nat \<Rightarrow> u32 \<Rightarrow> u32 \<Rightarrow> wm \<Rightarrow> wm option" where
  "start_drag i cx cy s = do {
     ox \<leftarrow> i32_chk (sint cx - WIN_X s ! i);
     oy \<leftarrow> i32_chk (sint cy - WIN_Y s ! i);
     Some (s\<lparr>DRAG_WIN := int i, DRAG_OX := ox, DRAG_OY := oy\<rparr>)
   }"

text \<open>The hit test from the topmost window down.\<close>

fun hit_test :: "u32 \<Rightarrow> u32 \<Rightarrow> nat list \<Rightarrow> wm \<Rightarrow> wm option" where
  "hit_test cx cy [] s = Some s"
| "hit_test cx cy (i # is) s =
     (if \<not> WIN_VIS s ! i then hit_test cx cy is s
      else do {
        let r = win_rect s i;
        inside \<leftarrow> rect_contains r cx cy;
        (if \<not> inside then hit_test cx cy is s
         else do {
           cb \<leftarrow> close_btn r;
           close \<leftarrow> rect_contains cb cx cy;
           (if close then Some (s\<lparr>WIN_VIS := (WIN_VIS s)[i := False]\<rparr>)
            else do {
              tb \<leftarrow> title_bar r;
              title \<leftarrow> rect_contains tb cx cy;
              (if title then start_drag i cx cy s else Some s)
            })
         })
      })"

definition wm_on_click :: "u32 \<Rightarrow> u32 \<Rightarrow> u32 \<Rightarrow> wm \<Rightarrow> wm option" where
  "wm_on_click sh cx cy s =
     (if cy \<ge> sat_sub sh 22 then Some (taskbar_click cx s)
      else hit_test cx cy [2, 1, 0] s)"

definition on_drag :: "u32 \<Rightarrow> u32 \<Rightarrow> int \<Rightarrow> int \<Rightarrow> wm \<Rightarrow> wm option" where
  "on_drag fw fh x y s =
     (if DRAG_WIN s < 0 then Some s
      else let i = nat (DRAG_WIN s) in
        if i \<ge> WIN_COUNT then None
        else do {
          let sw = sint fw; let sh = sint fh;
          dx \<leftarrow> i32_chk (x - DRAG_OX s);
          mx \<leftarrow> i32_chk (sw - sint (WIN_W ! i));
          dy \<leftarrow> i32_chk (y - DRAG_OY s);
          my \<leftarrow> i32_chk (sh - 22);
          my \<leftarrow> i32_chk (my - sint (WIN_H ! i));
          Some (s\<lparr>WIN_X := (WIN_X s)[i := min (max dx 0) mx], WIN_Y := (WIN_Y s)[i := min (max dy 0) my]\<rparr>)
        })"

definition on_release :: "wm \<Rightarrow> wm" where
  "on_release s = (if DRAG_WIN s \<ge> 0 then s\<lparr>DRAG_WIN := - 1\<rparr> else s)"

section \<open>Mouse\<close>

record desktop =
  wins :: wm
  inp :: input
  MOUSE_X :: int
  MOUSE_Y :: int
  MOUSE_BTN :: u8
  PREV_BTN :: u8
  PKT :: "u8 list"
  PKT_IDX :: nat
  READY :: bool
  FB_WIDTH :: u32
  FB_HEIGHT :: u32

abbreviation on_wins :: "(wm \<Rightarrow> wm option) \<Rightarrow> desktop \<Rightarrow> desktop option" where
  "on_wins f d \<equiv> map_option (\<lambda>w. d\<lparr>wins := w\<rparr>) (f (wins d))"

text \<open>The end of \<open>mouse::init\<close>: the cursor goes to the middle of the screen.\<close>

definition mouse_ready :: "desktop \<Rightarrow> desktop" where
  "mouse_ready d =
     (let w = FB_WIDTH d; h = FB_HEIGHT d;
          d = (if w > 0 \<and> h > 0 then d\<lparr>MOUSE_X := sint w sdiv 2, MOUSE_Y := sint h sdiv 2\<rparr> else d)
      in d\<lparr>READY := True\<rparr>)"

text \<open>A signed nine-bit movement: the sign is in the first byte.\<close>

definition delta9 :: "bool \<Rightarrow> u8 \<Rightarrow> int" where
  "delta9 neg b = (if neg then uint b - 256 else uint b)"

definition mouse_on_click :: "int \<Rightarrow> int \<Rightarrow> desktop \<Rightarrow> desktop option" where
  "mouse_on_click x y d = on_wins (wm_on_click (FB_HEIGHT d) (of_int x) (of_int y)) d"

text \<open>Button edges: press, drag, release.\<close>

definition buttons :: "u8 \<Rightarrow> int \<Rightarrow> int \<Rightarrow> int \<Rightarrow> int \<Rightarrow> desktop \<Rightarrow> desktop option" where
  "buttons btn dx dy x y d = do {
     let prev = PREV_BTN d;
     d \<leftarrow> (if bit btn 0 \<and> \<not> bit prev 0 then do {
            d \<leftarrow> mouse_on_click x y d;
            Some (d\<lparr>inp := push_mouse_click x y btn (inp d)\<rparr>)
          } else Some d);
     d \<leftarrow> (if bit btn 0 \<and> (dx \<noteq> 0 \<or> dy \<noteq> 0) then on_wins (on_drag (FB_WIDTH d) (FB_HEIGHT d) x y) d else Some d);
     Some (if bit prev 0 \<and> \<not> bit btn 0 then d\<lparr>wins := on_release (wins d)\<rparr> else d)
   }"

definition process_packet :: "desktop \<Rightarrow> desktop option" where
  "process_packet d =
     (let b0 = PKT d ! 0; b1 = PKT d ! 1; b2 = PKT d ! 2 in
      if \<not> READY d \<or> b0 AND 0xC0 \<noteq> 0 then Some d
      else do {
        let dx = delta9 (bit b0 4) b1;
        let dy = delta9 (bit b0 5) b2;
        let w = sint (FB_WIDTH d);
        let h = sint (FB_HEIGHT d);
        (if w = 0 \<or> h = 0 then Some d
         else do {
           nx \<leftarrow> i32_chk (MOUSE_X d + dx);
           wm1 \<leftarrow> i32_chk (w - 1);
           ny \<leftarrow> i32_chk (MOUSE_Y d - dy);
           hm1 \<leftarrow> i32_chk (h - 1);
           let x = min (max nx 0) wm1;
           let y = min (max ny 0) hm1;
           let btn = b0 AND 7;
           d \<leftarrow> buttons btn dx dy x y (d\<lparr>MOUSE_X := x, MOUSE_Y := y, MOUSE_BTN := btn\<rparr>);
           let d = (if dx \<noteq> 0 \<or> dy \<noteq> 0 then d\<lparr>inp := push_mouse_move x y (inp d)\<rparr> else d);
           Some (d\<lparr>PREV_BTN := btn\<rparr>)
         })
      })"

definition handle_irq :: "u8 \<Rightarrow> desktop \<Rightarrow> desktop option" where
  "handle_irq byte d =
     (let idx = PKT_IDX d in
      if idx = 0 \<and> \<not> bit byte 3 then Some d
      else if idx \<ge> 3 then None
      else
        let d = d\<lparr>PKT := (PKT d)[idx := byte]\<rparr> in
        if idx + 1 = 3 then process_packet (d\<lparr>PKT_IDX := 0\<rparr>)
        else Some (d\<lparr>PKT_IDX := idx + 1\<rparr>))"

section \<open>The invariant\<close>

text \<open>Every window lies on a screen of \<open>w\<close> by \<open>h\<close> pixels, above the task bar.\<close>

definition win_on_screen :: "int \<Rightarrow> int \<Rightarrow> wm \<Rightarrow> nat \<Rightarrow> bool" where
  "win_on_screen w h s i \<longleftrightarrow> 0 \<le> WIN_X s ! i \<and> WIN_X s ! i + uint (WIN_W ! i) \<le> w \<and>
     0 \<le> WIN_Y s ! i \<and> WIN_Y s ! i + uint (WIN_H ! i) + 22 \<le> h"

definition wm_ok :: "int \<Rightarrow> int \<Rightarrow> wm \<Rightarrow> bool" where
  "wm_ok w h s \<longleftrightarrow> length (WIN_X s) = WIN_COUNT \<and> length (WIN_Y s) = WIN_COUNT \<and> length (WIN_VIS s) = WIN_COUNT \<and>
     (\<forall>i < WIN_COUNT. win_on_screen w h s i) \<and> DRAG_WIN s < int WIN_COUNT \<and>
     0 \<le> DRAG_OX s \<and> DRAG_OX s \<le> 600 \<and> 0 \<le> DRAG_OY s \<and> DRAG_OY s \<le> 600"

definition big_screen :: "int \<Rightarrow> int \<Rightarrow> bool" where
  "big_screen w h \<longleftrightarrow> 620 \<le> w \<and> w < 2 ^ 30 \<and> 392 \<le> h \<and> h < 2 ^ 30"

lemma upto_3: "i < WIN_COUNT \<longleftrightarrow> i = 0 \<or> i = 1 \<or> i = 2"
  by (auto simp: WIN_COUNT_def)

lemma win_size: "i < WIN_COUNT \<Longrightarrow> 290 \<le> uint (WIN_W ! i) \<and> uint (WIN_W ! i) \<le> 600 \<and> 130 \<le> uint (WIN_H ! i) \<and> uint (WIN_H ! i) \<le> 200"
  by (auto simp: upto_3 WIN_W_def WIN_H_def)

lemma wm_init_on_screen: "big_screen w h \<Longrightarrow> i < WIN_COUNT \<Longrightarrow> WIN_X s = WIN_INIT_X \<Longrightarrow> WIN_Y s = WIN_INIT_Y \<Longrightarrow> win_on_screen w h s i"
  by (auto simp: win_on_screen_def upto_3 big_screen_def WIN_INIT_X_def WIN_INIT_Y_def WIN_W_def WIN_H_def)

lemma wm_init_ok: "big_screen w h \<Longrightarrow> wm_ok w h wm_init"
  using wm_init_on_screen [of w h _ wm_init]
  by (simp add: wm_ok_def wm_init_def WIN_COUNT_def WIN_INIT_X_def WIN_INIT_Y_def)

lemma uint_of_int: "0 \<le> x \<Longrightarrow> x < 2 ^ 32 \<Longrightarrow> uint (of_int x :: u32) = x"
  by (simp add: uint_word_of_int_eq take_bit_int_eq_self)

lemma sint_small:
  assumes "uint (v :: u32) < 2 ^ 31"
  shows "sint v = uint v"
proof -
  have "- (2 ^ 31) \<le> uint v" by (rule order_trans [of _ 0]) simp_all
  then show ?thesis using assms signed_take_bit_int_eq_self [of 31 "uint v"] by (simp add: sint_uint)
qed

lemma uint_add_chk:
  assumes "uint a + uint b < 2 ^ 32"
  shows "\<exists>c. add_chk a b = Some c \<and> uint c = uint a + uint (b :: u32)"
proof -
  have "unat a + unat b = nat (uint a + uint b)" by (simp add: nat_add_distrib)
  then have "unat a + unat b < 2 ^ 32" using assms by (simp add: nat_less_iff)
  moreover have "uint (a + b) = uint a + uint b" using assms by (simp add: uint_word_ariths)
  ultimately show ?thesis by (simp add: add_chk_def)
qed

lemma rect_contains_total:
  assumes "uint (rx r) + uint (rw r) < 2 ^ 32" and "uint (ry r) + uint (rh r) < 2 ^ 32"
  shows "rect_contains r px py = Some (uint (rx r) \<le> uint px \<and> uint px < uint (rx r) + uint (rw r) \<and>
    uint (ry r) \<le> uint py \<and> uint py < uint (ry r) + uint (rh r))"
  using uint_add_chk [OF assms(1)] uint_add_chk [OF assms(2)]
  by (auto simp: rect_contains_def word_less_def)

lemma win_buttons:
  assumes i: "i < WIN_COUNT" and o: "win_on_screen w h s i" and b: "big_screen w h"
  obtains cb tb where "close_btn (win_rect s i) = Some cb" "title_bar (win_rect s i) = Some tb"
    "\<exists>c. rect_contains (win_rect s i) px py = Some c" "\<exists>c. rect_contains cb px py = Some c"
    "\<exists>c. rect_contains tb px py = Some c"
    "rect_contains tb px py = Some True \<Longrightarrow> WIN_X s ! i \<le> uint px \<and> uint px \<le> WIN_X s ! i + 600 \<and>
      WIN_Y s ! i \<le> uint py \<and> uint py \<le> WIN_Y s ! i + 600"
proof -
  let ?r = "win_rect s i"
  note sz = win_size [OF i]
  have x: "0 \<le> WIN_X s ! i" "WIN_X s ! i + uint (WIN_W ! i) < 2 ^ 31" "0 \<le> WIN_Y s ! i" "WIN_Y s ! i + uint (WIN_H ! i) < 2 ^ 31"
    using o b by (simp_all add: win_on_screen_def big_screen_def)
  have r: "uint (rx ?r) = WIN_X s ! i" "uint (ry ?r) = WIN_Y s ! i" "rw ?r = WIN_W ! i" "rh ?r = WIN_H ! i"
    using x sz by (simp_all add: win_rect_def uint_of_int)
  have sat: "uint (sat_sub (rw ?r) c) = uint (rw ?r) - uint c" if "uint c \<le> 14" for c
    using that sz r by (simp add: sat_sub_def word_le_def uint_sub_if')
  obtain cx where cx: "add_chk (rx ?r) (sat_sub (rw ?r) 14) = Some cx" "uint cx = WIN_X s ! i + uint (WIN_W ! i) - 14"
    using uint_add_chk [of "rx ?r" "sat_sub (rw ?r) 14"] sat [of 14] r x by auto
  obtain y1 where y1: "add_chk (ry ?r) 1 = Some y1" "uint y1 = WIN_Y s ! i + 1"
    using uint_add_chk [of "ry ?r" 1] r x sz by auto
  obtain y2 where y2: "add_chk y1 2 = Some y2" "uint y2 = WIN_Y s ! i + 3"
    using uint_add_chk [of y1 2] y1 x sz by auto
  obtain x1 where x1: "add_chk (rx ?r) 1 = Some x1" "uint x1 = WIN_X s ! i + 1"
    using uint_add_chk [of "rx ?r" 1] r x sz by auto
  let ?cb = "\<lparr>rx = cx, ry = y2, rw = 12, rh = 12\<rparr>"
  let ?tb = "\<lparr>rx = x1, ry = y1, rw = sat_sub (rw ?r) 2, rh = TITLE_H\<rparr>"
  have cb: "close_btn ?r = Some ?cb" using cx(1) y1(1) y2(1) by (simp add: close_btn_def BORDER_def add_chk_def)
  have tb: "title_bar ?r = Some ?tb" using x1(1) y1(1) by (simp add: title_bar_def BORDER_def mul_chk_def)
  have "\<exists>c. rect_contains ?r px py = Some c" using rect_contains_total [of ?r px py] r x by simp
  moreover have "\<exists>c. rect_contains ?cb px py = Some c"
    using rect_contains_total [of ?cb px py] cx y2 x sz by simp
  moreover have t: "rect_contains ?tb px py = Some (uint x1 \<le> uint px \<and> uint px < uint x1 + uint (sat_sub (rw ?r) 2) \<and>
      uint y1 \<le> uint py \<and> uint py < uint y1 + uint TITLE_H)"
    using rect_contains_total [of ?tb px py] x1 y1 x sz sat [of 2] r by (simp add: TITLE_H_def)
  moreover have "WIN_X s ! i \<le> uint px \<and> uint px \<le> WIN_X s ! i + 600 \<and>
      WIN_Y s ! i \<le> uint py \<and> uint py \<le> WIN_Y s ! i + 600" if "rect_contains ?tb px py = Some True"
    using that t x1 y1 sz sat [of 2] r by (simp add: TITLE_H_def)
  ultimately show thesis using that cb tb by blast
qed

lemma hit_test_ok:
  assumes "wm_ok w h s" and b: "big_screen w h" and "\<forall>i \<in> set is. i < WIN_COUNT" and c: "uint cx < 2 ^ 31" "uint cy < 2 ^ 31"
  shows "\<exists>s'. hit_test cx cy is s = Some s' \<and> wm_ok w h s'"
  using assms(1,3)
proof (induction "is")
  case Nil
  then show ?case by simp
next
  case (Cons i "is")
  then have i: "i < WIN_COUNT" and o: "win_on_screen w h s i" by (simp_all add: wm_ok_def)
  have ih: "\<exists>s'. hit_test cx cy is s = Some s' \<and> wm_ok w h s'" using Cons by simp
  obtain cb tb where h: "close_btn (win_rect s i) = Some cb" "title_bar (win_rect s i) = Some tb"
    "\<exists>c. rect_contains (win_rect s i) cx cy = Some c" "\<exists>c. rect_contains cb cx cy = Some c"
    "\<exists>c. rect_contains tb cx cy = Some c"
    "rect_contains tb cx cy = Some True \<Longrightarrow> WIN_X s ! i \<le> uint cx \<and> uint cx \<le> WIN_X s ! i + 600 \<and>
      WIN_Y s ! i \<le> uint cy \<and> uint cy \<le> WIN_Y s ! i + 600"
    by (rule win_buttons [OF i o b, of cx cy]) blast
  have hide: "wm_ok w h (s\<lparr>WIN_VIS := (WIN_VIS s)[i := False]\<rparr>)"
    using Cons.prems by (simp add: wm_ok_def win_on_screen_def)
  have drag: "\<exists>s'. start_drag i cx cy s = Some s' \<and> wm_ok w h s'" if "rect_contains tb cx cy = Some True"
    using h(6) [OF that] Cons.prems i sint_small [OF c(1)] sint_small [OF c(2)]
    by (simp add: start_drag_def i32_chk_def wm_ok_def win_on_screen_def)
  obtain c1 c2 c3 where cs: "rect_contains (win_rect s i) cx cy = Some c1" "rect_contains cb cx cy = Some c2"
    "rect_contains tb cx cy = Some c3" using h(3-5) by blast
  show ?case using ih hide drag Cons.prems(1) cs h(1,2) by (cases c1; cases c2; cases c3) (simp_all add: Let_def)
qed

lemma wm_on_click_ok:
  assumes "wm_ok w h s" and "big_screen w h" and "uint cx < 2 ^ 31" "uint cy < 2 ^ 31"
  shows "\<exists>s'. wm_on_click sh cx cy s = Some s' \<and> wm_ok w h s'"
proof -
  have "wm_ok w h (taskbar_click cx s)"
    using assms(1) wm_init_on_screen [OF assms(2), of _ "restore_all s"]
    by (auto simp: taskbar_click_def restore_all_def wm_ok_def win_on_screen_def WIN_COUNT_def WIN_INIT_X_def WIN_INIT_Y_def
        split: option.split)
  then show ?thesis using hit_test_ok [OF assms(1,2) _ assms(3,4), of "[2, 1, 0]"]
    by (simp add: wm_on_click_def WIN_COUNT_def)
qed

lemma clamp_fits:
  "0 \<le> n - l \<Longrightarrow> 0 \<le> min (max v 0) (n - l) \<and> min (max v 0) (n - l) + l \<le> (n :: int)"
  "0 \<le> n - k - l \<Longrightarrow> 0 \<le> min (max v 0) (n - k - l) \<and> min (max v 0) (n - k - l) + l + k \<le> (n :: int)"
  by linarith+

lemma on_drag_ok:
  assumes ok: "wm_ok w h s" and b: "big_screen w h" and "0 \<le> x" "x < w" "0 \<le> y" "y < h"
    and f: "sint fw = w" "sint fh = h"
  shows "\<exists>s'. on_drag fw fh x y s = Some s' \<and> wm_ok w h s'"
proof (cases "DRAG_WIN s < 0")
  case True
  then show ?thesis using ok by (simp add: on_drag_def)
next
  case False
  let ?i = "nat (DRAG_WIN s)"
  have i: "?i < WIN_COUNT" using ok False by (simp add: wm_ok_def nat_less_iff)
  note sz = win_size [OF i]
  have sw: "sint (WIN_W ! ?i) = uint (WIN_W ! ?i)" "sint (WIN_H ! ?i) = uint (WIN_H ! ?i)"
    using sz by (intro sint_small; simp)+
  let ?s = "s\<lparr>WIN_X := (WIN_X s)[?i := min (max (x - DRAG_OX s) 0) (w - uint (WIN_W ! ?i))],
    WIN_Y := (WIN_Y s)[?i := min (max (y - DRAG_OY s) 0) (h - 22 - uint (WIN_H ! ?i))]\<rparr>"
  have "on_drag fw fh x y s = Some ?s"
    using False i ok assms(3-6) b sz by (simp add: on_drag_def Let_def f sw i32_chk_def wm_ok_def big_screen_def)
  moreover have "win_on_screen w h ?s j" if "j < WIN_COUNT" for j
  proof (cases "j = ?i")
    case True
    then show ?thesis
      using i ok sz b clamp_fits(1) [of w "uint (WIN_W ! ?i)" "x - DRAG_OX s"]
        clamp_fits(2) [of h 22 "uint (WIN_H ! ?i)" "y - DRAG_OY s"]
      by (simp add: wm_ok_def win_on_screen_def big_screen_def)
  next
    case False
    then show ?thesis using that ok by (simp add: wm_ok_def win_on_screen_def)
  qed
  ultimately show ?thesis using ok by (auto simp: wm_ok_def)
qed

lemma on_release_ok: "wm_ok w h s \<Longrightarrow> wm_ok w h (on_release s)"
  by (simp add: on_release_def wm_ok_def win_on_screen_def WIN_COUNT_def)

definition desktop_ok :: "desktop \<Rightarrow> bool" where
  "desktop_ok d \<longleftrightarrow> big_screen (uint (FB_WIDTH d)) (uint (FB_HEIGHT d)) \<and>
     wm_ok (uint (FB_WIDTH d)) (uint (FB_HEIGHT d)) (wins d) \<and> input_ok (inp d) \<and>
     0 \<le> MOUSE_X d \<and> MOUSE_X d < uint (FB_WIDTH d) \<and> 0 \<le> MOUSE_Y d \<and> MOUSE_Y d < uint (FB_HEIGHT d) \<and>
     length (PKT d) = 3 \<and> PKT_IDX d < 3"

lemma desktop_ok_screen:
  assumes "desktop_ok d"
  shows "sint (FB_WIDTH d) = uint (FB_WIDTH d)" "sint (FB_HEIGHT d) = uint (FB_HEIGHT d)"
  using assms by (auto simp: desktop_ok_def big_screen_def intro!: sint_small)

lemma desktop_ok_wins: "desktop_ok d \<Longrightarrow> wm_ok (uint (FB_WIDTH d)) (uint (FB_HEIGHT d)) w \<Longrightarrow> desktop_ok (d\<lparr>wins := w\<rparr>)"
  by (simp add: desktop_ok_def)

lemma desktop_ok_event: "desktop_ok d \<Longrightarrow> desktop_ok (d\<lparr>inp := push_event v (inp d)\<rparr>)"
  using push_event_spec [of "inp d" v] by (simp add: desktop_ok_def)

lemma buttons_ok:
  assumes ok: "desktop_ok d" and xy: "0 \<le> x" "x < uint (FB_WIDTH d)" "0 \<le> y" "y < uint (FB_HEIGHT d)"
  shows "\<exists>d'. buttons btn dx dy x y d = Some d' \<and> desktop_ok d' \<and> MOUSE_X d' = MOUSE_X d \<and> MOUSE_Y d' = MOUSE_Y d"
proof -
  let ?w = "uint (FB_WIDTH d)" and ?h = "uint (FB_HEIGHT d)"
  have b: "big_screen ?w ?h" using ok by (simp add: desktop_ok_def)
  have wm: "wm_ok (uint (FB_WIDTH d)) (uint (FB_HEIGHT d)) (wins d)" if "desktop_ok d" for d using that by (simp add: desktop_ok_def)
  have c: "uint (of_int x :: u32) < 2 ^ 31" "uint (of_int y :: u32) < 2 ^ 31"
    using xy b by (simp_all add: uint_of_int big_screen_def)
  let ?same = "\<lambda>d'. MOUSE_X d' = MOUSE_X d \<and> MOUSE_Y d' = MOUSE_Y d \<and> FB_WIDTH d' = FB_WIDTH d \<and> FB_HEIGHT d' = FB_HEIGHT d \<and> PREV_BTN d' = PREV_BTN d"
  obtain d1 where 1: "(if bit btn 0 \<and> \<not> bit (PREV_BTN d) 0 then do {
        d \<leftarrow> mouse_on_click x y d;
        Some (d\<lparr>inp := push_mouse_click x y btn (inp d)\<rparr>)
      } else Some d) = Some d1" and ok1: "desktop_ok d1" "?same d1"
  proof (cases "bit btn 0 \<and> \<not> bit (PREV_BTN d) 0")
    case True
    obtain w' where w': "wm_on_click (FB_HEIGHT d) (of_int x) (of_int y) (wins d) = Some w'" "wm_ok ?w ?h w'"
      using wm_on_click_ok [OF wm [OF ok] b c] by blast
    from desktop_ok_event [OF desktop_ok_wins [OF ok w'(2)]] w'(1) True that show thesis
      by (simp add: mouse_on_click_def push_mouse_click_def)
  qed (use ok that in auto)
  obtain d2 where 2: "(if bit btn 0 \<and> (dx \<noteq> 0 \<or> dy \<noteq> 0)
      then on_wins (on_drag (FB_WIDTH d1) (FB_HEIGHT d1) x y) d1 else Some d1) = Some d2" and ok2: "desktop_ok d2" "?same d2"
  proof (cases "bit btn 0 \<and> (dx \<noteq> 0 \<or> dy \<noteq> 0)")
    case True
    obtain w' where w': "on_drag (FB_WIDTH d1) (FB_HEIGHT d1) x y (wins d1) = Some w'" "wm_ok ?w ?h w'"
      using on_drag_ok [OF _ b xy, of "wins d1" "FB_WIDTH d1" "FB_HEIGHT d1"] wm [OF ok1(1)] desktop_ok_screen [OF ok] ok1(2)
      by auto
    have "desktop_ok (d1\<lparr>wins := w'\<rparr>)" using desktop_ok_wins [OF ok1(1)] w'(2) ok1(2) by simp
    with w'(1) ok1(2) True that show thesis by simp
  qed (use ok1 that in auto)
  have "desktop_ok (d2\<lparr>wins := on_release (wins d2)\<rparr>)" by (intro desktop_ok_wins ok2 on_release_ok wm)
  with 1 2 ok2 show ?thesis by (simp add: buttons_def Let_def)
qed

lemma delta9_range: "- 256 \<le> delta9 b v \<and> delta9 b v < 256"
  using uint_lt2p [of v] by (auto simp: delta9_def intro: order_trans [of _ 0])

lemma process_packet_ok:
  assumes ok: "desktop_ok d"
  shows "\<exists>d'. process_packet d = Some d' \<and> desktop_ok d'"
proof (cases "\<not> READY d \<or> PKT d ! 0 AND 0xC0 \<noteq> 0")
  case True
  then show ?thesis using ok by (simp add: process_packet_def Let_def)
next
  case False
  let ?w = "uint (FB_WIDTH d)" and ?h = "uint (FB_HEIGHT d)"
  let ?dx = "delta9 (bit (PKT d ! 0) 4) (PKT d ! 1)" and ?dy = "delta9 (bit (PKT d ! 0) 5) (PKT d ! 2)"
  let ?x = "min (max (MOUSE_X d + ?dx) 0) (?w - 1)" and ?y = "min (max (MOUSE_Y d - ?dy) 0) (?h - 1)"
  let ?btn = "PKT d ! 0 AND 7"
  note sc = desktop_ok_screen [OF ok]
  have r: "0 < ?w" "0 < ?h" "?w < 2 ^ 30" "?h < 2 ^ 30" using ok by (simp_all add: desktop_ok_def big_screen_def)
  have xy: "0 \<le> ?x" "?x < ?w" "0 \<le> ?y" "?y < ?h" using r by auto
  let ?d = "d\<lparr>MOUSE_X := ?x, MOUSE_Y := ?y, MOUSE_BTN := ?btn\<rparr>"
  have okd: "desktop_ok ?d" using ok xy by (simp add: desktop_ok_def del: min_less_iff_disj min.bounded_iff)
  obtain d1 where b: "buttons ?btn ?dx ?dy ?x ?y ?d = Some d1" and ok1: "desktop_ok d1"
    using buttons_ok [OF okd, of ?x ?y ?btn ?dx ?dy] xy by auto
  have chk: "i32_chk (MOUSE_X d + ?dx) = Some (MOUSE_X d + ?dx)" "i32_chk (MOUSE_Y d - ?dy) = Some (MOUSE_Y d - ?dy)"
    "i32_chk (?w - 1) = Some (?w - 1)" "i32_chk (?h - 1) = Some (?h - 1)"
    using ok r delta9_range [of "bit (PKT d ! 0) 4" "PKT d ! 1"] delta9_range [of "bit (PKT d ! 0) 5" "PKT d ! 2"]
    by (auto simp: i32_chk_def desktop_ok_def)
  let ?d2 = "if ?dx \<noteq> 0 \<or> ?dy \<noteq> 0 then d1\<lparr>inp := push_mouse_move ?x ?y (inp d1)\<rparr> else d1"
  have "process_packet d = Some (?d2\<lparr>PREV_BTN := ?btn\<rparr>)"
    using False sc r chk b by (simp add: process_packet_def Let_def)
  moreover have "desktop_ok ?d2" using ok1 desktop_ok_event [OF ok1] by (simp add: push_mouse_move_def)
  then have "desktop_ok (?d2\<lparr>PREV_BTN := ?btn\<rparr>)" by (simp add: desktop_ok_def)
  ultimately show ?thesis by blast
qed

lemma handle_irq_ok:
  assumes ok: "desktop_ok d"
  shows "\<exists>d'. handle_irq byte d = Some d' \<and> desktop_ok d'"
proof (cases "PKT_IDX d = 2")
  case True
  have "desktop_ok (d\<lparr>PKT := (PKT d)[2 := byte], PKT_IDX := 0\<rparr>)" using ok by (simp add: desktop_ok_def)
  from process_packet_ok [OF this] True show ?thesis by (simp add: handle_irq_def Let_def)
next
  case False
  then show ?thesis using ok by (auto simp: handle_irq_def Let_def desktop_ok_def)
qed

section \<open>Properties\<close>

text \<open>C34: On a screen that the windows fit, no sequence of bytes from the mouse makes the kernel panic; the
  cursor stays on the screen and every window stays on it, above the task bar.\<close>

theorem mouse_keeps_desktop:
  assumes "desktop_ok d"
  shows "\<exists>d'. mfold handle_irq bs d = Some d' \<and> desktop_ok d'"
  using mfold_total [of desktop_ok d bs handle_irq] assms handle_irq_ok by blast

definition demo_desktop :: desktop where
  "demo_desktop = mouse_ready \<lparr>wins = wm_init, inp = input_init, MOUSE_X = 0, MOUSE_Y = 0, MOUSE_BTN = 0, PREV_BTN = 0,
     PKT = [0, 0, 0], PKT_IDX = 0, READY = False, FB_WIDTH = 800, FB_HEIGHT = 600\<rparr>"

lemma demo_desktop_eq:
  "demo_desktop = \<lparr>wins = wm_init, inp = input_init, MOUSE_X = 400, MOUSE_Y = 300, MOUSE_BTN = 0, PREV_BTN = 0,
     PKT = [0, 0, 0], PKT_IDX = 0, READY = True, FB_WIDTH = 800, FB_HEIGHT = 600\<rparr>"
  by (simp add: demo_desktop_def mouse_ready_def Let_def sint_small signed_divide_int_def)

lemma demo_desktop_ok: "desktop_ok demo_desktop"
  using wm_init_ok [of 800 600] input_init_ok(1) by (simp add: desktop_ok_def demo_desktop_eq big_screen_def)

theorem mouse_keeps_desktop_witness:
  "\<exists>d'. mfold handle_irq [0x07, 0x38, 0x80, 0x80, 0x09, 0xFF, 0x7F] demo_desktop = Some d' \<and> desktop_ok d'"
  using mouse_keeps_desktop [OF demo_desktop_ok, of "[0x07, 0x38, 0x80, 0x80, 0x09, 0xFF, 0x7F]"] .

text \<open>While the left button is held on a title bar, a packet moves the cursor by its signed movement, with
  the vertical axis reversed, and the dragged window follows at the distance at which it was taken;
  both are clamped to the screen, and the other windows stay where they are.\<close>

theorem drag_follows_cursor:
  assumes ok: "desktop_ok d" and st: "READY d" "PKT_IDX d = 0" "bit (PREV_BTN d) 0" "DRAG_WIN (wins d) = int i"
    and b0: "bit b0 3" "bit b0 0" "b0 AND 0xC0 = 0" and mv: "b1 \<noteq> 0 \<or> b2 \<noteq> 0"
  shows "\<exists>d'. mfold handle_irq [b0, b1, b2] d = Some d' \<and>
    MOUSE_X d' = min (max (MOUSE_X d + delta9 (bit b0 4) b1) 0) (uint (FB_WIDTH d) - 1) \<and>
    MOUSE_Y d' = min (max (MOUSE_Y d - delta9 (bit b0 5) b2) 0) (uint (FB_HEIGHT d) - 1) \<and>
    WIN_X (wins d') = (WIN_X (wins d))[i := min (max (MOUSE_X d' - DRAG_OX (wins d)) 0) (uint (FB_WIDTH d) - uint (WIN_W ! i))] \<and>
    WIN_Y (wins d') = (WIN_Y (wins d))[i := min (max (MOUSE_Y d' - DRAG_OY (wins d)) 0) (uint (FB_HEIGHT d) - 22 - uint (WIN_H ! i))]"
proof -
  obtain p0 p1 p2 where pk: "PKT d = [p0, p1, p2]"
    using ok by (auto simp: desktop_ok_def length_Suc_conv numeral_3_eq_3)
  let ?d0 = "d\<lparr>PKT := [b0, b1, b2], PKT_IDX := 0\<rparr>"
  have m: "mfold handle_irq [b0, b1, b2] d = process_packet ?d0"
    using st(2) b0(1) pk by (cases "process_packet ?d0") (simp_all add: handle_irq_def Let_def)
  let ?w = "uint (FB_WIDTH d)" and ?h = "uint (FB_HEIGHT d)"
  let ?dx = "delta9 (bit b0 4) b1" and ?dy = "delta9 (bit b0 5) b2"
  define x y where xy: "x = min (max (MOUSE_X d + ?dx) 0) (?w - 1)" "y = min (max (MOUSE_Y d - ?dy) 0) (?h - 1)"
  have r: "620 \<le> ?w" "392 \<le> ?h" "?w < 2 ^ 30" "?h < 2 ^ 30" using ok by (simp_all add: desktop_ok_def big_screen_def)
  have chk: "i32_chk (MOUSE_X d + ?dx) = Some (MOUSE_X d + ?dx)" "i32_chk (MOUSE_Y d - ?dy) = Some (MOUSE_Y d - ?dy)"
    "i32_chk (?w - 1) = Some (?w - 1)" "i32_chk (?h - 1) = Some (?h - 1)"
    using ok r delta9_range [of "bit b0 4" b1] delta9_range [of "bit b0 5" b2] by (auto simp: i32_chk_def desktop_ok_def)
  have i: "i < WIN_COUNT" using ok st(4) by (simp add: desktop_ok_def wm_ok_def)
  have mv': "?dx \<noteq> 0 \<or> ?dy \<noteq> 0"
    using mv uint_lt2p [of b1] uint_lt2p [of b2] by (auto simp: delta9_def uint_0_iff)
  let ?W = "(wins d)\<lparr>WIN_X := (WIN_X (wins d))[i := min (max (x - DRAG_OX (wins d)) 0) (?w - uint (WIN_W ! i))],
    WIN_Y := (WIN_Y (wins d))[i := min (max (y - DRAG_OY (wins d)) 0) (?h - 22 - uint (WIN_H ! i))]\<rparr>"
  have drag: "on_drag (FB_WIDTH d) (FB_HEIGHT d) x y (wins d) = Some ?W"
  proof -
    note sz = win_size [OF i]
    have sw: "sint (WIN_W ! i) = uint (WIN_W ! i)" "sint (WIN_H ! i) = uint (WIN_H ! i)"
      using sz by (intro sint_small; simp)+
    have xy: "0 \<le> x" "x < ?w" "0 \<le> y" "y < ?h" using r by (auto simp: xy)
    have "i32_chk (x - DRAG_OX (wins d)) = Some (x - DRAG_OX (wins d))" "i32_chk (y - DRAG_OY (wins d)) = Some (y - DRAG_OY (wins d))"
      "i32_chk (?w - uint (WIN_W ! i)) = Some (?w - uint (WIN_W ! i))" "i32_chk (?h - 22) = Some (?h - 22)"
      "i32_chk (?h - 22 - uint (WIN_H ! i)) = Some (?h - 22 - uint (WIN_H ! i))"
      using ok r xy sz by (auto simp: i32_chk_def desktop_ok_def wm_ok_def)
    then show ?thesis
      using i st(4) desktop_ok_screen [OF ok] sw by (simp add: on_drag_def Let_def)
  qed
  have b7: "bit (b0 AND 7) 0" using b0(2) by (simp add: bit_simps)
  let ?d1 = "?d0\<lparr>MOUSE_X := x, MOUSE_Y := y, MOUSE_BTN := b0 AND 7\<rparr>"
  have "buttons (b0 AND 7) ?dx ?dy x y ?d1 = Some (?d1\<lparr>wins := ?W\<rparr>)"
    using b7 st(3) mv' drag by (simp add: buttons_def Let_def)
  then have "process_packet ?d0 = Some (?d1\<lparr>wins := ?W, inp := push_mouse_move x y (inp d), PREV_BTN := b0 AND 7\<rparr>)"
    using st(1) b0(3) chk r mv' desktop_ok_screen [OF ok] by (simp add: process_packet_def Let_def flip: xy)
  then show ?thesis unfolding m by (simp add: xy)
qed

definition demo_drag :: desktop where
  "demo_drag = demo_desktop\<lparr>wins := wm_init\<lparr>DRAG_WIN := 0, DRAG_OX := 5, DRAG_OY := 6\<rparr>, PREV_BTN := 1\<rparr>"

theorem drag_follows_cursor_witness:
  "\<exists>d'. mfold handle_irq [0x09, 10, 4] demo_drag = Some d' \<and> MOUSE_X d' = 410 \<and> MOUSE_Y d' = 296 \<and>
    WIN_X (wins d') = [405, 330, 20] \<and> WIN_Y (wins d') = [290, 20, 240]"
proof -
  have "desktop_ok demo_drag"
    using demo_desktop_ok by (simp add: demo_drag_def desktop_ok_def demo_desktop_eq wm_ok_def win_on_screen_def wm_init_def WIN_COUNT_def)
  from drag_follows_cursor [OF this, of 0 "0x09" 10 4]
  show ?thesis
    by (simp add: demo_drag_def demo_desktop_eq bit_numeral_rec delta9_def wm_init_def WIN_INIT_X_def WIN_INIT_Y_def
        WIN_W_def WIN_H_def del: mfold.simps) (elim exE conjE, intro exI conjI, assumption, simp_all)
qed

end
