(* ===== verification/Umem.thy ===== *)
theory Umem
  imports Kernel_Prelude
begin

text \<open>
  The byte view of a user address space, as the system calls that copy to and from user pointers use it:
  a function from addresses to bytes. Address arithmetic is modulo \<open>2 ^ 64\<close>. \<open>peek\<close> and \<open>poke\<close> are
  \<open>copy_nonoverlapping\<close> out of and into user memory, \<open>rd64\<close> .. \<open>wr32\<close> the accesses through a cast pointer.
  The lemmas say what a read returns after a write: the bytes written where the two overlap exactly, the old
  bytes where they are apart.
\<close>

type_synonym umem = "u64 \<Rightarrow> u8"

definition peek :: "umem \<Rightarrow> u64 \<Rightarrow> nat \<Rightarrow> bytes" where
  "peek m a n = map (\<lambda>i. m (a + of_nat i)) [0..<n]"

fun poke :: "u64 \<Rightarrow> bytes \<Rightarrow> umem \<Rightarrow> umem" where
  "poke a [] m = m"
| "poke a (b # bs) m = poke (a + 1) bs (m(a := b))"

definition le4 :: "u32 \<Rightarrow> bytes" where
  "le4 v = map (\<lambda>i. ucast (drop_bit (8 * i) v)) [0..<4]"

definition rd64 :: "umem \<Rightarrow> u64 \<Rightarrow> u64" where "rd64 m a = from_le_bytes (peek m a 8)"
definition rd32 :: "umem \<Rightarrow> u64 \<Rightarrow> u32" where "rd32 m a = from_le_bytes (peek m a 4)"
definition wr64 :: "u64 \<Rightarrow> u64 \<Rightarrow> umem \<Rightarrow> umem" where "wr64 a v m = poke a (to_le_bytes v) m"
definition wr32 :: "u64 \<Rightarrow> u32 \<Rightarrow> umem \<Rightarrow> umem" where "wr32 a v m = poke a (le4 v) m"

text \<open>\<open>x\<close> lies in the \<open>n\<close> bytes from \<open>a\<close>.\<close>

definition within :: "u64 \<Rightarrow> u64 \<Rightarrow> nat \<Rightarrow> bool" where
  "within x a n \<longleftrightarrow> unat (x - a) < n"

lemma length_peek [simp]: "length (peek m a n) = n"
  by (simp add: peek_def)

lemma length_le4 [simp]: "length (le4 v) = 4"
  by (simp add: le4_def)

lemma from_le4 [simp]: "(from_le_bytes (le4 v) :: u32) = v"
proof (rule bit_word_eqI)
  fix n
  assume n: "n < LENGTH(32)"
  then have k: "n div 8 < 4" by simp
  have "bit (le4 v ! (n div 8)) (n mod 8) = bit v n" using n k by (simp add: le4_def bit_simps)
  with n k show "bit (from_le_bytes (le4 v) :: u32) n = bit v n" by (simp add: bit_from_le_bytes)
qed

lemma poke_append: "poke a (xs @ ys) m = poke (a + of_nat (length xs)) ys (poke a xs m)"
  by (induction xs arbitrary: a m) (simp_all add: algebra_simps)

lemma poke_apply:
  "length bs \<le> 2 ^ 64 \<Longrightarrow> poke a bs m x = (if within x a (length bs) then bs ! unat (x - a) else m x)"
proof (induction bs arbitrary: a m)
  case Nil
  then show ?case by (simp add: within_def)
next
  case (Cons b bs)
  have IH: "poke (a + 1) bs (m(a := b)) x =
      (if within x (a + 1) (length bs) then bs ! unat (x - (a + 1)) else (m(a := b)) x)"
    using Cons by simp
  show ?case
  proof (cases "x = a")
    case True
    have "unat (- 1 :: u64) = 2 ^ 64 - 1" by (simp add: unsigned_minus_1_eq_mask mask_eq_exp_minus_1)
    then have "\<not> within x (a + 1) (length bs)" using True Cons.prems by (simp add: within_def)
    then show ?thesis using IH True by (simp add: within_def)
  next
    case False
    then have "unat (x - a) = Suc (unat (x - (a + 1)))"
      using unat_minus_one [of "x - a"] unat_gt_0 [of "x - a"] by (simp add: diff_diff_add)
    then show ?thesis using IH False by (simp add: within_def)
  qed
qed

lemma unat_offset [simp]: "i < 2 ^ 64 \<Longrightarrow> unat (a + of_nat i - a :: u64) = i"
  by (simp add: unat_of_nat)

lemma within_offset: "i < n \<Longrightarrow> n \<le> 2 ^ 64 \<Longrightarrow> within (a + of_nat i) a n"
  by (simp add: within_def unat_of_nat)

lemma peek_poke_same:
  assumes "length bs \<le> 2 ^ 64"
  shows "peek (poke a bs m) a (length bs) = bs"
  using assms by (auto simp: peek_def poke_apply within_def unat_of_nat intro!: nth_equalityI)

text \<open>Two ranges apart: the first ends below the second begins, and no range wraps.\<close>

definition apart :: "u64 \<Rightarrow> nat \<Rightarrow> u64 \<Rightarrow> nat \<Rightarrow> bool" where
  "apart a n b k \<longleftrightarrow> (\<forall>i < n. \<not> within (a + of_nat i) b k)"

lemma peek_poke_apart:
  "length bs \<le> 2 ^ 64 \<Longrightarrow> apart a n b (length bs) \<Longrightarrow> peek (poke b bs m) a n = peek m a n"
  by (simp add: peek_def poke_apply apart_def)

lemma apart_offsets:
  assumes "unat (of_nat i - of_nat j :: u64) \<ge> k" and "unat (of_nat i - of_nat j :: u64) + n \<le> 2 ^ 64"
  shows "apart (a + of_nat i) n (a + of_nat j) k"
proof -
  have "unat (a + of_nat i + of_nat l - (a + of_nat j)) \<ge> k" if "l < n" for l
  proof -
    have e: "a + of_nat i + of_nat l - (a + of_nat j) = (of_nat i - of_nat j :: u64) + of_nat l" by simp
    have "unat (of_nat l :: u64) = l" using assms(2) that by (simp add: unat_of_nat)
    then have "unat ((of_nat i - of_nat j :: u64) + of_nat l) = unat (of_nat i - of_nat j :: u64) + l"
      using assms(2) that by (simp add: unat_word_ariths)
    then show ?thesis using assms(1) unfolding e by simp
  qed
  then show ?thesis by (auto simp: apart_def within_def not_less)
qed

lemma rd64_wr64_same [simp]: "rd64 (wr64 a v m) a = v"
  using peek_poke_same [of "to_le_bytes v" a m] by (simp add: rd64_def wr64_def)

lemma rd32_wr32_same [simp]: "rd32 (wr32 a v m) a = v"
  using peek_poke_same [of "le4 v" a m] by (simp add: rd32_def wr32_def)

lemma rd64_poke_apart: "length bs \<le> 2 ^ 64 \<Longrightarrow> apart a 8 b (length bs) \<Longrightarrow> rd64 (poke b bs m) a = rd64 m a"
  by (simp add: rd64_def peek_poke_apart)

lemma rd64_wr64_apart: "apart a 8 b 8 \<Longrightarrow> rd64 (wr64 b v m) a = rd64 m a"
  by (simp add: wr64_def rd64_poke_apart)

lemma poke_zeros: "poke a (replicate n 0) m x = (if \<exists>i < n. x = a + of_nat i then 0 else m x)"
proof (induction n arbitrary: a m)
  case 0
  then show ?case by simp
next
  case (Suc n)
  have "(\<exists>i < Suc n. x = a + of_nat i) \<longleftrightarrow> x = a \<or> (\<exists>i < n. x = a + 1 + of_nat i)"
    by (auto simp: less_Suc_eq_0_disj algebra_simps)
  then show ?case using Suc by auto
qed

text \<open>\<open>core::str::from_utf8\<close> accepts exactly these byte lists.\<close>

definition cont :: "u8 \<Rightarrow> bool" where "cont b \<longleftrightarrow> 0x80 \<le> b \<and> b \<le> 0xBF"

fun utf8 :: "bytes \<Rightarrow> bool" where
  "utf8 [] = True"
| "utf8 (a # bs) =
     (if a < 0x80 then utf8 bs
      else if 0xC2 \<le> a \<and> a \<le> 0xDF then
        (case bs of b # r \<Rightarrow> cont b \<and> utf8 r | [] \<Rightarrow> False)
      else if 0xE0 \<le> a \<and> a \<le> 0xEF then
        (case bs of b # c # r \<Rightarrow>
            (if a = 0xE0 then 0xA0 \<le> b \<and> b \<le> 0xBF else if a = 0xED then 0x80 \<le> b \<and> b \<le> 0x9F else cont b) \<and>
            cont c \<and> utf8 r
         | _ \<Rightarrow> False)
      else if 0xF0 \<le> a \<and> a \<le> 0xF4 then
        (case bs of b # c # d # r \<Rightarrow>
            (if a = 0xF0 then 0x90 \<le> b \<and> b \<le> 0xBF else if a = 0xF4 then 0x80 \<le> b \<and> b \<le> 0x8F else cont b) \<and>
            cont c \<and> cont d \<and> utf8 r
         | _ \<Rightarrow> False)
      else False)"

end
