(* ===== verification/Pipe.thy ===== *)
theory Pipe
  imports Input Umem "HOL-Library.Multiset"
begin

text \<open>
  Pipes, \<open>select\<close> and \<open>epoll\<close> (\<open>syscall/pipe.rs\<close>).

  \<open>fd\<close> values of type \<open>i32\<close> are 32-bit words (\<open>- 1\<close> is the unused value), user memory is that
  of theory \<open>Umem\<close>. The waiting loops of \<open>select\<close> and \<open>epoll_wait\<close> halt the core between rounds; a list
  of snapshots of keyboard and pipe, one per round, stands for what the loop finds when it is woken, and
  \<open>None\<close> means that it is still waiting after the last one.
\<close>

section \<open>The pipe\<close>

definition PIPE_CAP :: nat where "PIPE_CAP = 4096"

record pipe_state =
  PIPE :: "u8 ring"
  PIPE_READ_FD :: u32
  PIPE_WRITE_FD :: u32
  NEXT_PIPE_FD :: u32

definition pipe_init :: pipe_state where
  "pipe_init = \<lparr>PIPE = ring_new PIPE_CAP 0, PIPE_READ_FD = - 1, PIPE_WRITE_FD = - 1, NEXT_PIPE_FD = 10\<rparr>"

definition is_read_fd :: "u32 \<Rightarrow> pipe_state \<Rightarrow> bool" where
  "is_read_fd fd p \<longleftrightarrow> fd \<noteq> - 1 \<and> fd = PIPE_READ_FD p"

definition is_write_fd :: "u32 \<Rightarrow> pipe_state \<Rightarrow> bool" where
  "is_write_fd fd p \<longleftrightarrow> fd \<noteq> - 1 \<and> fd = PIPE_WRITE_FD p"

definition has_data :: "pipe_state \<Rightarrow> bool" where
  "has_data p = ring_has (PIPE p)"

definition pipe_read :: "nat \<Rightarrow> pipe_state \<Rightarrow> bytes \<times> pipe_state" where
  "pipe_read n p = (let (bs, r) = pop_upto ring_pop n (PIPE p) in (bs, p\<lparr>PIPE := r\<rparr>))"

definition pipe_write :: "bytes \<Rightarrow> pipe_state \<Rightarrow> pipe_state \<times> nat" where
  "pipe_write bs p = (let (r, n) = push_all ring_push bs (PIPE p) in (p\<lparr>PIPE := r\<rparr>, n))"

text \<open>The outer \<open>None\<close> is the panic of \<open>r + 1\<close>.\<close>

definition sys_pipe :: "u64 \<Rightarrow> pipe_state \<times> umem \<Rightarrow> ((pipe_state \<times> umem) \<times> int) option" where
  "sys_pipe fds_vaddr pm =
     (case pm of (p, m) \<Rightarrow>
      if fds_vaddr = 0 then Some ((p, m), EFAULT)
      else
        let r = NEXT_PIPE_FD p in
        if r = 0x7FFFFFFF then None
        else
          let w = r + 1;
              p = p\<lparr>NEXT_PIPE_FD := r + 2, PIPE_READ_FD := r, PIPE_WRITE_FD := w,
                PIPE := (PIPE p)\<lparr>rhead := 0, rtail := 0\<rparr>\<rparr>
          in Some ((p, poke (fds_vaddr + 4) (le4 w) (poke fds_vaddr (le4 r) m)), 0))"

section \<open>Readiness\<close>

type_synonym snapshot = "input \<times> pipe_state"

definition is_read_ready :: "snapshot \<Rightarrow> u64 \<Rightarrow> bool" where
  "is_read_ready e fd =
     (if (ucast fd :: u32) = 0 then has_key (fst e)
      else if is_read_fd (ucast fd) (snd e) then has_data (snd e) else False)"

definition is_write_ready :: "snapshot \<Rightarrow> u64 \<Rightarrow> bool" where
  "is_write_ready e fd \<longleftrightarrow> fd = 1 \<or> fd = 2 \<or> is_write_fd (ucast fd) (snd e)"

section \<open>\<open>select\<close>\<close>

definition fd_isset :: "umem \<Rightarrow> u64 \<Rightarrow> nat \<Rightarrow> bool" where
  "fd_isset m fds_ptr fd \<longleftrightarrow> fds_ptr \<noteq> 0 \<and> fd < 1024 \<and> bit (m (fds_ptr + of_nat (fd div 8))) (fd mod 8)"

definition fd_set_bit :: "u64 \<Rightarrow> nat \<Rightarrow> umem \<Rightarrow> umem" where
  "fd_set_bit fds_ptr fd m =
     (if fds_ptr = 0 \<or> fd \<ge> 1024 then m
      else let a = fds_ptr + of_nat (fd div 8) in m(a := m a OR push_bit (fd mod 8) 1))"

definition fds_zero :: "u64 \<Rightarrow> umem \<Rightarrow> umem" where
  "fds_zero fds_ptr m = (if fds_ptr = 0 then m else poke fds_ptr (replicate 128 0) m)"

text \<open>One pass over the descriptors.\<close>

fun select_scan :: "snapshot \<Rightarrow> bytes \<Rightarrow> bytes \<Rightarrow> u64 \<Rightarrow> u64 \<Rightarrow> nat list \<Rightarrow> umem \<times> int \<Rightarrow> umem \<times> int" where
  "select_scan e orig_r orig_w rfds wfds [] mr = mr"
| "select_scan e orig_r orig_w rfds wfds (fd # fds) (m, ready) =
     (let byte = fd div 8;
          (m, ready) = (if bit (orig_r ! byte) (fd mod 8) \<and> is_read_ready e (of_nat fd)
                        then (fd_set_bit rfds fd m, ready + 1) else (m, ready));
          (m, ready) = (if bit (orig_w ! byte) (fd mod 8) \<and> is_write_ready e (of_nat fd)
                        then (fd_set_bit wfds fd m, ready + 1) else (m, ready))
      in select_scan e orig_r orig_w rfds wfds fds (m, ready))"

fun select_loop :: "snapshot list \<Rightarrow> bytes \<Rightarrow> bytes \<Rightarrow> nat \<Rightarrow> u64 \<Rightarrow> u64 \<Rightarrow> bool \<Rightarrow> umem \<Rightarrow> (umem \<times> int) option" where
  "select_loop [] orig_r orig_w nfds rfds wfds blocking m = None"
| "select_loop (e # es) orig_r orig_w nfds rfds wfds blocking m =
     (let m = fds_zero wfds (fds_zero rfds m);
          (m, ready) = select_scan e orig_r orig_w rfds wfds [0..<min nfds 1024] (m, 0)
      in if ready > 0 \<or> \<not> blocking then Some (m, ready)
         else select_loop es orig_r orig_w nfds rfds wfds blocking m)"

definition sys_select_inner :: "snapshot list \<Rightarrow> nat \<Rightarrow> u64 \<Rightarrow> u64 \<Rightarrow> bool \<Rightarrow> umem \<Rightarrow> (umem \<times> int) option" where
  "sys_select_inner es nfds rfds wfds blocking m =
     (let orig_r = (if rfds \<noteq> 0 then peek m rfds 128 else replicate 128 0);
          orig_w = (if wfds \<noteq> 0 then peek m wfds 128 else replicate 128 0)
      in select_loop es orig_r orig_w nfds rfds wfds blocking m)"

text \<open>No timeout blocks; so does one that is not zero.\<close>

definition select_blocking :: "umem \<Rightarrow> u64 \<Rightarrow> bool" where
  "select_blocking m timeout \<longleftrightarrow> timeout = 0 \<or> (from_le_bytes (peek m timeout 8) :: u64) \<noteq> 0 \<or>
     (from_le_bytes (peek m (timeout + 8) 8) :: u64) \<noteq> 0"

definition sys_select :: "snapshot list \<Rightarrow> u64 \<Rightarrow> u64 \<Rightarrow> u64 \<Rightarrow> u64 \<Rightarrow> u64 \<Rightarrow> umem \<Rightarrow> (umem \<times> int) option" where
  "sys_select es nfds rfds wfds efds timeout m =
     (let blocking = select_blocking m timeout;
          m = fds_zero efds (fds_zero wfds (fds_zero rfds m))
      in sys_select_inner es (unat nfds) rfds wfds blocking m)"

section \<open>\<open>epoll\<close>\<close>

definition EPOLL_MAX :: nat where "EPOLL_MAX = 16"
definition EPOLLIN :: u32 where "EPOLLIN = 1"
definition EPOLLOUT :: u32 where "EPOLLOUT = 4"
definition EPOLL_CTL_ADD :: u64 where "EPOLL_CTL_ADD = 1"
definition EPOLL_CTL_DEL :: u64 where "EPOLL_CTL_DEL = 2"
definition EPOLL_CTL_MOD :: u64 where "EPOLL_CTL_MOD = 3"

record epoll =
  EP_FD :: "u32 list"
  EP_EV :: "u32 list"
  EP_DATA :: "u64 list"
  EP_CNT :: nat

definition epoll_init :: epoll where
  "epoll_init = \<lparr>EP_FD = replicate EPOLL_MAX (- 1), EP_EV = replicate EPOLL_MAX 0, EP_DATA = replicate EPOLL_MAX 0, EP_CNT = 0\<rparr>"

definition sys_epoll_create :: "epoll \<Rightarrow> epoll \<times> int" where
  "sys_epoll_create p = (p\<lparr>EP_CNT := 0, EP_FD := replicate EPOLL_MAX (- 1)\<rparr>, 9)"

text \<open>Events and data of the request: read from the caller's structure, or defaults.\<close>

definition epoll_request :: "umem \<Rightarrow> u32 \<Rightarrow> u64 \<Rightarrow> u32 \<times> u64" where
  "epoll_request m fd ev_vaddr =
     (if ev_vaddr \<noteq> 0 then (from_le_bytes (peek m ev_vaddr 4), from_le_bytes (peek m (ev_vaddr + 8) 8))
      else (EPOLLIN, scast fd))"

definition epoll_add :: "u32 \<Rightarrow> u32 \<Rightarrow> u64 \<Rightarrow> epoll \<Rightarrow> epoll" where
  "epoll_add fd events data p =
     (let n = EP_CNT p in
      case find_idx (\<lambda>f. f = fd) (take n (EP_FD p)) of
        Some i \<Rightarrow> p\<lparr>EP_EV := (EP_EV p)[i := events], EP_DATA := (EP_DATA p)[i := data]\<rparr>
      | None \<Rightarrow>
          if n < EPOLL_MAX
          then p\<lparr>EP_FD := (EP_FD p)[n := fd], EP_EV := (EP_EV p)[n := events], EP_DATA := (EP_DATA p)[n := data], EP_CNT := n + 1\<rparr>
          else p)"

definition epoll_del :: "u32 \<Rightarrow> epoll \<Rightarrow> epoll" where
  "epoll_del fd p =
     (let n = EP_CNT p in
      case find_idx (\<lambda>f. f = fd) (take n (EP_FD p)) of
        None \<Rightarrow> p
      | Some i \<Rightarrow>
          let lst = n - 1;
              p = (if i < lst
                   then p\<lparr>EP_FD := (EP_FD p)[i := EP_FD p ! lst], EP_EV := (EP_EV p)[i := EP_EV p ! lst],
                     EP_DATA := (EP_DATA p)[i := EP_DATA p ! lst]\<rparr>
                   else p)
          in p\<lparr>EP_FD := (EP_FD p)[lst := - 1], EP_CNT := n - 1\<rparr>)"

definition sys_epoll_ctl :: "umem \<Rightarrow> u64 \<Rightarrow> u64 \<Rightarrow> u64 \<Rightarrow> epoll \<Rightarrow> epoll \<times> int" where
  "sys_epoll_ctl m op fd64 ev_vaddr p =
     (let fd = ucast fd64 :: u32;
          (events, data) = epoll_request m fd ev_vaddr
      in if op = EPOLL_CTL_ADD \<or> op = EPOLL_CTL_MOD then (epoll_add fd events data p, 0)
         else if op = EPOLL_CTL_DEL then (epoll_del fd p, 0)
         else (p, EINVAL))"

definition ready_events :: "snapshot \<Rightarrow> u32 \<Rightarrow> u32 \<Rightarrow> u32" where
  "ready_events e fd ev =
     (if ev AND EPOLLIN \<noteq> 0 \<and> is_read_ready e (scast fd) then EPOLLIN else 0) OR
     (if ev AND EPOLLOUT \<noteq> 0 \<and> is_write_ready e (scast fd) then EPOLLOUT else 0)"

text \<open>One pass over the table: the events written to the caller's array, entries of 12 bytes.\<close>

fun epoll_scan :: "snapshot \<Rightarrow> nat \<Rightarrow> u64 \<Rightarrow> (u32 \<times> u32 \<times> u64) list \<Rightarrow> nat \<Rightarrow> umem \<Rightarrow> umem \<times> nat" where
  "epoll_scan e mx ev_vaddr [] out m = (m, out)"
| "epoll_scan e mx ev_vaddr ((fd, ev, data) # xs) out m =
     (if out \<ge> mx then (m, out)
      else
        let ready = ready_events e fd ev in
        if ready \<noteq> 0 then
          let b = ev_vaddr + of_nat out * 12
          in epoll_scan e mx ev_vaddr xs (out + 1) (poke (b + 4) (to_le_bytes data) (poke b (le4 ready) m))
        else epoll_scan e mx ev_vaddr xs out m)"

definition epoll_entries :: "epoll \<Rightarrow> (u32 \<times> u32 \<times> u64) list" where
  "epoll_entries p = take (EP_CNT p) (zip (EP_FD p) (zip (EP_EV p) (EP_DATA p)))"

fun epoll_loop :: "snapshot list \<Rightarrow> nat \<Rightarrow> u64 \<Rightarrow> bool \<Rightarrow> epoll \<Rightarrow> umem \<Rightarrow> (umem \<times> int) option" where
  "epoll_loop [] mx ev_vaddr blocking p m = None"
| "epoll_loop (e # es) mx ev_vaddr blocking p m =
     (let (m, out) = epoll_scan e mx ev_vaddr (epoll_entries p) 0 m in
      if out > 0 then Some (m, int out)
      else if \<not> blocking then Some (m, 0)
      else epoll_loop es mx ev_vaddr blocking p m)"

definition sys_epoll_wait :: "snapshot list \<Rightarrow> u64 \<Rightarrow> u64 \<Rightarrow> u64 \<Rightarrow> epoll \<Rightarrow> umem \<Rightarrow> (umem \<times> int) option" where
  "sys_epoll_wait es ev_vaddr maxevents timeout p m =
     (if ev_vaddr = 0 then Some (m, EFAULT)
      else if unat maxevents = 0 then Some (m, EINVAL)
      else epoll_loop es (unat maxevents) ev_vaddr (timeout \<noteq> 0) p m)"

section \<open>The pipe refines a bounded byte queue\<close>

definition pipe_ok :: "pipe_state \<Rightarrow> bool" where
  "pipe_ok p \<longleftrightarrow> ring_ok PIPE_CAP (PIPE p)"

abbreviation pipe_bytes :: "pipe_state \<Rightarrow> bytes" where
  "pipe_bytes p \<equiv> ring_contents (PIPE p)"

datatype pipe_op = Write bytes | Read nat

datatype pipe_res = Wrote nat | Got bytes

fun run_pipe :: "pipe_op list \<Rightarrow> pipe_state \<Rightarrow> pipe_res list \<times> pipe_state" where
  "run_pipe [] p = ([], p)"
| "run_pipe (Write bs # ops) p = (let (p, n) = pipe_write bs p; (rs, p) = run_pipe ops p in (Wrote n # rs, p))"
| "run_pipe (Read n # ops) p = (let (bs, p) = pipe_read n p; (rs, p) = run_pipe ops p in (Got bs # rs, p))"

text \<open>The specification: a byte list that never holds more than 4095 bytes.\<close>

fun run_fifo :: "pipe_op list \<Rightarrow> bytes \<Rightarrow> pipe_res list \<times> bytes" where
  "run_fifo [] q = ([], q)"
| "run_fifo (Write bs # ops) q =
     (let n = min (length bs) (4095 - length q); (rs, q') = run_fifo ops (q @ take n bs) in (Wrote n # rs, q'))"
| "run_fifo (Read n # ops) q = (let (rs, q') = run_fifo ops (drop n q) in (Got (take n q) # rs, q'))"

lemma pipe_okD: "pipe_ok p \<Longrightarrow> ring_ok (Suc 4095) (PIPE p) \<and> length (pipe_bytes p) \<le> 4095"
  using ring_len_less [of 4096 "PIPE p"] by (simp add: pipe_ok_def PIPE_CAP_def)

lemma pipe_init_ok: "pipe_ok pipe_init" "pipe_bytes pipe_init = []"
  by (simp_all add: pipe_ok_def pipe_init_def ring_new_ok PIPE_CAP_def)

lemma pipe_write_spec:
  assumes "pipe_ok p" and "pipe_write bs p = (p', n)"
  shows "pipe_ok p' \<and> n = min (length bs) (4095 - length (pipe_bytes p)) \<and> pipe_bytes p' = pipe_bytes p @ take n bs"
proof -
  obtain r where r: "push_all ring_push bs (PIPE p) = (r, n)" and p': "p' = p\<lparr>PIPE := r\<rparr>"
    using assms(2) by (auto simp: pipe_write_def split: prod.splits)
  from ring.push_all_spec [of 4095 "PIPE p" bs r n] pipe_okD [OF assms(1)] r show ?thesis
    by (simp add: p' pipe_ok_def PIPE_CAP_def)
qed

lemma pipe_read_spec:
  assumes "pipe_ok p" and "pipe_read n p = (bs, p')"
  shows "pipe_ok p' \<and> bs = take n (pipe_bytes p) \<and> pipe_bytes p' = drop n (pipe_bytes p)"
proof -
  obtain r where r: "pop_upto ring_pop n (PIPE p) = (bs, r)" and p': "p' = p\<lparr>PIPE := r\<rparr>"
    using assms(2) by (auto simp: pipe_read_def split: prod.splits)
  from ring.pop_upto_spec [of 4095 "PIPE p" n bs r] pipe_okD [OF assms(1)] r show ?thesis
    by (simp add: p' pipe_ok_def PIPE_CAP_def)
qed

text \<open>C6: The pipe implements a bounded byte queue: whatever the order of writes and reads, every answer is
  that of a first-in first-out list of at most 4095 bytes, and so is what remains in the buffer.\<close>

theorem pipe_refines_fifo:
  assumes "pipe_ok p" and "run_pipe ops p = (rs, p')"
  shows "run_fifo ops (pipe_bytes p) = (rs, pipe_bytes p') \<and> pipe_ok p'"
  using assms
proof (induction ops arbitrary: p rs)
  case Nil
  then show ?case by simp
next
  case (Cons op ops)
  show ?case
  proof (cases op)
    case (Write bs)
    obtain p1 n where w: "pipe_write bs p = (p1, n)" by fastforce
    obtain qs where r: "run_pipe ops p1 = (qs, p')" "rs = Wrote n # qs"
      using Cons.prems(2) w Write by (auto split: prod.splits)
    note s = pipe_write_spec [OF Cons.prems(1) w]
    from Cons.IH [OF _ r(1)] s have "run_fifo ops (pipe_bytes p @ take n bs) = (qs, pipe_bytes p') \<and> pipe_ok p'" by simp
    then show ?thesis using s r(2) Write by (simp add: Let_def)
  next
    case (Read n)
    obtain bs p1 where w: "pipe_read n p = (bs, p1)" by fastforce
    obtain qs where r: "run_pipe ops p1 = (qs, p')" "rs = Got bs # qs"
      using Cons.prems(2) w Read by (auto split: prod.splits)
    note s = pipe_read_spec [OF Cons.prems(1) w]
    from Cons.IH [OF _ r(1)] s have "run_fifo ops (drop n (pipe_bytes p)) = (qs, pipe_bytes p') \<and> pipe_ok p'" by simp
    then show ?thesis using s r(2) Read by simp
  qed
qed

theorem pipe_refines_fifo_witness:
  "fst (run_pipe [Write [1, 2, 3], Read 2, Write [4], Read 9] pipe_init) = [Wrote 3, Got [1, 2], Wrote 1, Got [3, 4]]"
proof -
  obtain rs p' where r: "run_pipe [Write [1, 2, 3], Read 2, Write [4], Read 9] pipe_init = (rs, p')" by fastforce
  from pipe_refines_fifo [OF pipe_init_ok(1) r] have "rs = fst (run_fifo [Write [1, 2, 3], Read 2, Write [4], Read 9] [])"
    unfolding pipe_init_ok(2) by simp
  moreover have "run_fifo [Write [1, 2, 3], Read 2, Write [4], Read 9] [] = ([Wrote 3, Got [1, 2], Wrote 1, Got [3, 4]], [])"
    by code_simp
  ultimately show ?thesis unfolding r by simp
qed

section \<open>\<open>select\<close> clears what it was asked\<close>

definition cleared :: "u64 \<Rightarrow> umem \<Rightarrow> bool" where
  "cleared p m \<longleftrightarrow> (p \<noteq> 0 \<longrightarrow> (\<forall>i < 128. m (p + of_nat i) = 0))"

lemma fds_zero_cleared: "cleared p (fds_zero p m)" "cleared q m \<Longrightarrow> cleared q (fds_zero p m)"
  by (auto simp: cleared_def fds_zero_def poke_zeros)

lemma cleared_isset: "cleared p m \<Longrightarrow> \<not> fd_isset m p fd"
  by (auto simp: cleared_def fd_isset_def less_mult_imp_div_less)

lemma cleared_peek: "cleared p m \<Longrightarrow> p \<noteq> 0 \<Longrightarrow> peek m p 128 = replicate 128 0"
  by (simp add: cleared_def peek_def list_eq_iff_nth_eq)

lemma select_scan_nothing:
  assumes "\<forall>fd \<in> set fds. fd < 1024"
  shows "select_scan e (replicate 128 0) (replicate 128 0) rfds wfds fds mr = mr"
  using assms by (induction fds arbitrary: mr) (auto simp: less_mult_imp_div_less)

lemma select_loop_nothing:
  "select_loop es (replicate 128 0) (replicate 128 0) nfds rfds wfds blocking m =
     (if blocking \<or> es = [] then None else Some (fds_zero wfds (fds_zero rfds m), 0))"
proof (induction es arbitrary: m)
  case (Cons e es)
  have "select_loop es (replicate 128 0) (replicate 128 0) nfds rfds wfds True m = None" if blocking for m
    using Cons.IH [of m] that by simp
  then show ?case by (simp add: select_scan_nothing)
qed simp

text \<open>\<open>select\<close> never reports a descriptor. It zeroes the caller's sets before it copies them, so with a
  zero timeout it returns 0 with all three sets empty, and without one it waits for ever, whatever
  becomes ready.\<close>

theorem select_reports_nothing:
  "if select_blocking m timeout then sys_select es nfds rfds wfds efds timeout m = None
   else \<exists>m'. sys_select (e # es) nfds rfds wfds efds timeout m = Some (m', 0) \<and>
     (\<forall>fd. \<not> fd_isset m' rfds fd \<and> \<not> fd_isset m' wfds fd \<and> \<not> fd_isset m' efds fd)"
proof -
  let ?m = "fds_zero efds (fds_zero wfds (fds_zero rfds m))"
  have c: "cleared rfds ?m" "cleared wfds ?m" by (simp_all add: fds_zero_cleared)
  have "(if p \<noteq> 0 then peek ?m p 128 else replicate 128 0) = replicate 128 0" if "cleared p ?m" for p
    using that by (simp add: cleared_peek)
  then have "sys_select es nfds rfds wfds efds timeout m =
      select_loop es (replicate 128 0) (replicate 128 0) (unat nfds) rfds wfds (select_blocking m timeout) ?m" for es
    using c by (simp add: sys_select_def sys_select_inner_def Let_def)
  then show ?thesis by (simp add: select_loop_nothing cleared_isset fds_zero_cleared)
qed

section \<open>The epoll table refines a finite map\<close>

definition epoll_ok :: "epoll \<Rightarrow> bool" where
  "epoll_ok p \<longleftrightarrow> length (EP_FD p) = EPOLL_MAX \<and> length (EP_EV p) = EPOLL_MAX \<and> length (EP_DATA p) = EPOLL_MAX \<and>
     EP_CNT p \<le> EPOLL_MAX \<and> distinct (take (EP_CNT p) (EP_FD p))"

definition epoll_view :: "epoll \<Rightarrow> u32 \<rightharpoonup> u32 \<times> u64" where
  "epoll_view p = map_of (epoll_entries p)"

lemma epoll_entries_simps:
  assumes "epoll_ok p"
  shows "length (epoll_entries p) = EP_CNT p" "map fst (epoll_entries p) = take (EP_CNT p) (EP_FD p)"
    "i < EP_CNT p \<Longrightarrow> epoll_entries p ! i = (EP_FD p ! i, EP_EV p ! i, EP_DATA p ! i)"
  using assms by (simp_all add: epoll_entries_def epoll_ok_def take_map [symmetric])

lemma map_of_swap_remove:
  assumes d: "distinct (map fst xs)" and i: "i < length xs"
  shows "map_of (butlast (xs[i := last xs])) = (map_of xs)(fst (xs ! i) := None)"
    and "distinct (map fst (butlast (xs[i := last xs])))"
proof -
  let ?ys = "butlast (xs[i := last xs])"
  have ne: "xs \<noteq> []" using i by auto
  have l: "last (xs[i := last xs]) = last xs" using i ne by (simp add: last_list_update)
  have "mset ?ys = mset (xs[i := last xs]) - {#last xs#}"
    using ne l by (metis append_butlast_last_id add_diff_cancel_right' mset.simps mset_append list_update_nonempty)
  then have m: "mset ?ys = mset xs - {#xs ! i#}" using i by (simp add: mset_update)
  then have ms: "add_mset (xs ! i) (mset ?ys) = mset xs" using i by simp
  have "mset (map fst (xs ! i # ?ys)) = mset (map fst xs)" using arg_cong [OF ms, of "image_mset fst"] by simp
  then have d': "distinct (map fst (xs ! i # ?ys))" using d mset_eq_imp_distinct_iff by blast
  then show "distinct (map fst ?ys)" by simp
  have s: "set xs = insert (xs ! i) (set ?ys)" using arg_cong [OF ms, of set_mset] by simp
  show "map_of ?ys = (map_of xs)(fst (xs ! i) := None)"
  proof
    fix k
    have "fst (xs ! i) \<notin> fst ` set ?ys" using d' by simp
    moreover have "map_of ?ys k = map_of xs k" if "k \<noteq> fst (xs ! i)"
    proof -
      have "map_of ?ys k = Some v \<longleftrightarrow> map_of xs k = Some v" for v
        using map_of_eq_Some_iff [of ?ys k v] map_of_eq_Some_iff [OF d, of k v] d' s that
        by (metis distinct.simps(2) fst_conv insert_iff list.simps(9))
      then show ?thesis by (metis not_Some_eq)
    qed
    ultimately show "map_of ?ys k = ((map_of xs)(fst (xs ! i) := None)) k"
      by (cases "k = fst (xs ! i)") (simp_all add: map_of_eq_None_iff)
  qed
qed

lemma epoll_slot:
  assumes ok: "epoll_ok p"
  shows "find_idx (\<lambda>f. f = fd) (take (EP_CNT p) (EP_FD p)) = None \<longleftrightarrow> epoll_view p fd = None"
    and "find_idx (\<lambda>f. f = fd) (take (EP_CNT p) (EP_FD p)) = Some i \<Longrightarrow> i < EP_CNT p \<and> EP_FD p ! i = fd"
proof -
  have "fst ` set (epoll_entries p) = set (take (EP_CNT p) (EP_FD p))"
    using epoll_entries_simps(2) [OF ok] by (metis set_map)
  then show "find_idx (\<lambda>f. f = fd) (take (EP_CNT p) (EP_FD p)) = None \<longleftrightarrow> epoll_view p fd = None"
    by (auto simp: epoll_view_def map_of_eq_None_iff)
  show "find_idx (\<lambda>f. f = fd) (take (EP_CNT p) (EP_FD p)) = Some i \<Longrightarrow> i < EP_CNT p \<and> EP_FD p ! i = fd"
    by (auto simp: find_idx_Some_iff)
qed

lemma epoll_add_spec:
  assumes ok: "epoll_ok p"
  shows "epoll_ok (epoll_add fd ev data p) \<and>
    epoll_view (epoll_add fd ev data p) =
      (if epoll_view p fd \<noteq> None \<or> EP_CNT p < EPOLL_MAX then (epoll_view p)(fd \<mapsto> (ev, data)) else epoll_view p)"
proof (cases "find_idx (\<lambda>f. f = fd) (take (EP_CNT p) (EP_FD p))")
  case (Some i)
  note i = epoll_slot(2) [OF ok Some]
  let ?p = "p\<lparr>EP_EV := (EP_EV p)[i := ev], EP_DATA := (EP_DATA p)[i := data]\<rparr>"
  have a: "epoll_add fd ev data p = ?p" using Some by (simp add: epoll_add_def Let_def)
  have ok': "epoll_ok ?p" using ok by (simp add: epoll_ok_def)
  have "epoll_entries ?p = (epoll_entries p)[i := (fd, ev, data)]"
    using i ok epoll_entries_simps [OF ok'] epoll_entries_simps [OF ok]
    by (auto intro!: nth_equalityI simp: nth_list_update epoll_ok_def)
  moreover have "distinct (map fst (epoll_entries p))" using epoll_entries_simps(2) [OF ok] ok by (simp add: epoll_ok_def)
  ultimately have "epoll_view ?p = (epoll_view p)(fd \<mapsto> (ev, data))"
    using map_of_update [of "epoll_entries p" i fd "(ev, data)"] i epoll_entries_simps [OF ok] by (simp add: epoll_view_def)
  moreover have "epoll_view p fd \<noteq> None" using epoll_slot(1) [OF ok, of fd] Some by simp
  ultimately show ?thesis using a ok' by simp
next
  case None
  then have v: "epoll_view p fd = None" using epoll_slot(1) [OF ok] by simp
  show ?thesis
  proof (cases "EP_CNT p < EPOLL_MAX")
    case True
    let ?n = "EP_CNT p"
    let ?p = "p\<lparr>EP_FD := (EP_FD p)[?n := fd], EP_EV := (EP_EV p)[?n := ev], EP_DATA := (EP_DATA p)[?n := data], EP_CNT := ?n + 1\<rparr>"
    have a: "epoll_add fd ev data p = ?p" using None True by (simp add: epoll_add_def Let_def del: find_idx_None_iff)
    have t: "take (?n + 1) ((EP_FD p)[?n := fd]) = take ?n (EP_FD p) @ [fd]"
      using True ok by (simp add: take_Suc_conv_app_nth epoll_ok_def)
    have ok': "epoll_ok ?p" using ok True None t by (auto simp: epoll_ok_def)
    have "epoll_entries ?p = epoll_entries p @ [(fd, ev, data)]"
      using True ok epoll_entries_simps [OF ok'] epoll_entries_simps [OF ok]
      by (auto intro!: nth_equalityI simp: nth_append nth_list_update epoll_ok_def less_Suc_eq)
    then have "epoll_view ?p = (epoll_view p)(fd \<mapsto> (ev, data))"
      using v by (auto simp: epoll_view_def map_add_def fun_eq_iff split: option.splits)
    then show ?thesis using a ok' True by simp
  next
    case False
    then show ?thesis using None v ok by (simp add: epoll_add_def Let_def del: find_idx_None_iff)
  qed
qed

lemma epoll_del_spec:
  assumes ok: "epoll_ok p"
  shows "epoll_ok (epoll_del fd p) \<and> epoll_view (epoll_del fd p) = (epoll_view p)(fd := None)"
proof (cases "find_idx (\<lambda>f. f = fd) (take (EP_CNT p) (EP_FD p))")
  case None
  then show ?thesis using ok epoll_slot(1) [OF ok, of fd] by (simp add: epoll_del_def fun_upd_idem del: find_idx_None_iff)
next
  case (Some i)
  note i = epoll_slot(2) [OF ok Some]
  let ?n = "EP_CNT p" and ?l = "EP_CNT p - 1"
  have len: "length (EP_FD p) = 16" "length (EP_EV p) = 16" "length (EP_DATA p) = 16" "?n \<le> 16" "?n > 0"
    using ok i by (auto simp: epoll_ok_def EPOLL_MAX_def)
  let ?p = "epoll_del fd p"
  let ?xs = "epoll_entries p"
  have cnt: "EP_CNT ?p = ?l" using Some by (simp add: epoll_del_def Let_def)
  have lens: "length (EP_FD ?p) = 16" "length (EP_EV ?p) = 16" "length (EP_DATA ?p) = 16"
    using Some len by (simp_all add: epoll_del_def Let_def)
  have nth: "EP_FD ?p ! j = (if j = i then EP_FD p ! ?l else EP_FD p ! j)"
    "EP_EV ?p ! j = (if j = i then EP_EV p ! ?l else EP_EV p ! j)"
    "EP_DATA ?p ! j = (if j = i then EP_DATA p ! ?l else EP_DATA p ! j)" if "j < ?l" for j
    using Some len that i by (auto simp: epoll_del_def Let_def nth_list_update)
  have xs: "length ?xs = ?n" using epoll_entries_simps(1) [OF ok] .
  have lst: "last ?xs = ?xs ! ?l" using xs len by (subst last_conv_nth) auto
  have ent: "epoll_entries ?p = butlast (?xs[i := last ?xs])"
  proof (rule nth_equalityI)
    show "length (epoll_entries ?p) = length (butlast (?xs[i := last ?xs]))"
      using lens cnt len xs by (simp add: epoll_entries_def)
  next
    fix j assume "j < length (epoll_entries ?p)"
    then have j: "j < ?l" using lens cnt len by (simp add: epoll_entries_def)
    have "epoll_entries ?p ! j = (EP_FD ?p ! j, EP_EV ?p ! j, EP_DATA ?p ! j)"
      using j lens cnt len by (simp add: epoll_entries_def)
    also have "\<dots> = (if j = i then ?xs ! ?l else ?xs ! j)"
      using nth [OF j] epoll_entries_simps(3) [OF ok] j len by simp
    also have "\<dots> = butlast (?xs[i := last ?xs]) ! j"
      using j xs len lst by (auto simp: nth_butlast nth_list_update)
    finally show "epoll_entries ?p ! j = butlast (?xs[i := last ?xs]) ! j" .
  qed
  have d: "distinct (map fst ?xs)" using epoll_entries_simps(2) [OF ok] ok by (simp add: epoll_ok_def)
  have ix: "i < length ?xs" using i xs by simp
  have "map fst (epoll_entries ?p) = take ?l (EP_FD ?p)"
    using lens cnt len by (simp add: epoll_entries_def take_map [symmetric])
  then have "distinct (take ?l (EP_FD ?p))" using map_of_swap_remove(2) [OF d ix] ent by simp
  moreover have "fst (?xs ! i) = fd" using epoll_entries_simps(3) [OF ok] i by simp
  ultimately show ?thesis
    using map_of_swap_remove(1) [OF d ix] ent lens cnt len by (simp add: epoll_ok_def epoll_view_def EPOLL_MAX_def)
qed

text \<open>The epoll table implements a finite map from descriptors to event mask and data: adding or changing
  updates one key unless the descriptor is new and all 16 slots are taken, in which case nothing is
  registered although the call returns 0; deleting removes one key; other operations fail.\<close>

theorem epoll_ctl_refines_map:
  assumes "epoll_ok p" and "epoll_request m (ucast fd) ev_vaddr = (ev, data)" and "sys_epoll_ctl m op fd ev_vaddr p = (p', r)"
  shows "epoll_ok p' \<and>
    (op \<in> {EPOLL_CTL_ADD, EPOLL_CTL_MOD} \<longrightarrow> r = 0 \<and> epoll_view p' =
      (if epoll_view p (ucast fd) \<noteq> None \<or> EP_CNT p < EPOLL_MAX then (epoll_view p)(ucast fd \<mapsto> (ev, data)) else epoll_view p)) \<and>
    (op = EPOLL_CTL_DEL \<longrightarrow> r = 0 \<and> epoll_view p' = (epoll_view p)(ucast fd := None)) \<and>
    (op \<notin> {EPOLL_CTL_ADD, EPOLL_CTL_MOD, EPOLL_CTL_DEL} \<longrightarrow> r = EINVAL \<and> p' = p)"
  using assms(2,3) epoll_add_spec [OF assms(1)] epoll_del_spec [OF assms(1)] assms(1)
  by (auto simp: sys_epoll_ctl_def Let_def EPOLL_CTL_ADD_def EPOLL_CTL_MOD_def EPOLL_CTL_DEL_def split: if_splits)

lemma epoll_init_ok: "epoll_ok epoll_init" "epoll_view epoll_init = Map.empty"
  by (simp_all add: epoll_ok_def epoll_init_def epoll_view_def epoll_entries_def)

theorem epoll_ctl_refines_map_witness:
  "epoll_view (fst (sys_epoll_ctl (\<lambda>_. 0) 1 10 0 epoll_init)) 10 = Some (1, 10)"
proof -
  obtain p' r where c: "sys_epoll_ctl (\<lambda>_. 0) 1 10 0 epoll_init = (p', r)" by fastforce
  have "epoll_request (\<lambda>_. 0) (ucast (10 :: u64)) 0 = (1, 10)" by (simp add: epoll_request_def EPOLLIN_def)
  from epoll_ctl_refines_map [OF epoll_init_ok(1) this c]
  have "epoll_view p' = [10 \<mapsto> (1, 10)]" using epoll_init_ok(2) by (simp add: EPOLL_CTL_ADD_def epoll_init_def EPOLL_MAX_def)
  then show ?thesis by (simp add: c)
qed

section \<open>What \<open>epoll_wait\<close> reports\<close>

text \<open>The registered descriptors that are ready, in table order, and their encoding in the caller's array.\<close>

definition ready_list :: "snapshot \<Rightarrow> (u32 \<times> u32 \<times> u64) list \<Rightarrow> (u32 \<times> u64) list" where
  "ready_list e xs = filter (\<lambda>(r, _). r \<noteq> 0) (map (\<lambda>(fd, ev, data). (ready_events e fd ev, data)) xs)"

definition encode_events :: "(u32 \<times> u64) list \<Rightarrow> bytes" where
  "encode_events es = concat (map (\<lambda>(r, data). le4 r @ to_le_bytes data) es)"

lemma length_encode_events: "length (encode_events es) = 12 * length es"
  by (induction es) (auto simp: encode_events_def le4_def)

lemma epoll_scan_spec:
  assumes "out \<le> mx"
  shows "epoll_scan e mx a xs out m =
    (poke (a + of_nat out * 12) (encode_events (take (mx - out) (ready_list e xs))) m,
     out + length (take (mx - out) (ready_list e xs)))"
  using assms
proof (induction xs arbitrary: out m)
  case Nil
  then show ?case by (simp add: ready_list_def encode_events_def)
next
  case (Cons x xs)
  obtain fd ev data where x: "x = (fd, ev, data)" by (cases x)
  let ?r = "ready_events e fd ev"
  show ?case
  proof (cases "mx \<le> out \<or> ?r = 0")
    case True
    have "ready_list e (x # xs) = ready_list e xs" if "?r = 0" using that x by (simp add: ready_list_def)
    then show ?thesis using True Cons x by (auto simp: encode_events_def)
  next
    case False
    then have n: "mx - out = Suc (mx - Suc out)" and le: "Suc out \<le> mx" using Cons.prems by auto
    have r: "ready_list e (x # xs) = (?r, data) # ready_list e xs" using False x by (simp add: ready_list_def)
    let ?es = "take (mx - Suc out) (ready_list e xs)" and ?b = "a + of_nat out * 12"
    have "poke ?b (encode_events ((?r, data) # ?es)) m =
        poke (?b + 12) (encode_events ?es) (poke (?b + 4) (to_le_bytes data) (poke ?b (le4 ?r) m))"
      by (simp add: encode_events_def poke_append le4_def algebra_simps)
    then show ?thesis using False Cons.IH [OF le] x r n by (simp add: algebra_simps)
  qed
qed

lemma epoll_loop_spec:
  assumes "0 < mx"
  shows "epoll_loop es mx a True p m =
    map_option (\<lambda>e. let rs = take mx (ready_list e (epoll_entries p)) in (poke a (encode_events rs) m, int (length rs)))
      (find (\<lambda>e. ready_list e (epoll_entries p) \<noteq> []) es)"
proof (induction es)
  case (Cons e es)
  have "poke a (encode_events []) m = m" by (simp add: encode_events_def)
  then show ?case using Cons assms epoll_scan_spec [of 0 mx e a "epoll_entries p" m]
    by (cases "ready_list e (epoll_entries p)") (simp_all add: Let_def)
qed simp

text \<open>A blocking \<open>epoll_wait\<close> returns at the first snapshot in which a registered descriptor is ready, and
  never before; it then reports the ready descriptors in table order, as many as the caller has room
  for, as 12-byte entries of event mask and data. Without a timeout it reports those of the first snapshot.\<close>

theorem epoll_wait_reports:
  assumes "ev_vaddr \<noteq> 0" and "maxevents \<noteq> 0"
  shows "sys_epoll_wait es ev_vaddr maxevents timeout p m =
    map_option (\<lambda>e. let rs = take (unat maxevents) (ready_list e (epoll_entries p))
        in (poke ev_vaddr (encode_events rs) m, int (length rs)))
      (if timeout = 0 then (case es of [] \<Rightarrow> None | e # _ \<Rightarrow> Some e)
       else find (\<lambda>e. ready_list e (epoll_entries p) \<noteq> []) es)"
proof -
  have mx: "0 < unat maxevents" using assms(2) by (simp add: unat_gt_0)
  show ?thesis
  proof (cases "timeout = 0")
    case True
    show ?thesis
    proof (cases es)
      case (Cons e es')
      have "poke ev_vaddr (encode_events []) m = m" by (simp add: encode_events_def)
      then show ?thesis using True Cons assms mx epoll_scan_spec [of 0 "unat maxevents" e ev_vaddr "epoll_entries p" m]
        by (cases "ready_list e (epoll_entries p)") (simp_all add: sys_epoll_wait_def Let_def)
    qed (use True assms mx in \<open>simp add: sys_epoll_wait_def\<close>)
  next
    case False
    then show ?thesis using assms mx epoll_loop_spec [OF mx] by (simp add: sys_epoll_wait_def)
  qed
qed

text \<open>Standard output is registered and always ready.\<close>

theorem epoll_wait_reports_witness:
  "\<exists>m. sys_epoll_wait [(input_init, pipe_init)] 0x1000 4 0 (epoll_add 1 4 7 epoll_init) (\<lambda>_. 0) = Some (m, 1)"
proof -
  have "epoll_entries (epoll_add 1 4 7 epoll_init) = [(1, 4, 7)]" by code_simp
  moreover have "ready_list (input_init, pipe_init) [(1, 4, 7)] = [(4, 7)]"
    by (simp add: ready_list_def ready_events_def EPOLLIN_def EPOLLOUT_def is_write_ready_def)
  ultimately show ?thesis
    using epoll_wait_reports [where ev_vaddr = "0x1000" and maxevents = 4 and es = "[(input_init, pipe_init)]" and timeout = 0
        and p = "epoll_add 1 4 7 epoll_init" and m = "\<lambda>_. 0"]
    by (simp add: Let_def)
qed

end
