(* ===== verification/Net.thy ===== *)
theory Net
  imports Kernel_Prelude
begin

text \<open>
  The network stack (\<open>net/*.rs\<close>): Internet checksum, IPv4 header, ICMP echo, UDP, ARP and the stack that
  combines them.

  Fixed-size arrays are byte lists; a function that can panic returns an \<open>option\<close>. The network card is
  abstracted to the list of frames handed to it and to whether it acknowledges them in time; the polling
  loops take the list of what each poll reads, a frame or nothing and the tick after it, and \<open>Pending\<close>
  means that they are still polling at the end of the list.
\<close>

section \<open>Big-endian words and the checksum\<close>

definition hi8 :: "u16 \<Rightarrow> u8" where "hi8 v = ucast (drop_bit 8 v)"
definition lo8 :: "u16 \<Rightarrow> u8" where "lo8 v = ucast v"

definition rd16 :: "u8 \<Rightarrow> u8 \<Rightarrow> u16" where
  "rd16 a b = push_bit 8 (ucast a) OR ucast b"

fun csum_loop :: "bytes \<Rightarrow> u32 \<Rightarrow> u32 option" where
  "csum_loop [] s = Some s"
| "csum_loop [a] s = add_chk s (push_bit 8 (ucast a))"
| "csum_loop (a # b # data) s = do { s \<leftarrow> add_chk s (push_bit 8 (ucast a) OR ucast b); csum_loop data s }"

function fold_carry :: "u32 \<Rightarrow> u32" where
  "fold_carry s = (if drop_bit 16 s \<noteq> 0 then fold_carry ((s AND 0xFFFF) + drop_bit 16 s) else s)"
  by auto

lemma u32_halves: "unat (s AND 0xFFFF :: u32) = unat s mod 2 ^ 16" "unat (drop_bit 16 (s :: u32)) = unat s div 2 ^ 16"
proof -
  have "(0xFFFF :: u32) = mask 16" by (simp add: mask_eq_exp_minus_1)
  then show "unat (s AND 0xFFFF) = unat s mod 2 ^ 16"
    by (metis take_bit_eq_mask take_bit_eq_mod unsigned_take_bit_eq)
  show "unat (drop_bit 16 s) = unat s div 2 ^ 16" by (simp add: unat_drop_bit_eq drop_bit_eq_div unat_div)
qed

lemma u32_fold: "unat ((s AND 0xFFFF) + drop_bit 16 s :: u32) = unat s mod 2 ^ 16 + unat s div 2 ^ 16"
proof -
  have "unat s < 2 ^ 32" using unsigned_less [of s] by simp
  then have "unat s div 2 ^ 16 < 2 ^ 16" "unat s mod 2 ^ 16 < 2 ^ 16" by (simp_all add: less_mult_imp_div_less)
  then have "unat s mod 2 ^ 16 + unat s div 2 ^ 16 < 2 ^ 32" by simp
  then show ?thesis unfolding unat_word_ariths u32_halves by simp
qed

lemma carry_shrinks:
  assumes "n div k \<noteq> 0" and "1 < k"
  shows "n mod k + n div k < (n :: nat)"
proof -
  have "n div k < k * (n div k)" using assms by simp
  moreover have "n = k * (n div k) + n mod k" by simp
  ultimately show ?thesis by linarith
qed

termination fold_carry
proof (relation "measure unat")
  fix s :: u32
  assume "drop_bit 16 s \<noteq> 0"
  then have "unat s div 2 ^ 16 \<noteq> 0" using u32_halves(2) [of s] by (metis unat_eq_zero)
  then have "unat s mod 2 ^ 16 + unat s div 2 ^ 16 < unat s" by (rule carry_shrinks) simp
  then show "((s AND 0xFFFF) + drop_bit 16 s, s) \<in> measure unat" by (simp only: in_measure u32_fold)
qed simp

declare fold_carry.simps [simp del]

definition internet_checksum :: "bytes \<Rightarrow> u16 option" where
  "internet_checksum data = do { s \<leftarrow> csum_loop data 0; Some (NOT (ucast (fold_carry s))) }"

section \<open>IPv4\<close>

definition PROTO_ICMP :: u8 where "PROTO_ICMP = 1"
definition PROTO_UDP :: u8 where "PROTO_UDP = 17"
definition ETHERTYPE_IPV4 :: u16 where "ETHERTYPE_IPV4 = 0x0800"
definition ETHERTYPE_ARP :: u16 where "ETHERTYPE_ARP = 0x0806"

definition header_bytes :: "u8 \<Rightarrow> bytes \<Rightarrow> bytes \<Rightarrow> u16 \<Rightarrow> u16 \<Rightarrow> u16 \<Rightarrow> bytes" where
  "header_bytes proto src dst total_len ident csum =
     [0x45, 0x00, hi8 total_len, lo8 total_len, hi8 ident, lo8 ident, 0x40, 0x00, 64, proto, hi8 csum, lo8 csum] @ src @ dst"

definition build_header :: "u8 \<Rightarrow> bytes \<Rightarrow> bytes \<Rightarrow> u16 \<Rightarrow> u16 \<Rightarrow> bytes option" where
  "build_header proto src dst total_len ident = do {
     csum \<leftarrow> internet_checksum (header_bytes proto src dst total_len ident 0);
     Some (header_bytes proto src dst total_len ident csum)
   }"

definition parse_header :: "bytes \<Rightarrow> (u8 \<times> bytes \<times> bytes \<times> nat) option" where
  "parse_header data =
     (if length data < 20 then None
      else if drop_bit 4 (data ! 0) \<noteq> 4 then None
      else
        let ihl = unat (data ! 0 AND 0xF) * 4 in
        if length data < ihl then None
        else Some (data ! 9, take 4 (drop 12 data), take 4 (drop 16 data), ihl))"

section \<open>ICMP and UDP\<close>

definition TYPE_ECHO_REPLY :: u8 where "TYPE_ECHO_REPLY = 0"
definition TYPE_ECHO_REQUEST :: u8 where "TYPE_ECHO_REQUEST = 8"

definition echo_bytes :: "u16 \<Rightarrow> u16 \<Rightarrow> u16 \<Rightarrow> bytes \<Rightarrow> bytes" where
  "echo_bytes csum ident seqno payload =
     [TYPE_ECHO_REQUEST, 0, hi8 csum, lo8 csum, hi8 ident, lo8 ident, hi8 seqno, lo8 seqno] @ payload"

definition build_echo_request :: "u16 \<Rightarrow> u16 \<Rightarrow> bytes \<Rightarrow> bytes option" where
  "build_echo_request ident seqno payload = do {
     csum \<leftarrow> internet_checksum (echo_bytes 0 ident seqno payload);
     Some (echo_bytes csum ident seqno payload)
   }"

definition parse_echo_reply :: "bytes \<Rightarrow> (u16 \<times> u16) option" where
  "parse_echo_reply data =
     (if length data < 8 then None
      else if data ! 0 \<noteq> TYPE_ECHO_REPLY then None
      else Some (rd16 (data ! 4) (data ! 5), rd16 (data ! 6) (data ! 7)))"

definition udp_build :: "u16 \<Rightarrow> u16 \<Rightarrow> bytes \<Rightarrow> bytes" where
  "udp_build src_port dst_port payload =
     (let len = of_nat (8 + length payload) :: u16
      in [hi8 src_port, lo8 src_port, hi8 dst_port, lo8 dst_port, hi8 len, lo8 len, 0, 0] @ payload)"

definition udp_parse :: "bytes \<Rightarrow> (u16 \<times> u16 \<times> bytes) option" where
  "udp_parse data =
     (if length data < 8 then None
      else
        let src = rd16 (data ! 0) (data ! 1); dst = rd16 (data ! 2) (data ! 3);
            len = unat (rd16 (data ! 4) (data ! 5))
        in if len < 8 then None
           else let plen = len - 8 in
             if length data < 8 + plen then None
             else Some (src, dst, take plen (drop 8 data)))"

section \<open>ARP\<close>

record arp_packet =
  ap_op :: u16
  sender_mac :: bytes
  sender_ip :: bytes
  target_mac :: bytes
  target_ip :: bytes

definition arp_parse :: "bytes \<Rightarrow> arp_packet option" where
  "arp_parse frame =
     (if length frame < 42 then None
      else if rd16 (frame ! 12) (frame ! 13) \<noteq> ETHERTYPE_ARP then None
      else
        let a = drop 14 frame in
        Some \<lparr>ap_op = rd16 (a ! 6) (a ! 7), sender_mac = take 6 (drop 8 a), sender_ip = take 4 (drop 14 a),
          target_mac = take 6 (drop 18 a), target_ip = take 4 (drop 24 a)\<rparr>)"

definition arp_build_frame :: "bytes \<Rightarrow> bytes \<Rightarrow> u16 \<Rightarrow> bytes \<Rightarrow> bytes \<Rightarrow> bytes \<Rightarrow> bytes \<Rightarrow> bytes" where
  "arp_build_frame dst_mac src_mac op smac sip tmac tip =
     dst_mac @ src_mac @ [0x08, 0x06, 0x00, 0x01, 0x08, 0x00, 6, 4, hi8 op, lo8 op] @ smac @ sip @ tmac @ tip"

definition build_request :: "bytes \<Rightarrow> bytes \<Rightarrow> bytes \<Rightarrow> bytes" where
  "build_request src_mac src_ip tip =
     arp_build_frame (replicate 6 0xFF) src_mac 1 src_mac src_ip (replicate 6 0) tip"

definition build_reply :: "bytes \<Rightarrow> bytes \<Rightarrow> bytes \<Rightarrow> bytes \<Rightarrow> bytes" where
  "build_reply src_mac src_ip dst_mac dst_ip = arp_build_frame dst_mac src_mac 2 src_mac src_ip dst_mac dst_ip"

record arp_table =
  arp_entries :: "(bytes \<times> bytes) list"
  arp_len :: nat

definition arp_new :: arp_table where
  "arp_new = \<lparr>arp_entries = replicate 16 (replicate 4 0, replicate 6 0), arp_len = 0\<rparr>"

definition arp_lookup :: "bytes \<Rightarrow> arp_table \<Rightarrow> bytes option" where
  "arp_lookup ip t =
     (case find_idx (\<lambda>e. fst e = ip) (take (arp_len t) (arp_entries t)) of
        None \<Rightarrow> None
      | Some i \<Rightarrow> Some (snd (arp_entries t ! i)))"

definition arp_insert :: "bytes \<Rightarrow> bytes \<Rightarrow> arp_table \<Rightarrow> arp_table" where
  "arp_insert ip mac t =
     (case find_idx (\<lambda>e. fst e = ip) (take (arp_len t) (arp_entries t)) of
        Some i \<Rightarrow> t\<lparr>arp_entries := (arp_entries t)[i := (fst (arp_entries t ! i), mac)]\<rparr>
      | None \<Rightarrow>
          if arp_len t < 16
          then t\<lparr>arp_entries := (arp_entries t)[arp_len t := (ip, mac)], arp_len := arp_len t + 1\<rparr>
          else t\<lparr>arp_entries := (rotate1 (arp_entries t))[15 := (ip, mac)]\<rparr>)"

section \<open>The stack\<close>

datatype packet =
    IcmpEchoReply bytes u16 u16
  | Udp bytes u16 u16 bytes

datatype 'a poll = Pending | Ready 'a

record net_stack =
  ns_mac :: bytes
  ns_ip :: bytes
  arp_cache :: arp_table
  ip_id :: u16
  icmp_seq :: u16
  icmp_id :: u16
  tx :: "bytes list"
  nic_acks :: bool

definition net_new :: "bytes \<Rightarrow> bool \<Rightarrow> bytes \<Rightarrow> net_stack" where
  "net_new mac acks ip = \<lparr>ns_mac = mac, ns_ip = ip, arp_cache = arp_new, ip_id = 1, icmp_seq = 0, icmp_id = 0x4D55, tx = [],
     nic_acks = acks\<rparr>"

definition nic_send :: "bytes \<Rightarrow> net_stack \<Rightarrow> net_stack \<times> bool" where
  "nic_send frame s = (if frame = [] then (s, False) else (s\<lparr>tx := tx s @ [frame]\<rparr>, nic_acks s))"

definition send_frame :: "bytes \<Rightarrow> u16 \<Rightarrow> bytes \<Rightarrow> net_stack \<Rightarrow> net_stack \<times> bool" where
  "send_frame dst_mac ethertype payload s =
     nic_send (dst_mac @ ns_mac s @ [hi8 ethertype, lo8 ethertype] @ payload) s"

definition parse_arp_frame :: "bytes \<Rightarrow> net_stack \<Rightarrow> net_stack" where
  "parse_arp_frame frame s =
     (case arp_parse frame of
        None \<Rightarrow> s
      | Some pkt \<Rightarrow>
          if ap_op pkt = 1 \<and> target_ip pkt = ns_ip s
          then fst (nic_send (build_reply (ns_mac s) (ns_ip s) (sender_mac pkt) (sender_ip pkt)) s)
          else if ap_op pkt = 2 then s\<lparr>arp_cache := arp_insert (sender_ip pkt) (sender_mac pkt) (arp_cache s)\<rparr>
          else s)"

definition parse_ip_frame :: "bytes \<Rightarrow> packet option" where
  "parse_ip_frame ip_data = do {
     (proto, src_ip, _, ihl) \<leftarrow> parse_header ip_data;
     let payload = drop ihl ip_data;
     (if proto = PROTO_ICMP then do {
        (ident, seqno) \<leftarrow> parse_echo_reply payload;
        Some (IcmpEchoReply src_ip ident seqno)
      }
      else if proto = PROTO_UDP then do {
        (src_port, dst_port, data) \<leftarrow> udp_parse payload;
        Some (Udp src_ip src_port dst_port data)
      }
      else None)
   }"

definition parse_frame :: "bytes \<Rightarrow> net_stack \<Rightarrow> net_stack \<times> packet option" where
  "parse_frame frame s =
     (if length frame < 14 then (s, None)
      else
        let ethertype = rd16 (frame ! 12) (frame ! 13) in
        if ethertype = ETHERTYPE_ARP then (parse_arp_frame frame s, None)
        else if ethertype = ETHERTYPE_IPV4 then (s, parse_ip_frame (drop 14 frame))
        else (s, None))"

text \<open>One poll of the card: the frame it delivers and the tick read after it.\<close>

type_synonym poll_event = "bytes option \<times> u64"

fun arp_wait :: "bytes \<Rightarrow> u64 \<Rightarrow> poll_event list \<Rightarrow> net_stack \<Rightarrow> (net_stack \<times> poll_event list \<times> bytes option) poll" where
  "arp_wait tip deadline [] s = Pending"
| "arp_wait tip deadline ((rx, tick) # evs) s =
     (let reply = (case rx of None \<Rightarrow> None | Some frame \<Rightarrow>
            (case arp_parse frame of None \<Rightarrow> None | Some pkt \<Rightarrow> if ap_op pkt = 2 then Some pkt else None));
          s = (case reply of None \<Rightarrow> s
               | Some pkt \<Rightarrow> s\<lparr>arp_cache := arp_insert (sender_ip pkt) (sender_mac pkt) (arp_cache s)\<rparr>)
      in case reply of
           Some pkt \<Rightarrow>
             if sender_ip pkt = tip then Ready (s, evs, Some (sender_mac pkt))
             else if tick > deadline then Ready (s, evs, None) else arp_wait tip deadline evs s
         | None \<Rightarrow> if tick > deadline then Ready (s, evs, None) else arp_wait tip deadline evs s)"

definition arp_resolve ::
  "bytes \<Rightarrow> u64 \<Rightarrow> poll_event list \<Rightarrow> net_stack \<Rightarrow> (net_stack \<times> poll_event list \<times> bytes option) poll option" where
  "arp_resolve tip now evs s =
     (case arp_lookup tip (arp_cache s) of
        Some mac \<Rightarrow> Some (Ready (s, evs, Some mac))
      | None \<Rightarrow> do {
          let s = fst (nic_send (build_request (ns_mac s) (ns_ip s) tip) s);
          deadline \<leftarrow> add_chk now 18;
          Some (arp_wait tip deadline evs s)
        })"

text \<open>Header and segment of one datagram; the total length is a checked 16-bit sum.\<close>

definition ip_packet :: "u8 \<Rightarrow> bytes \<Rightarrow> bytes \<Rightarrow> net_stack \<Rightarrow> (bytes \<times> net_stack) option" where
  "ip_packet proto dst seg s = do {
     total_len \<leftarrow> add_chk 20 (of_nat (length seg));
     hdr \<leftarrow> build_header proto (ns_ip s) dst total_len (ip_id s);
     Some (hdr @ seg, s\<lparr>ip_id := ip_id s + 1\<rparr>)
   }"

definition udp_send ::
  "bytes \<Rightarrow> u16 \<Rightarrow> u16 \<Rightarrow> bytes \<Rightarrow> u64 \<Rightarrow> poll_event list \<Rightarrow> net_stack \<Rightarrow> (net_stack \<times> bool) poll option" where
  "udp_send dst_ip dst_port src_port data now evs s = do {
     w \<leftarrow> arp_resolve dst_ip now evs s;
     (case w of
        Pending \<Rightarrow> Some Pending
      | Ready (s, _, None) \<Rightarrow> Some (Ready (s, False))
      | Ready (s, _, Some dst_mac) \<Rightarrow> do {
          (payload, s) \<leftarrow> ip_packet PROTO_UDP dst_ip (udp_build src_port dst_port data) s;
          Some (Ready (send_frame dst_mac ETHERTYPE_IPV4 payload s))
        })
   }"

fun is_echo_reply :: "u16 \<Rightarrow> u16 \<Rightarrow> packet option \<Rightarrow> bool" where
  "is_echo_reply ident seqno (Some (IcmpEchoReply src i n)) \<longleftrightarrow> i = ident \<and> n = seqno"
| "is_echo_reply ident seqno _ \<longleftrightarrow> False"

fun ping_wait :: "u16 \<Rightarrow> u64 \<Rightarrow> poll_event list \<Rightarrow> net_stack \<Rightarrow> (net_stack \<times> u16 option) poll" where
  "ping_wait seqno deadline [] s = Pending"
| "ping_wait seqno deadline ((rx, tick) # evs) s =
     (let (s, pkt) = (case rx of None \<Rightarrow> (s, None) | Some frame \<Rightarrow> parse_frame frame s)
      in if is_echo_reply (icmp_id s) seqno pkt then Ready (s, Some seqno)
         else if tick > deadline then Ready (s, None)
         else ping_wait seqno deadline evs s)"

definition ping :: "bytes \<Rightarrow> u64 \<Rightarrow> u64 \<Rightarrow> poll_event list \<Rightarrow> net_stack \<Rightarrow> (net_stack \<times> u16 option) poll option" where
  "ping dst now now' evs s = do {
     w \<leftarrow> arp_resolve dst now evs s;
     (case w of
        Pending \<Rightarrow> Some Pending
      | Ready (s, _, None) \<Rightarrow> Some (Ready (s, None))
      | Ready (s, evs, Some dst_mac) \<Rightarrow> do {
          let seqno = icmp_seq s;
          let s = s\<lparr>icmp_seq := icmp_seq s + 1\<rparr>;
          msg \<leftarrow> build_echo_request (icmp_id s) seqno (map of_char ''MuKernel!'');
          (payload, s) \<leftarrow> ip_packet PROTO_ICMP dst msg s;
          let s = fst (send_frame dst_mac ETHERTYPE_IPV4 payload s);
          deadline \<leftarrow> add_chk now' 18;
          Some (ping_wait seqno deadline evs s)
        })
   }"

definition net_poll :: "bytes option \<Rightarrow> net_stack \<Rightarrow> net_stack \<times> packet option" where
  "net_poll rx s = (case rx of None \<Rightarrow> (s, None) | Some frame \<Rightarrow> parse_frame frame s)"

section \<open>Byte order\<close>

lemma u8_le: "unat (a :: u8) \<le> 255"
  using unsigned_less [of a] by (simp add: less_Suc_eq_le [symmetric])

lemma unat_len16: "n < 65536 \<Longrightarrow> unat (of_nat n :: u16) = n"
  by (simp add: unat_of_nat)

lemma or_add_8: "push_bit 8 (ucast (a :: u8)) OR ucast (b :: u8) = (push_bit 8 (ucast a) + ucast b :: 'b::len word)"
  by (rule disjunctive_add [symmetric]) (auto simp: bit_simps dest: bit_imp_le_length)

lemma unat_be32: "unat (push_bit 8 (ucast (a :: u8)) OR ucast (b :: u8) :: u32) = 256 * unat a + unat b"
proof -
  have l: "unat a < 256" "unat b < 256" using unsigned_less [of a] unsigned_less [of b] by simp_all
  then show ?thesis unfolding or_add_8
    by (simp add: push_bit_eq_mult unat_word_ariths unsigned_ucast_eq take_bit_nat_eq_self)
qed

lemma unat_rd16: "unat (rd16 a b) = 256 * unat a + unat b"
proof -
  have l: "unat a < 256" "unat b < 256" using unsigned_less [of a] unsigned_less [of b] by simp_all
  then show ?thesis unfolding rd16_def or_add_8
    by (simp add: push_bit_eq_mult unat_word_ariths unsigned_ucast_eq take_bit_nat_eq_self)
qed

lemma hi_lo: "256 * unat (hi8 v) + unat (lo8 v) = unat v"
proof -
  have "unat v < 65536" using unsigned_less [of v] by simp
  then show ?thesis
    by (simp add: hi8_def lo8_def unsigned_ucast_eq unat_drop_bit_eq drop_bit_eq_div take_bit_eq_mod unat_div)
qed

lemma rd16_hi_lo [simp]: "rd16 (hi8 v) (lo8 v) = v"
  by (rule word_unat_eq_iff [THEN iffD2]) (simp add: unat_rd16 hi_lo)

section \<open>The checksum is the ones' complement of the sum\<close>

text \<open>The sum of the big-endian 16-bit words of a packet, an odd last byte padded with zero, and the
  ones' complement representative of a sum: 1 to 65535 modulo 65535, or 0.\<close>

fun sum16 :: "bytes \<Rightarrow> nat" where
  "sum16 [] = 0"
| "sum16 [a] = 256 * unat a"
| "sum16 (a # b # data) = 256 * unat a + unat b + sum16 data"

definition ocs :: "nat \<Rightarrow> nat" where
  "ocs n = (if n = 0 then 0 else (n - 1) mod 65535 + 1)"

lemma ocs_small: "n \<le> 65535 \<Longrightarrow> ocs n = n"
  by (simp add: ocs_def)

lemma ocs_fold: "ocs (n mod 2 ^ 16 + n div 2 ^ 16) = ocs n"
proof -
  let ?q = "n div 2 ^ 16" and ?r = "n mod 2 ^ 16"
  have n: "n = 65535 * ?q + (?q + ?r)" using mult_div_mod_eq [of "2 ^ 16" n] by simp
  show ?thesis
  proof (cases "?q + ?r = 0")
    case True
    with n have "n = 0" by linarith
    then show ?thesis by simp
  next
    case False
    then have "n - 1 = 65535 * ?q + (?q + ?r - 1)" using n by linarith
    then have "(n - 1) mod 65535 = (?q + ?r - 1) mod 65535" by (metis mod_mult_self4)
    moreover have "n \<noteq> 0" using False n by linarith
    ultimately show ?thesis using False by (simp add: ocs_def add.commute)
  qed
qed

lemma fold_carry_spec: "unat (fold_carry s) = ocs (unat s)"
proof (induction s rule: fold_carry.induct)
  case (1 s)
  show ?case
  proof (cases "drop_bit 16 s = 0")
    case True
    then have "unat s div 2 ^ 16 = 0" using u32_halves(2) [of s] by (metis unat_0)
    then have "unat s \<le> 65535" by (simp add: div_eq_0_iff)
    then show ?thesis using True by (simp add: fold_carry.simps [of s] ocs_small)
  next
    case False
    then show ?thesis using 1 [OF False] unfolding u32_fold ocs_fold by (simp add: fold_carry.simps [of s])
  qed
qed

lemma csum_loop_spec: "unat s + sum16 d < 2 ^ 32 \<Longrightarrow> \<exists>r. csum_loop d s = Some r \<and> unat r = unat s + sum16 d"
proof (induction d s rule: csum_loop.induct)
  case (2 a s)
  have "unat (push_bit 8 (ucast a) :: u32) = 256 * unat a" using unat_be32 [of a 0] by simp
  then show ?case using 2 by (simp add: add_chk_def unat_word_ariths)
next
  case (3 a b d s)
  let ?w = "push_bit 8 (ucast a) OR ucast b :: u32"
  have w: "unat ?w = 256 * unat a + unat b" by (rule unat_be32)
  have c: "add_chk s ?w = Some (s + ?w)" "unat (s + ?w) = unat s + unat ?w"
    using 3(2) w by (simp_all add: add_chk_def unat_word_ariths)
  from 3(1) [of "s + ?w"] 3(2) c w show ?case by (simp add: add.assoc)
qed simp

lemma sum16_bound: "sum16 d \<le> 65535 * ((length d + 1) div 2)"
proof (induction d rule: sum16.induct)
  case (2 a)
  show ?case using u8_le [of a] by simp
next
  case (3 a b d)
  show ?case using 3 u8_le [of a] u8_le [of b] by simp
qed simp

lemma unat_not16: "unat (NOT x :: u16) = 65535 - unat x"
proof -
  have "NOT x = - 1 - x" by (simp add: not_eq_complement)
  moreover have "x \<le> - 1" by simp
  ultimately show ?thesis by (simp add: unat_sub unsigned_minus_1_eq_mask mask_eq_exp_minus_1)
qed

lemma checksum_spec:
  assumes "length d \<le> 131072"
  shows "\<exists>c. internet_checksum d = Some c \<and> unat c = 65535 - ocs (sum16 d)"
proof -
  have "(length d + 1) div 2 \<le> 65536" using assms by linarith
  then have "sum16 d \<le> 65535 * 65536" using sum16_bound [of d] by (meson le_trans mult_le_mono2)
  then obtain r where r: "csum_loop d 0 = Some r" "unat r = sum16 d" using csum_loop_spec [of 0 d] by auto
  have "unat (fold_carry r) = ocs (sum16 d)" by (simp add: fold_carry_spec r)
  moreover have "ocs (sum16 d) \<le> 65535" by (simp add: ocs_def less_Suc_eq_le [symmetric] del: less_Suc_eq_le)
  ultimately have "unat (ucast (fold_carry r) :: u16) = ocs (sum16 d)"
    by (simp add: unsigned_ucast_eq take_bit_nat_eq_self)
  then show ?thesis using r(1) by (simp add: internet_checksum_def unat_not16)
qed

lemma ocs_complement: "ocs (n + (65535 - ocs n)) = 65535"
proof (cases "n = 0")
  case True
  then show ?thesis by (simp add: ocs_def)
next
  case False
  let ?m = "(n - 1) mod 65535" and ?d = "(n - 1) div 65535"
  have m: "?m < 65535" by simp
  have "n - 1 = 65535 * ?d + ?m" by simp
  then have "n + (65535 - (?m + 1)) - 1 = 65535 * ?d + 65534" using False m by linarith
  moreover have "(65535 * ?d + 65534) mod 65535 = (65534 :: nat)" by (simp only: mod_mult_self4) simp
  ultimately have "(n + (65535 - (?m + 1)) - 1) mod 65535 = 65534" by simp
  then show ?thesis using False by (simp add: ocs_def)
qed

section \<open>Properties\<close>

text \<open>C7: The checksum routine, with its 32-bit accumulator and its carry folding loop, computes the Internet
  checksum: the ones' complement of the ones' complement sum of the packet's 16-bit words. It neither
  overflows nor diverges on packets of up to 128 kB.\<close>

theorem internet_checksum_correct:
  assumes "length d \<le> 131072"
  shows "\<exists>c. internet_checksum d = Some c \<and> unat c = 65535 - ocs (sum16 d)"
  by (rule checksum_spec [OF assms])

theorem internet_checksum_correct_witness:
  "internet_checksum [0xFF, 0xFF, 0x00, 0x02, 0x01] = Some 0xFEFD"
proof -
  obtain c where c: "internet_checksum [0xFF, 0xFF, 0x00, 0x02, 0x01] = Some c"
    "unat c = 65535 - ocs (sum16 [0xFF, 0xFF, 0x00, 0x02, 0x01])"
    using internet_checksum_correct [of "[0xFF, 0xFF, 0x00, 0x02, 0x01]"] by auto
  have "ocs (sum16 [0xFF, 0xFF, 0x00, 0x02, 0x01]) = 258" by (simp add: ocs_def)
  then have "unat c = unat (0xFEFD :: u16)" using c(2) by simp
  then have "c = 0xFEFD" by (simp only: word_unat_eq_iff)
  then show ?thesis using c(1) by simp
qed

lemma build_header_spec:
  assumes "length src = 4" and "length dst = 4"
  shows "\<exists>h. build_header proto src dst len ident = Some h \<and> length h = 20 \<and> internet_checksum h = Some 0 \<and>
    parse_header (h @ payload) = Some (proto, src, dst, 20)"
proof -
  let ?h = "header_bytes proto src dst len ident"
  have l: "length (?h c) = 20" for c using assms by (simp add: header_bytes_def)
  obtain c where c: "internet_checksum (?h 0) = Some c" "unat c = 65535 - ocs (sum16 (?h 0))"
    using checksum_spec [of "?h 0"] l by auto
  have "unat (hi8 0) = 0" "unat (lo8 0) = 0" by (simp_all add: hi8_def lo8_def)
  then have "sum16 (?h c) = sum16 (?h 0) + unat c" using hi_lo [of c] by (simp add: header_bytes_def)
  then have "ocs (sum16 (?h c)) = 65535" using c(2) ocs_complement [of "sum16 (?h 0)"] by simp
  moreover obtain c' where "internet_checksum (?h c) = Some c'" "unat c' = 65535 - ocs (sum16 (?h c))"
    using checksum_spec [of "?h c"] l by auto
  ultimately have "internet_checksum (?h c) = Some 0" by (simp add: unat_eq_zero)
  moreover have "parse_header (?h c @ payload) = Some (proto, src, dst, 20)"
    using assms by (simp add: parse_header_def header_bytes_def)
  ultimately show ?thesis using c(1) l by (simp add: build_header_def)
qed

text \<open>The header builder never fails, its header passes the receiver's checksum test (the checksum over
  the whole header is zero) and the parser reads back protocol, addresses and header length.\<close>

theorem ip_header_round_trip:
  assumes "length src = 4" and "length dst = 4"
  shows "\<exists>h. build_header proto src dst len ident = Some h \<and> length h = 20 \<and> internet_checksum h = Some 0 \<and>
    parse_header (h @ payload) = Some (proto, src, dst, 20)"
  by (rule build_header_spec [OF assms])

theorem ip_header_round_trip_witness:
  "\<exists>h. build_header 17 [10, 0, 2, 15] [10, 0, 2, 2] 29 1 = Some h \<and> internet_checksum h = Some 0 \<and>
    parse_header (h @ [7]) = Some (17, [10, 0, 2, 15], [10, 0, 2, 2], 20)"
  using ip_header_round_trip [of "[10, 0, 2, 15]" "[10, 0, 2, 2]" 17 29 1 "[7]"] by auto

lemma udp_parse_build:
  assumes "8 + length data < 65536"
  shows "udp_parse (udp_build sp dp data) = Some (sp, dp, data)"
proof -
  have "unat (of_nat (8 + length data) :: u16) = 8 + length data" using assms by (rule unat_len16)
  then show ?thesis by (simp add: udp_parse_def udp_build_def Let_def)
qed

lemma ip_packet_parse:
  assumes "length (ns_ip s) = 4" and "length dst = 4" and "length seg \<le> 65515"
  shows "\<exists>pkt. ip_packet proto dst seg s = Some (pkt, s\<lparr>ip_id := ip_id s + 1\<rparr>) \<and>
    parse_header pkt = Some (proto, ns_ip s, dst, 20) \<and> drop 20 pkt = seg"
proof -
  have "unat (of_nat (length seg) :: u16) = length seg" using assms(3) by (simp add: unat_of_nat take_bit_nat_eq_self)
  then obtain tl where tl: "add_chk 20 (of_nat (length seg)) = Some (tl :: u16)"
    using assms(3) by (simp add: add_chk_def)
  obtain h where "build_header proto (ns_ip s) dst tl (ip_id s) = Some h" "length h = 20"
    "parse_header (h @ seg) = Some (proto, ns_ip s, dst, 20)"
    using build_header_spec [OF assms(1,2), of proto tl "ip_id s" seg] by blast
  with tl show ?thesis by (simp add: ip_packet_def)
qed

lemma eth_frame:
  assumes "length dmac = 6" and "length smac = 6"
  shows "length (dmac @ smac @ [hi8 et, lo8 et] @ p) \<ge> 14"
    and "rd16 ((dmac @ smac @ [hi8 et, lo8 et] @ p) ! 12) ((dmac @ smac @ [hi8 et, lo8 et] @ p) ! 13) = et"
    and "drop 14 (dmac @ smac @ [hi8 et, lo8 et] @ p) = p"
  using assms by (simp_all add: nth_append)


definition demo_net :: net_stack where
  "demo_net = (net_new [0x52, 0x54, 0, 0, 0, 1] True [10, 0, 2, 15])
     \<lparr>arp_cache := arp_insert [10, 0, 2, 2] [0x52, 0x55, 10, 0, 2, 2] arp_new\<rparr>"


section \<open>The ARP cache\<close>

definition arp_ok :: "arp_table \<Rightarrow> bool" where
  "arp_ok t \<longleftrightarrow> length (arp_entries t) = 16 \<and> arp_len t \<le> 16 \<and> distinct (map fst (take (arp_len t) (arp_entries t)))"

lemma map_of_snoc: "a \<notin> fst ` set xs \<Longrightarrow> map_of (xs @ [(a, b)]) k = (if k = a then Some b else map_of xs k)"
  by (induction xs) auto

lemma find_idx_map_of: "(case find_idx (\<lambda>e. fst e = k) xs of None \<Rightarrow> None | Some i \<Rightarrow> Some (snd (xs ! i))) = map_of xs k"
  by (induction xs) (auto simp del: find_idx_None_iff split: option.splits)

lemma arp_lookup_map_of: "arp_lookup k t = map_of (take (arp_len t) (arp_entries t)) k"
proof (cases "find_idx (\<lambda>e. fst e = k) (take (arp_len t) (arp_entries t))")
  case (Some i)
  then have "take (arp_len t) (arp_entries t) ! i = arp_entries t ! i" by (auto dest: find_idx_SomeD(1))
  then show ?thesis using Some find_idx_map_of [of "take (arp_len t) (arp_entries t)" k] by (simp add: arp_lookup_def)
qed (use find_idx_map_of [of "take (arp_len t) (arp_entries t)" k] in \<open>simp add: arp_lookup_def del: find_idx_None_iff\<close>)

lemma arp_insert_spec:
  assumes ok: "arp_ok t"
  shows "arp_ok (arp_insert ip mac t) \<and> arp_lookup k (arp_insert ip mac t) =
    (if k = ip then Some mac
     else if arp_lookup ip t = None \<and> arp_len t = 16 \<and> k = fst (hd (arp_entries t)) then None
     else arp_lookup k t)"
proof -
  let ?es = "arp_entries t" and ?n = "arp_len t"
  let ?xs = "take ?n ?es"
  have len: "length ?es = 16" "?n \<le> 16" "length ?xs = ?n" and d: "distinct (map fst ?xs)"
    using ok by (simp_all add: arp_ok_def)
  show ?thesis
  proof (cases "find_idx (\<lambda>e. fst e = ip) ?xs")
    case (Some i)
    then have i: "i < length ?xs" "fst (?xs ! i) = ip" "fst (?es ! i) = ip" by (auto simp: find_idx_Some_iff)
    let ?t = "t\<lparr>arp_entries := ?es[i := (ip, mac)]\<rparr>"
    have a: "arp_insert ip mac t = ?t" using Some i(3) by (simp add: arp_insert_def)
    have tk: "take ?n (?es[i := (ip, mac)]) = ?xs[i := (ip, mac)]" by (simp add: take_update_swap)
    have "map fst (?xs[i := (ip, mac)]) = map fst ?xs" using i by (metis fst_conv list_update_id map_update nth_map)
    then have "arp_ok ?t" using ok tk by (simp add: arp_ok_def)
    moreover have "arp_lookup k ?t = ((map_of ?xs)(ip \<mapsto> mac)) k"
      using map_of_update [OF d i(1,2)] tk by (simp add: arp_lookup_map_of)
    moreover have "arp_lookup ip t \<noteq> None" using Some by (simp add: arp_lookup_def)
    ultimately show ?thesis using a arp_lookup_map_of [of k t] by auto
  next
    case None
    then have ip: "ip \<notin> fst ` set ?xs" by auto
    have none: "arp_lookup ip t = None" using None by (simp add: arp_lookup_def del: find_idx_None_iff)
    show ?thesis
    proof (cases "?n < 16")
      case True
      let ?t = "t\<lparr>arp_entries := ?es[?n := (ip, mac)], arp_len := ?n + 1\<rparr>"
      have a: "arp_insert ip mac t = ?t" using None True by (simp add: arp_insert_def del: find_idx_None_iff)
      have tk: "take (?n + 1) (?es[?n := (ip, mac)]) = ?xs @ [(ip, mac)]"
        using True len by (simp add: take_Suc_conv_app_nth)
      have "arp_ok ?t" using ok tk ip True by (auto simp: arp_ok_def)
      moreover have "arp_lookup k ?t = (if k = ip then Some mac else map_of ?xs k)"
        unfolding arp_lookup_map_of using tk map_of_snoc [OF ip, of mac k] by simp
      ultimately show ?thesis using a True by (simp add: arp_lookup_map_of)
    next
      case False
      then have n: "?n = 16" and xs: "?xs = ?es" using len by simp_all
      obtain e rest where es: "?es = e # rest" and lr: "length rest = 15" using len(1) by (cases ?es) auto
      have r: "(rotate1 ?es)[15 := (ip, mac)] = rest @ [(ip, mac)]" using es lr by (simp add: list_update_append)
      let ?t = "t\<lparr>arp_entries := rest @ [(ip, mac)]\<rparr>"
      have a: "arp_insert ip mac t = ?t" using None False r by (simp add: arp_insert_def del: find_idx_None_iff)
      have "arp_ok ?t" using d [unfolded xs] ip [unfolded xs] n lr es by (simp add: arp_ok_def)
      moreover have "arp_lookup k ?t = (if k = ip then Some mac else if k = fst e then None else map_of ?es k)"
      proof -
        have "ip \<notin> fst ` set rest" "map_of rest (fst e) = None" using d ip [unfolded xs] d [unfolded xs] es by (auto simp: map_of_eq_None_iff)
        then show ?thesis unfolding arp_lookup_map_of using n lr es map_of_snoc [of ip rest mac k] by (cases e) simp
      qed
      moreover have "arp_lookup k t = map_of ?es k" by (simp add: arp_lookup_map_of xs)
      ultimately show ?thesis using a n none es by auto
    qed
  qed
qed

text \<open>The ARP cache is a map of at most 16 addresses: an insertion binds its address, keeps every other
  binding, and only when a new address meets a full table forgets one, the oldest.\<close>

theorem arp_cache_is_bounded_map:
  assumes "arp_ok t"
  shows "arp_ok (arp_insert ip mac t) \<and> arp_lookup k (arp_insert ip mac t) =
    (if k = ip then Some mac
     else if arp_lookup ip t = None \<and> arp_len t = 16 \<and> k = fst (hd (arp_entries t)) then None
     else arp_lookup k t)"
  by (rule arp_insert_spec [OF assms])

lemma arp_new_ok: "arp_ok arp_new"
  by (simp add: arp_ok_def arp_new_def)

theorem arp_cache_is_bounded_map_witness:
  "arp_lookup [10, 0, 2, 2] (arp_insert [10, 0, 2, 2] [1, 2, 3, 4, 5, 6] arp_new) = Some [1, 2, 3, 4, 5, 6]"
  using arp_cache_is_bounded_map [OF arp_new_ok] by simp

section \<open>Address resolution between two hosts\<close>

lemma arp_frame_parse:
  assumes "length dmac = 6" "length fmac = 6" "length smac = 6" "length sip = 4" "length tmac = 6" "length tip = 4"
  shows "arp_parse (arp_build_frame dmac fmac op smac sip tmac tip) =
      Some \<lparr>ap_op = op, sender_mac = smac, sender_ip = sip, target_mac = tmac, target_ip = tip\<rparr>"
    and "length (arp_build_frame dmac fmac op smac sip tmac tip) = 42"
    and "rd16 (arp_build_frame dmac fmac op smac sip tmac tip ! 12) (arp_build_frame dmac fmac op smac sip tmac tip ! 13) = ETHERTYPE_ARP"
proof -
  have e: "rd16 8 6 = ETHERTYPE_ARP" by (rule word_unat_eq_iff [THEN iffD2]) (simp add: unat_rd16 ETHERTYPE_ARP_def)
  show l: "length (arp_build_frame dmac fmac op smac sip tmac tip) = 42" using assms by (simp add: arp_build_frame_def)
  show t: "rd16 (arp_build_frame dmac fmac op smac sip tmac tip ! 12) (arp_build_frame dmac fmac op smac sip tmac tip ! 13) = ETHERTYPE_ARP"
    using assms e by (simp add: arp_build_frame_def nth_append)
  have "drop 14 (arp_build_frame dmac fmac op smac sip tmac tip) = [0x00, 0x01, 0x08, 0x00, 6, 4, hi8 op, lo8 op] @ smac @ sip @ tmac @ tip"
    using assms by (simp add: arp_build_frame_def)
  then show "arp_parse (arp_build_frame dmac fmac op smac sip tmac tip) =
      Some \<lparr>ap_op = op, sender_mac = smac, sender_ip = sip, target_mac = tmac, target_ip = tip\<rparr>"
    using assms unfolding arp_parse_def l t Let_def by simp
qed

text \<open>Address resolution works end to end. The request the stack sends for an address it does not know is
  answered by the host that owns the address, and when the answer arrives before the deadline the
  resolution returns that host's hardware address and remembers it.\<close>

theorem arp_resolution_completes:
  assumes a: "length (ns_mac a) = 6" "length (ns_ip a) = 4" "arp_ok (arp_cache a)" "arp_lookup (ns_ip b) (arp_cache a) = None"
    and b: "length (ns_mac b) = 6" "length (ns_ip b) = 4" and now: "unat now + 18 < 2 ^ 64"
  shows "\<exists>request reply a'. parse_frame request b = (b\<lparr>tx := tx b @ [reply]\<rparr>, None) \<and>
    arp_resolve (ns_ip b) now ((Some reply, t) # evs) a = Some (Ready (a', evs, Some (ns_mac b))) \<and>
    tx a' = tx a @ [request] \<and> arp_lookup (ns_ip b) (arp_cache a') = Some (ns_mac b)"
proof -
  let ?q = "build_request (ns_mac a) (ns_ip a) (ns_ip b)"
  let ?r = "build_reply (ns_mac b) (ns_ip b) (ns_mac a) (ns_ip a)"
  note q = arp_frame_parse [of "replicate 6 0xFF" "ns_mac a" "ns_mac a" "ns_ip a" "replicate 6 0" "ns_ip b" 1, folded build_request_def]
  note r = arp_frame_parse [of "ns_mac a" "ns_mac b" "ns_mac b" "ns_ip b" "ns_mac a" "ns_ip a" 2, folded build_reply_def]
  have rq: "?r \<noteq> []" "?q \<noteq> []" using r(2) q(2) a b by fastforce+
  have "parse_frame ?q b = (b\<lparr>tx := tx b @ [?r]\<rparr>, None)"
    using q a b rq by (simp add: parse_frame_def parse_arp_frame_def nic_send_def)
  moreover obtain dl where "add_chk now 18 = Some dl" using now by (simp add: add_chk_def)
  then have "arp_resolve (ns_ip b) now ((Some ?r, t) # evs) a =
      Some (Ready (a\<lparr>tx := tx a @ [?q], arp_cache := arp_insert (ns_ip b) (ns_mac b) (arp_cache a)\<rparr>, evs, Some (ns_mac b)))"
    using r(1) a b rq by (simp add: arp_resolve_def nic_send_def)
  moreover have "arp_lookup (ns_ip b) (arp_insert (ns_ip b) (ns_mac b) (arp_cache a)) = Some (ns_mac b)"
    using arp_insert_spec [OF a(3)] by simp
  ultimately show ?thesis by (intro exI conjI) auto
qed

theorem arp_resolution_completes_witness:
  "\<exists>reply a'. arp_resolve [10, 0, 2, 2] 100 [(Some reply, 101)] (net_new [1, 1, 1, 1, 1, 1] True [10, 0, 2, 15]) =
    Some (Ready (a', [], Some [2, 2, 2, 2, 2, 2]))"
proof -
  let ?a = "net_new [1, 1, 1, 1, 1, 1] True [10, 0, 2, 15]" and ?b = "net_new [2, 2, 2, 2, 2, 2] True [10, 0, 2, 2]"
  have "length (ns_mac ?a) = 6" "length (ns_ip ?a) = 4" "arp_ok (arp_cache ?a)" "arp_lookup (ns_ip ?b) (arp_cache ?a) = None"
    "length (ns_mac ?b) = 6" "length (ns_ip ?b) = 4" "unat (100 :: u64) + 18 < 2 ^ 64"
    using arp_new_ok by (simp_all add: net_new_def arp_lookup_def arp_new_def)
  from arp_resolution_completes [OF this, of 101 "[]"] show ?thesis by (auto simp: net_new_def)
qed

end
