(* ===== verification/User_Proc.thy ===== *)
theory User_Proc
  imports Umem Scheduler Vma
begin

text \<open>
  User processes and threads (\<open>process/userproc.rs\<close>): the table of 16 slots, \<open>fork\<close>, \<open>clone\<close>, \<open>wait4\<close>, exit,
  \<open>futex\<close>, \<open>sched_yield\<close>, \<open>brk\<close> and the per-process settings; \<open>arch_prctl\<close> of \<open>syscall/proc.rs\<close>,
  \<open>sys_exit_impl\<close> of \<open>syscall/mod.rs\<close> and \<open>raise_sigchld_to\<close> of \<open>signal.rs\<close>, which these call or which
  set the same state.

  \<^item> The frame that the system call entry pushes (the 14 quadwords of \<open>isr128\<close>) is a record, and \<open>isr_frames\<close>
    gives the frame at a kernel address. User memory is a byte function per address space, keyed by CR3.
  \<^item> The kernel heap gives \<open>ks\<close>, the top of a new kernel stack, and \<open>paging::clone_user_space\<close> (theory
    \<open>Paging\<close>) gives \<open>child_cr3\<close>; both are arguments. The copied address space has the same bytes.
  \<^item> A call either returns, or leaves the kernel through \<open>iretq\<close> with the frame of some process, or, at the
    end of a process that nobody waits for, jumps back into the kernel's main loop; this is type \<open>flow\<close>.
    An outer \<open>None\<close> is a panic.
  \<^item> \<open>i32\<close> and \<open>i64\<close> values written to memory or registers are words; the result of a system call is an integer.
\<close>

section \<open>State\<close>

definition UMAX_PROCS :: nat where "UMAX_PROCS = 16"
definition ISR_FRAME_SIZE :: u64 where "ISR_FRAME_SIZE = 112"
definition NSIG :: nat where "NSIG = 32"
definition SIGCHLD :: nat where "SIGCHLD = 17"
definition USER_TOP :: u64 where "USER_TOP = 0x0000800000000000"

definition CLONE_VM :: u64 where "CLONE_VM = 0x00000100"
definition CLONE_THREAD :: u64 where "CLONE_THREAD = 0x00010000"
definition CLONE_SETTLS :: u64 where "CLONE_SETTLS = 0x00080000"
definition CLONE_PARENT_SETTID :: u64 where "CLONE_PARENT_SETTID = 0x00100000"
definition CLONE_CHILD_CLEARTID :: u64 where "CLONE_CHILD_CLEARTID = 0x00200000"
definition CLONE_CHILD_SETTID :: u64 where "CLONE_CHILD_SETTID = 0x01000000"

record isr_frame =
  f_r11 :: u64
  f_r10 :: u64
  f_r9 :: u64
  f_r8 :: u64
  f_rdi :: u64
  f_rsi :: u64
  f_rdx :: u64
  f_rcx :: u64
  f_rax :: u64
  f_rip :: u64
  f_cs :: u64
  f_rflags :: u64
  f_rsp :: u64
  f_ss :: u64

record sig_action =
  sa_handler :: u64
  sa_flags :: u64
  sa_mask :: u64

definition sig_action_default :: sig_action where
  "sig_action_default = \<lparr>sa_handler = 0, sa_flags = 0, sa_mask = 0\<rparr>"

datatype ustate = UEmpty | UReady | URunning | UWaiting u64 | UZombie u32 | UBlocked u64

record user_proc =
  up_pid :: u64
  up_parent :: u64
  up_state :: ustate
  up_cr3 :: u64
  up_kstack :: u64
  up_frame :: u64
  sig_handlers :: "sig_action list"
  sig_mask :: u64
  pending_sigs :: u64
  up_fs_base :: u64
  up_tgid :: u64
  child_tid_ptr :: u64
  up_cwd :: string
  mmap_next :: u64
  brk_base :: u64
  brk_cur :: u64

record 'o usys =
  USER_PROCS :: "user_proc option list"
  CURRENT_UPROC :: nat
  isr_frames :: "u64 \<Rightarrow> isr_frame"
  umems :: "u64 \<Rightarrow> umem"
  hw_cr3 :: u64
  FS_BASE :: u64
  GS_BASE :: u64
  tss_rsp0 :: u64
  KCR3 :: u64
  VMAS :: vma_table
  usched :: "'o scheduler"
  GLOBAL_PENDING :: u64
  USER_EXIT_CODE :: u32

datatype 'a flow = Returns 'a | Iretq u64 | Longjmp

type_synonym ('o, 'a) ucall = "'o usys \<Rightarrow> 'o usys \<times> 'a flow"

abbreviation cur_up :: "'o usys \<Rightarrow> user_proc option" where
  "cur_up s \<equiv> USER_PROCS s ! CURRENT_UPROC s"

definition upd_up :: "nat \<Rightarrow> (user_proc \<Rightarrow> user_proc) \<Rightarrow> 'o usys \<Rightarrow> 'o usys" where
  "upd_up i f s = s\<lparr>USER_PROCS := (USER_PROCS s)[i := map_option f (USER_PROCS s ! i)]\<rparr>"

definition del_up :: "nat \<Rightarrow> 'o usys \<Rightarrow> 'o usys" where
  "del_up i s = s\<lparr>USER_PROCS := (USER_PROCS s)[i := None]\<rparr>"

definition put_up :: "user_proc \<Rightarrow> 'o usys \<Rightarrow> 'o usys" where
  "put_up p s = s\<lparr>USER_PROCS := upd_first (\<lambda>sl. sl = None) (\<lambda>_. Some p) (USER_PROCS s)\<rparr>"

text \<open>User memory of the address space that is loaded.\<close>

definition on_umem :: "(umem \<Rightarrow> umem) \<Rightarrow> 'o usys \<Rightarrow> 'o usys" where
  "on_umem f s = s\<lparr>umems := (umems s)(hw_cr3 s := f (umems s (hw_cr3 s)))\<rparr>"

abbreviation cur_umem :: "'o usys \<Rightarrow> umem" where
  "cur_umem s \<equiv> umems s (hw_cr3 s)"

definition set_frame :: "u64 \<Rightarrow> isr_frame \<Rightarrow> 'o usys \<Rightarrow> 'o usys" where
  "set_frame a f s = s\<lparr>isr_frames := (isr_frames s)(a := f)\<rparr>"

abbreviation set_rax :: "u64 \<Rightarrow> u64 \<Rightarrow> 'o usys \<Rightarrow> 'o usys" where
  "set_rax a v s \<equiv> set_frame a ((isr_frames s a)\<lparr>f_rax := v\<rparr>) s"

section \<open>Registration and the settings of the current process\<close>

definition new_uproc :: "u64 \<Rightarrow> u64 \<Rightarrow> u64 \<Rightarrow> u64 \<Rightarrow> user_proc" where
  "new_uproc pid parent cr3 ks =
     \<lparr>up_pid = pid, up_parent = parent, up_state = URunning, up_cr3 = cr3, up_kstack = ks, up_frame = 0,
      sig_handlers = replicate NSIG sig_action_default, sig_mask = 0, pending_sigs = 0, up_fs_base = 0,
      up_tgid = 0, child_tid_ptr = 0, up_cwd = ''/'', mmap_next = 0x40000000, brk_base = 0, brk_cur = 0\<rparr>"

definition up_register :: "u64 \<Rightarrow> u64 \<Rightarrow> u64 \<Rightarrow> u64 \<Rightarrow> 'o usys \<Rightarrow> 'o usys" where
  "up_register pid parent user_cr3 ks s =
     (case find_idx (\<lambda>sl. map_option up_pid sl = Some pid) (USER_PROCS s) of
        Some i \<Rightarrow>
          let s = (upd_up i (\<lambda>p. p\<lparr>up_cr3 := user_cr3, up_state := URunning\<rparr>) s)\<lparr>CURRENT_UPROC := i\<rparr>
          in s\<lparr>tss_rsp0 := up_kstack (the (USER_PROCS s ! i))\<rparr>
      | None \<Rightarrow>
          (case find_idx (\<lambda>sl. sl = None) (USER_PROCS s) of
             Some i \<Rightarrow> s\<lparr>USER_PROCS := (USER_PROCS s)[i := Some (new_uproc pid parent user_cr3 ks)],
                CURRENT_UPROC := i, tss_rsp0 := ks\<rparr>
           | None \<Rightarrow> s))"

definition up_current_pid :: "'o usys \<Rightarrow> u64" where
  "up_current_pid s = (case cur_up s of Some p \<Rightarrow> up_pid p | None \<Rightarrow> 0)"

definition current_tgid :: "'o usys \<Rightarrow> u64" where
  "current_tgid s = (case cur_up s of
     Some p \<Rightarrow> if up_tgid p \<noteq> 0 then up_tgid p else up_pid p
   | None \<Rightarrow> 0)"

definition is_forked_child :: "'o usys \<Rightarrow> bool" where
  "is_forked_child s = (case cur_up s of Some p \<Rightarrow> up_parent p \<noteq> 0 | None \<Rightarrow> False)"

definition current_cwd :: "'o usys \<Rightarrow> string" where
  "current_cwd s = (case cur_up s of Some p \<Rightarrow> up_cwd p | None \<Rightarrow> ''/'')"

definition current_cr3 :: "'o usys \<Rightarrow> u64" where
  "current_cr3 s = (case cur_up s of Some p \<Rightarrow> up_cr3 p | None \<Rightarrow> 0)"

definition set_cwd :: "string \<Rightarrow> 'o usys \<Rightarrow> 'o usys" where
  "set_cwd path s = upd_up (CURRENT_UPROC s) (\<lambda>p. p\<lparr>up_cwd := path\<rparr>) s"

definition set_brk_base :: "u64 \<Rightarrow> 'o usys \<Rightarrow> 'o usys option" where
  "set_brk_base endp s = (case cur_up s of
     None \<Rightarrow> Some s
   | Some _ \<Rightarrow> do {
       e \<leftarrow> add_chk endp 0xFFF;
       let aligned = e AND NOT 0xFFF;
       Some (upd_up (CURRENT_UPROC s) (\<lambda>p. p\<lparr>brk_base := aligned, brk_cur := aligned\<rparr>) s)
     })"

definition sys_brk :: "u64 \<Rightarrow> 'o usys \<Rightarrow> ('o usys \<times> int) option" where
  "sys_brk addr s = (case cur_up s of
     None \<Rightarrow> Some (s, - 12)
   | Some p \<Rightarrow>
       if addr = 0 \<or> addr < brk_base p then Some (s, sint (brk_cur p))
       else do {
         e \<leftarrow> add_chk addr 0xFFF;
         let new_brk = e AND NOT 0xFFF;
         v \<leftarrow> (if new_brk > brk_cur p then do {
                 n \<leftarrow> add_chk (new_brk - brk_cur p) 4095;
                 vma_insert (brk_cur p) (n div 4096) 3 True (VMAS s)
               } else Some (VMAS s));
         Some (upd_up (CURRENT_UPROC s) (\<lambda>p. p\<lparr>brk_cur := new_brk\<rparr>) (s\<lparr>VMAS := v\<rparr>), sint new_brk)
       })"

definition alloc_mmap_vaddr :: "u64 \<Rightarrow> 'o usys \<Rightarrow> ('o usys \<times> u64) option" where
  "alloc_mmap_vaddr pages s = (case cur_up s of
     None \<Rightarrow> Some (s, 0x40000000)
   | Some p \<Rightarrow> do {
       n \<leftarrow> mul_chk pages 4096;
       a \<leftarrow> add_chk (mmap_next p) n;
       Some (upd_up (CURRENT_UPROC s) (\<lambda>p. p\<lparr>mmap_next := a\<rparr>) s, mmap_next p)
     })"

definition sys_set_tid_address :: "u64 \<Rightarrow> 'o usys \<Rightarrow> 'o usys \<times> int" where
  "sys_set_tid_address tidptr s = (case cur_up s of
     None \<Rightarrow> (s, 0)
   | Some p \<Rightarrow> (upd_up (CURRENT_UPROC s) (\<lambda>p. p\<lparr>child_tid_ptr := tidptr\<rparr>) s, sint (up_pid p)))"

definition sys_arch_prctl :: "u64 \<Rightarrow> u64 \<Rightarrow> 'o usys \<Rightarrow> 'o usys \<times> int" where
  "sys_arch_prctl code addr s =
     (if code = 0x1002 then (upd_up (CURRENT_UPROC s) (\<lambda>p. p\<lparr>up_fs_base := addr\<rparr>) (s\<lparr>FS_BASE := addr\<rparr>), 0)
      else if code = 0x1003 then (on_umem (wr64 addr (FS_BASE s)) s, 0)
      else if code = 0x1001 then (s\<lparr>GS_BASE := addr\<rparr>, 0)
      else if code = 0x1004 then (on_umem (wr64 addr (GS_BASE s)) s, 0)
      else (s, EINVAL))"

section \<open>Creating processes and threads\<close>

definition child_of :: "user_proc \<Rightarrow> u64 \<Rightarrow> u64 \<Rightarrow> u64 \<Rightarrow> user_proc" where
  "child_of p pid cr3 ks =
     p\<lparr>up_pid := pid, up_parent := up_pid p, up_state := UReady, up_cr3 := cr3, up_kstack := ks,
       up_frame := ks - ISR_FRAME_SIZE, pending_sigs := 0\<rparr>"

definition fork_current :: "u64 \<Rightarrow> u64 \<Rightarrow> u64 \<Rightarrow> 'o usys \<Rightarrow> ('o usys \<times> u64) option" where
  "fork_current frame_rsp child_cr3 ks s = (case cur_up s of
     None \<Rightarrow> Some (s, - 1)
   | Some p \<Rightarrow> do {
       (sch, child_pid) \<leftarrow> alloc_pid (usched s);
       let s = s\<lparr>usched := sch, umems := (umems s)(child_cr3 := umems s (up_cr3 p))\<rparr>;
       let s = set_frame (ks - ISR_FRAME_SIZE) ((isr_frames s frame_rsp)\<lparr>f_rax := 0\<rparr>) s;
       let c = (child_of p child_pid child_cr3 ks)\<lparr>up_fs_base := 0, up_tgid := 0, child_tid_ptr := 0\<rparr>;
       Some (put_up c s, child_pid)
     })"

definition put_tid :: "bool \<Rightarrow> u64 \<Rightarrow> u64 \<Rightarrow> 'o usys \<Rightarrow> 'o usys" where
  "put_tid wanted vaddr pid s =
     (if wanted \<and> vaddr \<noteq> 0 \<and> vaddr < USER_TOP then on_umem (wr32 vaddr (ucast pid)) s else s)"

definition clone_thread ::
  "u64 \<Rightarrow> u64 \<Rightarrow> u64 \<Rightarrow> u64 \<Rightarrow> u64 \<Rightarrow> u64 \<Rightarrow> u64 \<Rightarrow> u64 \<Rightarrow> 'o usys \<Rightarrow> ('o usys \<times> u64) option" where
  "clone_thread flags child_stack parent_tid_vaddr child_tid_vaddr newtls frame_rsp copy_cr3 ks s =
     (case cur_up s of
        None \<Rightarrow> Some (s, - 1)
      | Some p \<Rightarrow> do {
          let tgid = (if up_tgid p \<noteq> 0 then up_tgid p else up_pid p);
          (sch, child_pid) \<leftarrow> alloc_pid (usched s);
          let s = s\<lparr>usched := sch\<rparr>;
          let f = (isr_frames s frame_rsp)\<lparr>f_rax := 0\<rparr>;
          let f = (if child_stack \<noteq> 0 then f\<lparr>f_rsp := child_stack\<rparr> else f);
          let s = set_frame (ks - ISR_FRAME_SIZE) f s;
          let child_fs = (if flags AND CLONE_SETTLS \<noteq> 0 then newtls else up_fs_base p);
          let s = put_tid (flags AND CLONE_PARENT_SETTID \<noteq> 0) parent_tid_vaddr child_pid s;
          let s = put_tid (flags AND CLONE_CHILD_SETTID \<noteq> 0) child_tid_vaddr child_pid s;
          let tid_ptr = (if flags AND (CLONE_CHILD_CLEARTID OR CLONE_CHILD_SETTID) \<noteq> 0 then child_tid_vaddr else 0);
          let (child_cr3, s) = (if flags AND CLONE_VM \<noteq> 0 then (up_cr3 p, s)
             else (copy_cr3, s\<lparr>umems := (umems s)(copy_cr3 := umems s (up_cr3 p))\<rparr>));
          let c = (child_of p child_pid child_cr3 ks)\<lparr>up_fs_base := child_fs,
             up_tgid := (if flags AND CLONE_THREAD \<noteq> 0 then tgid else 0), child_tid_ptr := tid_ptr\<rparr>;
          Some (put_up c s, child_pid)
        })"

section \<open>Switching\<close>

definition iretq_to_frame :: "u64 \<Rightarrow> u64 \<Rightarrow> u64 \<Rightarrow> ('o, 'a) ucall" where
  "iretq_to_frame cr3 frame_rsp kstack_top s =
     (let fs = (case cur_up s of Some p \<Rightarrow> up_fs_base p | None \<Rightarrow> 0)
      in (s\<lparr>tss_rsp0 := kstack_top, FS_BASE := (if fs \<noteq> 0 then fs else FS_BASE s), hw_cr3 := cr3\<rparr>, Iretq frame_rsp))"

text \<open>The block every switch repeats: mark the target running, make it current, leave through its frame.\<close>

definition switch_to :: "nat \<Rightarrow> ('o, 'a) ucall" where
  "switch_to next s =
     (let p = the (USER_PROCS s ! next);
          s = (upd_up next (\<lambda>p. p\<lparr>up_state := URunning\<rparr>) s)\<lparr>CURRENT_UPROC := next\<rparr>
      in iretq_to_frame (up_cr3 p) (up_frame p) (up_kstack p) s)"

definition is_ready :: "user_proc option \<Rightarrow> bool" where
  "is_ready sl = (case sl of Some p \<Rightarrow> up_state p = UReady | None \<Rightarrow> False)"

definition find_next_ready_from :: "nat \<Rightarrow> 'o usys \<Rightarrow> nat option" where
  "find_next_ready_from start s =
     List.find (\<lambda>i. is_ready (USER_PROCS s ! i)) (map (\<lambda>i. (start + i) mod UMAX_PROCS) [0..<UMAX_PROCS])"

definition park :: "u64 \<Rightarrow> ustate \<Rightarrow> 'o usys \<Rightarrow> 'o usys" where
  "park frame_rsp st s = upd_up (CURRENT_UPROC s) (\<lambda>p. p\<lparr>up_frame := frame_rsp, up_state := st\<rparr>) s"

text \<open>\<open>table()[cur].as_mut().unwrap().state = Running\<close>.\<close>

definition resume_self :: "int \<Rightarrow> 'o usys \<Rightarrow> ('o usys \<times> int flow) option" where
  "resume_self ret s = (if cur_up s = None then None
     else Some (upd_up (CURRENT_UPROC s) (\<lambda>p. p\<lparr>up_state := URunning\<rparr>) s, Returns ret))"

definition sched_yield_impl :: "u64 \<Rightarrow> 'o usys \<Rightarrow> ('o usys \<times> int flow) option" where
  "sched_yield_impl frame_rsp s =
     (let cur = CURRENT_UPROC s;
          s = park frame_rsp UReady (set_rax frame_rsp 0 s)
      in case find_next_ready_from (cur + 1) s of
           Some next \<Rightarrow> Some (switch_to next s)
         | None \<Rightarrow> resume_self 0 s)"

definition futex_wait_impl :: "u64 \<Rightarrow> u64 \<Rightarrow> u64 \<Rightarrow> 'o usys \<Rightarrow> ('o usys \<times> int flow) option" where
  "futex_wait_impl uaddr expected frame_rsp s =
     (if uaddr = 0 then Some (s, Returns EFAULT)
      else if rd32 (cur_umem s) uaddr \<noteq> ucast expected then Some (s, Returns EAGAIN)
      else
        let s = park frame_rsp (UBlocked uaddr) (set_rax frame_rsp 0 s)
        in case find_next_ready_from 0 s of
             Some next \<Rightarrow> Some (switch_to next s)
           | None \<Rightarrow> resume_self EAGAIN s)"

fun wake_loop :: "u64 \<Rightarrow> int \<Rightarrow> user_proc option list \<Rightarrow> int \<Rightarrow> user_proc option list \<times> int" where
  "wake_loop uaddr mx [] woken = ([], woken)"
| "wake_loop uaddr mx (sl # sls) woken =
     (if woken \<ge> mx then (sl # sls, woken)
      else case sl of
          None \<Rightarrow> (let (r, w) = wake_loop uaddr mx sls woken in (None # r, w))
        | Some p \<Rightarrow>
            if up_state p = UBlocked uaddr
            then (let (r, w) = wake_loop uaddr mx sls (woken + 1) in (Some (p\<lparr>up_state := UReady\<rparr>) # r, w))
            else (let (r, w) = wake_loop uaddr mx sls woken in (Some p # r, w)))"

definition futex_wake_impl :: "u64 \<Rightarrow> u64 \<Rightarrow> 'o usys \<Rightarrow> 'o usys \<times> int" where
  "futex_wake_impl uaddr max_count s =
     (let (t, woken) = wake_loop uaddr (sint max_count) (USER_PROCS s) 0 in (s\<lparr>USER_PROCS := t\<rparr>, woken))"

definition futex_dispatch :: "u64 \<Rightarrow> u64 \<Rightarrow> u64 \<Rightarrow> u64 \<Rightarrow> 'o usys \<Rightarrow> ('o usys \<times> int flow) option" where
  "futex_dispatch uaddr opc val frame_rsp s =
     (let op_kind = opc AND NOT (128 OR 256) in
      if op_kind = 0 then futex_wait_impl uaddr val frame_rsp s
      else if op_kind = 1 then (let (s, n) = futex_wake_impl uaddr val s in Some (s, Returns n))
      else Some (s, Returns 0))"

section \<open>Waiting and exit\<close>

definition find_child :: "u64 \<Rightarrow> u64 \<Rightarrow> user_proc option list \<Rightarrow> nat option" where
  "find_child parent_pid target t = find_idx (\<lambda>sl. case sl of
      None \<Rightarrow> False
    | Some p \<Rightarrow> up_parent p = parent_pid \<and> (target = - 1 \<or> up_pid p = target) \<and> up_tgid p = 0) t"

definition write_status :: "u64 \<Rightarrow> u32 \<Rightarrow> 'o usys \<Rightarrow> 'o usys" where
  "write_status ptr code s =
     (if ptr \<noteq> 0 \<and> ptr < USER_TOP then on_umem (wr32 ptr (push_bit 8 code)) s else s)"

definition wait4_impl :: "u64 \<Rightarrow> u64 \<Rightarrow> u64 \<Rightarrow> u64 \<Rightarrow> ('o, int) ucall" where
  "wait4_impl child_pid_arg status_ptr options frame_rsp s = (case cur_up s of
     None \<Rightarrow> (s, Returns (- 10))
   | Some parent \<Rightarrow>
       (case find_child (up_pid parent) child_pid_arg (USER_PROCS s) of
          None \<Rightarrow> (s, Returns (- 10))
        | Some child_idx \<Rightarrow>
            let c = the (USER_PROCS s ! child_idx) in
            (case up_state c of
               UZombie code \<Rightarrow> (del_up child_idx (write_status status_ptr code s), Returns (sint (up_pid c)))
             | _ \<Rightarrow>
                 if options AND 1 \<noteq> 0 then (s, Returns 0)
                 else switch_to child_idx (park frame_rsp (UWaiting (up_pid c)) s))))"

definition raise_sigchld_to :: "u64 \<Rightarrow> 'o usys \<Rightarrow> 'o usys" where
  "raise_sigchld_to parent_pid s =
     s\<lparr>USER_PROCS := upd_first (\<lambda>sl. map_option up_pid sl = Some parent_pid)
        (map_option (\<lambda>p. p\<lparr>pending_sigs := pending_sigs p OR push_bit (SIGCHLD - 1) 1\<rparr>)) (USER_PROCS s)\<rparr>"

definition thread_exit :: "user_proc \<Rightarrow> ('o, unit) ucall" where
  "thread_exit p s =
     (let tid_ptr = child_tid_ptr p;
          s = (if tid_ptr \<noteq> 0 \<and> tid_ptr < USER_TOP
               then fst (futex_wake_impl tid_ptr (- 1) (on_umem (wr32 tid_ptr 0) s)) else s);
          s = del_up (CURRENT_UPROC s) s
      in case find_next_ready_from 0 s of
           Some next \<Rightarrow> switch_to next s
         | None \<Rightarrow> (s, Returns ()))"

definition wake_waiter :: "nat \<Rightarrow> u64 \<Rightarrow> u32 \<Rightarrow> ('o, unit) ucall" where
  "wake_waiter pidx child_pid exit_code s =
     (let cur = CURRENT_UPROC s;
          p = the (USER_PROCS s ! pidx);
          s = (upd_up pidx (\<lambda>p. p\<lparr>up_state := URunning\<rparr>) s)\<lparr>CURRENT_UPROC := pidx, hw_cr3 := up_cr3 p\<rparr>;
          s = write_status (f_rsi (isr_frames s (up_frame p))) exit_code s;
          s = set_rax (up_frame p) child_pid s;
          s = del_up cur s
      in iretq_to_frame (up_cr3 p) (up_frame p) (up_kstack p) s)"

definition process_exit :: "user_proc \<Rightarrow> u32 \<Rightarrow> ('o, unit) ucall" where
  "process_exit c exit_code s =
     (if up_parent c = 0 then (s, Returns ())
      else
        let s = upd_up (CURRENT_UPROC s) (\<lambda>p. p\<lparr>up_state := UZombie exit_code\<rparr>) s
        in case find_idx (\<lambda>sl. map_option up_pid sl = Some (up_parent c)) (USER_PROCS s) of
             None \<Rightarrow> (s, Returns ())
           | Some pidx \<Rightarrow>
               (case up_state (the (USER_PROCS s ! pidx)) of
                  UWaiting waited \<Rightarrow>
                    if waited \<noteq> up_pid c \<and> waited \<noteq> - 1 then (s, Returns ())
                    else wake_waiter pidx (up_pid c) exit_code s
                | _ \<Rightarrow> (raise_sigchld_to (up_parent c) s, Returns ())))"

definition try_wake_parent :: "u32 \<Rightarrow> ('o, unit) ucall" where
  "try_wake_parent exit_code s = (case cur_up s of
     None \<Rightarrow> (s, Returns ())
   | Some p \<Rightarrow> if up_tgid p \<noteq> 0 then thread_exit p s else process_exit p exit_code s)"

definition sys_exit_impl :: "u64 \<Rightarrow> ('o, 'a) ucall" where
  "sys_exit_impl code s =
     (case try_wake_parent (ucast code) (s\<lparr>USER_EXIT_CODE := ucast code\<rparr>) of
        (s, Iretq f) \<Rightarrow> (s, Iretq f)
      | (s, _) \<Rightarrow> (s\<lparr>hw_cr3 := KCR3 s\<rparr>, Longjmp))"

section \<open>The table invariant\<close>

text \<open>Sixteen slots, a current one, no pid twice and none still to be given out, signal state within its 32
  numbers, and no process but the current one running.\<close>

definition proc_ok :: "u64 \<Rightarrow> user_proc \<Rightarrow> bool" where
  "proc_ok next p \<longleftrightarrow> up_pid p < next \<and> length (sig_handlers p) = NSIG \<and> pending_sigs p < 2 ^ 32"

definition table_ok :: "u64 \<Rightarrow> nat \<Rightarrow> user_proc option list \<Rightarrow> bool" where
  "table_ok next cur t \<longleftrightarrow> length t = UMAX_PROCS \<and> cur < UMAX_PROCS \<and>
     (\<forall>i p. i < UMAX_PROCS \<longrightarrow> t ! i = Some p \<longrightarrow> proc_ok next p \<and> (up_state p = URunning \<longrightarrow> i = cur)) \<and>
     (\<forall>i j p q. i < UMAX_PROCS \<longrightarrow> j < UMAX_PROCS \<longrightarrow> t ! i = Some p \<longrightarrow> t ! j = Some q \<longrightarrow> up_pid p = up_pid q \<longrightarrow> i = j)"

definition up_ok :: "'o usys \<Rightarrow> bool" where
  "up_ok s \<longleftrightarrow> table_ok (next_pid (usched s)) (CURRENT_UPROC s) (USER_PROCS s)"

lemma table_okD:
  assumes "table_ok next cur t"
  shows "length t = UMAX_PROCS" and "cur < UMAX_PROCS" and "cur < length t"
    and "i < UMAX_PROCS \<Longrightarrow> t ! i = Some p \<Longrightarrow> proc_ok next p"
    and "i < UMAX_PROCS \<Longrightarrow> t ! i = Some p \<Longrightarrow> up_state p = URunning \<Longrightarrow> i = cur"
    and "i < UMAX_PROCS \<Longrightarrow> j < UMAX_PROCS \<Longrightarrow> t ! i = Some p \<Longrightarrow> t ! j = Some q \<Longrightarrow> up_pid p = up_pid q \<Longrightarrow> i = j"
  using assms unfolding table_ok_def by simp_all

text \<open>One slot changes to a process with the same pid.\<close>

lemma table_ok_upd:
  assumes t: "table_ok next cur t" and i: "i < UMAX_PROCS"
    and f: "\<And>p. t ! i = Some p \<Longrightarrow> proc_ok next p \<Longrightarrow> proc_ok next (f p) \<and> up_pid (f p) = up_pid p"
    and r: "\<And>p. t ! i = Some p \<Longrightarrow> up_state (f p) = URunning \<Longrightarrow> i = cur"
  shows "table_ok next cur (t[i := map_option f (t ! i)])"
proof -
  have l: "length t = UMAX_PROCS" by (rule table_okD(1) [OF t])
  have get: "\<exists>p0. t ! k = Some p0 \<and> p = (if k = i then f p0 else p0)"
    if "k < UMAX_PROCS" "t[i := map_option f (t ! i)] ! k = Some p" for k p
    using that l by (cases "k = i") (auto simp: nth_upd_ite)
  show ?thesis
    unfolding table_ok_def
  proof (intro conjI allI impI)
    show "length (t[i := map_option f (t ! i)]) = UMAX_PROCS" "cur < UMAX_PROCS"
      using l table_okD(2) [OF t] by simp_all
  next
    fix k p assume k: "k < UMAX_PROCS" and p: "t[i := map_option f (t ! i)] ! k = Some p"
    from get [OF k p] obtain p0 where p0: "t ! k = Some p0" "p = (if k = i then f p0 else p0)" by blast
    note ok = table_okD(4) [OF t k p0(1)]
    show "proc_ok next p" using f p0 ok by (cases "k = i") auto
    assume "up_state p = URunning"
    then show "k = cur" using r p0 table_okD(5) [OF t k p0(1)] by (cases "k = i") auto
  next
    fix k j p q
    assume k: "k < UMAX_PROCS" and j: "j < UMAX_PROCS"
      and p: "t[i := map_option f (t ! i)] ! k = Some p" and q: "t[i := map_option f (t ! i)] ! j = Some q"
      and e: "up_pid p = up_pid q"
    from get [OF k p] obtain p0 where p0: "t ! k = Some p0" "p = (if k = i then f p0 else p0)" by blast
    from get [OF j q] obtain q0 where q0: "t ! j = Some q0" "q = (if j = i then f q0 else q0)" by blast
    have "up_pid p0 = up_pid p" using f p0 table_okD(4) [OF t k p0(1)] by (cases "k = i") auto
    moreover have "up_pid q0 = up_pid q" using f q0 table_okD(4) [OF t j q0(1)] by (cases "j = i") auto
    ultimately show "k = j" using table_okD(6) [OF t k j p0(1) q0(1)] e by simp
  qed
qed

lemma table_ok_del:
  assumes t: "table_ok next cur t"
  shows "table_ok next cur (t[i := None])"
proof -
  have get: "t ! k = Some p" if "k < UMAX_PROCS" "t[i := None] ! k = Some p" for k p
    using that table_okD(1) [OF t] by (simp add: nth_upd_ite split: if_splits)
  show ?thesis
    using t unfolding table_ok_def length_list_update by (meson get)
qed

lemma uproc_ok_mono: "proc_ok n p \<Longrightarrow> n \<le> n' \<Longrightarrow> proc_ok n' p"
  by (auto simp: proc_ok_def)

lemma table_ok_mono: "table_ok n cur t \<Longrightarrow> n \<le> n' \<Longrightarrow> table_ok n' cur t"
  unfolding table_ok_def using uproc_ok_mono by blast

text \<open>A process with a fresh pid enters a free slot.\<close>

lemma table_ok_put:
  assumes t: "table_ok next cur t" and i: "i < UMAX_PROCS" "t ! i = None"
    and p: "proc_ok next c" "up_state c = URunning \<Longrightarrow> i = cur"
    and fresh: "\<And>k p. k < UMAX_PROCS \<Longrightarrow> t ! k = Some p \<Longrightarrow> up_pid p \<noteq> up_pid c"
  shows "table_ok next cur (t[i := Some c])"
proof -
  have l: "length t = UMAX_PROCS" by (rule table_okD(1) [OF t])
  have get: "if k = i then q = c else t ! k = Some q" if "k < UMAX_PROCS" "t[i := Some c] ! k = Some q" for k q
    using that l by (simp add: nth_upd_ite split: if_splits)
  show ?thesis
    unfolding table_ok_def
  proof (intro conjI allI impI)
    show "length (t[i := Some c]) = UMAX_PROCS" "cur < UMAX_PROCS" using l table_okD(2) [OF t] by simp_all
  next
    fix k q assume k: "k < UMAX_PROCS" and q: "t[i := Some c] ! k = Some q"
    show "proc_ok next q" using get [OF k q] p table_okD(4) [OF t k] by (auto split: if_splits)
    assume "up_state q = URunning"
    then show "k = cur" using get [OF k q] p table_okD(5) [OF t k] by (auto split: if_splits)
  next
    fix k j q r
    assume k: "k < UMAX_PROCS" and j: "j < UMAX_PROCS" and q: "t[i := Some c] ! k = Some q"
      and r: "t[i := Some c] ! j = Some r" and e: "up_pid q = up_pid r"
    show "k = j"
    proof (cases "k = i \<or> j = i")
      case True
      then show ?thesis using get [OF k q] get [OF j r] fresh [OF k, of q] fresh [OF j, of r] e by (auto split: if_splits)
    next
      case False
      then show ?thesis using get [OF k q] get [OF j r] table_okD(6) [OF t k j, of q r] e by simp
    qed
  qed
qed

text \<open>The current slot moves; the one left behind is no longer running.\<close>

lemma table_ok_move:
  assumes t: "table_ok next cur t" and i: "i < UMAX_PROCS"
    and left: "\<And>p. t ! cur = Some p \<Longrightarrow> up_state p = URunning \<Longrightarrow> i = cur"
  shows "table_ok next i t"
  using t i left unfolding table_ok_def by metis

section \<open>Every operation keeps the table\<close>

lemma UMAX_pos [simp]: "0 < UMAX_PROCS"
  by (simp add: UMAX_PROCS_def)

lemma up_ok_other [simp]:
  "up_ok (s\<lparr>isr_frames := a\<rparr>) = up_ok s" "up_ok (s\<lparr>umems := b\<rparr>) = up_ok s" "up_ok (s\<lparr>hw_cr3 := c\<rparr>) = up_ok s"
  "up_ok (s\<lparr>FS_BASE := d\<rparr>) = up_ok s" "up_ok (s\<lparr>GS_BASE := d\<rparr>) = up_ok s" "up_ok (s\<lparr>tss_rsp0 := d\<rparr>) = up_ok s"
  "up_ok (s\<lparr>VMAS := e\<rparr>) = up_ok s" "up_ok (s\<lparr>USER_EXIT_CODE := f\<rparr>) = up_ok s"
  "up_ok (s\<lparr>GLOBAL_PENDING := d\<rparr>) = up_ok s"
  "up_ok (on_umem g s) = up_ok s" "up_ok (set_frame d h s) = up_ok s"
  by (simp_all add: up_ok_def on_umem_def set_frame_def)

lemma other_fields [simp]:
  "USER_PROCS (on_umem g s) = USER_PROCS s" "CURRENT_UPROC (on_umem g s) = CURRENT_UPROC s"
  "USER_PROCS (set_frame a f s) = USER_PROCS s" "CURRENT_UPROC (set_frame a f s) = CURRENT_UPROC s"
  "CURRENT_UPROC (upd_up i u s) = CURRENT_UPROC s" "CURRENT_UPROC (del_up i s) = CURRENT_UPROC s"
  "CURRENT_UPROC (put_up p s) = CURRENT_UPROC s" "usched (upd_up i u s) = usched s" "usched (del_up i s) = usched s"
  "usched (put_up p s) = usched s" "usched (on_umem g s) = usched s" "usched (set_frame a f s) = usched s"
  "umems (upd_up i u s) = umems s" "isr_frames (upd_up i u s) = isr_frames s" "hw_cr3 (upd_up i u s) = hw_cr3 s"
  "umems (del_up i s) = umems s" "isr_frames (del_up i s) = isr_frames s" "hw_cr3 (del_up i s) = hw_cr3 s"
  "umems (put_up p s) = umems s" "isr_frames (put_up p s) = isr_frames s" "hw_cr3 (put_up p s) = hw_cr3 s"
  "isr_frames (on_umem g s) = isr_frames s" "hw_cr3 (on_umem g s) = hw_cr3 s"
  "umems (set_frame a f s) = umems s" "hw_cr3 (set_frame a f s) = hw_cr3 s"
  by (simp_all add: on_umem_def set_frame_def upd_up_def del_up_def put_up_def)

lemma up_okD:
  assumes "up_ok s"
  shows "length (USER_PROCS s) = UMAX_PROCS" and "CURRENT_UPROC s < UMAX_PROCS"
    and "i < UMAX_PROCS \<Longrightarrow> USER_PROCS s ! i = Some p \<Longrightarrow> proc_ok (next_pid (usched s)) p"
    and "i < UMAX_PROCS \<Longrightarrow> USER_PROCS s ! i = Some p \<Longrightarrow> up_state p = URunning \<Longrightarrow> i = CURRENT_UPROC s"
    and "i < UMAX_PROCS \<Longrightarrow> j < UMAX_PROCS \<Longrightarrow> USER_PROCS s ! i = Some p \<Longrightarrow> USER_PROCS s ! j = Some q \<Longrightarrow>
      up_pid p = up_pid q \<Longrightarrow> i = j"
  using assms table_okD [of "next_pid (usched s)" "CURRENT_UPROC s" "USER_PROCS s"] unfolding up_ok_def by blast+

lemma upd_up_ok:
  assumes "up_ok s" and "i < UMAX_PROCS"
    and "\<And>p. USER_PROCS s ! i = Some p \<Longrightarrow> proc_ok (next_pid (usched s)) p \<Longrightarrow>
      proc_ok (next_pid (usched s)) (f p) \<and> up_pid (f p) = up_pid p"
    and "\<And>p. USER_PROCS s ! i = Some p \<Longrightarrow> up_state (f p) = URunning \<Longrightarrow> i = CURRENT_UPROC s"
  shows "up_ok (upd_up i f s)"
  using table_ok_upd [of "next_pid (usched s)" "CURRENT_UPROC s" "USER_PROCS s" i f] assms
  by (simp add: up_ok_def upd_up_def)

lemma del_up_ok: "up_ok s \<Longrightarrow> up_ok (del_up i s)"
  by (simp add: up_ok_def del_up_def table_ok_del)

text \<open>A change of the current process that keeps its state, pid and signal state.\<close>

lemma upd_cur_ok [kernel_inv]:
  assumes "up_ok s" and "\<And>p. up_pid (f p) = up_pid p" "\<And>p. sig_handlers (f p) = sig_handlers p"
    "\<And>p. pending_sigs (f p) = pending_sigs p"
  shows "up_ok (upd_up (CURRENT_UPROC s) f s)"
  using assms up_okD(2) by (intro upd_up_ok) (auto simp: proc_ok_def)

lemma upd_cur_ok':
  "up_ok s \<Longrightarrow> i = CURRENT_UPROC s \<Longrightarrow> (\<And>p. up_pid (f p) = up_pid p) \<Longrightarrow> (\<And>p. sig_handlers (f p) = sig_handlers p) \<Longrightarrow>
    (\<And>p. pending_sigs (f p) = pending_sigs p) \<Longrightarrow> up_ok (upd_up i f s)"
  using upd_cur_ok by blast

lemma park_ok: "up_ok s \<Longrightarrow> up_ok (park fr st s)"
  unfolding park_def by (rule upd_cur_ok) simp_all

lemma put_up_ok:
  assumes s: "up_ok s" and c: "proc_ok (next_pid (usched s)) c" "up_state c = UReady"
    and fresh: "\<And>k p. k < UMAX_PROCS \<Longrightarrow> USER_PROCS s ! k = Some p \<Longrightarrow> up_pid p \<noteq> up_pid c"
  shows "up_ok (put_up c s)"
proof (cases "find_idx (\<lambda>sl. sl = None) (USER_PROCS s)")
  case None
  then show ?thesis using s by (simp add: put_up_def upd_first_find_idx del: find_idx_None_iff)
next
  case (Some i)
  then have "i < UMAX_PROCS" "USER_PROCS s ! i = None"
    using find_idx_SomeD(1,2) [OF Some] up_okD(1) [OF s] by simp_all
  then show ?thesis
    using table_ok_put [of "next_pid (usched s)" "CURRENT_UPROC s" "USER_PROCS s" i c] s c fresh Some
    by (simp add: up_ok_def put_up_def upd_first_find_idx)
qed

lemma run_ok:
  assumes s: "up_ok s" and i: "i < UMAX_PROCS" and left: "\<And>q. cur_up s = Some q \<Longrightarrow> up_state q = URunning \<Longrightarrow> i = CURRENT_UPROC s"
  shows "up_ok ((upd_up i (\<lambda>p. p\<lparr>up_state := URunning\<rparr>) s)\<lparr>CURRENT_UPROC := i\<rparr>)"
proof -
  have "table_ok (next_pid (usched s)) i (USER_PROCS s)"
    by (rule table_ok_move [OF s [unfolded up_ok_def] i left])
  then have "table_ok (next_pid (usched s)) i
      ((USER_PROCS s)[i := map_option (\<lambda>p. p\<lparr>up_state := URunning\<rparr>) (USER_PROCS s ! i)])"
    by (rule table_ok_upd [OF _ i]) (auto simp: proc_ok_def)
  then show ?thesis by (simp add: up_ok_def upd_up_def)
qed

lemma switch_to_ok:
  assumes "up_ok s" "i < UMAX_PROCS" "\<And>q. cur_up s = Some q \<Longrightarrow> up_state q \<noteq> URunning"
  shows "up_ok (fst (switch_to i s))"
proof -
  have "up_ok ((upd_up i (\<lambda>p. p\<lparr>up_state := URunning\<rparr>) s)\<lparr>CURRENT_UPROC := i\<rparr>)"
    by (rule run_ok) (use assms in auto)
  then show ?thesis by (simp add: switch_to_def iretq_to_frame_def Let_def)
qed

lemma find_next_ready_from_Some:
  "find_next_ready_from k s = Some i \<Longrightarrow> i < UMAX_PROCS \<and> is_ready (USER_PROCS s ! i)"
  by (auto simp: find_next_ready_from_def find_Some_iff)

lemma park_cur: "up_ok s \<Longrightarrow> USER_PROCS (park fr st s) ! CURRENT_UPROC s = map_option (\<lambda>p. p\<lparr>up_frame := fr, up_state := st\<rparr>) (cur_up s)"
  using up_okD(1,2) [of s] by (simp add: park_def upd_up_def)

lemma CURRENT_park [simp]: "CURRENT_UPROC (park fr st s) = CURRENT_UPROC s" "usched (park fr st s) = usched s"
  by (simp_all add: park_def)

lemma resume_self_ok: "up_ok s \<Longrightarrow> resume_self r s = Some (s', fl) \<Longrightarrow> up_ok s'"
  using upd_cur_ok [of s "\<lambda>p. p\<lparr>up_state := URunning\<rparr>"] by (auto simp: resume_self_def split: if_splits)

lemma park_switch_ok:
  assumes "up_ok s" "st \<noteq> URunning" "i < UMAX_PROCS"
  shows "up_ok (fst (switch_to i (park fr st s)))"
  using assms by (intro switch_to_ok park_ok) (auto simp: park_cur)

text \<open>The end of \<open>sched_yield\<close> and \<open>futex_wait\<close>.\<close>

lemma park_find_ok:
  assumes s: "up_ok s" and st: "st \<noteq> URunning"
    and r: "(case find_next_ready_from k (park fr st s) of
        Some next \<Rightarrow> Some (switch_to next (park fr st s)) | None \<Rightarrow> resume_self ret (park fr st s)) = Some (s', fl)"
  shows "up_ok s'"
proof (cases "find_next_ready_from k (park fr st s)")
  case None
  then show ?thesis using r resume_self_ok [OF park_ok [OF s]] by simp
next
  case (Some i)
  then have sw: "switch_to i (park fr st s) = (s', fl)" using r by simp
  have "up_ok (fst (s', fl))"
    unfolding sw [symmetric] using park_switch_ok [OF s st] find_next_ready_from_Some [OF Some] by blast
  then show ?thesis by simp
qed

lemma yield_ok [kernel_inv]: "up_ok s \<Longrightarrow> sched_yield_impl fr s = Some (s', fl) \<Longrightarrow> up_ok s'"
  unfolding sched_yield_impl_def Let_def by (rule park_find_ok [of "set_rax fr 0 s" UReady]) simp_all

lemma futex_wait_ok: "up_ok s \<Longrightarrow> futex_wait_impl u v fr s = Some (s', fl) \<Longrightarrow> up_ok s'"
  unfolding futex_wait_impl_def Let_def
  by (auto simp del: up_ok_other split: if_splits
      elim!: park_find_ok [of "set_rax fr 0 s" "UBlocked u", rotated 2] intro: up_ok_other [THEN iffD2])

text \<open>Some processes go from any state but running to ready.\<close>

lemma table_ok_ready:
  assumes t: "table_ok next cur t" and l: "length t' = length t"
    and r: "\<And>i. i < length t \<Longrightarrow> t' ! i = t ! i \<or> t' ! i = map_option (\<lambda>p. p\<lparr>up_state := UReady\<rparr>) (t ! i)"
  shows "table_ok next cur t'"
proof -
  have len: "length t = UMAX_PROCS" by (rule table_okD(1) [OF t])
  have get: "\<exists>p0. t ! k = Some p0 \<and> up_pid p = up_pid p0 \<and> proc_ok next p = proc_ok next p0 \<and>
      (up_state p = URunning \<longrightarrow> up_state p0 = URunning)" if "k < UMAX_PROCS" "t' ! k = Some p" for k p
    using r [of k] that len by (cases "t ! k") (auto simp: proc_ok_def)
  show ?thesis
    unfolding table_ok_def
  proof (intro conjI allI impI)
    show "length t' = UMAX_PROCS" "cur < UMAX_PROCS" using len l table_okD(2) [OF t] by simp_all
  next
    fix k p assume k: "k < UMAX_PROCS" and p: "t' ! k = Some p"
    from get [OF this] obtain p0 where p0: "t ! k = Some p0" "proc_ok next p = proc_ok next p0"
      "up_state p = URunning \<longrightarrow> up_state p0 = URunning" by blast
    then show "proc_ok next p" using table_okD(4) [OF t k] by simp
    assume "up_state p = URunning"
    then show "k = cur" using p0 table_okD(5) [OF t k p0(1)] by simp
  next
    fix k j p q
    assume k: "k < UMAX_PROCS" and j: "j < UMAX_PROCS" and p: "t' ! k = Some p" and q: "t' ! j = Some q"
      and e: "up_pid p = up_pid q"
    from get [OF k p] obtain p0 where "t ! k = Some p0" "up_pid p = up_pid p0" by blast
    moreover from get [OF j q] obtain q0 where "t ! j = Some q0" "up_pid q = up_pid q0" by blast
    ultimately show "k = j" using table_okD(6) [OF t k j] e by metis
  qed
qed

definition blocked_on :: "u64 \<Rightarrow> user_proc option \<Rightarrow> bool" where
  "blocked_on u sl \<longleftrightarrow> (\<exists>p. sl = Some p \<and> up_state p = UBlocked u)"

definition blocked_slots :: "u64 \<Rightarrow> user_proc option list \<Rightarrow> nat list" where
  "blocked_slots u t = filter (\<lambda>i. blocked_on u (t ! i)) [0..<length t]"

lemma blocked_slots_Cons:
  "blocked_slots u (sl # t) = (if blocked_on u sl then [0] else []) @ map Suc (blocked_slots u t)"
proof -
  have "[0..<Suc (length t)] = 0 # map Suc [0..<length t]" by (simp add: upt_conv_Cons map_Suc_upt del: upt_Suc)
  then show ?thesis by (simp add: blocked_slots_def filter_map o_def)
qed

abbreviation make_ready :: "user_proc option \<Rightarrow> user_proc option" where
  "make_ready \<equiv> map_option (\<lambda>p. p\<lparr>up_state := UReady\<rparr>)"

lemma wake_loop_spec:
  assumes "wake_loop u mx t w = (t', w')"
  shows "length t' = length t \<and> w' = w + int (min (nat (mx - w)) (length (blocked_slots u t))) \<and>
    (\<forall>i < length t. t' ! i = (if i \<in> set (take (nat (mx - w)) (blocked_slots u t)) then make_ready (t ! i) else t ! i))"
  using assms
proof (induction t arbitrary: w t')
  case Nil
  then show ?case by (simp add: blocked_slots_def)
next
  case (Cons sl t)
  show ?case
  proof (cases "w \<ge> mx")
    case True
    then show ?thesis using Cons.prems by auto
  next
    case False
    define b where "b = blocked_on u sl"
    define v where "v = (if b then w + 1 else w)"
    obtain r where r: "wake_loop u mx t v = (r, w')" "t' = (if b then make_ready sl else sl) # r"
      using Cons.prems False by (cases sl) (auto simp: b_def v_def blocked_on_def split: if_splits prod.splits)
    note IH = Cons.IH [OF r(1)]
    have n: "nat (mx - w) = (if b then Suc (nat (mx - v)) else nat (mx - v))"
      using False by (simp add: v_def) linarith
    have tk: "take (nat (mx - w)) (blocked_slots u (sl # t)) =
        (if b then [0] else []) @ map Suc (take (nat (mx - v)) (blocked_slots u t))"
      unfolding n blocked_slots_Cons by (simp add: b_def take_map)
    have "t' ! i = (if i \<in> set (take (nat (mx - w)) (blocked_slots u (sl # t))) then make_ready ((sl # t) ! i) else (sl # t) ! i)"
      if "i < length (sl # t)" for i
      using that IH unfolding tk r(2) by (cases i) auto
    moreover have "w' = w + int (min (nat (mx - w)) (length (blocked_slots u (sl # t))))"
      using IH unfolding n blocked_slots_Cons by (simp add: b_def [symmetric] v_def)
    ultimately show ?thesis using IH r(2) by simp
  qed
qed

lemma futex_wake_ok: "up_ok s \<Longrightarrow> up_ok (fst (futex_wake_impl u n s))"
proof -
  assume s: "up_ok s"
  obtain t' w where w: "wake_loop u (sint n) (USER_PROCS s) 0 = (t', w)" by (metis surj_pair)
  note sp = wake_loop_spec [OF w]
  have "table_ok (next_pid (usched s)) (CURRENT_UPROC s) t'"
    by (rule table_ok_ready [OF s [unfolded up_ok_def]]) (use sp in auto)
  then show ?thesis using w by (simp add: futex_wake_impl_def up_ok_def)
qed

lemma futex_dispatch_ok [kernel_inv]: "up_ok s \<Longrightarrow> futex_dispatch u opc v fr s = Some (s', fl) \<Longrightarrow> up_ok s'"
  using futex_wait_ok [of s u v fr] futex_wake_ok [of s u v]
  by (auto simp: futex_dispatch_def Let_def split: if_splits prod.splits)

lemma find_child_Some:
  "find_child par target t = Some i \<Longrightarrow> i < length t \<and> (\<exists>p. t ! i = Some p \<and> up_parent p = par \<and> up_tgid p = 0 \<and> (target = - 1 \<or> up_pid p = target))"
  unfolding find_child_def by (auto simp: find_idx_Some_iff split: option.splits)

lemma wait4_ok [kernel_inv]:
  assumes s: "up_ok s"
  shows "up_ok (fst (wait4_impl a st opt fr s))"
proof (cases "cur_up s")
  case None
  then show ?thesis using s by (simp add: wait4_impl_def)
next
  case (Some parent)
  show ?thesis
  proof (cases "find_child (up_pid parent) a (USER_PROCS s)")
    case None
    then show ?thesis using s Some by (simp add: wait4_impl_def)
  next
    case (Some i)
    have i: "i < UMAX_PROCS" using find_child_Some [OF Some] up_okD(1) [OF s] by simp
    have "up_ok (write_status st code s)" for code using s by (simp add: write_status_def)
    then show ?thesis
      using park_switch_ok [OF s _ i, of "UWaiting c" fr for c] \<open>cur_up s = Some parent\<close> Some s
      by (auto simp: wait4_impl_def Let_def del_up_ok split: ustate.splits)
  qed
qed

lemma find_ready_not_running:
  "find_next_ready_from k s = Some i \<Longrightarrow> \<exists>p. USER_PROCS s ! i = Some p \<and> up_state p = UReady"
  using find_next_ready_from_Some [of k s i] by (auto simp: is_ready_def split: option.splits)

lemma thread_exit_ok:
  assumes s: "up_ok s"
  shows "up_ok (fst (thread_exit p s))"
proof -
  define s1 where "s1 = (if child_tid_ptr p \<noteq> 0 \<and> child_tid_ptr p < USER_TOP
      then fst (futex_wake_impl (child_tid_ptr p) (- 1) (on_umem (wr32 (child_tid_ptr p) 0) s)) else s)"
  have "up_ok s1" using s by (simp add: s1_def futex_wake_ok)
  then have s2: "up_ok (del_up (CURRENT_UPROC s1) s1)" by (rule del_up_ok)
  let ?s = "del_up (CURRENT_UPROC s1) s1"
  have cur: "cur_up ?s = None" using up_okD(1,2) [OF \<open>up_ok s1\<close>] by (simp add: del_up_def)
  show ?thesis
  proof (cases "find_next_ready_from 0 ?s")
    case None
    then show ?thesis using s2 by (simp add: thread_exit_def s1_def [symmetric] Let_def)
  next
    case (Some i)
    then have "up_ok (fst (switch_to i ?s))"
      by (intro switch_to_ok [OF s2]) (use find_next_ready_from_Some [OF Some] cur in auto)
    then show ?thesis using Some by (simp add: thread_exit_def s1_def [symmetric] Let_def)
  qed
qed

lemma zombie_ok: "up_ok s \<Longrightarrow> up_ok (upd_up (CURRENT_UPROC s) (\<lambda>p. p\<lparr>up_state := UZombie c\<rparr>) s)"
  by (rule upd_cur_ok) simp_all

lemma wake_waiter_ok:
  assumes s: "up_ok s" and i: "i < UMAX_PROCS" and z: "\<And>q. cur_up s = Some q \<Longrightarrow> up_state q \<noteq> URunning"
  shows "up_ok (fst (wake_waiter i pid code s))"
proof -
  have "up_ok ((upd_up i (\<lambda>p. p\<lparr>up_state := URunning\<rparr>) s)\<lparr>CURRENT_UPROC := i\<rparr>)"
    by (rule run_ok [OF s i]) (use z in auto)
  then have "up_ok ((upd_up i (\<lambda>p. p\<lparr>up_state := URunning\<rparr>) s)\<lparr>CURRENT_UPROC := i, hw_cr3 := x\<rparr>)" for x by simp
  then show ?thesis by (simp add: wake_waiter_def iretq_to_frame_def Let_def write_status_def del_up_ok)
qed

lemma or_less_exp:
  fixes x y :: u64
  assumes "x < 2 ^ 32" "y < 2 ^ 32"
  shows "x OR y < 2 ^ 32"
proof -
  have "take_bit 32 (unat x) = unat x" "take_bit 32 (unat y) = unat y"
    using assms by (simp_all add: take_bit_nat_eq_self_iff word_less_nat_alt)
  then have "take_bit 32 (unat (x OR y)) = unat (x OR y)" by (simp add: unsigned_or_eq take_bit_or)
  then show ?thesis by (simp add: take_bit_nat_eq_self_iff word_less_nat_alt)
qed

lemma raise_sigchld_ok: "up_ok s \<Longrightarrow> up_ok (raise_sigchld_to q s)"
proof -
  assume s: "up_ok s"
  have b: "x OR push_bit (SIGCHLD - 1) 1 < 2 ^ 32" if "x < 2 ^ 32" for x :: u64
    by (rule or_less_exp) (use that in \<open>simp_all add: SIGCHLD_def\<close>)
  show ?thesis
  proof (cases "find_idx (\<lambda>sl. map_option up_pid sl = Some q) (USER_PROCS s)")
    case None
    then show ?thesis using s by (simp add: raise_sigchld_to_def upd_first_find_idx del: find_idx_None_iff)
  next
    case (Some i)
    have i: "i < UMAX_PROCS" using find_idx_SomeD(1) [OF Some] up_okD(1) [OF s] by simp
    have "up_ok (upd_up i (\<lambda>p. p\<lparr>pending_sigs := pending_sigs p OR push_bit (SIGCHLD - 1) 1\<rparr>) s)"
      by (rule upd_up_ok [OF s i]) (use b up_okD(4) [OF s i] in \<open>auto simp: proc_ok_def\<close>)
    then show ?thesis using Some by (simp add: raise_sigchld_to_def upd_first_find_idx upd_up_def)
  qed
qed

lemma process_exit_ok:
  assumes s: "up_ok s"
  shows "up_ok (fst (process_exit c code s))"
proof -
  define z where "z = upd_up (CURRENT_UPROC s) (\<lambda>p. p\<lparr>up_state := UZombie code\<rparr>) s"
  have z: "up_ok z" unfolding z_def by (rule zombie_ok [OF s])
  have zc: "up_state q \<noteq> URunning" if "cur_up z = Some q" for q
    using that up_okD(1,2) [OF s] by (auto simp: z_def upd_up_def)
  show ?thesis
  proof (cases "find_idx (\<lambda>sl. map_option up_pid sl = Some (up_parent c)) (USER_PROCS z)")
    case None
    then show ?thesis using s z by (simp add: process_exit_def z_def [symmetric] Let_def del: find_idx_None_iff)
  next
    case (Some i)
    have i: "i < UMAX_PROCS" using find_idx_SomeD(1) [OF Some] up_okD(1) [OF z] by simp
    show ?thesis
      using Some s z wake_waiter_ok [OF z i zc] raise_sigchld_ok [OF z]
      by (simp add: process_exit_def z_def [symmetric] Let_def split: ustate.splits)
  qed
qed

lemma sys_exit_ok [kernel_inv]: "up_ok s \<Longrightarrow> up_ok (fst (sys_exit_impl code s))"
proof -
  assume s: "up_ok s"
  have "up_ok (fst (try_wake_parent (ucast code) (s\<lparr>USER_EXIT_CODE := ucast code\<rparr>)))"
    using s thread_exit_ok [of "s\<lparr>USER_EXIT_CODE := ucast code\<rparr>"] process_exit_ok [of "s\<lparr>USER_EXIT_CODE := ucast code\<rparr>"]
    by (simp add: try_wake_parent_def split: option.splits)
  then show ?thesis by (auto simp: sys_exit_impl_def split: prod.splits flow.splits)
qed

lemma alloc_pid_next: "alloc_pid sc = Some (sc', q) \<Longrightarrow> q = next_pid sc \<and> next_pid sc < next_pid sc' \<and> next_pid sc \<le> next_pid sc'"
  by (auto simp: alloc_pid_def bind_eq_Some_conv word_less_nat_alt word_le_nat_alt dest!: add_chk_SomeD)

text \<open>A child with the pid just given out.\<close>

lemma put_child_ok:
  assumes s: "up_ok s" and a: "alloc_pid (usched s) = Some (sch, q)" and p: "cur_up s = Some p"
    and s': "usched s' = sch" "USER_PROCS s' = USER_PROCS s" "CURRENT_UPROC s' = CURRENT_UPROC s"
    and c: "up_pid c = q" "up_state c = UReady" "sig_handlers c = sig_handlers p" "pending_sigs c = 0"
  shows "up_ok (put_up c s')"
proof -
  have q: "q = next_pid (usched s)" "next_pid (usched s) < next_pid sch" "next_pid (usched s) \<le> next_pid sch"
    using alloc_pid_next [OF a] by simp_all
  have ok: "up_ok s'" using table_ok_mono [OF s [unfolded up_ok_def] q(3)] s' by (simp add: up_ok_def)
  have len: "length (sig_handlers p) = NSIG" using up_okD(3) [OF s up_okD(2) [OF s] p] by (simp add: proc_ok_def)
  show ?thesis
  proof (rule put_up_ok [OF ok])
    show "proc_ok (next_pid (usched s')) c" using c q s' len by (simp add: proc_ok_def)
    show "up_pid r \<noteq> up_pid c" if "k < UMAX_PROCS" "USER_PROCS s' ! k = Some r" for k r
      using up_okD(3) [OF s that(1)] that(2) s' c q by (auto simp: proc_ok_def)
  qed (rule c(2))
qed

lemma fork_ok [kernel_inv]: "up_ok s \<Longrightarrow> fork_current fr cr3 ks s = Some (s', r) \<Longrightarrow> up_ok s'"
  by (auto simp: fork_current_def bind_eq_Some_conv Let_def child_of_def split: option.splits
      intro!: put_child_ok)

lemma put_tid_fields [simp]:
  "usched (put_tid b v q s) = usched s" "USER_PROCS (put_tid b v q s) = USER_PROCS s"
  "CURRENT_UPROC (put_tid b v q s) = CURRENT_UPROC s"
  by (simp_all add: put_tid_def)

lemma clone_ok [kernel_inv]:
  assumes s: "up_ok s" and r: "clone_thread fl st pt ct tls fr cr3 ks s = Some (s', r)"
  shows "up_ok s'"
proof (cases "cur_up s")
  case None
  then show ?thesis using s r by (simp add: clone_thread_def)
next
  case (Some p)
  then obtain sch q where a: "alloc_pid (usched s) = Some (sch, q)"
    using r by (auto simp: clone_thread_def bind_eq_Some_conv)
  have "up_ok (fst (the (clone_thread fl st pt ct tls fr cr3 ks s)))"
    using Some a by (cases "fl AND CLONE_VM = 0") (simp_all add: clone_thread_def child_of_def Let_def put_child_ok [OF s a Some])
  then show ?thesis using r by simp
qed

lemma up_register_ok [kernel_inv]:
  assumes s: "up_ok s" and pid: "pid < next_pid (usched s)"
    and left: "\<And>p. cur_up s = Some p \<Longrightarrow> up_state p = URunning \<Longrightarrow> up_pid p = pid"
  shows "up_ok (up_register pid par cr3 ks s)"
proof (cases "find_idx (\<lambda>sl. map_option up_pid sl = Some pid) (USER_PROCS s)")
  case (Some i)
  then obtain p where i: "i < UMAX_PROCS" "USER_PROCS s ! i = Some p" "up_pid p = pid"
    using find_idx_SomeD(1,2) [OF Some] up_okD(1) [OF s] by auto
  let ?s = "upd_up i (\<lambda>p. p\<lparr>up_cr3 := cr3\<rparr>) s"
  have "up_ok ?s" by (rule upd_up_ok [OF s i(1)]) (use up_okD(4) [OF s i(1)] in \<open>auto simp: proc_ok_def\<close>)
  then have "up_ok ((upd_up i (\<lambda>p. p\<lparr>up_state := URunning\<rparr>) ?s)\<lparr>CURRENT_UPROC := i\<rparr>)"
  proof (rule run_ok [OF _ i(1)])
    fix q assume q: "cur_up ?s = Some q" "up_state q = URunning"
    then obtain q0 where "cur_up s = Some q0" "up_state q0 = URunning"
      using up_okD(1,2) [OF s] by (auto simp: upd_up_def nth_upd_ite split: if_splits)
    then show "i = CURRENT_UPROC ?s" using left up_okD(5) [OF s i(1) up_okD(2) [OF s] i(2)] i(3) by auto
  qed
  moreover have "upd_up i (\<lambda>p. p\<lparr>up_state := URunning\<rparr>) ?s = upd_up i (\<lambda>p. p\<lparr>up_cr3 := cr3, up_state := URunning\<rparr>) s"
    using i up_okD(1) [OF s] by (simp add: upd_up_def)
  ultimately show ?thesis using Some by (simp add: up_register_def Let_def)
next
  case None
  then have fresh: "up_pid p \<noteq> pid" if "k < UMAX_PROCS" "USER_PROCS s ! k = Some p" for k p
    using that up_okD(1) [OF s] by (auto simp: in_set_conv_nth)
  show ?thesis
  proof (cases "find_idx (\<lambda>sl. sl = None) (USER_PROCS s)")
    case no: None
    then show ?thesis using s None by (simp add: up_register_def del: find_idx_None_iff)
  next
    case (Some i)
    then have i: "i < UMAX_PROCS" "USER_PROCS s ! i = None" using find_idx_SomeD(1,2) [OF Some] up_okD(1) [OF s] by simp_all
    have "table_ok (next_pid (usched s)) i (USER_PROCS s)"
      by (rule table_ok_move [OF s [unfolded up_ok_def] i(1)]) (use left fresh up_okD(2) [OF s] in auto)
    then have "table_ok (next_pid (usched s)) i ((USER_PROCS s)[i := Some (new_uproc pid par cr3 ks)])"
      by (rule table_ok_put [OF _ i]) (use pid fresh in \<open>auto simp: proc_ok_def new_uproc_def\<close>)
    then show ?thesis using Some None by (simp add: up_register_def up_ok_def del: find_idx_None_iff)
  qed
qed

lemma settings_ok [kernel_inv]:
  assumes "up_ok s"
  shows "up_ok (set_cwd path s)" "set_brk_base e s = Some s' \<Longrightarrow> up_ok s'" "sys_brk a s = Some (s', r) \<Longrightarrow> up_ok s'"
    "alloc_mmap_vaddr n s = Some (s', v) \<Longrightarrow> up_ok s'" "up_ok (fst (sys_set_tid_address t s))"
    "up_ok (fst (sys_arch_prctl c v s))"
  using assms
  by (auto simp: set_cwd_def set_brk_base_def sys_brk_def alloc_mmap_vaddr_def sys_set_tid_address_def
      sys_arch_prctl_def bind_eq_Some_conv Let_def upd_cur_ok' split: option.splits if_splits)

section \<open>Fork\<close>


section \<open>Waiting for a child\<close>

lemma find_parent:
  assumes "up_ok s" "i < UMAX_PROCS" "USER_PROCS s ! i = Some p"
  shows "find_idx (\<lambda>sl. map_option up_pid sl = Some (up_pid p)) (USER_PROCS s) = Some i"
  unfolding find_idx_Some_iff using assms up_okD(1) [OF assms(1)] up_okD(5) [OF assms(1)]
  by (auto simp: less_imp_neq) (metis less_trans nat_neq_iff)

lemma wait4_switches:
  assumes ok: "up_ok s" and p: "cur_up s = Some p" and fc: "find_child (up_pid p) pid (USER_PROCS s) = Some i"
    and c: "USER_PROCS s ! i = Some c" and nz: "\<And>x. up_state c \<noteq> UZombie x" and opt: "opt AND 1 = 0" and ne: "i \<noteq> CURRENT_UPROC s"
  shows "wait4_impl pid sp opt fr s =
    (s\<lparr>USER_PROCS := (USER_PROCS s)[CURRENT_UPROC s := Some (p\<lparr>up_frame := fr, up_state := UWaiting (up_pid c)\<rparr>),
        i := Some (c\<lparr>up_state := URunning\<rparr>)], CURRENT_UPROC := i, tss_rsp0 := up_kstack c,
        FS_BASE := (if up_fs_base c \<noteq> 0 then up_fs_base c else FS_BASE s), hw_cr3 := up_cr3 c\<rparr>, Iretq (up_frame c))"
proof -
  have i: "i < length (USER_PROCS s)" "CURRENT_UPROC s < length (USER_PROCS s)"
    using find_child_Some [OF fc] up_okD(1,2) [OF ok] by simp_all
  have "wait4_impl pid sp opt fr s = switch_to i (park fr (UWaiting (up_pid c)) s)"
    using p fc c nz opt by (cases "up_state c") (auto simp: wait4_impl_def)
  then show ?thesis
    using i ne c p by (simp add: switch_to_def park_def iretq_to_frame_def upd_up_def)
qed

text \<open>C13: \<open>wait4\<close> and exit meet. A parent that waits for a child that has not ended hands the CPU to it; when
  the child exits, whatever the user programs did in between, the parent resumes from its own frame with
  the child's pid in RAX and the exit code in the status word, and the child's slot is free again.\<close>

theorem wait_then_exit:
  assumes ok: "up_ok s" and p: "cur_up s = Some p" "up_pid p \<noteq> 0"
    and fc: "find_child (up_pid p) pid (USER_PROCS s) = Some i" and c: "USER_PROCS s ! i = Some c"
    and nz: "\<And>x. up_state c \<noteq> UZombie x" and opt: "opt AND 1 = 0" and ne: "i \<noteq> CURRENT_UPROC s"
    and w: "wait4_impl pid sp opt fr s = (s1, fl)"
    and fr: "f_rsi (F fr) = sp"
    and e: "sys_exit_impl code (s1\<lparr>isr_frames := F, umems := M\<rparr>) = (s3, fl3)"
  shows "fl = Iretq (up_frame c) \<and> CURRENT_UPROC s1 = i \<and> hw_cr3 s1 = up_cr3 c \<and>
    fl3 = Iretq fr \<and> CURRENT_UPROC s3 = CURRENT_UPROC s \<and> hw_cr3 s3 = up_cr3 p \<and>
    isr_frames s3 fr = (F fr)\<lparr>f_rax := up_pid c\<rparr> \<and>
    USER_PROCS s3 = (USER_PROCS s)[CURRENT_UPROC s := Some (p\<lparr>up_frame := fr, up_state := URunning\<rparr>), i := None] \<and>
    (sp \<noteq> 0 \<and> sp < USER_TOP \<longrightarrow> rd32 (umems s3 (up_cr3 p)) sp = push_bit 8 (ucast code))"
proof -
  let ?cur = "CURRENT_UPROC s"
  let ?p = "p\<lparr>up_frame := fr, up_state := UWaiting (up_pid c)\<rparr>"
  have i: "i < length (USER_PROCS s)" "?cur < length (USER_PROCS s)"
    using find_child_Some [OF fc] up_okD(1,2) [OF ok] by simp_all
  have cc: "up_parent c = up_pid p" "up_tgid c = 0" using find_child_Some [OF fc] c by auto
  have w1: "s1 = s\<lparr>USER_PROCS := (USER_PROCS s)[?cur := Some ?p, i := Some (c\<lparr>up_state := URunning\<rparr>)],
      CURRENT_UPROC := i, tss_rsp0 := up_kstack c,
      FS_BASE := (if up_fs_base c \<noteq> 0 then up_fs_base c else FS_BASE s), hw_cr3 := up_cr3 c\<rparr>" "fl = Iretq (up_frame c)"
    using w unfolding wait4_switches [OF ok p(1) fc c nz opt ne] by simp_all
  let ?t = "(USER_PROCS s)[?cur := Some ?p, i := Some (c\<lparr>up_state := UZombie (ucast code)\<rparr>)]"
  have fp: "find_idx (\<lambda>sl. map_option up_pid sl = Some (up_pid p)) ?t = Some ?cur"
  proof -
    have "find_idx (\<lambda>sl. map_option up_pid sl = Some (up_pid p)) ?t =
        find_idx (\<lambda>sl. map_option up_pid sl = Some (up_pid p)) (USER_PROCS s)"
      by (rule find_idx_cong) (use i c p in \<open>auto simp: nth_list_update\<close>)
    then show ?thesis using find_parent [OF ok up_okD(2) [OF ok] p(1)] by simp
  qed
  show ?thesis
    using e i ne p cc fp fr w1(2)
    unfolding w1(1)
    by (auto simp: sys_exit_impl_def try_wake_parent_def process_exit_def upd_up_def wake_waiter_def iretq_to_frame_def
        write_status_def on_umem_def set_frame_def del_up_def Let_def list_update_swap)
qed

definition demo_usys :: "unit usys" where
  "demo_usys =
     \<lparr>USER_PROCS = [Some (new_uproc 1 0 0x1000 0xFFFF900000010000),
        Some ((child_of (new_uproc 1 0 0x1000 0xFFFF900000010000) 2 0x2000 0xFFFF900000020000))] @ replicate 14 None,
      CURRENT_UPROC = 0, isr_frames = (\<lambda>_. \<lparr>f_r11 = 0, f_r10 = 0, f_r9 = 0, f_r8 = 0, f_rdi = 0, f_rsi = 0x7000, f_rdx = 0,
        f_rcx = 0, f_rax = 61, f_rip = 0x10000, f_cs = 0x23, f_rflags = 0x202, f_rsp = 0x100000, f_ss = 0x1B\<rparr>),
      umems = (\<lambda>_ _. 0), hw_cr3 = 0x1000, FS_BASE = 0, GS_BASE = 0, tss_rsp0 = 0xFFFF900000010000, KCR3 = 0x100,
      VMAS = [], usched = scheduler_new\<lparr>next_pid := 3\<rparr>, GLOBAL_PENDING = 0, USER_EXIT_CODE = 0\<rparr>"

lemma less_16_cases: "i < UMAX_PROCS \<Longrightarrow> i = 0 \<or> i = 1 \<or> i \<in> {2..<16}"
  by (auto simp: UMAX_PROCS_def)

lemma demo_slots:
  "USER_PROCS demo_usys ! 0 = Some (new_uproc 1 0 0x1000 0xFFFF900000010000)"
  "USER_PROCS demo_usys ! 1 = Some (child_of (new_uproc 1 0 0x1000 0xFFFF900000010000) 2 0x2000 0xFFFF900000020000)"
  "i \<in> {2..<16} \<Longrightarrow> USER_PROCS demo_usys ! i = None" "length (USER_PROCS demo_usys) = 16" "CURRENT_UPROC demo_usys = 0"
  "next_pid (usched demo_usys) = 3"
  "USER_PROCS demo_usys ! Suc 0 = Some (child_of (new_uproc 1 0 0x1000 0xFFFF900000010000) 2 0x2000 0xFFFF900000020000)"
  by (auto simp: demo_usys_def nth_append nth_Cons' scheduler_new_def)

lemma demo_usys_ok: "up_ok demo_usys"
  unfolding up_ok_def table_ok_def
proof (intro conjI allI impI)
  fix i p assume "i < UMAX_PROCS" "USER_PROCS demo_usys ! i = Some p"
  then have ip: "i = 0 \<and> p = new_uproc 1 0 0x1000 0xFFFF900000010000 \<or>
      i = 1 \<and> p = child_of (new_uproc 1 0 0x1000 0xFFFF900000010000) 2 0x2000 0xFFFF900000020000"
    using less_16_cases [of i] by (auto simp: demo_slots)
  then show "proc_ok (next_pid (usched demo_usys)) p" by (auto simp: demo_slots proc_ok_def new_uproc_def child_of_def)
  assume "up_state p = URunning"
  then show "i = CURRENT_UPROC demo_usys" using ip by (auto simp: demo_slots child_of_def)
next
  fix i j p q
  assume "i < UMAX_PROCS" "j < UMAX_PROCS" "USER_PROCS demo_usys ! i = Some p" "USER_PROCS demo_usys ! j = Some q" "up_pid p = up_pid q"
  then show "i = j" using less_16_cases [of i] less_16_cases [of j] by (auto simp: demo_slots new_uproc_def child_of_def)
qed (simp_all add: demo_slots UMAX_PROCS_def)


theorem wait_then_exit_witness:
  "\<exists>s1 s3. wait4_impl 2 0x7000 0 0xFFFF90000000FF90 demo_usys = (s1, Iretq 0xFFFF90000001FF90) \<and>
    sys_exit_impl 7 s1 = (s3, (Iretq 0xFFFF90000000FF90 :: int flow)) \<and>
    f_rax (isr_frames s3 0xFFFF90000000FF90) = 2 \<and> rd32 (umems s3 0x1000) 0x7000 = 0x700"
proof -
  let ?p = "new_uproc 1 0 0x1000 0xFFFF900000010000" and ?fr = "0xFFFF90000000FF90 :: u64"
  let ?c = "child_of ?p 2 0x2000 0xFFFF900000020000"
  have cur: "cur_up demo_usys = Some ?p" "up_pid ?p \<noteq> 0" by (simp_all add: demo_slots new_uproc_def)
  have fc: "find_child (up_pid ?p) 2 (USER_PROCS demo_usys) = Some 1"
    unfolding find_child_def find_idx_Some_iff by (auto simp: demo_slots new_uproc_def child_of_def)
  obtain s1 fl where w: "wait4_impl 2 0x7000 0 ?fr demo_usys = (s1, fl)" by (metis surj_pair)
  have s1: "s1 = s1\<lparr>isr_frames := isr_frames demo_usys, umems := umems s1\<rparr>"
  proof -
    have "isr_frames s1 = isr_frames demo_usys"
      using w wait4_switches [OF demo_usys_ok cur(1) fc demo_slots(2), of 0 "0x7000" ?fr]
      by (auto simp: demo_slots child_of_def)
    then show ?thesis by simp
  qed
  obtain s3 fl3 where e: "sys_exit_impl 7 (s1\<lparr>isr_frames := isr_frames demo_usys, umems := umems s1\<rparr>) = (s3, fl3 :: int flow)"
    by (metis surj_pair)
  have rsi: "f_rsi (isr_frames demo_usys ?fr) = 0x7000" by (simp add: demo_usys_def)
  from wait_then_exit [OF demo_usys_ok cur fc demo_slots(2) _ _ _ w rsi e]
  have "fl = Iretq (up_frame ?c) \<and> fl3 = Iretq ?fr \<and> f_rax (isr_frames s3 ?fr) = 2 \<and> rd32 (umems s3 0x1000) 0x7000 = push_bit 8 (ucast (7 :: u64))"
    by (simp add: demo_slots child_of_def new_uproc_def USER_TOP_def)
  then show ?thesis using w e s1 by (intro exI [of _ s1] exI [of _ s3]) (simp add: child_of_def ISR_FRAME_SIZE_def)
qed

section \<open>Futexes\<close>

lemma wake_none [simp]: "futex_wake_impl u (- 1) s = (s, 0)"
proof -
  have "wake_loop u (- 1) t 0 = (t, 0)" for t by (cases t) simp_all
  then show ?thesis by (simp add: futex_wake_impl_def)
qed

text \<open>C31: A futex wake makes ready exactly the first processes in table order that are blocked on the address, at
  most as many as asked, and returns how many. The limit is read as a signed number, so that the
  \<open>u64::MAX\<close> with which an exiting thread wakes its joiners wakes nobody.\<close>

theorem futex_wake_exact:
  "snd (futex_wake_impl u n s) = int (min (nat (sint n)) (length (blocked_slots u (USER_PROCS s)))) \<and>
   USER_PROCS (fst (futex_wake_impl u n s)) =
     map (\<lambda>i. if i \<in> set (take (nat (sint n)) (blocked_slots u (USER_PROCS s)))
              then make_ready (USER_PROCS s ! i) else USER_PROCS s ! i) [0..<length (USER_PROCS s)] \<and>
   futex_wake_impl u (- 1) s = (s, 0)"
proof -
  obtain t' w where w: "wake_loop u (sint n) (USER_PROCS s) 0 = (t', w)" by (metis surj_pair)
  show ?thesis
    unfolding wake_none using wake_loop_spec [OF w] w
    by (auto simp: futex_wake_impl_def intro!: nth_equalityI)
qed

text \<open>An exiting thread therefore leaves a thread that waits for it (\<open>pthread_join\<close>) blocked.\<close>

lemma joiner_stays_blocked:
  assumes ok: "up_ok s" and p: "cur_up s = Some p" "up_tgid p \<noteq> 0"
    and j: "j < UMAX_PROCS" "j \<noteq> CURRENT_UPROC s" "USER_PROCS s ! j = Some q" "up_state q = UBlocked (child_tid_ptr p)"
  shows "USER_PROCS (fst (try_wake_parent code s)) ! j = Some q"
proof -
  let ?s = "if child_tid_ptr p \<noteq> 0 \<and> child_tid_ptr p < USER_TOP then on_umem (wr32 (child_tid_ptr p) 0) s else s"
  have t: "thread_exit p s = (case find_next_ready_from 0 (del_up (CURRENT_UPROC s) ?s) of
      Some next \<Rightarrow> switch_to next (del_up (CURRENT_UPROC s) ?s) | None \<Rightarrow> (del_up (CURRENT_UPROC s) ?s, Returns ()))"
    by (auto simp: thread_exit_def Let_def split: option.split)
  have dj: "USER_PROCS (del_up (CURRENT_UPROC s) ?s) ! j = Some q" "length (USER_PROCS (del_up (CURRENT_UPROC s) ?s)) = UMAX_PROCS"
    using j up_okD(1) [OF ok] by (simp_all add: del_up_def)
  show ?thesis
  proof (cases "find_next_ready_from 0 (del_up (CURRENT_UPROC s) ?s)")
    case None
    then show ?thesis using p dj t by (simp add: try_wake_parent_def)
  next
    case (Some k)
    then have "k \<noteq> j" using find_ready_not_running [OF Some] dj j(4) by auto
    then show ?thesis using p dj t Some
      by (simp add: try_wake_parent_def switch_to_def iretq_to_frame_def upd_up_def Let_def)
  qed
qed

section \<open>The heap\<close>

text \<open>An address in the last page of the address space makes \<open>brk\<close> panic.\<close>

lemma brk_last_page_panics:
  assumes "cur_up s = Some p" and "brk_base p \<le> addr" and "unat addr \<ge> 2 ^ 64 - 0xFFF"
  shows "sys_brk addr s = None"
  using assms by (auto simp: sys_brk_def add_chk_def)

end
