(* ===== verification/Signal.thy ===== *)
theory Signal
  imports User_Proc
begin

text \<open>
  Signals (\<open>signal.rs\<close>) and the way every system call returns (\<open>syscall_dispatch\<close> and the assembly of
  \<open>isr128\<close> in \<open>interrupts/handlers.rs\<close>).

  \<open>raise_signal\<close> sets a pending bit; on the way back to ring 3 \<open>deliver_pending_signals\<close> takes the lowest
  unblocked one: it ends the process, ignores the signal, or writes a signal frame below the user stack
  pointer and redirects the system call frame to the handler. The handler returns into the trampoline at the
  start of that frame, which calls \<open>rt_sigreturn\<close>. \<open>None\<close> is a panic.
\<close>

section \<open>Constants\<close>

definition SIGKILL :: nat where "SIGKILL = 9"
definition SIGCONT :: nat where "SIGCONT = 18"
definition SIGSTOP :: nat where "SIGSTOP = 19"
definition SIGWINCH :: nat where "SIGWINCH = 28"
definition SIG_DFL :: u64 where "SIG_DFL = 0"
definition SIG_IGN :: u64 where "SIG_IGN = 1"
definition SA_NODEFER :: u64 where "SA_NODEFER = 0x40000000"
definition SA_RESETHAND :: u64 where "SA_RESETHAND = 0x80000000"
definition SIGFRAME_SIZE :: u64 where "SIGFRAME_SIZE = 120"

definition trampoline :: bytes where
  "trampoline = [0x48, 0xC7, 0xC0, 0x0F, 0x00, 0x00, 0x00, 0xCD, 0x80, 0x90, 0x90, 0x90, 0x90, 0x90, 0x90, 0x90]"

section \<open>Raising and delivering\<close>

definition raise_signal :: "nat \<Rightarrow> 'o usys \<Rightarrow> 'o usys" where
  "raise_signal signum s =
     (if signum = 0 \<or> signum > NSIG then s
      else case cur_up s of
          Some _ \<Rightarrow> upd_up (CURRENT_UPROC s) (\<lambda>p. p\<lparr>pending_sigs := pending_sigs p OR push_bit (signum - 1) 1\<rparr>) s
        | None \<Rightarrow> s\<lparr>GLOBAL_PENDING := GLOBAL_PENDING s OR push_bit (signum - 1) 1\<rparr>)"

definition sigframe_addr :: "isr_frame \<Rightarrow> u64" where
  "sigframe_addr f = sat_sub (f_rsp f) (128 + SIGFRAME_SIZE) AND NOT 0xF"

definition save_context :: "u64 \<Rightarrow> isr_frame \<Rightarrow> u64 \<Rightarrow> umem \<Rightarrow> umem" where
  "save_context sf f new_mask m =
     (let m = poke sf trampoline m;
          m = wr64 (sf + 16) (f_rip f) m;
          m = wr64 (sf + 24) (f_rflags f) m;
          m = wr64 (sf + 32) (f_rsp f) m;
          m = wr64 (sf + 40) (f_rax f) m;
          m = wr64 (sf + 48) (f_rcx f) m;
          m = wr64 (sf + 56) (f_rdx f) m;
          m = wr64 (sf + 64) (f_rsi f) m;
          m = wr64 (sf + 72) (f_rdi f) m;
          m = wr64 (sf + 80) (f_r8 f) m;
          m = wr64 (sf + 88) (f_r9 f) m;
          m = wr64 (sf + 96) (f_r10 f) m;
          m = wr64 (sf + 104) (f_r11 f) m;
          m = wr64 (sf + 112) new_mask m
      in m)"

definition install_sigframe :: "u64 \<Rightarrow> u64 \<Rightarrow> u64 \<Rightarrow> u64 \<Rightarrow> 'o usys \<Rightarrow> 'o usys option" where
  "install_sigframe frame_rsp signum handler new_mask s = do {
     let f = isr_frames s frame_rsp;
     let sf = sigframe_addr f;
     let s = on_umem (save_context sf f new_mask) s;
     new_rsp \<leftarrow> sub_chk sf 8;
     let s = on_umem (wr64 new_rsp sf) s;
     Some (set_frame frame_rsp
       (f\<lparr>f_rdi := signum, f_rsi := 0, f_rdx := 0, f_rip := handler, f_rsp := new_rsp\<rparr>) s)
   }"

text \<open>The mask while the handler runs.\<close>

definition handler_mask :: "sig_action \<Rightarrow> nat \<Rightarrow> u64 \<Rightarrow> u64" where
  "handler_mask act sig_idx m =
     (let m = (if sa_flags act AND SA_NODEFER = 0 then m OR push_bit sig_idx 1 else m) in m OR sa_mask act)"

definition enter_handler :: "u64 \<Rightarrow> nat \<Rightarrow> sig_action \<Rightarrow> 'o usys \<Rightarrow> 'o usys option" where
  "enter_handler frame_rsp sig_idx act s =
     (let m = (case cur_up s of Some p \<Rightarrow> sig_mask p | None \<Rightarrow> 0);
          m = handler_mask act sig_idx m;
          s = upd_up (CURRENT_UPROC s) (\<lambda>p. p\<lparr>sig_mask := m\<rparr>) s;
          s = (if sa_flags act AND SA_RESETHAND \<noteq> 0
               then upd_up (CURRENT_UPROC s) (\<lambda>p. p\<lparr>sig_handlers := (sig_handlers p)[sig_idx := sig_action_default]\<rparr>) s
               else s)
      in install_sigframe frame_rsp (of_nat (sig_idx + 1)) (sa_handler act) m s)"

definition deliver_pending_signals :: "u64 \<Rightarrow> 'o usys \<Rightarrow> ('o usys \<times> unit flow) option" where
  "deliver_pending_signals frame_rsp s = (case cur_up s of
     None \<Rightarrow> Some (s, Returns ())
   | Some p \<Rightarrow>
       let deliverable = pending_sigs p AND NOT (sig_mask p) in
       if deliverable = 0 then Some (s, Returns ())
       else
         let sig_idx = trailing_zeros deliverable;
             signum = sig_idx + 1;
             s = upd_up (CURRENT_UPROC s) (\<lambda>p. p\<lparr>pending_sigs := pending_sigs p AND NOT (push_bit sig_idx 1)\<rparr>) s
         in if sig_idx \<ge> length (sig_handlers p) then None
            else
              let act = sig_handlers p ! sig_idx in
              if sa_handler act = SIG_DFL then
                (if signum \<in> {SIGCHLD, SIGCONT, SIGWINCH} then Some (s, Returns ())
                 else Some (sys_exit_impl (128 + of_nat signum) s))
              else if sa_handler act = SIG_IGN then Some (s, Returns ())
              else map_option (\<lambda>s. (s, Returns ())) (enter_handler frame_rsp sig_idx act s))"

section \<open>The signal system calls\<close>

definition sys_rt_sigreturn :: "u64 \<Rightarrow> 'o usys \<Rightarrow> 'o usys \<times> int" where
  "sys_rt_sigreturn frame_rsp s =
     (let g = isr_frames s frame_rsp;
          sf = f_rsp g;
          m = cur_umem s;
          s = upd_up (CURRENT_UPROC s) (\<lambda>p. p\<lparr>sig_mask := rd64 m (sf + 112)\<rparr>) s
      in (set_frame frame_rsp
            (g\<lparr>f_r11 := rd64 m (sf + 104), f_r10 := rd64 m (sf + 96), f_r9 := rd64 m (sf + 88), f_r8 := rd64 m (sf + 80),
               f_rdi := rd64 m (sf + 72), f_rsi := rd64 m (sf + 64), f_rdx := rd64 m (sf + 56), f_rcx := rd64 m (sf + 48),
               f_rax := rd64 m (sf + 40), f_rip := rd64 m (sf + 16), f_rflags := rd64 m (sf + 24), f_rsp := rd64 m (sf + 32)\<rparr>) s,
          0))"

definition write_action :: "u64 \<Rightarrow> sig_action \<Rightarrow> umem \<Rightarrow> umem" where
  "write_action a act m =
     wr64 (a + 24) (sa_mask act) (wr64 (a + 16) 0 (wr64 (a + 8) (sa_flags act) (wr64 a (sa_handler act) m)))"

definition read_action :: "umem \<Rightarrow> u64 \<Rightarrow> sig_action" where
  "read_action m a = \<lparr>sa_handler = rd64 m a, sa_flags = rd64 m (a + 8), sa_mask = rd64 m (a + 24)\<rparr>"

definition sys_rt_sigaction :: "u64 \<Rightarrow> u64 \<Rightarrow> u64 \<Rightarrow> 'o usys \<Rightarrow> 'o usys \<times> int" where
  "sys_rt_sigaction signum new_vaddr old_vaddr s =
     (if signum = 0 \<or> unat signum > NSIG then (s, EINVAL)
      else
        let sig_idx = unat signum - 1;
            old = (case cur_up s of Some p \<Rightarrow> sig_handlers p ! sig_idx | None \<Rightarrow> sig_action_default);
            s = (if old_vaddr \<noteq> 0 then on_umem (write_action old_vaddr old) s else s)
        in if new_vaddr = 0 then (s, 0)
           else if unat signum = SIGKILL \<or> unat signum = SIGSTOP then (s, EINVAL)
           else
             let act = read_action (cur_umem s) new_vaddr
             in (upd_up (CURRENT_UPROC s) (\<lambda>p. p\<lparr>sig_handlers := (sig_handlers p)[sig_idx := act]\<rparr>) s, 0))"

definition cant_block :: u64 where
  "cant_block = push_bit (SIGKILL - 1) 1 OR push_bit (SIGSTOP - 1) 1"

definition sys_rt_sigprocmask :: "u64 \<Rightarrow> u64 \<Rightarrow> u64 \<Rightarrow> 'o usys \<Rightarrow> 'o usys \<times> int" where
  "sys_rt_sigprocmask how set_vaddr old_vaddr s =
     (let old_mask = (case cur_up s of Some p \<Rightarrow> sig_mask p | None \<Rightarrow> 0);
          s = (if old_vaddr \<noteq> 0 then on_umem (wr64 old_vaddr old_mask) s else s)
      in if set_vaddr = 0 then (s, 0)
         else
           let new_set = rd64 (cur_umem s) set_vaddr in
           if how > 2 then (s, EINVAL)
           else
             let new_mask = (if how = 0 then old_mask OR (new_set AND NOT cant_block)
                             else if how = 1 then old_mask AND NOT new_set
                             else new_set AND NOT cant_block)
             in (upd_up (CURRENT_UPROC s) (\<lambda>p. p\<lparr>sig_mask := new_mask\<rparr>) s, 0))"

section \<open>Returning from a system call\<close>

text \<open>What \<open>syscall_dispatch\<close> does with the result \<open>ret\<close> of \<open>dispatch\<close>, and the \<open>mov [rsp + 0x40], rax\<close> of the
  assembly before it pops the frame.\<close>

definition syscall_finish :: "u64 \<Rightarrow> int \<Rightarrow> 'o usys \<Rightarrow> ('o usys \<times> int flow) option" where
  "syscall_finish frame_rsp ret s = do {
     let s = set_rax frame_rsp (of_int ret) s;
     (s, fl) \<leftarrow> deliver_pending_signals frame_rsp s;
     Some (case fl of
         Returns _ \<Rightarrow> (set_rax frame_rsp (of_int ret) s, Iretq frame_rsp)
       | Iretq f \<Rightarrow> (s, Iretq f)
       | Longjmp \<Rightarrow> (s, Longjmp))
   }"

section \<open>The signal frame brings everything back\<close>

lemma apartI: "unat (x - y) \<ge> k \<Longrightarrow> unat (x - y) + n \<le> 2 ^ 64 \<Longrightarrow> apart (a + x) n (a + y) k"
  using apart_offsets [of k "unat x" "unat y" n a] by simp

lemma apart0I: "unat x \<ge> k \<Longrightarrow> unat x + n \<le> 2 ^ 64 \<Longrightarrow> apart (a + x) n a k"
  using apartI [of k x 0 n a] by simp

lemma save_context_reads:
  fixes sf mk :: u64 and m :: umem and f :: isr_frame
  defines "M \<equiv> save_context sf f mk m"
  shows "rd64 M (sf + 16) = f_rip f" "rd64 M (sf + 24) = f_rflags f" "rd64 M (sf + 32) = f_rsp f"
    "rd64 M (sf + 40) = f_rax f" "rd64 M (sf + 48) = f_rcx f" "rd64 M (sf + 56) = f_rdx f"
    "rd64 M (sf + 64) = f_rsi f" "rd64 M (sf + 72) = f_rdi f" "rd64 M (sf + 80) = f_r8 f"
    "rd64 M (sf + 88) = f_r9 f" "rd64 M (sf + 96) = f_r10 f" "rd64 M (sf + 104) = f_r11 f" "rd64 M (sf + 112) = mk"
  unfolding M_def save_context_def Let_def by (simp_all add: rd64_wr64_apart apartI)

lemma rd64_cong: "(\<And>i. i < 8 \<Longrightarrow> m (a + of_nat i) = m' (a + of_nat i)) \<Longrightarrow> rd64 m a = rd64 m' a"
  by (auto simp: rd64_def peek_def intro!: arg_cong [where f = from_le_bytes])

lemma install_reads:
  fixes sf :: u64
  assumes "x \<in> {16, 24, 32, 40, 48, 56, 64, 72, 80, 88, 96, 104, 112 :: u64}"
  shows "rd64 (wr64 (sf - 8) v M) (sf + x) = rd64 M (sf + x)"
proof -
  have "apart (sf + x) 8 (sf + (- 8)) 8" by (rule apartI) (use assms in auto)
  then show ?thesis by (simp add: rd64_wr64_apart)
qed


definition demo_sig :: "unit usys" where
  "demo_sig = upd_up 0 (\<lambda>p. p\<lparr>sig_mask := 0x4000\<rparr>) demo_usys"


section \<open>What a handler's return does to the interrupted call\<close>

text \<open>The result that the interrupted system call had is lost: although \<open>rt_sigreturn\<close> puts the saved RAX back
  into the frame, the common exit path of system calls then stores the 0 that \<open>rt_sigreturn\<close> itself
  returned over it, while the program resumes at the saved address.\<close>

theorem sigreturn_loses_result:
  assumes "cur_up s = Some p" and "CURRENT_UPROC s < length (USER_PROCS s)" and "pending_sigs p = 0"
  shows "\<exists>s'. syscall_finish fr (snd (sys_rt_sigreturn fr s)) (fst (sys_rt_sigreturn fr s)) = Some (s', Iretq fr) \<and>
    f_rax (isr_frames s' fr) = 0 \<and> f_rip (isr_frames s' fr) = rd64 (cur_umem s) (f_rsp (isr_frames s fr) + 16)"
  using assms
  by (simp add: syscall_finish_def sys_rt_sigreturn_def Let_def deliver_pending_signals_def set_frame_def upd_up_def)

theorem sigreturn_loses_result_witness:
  "\<exists>s'. syscall_finish 0 (snd (sys_rt_sigreturn 0 demo_usys)) (fst (sys_rt_sigreturn 0 demo_usys)) = Some (s', Iretq 0) \<and>
    f_rax (isr_frames s' 0) = 0"
  using sigreturn_loses_result [of demo_usys "new_uproc 1 0 0x1000 0xFFFF900000010000" 0]
  by (auto simp: demo_slots new_uproc_def)

section \<open>Which signal is delivered\<close>

lemma trailing_zeros_lowest:
  assumes "v \<noteq> 0" and "v < 2 ^ 32"
  shows "bit v (trailing_zeros v)" and "trailing_zeros v < 32" and "j < trailing_zeros v \<Longrightarrow> \<not> bit v j"
proof -
  show b: "bit v (trailing_zeros v)" and "j < trailing_zeros v \<Longrightarrow> \<not> bit v j"
    using trailing_zeros_spec [OF assms(1)] by simp_all
  have "take_bit 32 (unat v) = unat v" using assms(2) by (simp add: take_bit_nat_eq_self_iff word_less_nat_alt)
  moreover have "bit (unat v) (trailing_zeros v)" using b by (simp add: bit_unsigned_iff bit_imp_le_length)
  ultimately show "trailing_zeros v < 32" by (metis bit_take_bit_iff)
qed

lemma sigframe_addr_bounds:
  assumes "264 \<le> unat (f_rsp f)"
  shows "16 \<le> unat (sigframe_addr f)" "unat (sigframe_addr f) + 248 \<le> unat (f_rsp f)" "16 dvd unat (sigframe_addr f)"
proof -
  have u: "unat (sigframe_addr f) = (unat (f_rsp f) - 248) div 16 * 16"
  proof -
    have "sigframe_addr f = push_bit 4 (drop_bit 4 (sat_sub (f_rsp f) 248))"
    proof -
      have "(0xF :: u64) = mask 4" by (simp add: mask_eq_exp_minus_1)
      then have "sigframe_addr f = sat_sub (f_rsp f) 248 AND NOT (mask 4)" by (simp add: sigframe_addr_def SIGFRAME_SIZE_def)
      then show ?thesis by (auto intro!: bit_word_eqI simp: bit_simps)
    qed
    then have "unat (sigframe_addr f) = take_bit 64 (push_bit 4 (drop_bit 4 (unat (sat_sub (f_rsp f) 248))))"
      using take_bit_nat_eq_self [OF unsigned_less [of "sat_sub (f_rsp f) 248"]]
      by (simp add: unsigned_push_bit_eq unsigned_drop_bit_eq)
    also have "\<dots> = (unat (f_rsp f) - 248) div 16 * 16"
    proof -
      have "unat (f_rsp f) < 2 ^ LENGTH(64)" by (rule unsigned_less)
      then have "(unat (f_rsp f) - 248) div 16 * 16 < 2 ^ 64" by (simp add: le_less_trans [OF div_times_less_eq_dividend])
      then show ?thesis by (simp add: push_bit_eq_mult drop_bit_eq_div take_bit_nat_eq_self unat_sat_sub)
    qed
    finally show ?thesis .
  qed
  show "16 \<le> unat (sigframe_addr f)" "unat (sigframe_addr f) + 248 \<le> unat (f_rsp f)" "16 dvd unat (sigframe_addr f)"
    unfolding u using assms by (auto simp: less_eq_div_iff_mult_less_eq)
qed

text \<open>Of the pending signals that are not blocked the one with the lowest number is delivered. If it has a
  handler, the program continues in the handler with the signal number as its argument, on a stack that is
  aligned as the ABI asks and lies below the red zone, with the signal no longer pending and the handler's
  mask in force.\<close>

theorem deliver_lowest_signal:
  assumes ok: "up_ok s" and p: "cur_up s = Some p" and d: "pending_sigs p AND NOT (sig_mask p) \<noteq> 0"
    and k: "k = trailing_zeros (pending_sigs p AND NOT (sig_mask p))"
    and h: "sa_handler (sig_handlers p ! k) \<noteq> SIG_DFL" "sa_handler (sig_handlers p ! k) \<noteq> SIG_IGN"
    and rsp: "264 \<le> unat (f_rsp (isr_frames s fr))"
  shows "\<exists>s' q. deliver_pending_signals fr s = Some (s', Returns ()) \<and>
    bit (pending_sigs p) k \<and> \<not> bit (sig_mask p) k \<and> (\<forall>j < k. bit (pending_sigs p) j \<longrightarrow> bit (sig_mask p) j) \<and>
    f_rip (isr_frames s' fr) = sa_handler (sig_handlers p ! k) \<and> f_rdi (isr_frames s' fr) = of_nat (k + 1) \<and>
    16 dvd unat (f_rsp (isr_frames s' fr)) + 8 \<and> unat (f_rsp (isr_frames s' fr)) + 256 \<le> unat (f_rsp (isr_frames s fr)) \<and>
    cur_up s' = Some q \<and> pending_sigs q = pending_sigs p AND NOT (push_bit k 1) \<and>
    sig_mask q = handler_mask (sig_handlers p ! k) k (sig_mask p)"
proof -
  let ?d = "pending_sigs p AND NOT (sig_mask p)" and ?act = "sig_handlers p ! k" and ?cur = "CURRENT_UPROC s"
  have cur: "?cur < length (USER_PROCS s)" using up_okD(1,2) [OF ok] by simp
  have pok: "length (sig_handlers p) = 32" "pending_sigs p < 2 ^ 32"
    using up_okD(3) [OF ok up_okD(2) [OF ok] p] by (simp_all add: proc_ok_def NSIG_def)
  have "?d \<le> pending_sigs p" by (rule word_and_le2)
  then have d32: "?d < 2 ^ 32" using pok(2) by (rule le_less_trans)
  note tz = trailing_zeros_lowest [OF d d32, folded k]
  define m where "m = handler_mask ?act k (sig_mask p)"
  obtain t where t: "enter_handler fr k ?act (upd_up ?cur (\<lambda>p. p\<lparr>pending_sigs := pending_sigs p AND NOT (push_bit k 1)\<rparr>) s) =
      install_sigframe fr (of_nat (k + 1)) (sa_handler ?act) m t"
    and tf: "isr_frames t = isr_frames s" "CURRENT_UPROC t = ?cur"
      "\<exists>q. cur_up t = Some q \<and> pending_sigs q = pending_sigs p AND NOT (push_bit k 1) \<and> sig_mask q = m"
    using p cur unfolding enter_handler_def by (auto simp: Let_def m_def upd_up_def)
  let ?sf = "sigframe_addr (isr_frames s fr)"
  note sfb = sigframe_addr_bounds [OF rsp]
  have sub: "sub_chk ?sf 8 = Some (?sf - 8)" "unat (?sf - 8) = unat ?sf - 8"
    using sfb(1) by (auto simp: sub_chk_def word_le_nat_alt unat_sub)
  obtain s' where i: "install_sigframe fr (of_nat (k + 1)) (sa_handler ?act) m t = Some s'"
    and s': "isr_frames s' fr = (isr_frames s fr)\<lparr>f_rdi := of_nat (k + 1), f_rsi := 0, f_rdx := 0, f_rip := sa_handler ?act, f_rsp := ?sf - 8\<rparr>"
      "cur_up s' = cur_up t"
    using sub tf by (simp add: install_sigframe_def Let_def set_frame_def on_umem_def)
  have dl: "deliver_pending_signals fr s = Some (s', Returns ())"
    using p d h tz(2) pok(1) t i k by (simp add: deliver_pending_signals_def Let_def)
  have "16 dvd unat (?sf - 8) + 8" "unat (?sf - 8) + 256 \<le> unat (f_rsp (isr_frames s fr))"
    using sfb sub(2) by simp_all
  moreover have "bit (pending_sigs p) k" "\<not> bit (sig_mask p) k" using tz(1) by (simp_all add: bit_simps)
  moreover have "\<forall>j < k. bit (pending_sigs p) j \<longrightarrow> bit (sig_mask p) j"
    using tz(2,3) by (auto simp: bit_simps)
  ultimately show ?thesis using dl s' tf(3) unfolding m_def by auto
qed

theorem deliver_lowest_signal_witness:
  "\<exists>s'. deliver_pending_signals 0 (upd_up 0 (\<lambda>p. p\<lparr>pending_sigs := 0x4402, sig_mask := 2,
      sig_handlers := (sig_handlers p)[10 := \<lparr>sa_handler = 0x40000, sa_flags = 0, sa_mask = 0\<rparr>]\<rparr>) demo_usys) = Some (s', Returns ()) \<and>
    f_rip (isr_frames s' 0) = 0x40000 \<and> f_rdi (isr_frames s' 0) = 11"
proof -
  let ?f = "\<lambda>p. p\<lparr>pending_sigs := 0x4402, sig_mask := 2,
      sig_handlers := (sig_handlers p)[10 := \<lparr>sa_handler = 0x40000, sa_flags = 0, sa_mask = 0\<rparr>]\<rparr>"
  let ?s = "upd_up 0 ?f demo_usys" and ?p = "?f (new_uproc 1 0 0x1000 0xFFFF900000010000)"
  have ok: "up_ok ?s" by (rule upd_up_ok [OF demo_usys_ok]) (auto simp: proc_ok_def demo_slots)
  have p: "cur_up ?s = Some ?p" by (simp add: upd_up_def demo_slots)
  have tz: "10 = trailing_zeros (0x4402 AND NOT 2)" by code_simp
  have h: "sig_handlers ?p ! 10 = \<lparr>sa_handler = 0x40000, sa_flags = 0, sa_mask = 0\<rparr>" by (simp add: new_uproc_def NSIG_def)
  have rsp: "264 \<le> unat (f_rsp (isr_frames ?s 0))" by (simp add: demo_usys_def)
  show ?thesis
    using deliver_lowest_signal [OF ok p _ _ _ _ rsp, of 10] tz h by (auto simp: SIG_DFL_def SIG_IGN_def)
qed

section \<open>SIGKILL and SIGSTOP\<close>

lemma bit_single: "bit (push_bit k 1 :: u64) n \<longleftrightarrow> n = k \<and> n < 64"
  by (auto simp: bit_simps)

lemma cant_block_bits: "bit cant_block n \<longleftrightarrow> n = 8 \<or> n = 18"
  unfolding cant_block_def SIGKILL_def SIGSTOP_def bit_or_iff bit_single by auto

lemma blockable_iff: "m AND cant_block = 0 \<longleftrightarrow> \<not> bit m 8 \<and> \<not> bit m 18"
proof -
  have "m AND cant_block \<noteq> 0 \<longleftrightarrow> bit m 8 \<or> bit m 18"
    unfolding word_neq_0_bit bit_and_iff cant_block_bits
    by (auto intro: exI [of _ 8] exI [of _ 18])
  then show ?thesis by blast
qed

text \<open>SIGKILL and SIGSTOP can be neither caught nor blocked through the two calls meant for that: no
  \<open>rt_sigaction\<close> changes their handlers, and no \<open>rt_sigprocmask\<close> puts them into a mask they were not in. A
  handler's own mask is not filtered, so one that names SIGKILL blocks it while the handler runs.\<close>

theorem kill_stop_protected:
  assumes "cur_up s = Some p" and "CURRENT_UPROC s < length (USER_PROCS s)" and "sig_mask p AND cant_block = 0"
  shows "(\<exists>q. cur_up (fst (sys_rt_sigprocmask how st old s)) = Some q \<and> sig_mask q AND cant_block = 0 \<and> sig_handlers q = sig_handlers p)
    \<and> (\<exists>q. cur_up (fst (sys_rt_sigaction sg new old s)) = Some q \<and> sig_mask q = sig_mask p \<and>
      sig_handlers q ! 8 = sig_handlers p ! 8 \<and> sig_handlers q ! 18 = sig_handlers p ! 18)
    \<and> bit (handler_mask \<lparr>sa_handler = h, sa_flags = fl, sa_mask = push_bit 8 1\<rparr> k (sig_mask p)) 8"
proof (intro conjI)
  show "\<exists>q. cur_up (fst (sys_rt_sigprocmask how st old s)) = Some q \<and> sig_mask q AND cant_block = 0 \<and> sig_handlers q = sig_handlers p"
    using assms by (auto simp: sys_rt_sigprocmask_def Let_def upd_up_def blockable_iff bit_simps cant_block_bits)
  have "unat sg - Suc 0 \<noteq> 8 \<and> unat sg - Suc 0 \<noteq> 18" if "unat sg \<noteq> 9" "unat sg \<noteq> 19" using that by auto
  then show "\<exists>q. cur_up (fst (sys_rt_sigaction sg new old s)) = Some q \<and> sig_mask q = sig_mask p \<and>
      sig_handlers q ! 8 = sig_handlers p ! 8 \<and> sig_handlers q ! 18 = sig_handlers p ! 18"
    using assms by (auto simp: sys_rt_sigaction_def Let_def upd_up_def SIGKILL_def SIGSTOP_def)
  show "bit (handler_mask \<lparr>sa_handler = h, sa_flags = fl, sa_mask = push_bit 8 1\<rparr> k (sig_mask p)) 8"
    by (simp add: handler_mask_def Let_def bit_simps)
qed

theorem kill_stop_protected_witness:
  "\<exists>q. cur_up (fst (sys_rt_sigprocmask 2 0x7000 0 demo_usys)) = Some q \<and> sig_mask q AND cant_block = 0"
  using kill_stop_protected [of demo_usys "new_uproc 1 0 0x1000 0xFFFF900000010000" 2 "0x7000" 0 10 0 0 0 0]
  by (auto simp: demo_slots new_uproc_def)

section \<open>The process table stays sound\<close>

lemma install_ok: "up_ok s \<Longrightarrow> install_sigframe fr n h m s = Some s' \<Longrightarrow> up_ok s'"
  by (auto simp: install_sigframe_def Let_def bind_eq_Some_conv)

lemma enter_handler_ok:
  assumes s: "up_ok s" and e: "enter_handler fr i act s = Some s'"
  shows "up_ok s'"
proof -
  define t where "t = upd_up (CURRENT_UPROC s) (\<lambda>p. p\<lparr>sig_mask := handler_mask act i (case cur_up s of Some p \<Rightarrow> sig_mask p | None \<Rightarrow> 0)\<rparr>) s"
  have t: "up_ok t" unfolding t_def by (rule upd_cur_ok [OF s]) simp_all
  have "up_ok (upd_up (CURRENT_UPROC t) (\<lambda>p. p\<lparr>sig_handlers := (sig_handlers p)[i := sig_action_default]\<rparr>) t)"
    by (rule upd_up_ok [OF t up_okD(2) [OF t]]) (use t in \<open>auto simp: proc_ok_def\<close>)
  then show ?thesis
    using e t unfolding enter_handler_def Let_def t_def [symmetric] by (auto split: if_splits intro: install_ok)
qed

lemma bits_less: "x AND y < 2 ^ 32" if "x < (2 ^ 32 :: u64)"
  using word_and_le2 [of x y] that by (rule le_less_trans)

lemma clear_pending_ok: "up_ok s \<Longrightarrow> up_ok (upd_up (CURRENT_UPROC s) (\<lambda>p. p\<lparr>pending_sigs := pending_sigs p AND m\<rparr>) s)"
  by (rule upd_up_ok) (use up_okD(2) bits_less in \<open>auto simp: proc_ok_def\<close>)

lemma deliver_ok [kernel_inv]:
  assumes s: "up_ok s" and d: "deliver_pending_signals fr s = Some (s', fl)"
  shows "up_ok s'"
proof (cases "cur_up s")
  case None
  then show ?thesis using s d by (simp add: deliver_pending_signals_def)
next
  case (Some p)
  define k where "k = trailing_zeros (pending_sigs p AND NOT (sig_mask p))"
  let ?t = "upd_up (CURRENT_UPROC s) (\<lambda>p. p\<lparr>pending_sigs := pending_sigs p AND NOT (push_bit k 1)\<rparr>) s"
  have t: "up_ok ?t" by (rule clear_pending_ok [OF s])
  have x: "up_ok s''" if "sys_exit_impl c ?t = (s'', (fu :: unit flow))" for c s'' fu
  proof -
    have "up_ok (fst (s'', fu))" unfolding that [symmetric] by (rule sys_exit_ok [OF t])
    then show ?thesis by simp
  qed
  have h: "up_ok s''" if "enter_handler fr k a ?t = Some s''" for a s'' by (rule enter_handler_ok [OF t that])
  show ?thesis
    using d s t unfolding deliver_pending_signals_def Some option.case Let_def k_def [symmetric]
    by (auto simp del: push_bit_of_1 split: if_splits dest: x h)
qed

lemma single_less:
  assumes "k < 32"
  shows "push_bit k 1 < (2 ^ 32 :: u64)"
proof -
  have "\<forall>k \<in> set [0..<32]. push_bit k 1 < (2 ^ 32 :: u64)" by code_simp
  then show ?thesis using assms by simp
qed

lemma signal_calls_ok [kernel_inv]:
  assumes s: "up_ok s"
  shows "up_ok (raise_signal n s)" "up_ok (fst (sys_rt_sigreturn fr s))" "up_ok (fst (sys_rt_sigaction sg new old s))"
    "up_ok (fst (sys_rt_sigprocmask how st old s))"
proof -
  have "up_ok (upd_up (CURRENT_UPROC s) (\<lambda>p. p\<lparr>pending_sigs := pending_sigs p OR push_bit (n - 1) 1\<rparr>) s)" if "0 < n" "n \<le> NSIG"
  proof (rule upd_up_ok [OF s up_okD(2) [OF s]])
    have "push_bit (n - 1) 1 < (2 ^ 32 :: u64)" by (rule single_less) (use that in \<open>simp add: NSIG_def\<close>)
    then show "proc_ok (next_pid (usched s)) (p\<lparr>pending_sigs := pending_sigs p OR push_bit (n - 1) 1\<rparr>) \<and>
        up_pid (p\<lparr>pending_sigs := pending_sigs p OR push_bit (n - 1) 1\<rparr>) = up_pid p"
      if "proc_ok (next_pid (usched s)) p" for p using that or_less_exp by (simp add: proc_ok_def)
  qed (auto)
  then show "up_ok (raise_signal n s)" using s by (auto simp: raise_signal_def split: option.splits)
  show "up_ok (fst (sys_rt_sigreturn fr s))" using s by (simp add: sys_rt_sigreturn_def Let_def upd_cur_ok)
  have h: "up_ok (upd_up (CURRENT_UPROC t) (\<lambda>p. p\<lparr>sig_handlers := (sig_handlers p)[i := a]\<rparr>) t)" if t: "up_ok t" for t i a
    by (rule upd_up_ok [OF t up_okD(2) [OF t]]) (use t in \<open>auto simp: proc_ok_def\<close>)
  show "up_ok (fst (sys_rt_sigaction sg new old s))"
    using s h [of s] h [of "on_umem g s" for g] by (simp add: sys_rt_sigaction_def Let_def)
  show "up_ok (fst (sys_rt_sigprocmask how st old s))" using s by (simp add: sys_rt_sigprocmask_def Let_def upd_cur_ok')
qed

text \<open>One step of the system: a system call of the current process, a signal, the start of a program, or user
  code, which can change memory and the registers that end up in a frame.\<close>

inductive ustep :: "'o usys \<Rightarrow> 'o usys \<Rightarrow> bool" where
  user: "ustep s (s\<lparr>isr_frames := F, umems := M\<rparr>)"
| register: "pid < next_pid (usched s) \<Longrightarrow> (\<And>p. cur_up s = Some p \<Longrightarrow> up_state p = URunning \<Longrightarrow> up_pid p = pid) \<Longrightarrow>
    ustep s (up_register pid par cr3 ks s)"
| fork: "fork_current fr cr3 ks s = Some (s', r) \<Longrightarrow> ustep s s'"
| clone: "clone_thread fl st pt ct tls fr cr3 ks s = Some (s', r) \<Longrightarrow> ustep s s'"
| wait: "wait4_impl a st opt fr s = (s', fw) \<Longrightarrow> ustep s s'"
| exit: "sys_exit_impl code s = (s', (fe :: int flow)) \<Longrightarrow> ustep s s'"
| yield: "sched_yield_impl fr s = Some (s', fw) \<Longrightarrow> ustep s s'"
| futex: "futex_dispatch u opc v fr s = Some (s', fw) \<Longrightarrow> ustep s s'"
| brk: "sys_brk a s = Some (s', i) \<Longrightarrow> ustep s s'"
| mmap: "alloc_mmap_vaddr n s = Some (s', w) \<Longrightarrow> ustep s s'"
| tid: "ustep s (fst (sys_set_tid_address t s))"
| prctl: "ustep s (fst (sys_arch_prctl c v s))"
| cwd: "ustep s (set_cwd path s)"
| raise: "ustep s (raise_signal n s)"
| deliver: "deliver_pending_signals fr s = Some (s', fu) \<Longrightarrow> ustep s s'"
| sigreturn: "ustep s (fst (sys_rt_sigreturn fr s))"
| sigaction: "ustep s (fst (sys_rt_sigaction sg new old s))"
| sigprocmask: "ustep s (fst (sys_rt_sigprocmask how st old s))"

lemma ustep_ok: "ustep s s' \<Longrightarrow> up_ok s \<Longrightarrow> up_ok s'"
proof (induction rule: ustep.induct)
  case (wait a st opt fr s s' fw)
  then show ?case using wait4_ok [of s a st opt fr] by simp
next
  case (exit code s s' fe)
  then show ?case using sys_exit_ok [of s code] by (metis fst_conv)
next
  case (register pid s par cr3 ks)
  then show ?case by (intro up_register_ok)
qed (auto intro: fork_ok clone_ok yield_ok futex_dispatch_ok deliver_ok settings_ok signal_calls_ok)



end
