(* ===== verification/Vfs.thy ===== *)
theory Vfs
  imports Btree_Map "HOL-Library.Char_ord" "HOL-Library.List_Lexorder" "HOL-Library.Sublist"
begin

text \<open>
  The virtual file system: tmpfs (\<open>vfs/tmpfs.rs\<close>), path operations and the copy-up overlay (\<open>vfs/mod.rs\<close>), the
  contents of \<open>/proc\<close> that do not depend on the running system and the names of \<open>/dev\<close> (\<open>vfs/procfs.rs\<close>,
  \<open>syscall/dev.rs\<close>).

  \<^item> A \<open>NodeRef\<close> (\<open>Arc<Mutex<VfsNode>>\<close>) is an index into the list of all nodes ever created, so that two
    names of one node (hard links, open descriptors) share it. Dropping the last reference is not
    modelled: an unreachable node stays in the list.
  \<^item> A directory is the ordered map of theory \<open>Btree_Map\<close> from names to references. Paths are byte strings.
  \<^item> The ext4 image is read by a third-party crate; \<open>EXT4\<close> holds its two answers, the content of a file and
    the entries of a directory, and whether a path exists, as functions.
  \<^item> \<open>None\<close> of the outer option, where there is one, is the panic of \<open>nlink += 1\<close>.
\<close>

section \<open>Nodes\<close>

type_synonym node_ref = nat

record vfs_meta =
  v_ino :: u64
  v_mode :: u32
  v_uid :: u32
  v_gid :: u32
  v_nlink :: u32

datatype vfs_node = VFile bytes vfs_meta | VDir "(string, node_ref) btree" vfs_meta

record dir_entry =
  de_name :: string
  de_is_dir :: bool
  de_size :: nat

record ext4 =
  e4_read :: "string \<Rightarrow> bytes option"
  e4_list :: "string \<Rightarrow> dir_entry list"
  e4_exists :: "string \<Rightarrow> bool"

record vfs =
  VROOT :: "node_ref option"
  vnodes :: "vfs_node list"
  INO_SEQ :: u64
  EXT4 :: "ext4 option"

definition alloc_ino :: "vfs \<Rightarrow> vfs \<times> u64" where
  "alloc_ino v = (v\<lparr>INO_SEQ := INO_SEQ v + 1\<rparr>, INO_SEQ v)"

definition new_node :: "vfs_node \<Rightarrow> vfs \<Rightarrow> vfs \<times> node_ref" where
  "new_node n v = (v\<lparr>vnodes := vnodes v @ [n]\<rparr>, length (vnodes v))"

definition meta_new_file :: "u32 \<Rightarrow> vfs \<Rightarrow> vfs \<times> vfs_meta" where
  "meta_new_file mode v = (let (v, i) = alloc_ino v in (v, \<lparr>v_ino = i, v_mode = mode, v_uid = 0, v_gid = 0, v_nlink = 1\<rparr>))"

definition meta_new_dir :: "vfs \<Rightarrow> vfs \<times> vfs_meta" where
  "meta_new_dir v = (let (v, i) = alloc_ino v in (v, \<lparr>v_ino = i, v_mode = 493, v_uid = 0, v_gid = 0, v_nlink = 2\<rparr>))"

definition set_node :: "node_ref \<Rightarrow> vfs_node \<Rightarrow> vfs \<Rightarrow> vfs" where
  "set_node r n v = v\<lparr>vnodes := (vnodes v)[r := n]\<rparr>"

section \<open>Directories\<close>

definition dir_lookup :: "string \<Rightarrow> (string, node_ref) btree \<Rightarrow> node_ref option" where
  "dir_lookup name d = bt_get name d"

text \<open>\<open>entry(name).or_insert_with(..)\<close> in the directory at \<open>r\<close>.\<close>

definition dir_create :: "bool \<Rightarrow> node_ref \<Rightarrow> string \<Rightarrow> vfs \<Rightarrow> vfs \<times> node_ref option" where
  "dir_create is_file r name v =
     (case vnodes v ! r of
        VFile _ _ \<Rightarrow> (v, None)
      | VDir d m \<Rightarrow>
          (case bt_get name d of
             Some n \<Rightarrow> (v, Some n)
           | None \<Rightarrow>
               let (v, node) = (if is_file then (let (v, fm) = meta_new_file 420 v in (v, VFile [] fm))
                                else (let (v, dm) = meta_new_dir v in (v, VDir [] dm)));
                   (v, n) = new_node node v
               in (set_node r (VDir (bt_insert name n d) m) v, Some n)))"

definition dir_list :: "vfs \<Rightarrow> (string, node_ref) btree \<Rightarrow> dir_entry list" where
  "dir_list v d = map (\<lambda>(name, r). case vnodes v ! r of
      VFile bs _ \<Rightarrow> \<lparr>de_name = name, de_is_dir = False, de_size = length bs\<rparr>
    | VDir _ _ \<Rightarrow> \<lparr>de_name = name, de_is_dir = True, de_size = 0\<rparr>) d"

section \<open>Paths\<close>

abbreviation slash :: char where "slash \<equiv> CHR ''/''"

definition trim_start :: "string \<Rightarrow> string" where "trim_start s = dropWhile (\<lambda>c. c = slash) s"
definition trim_end :: "string \<Rightarrow> string" where "trim_end s = rev (dropWhile (\<lambda>c. c = slash) (rev s))"

fun split_slash :: "string \<Rightarrow> string list" where
  "split_slash [] = [[]]"
| "split_slash (c # cs) =
     (if c = slash then [] # split_slash cs
      else case split_slash cs of [] \<Rightarrow> [[c]] | w # ws \<Rightarrow> (c # w) # ws)"

definition parts :: "string \<Rightarrow> string list" where
  "parts path = filter (\<lambda>w. w \<noteq> []) (split_slash (trim_start path))"

fun walk :: "vfs \<Rightarrow> node_ref \<Rightarrow> string list \<Rightarrow> node_ref option" where
  "walk v r [] = Some r"
| "walk v r (p # ps) =
     (case vnodes v ! r of
        VDir d _ \<Rightarrow> (case dir_lookup p d of Some n \<Rightarrow> walk v n ps | None \<Rightarrow> None)
      | VFile _ _ \<Rightarrow> None)"

definition vlookup :: "string \<Rightarrow> vfs \<Rightarrow> node_ref option" where
  "vlookup path v =
     (case VROOT v of
        None \<Rightarrow> None
      | Some root \<Rightarrow> if path = ''/'' then Some root else walk v root (parts path))"

definition split_parent :: "string \<Rightarrow> (string \<times> string) option" where
  "split_parent path =
     (let path = trim_end path in
      if slash \<notin> set path then None
      else
        let name = rev (takeWhile (\<lambda>c. c \<noteq> slash) (rev path));
            sl = length path - length name - 1;
            parent = (if sl = 0 then ''/'' else take sl path)
        in if name = [] then None else Some (parent, name))"

section \<open>Creating, reading, writing\<close>

definition create_in :: "bool \<Rightarrow> string \<Rightarrow> vfs \<Rightarrow> vfs \<times> node_ref option" where
  "create_in is_file path v =
     (case split_parent path of
        None \<Rightarrow> (v, None)
      | Some (parent_path, name) \<Rightarrow>
          (case vlookup parent_path v of
             None \<Rightarrow> (v, None)
           | Some parent \<Rightarrow> dir_create is_file parent name v))"

definition create_file :: "string \<Rightarrow> vfs \<Rightarrow> vfs \<times> node_ref option" where "create_file = create_in True"
definition mkdir :: "string \<Rightarrow> vfs \<Rightarrow> vfs \<times> node_ref option" where "mkdir = create_in False"

definition read_file :: "string \<Rightarrow> vfs \<Rightarrow> bytes option" where
  "read_file path v =
     (case vlookup path v of
        None \<Rightarrow> None
      | Some r \<Rightarrow> (case vnodes v ! r of VFile bs _ \<Rightarrow> Some bs | VDir _ _ \<Rightarrow> None))"

definition update_file :: "(bytes \<Rightarrow> bytes) \<Rightarrow> string \<Rightarrow> vfs \<Rightarrow> vfs \<times> bool" where
  "update_file f path v =
     (case vlookup path v of
        None \<Rightarrow> (v, False)
      | Some r \<Rightarrow> (case vnodes v ! r of VFile bs m \<Rightarrow> (set_node r (VFile (f bs) m) v, True) | VDir _ _ \<Rightarrow> (v, False)))"

definition write_file :: "string \<Rightarrow> bytes \<Rightarrow> vfs \<Rightarrow> vfs \<times> bool" where
  "write_file path data = update_file (\<lambda>_. data) path"

definition append_file :: "string \<Rightarrow> bytes \<Rightarrow> vfs \<Rightarrow> vfs \<times> bool" where
  "append_file path data = update_file (\<lambda>bs. bs @ data) path"

definition list_dir :: "string \<Rightarrow> vfs \<Rightarrow> dir_entry list" where
  "list_dir path v =
     (case vlookup path v of
        None \<Rightarrow> []
      | Some r \<Rightarrow> (case vnodes v ! r of VDir d _ \<Rightarrow> dir_list v d | VFile _ _ \<Rightarrow> []))"

section \<open>Removing, renaming, linking\<close>

definition remove_entry :: "string \<Rightarrow> bool \<Rightarrow> vfs \<Rightarrow> vfs \<times> int" where
  "remove_entry path allow_dir v =
     (case split_parent path of
        None \<Rightarrow> (v, EINVAL)
      | Some (parent_str, name) \<Rightarrow>
          (case vlookup parent_str v of
             None \<Rightarrow> (v, ENOENT)
           | Some parent \<Rightarrow>
               (case vnodes v ! parent of
                  VFile _ _ \<Rightarrow> (v, ENOENT)
                | VDir d m \<Rightarrow>
                    (case dir_lookup name d of
                       None \<Rightarrow> (v, ENOENT)
                     | Some target \<Rightarrow>
                         (case vnodes v ! target of
                            VDir td _ \<Rightarrow>
                              if \<not> allow_dir then (v, - 21)
                              else if td \<noteq> [] then (v, - 39)
                              else (set_node parent (VDir (bt_remove name d) m) v, 0)
                          | VFile _ _ \<Rightarrow> (set_node parent (VDir (bt_remove name d) m) v, 0))))))"

definition rename_in :: "node_ref \<Rightarrow> string \<Rightarrow> string \<Rightarrow> vfs \<Rightarrow> vfs \<times> int" where
  "rename_in parent old_name new_name v =
     (case vnodes v ! parent of
        VFile _ _ \<Rightarrow> (v, ENOENT)
      | VDir d m \<Rightarrow>
          (case bt_get old_name d of
             None \<Rightarrow> (v, ENOENT)
           | Some n \<Rightarrow> (set_node parent (VDir (bt_insert new_name n (bt_remove old_name d)) m) v, 0)))"

definition rename_across :: "node_ref \<Rightarrow> string \<Rightarrow> node_ref \<Rightarrow> string \<Rightarrow> vfs \<Rightarrow> vfs \<times> int" where
  "rename_across old_parent old_name new_parent new_name v =
     (case vnodes v ! old_parent of
        VFile _ _ \<Rightarrow> (v, ENOENT)
      | VDir d m \<Rightarrow>
          (case bt_get old_name d of
             None \<Rightarrow> (v, ENOENT)
           | Some n \<Rightarrow>
               let v = set_node old_parent (VDir (bt_remove old_name d) m) v in
               (case vnodes v ! new_parent of
                  VFile _ _ \<Rightarrow> (v, ENOENT)
                | VDir d' m' \<Rightarrow> (set_node new_parent (VDir (bt_insert new_name n d') m') v, 0))))"

definition rename :: "string \<Rightarrow> string \<Rightarrow> vfs \<Rightarrow> vfs \<times> int" where
  "rename old_path new_path v =
     (case split_parent old_path of
        None \<Rightarrow> (v, EINVAL)
      | Some (old_parent_str, old_name) \<Rightarrow>
          (case split_parent new_path of
             None \<Rightarrow> (v, EINVAL)
           | Some (new_parent_str, new_name) \<Rightarrow>
               (case vlookup old_parent_str v of
                  None \<Rightarrow> (v, ENOENT)
                | Some old_parent \<Rightarrow>
                    (case vlookup new_parent_str v of
                       None \<Rightarrow> (v, ENOENT)
                     | Some new_parent \<Rightarrow>
                         if old_parent = new_parent then rename_in old_parent old_name new_name v
                         else rename_across old_parent old_name new_parent new_name v))))"

definition link_vfs :: "string \<Rightarrow> string \<Rightarrow> vfs \<Rightarrow> (vfs \<times> int) option" where
  "link_vfs old_path new_path v =
     (case vlookup old_path v of
        None \<Rightarrow> Some (v, ENOENT)
      | Some node \<Rightarrow>
          (case vnodes v ! node of
             VDir _ _ \<Rightarrow> Some (v, - 1)
           | VFile bs fm \<Rightarrow>
               (case split_parent new_path of
                  None \<Rightarrow> Some (v, EINVAL)
                | Some (parent_str, name) \<Rightarrow>
                    (case vlookup parent_str v of
                       None \<Rightarrow> Some (v, ENOENT)
                     | Some parent \<Rightarrow>
                         (case vnodes v ! parent of
                            VFile _ _ \<Rightarrow> Some (v, ENOENT)
                          | VDir d m \<Rightarrow> do {
                              n \<leftarrow> add_chk (v_nlink fm) 1;
                              Some (set_node node (VFile bs (fm\<lparr>v_nlink := n\<rparr>))
                                (set_node parent (VDir (bt_insert name node d) m) v), 0)
                            })))))"

section \<open>Sizes and attributes\<close>

definition resize :: "nat \<Rightarrow> bytes \<Rightarrow> bytes" where
  "resize n bs = take n bs @ replicate (n - length bs) 0"

definition truncate_node :: "node_ref \<Rightarrow> nat \<Rightarrow> vfs \<Rightarrow> vfs \<times> int" where
  "truncate_node r sz v =
     (case vnodes v ! r of
        VFile bs m \<Rightarrow> (set_node r (VFile (resize sz bs) m) v, 0)
      | VDir _ _ \<Rightarrow> (v, - 21))"

definition truncate_vfs :: "string \<Rightarrow> nat \<Rightarrow> vfs \<Rightarrow> vfs \<times> int" where
  "truncate_vfs path sz v =
     (case vlookup path v of None \<Rightarrow> (v, ENOENT) | Some r \<Rightarrow> truncate_node r sz v)"

definition upd_meta :: "(vfs_meta \<Rightarrow> vfs_meta) \<Rightarrow> string \<Rightarrow> vfs \<Rightarrow> vfs \<times> int" where
  "upd_meta f path v =
     (case vlookup path v of
        None \<Rightarrow> (v, ENOENT)
      | Some r \<Rightarrow>
          (case vnodes v ! r of
             VFile bs m \<Rightarrow> (set_node r (VFile bs (f m)) v, 0)
           | VDir d m \<Rightarrow> (set_node r (VDir d (f m)) v, 0)))"

definition chmod_vfs :: "string \<Rightarrow> u32 \<Rightarrow> vfs \<Rightarrow> vfs \<times> int" where
  "chmod_vfs path mode = upd_meta (\<lambda>m. m\<lparr>v_mode := mode AND 0xFFF\<rparr>) path"

definition chown_vfs :: "string \<Rightarrow> u32 \<Rightarrow> u32 \<Rightarrow> vfs \<Rightarrow> vfs \<times> int" where
  "chown_vfs path uid gid = upd_meta (\<lambda>m. m\<lparr>v_uid := uid, v_gid := gid\<rparr>) path"

type_synonym stat_info = "u64 \<times> u32 \<times> u32 \<times> u32 \<times> u32 \<times> nat"

definition stat_node :: "node_ref \<Rightarrow> vfs \<Rightarrow> stat_info" where
  "stat_node r v =
     (case vnodes v ! r of
        VFile bs m \<Rightarrow> (v_ino m, v_mode m OR 0x8000, v_uid m, v_gid m, v_nlink m, length bs)
      | VDir _ m \<Rightarrow> (v_ino m, v_mode m OR 0x4000, v_uid m, v_gid m, v_nlink m, 0))"

definition stat_path :: "string \<Rightarrow> vfs \<Rightarrow> stat_info option" where
  "stat_path path v = map_option (\<lambda>r. stat_node r v) (vlookup path v)"

section \<open>The overlay\<close>

definition ext4_read_file :: "string \<Rightarrow> vfs \<Rightarrow> bytes option" where
  "ext4_read_file path v = (case EXT4 v of Some e \<Rightarrow> e4_read e path | None \<Rightarrow> None)"

definition ext4_list_dir :: "string \<Rightarrow> vfs \<Rightarrow> dir_entry list" where
  "ext4_list_dir path v = (case EXT4 v of Some e \<Rightarrow> e4_list e path | None \<Rightarrow> [])"

definition ext4_exists :: "string \<Rightarrow> vfs \<Rightarrow> bool" where
  "ext4_exists path v = (case EXT4 v of Some e \<Rightarrow> e4_exists e path | None \<Rightarrow> False)"

fun ensure_dirs :: "string \<Rightarrow> string list \<Rightarrow> vfs \<Rightarrow> vfs" where
  "ensure_dirs cur [] v = v"
| "ensure_dirs cur (p # ps) v =
     (let cur = cur @ ''/'' @ p
      in ensure_dirs cur ps (if vlookup cur v = None then fst (mkdir cur v) else v))"

definition ensure_parent_dirs :: "string \<Rightarrow> vfs \<Rightarrow> vfs" where
  "ensure_parent_dirs path v =
     (let ps = parts (trim_end path) in
      if length ps \<le> 1 then v else ensure_dirs [] (butlast ps) v)"

definition set_data :: "node_ref \<Rightarrow> bytes \<Rightarrow> vfs \<Rightarrow> vfs" where
  "set_data r data v = (case vnodes v ! r of VFile _ m \<Rightarrow> set_node r (VFile data m) v | VDir _ _ \<Rightarrow> v)"

definition copy_up :: "string \<Rightarrow> vfs \<Rightarrow> vfs \<times> node_ref option" where
  "copy_up path v =
     (case vlookup path v of
        Some r \<Rightarrow> (v, Some r)
      | None \<Rightarrow>
          (case ext4_read_file path v of
             None \<Rightarrow> (v, None)
           | Some data \<Rightarrow>
               (case create_file path (ensure_parent_dirs path v) of
                  (v, None) \<Rightarrow> (v, None)
                | (v, Some r) \<Rightarrow> (set_data r data v, Some r))))"

definition open_writable :: "string \<Rightarrow> bool \<Rightarrow> vfs \<Rightarrow> vfs \<times> node_ref option" where
  "open_writable path o_creat v =
     (case vlookup path v of
        Some r \<Rightarrow> (v, Some r)
      | None \<Rightarrow>
          if ext4_exists path v then copy_up path v
          else if o_creat then create_file path (ensure_parent_dirs path v)
          else (v, None))"

definition open_readonly :: "string \<Rightarrow> vfs \<Rightarrow> bytes option" where
  "open_readonly path v =
     (case read_file path v of Some bs \<Rightarrow> Some bs | None \<Rightarrow> ext4_read_file path v)"

section \<open>Mounting\<close>

definition vfs_dirs :: "string list" where
  "vfs_dirs = [''/tmp'', ''/run'', ''/run/lock'', ''/var'', ''/var/lib'', ''/var/lib/pacman'', ''/var/cache'',
     ''/var/cache/pacman'', ''/var/cache/pacman/pkg'', ''/var/log'', ''/etc'', ''/etc/pacman.d'', ''/usr'', ''/usr/bin'',
     ''/usr/lib'', ''/usr/share'', ''/usr/local'', ''/usr/local/bin'', ''/proc'', ''/sys'', ''/dev'']"

definition new_root :: "vfs \<Rightarrow> vfs" where
  "new_root v = (let (v, m) = meta_new_dir v; (v, r) = new_node (VDir [] m) v in v\<lparr>VROOT := Some r\<rparr>)"

definition vfs_boot :: vfs where
  "vfs_boot = \<lparr>VROOT = None, vnodes = [], INO_SEQ = 2, EXT4 = None\<rparr>"

definition vfs_init :: "vfs \<Rightarrow> vfs" where
  "vfs_init v = fold (\<lambda>d v. fst (mkdir d v)) vfs_dirs (new_root v)"

definition mount_ext4 :: "ext4 option \<Rightarrow> vfs \<Rightarrow> vfs \<times> bool" where
  "mount_ext4 loaded v = (case loaded of Some e \<Rightarrow> (v\<lparr>EXT4 := Some e\<rparr>, True) | None \<Rightarrow> (v, False))"


section \<open>The tree invariant\<close>

text \<open>
  The directory entries are the edges of a graph over the nodes. The invariant says that the graph is
  closed, that every directory is an ordered map, and that the directories form a forest in which the root
  has no parent. Files may have several names.
\<close>

definition is_vdir :: "vfs \<Rightarrow> node_ref \<Rightarrow> bool" where
  "is_vdir v r = (case vnodes v ! r of VDir _ _ \<Rightarrow> True | VFile _ _ \<Rightarrow> False)"

definition edge :: "vfs \<Rightarrow> node_ref \<Rightarrow> string \<Rightarrow> node_ref \<Rightarrow> bool" where
  "edge v p a n \<longleftrightarrow> p < length (vnodes v) \<and>
     (case vnodes v ! p of VDir d _ \<Rightarrow> bt_get a d = Some n | VFile _ _ \<Rightarrow> False)"

definition vfs_ok :: "vfs \<Rightarrow> bool" where
  "vfs_ok v \<longleftrightarrow>
     (\<forall>r. VROOT v = Some r \<longrightarrow> r < length (vnodes v) \<and> is_vdir v r \<and> (\<forall>p a. \<not> edge v p a r)) \<and>
     (\<forall>p d m. p < length (vnodes v) \<longrightarrow> vnodes v ! p = VDir d m \<longrightarrow> bt_wf d) \<and>
     (\<forall>p a n. edge v p a n \<longrightarrow> n < length (vnodes v)) \<and>
     (\<forall>p a q b n. edge v p a n \<longrightarrow> edge v q b n \<longrightarrow> is_vdir v n \<longrightarrow> p = q \<and> a = b)"

lemma vfs_okD:
  assumes "vfs_ok v"
  shows "VROOT v = Some r \<Longrightarrow> r < length (vnodes v)" "VROOT v = Some r \<Longrightarrow> is_vdir v r"
    "VROOT v = Some r \<Longrightarrow> \<not> edge v p a r"
    "p < length (vnodes v) \<Longrightarrow> vnodes v ! p = VDir d m \<Longrightarrow> bt_wf d"
    "edge v p a n \<Longrightarrow> n < length (vnodes v)"
    "edge v p a n \<Longrightarrow> edge v q b n \<Longrightarrow> is_vdir v n \<Longrightarrow> p = q"
    "edge v p a n \<Longrightarrow> edge v q b n \<Longrightarrow> is_vdir v n \<Longrightarrow> a = b"
  using assms unfolding vfs_ok_def by blast+

lemma set_node_simps [simp]:
  "VROOT (set_node r n v) = VROOT v" "length (vnodes (set_node r n v)) = length (vnodes v)"
  "EXT4 (set_node r n v) = EXT4 v" "INO_SEQ (set_node r n v) = INO_SEQ v"
  "vnodes (set_node r n v) = (vnodes v)[r := n]"
  by (simp_all add: set_node_def)

lemma edge_set_dir:
  assumes "P < length (vnodes v)"
  shows "edge (set_node P (VDir d' m') v) p a n \<longleftrightarrow> (if p = P then bt_get a d' = Some n else edge v p a n)"
  using assms by (auto simp: edge_def nth_list_update split: vfs_node.splits)

lemma is_vdir_set_dir:
  assumes "P < length (vnodes v)" "vnodes v ! P = VDir d m"
  shows "is_vdir (set_node P (VDir d' m') v) r = is_vdir v r"
  using assms by (auto simp: is_vdir_def nth_list_update split: vfs_node.splits)

lemma edge_dirI: "P < length (vnodes v) \<Longrightarrow> vnodes v ! P = VDir d m \<Longrightarrow> edge v P a n \<longleftrightarrow> bt_get a d = Some n"
  by (simp add: edge_def)

lemma vfs_ok_sub:
  assumes ok: "vfs_ok v" and root: "VROOT v' = VROOT v" and len: "length (vnodes v) \<le> length (vnodes v')"
    and sub: "\<And>p a n. edge v' p a n \<Longrightarrow> edge v p a n"
    and dirs: "\<And>r. r < length (vnodes v) \<Longrightarrow> is_vdir v' r = is_vdir v r"
    and wf: "\<And>p d m. p < length (vnodes v') \<Longrightarrow> vnodes v' ! p = VDir d m \<Longrightarrow> bt_wf d"
  shows "vfs_ok v'"
  unfolding vfs_ok_def root
proof (intro conjI allI impI)
  fix r assume r: "VROOT v = Some r"
  show "r < length (vnodes v')" using vfs_okD(1) [OF ok r] len by simp
  show "is_vdir v' r" using vfs_okD(1,2) [OF ok r] dirs by simp
  show "\<not> edge v' p a r" for p a using vfs_okD(3) [OF ok r] sub by blast
next
  fix p a n assume e: "edge v' p a n"
  show "n < length (vnodes v')" using vfs_okD(5) [OF ok sub [OF e]] len by simp
  fix q b assume e': "edge v' q b n" and d: "is_vdir v' n"
  have "is_vdir v n" using d dirs [OF vfs_okD(5) [OF ok sub [OF e]]] by simp
  then show "p = q" "a = b" using vfs_okD(6,7) [OF ok sub [OF e] sub [OF e']] by simp_all
qed (rule wf)

lemma vfs_ok_dir_shrink:
  assumes "vfs_ok v" "P < length (vnodes v)" "vnodes v ! P = VDir d m" "bt_wf d'"
    and "\<And>a n. bt_get a d' = Some n \<Longrightarrow> bt_get a d = Some n"
  shows "vfs_ok (set_node P (VDir d' m') v)"
proof (rule vfs_ok_sub [OF assms(1)])
  show "edge v p a n" if "edge (set_node P (VDir d' m') v) p a n" for p a n
    using that assms(5) by (auto simp: edge_set_dir [OF assms(2)] edge_dirI [OF assms(2,3)] split: if_splits)
qed (use assms(4) vfs_okD(4) [OF assms(1)] in
    \<open>auto simp: is_vdir_set_dir [OF assms(2,3)] nth_upd_ite split: if_splits\<close>)

lemma vfs_ok_dir_insert:
  assumes "vfs_ok v" "P < length (vnodes v)" "vnodes v ! P = VDir d m"
    and y: "y < length (vnodes v)" "VROOT v \<noteq> Some y"
    and free: "is_vdir v y \<Longrightarrow> (\<forall>q b. edge v q b y \<longrightarrow> q = P \<and> b = x)"
  shows "vfs_ok (set_node P (VDir (bt_insert x y d) m') v)" (is "vfs_ok ?v'")
proof -
  have wf: "bt_wf d" by (rule vfs_okD(4) [OF assms(1-3)])
  have e: "edge ?v' p a n \<longleftrightarrow> (if p = P \<and> a = x then n = y else edge v p a n)" for p a n
    by (auto simp: edge_set_dir [OF assms(2)] edge_dirI [OF assms(2,3)] wf)
  show ?thesis
    unfolding vfs_ok_def set_node_simps(1,2)
  proof (intro conjI allI impI)
    fix r assume r: "VROOT v = Some r"
    show "r < length (vnodes v)" "is_vdir ?v' r"
      using vfs_okD(1,2) [OF assms(1) r] by (simp_all add: is_vdir_set_dir [OF assms(2,3)])
    show "\<not> edge ?v' p a r" for p a using vfs_okD(3) [OF assms(1) r] y(2) r by (auto simp: e)
  next
    fix p da ma assume "p < length (vnodes v)" "vnodes ?v' ! p = VDir da ma"
    then show "bt_wf da" using vfs_okD(4) [OF assms(1)] wf by (auto simp: nth_upd_ite split: if_splits)
  next
    fix p a n assume ep: "edge ?v' p a n"
    then show "n < length (vnodes v)" using vfs_okD(5) [OF assms(1)] y(1) by (auto simp: e split: if_splits)
    fix q b assume "edge ?v' q b n" "is_vdir ?v' n"
    then have "p = q \<and> a = b"
      using ep free vfs_okD(6,7) [OF assms(1), of p a n q b]
      unfolding e is_vdir_set_dir [OF assms(2,3)] by (metis (full_types))
    then show "p = q" "a = b" by simp_all
  qed
qed

lemma vfs_ok_file:
  assumes "vfs_ok v" "vnodes v ! r = VFile bs m"
  shows "vfs_ok (set_node r (VFile bs' m') v)"
proof (cases "r < length (vnodes v)")
  case True
  have e: "edge (set_node r (VFile bs' m') v) = edge v" "is_vdir (set_node r (VFile bs' m') v) = is_vdir v"
    using True assms(2) by (auto simp: edge_def is_vdir_def nth_list_update fun_eq_iff split: vfs_node.splits)
  show ?thesis
    by (rule vfs_ok_sub [OF assms(1)])
      (use vfs_okD(4) [OF assms(1)] True in \<open>auto simp: e nth_list_update split: if_splits\<close>)
next
  case False
  then show ?thesis using assms(1) by (simp add: set_node_def list_update_beyond)
qed

lemma vfs_ok_ino [simp]: "vfs_ok (v\<lparr>INO_SEQ := i\<rparr>) = vfs_ok v"
  by (simp add: vfs_ok_def edge_def is_vdir_def)

lemma vfs_ok_ext4 [simp]: "vfs_ok (v\<lparr>EXT4 := e\<rparr>) = vfs_ok v"
  by (simp add: vfs_ok_def edge_def is_vdir_def)

definition leaf :: "vfs_node \<Rightarrow> bool" where
  "leaf n = (case n of VDir d _ \<Rightarrow> d = [] | VFile _ _ \<Rightarrow> True)"

lemma edge_append_leaf:
  "leaf n \<Longrightarrow> edge (v\<lparr>vnodes := vnodes v @ [n]\<rparr>) = edge v"
  by (auto simp: edge_def leaf_def nth_append fun_eq_iff less_Suc_eq split: vfs_node.splits)

lemma is_vdir_append:
  "r < length (vnodes v) \<Longrightarrow> is_vdir (v\<lparr>vnodes := vnodes v @ [n]\<rparr>) r = is_vdir v r"
  by (simp add: is_vdir_def nth_append)

lemma vfs_ok_append_leaf:
  assumes "vfs_ok v" "leaf n"
  shows "vfs_ok (v\<lparr>vnodes := vnodes v @ [n]\<rparr>)"
  using vfs_okD [OF assms(1)] assms(2) unfolding vfs_ok_def edge_append_leaf [OF assms(2)]
  by (auto simp: is_vdir_append nth_append leaf_def less_Suc_eq split: vfs_node.splits if_splits)


lemma walk_append: "walk v r (ps @ qs) = Option.bind (walk v r ps) (\<lambda>n. walk v n qs)"
  by (induction ps arbitrary: r) (simp_all split: vfs_node.split option.split)

lemma walk_range:
  "vfs_ok v \<Longrightarrow> r < length (vnodes v) \<Longrightarrow> walk v r ps = Some n \<Longrightarrow> n < length (vnodes v)"
proof (induction ps arbitrary: r)
  case (Cons p ps)
  then obtain d m n' where *: "vnodes v ! r = VDir d m" "bt_get p d = Some n'" "walk v n' ps = Some n"
    by (auto simp: dir_lookup_def split: vfs_node.splits option.splits)
  then have "n' < length (vnodes v)"
    using vfs_okD(5) [OF Cons.prems(1), of r p n'] Cons.prems(2) by (simp add: edge_def)
  then show ?case using Cons.IH [of n'] Cons.prems(1) *(3) by blast
qed simp

lemma vlookup_walk: "vlookup path v = (case VROOT v of None \<Rightarrow> None | Some root \<Rightarrow> walk v root (parts path))"
  by (auto simp: vlookup_def parts_def trim_start_def split: option.split)

lemma vlookup_range [dest]: "vlookup path v = Some n \<Longrightarrow> vfs_ok v \<Longrightarrow> n < length (vnodes v)"
  by (auto simp: vlookup_walk dest: walk_range vfs_okD(1) split: option.splits)

definition fresh_leaf :: "bool \<Rightarrow> u64 \<Rightarrow> vfs_node" where
  "fresh_leaf is_file i =
     (if is_file then VFile [] \<lparr>v_ino = i, v_mode = 420, v_uid = 0, v_gid = 0, v_nlink = 1\<rparr>
      else VDir [] \<lparr>v_ino = i, v_mode = 493, v_uid = 0, v_gid = 0, v_nlink = 2\<rparr>)"

lemma leaf_fresh [simp]: "leaf (fresh_leaf is_file i)"
  by (simp add: leaf_def fresh_leaf_def)

text \<open>\<open>dir_create\<close> on a missing name, in one step: a fresh leaf is appended and bound to the name.\<close>

lemma dir_create_new:
  assumes "vnodes v ! r = VDir d m" "bt_get name d = None"
  shows "dir_create is_file r name v =
    (set_node r (VDir (bt_insert name (length (vnodes v)) d) m)
       (v\<lparr>INO_SEQ := INO_SEQ v + 1, vnodes := vnodes v @ [fresh_leaf is_file (INO_SEQ v)]\<rparr>),
     Some (length (vnodes v)))"
  using assms
  by (simp add: dir_create_def new_node_def fresh_leaf_def meta_new_file_def meta_new_dir_def alloc_ino_def)

lemma edge_fresh:
  "leaf n \<Longrightarrow> edge (v\<lparr>INO_SEQ := i, vnodes := vnodes v @ [n]\<rparr>) = edge v"
  using edge_append_leaf [of n "v\<lparr>INO_SEQ := i\<rparr>"] by (simp add: edge_def fun_eq_iff)

lemma dir_create_ok [kernel_inv]:
  assumes "vfs_ok v" "r < length (vnodes v)"
  shows "vfs_ok (fst (dir_create is_file r name v))"
proof (cases "vnodes v ! r")
  case (VDir d m)
  show ?thesis
  proof (cases "bt_get name d")
    case None
    let ?n = "fresh_leaf is_file (INO_SEQ v)"
    let ?v = "v\<lparr>INO_SEQ := INO_SEQ v + 1, vnodes := vnodes v @ [?n]\<rparr>"
    have ok: "vfs_ok ?v" using vfs_ok_append_leaf [of "v\<lparr>INO_SEQ := INO_SEQ v + 1\<rparr>" ?n] assms(1) by simp
    have e: "\<not> edge ?v q b (length (vnodes v))" for q b
      using vfs_okD(5) [OF assms(1), of q b "length (vnodes v)"] by (auto simp: edge_fresh)
    have "VROOT v \<noteq> Some (length (vnodes v))" using vfs_okD(1) [OF assms(1)] by blast
    then show ?thesis
      using vfs_ok_dir_insert [OF ok, of r d m "length (vnodes v)" name m] e assms(2) VDir
      by (simp add: dir_create_new [OF VDir None] nth_append)
  qed (simp add: dir_create_def VDir assms)
qed (simp add: dir_create_def assms)

lemma create_in_ok [kernel_inv]: "vfs_ok v \<Longrightarrow> vfs_ok (fst (create_in is_file path v))"
  by (auto simp: create_in_def intro!: dir_create_ok split: option.split prod.split)

lemma update_file_ok [kernel_inv]: "vfs_ok v \<Longrightarrow> vfs_ok (fst (update_file f path v))"
  by (auto simp: update_file_def intro!: vfs_ok_file split: option.split vfs_node.split)

lemma vfs_ok_remove:
  assumes "vfs_ok v" "P < length (vnodes v)" "vnodes v ! P = VDir d m"
  shows "vfs_ok (set_node P (VDir (bt_remove name d) m') v)"
  using vfs_okD(4) [OF assms] by (intro vfs_ok_dir_shrink [OF assms]) (auto split: if_splits)

lemma remove_entry_ok [kernel_inv]: "vfs_ok v \<Longrightarrow> vfs_ok (fst (remove_entry path allow_dir v))"
  by (auto simp: remove_entry_def intro!: vfs_ok_remove split: option.split vfs_node.split prod.split)

text \<open>Moving an entry: remove it, and bind the node it named under the new name.\<close>

lemma vfs_ok_move:
  assumes "vfs_ok v" "P < length (vnodes v)" "vnodes v ! P = VDir d m" "bt_get old_name d = Some n"
    and v': "v' = set_node P (VDir (bt_remove old_name d) m) v"
    and "Q < length (vnodes v)" "vnodes v' ! Q = VDir d' m'"
  shows "vfs_ok (set_node Q (VDir (bt_insert new_name n d') m') v')"
proof (rule vfs_ok_dir_insert)
  note wf = vfs_okD(4) [OF assms(1-3)]
  have en: "edge v P old_name n" by (simp add: edge_dirI [OF assms(2,3)] assms(4))
  show "vfs_ok v'" unfolding v' by (rule vfs_ok_remove [OF assms(1-3)])
  show "Q < length (vnodes v')" "vnodes v' ! Q = VDir d' m'" using assms(6,7) by (simp_all add: v')
  show "n < length (vnodes v')" using vfs_okD(5) [OF assms(1) en] by (simp add: v')
  show "VROOT v' \<noteq> Some n" using vfs_okD(3) [OF assms(1) _, of n P old_name] en by (auto simp: v')
  assume "is_vdir v' n"
  then have "is_vdir v n" by (simp add: v' is_vdir_set_dir [OF assms(2,3)])
  then have "q = P \<and> b = old_name" if "edge v q b n" for q b
    using vfs_okD(6,7) [OF assms(1) en that] by simp
  moreover have "edge v q b n \<and> \<not> (q = P \<and> b = old_name)" if "edge v' q b n" for q b
    using that wf by (auto simp: v' edge_set_dir [OF assms(2)] edge_dirI [OF assms(2,3)] split: if_splits)
  ultimately show "\<forall>q b. edge v' q b n \<longrightarrow> q = Q \<and> b = new_name" by blast
qed

lemma rename_in_ok [kernel_inv]:
  assumes "vfs_ok v" "P < length (vnodes v)"
  shows "vfs_ok (fst (rename_in P old_name new_name v))"
proof -
  have "vfs_ok (set_node P (VDir (bt_insert new_name n (bt_remove old_name d)) m) v)"
    if "vnodes v ! P = VDir d m" "bt_get old_name d = Some n" for d m n
    using vfs_ok_move [OF assms that refl assms(2), of "bt_remove old_name d" m] assms(2)
    by (simp add: set_node_def)
  then show ?thesis using assms(1) by (auto simp: rename_in_def split: vfs_node.split option.split)
qed

lemma rename_across_ok [kernel_inv]:
  "vfs_ok v \<Longrightarrow> P < length (vnodes v) \<Longrightarrow> Q < length (vnodes v) \<Longrightarrow>
    vfs_ok (fst (rename_across P old_name Q new_name v))"
  by (auto simp: rename_across_def Let_def intro!: vfs_ok_move vfs_ok_remove simp del: set_node_simps(5)
      split: vfs_node.split option.split)

lemma rename_ok [kernel_inv]: "vfs_ok v \<Longrightarrow> vfs_ok (fst (rename old_path new_path v))"
  by (auto simp: rename_def intro!: rename_in_ok rename_across_ok split: option.split prod.split)


lemma link_vfs_ok [kernel_inv]:
  assumes "vfs_ok v" "link_vfs old_path new_path v = Some (v', e)"
  shows "vfs_ok v'"
proof -
  have ok: "vfs_ok (set_node n (VFile bs fm') (set_node P (VDir (bt_insert name n d) m) v))"
    if "vnodes v ! n = VFile bs fm" "n < length (vnodes v)" "P < length (vnodes v)" "vnodes v ! P = VDir d m"
    for n P bs fm fm' name d m
  proof (rule vfs_ok_file)
    have "\<not> is_vdir v n" using that(1) by (simp add: is_vdir_def)
    moreover from this have "VROOT v \<noteq> Some n" using vfs_okD(2) [OF assms(1)] by blast
    ultimately show "vfs_ok (set_node P (VDir (bt_insert name n d) m) v)"
      using that(2) by (intro vfs_ok_dir_insert [OF assms(1) that(3,4)]) auto
    show "vnodes (set_node P (VDir (bt_insert name n d) m) v) ! n = VFile bs fm"
      using that by (auto simp: nth_list_update)
  qed
  show ?thesis
    using assms
    by (auto simp: link_vfs_def Option.bind_eq_Some_conv intro!: ok split: option.splits vfs_node.splits prod.splits)
qed

lemma truncate_node_ok [kernel_inv]: "vfs_ok v \<Longrightarrow> vfs_ok (fst (truncate_node r sz v))"
  by (auto simp: truncate_node_def intro!: vfs_ok_file split: vfs_node.split)

lemma upd_meta_ok [kernel_inv]: "vfs_ok v \<Longrightarrow> vfs_ok (fst (upd_meta f path v))"
  by (auto simp: upd_meta_def intro!: vfs_ok_file vfs_ok_dir_shrink dest: vfs_okD(4)
      split: option.split vfs_node.split)

lemma ensure_dirs_ok [kernel_inv]: "vfs_ok v \<Longrightarrow> vfs_ok (ensure_dirs cur ps v)"
  by (induction cur ps v rule: ensure_dirs.induct) (simp_all add: Let_def mkdir_def kernel_inv)

lemma ensure_parent_dirs_ok [kernel_inv]: "vfs_ok v \<Longrightarrow> vfs_ok (ensure_parent_dirs path v)"
  by (simp add: ensure_parent_dirs_def Let_def kernel_inv)

lemma set_data_ok [kernel_inv]: "vfs_ok v \<Longrightarrow> vfs_ok (set_data r data v)"
  by (auto simp: set_data_def intro!: vfs_ok_file split: vfs_node.split)

lemma copy_up_ok [kernel_inv]: "vfs_ok v \<Longrightarrow> vfs_ok (fst (copy_up path v))"
  using create_in_ok [OF ensure_parent_dirs_ok, of v True path path]
  by (auto simp: copy_up_def create_file_def intro!: set_data_ok split: option.split prod.splits)

lemma open_writable_ok [kernel_inv]: "vfs_ok v \<Longrightarrow> vfs_ok (fst (open_writable path o_creat v))"
  by (auto simp: open_writable_def create_file_def kernel_inv split: option.split)

lemma new_root_ok [kernel_inv]:
  assumes "vfs_ok v"
  shows "vfs_ok (new_root v)"
proof -
  let ?n = "fresh_leaf False (INO_SEQ v)"
  let ?v = "v\<lparr>INO_SEQ := INO_SEQ v + 1, vnodes := vnodes v @ [?n]\<rparr>"
  have eq: "new_root v = ?v\<lparr>VROOT := Some (length (vnodes v))\<rparr>"
    by (simp add: new_root_def new_node_def meta_new_dir_def alloc_ino_def fresh_leaf_def)
  have ok: "vfs_ok ?v" using vfs_ok_append_leaf [of "v\<lparr>INO_SEQ := INO_SEQ v + 1\<rparr>" ?n] assms by simp
  have e: "edge (?v\<lparr>VROOT := Some (length (vnodes v))\<rparr>) = edge ?v"
    "is_vdir (?v\<lparr>VROOT := Some (length (vnodes v))\<rparr>) = is_vdir ?v"
    by (simp_all add: edge_def is_vdir_def fun_eq_iff)
  have "\<not> edge ?v q b (length (vnodes v))" for q b
    using vfs_okD(5) [OF assms, of q b "length (vnodes v)"] by (auto simp: edge_fresh)
  moreover have "is_vdir ?v (length (vnodes v))" by (simp add: is_vdir_def fresh_leaf_def)
  ultimately show ?thesis
    using ok unfolding eq vfs_ok_def e by simp
qed

lemma fold_mkdir_ok [kernel_inv]: "vfs_ok v \<Longrightarrow> vfs_ok (fold (\<lambda>d v. fst (mkdir d v)) ds v)"
  by (induction ds arbitrary: v) (simp_all add: mkdir_def kernel_inv)

lemma vfs_init_ok [kernel_inv]: "vfs_ok v \<Longrightarrow> vfs_ok (vfs_init v)"
  by (simp add: vfs_init_def kernel_inv)

lemma vfs_boot_ok: "vfs_ok vfs_boot"
  by (simp add: vfs_ok_def vfs_boot_def edge_def)

section \<open>Path strings\<close>

lemma split_slash_nonempty [simp]: "split_slash s \<noteq> []"
  by (induction s) (auto split: list.split)

lemma split_slash_append:
  "split_slash (s @ slash # t) = split_slash s @ split_slash t"
  by (induction s) (auto split: list.split simp: neq_Nil_conv)

lemma split_slash_word: "slash \<notin> set s \<Longrightarrow> split_slash s = [s]"
  by (induction s) auto

lemma dropWhile_parts:
  "filter (\<lambda>w. w \<noteq> []) (split_slash (dropWhile (\<lambda>c. c = slash) s)) = filter (\<lambda>w. w \<noteq> []) (split_slash s)"
  by (induction s) auto

lemma parts_split: "parts s = filter (\<lambda>w. w \<noteq> []) (split_slash s)"
  by (simp add: parts_def trim_start_def dropWhile_parts)

lemma parts_append: "parts (s @ slash # t) = parts s @ parts t"
  by (simp add: parts_split split_slash_append)

lemma parts_Nil [simp]: "parts [] = []" "parts ''/'' = []"
  by (simp_all add: parts_split)

lemma parts_slash [simp]: "parts (s @ ''/'') = parts s"
  using parts_append [of s "[]"] by simp

lemma parts_slashes: "\<forall>c \<in> set t. c = slash \<Longrightarrow> parts (s @ t) = parts s"
proof (induction t rule: rev_induct)
  case (snoc c t)
  then show ?case using parts_slash [of "s @ t"] by simp
qed simp

lemma trim_end_app: obtains t where "s = trim_end s @ t" "\<forall>c \<in> set t. c = slash"
proof (rule that)
  show "s = trim_end s @ rev (takeWhile (\<lambda>c. c = slash) (rev s))"
    by (simp add: trim_end_def flip: rev_append)
qed (auto dest: set_takeWhileD)

lemma parts_trim_end [simp]: "parts (trim_end s) = parts s"
  using parts_slashes by (metis trim_end_app)

lemma split_parent_app:
  assumes "split_parent path = Some (parent, name)"
  shows "\<exists>pre. trim_end path = pre @ slash # name \<and> slash \<notin> set name \<and> name \<noteq> [] \<and>
    parent = (if pre = [] then ''/'' else pre)"
proof -
  let ?p = "trim_end path" and ?w = "takeWhile (\<lambda>c. c \<noteq> slash) (rev (trim_end path))"
  have mem: "slash \<in> set ?p" and nm: "name = rev ?w" and ne: "name \<noteq> []"
    using assms by (auto simp: split_parent_def Let_def split: if_splits)
  have "dropWhile (\<lambda>c. c \<noteq> slash) (rev ?p) \<noteq> []" using mem by (auto simp: dropWhile_eq_Nil_conv)
  then obtain r where r: "dropWhile (\<lambda>c. c \<noteq> slash) (rev ?p) = slash # r"
    using hd_dropWhile [of "\<lambda>c. c \<noteq> slash" "rev ?p"] by (metis (full_types) list.collapse)
  have "rev ?p = ?w @ slash # r" using takeWhile_dropWhile_id [of "\<lambda>c. c \<noteq> slash" "rev ?p"] r by simp
  then have p: "?p = rev r @ slash # name" unfolding nm by (metis append_Cons append_Nil append_assoc rev.simps(2) rev_append rev_rev_ident)
  have "slash \<notin> set name" using nm by (auto dest: set_takeWhileD)
  moreover have "parent = (if rev r = [] then ''/'' else rev r)"
  proof -
    have "parent = (if length ?p - length name - 1 = 0 then ''/'' else take (length ?p - length name - 1) ?p)"
      using assms unfolding split_parent_def Let_def nm [symmetric] by (simp split: if_splits)
    then show ?thesis unfolding p by simp
  qed
  ultimately show ?thesis using p ne by blast
qed

lemma split_parent_parts:
  assumes "split_parent path = Some (parent, name)"
  shows "parts path = parts parent @ [name]"
proof -
  obtain pre where p: "trim_end path = pre @ slash # name" "slash \<notin> set name" "name \<noteq> []"
    "parent = (if pre = [] then ''/'' else pre)"
    using split_parent_app [OF assms] by blast
  have "parts path = parts (trim_end path)" by simp
  also have "\<dots> = parts pre @ parts name" unfolding p(1) by (rule parts_append)
  also have "parts name = [name]" using p(2,3) by (simp add: parts_split split_slash_word)
  finally show ?thesis using p(4) by simp
qed


section \<open>The name space\<close>

text \<open>
  The abstract view of the file system: a partial function from component lists to nodes. The operations
  below are its specification; the lemmas show that the tree updates implement them.
\<close>

type_synonym name_space = "string list \<Rightarrow> node_ref option"

definition names :: "vfs \<Rightarrow> name_space" where
  "names v ps = (case VROOT v of None \<Rightarrow> None | Some root \<Rightarrow> walk v root ps)"

definition ns_prune :: "string list \<Rightarrow> name_space \<Rightarrow> name_space" where
  "ns_prune ps ns = (\<lambda>qs. if prefix ps qs then None else ns qs)"

definition ns_bind :: "string list \<Rightarrow> node_ref \<Rightarrow> name_space \<Rightarrow> name_space" where
  "ns_bind ps r ns = (ns_prune ps ns)(ps \<mapsto> r)"

definition ns_move :: "string list \<Rightarrow> string list \<Rightarrow> name_space \<Rightarrow> name_space" where
  "ns_move old new ns =
     (\<lambda>qs. if prefix new qs then ns (old @ drop (length new) qs) else ns_prune old ns qs)"

definition child :: "vfs \<Rightarrow> node_ref \<Rightarrow> string \<Rightarrow> node_ref option" where
  "child v r a = (case vnodes v ! r of VDir d _ \<Rightarrow> bt_get a d | VFile _ _ \<Rightarrow> None)"

lemma vlookup_names: "vlookup path v = names v (parts path)"
  by (simp add: vlookup_walk names_def)

lemma walk_single: "walk v r [a] = child v r a"
  by (simp add: child_def dir_lookup_def split: vfs_node.split option.split)

lemma names_append: "names v (ps @ qs) = Option.bind (names v ps) (\<lambda>n. walk v n qs)"
  by (simp add: names_def walk_append split: option.split)

lemma names_snoc: "names v (ps @ [a]) = Option.bind (names v ps) (\<lambda>n. child v n a)"
  unfolding names_append walk_single ..

lemma walk_snoc: "walk v n (ps @ [a]) = Option.bind (walk v n ps) (\<lambda>n. child v n a)"
  unfolding walk_append walk_single ..

lemma names_range: "vfs_ok v \<Longrightarrow> names v ps = Some n \<Longrightarrow> n < length (vnodes v)"
  by (auto simp: names_def dest: walk_range vfs_okD(1) split: option.splits)

lemma names_Nil: "names v [] = VROOT v"
  by (simp add: names_def split: option.split)

lemma names_snoc_edge:
  assumes "vfs_ok v" "names v (ps @ [a]) = Some n"
  obtains p where "names v ps = Some p" "edge v p a n"
proof -
  obtain p where p: "names v ps = Some p" "child v p a = Some n"
    using assms(2) by (auto simp: names_snoc Option.bind_eq_Some_conv)
  then have "edge v p a n"
    using names_range [OF assms(1) p(1)] by (simp add: child_def edge_def split: vfs_node.splits)
  then show ?thesis using that p(1) by blast
qed

lemma dir_path_unique:
  assumes ok: "vfs_ok v" and "is_vdir v n"
  shows "names v ps = Some n \<Longrightarrow> names v qs = Some n \<Longrightarrow> ps = qs"
  using assms(2)
proof (induction ps arbitrary: n qs rule: rev_induct)
  case Nil
  then show ?case
    using names_snoc_edge [OF ok] vfs_okD(3) [OF ok]
    by (cases qs rule: rev_cases) (metis names_Nil)+
next
  case (snoc a ps)
  obtain p where p: "names v ps = Some p" "edge v p a n" by (rule names_snoc_edge [OF ok snoc.prems(1)])
  have "qs \<noteq> []" using p(2) snoc.prems(2) vfs_okD(3) [OF ok] by (auto simp: names_Nil)
  then obtain qs' b where qs: "qs = qs' @ [b]" by (cases qs rule: rev_cases) auto
  obtain q where q: "names v qs' = Some q" "edge v q b n"
    by (rule names_snoc_edge [OF ok snoc.prems(2) [unfolded qs]])
  have pq: "p = q" "a = b" using vfs_okD(6,7) [OF ok p(2) q(2) snoc.prems(3)] by simp_all
  have "is_vdir v p" using p(2) by (auto simp: edge_def is_vdir_def split: vfs_node.splits)
  then show ?case using snoc.IH [OF p(1), of qs'] q(1) pq qs by simp
qed

lemma child_set_other: "n \<noteq> P \<Longrightarrow> child (set_node P k v) n a = child v n a"
  by (simp add: child_def)

lemma child_set_dir: "P < length (vnodes v) \<Longrightarrow> child (set_node P (VDir d m) v) P a = bt_get a d"
  by (simp add: child_def)

text \<open>Changing a directory changes the name space below the changed entries and nowhere else.\<close>

lemma names_set_dir:
  assumes ok: "vfs_ok v" and P: "names v pp = Some P" "vnodes v ! P = VDir d m"
  shows "(\<And>a rest. qs = pp @ a # rest \<Longrightarrow> bt_get a d' = bt_get a d) \<Longrightarrow>
    names (set_node P (VDir d' m') v) qs = names v qs"
proof (induction qs rule: rev_induct)
  case (snoc b qs)
  have IH: "names (set_node P (VDir d' m') v) qs = names v qs"
    using snoc.prems by (intro snoc.IH) simp
  have "child (set_node P (VDir d' m') v) n b = child v n b" if "names v qs = Some n" for n
  proof (cases "n = P")
    case True
    have "is_vdir v P" by (simp add: is_vdir_def P(2))
    then have "qs = pp" using dir_path_unique [OF ok _ _ P(1)] that True by blast
    then show ?thesis
      using snoc.prems [of b "[]"] True names_range [OF ok P(1)] by (simp add: child_set_dir child_def P(2))
  qed (simp add: child_set_other)
  then show ?case unfolding names_snoc IH by (cases "names v qs") simp_all
qed (simp add: names_Nil)

lemma names_set_dir_self:
  assumes "vfs_ok v" "names v pp = Some P" "vnodes v ! P = VDir d m"
  shows "names (set_node P (VDir d' m') v) (pp @ x # rest) =
    Option.bind (bt_get x d') (\<lambda>n. walk (set_node P (VDir d' m') v) n rest)"
proof -
  have "names (set_node P (VDir d' m') v) pp = Some P"
    using names_set_dir [OF assms, of pp] assms(2) by simp
  then have "names (set_node P (VDir d' m') v) (pp @ [x]) = bt_get x d'"
    using names_range [OF assms(1,2)] by (simp add: names_snoc child_set_dir)
  then show ?thesis using names_append [of "set_node P (VDir d' m') v" "pp @ [x]" rest] by simp
qed

lemma names_remove:
  assumes "vfs_ok v" "names v pp = Some P" "vnodes v ! P = VDir d m"
  shows "names (set_node P (VDir (bt_remove x d) m') v) = ns_prune (pp @ [x]) (names v)"
proof
  fix qs
  have wf: "bt_wf d" by (rule vfs_okD(4) [OF assms(1) names_range [OF assms(1,2)] assms(3)])
  show "names (set_node P (VDir (bt_remove x d) m') v) qs = ns_prune (pp @ [x]) (names v) qs"
  proof (cases "prefix (pp @ [x]) qs")
    case True
    then obtain rest where "qs = pp @ x # rest" by (auto simp: prefix_def)
    then show ?thesis using True wf by (simp add: names_set_dir_self [OF assms] ns_prune_def)
  next
    case False
    then have "names (set_node P (VDir (bt_remove x d) m') v) qs = names v qs"
      using wf by (intro names_set_dir [OF assms]) (auto simp: prefix_def)
    then show ?thesis using False by (simp add: ns_prune_def)
  qed
qed


lemma walk_child: "walk v r (p # ps) = Option.bind (child v r p) (\<lambda>n. walk v n ps)"
  by (simp add: child_def dir_lookup_def split: vfs_node.split option.split)

lemma child_range: "vfs_ok v \<Longrightarrow> r < length (vnodes v) \<Longrightarrow> child v r a = Some n \<Longrightarrow> n < length (vnodes v)"
  using vfs_okD(5) [of v r a n] by (simp add: child_def edge_def split: vfs_node.splits)

lemma walk_cong_range:
  assumes "vfs_ok v" "\<And>n a. n < length (vnodes v) \<Longrightarrow> child v' n a = child v n a"
  shows "r < length (vnodes v) \<Longrightarrow> walk v' r ps = walk v r ps"
proof (induction ps arbitrary: r)
  case (Cons p ps)
  show ?case
    unfolding walk_child assms(2) [OF Cons.prems]
    using Cons.IH child_range [OF assms(1) Cons.prems, of p] by (cases "child v r p") simp_all
qed simp

lemma names_cong_range:
  assumes "vfs_ok v" "VROOT v' = VROOT v" "\<And>n a. n < length (vnodes v) \<Longrightarrow> child v' n a = child v n a"
  shows "names v' = names v"
proof
  show "names v' ps = names v ps" for ps
    using walk_cong_range [OF assms(1,3)] vfs_okD(1) [OF assms(1)]
    by (simp add: names_def assms(2) split: option.split)
qed

lemma child_set_file:
  "vnodes v ! r = VFile bs m \<Longrightarrow> n < length (vnodes v) \<Longrightarrow> child (set_node r (VFile bs' m') v) n a = child v n a"
  by (auto simp: child_def nth_upd_ite)

lemma names_set_file:
  assumes "vfs_ok v" "vnodes v ! r = VFile bs m"
  shows "names (set_node r (VFile bs' m') v) = names v"
  by (rule names_cong_range [OF assms(1)]) (simp_all add: child_set_file [OF assms(2)] del: set_node_simps(5))

lemma names_append_leaf:
  assumes "vfs_ok v"
  shows "names (v\<lparr>INO_SEQ := i, vnodes := vnodes v @ [n]\<rparr>) = names v"
  by (rule names_cong_range [OF assms]) (simp_all add: child_def nth_append)

text \<open>Binding a leaf: everything else below the name disappears.\<close>

lemma walk_leaf: "leaf (vnodes v ! y) \<Longrightarrow> walk v y rest = (if rest = [] then Some y else None)"
  by (cases rest) (auto simp: leaf_def dir_lookup_def split: vfs_node.splits)

lemma names_bind_leaf:
  assumes "vfs_ok v" "names v pp = Some P" "vnodes v ! P = VDir d m" "leaf (vnodes v ! y)" "y \<noteq> P"
  shows "names (set_node P (VDir (bt_insert x y d) m') v) = ns_bind (pp @ [x]) y (names v)"
proof
  fix qs
  let ?v = "set_node P (VDir (bt_insert x y d) m') v"
  have wf: "bt_wf d" by (rule vfs_okD(4) [OF assms(1) names_range [OF assms(1,2)] assms(3)])
  have lf: "leaf (vnodes ?v ! y)" using assms(4,5) by simp
  show "names ?v qs = ns_bind (pp @ [x]) y (names v) qs"
  proof (cases "prefix (pp @ [x]) qs")
    case True
    then obtain rest where "qs = pp @ x # rest" by (auto simp: prefix_def)
    then show ?thesis
      using wf by (simp add: names_set_dir_self [OF assms(1-3)] walk_leaf [OF lf] ns_bind_def ns_prune_def
          del: set_node_simps(5))
  next
    case False
    then have "names ?v qs = names v qs"
      using wf by (intro names_set_dir [OF assms(1-3)]) (auto simp: prefix_def)
    then show ?thesis using False by (auto simp: ns_bind_def ns_prune_def)
  qed
qed

lemma ns_bind_fresh:
  assumes "vfs_ok v" "names v pp = Some P" "vnodes v ! P = VDir d m" "bt_get x d = None"
  shows "ns_bind (pp @ [x]) y (names v) = (names v)(pp @ [x] \<mapsto> y)"
proof -
  have "names v (pp @ x # rest) = None" for rest
    using names_append [of v "pp @ [x]" rest] assms by (simp add: names_snoc child_def)
  then show ?thesis by (auto simp: ns_bind_def ns_prune_def prefix_def fun_eq_iff)
qed

lemma dir_create_names:
  assumes "vfs_ok v" "names v pp = Some P" "dir_create is_file P x v = (v', Some r)"
  shows "names v' = (names v)(pp @ [x] \<mapsto> r)"
proof -
  obtain d m where d: "vnodes v ! P = VDir d m"
    using assms(3) by (cases "vnodes v ! P") (auto simp: dir_create_def)
  note P = names_range [OF assms(1,2)]
  show ?thesis
  proof (cases "bt_get x d")
    case None
    let ?n = "fresh_leaf is_file (INO_SEQ v)"
    let ?v = "v\<lparr>INO_SEQ := INO_SEQ v + 1, vnodes := vnodes v @ [?n]\<rparr>"
    have ok: "vfs_ok ?v" using vfs_ok_append_leaf [of "v\<lparr>INO_SEQ := INO_SEQ v + 1\<rparr>" ?n] assms(1) by simp
    have nm: "names ?v = names v" by (rule names_append_leaf [OF assms(1)])
    have "names v' = ns_bind (pp @ [x]) r (names ?v)"
      using names_bind_leaf [OF ok, of pp P d m "length (vnodes v)" x m] assms(2,3) d P
      by (auto simp: nm nth_append dir_create_new [OF d None])
    then show ?thesis unfolding nm ns_bind_fresh [OF assms(1,2) d None] .
  next
    case (Some n)
    then have "v' = v" "r = n" using assms(3) by (simp_all add: dir_create_def d)
    then show ?thesis using Some assms(2) by (simp add: names_snoc child_def d fun_upd_idem)
  qed
qed

lemma create_in_names:
  assumes "vfs_ok v" "create_in is_file path v = (v', Some r)"
  shows "names v' = (names v)(parts path \<mapsto> r)"
proof -
  obtain parent name P where p: "split_parent path = Some (parent, name)" "vlookup parent v = Some P"
    "dir_create is_file P name v = (v', Some r)"
    using assms(2) by (auto simp: create_in_def split: option.splits prod.splits)
  show ?thesis
    using dir_create_names [OF assms(1) _ p(3), of "parts parent"] p(2)
    by (simp add: split_parent_parts [OF p(1)] vlookup_names)
qed

lemma remove_entry_names:
  assumes "vfs_ok v" "remove_entry path allow_dir v = (v', 0)"
  shows "names v' = ns_prune (parts path) (names v)"
proof -
  obtain parent name P d m where p: "split_parent path = Some (parent, name)" "vlookup parent v = Some P"
    "vnodes v ! P = VDir d m" "v' = set_node P (VDir (bt_remove name d) m) v"
    using assms(2) by (auto simp: remove_entry_def ENOENT_def EINVAL_def split: option.splits prod.splits vfs_node.splits if_splits)
  show ?thesis
    using names_remove [OF assms(1) _ p(3)] p(2) by (simp add: p(4) split_parent_parts [OF p(1)] vlookup_names)
qed


lemma link_vfs_dest:
  assumes "link_vfs old_path new_path v = Some (v', 0)"
  obtains r bs fm parent name P d m k where
    "vlookup old_path v = Some r" "vnodes v ! r = VFile bs fm" "split_parent new_path = Some (parent, name)"
    "vlookup parent v = Some P" "vnodes v ! P = VDir d m" "add_chk (v_nlink fm) 1 = Some k"
    "v' = set_node r (VFile bs (fm\<lparr>v_nlink := k\<rparr>)) (set_node P (VDir (bt_insert name r d) m) v)"
  using assms that
  by (auto simp: link_vfs_def ENOENT_def EINVAL_def Option.bind_eq_Some_conv split: option.splits vfs_node.splits prod.splits)

lemma link_vfs_names:
  assumes "vfs_ok v" "link_vfs old_path new_path v = Some (v', 0)"
  shows "\<exists>r. vlookup old_path v = Some r \<and> names v' = ns_bind (parts new_path) r (names v)"
proof -
  obtain r bs fm parent name P d m k where p:
    "vlookup old_path v = Some r" "vnodes v ! r = VFile bs fm" "split_parent new_path = Some (parent, name)"
    "vlookup parent v = Some P" "vnodes v ! P = VDir d m"
    "v' = set_node r (VFile bs (fm\<lparr>v_nlink := k\<rparr>)) (set_node P (VDir (bt_insert name r d) m) v)"
    by (rule link_vfs_dest [OF assms(2)])
  let ?v = "set_node P (VDir (bt_insert name r d) m) v"
  have ne: "r \<noteq> P" using p(2,5) by auto
  have "\<not> is_vdir v r" using p(2) by (simp add: is_vdir_def)
  moreover from this have "VROOT v \<noteq> Some r" using vfs_okD(2) [OF assms(1)] by blast
  ultimately have ok: "vfs_ok ?v"
    using vlookup_range [OF p(1) assms(1)] vlookup_range [OF p(4) assms(1)]
    by (intro vfs_ok_dir_insert [OF assms(1) _ p(5)]) auto
  have "names v' = names ?v"
    unfolding p(6) by (rule names_set_file [OF ok]) (use p(2) ne in simp)
  also have "\<dots> = ns_bind (parts new_path) r (names v)"
    using names_bind_leaf [OF assms(1) _ p(5), of "parts parent" r name m] p(2,4) ne
    by (simp add: leaf_def split_parent_parts [OF p(3)] vlookup_names)
  finally show ?thesis using p(1) by blast
qed

text \<open>Moving a node: the two directory updates of \<open>rename\<close>.\<close>

lemma names_move:
  assumes ok: "vfs_ok v" and P: "names v pp = Some P" "vnodes v ! P = VDir d m" "bt_get x d = Some n"
    and v': "v' = set_node P (VDir (bt_remove x d) m) v"
    and Q: "names v qq = Some Q" "vnodes v' ! Q = VDir d' m'"
    and below: "\<not> strict_prefix (pp @ [x]) (qq @ [y])"
  shows "names (set_node Q (VDir (bt_insert y n d') m') v') = ns_move (pp @ [x]) (qq @ [y]) (names v)"
proof
  fix qs
  let ?w = "set_node Q (VDir (bt_insert y n d') m') v'"
  note Pr = names_range [OF ok P(1)] and Qr = names_range [OF ok Q(1)]
  have ok': "vfs_ok v'" unfolding v' by (rule vfs_ok_remove [OF ok Pr P(2)])
  have nm': "names v' = ns_prune (pp @ [x]) (names v)" unfolding v' by (rule names_remove [OF ok P(1,2)])
  have nb: "\<not> prefix (pp @ [x]) qq" using below by (auto simp: strict_prefix_def prefix_def)
  have Q': "names v' qq = Some Q" using nb Q(1) by (simp add: nm' ns_prune_def)
  have wf: "bt_wf d'" using vfs_okD(4) [OF ok' _ Q(2)] Qr by (simp add: v')
  have old: "names v (pp @ x # rest) = walk v n rest" for rest
    using names_append [of v "pp @ [x]" rest] P by (simp add: names_snoc child_def)
  have sub: "walk ?w n rest = walk v n rest" for rest
  proof (induction rest rule: rev_induct)
    case (snoc b rest)
    have "child ?w k b = child v k b" if "walk v n rest = Some k" for k
    proof -
      have k: "names v (pp @ x # rest) = Some k" using old that by simp
      have "k \<noteq> P" using dir_path_unique [OF ok _ k, of pp] P by (auto simp: is_vdir_def)
      moreover have "is_vdir v Q" using Q(2) is_vdir_set_dir [OF Pr P(2), of "bt_remove x d" m Q]
        by (auto simp: is_vdir_def v' split: vfs_node.splits)
      then have "k \<noteq> Q" using dir_path_unique [OF ok _ k, of qq] Q(1) nb by (auto simp: prefix_def)
      ultimately show ?thesis by (simp add: child_def v')
    qed
    then show ?case unfolding walk_snoc snoc.IH by (cases "walk v n rest") simp_all
  qed simp
  show "names ?w qs = ns_move (pp @ [x]) (qq @ [y]) (names v) qs"
  proof (cases "prefix (qq @ [y]) qs")
    case True
    then obtain rest where rest: "qs = qq @ y # rest" by (auto simp: prefix_def)
    have "names ?w qs = walk ?w n rest"
      unfolding rest names_set_dir_self [OF ok' Q' Q(2)] using wf by simp
    then show ?thesis using True rest by (simp add: sub ns_move_def old)
  next
    case False
    then have "names ?w qs = names v' qs"
      using wf by (intro names_set_dir [OF ok' Q' Q(2)]) (auto simp: prefix_def)
    then show ?thesis using False by (simp add: ns_move_def nm')
  qed
qed

lemma rename_names:
  assumes "vfs_ok v" "rename old_path new_path v = (v', 0)"
    and below: "\<not> strict_prefix (parts old_path) (parts new_path)"
  shows "names v' = ns_move (parts old_path) (parts new_path) (names v)"
proof -
  obtain po x pn y P Q where p: "split_parent old_path = Some (po, x)" "split_parent new_path = Some (pn, y)"
    "vlookup po v = Some P" "vlookup pn v = Some Q"
    "(if P = Q then rename_in P x y v else rename_across P x Q y v) = (v', 0)"
    using assms(2) by (auto simp: rename_def ENOENT_def EINVAL_def split: option.splits prod.splits)
  obtain d m n where n: "vnodes v ! P = VDir d m" "bt_get x d = Some n"
    using p(5) by (auto simp: rename_in_def rename_across_def ENOENT_def split: if_splits vfs_node.splits option.splits)
  define v1 where "v1 = set_node P (VDir (bt_remove x d) m) v"
  note Pr = vlookup_range [OF p(3) assms(1)]
  obtain d' m' where q: "vnodes v1 ! Q = VDir d' m'" "v' = set_node Q (VDir (bt_insert y n d') m') v1"
  proof (cases "P = Q")
    case True
    then show ?thesis
      using that [of "bt_remove x d" m] p(5) n Pr by (auto simp: rename_in_def v1_def set_node_def)
  next
    case False
    then show ?thesis
      using that p(5) n
      by (auto simp: rename_across_def Let_def ENOENT_def v1_def [symmetric] simp del: set_node_simps(5) split: vfs_node.splits)
  qed
  show ?thesis
    using names_move [OF assms(1) _ n v1_def _ q(1), of "parts po" "parts pn" y] p(3,4) below
    by (simp add: q(2) split_parent_parts [OF p(1)] split_parent_parts [OF p(2)] vlookup_names)
qed


section \<open>Contents\<close>

definition fcontent :: "vfs \<Rightarrow> node_ref \<Rightarrow> bytes option" where
  "fcontent v r = (case vnodes v ! r of VFile bs _ \<Rightarrow> Some bs | VDir _ _ \<Rightarrow> None)"

definition content :: "vfs \<Rightarrow> string list \<Rightarrow> bytes option" where
  "content v ps = Option.bind (names v ps) (fcontent v)"

lemma read_file_content: "read_file path v = content v (parts path)"
  by (simp add: read_file_def content_def vlookup_names fcontent_def split: option.split vfs_node.split)

lemma is_vdir_fcontent: "is_vdir v r \<longleftrightarrow> fcontent v r = None"
  by (simp add: is_vdir_def fcontent_def split: vfs_node.split)

lemma create_in_None: "create_in is_file path v = (v', None) \<Longrightarrow> v' = v"
  by (auto simp: create_in_def dir_create_def Let_def split: option.splits prod.splits vfs_node.splits if_splits)

lemma create_in_SomeD:
  assumes "create_in is_file path v = (v', Some r)"
  obtains parent name P where "split_parent path = Some (parent, name)" "vlookup parent v = Some P"
    "dir_create is_file P name v = (v', Some r)"
  using assms that by (auto simp: create_in_def split: option.splits prod.splits)

lemma dir_create_fcontent:
  assumes "dir_create is_file P name v = (v', Some r)" "n < length (vnodes v)"
  shows "fcontent v' n = fcontent v n"
proof -
  obtain d m where d: "vnodes v ! P = VDir d m"
    using assms(1) by (cases "vnodes v ! P") (auto simp: dir_create_def)
  show ?thesis
  proof (cases "bt_get name d")
    case None
    then show ?thesis
      using assms d by (auto simp: dir_create_new [OF d None] fcontent_def nth_upd_ite nth_append)
  qed (use assms(1) in \<open>simp add: dir_create_def d\<close>)
qed

lemma dir_create_result:
  assumes "dir_create is_file P name v = (v', Some r)" "child v P name = None" "P < length (vnodes v)"
  shows "fcontent v' r = (if is_file then Some [] else None)"
proof -
  obtain d m where d: "vnodes v ! P = VDir d m"
    using assms(1) by (cases "vnodes v ! P") (auto simp: dir_create_def)
  have None: "bt_get name d = None" using assms(2) by (simp add: child_def d)
  show ?thesis
    using assms by (auto simp: dir_create_new [OF d None] fcontent_def nth_append fresh_leaf_def)
qed

lemma create_in_fcontent:
  "create_in is_file path v = (v', Some r) \<Longrightarrow> n < length (vnodes v) \<Longrightarrow> fcontent v' n = fcontent v n"
  by (auto elim!: create_in_SomeD dest: dir_create_fcontent)

lemma create_in_fresh:
  assumes "vfs_ok v" "create_in is_file path v = (v', Some r)" "vlookup path v = None"
  shows "fcontent v' r = (if is_file then Some [] else None)"
proof -
  obtain parent name P where p: "split_parent path = Some (parent, name)" "vlookup parent v = Some P"
    "dir_create is_file P name v = (v', Some r)"
    by (rule create_in_SomeD [OF assms(2)])
  have "child v P name = None"
    using assms(3) p(2) by (simp add: vlookup_names split_parent_parts [OF p(1)] names_snoc)
  then show ?thesis using dir_create_result [OF p(3)] vlookup_range [OF p(2) assms(1)] by simp
qed

lemma create_in_content:
  assumes "vfs_ok v" "create_in is_file path v = (v', Some r)" "vlookup path v = None"
  shows "content v' = (content v)(parts path := (if is_file then Some [] else None))"
proof
  fix qs
  show "content v' qs = ((content v)(parts path := (if is_file then Some [] else None))) qs"
  proof (cases "names v qs")
    case None
    then show ?thesis using create_in_fresh [OF assms] create_in_names [OF assms(1,2)] by (simp add: content_def)
  next
    case (Some n)
    then have "qs \<noteq> parts path" using assms(3) by (auto simp: vlookup_names)
    then show ?thesis
      using Some create_in_fcontent [OF assms(2)] names_range [OF assms(1) Some] create_in_names [OF assms(1,2)]
      by (simp add: content_def)
  qed
qed

section \<open>Copy-up\<close>

lemma mkdir_content:
  assumes "vfs_ok v" "vlookup path v = None"
  shows "content (fst (mkdir path v)) = content v"
proof (cases "mkdir path v")
  case (Pair v' res)
  show ?thesis
  proof (cases res)
    case None
    then show ?thesis using create_in_None Pair by (auto simp: mkdir_def)
  next
    case (Some r)
    have "content v (parts path) = None" using assms(2) by (simp add: content_def vlookup_names)
    then show ?thesis
      using create_in_content [OF assms(1) _ assms(2), of False v' r] Pair Some by (auto simp: mkdir_def fun_eq_iff)
  qed
qed

lemma mkdir_names_other:
  assumes "vfs_ok v" "qs \<noteq> parts path"
  shows "names (fst (mkdir path v)) qs = names v qs"
  using create_in_names [OF assms(1), of False path] create_in_None [of False path v] assms(2)
  by (cases "mkdir path v"; cases "snd (mkdir path v)") (auto simp: mkdir_def)

lemma ensure_dirs_content: "vfs_ok v \<Longrightarrow> content (ensure_dirs cur ps v) = content v"
  by (induction cur ps v rule: ensure_dirs.induct) (simp_all add: Let_def mkdir_content mkdir_def [symmetric] kernel_inv
      create_in_ok [of _ False, folded mkdir_def])

definition word :: "string \<Rightarrow> bool" where "word w \<longleftrightarrow> w \<noteq> [] \<and> slash \<notin> set w"

lemma split_slash_words: "w \<in> set (split_slash s) \<Longrightarrow> slash \<notin> set w"
  by (induction s arbitrary: w) (auto split: if_splits list.splits)

lemma words_parts: "w \<in> set (parts s) \<Longrightarrow> word w"
  by (auto simp: parts_split word_def dest: split_slash_words)

lemma parts_step: "word p \<Longrightarrow> parts (cur @ ''/'' @ p) = parts cur @ [p]"
  using parts_append [of cur p] by (simp add: parts_split [of p] split_slash_word word_def)

lemma split_parent_step:
  assumes "word p"
  shows "split_parent (cur @ ''/'' @ p) = Some (if cur = [] then ''/'' else cur, p)"
proof -
  have "rev p \<noteq> [] \<and> hd (rev p) \<noteq> slash" using assms by (metis hd_in_set rev_is_Nil_conv set_rev word_def)
  then have "dropWhile (\<lambda>c. c = slash) (rev p @ slash # rev cur) = rev p @ slash # rev cur"
    by (cases "rev p") auto
  then have t: "trim_end (cur @ slash # p) = cur @ slash # p" by (simp add: trim_end_def)
  have "takeWhile (\<lambda>c. c \<noteq> slash) (rev p @ slash # rev cur) = rev p"
    using assms by (subst takeWhile_append2) (auto simp: word_def)
  then show ?thesis using assms unfolding split_parent_def append_Cons append_Nil t by (auto simp: Let_def word_def)
qed

lemma ensure_dirs_names_long:
  "vfs_ok v \<Longrightarrow> (\<And>p. p \<in> set ps \<Longrightarrow> word p) \<Longrightarrow> length (parts cur) + length ps < length qs \<Longrightarrow>
    names (ensure_dirs cur ps v) qs = names v qs"
proof (induction cur ps v rule: ensure_dirs.induct)
  case (2 cur p ps v)
  have w: "word p" using 2(3) by simp
  let ?v = "if vlookup (cur @ ''/'' @ p) v = None then fst (mkdir (cur @ ''/'' @ p) v) else v"
  have ok: "vfs_ok ?v" using 2(2) by (simp add: mkdir_def kernel_inv)
  have "qs \<noteq> parts cur @ [p]" using 2(4) by auto
  then have "names ?v qs = names v qs"
    using mkdir_names_other [OF 2(2), of qs "cur @ ''/'' @ p"] parts_step [OF w, of cur] by auto
  moreover have "names (ensure_dirs (cur @ ''/'' @ p) ps ?v) qs = names ?v qs"
    using 2(3,4) parts_step [OF w, of cur] by (intro 2(1) [OF refl ok]) simp_all
  ultimately show ?case unfolding ensure_dirs.simps Let_def by simp
qed simp


lemma butlast_less: "1 < length xs \<Longrightarrow> length (butlast xs) < length xs"
  by simp

lemma ensure_parent_dirs_frame:
  assumes "vfs_ok v"
  shows "content (ensure_parent_dirs path v) = content v"
    and "names (ensure_parent_dirs path v) (parts path) = names v (parts path)"
proof -
  show "content (ensure_parent_dirs path v) = content v"
    by (simp add: ensure_parent_dirs_def Let_def ensure_dirs_content [OF assms])
  have "word p" if "p \<in> set (butlast (parts path))" for p
    using that words_parts in_set_butlastD by fast
  then show "names (ensure_parent_dirs path v) (parts path) = names v (parts path)"
    using ensure_dirs_names_long [OF assms, of "butlast (parts path)" "[]" "parts path"]
    by (auto simp: ensure_parent_dirs_def Let_def)
qed

lemma create_in_ext4 [simp]: "EXT4 (fst (create_in b q v)) = EXT4 v"
  by (auto simp: create_in_def dir_create_def Let_def new_node_def meta_new_file_def meta_new_dir_def alloc_ino_def
      split: option.split vfs_node.split prod.split)

lemma ensure_dirs_ext4 [simp]: "EXT4 (ensure_dirs cur ps v) = EXT4 v"
  by (induction cur ps v rule: ensure_dirs.induct) (simp_all add: Let_def mkdir_def)

lemma ensure_parent_dirs_ext4 [simp]: "EXT4 (ensure_parent_dirs path v) = EXT4 v"
  by (simp add: ensure_parent_dirs_def Let_def)

lemma open_readonly_content:
  "open_readonly path v = (case content v (parts path) of Some bs \<Rightarrow> Some bs | None \<Rightarrow> ext4_read_file path v)"
  by (simp add: open_readonly_def read_file_content)

lemma ext4_read_file_cong: "EXT4 v' = EXT4 v \<Longrightarrow> ext4_read_file q v' = ext4_read_file q v"
  by (simp add: ext4_read_file_def)

lemma set_data_content:
  assumes "vfs_ok v" "names v ps = Some r" "fcontent v r = Some bs"
    and alone: "\<And>qs. names v qs = Some r \<Longrightarrow> qs = ps"
  shows "content (set_data r data v) = (content v)(ps \<mapsto> data)" "names (set_data r data v) = names v"
proof -
  obtain m where r: "vnodes v ! r = VFile bs m" using assms(3) by (auto simp: fcontent_def split: vfs_node.splits)
  then have eq: "set_data r data v = set_node r (VFile data m) v" by (simp add: set_data_def)
  show nm: "names (set_data r data v) = names v" unfolding eq by (rule names_set_file [OF assms(1) r])
  have fc: "fcontent (set_data r data v) n = (if n = r then Some data else fcontent v n)" for n
    using names_range [OF assms(1,2)] by (simp add: eq fcontent_def)
  show "content (set_data r data v) = (content v)(ps \<mapsto> data)"
  proof
    fix qs
    show "content (set_data r data v) qs = ((content v)(ps \<mapsto> data)) qs"
      using assms(2) alone [of qs] by (cases "names v qs") (auto simp: content_def nm fc)
  qed
qed

lemma copy_up_fresh:
  assumes ok: "vfs_ok v" and None: "vlookup path v = None" and data: "ext4_read_file path v = Some data"
    and c: "create_file path (ensure_parent_dirs path v) = (v1, Some r)"
  shows "content (set_data r data v1) = (content v)(parts path \<mapsto> data)"
    and "vlookup path (set_data r data v1) = Some r" "EXT4 (set_data r data v1) = EXT4 v"
proof -
  let ?v = "ensure_parent_dirs path v"
  note fr = ensure_parent_dirs_frame [OF ok, of path] and ok0 = ensure_parent_dirs_ok [OF ok, of path]
  note c' = c [unfolded create_file_def]
  have N: "vlookup path ?v = None" using None fr(2) by (simp add: vlookup_names)
  have ok1: "vfs_ok v1" using create_in_ok [OF ok0, of True path] c' by simp
  have nm: "names v1 = (names ?v)(parts path \<mapsto> r)" by (rule create_in_names [OF ok0 c'])
  have "r = length (vnodes ?v)"
    using c' N split_parent_parts
    by (elim create_in_SomeD) (auto simp: dir_create_def Let_def new_node_def meta_new_file_def alloc_ino_def vlookup_names
        names_snoc child_def split: vfs_node.splits option.splits)
  then have fresh: "names ?v qs \<noteq> Some r" for qs using names_range [OF ok0, of qs r] by blast
  note sd = set_data_content [OF ok1, of "parts path" r "[]" data]
  have f: "fcontent v1 r = Some []" using create_in_fresh [OF ok0 c' N] by simp
  have al: "qs = parts path" if "names v1 qs = Some r" for qs
    using that fresh by (auto simp: nm split: if_splits)
  show "content (set_data r data v1) = (content v)(parts path \<mapsto> data)"
    using sd(1) [OF _ f al] create_in_content [OF ok0 c' N] fr(1) by (simp add: nm)
  show "vlookup path (set_data r data v1) = Some r"
    using sd(2) [OF _ f al] by (simp add: vlookup_names nm)
  show "EXT4 (set_data r data v1) = EXT4 v"
    using create_in_ext4 [of True path ?v] c' by (simp add: set_data_def split: vfs_node.split)
qed


section \<open>Properties\<close>

inductive vstep :: "vfs \<Rightarrow> vfs \<Rightarrow> bool" where
  "vstep v (vfs_init v)"
| "vstep v (fst (mount_ext4 img v))"
| "vstep v (fst (create_file path v))"
| "vstep v (fst (mkdir path v))"
| "vstep v (fst (write_file path data v))"
| "vstep v (fst (append_file path data v))"
| "vstep v (fst (remove_entry path allow_dir v))"
| "vstep v (fst (rename old_path new_path v))"
| "link_vfs old_path new_path v = Some (v', e) \<Longrightarrow> vstep v v'"
| "vstep v (fst (truncate_vfs path sz v))"
| "vstep v (fst (truncate_node r sz v))"
| "vstep v (fst (chmod_vfs path mode v))"
| "vstep v (fst (chown_vfs path uid gid v))"
| "vstep v (ensure_parent_dirs path v)"
| "vstep v (fst (copy_up path v))"
| "vstep v (fst (open_writable path o_creat v))"

lemma truncate_vfs_ok [kernel_inv]: "vfs_ok v \<Longrightarrow> vfs_ok (fst (truncate_vfs path sz v))"
  by (simp add: truncate_vfs_def kernel_inv split: option.split)

lemma mount_ext4_ok [kernel_inv]: "vfs_ok v \<Longrightarrow> vfs_ok (fst (mount_ext4 img v))"
  by (simp add: mount_ext4_def split: option.split)

lemma vstep_ok: "vstep v v' \<Longrightarrow> vfs_ok v \<Longrightarrow> vfs_ok v'"
  by (induction rule: vstep.induct)
    (auto simp: kernel_inv create_file_def mkdir_def write_file_def append_file_def chmod_vfs_def chown_vfs_def
      dest: link_vfs_ok)

lemma vsteps_ok: "vstep\<^sup>*\<^sup>* v v' \<Longrightarrow> vfs_ok v \<Longrightarrow> vfs_ok v'"
  by (induction rule: rtranclp_induct) (auto dest: vstep_ok)

text \<open>C10: in every state the file system operations reach from boot (directory creation, renames and hard
  links included) the directory entries point to existing nodes, the entries of each directory are sorted
  by name without duplicates, and the directories form a tree: no two different paths lead to the same directory.\<close>

theorem vfs_tree:
  assumes "vstep\<^sup>*\<^sup>* vfs_boot v"
  shows "vfs_ok v \<and> (\<forall>ps qs r. names v ps = Some r \<longrightarrow> names v qs = Some r \<longrightarrow> is_vdir v r \<longrightarrow> ps = qs) \<and>
    (\<forall>path. sorted_wrt (\<lambda>x y. de_name x < de_name y) (list_dir path v))"
proof -
  have ok: "vfs_ok v" using vsteps_ok [OF assms vfs_boot_ok] .
  have srt: "sorted_wrt (\<lambda>x y. de_name x < de_name y) (dir_list v d)" if "bt_wf d" for d
    using that by (auto simp: dir_list_def bt_wf_def sorted_wrt_map comp_def case_prod_beta
        elim!: sorted_wrt_mono_rel [rotated] split: vfs_node.split)
  have "sorted_wrt (\<lambda>x y. de_name x < de_name y) (list_dir path v)" for path
    using srt vfs_okD(4) [OF ok] vlookup_range [OF _ ok, of path]
    by (auto simp: list_dir_def split: option.split vfs_node.split)
  then show ?thesis using ok dir_path_unique [OF ok] by blast
qed

theorem vfs_tree_witness:
  "vfs_ok (vfs_init vfs_boot) \<and> map de_name (list_dir ''/run'' (vfs_init vfs_boot)) = [''lock''] \<and>
   {qs. names (vfs_init vfs_boot) qs = names (vfs_init vfs_boot) [''run'']} = {[''run'']}"
proof -
  have "vstep\<^sup>*\<^sup>* vfs_boot (vfs_init vfs_boot)" using vstep.intros(1) by blast
  note t = vfs_tree [OF this]
  have r: "names (vfs_init vfs_boot) [''run''] = Some 2" by code_simp
  have "is_vdir (vfs_init vfs_boot) 2" by code_simp
  moreover have "map de_name (list_dir ''/run'' (vfs_init vfs_boot)) = [''lock'']" by code_simp
  moreover have "qs = [''run'']" if "names (vfs_init vfs_boot) qs = names (vfs_init vfs_boot) [''run'']" for qs
    using t r calculation(1) that by metis
  ultimately show ?thesis using t by blast
qed



text \<open>C14: a successful write is read back through every name of the file, hard links included, and the
  content of every other file is unchanged.\<close>

theorem write_read:
  assumes "vfs_ok v" "write_file path data v = (v', True)"
  shows "read_file q v' = (if vlookup q v = vlookup path v then Some data else read_file q v)"
proof -
  obtain r bs m where r: "vlookup path v = Some r" "vnodes v ! r = VFile bs m" "v' = set_node r (VFile data m) v"
    using assms(2) by (auto simp: write_file_def update_file_def split: option.splits vfs_node.splits)
  have nm: "vlookup q v' = vlookup q v" by (simp add: vlookup_names r(3) names_set_file [OF assms(1) r(2)] del: set_node_simps(5))
  have "r < length (vnodes v)" using r(1) assms(1) by blast
  then show ?thesis
    unfolding read_file_def nm r(1) unfolding r(3) by (cases "vlookup q v") (auto simp: nth_list_update)
qed

theorem write_read_witness:
  "read_file ''/b'' (fst (write_file ''/tmp/a'' [1, 2]
     (fst (the (link_vfs ''/tmp/a'' ''/b'' (fst (create_file ''/tmp/a'' (vfs_init vfs_boot)))))))) = Some [1, 2]"
proof -
  let ?c = "fst (create_file ''/tmp/a'' (vfs_init vfs_boot))"
  let ?v = "fst (the (link_vfs ''/tmp/a'' ''/b'' ?c))"
  have "vfs_ok ?c" by (simp add: create_file_def create_in_ok vfs_init_ok vfs_boot_ok)
  moreover have "map_option snd (link_vfs ''/tmp/a'' ''/b'' ?c) = Some 0" by code_simp
  ultimately have ok: "vfs_ok ?v" using link_vfs_ok by (cases "link_vfs ''/tmp/a'' ''/b'' ?c") auto
  have w: "write_file ''/tmp/a'' [1, 2] ?v = (fst (write_file ''/tmp/a'' [1, 2] ?v), True)"
    by (rule prod_eqI) (simp, code_simp)
  have "vlookup ''/b'' ?v = vlookup ''/tmp/a'' ?v" by code_simp
  then show ?thesis using write_read [OF ok w, of "''/b''"] by simp
qed

text \<open>C15: copying a file of the read-only image up into tmpfs changes no content: every path read through the
  overlay gives the bytes it gave before, and when the copy succeeds the path names the copy.\<close>

theorem copy_up_transparent:
  assumes "vfs_ok v" "copy_up path v = (v', res)"
  shows "(q = path \<or> parts q \<noteq> parts path \<longrightarrow> open_readonly q v' = open_readonly q v) \<and>
    (\<forall>r. res = Some r \<longrightarrow> vlookup path v' = Some r)"
proof (cases "vlookup path v = None \<and> ext4_read_file path v \<noteq> None")
  case True
  then obtain data where data: "ext4_read_file path v = Some data" by auto
  obtain v1 res1 where c: "create_file path (ensure_parent_dirs path v) = (v1, res1)" by (cases "create_file path (ensure_parent_dirs path v)")
  show ?thesis
  proof (cases res1)
    case None
    then have v': "v' = ensure_parent_dirs path v" "res = None"
      using assms(2) c True data create_in_None by (auto simp: copy_up_def create_file_def)
    show ?thesis
      by (simp add: v' open_readonly_content ensure_parent_dirs_frame [OF assms(1)] ext4_read_file_def split: option.split)
  next
    case (Some r)
    then have v': "v' = set_data r data v1" "res = Some r" using assms(2) c True data by (auto simp: copy_up_def)
    note f = copy_up_fresh [OF assms(1) conjunct1 [OF True] data c [unfolded Some]]
    have "content v (parts path) = None" using True by (simp add: content_def vlookup_names)
    then show ?thesis
      using f(2) data by (auto simp: v' open_readonly_content f(1) ext4_read_file_cong [OF f(3)] split: option.split)
  qed
qed (use assms(2) in \<open>auto simp: copy_up_def split: option.splits\<close>)

theorem copy_up_transparent_witness:
  "open_readonly ''/etc/ssl/c'' (fst (copy_up ''/etc/ssl/c'' (fst (mount_ext4
     (Some \<lparr>e4_read = (\<lambda>p. if p = ''/etc/ssl/c'' then Some [7] else None), e4_list = (\<lambda>p. []),
       e4_exists = (\<lambda>p. p = ''/etc/ssl/c'')\<rparr>) (vfs_init vfs_boot))))) = Some [7]"
proof -
  let ?e = "\<lparr>e4_read = (\<lambda>p. if p = ''/etc/ssl/c'' then Some [7] else None), e4_list = (\<lambda>p. []),
       e4_exists = (\<lambda>p. p = ''/etc/ssl/c'')\<rparr>"
  let ?v = "fst (mount_ext4 (Some ?e) (vfs_init vfs_boot))"
  have ok: "vfs_ok ?v" by (simp add: mount_ext4_def vfs_init_ok vfs_boot_ok)
  have "open_readonly ''/etc/ssl/c'' ?v = Some [7]" by code_simp
  then show ?thesis
    using copy_up_transparent [OF ok, of "''/etc/ssl/c''" "fst (copy_up ''/etc/ssl/c'' ?v)" "snd (copy_up ''/etc/ssl/c'' ?v)"
        "''/etc/ssl/c''"] by simp
qed

text \<open>C38: a rename whose new parent is a regular file fails with \<open>ENOENT\<close> only after the old entry has been
  removed: the moved node and everything below it is lost.\<close>

theorem rename_failure_destroys:
  assumes "vfs_ok v" "split_parent old_path = Some (po, x)" "split_parent new_path = Some (pn, y)"
    and "vlookup old_path v = Some n" "read_file pn v = Some bs"
  shows "\<exists>v'. rename old_path new_path v = (v', ENOENT) \<and> names v' = ns_prune (parts old_path) (names v)"
proof -
  obtain Q m' where Q: "vlookup pn v = Some Q" "vnodes v ! Q = VFile bs m'"
    using assms(5) by (auto simp: read_file_def split: option.splits vfs_node.splits)
  obtain P where P: "vlookup po v = Some P" "child v P x = Some n"
    using assms(4) by (auto simp: vlookup_names split_parent_parts [OF assms(2)] names_snoc Option.bind_eq_Some_conv)
  obtain d m where d: "vnodes v ! P = VDir d m" "bt_get x d = Some n"
    using P(2) by (auto simp: child_def split: vfs_node.splits)
  have ne: "P \<noteq> Q" using Q(2) d(1) by auto
  let ?v = "set_node P (VDir (bt_remove x d) m) v"
  have "rename old_path new_path v = (?v, ENOENT)"
    using ne Q d by (simp add: rename_def assms(2,3) P(1) rename_across_def Let_def)
  moreover have "names ?v = ns_prune (parts old_path) (names v)"
    using names_remove [OF assms(1) _ d(1)] P(1) by (simp add: split_parent_parts [OF assms(2)] vlookup_names)
  ultimately show ?thesis by blast
qed

theorem rename_failure_destroys_witness:
  "\<exists>v'. rename ''/usr/bin'' ''/f/x'' (fst (create_file ''/f'' (vfs_init vfs_boot))) = (v', ENOENT) \<and>
     names v' = ns_prune [''usr'', ''bin''] (names (fst (create_file ''/f'' (vfs_init vfs_boot))))"
proof -
  let ?v = "fst (create_file ''/f'' (vfs_init vfs_boot))"
  have ok: "vfs_ok ?v" by (simp add: create_file_def create_in_ok vfs_init_ok vfs_boot_ok)
  have s: "split_parent ''/usr/bin'' = Some (''/usr'', ''bin'')" "split_parent ''/f/x'' = Some (''/f'', ''x'')"
    "parts ''/usr/bin'' = [''usr'', ''bin'']"
    by code_simp+
  have "vlookup ''/usr/bin'' ?v = Some 14" "read_file ''/f'' ?v = Some []" by code_simp+
  from rename_failure_destroys [OF ok s(1,2) this] show ?thesis unfolding s(3) .
qed

end
