(* ===== verification/Devfs.thy ===== *)
theory Devfs
  imports Vfs
begin

text \<open>
  The two synthetic file systems, \<open>/dev\<close> (the path functions of \<open>syscall/dev.rs\<close>) and \<open>/proc\<close>
  (\<open>vfs/procfs.rs\<close>), and the queries of \<open>vfs/mod.rs\<close> that combine them with tmpfs and the ext4 image.
  The process identifier and the number of cores that two \<open>/proc\<close> files show are arguments.
\<close>

definition starts_with :: "string \<Rightarrow> string \<Rightarrow> bool" where
  "starts_with p s \<longleftrightarrow> take (length p) s = p"

definition ends_with :: "string \<Rightarrow> string \<Rightarrow> bool" where
  "ends_with p s \<longleftrightarrow> starts_with (rev p) (rev s)"

definition as_bytes :: "string \<Rightarrow> bytes" where "as_bytes s = map of_char s"

section \<open>Devices\<close>

datatype dev_kind = DNull | DZero | DFull | DRandom | DTty | DPts u32 | DStdin | DStdout | DStderr

definition digit :: "char \<Rightarrow> nat option" where
  "digit c = (let n = of_char c in if 48 \<le> n \<and> n \<le> 57 then Some (n - 48) else None)"

fun digits :: "nat \<Rightarrow> string \<Rightarrow> nat option" where
  "digits acc [] = Some acc"
| "digits acc (c # cs) = (case digit c of None \<Rightarrow> None | Some d \<Rightarrow> digits (10 * acc + d) cs)"

text \<open>\<open>str::parse::<u32>()\<close>: an optional plus sign and at least one digit, in range.\<close>

definition parse_u32 :: "string \<Rightarrow> u32 option" where
  "parse_u32 s =
     (let t = (case s of c # cs \<Rightarrow> if c = CHR ''+'' then cs else s | [] \<Rightarrow> s) in
      if t = [] then None
      else case digits 0 t of None \<Rightarrow> None | Some n \<Rightarrow> if n < 2 ^ 32 then Some (of_nat n) else None)"

definition is_dev :: "string \<Rightarrow> bool" where
  "is_dev path \<longleftrightarrow> path = ''/dev'' \<or> starts_with ''/dev/'' path"

definition kind_of :: "string \<Rightarrow> dev_kind option" where
  "kind_of path =
     (if path = ''/dev/null'' then Some DNull
      else if path = ''/dev/zero'' then Some DZero
      else if path = ''/dev/full'' then Some DFull
      else if path = ''/dev/random'' then Some DRandom
      else if path = ''/dev/urandom'' then Some DRandom
      else if path = ''/dev/tty'' then Some DTty
      else if path = ''/dev/console'' then Some DTty
      else if path = ''/dev/stdin'' then Some DStdin
      else if path = ''/dev/stdout'' then Some DStdout
      else if path = ''/dev/stderr'' then Some DStderr
      else if starts_with ''/dev/pts/'' path then
        Some (DPts (case parse_u32 (drop 9 path) of Some n \<Rightarrow> n | None \<Rightarrow> 0))
      else None)"

definition dev_is_dir :: "string \<Rightarrow> bool" where
  "dev_is_dir path \<longleftrightarrow> path = ''/dev'' \<or> path = ''/dev/pts''"

definition dev_exists :: "string \<Rightarrow> bool" where
  "dev_exists path \<longleftrightarrow> dev_is_dir path \<or> kind_of path \<noteq> None"

definition dev_list :: "string \<Rightarrow> (string \<times> bool) list" where
  "dev_list path =
     (if path = ''/dev'' then
        [(''null'', False), (''zero'', False), (''full'', False), (''random'', False), (''urandom'', False),
         (''tty'', False), (''console'', False), (''stdin'', False), (''stdout'', False), (''stderr'', False),
         (''pts'', True)]
      else if path = ''/dev/pts'' then [(''0'', False)]
      else [])"

definition dev_stat :: "string \<Rightarrow> (u32 \<times> int) option" where
  "dev_stat path = (if dev_is_dir path then Some (0x41ED, 0) else map_option (\<lambda>_. (0x21B6, 0)) (kind_of path))"

section \<open>\<open>/proc\<close>\<close>

abbreviation nl :: string where "nl \<equiv> [CHR 0x0A]"
abbreviation tab :: string where "tab \<equiv> [CHR 0x09]"
abbreviation nul :: string where "nul \<equiv> [CHR 0x00]"

fun decimal :: "nat \<Rightarrow> string" where
  "decimal n = (if n < 10 then [char_of (48 + n)] else decimal (n div 10) @ [char_of (48 + n mod 10)])"

declare decimal.simps [simp del]

definition is_proc :: "string \<Rightarrow> bool" where
  "is_proc path \<longleftrightarrow> path = ''/proc'' \<or> starts_with ''/proc/'' path"

definition proc_read :: "u64 \<Rightarrow> nat \<Rightarrow> string \<Rightarrow> bytes option" where
  "proc_read pid cpus path = map_option as_bytes
     (if path = ''/proc/version'' then
        Some (''Linux version 5.15.0-mukernel (MuKernel) (gcc 12.2.0) #1 SMP MuKernel 2026'' @ nl)
      else if path = ''/proc/meminfo'' then
        Some (''MemTotal:       '' @ decimal (512 * 1024) @ '' kB'' @ nl @
              ''MemFree:        '' @ decimal (256 * 1024) @ '' kB'' @ nl @
              ''MemAvailable:   '' @ decimal (256 * 1024) @ '' kB'' @ nl @
              ''Buffers:        0 kB'' @ nl @ ''Cached:         0 kB'' @ nl @
              ''SwapTotal:      0 kB'' @ nl @ ''SwapFree:       0 kB'' @ nl)
      else if path = ''/proc/filesystems'' then Some (''nodev'' @ tab @ ''tmpfs'' @ nl @ tab @ ''ext4'' @ nl)
      else if path = ''/proc/mounts'' \<or> path = ''/proc/self/mounts'' then
        Some (''tmpfs / tmpfs rw,relatime 0 0'' @ nl @ ''ext4 /ext4 ext4 ro,relatime 0 0'' @ nl)
      else if path = ''/proc/self/exe'' then Some (''/usr/bin/sh'' @ nul)
      else if path = ''/proc/self/cmdline'' then Some (''sh'' @ nul)
      else if path = ''/proc/self/environ'' then Some (''PATH=/usr/bin:/bin'' @ nul @ ''HOME=/root'' @ nul @ nul)
      else if path = ''/proc/self/status'' then
        Some (''Name:'' @ tab @ ''sh'' @ nl @ ''State:'' @ tab @ ''R (running)'' @ nl @
              ''Pid:'' @ tab @ decimal (unat pid) @ nl @ ''PPid:'' @ tab @ ''0'' @ nl @
              ''VmRSS:'' @ tab @ ''4096 kB'' @ nl @ ''Threads:'' @ tab @ ''1'' @ nl)
      else if path = ''/proc/self/maps'' then Some []
      else if path = ''/proc/self/fd'' then Some []
      else if path = ''/proc/sys/kernel/hostname'' then Some (''mukernel'' @ nl)
      else if path = ''/proc/sys/kernel/ostype'' then Some (''Linux'' @ nl)
      else if path = ''/proc/sys/kernel/osrelease'' then Some (''5.15.0-mukernel'' @ nl)
      else if path = ''/proc/cpuinfo'' then
        Some (''processor'' @ tab @ '': 0'' @ nl @ ''vendor_id'' @ tab @ '': MuKernel'' @ nl @
              ''cpu family'' @ tab @ '': 6'' @ nl @ ''model name'' @ tab @ '': MuKernel x86_64 vCPU'' @ nl @
              ''cpu cores'' @ tab @ '': '' @ decimal cpus @ nl @ ''cache size'' @ tab @ '': 4096 KB'' @ nl @ nl)
      else None)"

definition proc_dirs :: "string list" where
  "proc_dirs = [''/proc'', ''/proc/self'', ''/proc/self/fd'', ''/proc/sys'', ''/proc/sys/kernel'']"

definition proc_exists :: "string \<Rightarrow> bool" where
  "proc_exists path \<longleftrightarrow> path \<in> set proc_dirs \<or> proc_read 0 0 path \<noteq> None"

definition proc_list :: "string \<Rightarrow> (string \<times> bool) list" where
  "proc_list path =
     (if path = ''/proc'' then
        [(''version'', False), (''meminfo'', False), (''filesystems'', False), (''mounts'', False), (''cpuinfo'', False),
         (''self'', True), (''sys'', True)]
      else if path = ''/proc/self'' then
        [(''exe'', False), (''cmdline'', False), (''environ'', False), (''status'', False), (''maps'', False),
         (''fd'', True), (''mounts'', False)]
      else if path = ''/proc/sys'' then [(''kernel'', True)]
      else if path = ''/proc/sys/kernel'' then [(''hostname'', False), (''ostype'', False), (''osrelease'', False)]
      else [])"

definition proc_readlink :: "string \<Rightarrow> bytes option" where
  "proc_readlink path = (if path = ''/proc/self/exe'' then Some (as_bytes ''/usr/bin/sh'') else None)"

section \<open>Combined queries\<close>

definition vfs_is_dir :: "string \<Rightarrow> vfs \<Rightarrow> bool" where
  "vfs_is_dir path v =
     (if path = ''/'' then True
      else if is_dev path then dev_is_dir path
      else case vlookup path v of
          Some r \<Rightarrow> (case vnodes v ! r of VDir _ _ \<Rightarrow> True | VFile _ _ \<Rightarrow> False)
        | None \<Rightarrow> ext4_list_dir path v \<noteq> [])"

definition exists_any :: "string \<Rightarrow> vfs \<Rightarrow> bool" where
  "exists_any path v =
     (if path = ''/'' then True
      else if is_proc path then proc_exists path
      else if is_dev path then dev_exists path
      else vlookup path v \<noteq> None \<or> ext4_read_file path v \<noteq> None \<or> ext4_list_dir path v \<noteq> [])"

definition stat_any :: "u64 \<Rightarrow> nat \<Rightarrow> string \<Rightarrow> vfs \<Rightarrow> stat_info option" where
  "stat_any pid cpus path v =
     (if path = ''/'' then Some (1, 0x41ED, 0, 0, 2, 0)
      else if is_dev path then map_option (\<lambda>(mode, sz). (0, mode, 0, 0, 1, nat sz)) (dev_stat path)
      else if is_proc path \<and> proc_exists path then
        let dir = path \<in> set proc_dirs;
            sz = (if dir then 0 else case proc_read pid cpus path of Some bs \<Rightarrow> length bs | None \<Rightarrow> 0)
        in Some (0, if dir then 0x416D else 0x8124, 0, 0, 1, sz)
      else case stat_path path v of
          Some s \<Rightarrow> Some s
        | None \<Rightarrow>
            (case ext4_read_file path v of
               Some bs \<Rightarrow> Some (0, 0x81A4, 0, 0, 1, length bs)
             | None \<Rightarrow> if ext4_list_dir path v \<noteq> [] then Some (0, 0x41ED, 0, 0, 2, 0) else None))"

text \<open>Every name that a listing of \<open>/dev\<close> or \<open>/proc\<close> shows can be opened.\<close>

lemma proc_read_exists: "proc_read pid cpus path \<noteq> None \<longleftrightarrow> proc_read 0 0 path \<noteq> None"
  by (simp add: proc_read_def)

lemma listed_names_exist:
  "(\<forall>d \<in> {''/dev'', ''/dev/pts''}. \<forall>e \<in> set (dev_list d). dev_exists (d @ ''/'' @ fst e)) \<and>
   (\<forall>d \<in> set proc_dirs. \<forall>e \<in> set (proc_list d). proc_exists (d @ ''/'' @ fst e))"
  by (simp add: dev_list_def proc_list_def proc_dirs_def dev_exists_def dev_is_dir_def kind_of_def starts_with_def
      proc_exists_def proc_read_def)

lemma stat_any_exists:
  assumes "\<not> (is_proc path \<and> \<not> proc_exists path)"
  shows "stat_any pid cpus path v = None \<longleftrightarrow> \<not> exists_any path v"
proof -
  have "\<not> (is_dev path \<and> is_proc path)" by (cases path rule: list.exhaust; cases "tl path") (auto simp: is_dev_def is_proc_def starts_with_def)
  then show ?thesis
    using assms
    by (auto simp: stat_any_def exists_any_def dev_stat_def dev_exists_def stat_path_def Let_def simp del: split_paired_Ex split: option.splits)
qed

end
