(* ===== verification/Fd.thy ===== *)
theory Fd
  imports Devfs Handle_Table Pipe
begin

text \<open>
  File descriptors (\<open>syscall/fd.rs\<close>), device files (\<open>syscall/dev.rs\<close>) and the descriptor system calls of
  \<open>syscall/mod.rs\<close>.

  \<^item> The descriptor table is a handle table whose resources are open files, directories and devices. A
    resource is shared only with the table, so its position is updated in the table entry.
  \<^item> The table is created on first use, empty; here it exists from the start.
  \<^item> User memory is the byte memory of the current address space (theory \<open>Umem\<close>). \<open>console\<close> holds the bytes
    sent to the serial line and the terminal, \<open>keys\<close> the bytes \<open>read_key_blocking\<close> will deliver.
  \<^item> \<open>None\<close> is a panic (arithmetic overflow); \<open>Waits\<close> is a call that is still waiting for input. Allocation
    is taken to succeed.
\<close>

section \<open>Open files\<close>

record file_resource =
  fr_path :: string
  fr_node :: "node_ref option"
  fr_data :: bytes
  fr_pos :: u64
  fr_write :: bool

datatype resource = FileRes file_resource | DirRes string | DevRes dev_kind string

definition new_readonly :: "string \<Rightarrow> bytes \<Rightarrow> file_resource" where
  "new_readonly path data = \<lparr>fr_path = path, fr_node = None, fr_data = data, fr_pos = 0, fr_write = False\<rparr>"

definition new_live :: "string \<Rightarrow> node_ref \<Rightarrow> file_resource" where
  "new_live path r = \<lparr>fr_path = path, fr_node = Some r, fr_data = [], fr_pos = 0, fr_write = True\<rparr>"

text \<open>The bytes a read sees: the live node's, or the cached copy; a live directory has none.\<close>

definition file_data :: "vfs \<Rightarrow> file_resource \<Rightarrow> bytes option" where
  "file_data v f =
     (case fr_node f of
        Some r \<Rightarrow> (case vnodes v ! r of VFile bs _ \<Rightarrow> Some bs | VDir _ _ \<Rightarrow> None)
      | None \<Rightarrow> Some (fr_data f))"

definition file_read :: "vfs \<Rightarrow> u64 \<Rightarrow> file_resource \<Rightarrow> file_resource \<times> bytes" where
  "file_read v cnt f =
     (case file_data v f of
        None \<Rightarrow> (f, [])
      | Some bs \<Rightarrow>
          let pos = unat (fr_pos f);
              n = min (unat cnt) (length bs - pos)
          in (f\<lparr>fr_pos := fr_pos f + of_nat n\<rparr>, take n (drop pos bs)))"

definition file_pread :: "vfs \<Rightarrow> u64 \<Rightarrow> u64 \<Rightarrow> file_resource \<Rightarrow> bytes" where
  "file_pread v cnt offset f =
     (case file_data v f of None \<Rightarrow> [] | Some bs \<Rightarrow> take (min (unat cnt) (length bs - unat offset)) (drop (unat offset) bs))"

definition file_write_at ::
  "bytes \<Rightarrow> u64 \<Rightarrow> vfs \<Rightarrow> file_resource \<Rightarrow> (vfs \<times> file_resource \<times> int) option" where
  "file_write_at buf cnt v f =
     (if \<not> fr_write f then Some (v, f, EBADF)
      else case fr_node f of
          None \<Rightarrow> Some (v, f, EBADF)
        | Some r \<Rightarrow>
            (case vnodes v ! r of
               VDir _ _ \<Rightarrow> Some (v, f, EBADF)
             | VFile bs m \<Rightarrow> do {
                 let pos = unat (fr_pos f);
                 new_len \<leftarrow> add_chk (fr_pos f) cnt;
                 let bs = (if length bs < unat new_len then resize (unat new_len) bs else bs);
                 let bs = take pos bs @ buf @ drop (pos + unat cnt) bs;
                 Some (set_node r (VFile bs m) v, f\<lparr>fr_pos := fr_pos f + cnt\<rparr>, sint cnt)
               }))"

definition file_size :: "vfs \<Rightarrow> file_resource \<Rightarrow> nat" where
  "file_size v f = (case file_data v f of Some bs \<Rightarrow> length bs | None \<Rightarrow> 0)"

definition i64_add :: "int \<Rightarrow> int \<Rightarrow> int option" where
  "i64_add a b = (if - (2 ^ 63) \<le> a + b \<and> a + b < 2 ^ 63 then Some (a + b) else None)"

definition file_seek :: "vfs \<Rightarrow> int \<Rightarrow> u64 \<Rightarrow> file_resource \<Rightarrow> (file_resource \<times> int) option" where
  "file_seek v offset whence f =
     (let len = int (file_size v f); cur = sint (fr_pos f);
          place = (\<lambda>new_pos. if new_pos < 0 then (f, EINVAL) else (f\<lparr>fr_pos := of_int new_pos\<rparr>, new_pos))
      in if whence = 0 then Some (place offset)
         else if whence = 1 then map_option place (i64_add cur offset)
         else if whence = 2 then map_option place (i64_add len offset)
         else Some (f, EINVAL))"

definition file_truncate :: "nat \<Rightarrow> vfs \<Rightarrow> file_resource \<Rightarrow> vfs \<times> int" where
  "file_truncate sz v f = (case fr_node f of Some r \<Rightarrow> truncate_node r sz v | None \<Rightarrow> (v, EINVAL))"

section \<open>The descriptor table\<close>

record fsys =
  fs_vfs :: vfs
  FD_TABLE :: "resource handle_table"
  fs_mem :: umem
  RNG :: u64
  console :: bytes
  keys :: bytes
  fs_pipe :: pipe_state
  SIG_PENDING :: u64

definition as_file :: "resource \<Rightarrow> file_resource option" where
  "as_file r = (case r of FileRes f \<Rightarrow> Some f | _ \<Rightarrow> None)"

definition as_dir :: "resource \<Rightarrow> string option" where
  "as_dir r = (case r of DirRes p \<Rightarrow> Some p | _ \<Rightarrow> None)"

definition as_dev :: "resource \<Rightarrow> dev_kind option" where
  "as_dev r = (case r of DevRes k _ \<Rightarrow> Some k | _ \<Rightarrow> None)"

definition fd_file :: "u32 \<Rightarrow> rights \<Rightarrow> fsys \<Rightarrow> file_resource option" where
  "fd_file fd need s = ht_get as_file fd need (FD_TABLE s)"

definition put_file :: "u32 \<Rightarrow> file_resource \<Rightarrow> fsys \<Rightarrow> fsys" where
  "put_file fd f s =
     (case bt_get fd (ht_table (FD_TABLE s)) of
        None \<Rightarrow> s
      | Some c \<Rightarrow> s\<lparr>FD_TABLE := (FD_TABLE s)\<lparr>ht_table := bt_insert fd (c\<lparr>cap_object := FileRes f\<rparr>) (ht_table (FD_TABLE s))\<rparr>\<rparr>)"

definition fd_init :: "fsys \<Rightarrow> fsys" where "fd_init s = s\<lparr>FD_TABLE := ht_new\<rparr>"

definition fd_insert :: "resource \<Rightarrow> rights \<Rightarrow> fsys \<Rightarrow> (fsys \<times> u32) option" where
  "fd_insert r rights s = do {
     (t, h) \<leftarrow> ht_insert \<lparr>cap_object = r, cap_rights = rights\<rparr> (FD_TABLE s);
     Some (s\<lparr>FD_TABLE := t\<rparr>, h_id h)
   }"

definition open_file_writable :: "string \<Rightarrow> node_ref \<Rightarrow> fsys \<Rightarrow> (fsys \<times> u32) option" where
  "open_file_writable path r = fd_insert (FileRes (new_live path r)) (R_READ OR R_WRITE)"

definition fill_empty :: "node_ref \<Rightarrow> bytes \<Rightarrow> vfs \<Rightarrow> vfs" where
  "fill_empty r data v =
     (case vnodes v ! r of VFile bs m \<Rightarrow> if bs = [] then set_node r (VFile data m) v else v | VDir _ _ \<Rightarrow> v)"

definition open_file :: "string \<Rightarrow> bytes \<Rightarrow> bool \<Rightarrow> fsys \<Rightarrow> (fsys \<times> u32) option" where
  "open_file path data writable s =
     (let (v, nr) = (if writable then
             (case vlookup path (fs_vfs s) of Some r \<Rightarrow> (fs_vfs s, Some r) | None \<Rightarrow> create_file path (fs_vfs s))
           else (fs_vfs s, None))
      in case nr of
          Some r \<Rightarrow> open_file_writable path r (s\<lparr>fs_vfs := if data = [] then v else fill_empty r data v\<rparr>)
        | None \<Rightarrow> fd_insert (FileRes (new_readonly path data)) R_READ (s\<lparr>fs_vfs := v\<rparr>))"

definition open_dir :: "string \<Rightarrow> fsys \<Rightarrow> (fsys \<times> u32) option" where
  "open_dir path = fd_insert (DirRes path) R_READ"

definition fd_read :: "u32 \<Rightarrow> u64 \<Rightarrow> u64 \<Rightarrow> fsys \<Rightarrow> fsys \<times> int" where
  "fd_read fd buf cnt s =
     (case fd_file fd R_READ s of
        None \<Rightarrow> (s, EBADF)
      | Some f \<Rightarrow> let (f, bs) = file_read (fs_vfs s) cnt f
                  in (put_file fd f (s\<lparr>fs_mem := poke buf bs (fs_mem s)\<rparr>), int (length bs)))"

definition fd_pread :: "u32 \<Rightarrow> u64 \<Rightarrow> u64 \<Rightarrow> u64 \<Rightarrow> fsys \<Rightarrow> fsys \<times> int" where
  "fd_pread fd buf cnt offset s =
     (case fd_file fd R_READ s of
        None \<Rightarrow> (s, EBADF)
      | Some f \<Rightarrow> let bs = file_pread (fs_vfs s) cnt offset f
                  in (s\<lparr>fs_mem := poke buf bs (fs_mem s)\<rparr>, int (length bs)))"

definition write_fd :: "u32 \<Rightarrow> u64 \<Rightarrow> u64 \<Rightarrow> fsys \<Rightarrow> (fsys \<times> int) option" where
  "write_fd fd buf cnt s =
     (case fd_file fd R_WRITE s of
        None \<Rightarrow> Some (s, EBADF)
      | Some f \<Rightarrow> do {
          (v, f, n) \<leftarrow> file_write_at (peek (fs_mem s) buf (unat cnt)) cnt (fs_vfs s) f;
          Some (put_file fd f (s\<lparr>fs_vfs := v\<rparr>), n)
        })"

definition truncate_fd :: "u32 \<Rightarrow> nat \<Rightarrow> fsys \<Rightarrow> fsys \<times> int" where
  "truncate_fd fd sz s =
     (case fd_file fd R_WRITE s of
        None \<Rightarrow> (s, EINVAL)
      | Some f \<Rightarrow> let (v, n) = file_truncate sz (fs_vfs s) f in (s\<lparr>fs_vfs := v\<rparr>, n))"

definition fd_seek :: "u32 \<Rightarrow> int \<Rightarrow> u64 \<Rightarrow> fsys \<Rightarrow> (fsys \<times> int) option" where
  "fd_seek fd offset whence s =
     (case fd_file fd R_NONE s of
        None \<Rightarrow> Some (s, EBADF)
      | Some f \<Rightarrow> map_option (\<lambda>(f, n). (put_file fd f s, n)) (file_seek (fs_vfs s) offset whence f))"

definition fd_close :: "u32 \<Rightarrow> fsys \<Rightarrow> fsys \<times> bool" where
  "fd_close fd s = (let (t, ok) = ht_close fd (FD_TABLE s) in (s\<lparr>FD_TABLE := t\<rparr>, ok))"

definition dir_path :: "u32 \<Rightarrow> fsys \<Rightarrow> string option" where
  "dir_path fd s = ht_get as_dir fd R_NONE (FD_TABLE s)"

definition file_path :: "u32 \<Rightarrow> fsys \<Rightarrow> string option" where
  "file_path fd s = map_option fr_path (fd_file fd R_NONE s)"

definition fd_fstat :: "u32 \<Rightarrow> fsys \<Rightarrow> (nat \<times> bool) option" where
  "fd_fstat fd s =
     (case fd_file fd R_NONE s of
        Some f \<Rightarrow> Some (file_size (fs_vfs s) f, False)
      | None \<Rightarrow> if dir_path fd s \<noteq> None then Some (0, True) else None)"

definition fd_is_open :: "u32 \<Rightarrow> fsys \<Rightarrow> bool" where
  "fd_is_open fd s \<longleftrightarrow> fd_file fd R_NONE s \<noteq> None \<or> dir_path fd s \<noteq> None"

section \<open>Devices\<close>

datatype 'a wait = Now 'a | Waits

definition rand_u64 :: "u64 \<Rightarrow> u64" where
  "rand_u64 x =
     (let x = x XOR push_bit 13 x; x = x XOR drop_bit 7 x in x XOR push_bit 17 x)"

text \<open>\<open>fill_random\<close>: eight bytes of each state, the last one cut short.\<close>

fun random_bytes :: "nat \<Rightarrow> u64 \<Rightarrow> u64 \<times> bytes" where
  "random_bytes n x =
     (if n = 0 then (x, [])
      else let x = rand_u64 x; (y, bs) = random_bytes (n - 8) x in (y, take n (to_le_bytes x) @ bs))"

declare random_bytes.simps [simp del]

definition dev_open :: "string \<Rightarrow> fsys \<Rightarrow> (fsys \<times> u32 option) option" where
  "dev_open path s =
     (case kind_of path of
        None \<Rightarrow> Some (s, None)
      | Some k \<Rightarrow> do { (s, fd) \<leftarrow> fd_insert (DevRes k path) (R_READ OR R_WRITE) s; Some (s, Some fd) })"

definition kind_of_fd :: "u32 \<Rightarrow> fsys \<Rightarrow> dev_kind option" where
  "kind_of_fd fd s = ht_get as_dev fd R_NONE (FD_TABLE s)"

definition is_dev_fd :: "u32 \<Rightarrow> fsys \<Rightarrow> bool" where
  "is_dev_fd fd s \<longleftrightarrow> kind_of_fd fd s \<noteq> None"

definition read_key :: "fsys \<Rightarrow> (fsys \<times> u8) wait" where
  "read_key s = (case keys s of [] \<Rightarrow> Waits | k # ks \<Rightarrow> Now (s\<lparr>keys := ks\<rparr>, k))"

definition dev_read :: "u32 \<Rightarrow> u64 \<Rightarrow> u64 \<Rightarrow> fsys \<Rightarrow> (fsys \<times> int) wait" where
  "dev_read fd buf cnt s =
     (case kind_of_fd fd s of
        None \<Rightarrow> Now (s, EBADF)
      | Some k \<Rightarrow>
          if cnt = 0 then Now (s, 0)
          else (case k of
              DNull \<Rightarrow> Now (s, 0)
            | DFull \<Rightarrow> Now (s, 0)
            | DZero \<Rightarrow> Now (s\<lparr>fs_mem := poke buf (replicate (unat cnt) 0) (fs_mem s)\<rparr>, sint cnt)
            | DRandom \<Rightarrow>
                let (x, bs) = random_bytes (unat cnt) (RNG s)
                in Now (s\<lparr>RNG := x, fs_mem := poke buf bs (fs_mem s)\<rparr>, sint cnt)
            | DStdout \<Rightarrow> Now (s, EBADF)
            | DStderr \<Rightarrow> Now (s, EBADF)
            | _ \<Rightarrow> (case read_key s of
                Waits \<Rightarrow> Waits
              | Now (s, b) \<Rightarrow> Now (s\<lparr>fs_mem := poke buf [b] (fs_mem s)\<rparr>, 1))))"

definition put_console :: "bytes \<Rightarrow> fsys \<Rightarrow> fsys" where
  "put_console bs s = s\<lparr>console := console s @ bs\<rparr>"

definition dev_write :: "u32 \<Rightarrow> u64 \<Rightarrow> u64 \<Rightarrow> fsys \<Rightarrow> fsys \<times> int" where
  "dev_write fd buf cnt s =
     (case kind_of_fd fd s of
        None \<Rightarrow> (s, EBADF)
      | Some k \<Rightarrow>
          if cnt = 0 then (s, 0)
          else (case k of
              DNull \<Rightarrow> (s, sint cnt)
            | DZero \<Rightarrow> (s, sint cnt)
            | DRandom \<Rightarrow> (s, sint cnt)
            | DFull \<Rightarrow> (s, - 28)
            | DStdin \<Rightarrow> (s, EBADF)
            | _ \<Rightarrow> (put_console (peek (fs_mem s) buf (unat cnt)) s, sint cnt)))"

section \<open>Status structures\<close>

definition stat_bytes :: "u64 \<Rightarrow> u64 \<Rightarrow> u32 \<Rightarrow> u32 \<Rightarrow> u32 \<Rightarrow> nat \<Rightarrow> bytes" where
  "stat_bytes ino nlink mode uid gid sz =
     to_le_bytes 1 @ to_le_bytes ino @ to_le_bytes nlink @ le4 mode @ le4 uid @ le4 gid @ le4 0 @ to_le_bytes 0 @
     to_le_bytes (of_nat sz) @ to_le_bytes 4096 @ to_le_bytes (of_nat ((sz + 511) div 512)) @ replicate 72 0"

definition fill_stat :: "u64 \<Rightarrow> nat \<Rightarrow> bool \<Rightarrow> umem \<Rightarrow> umem" where
  "fill_stat p sz is_dir = poke p (stat_bytes 1 1 (if is_dir then 0x4000 OR 0x1ED else 0x8000 OR 0x1A4) 0 0 sz)"

definition dev_fstat :: "u32 \<Rightarrow> u64 \<Rightarrow> fsys \<Rightarrow> fsys \<times> int" where
  "dev_fstat fd p s =
     (if kind_of_fd fd s = None then (s, EBADF)
      else (s\<lparr>fs_mem := wr32 (p + 16) 0x21B6 (fill_stat p 0 False (fs_mem s))\<rparr>, 0))"

definition FD_DEV_NULL :: u64 where "FD_DEV_NULL = 99"

definition sys_fstat :: "u64 \<Rightarrow> u64 \<Rightarrow> fsys \<Rightarrow> fsys \<times> int" where
  "sys_fstat fd p s =
     (let s = s\<lparr>fs_mem := poke p (replicate 144 0) (fs_mem s)\<rparr> in
      if fd = 0 \<or> fd = 1 \<or> fd = 2 \<or> fd = FD_DEV_NULL then
        (s\<lparr>fs_mem := wr64 (p + 16) 1 (wr32 (p + 24) (0x2000 OR 0x1B6) (fs_mem s))\<rparr>, 0)
      else if fd = 3 then (s\<lparr>fs_mem := fill_stat p 0 False (fs_mem s)\<rparr>, 0)
      else (s, EBADF))"

definition sys_fstat_v4 :: "u64 \<Rightarrow> u64 \<Rightarrow> fsys \<Rightarrow> fsys \<times> int" where
  "sys_fstat_v4 raw_fd p s =
     (if raw_fd = 0 \<or> raw_fd = 1 \<or> raw_fd = 2 \<or> raw_fd = FD_DEV_NULL then sys_fstat raw_fd p s
      else if is_dev_fd (ucast raw_fd) s then dev_fstat (ucast raw_fd) p s
      else case fd_fstat (ucast raw_fd) s of
          Some (sz, is_dir) \<Rightarrow> (s\<lparr>fs_mem := fill_stat p sz is_dir (fs_mem s)\<rparr>, 0)
        | None \<Rightarrow> (s, EBADF))"

section \<open>Reading, writing, seeking and closing\<close>

definition sys_write :: "u64 \<Rightarrow> u64 \<Rightarrow> u64 \<Rightarrow> fsys \<Rightarrow> (fsys \<times> int) option" where
  "sys_write fd buf cnt s =
     (let bytes = peek (fs_mem s) buf (unat cnt) in
      if cnt = 0 then Some (s, 0)
      else if is_write_fd (ucast fd) (fs_pipe s) then
        let (p, n) = pipe_write bytes (fs_pipe s) in Some (s\<lparr>fs_pipe := p\<rparr>, int n)
      else if fd = 1 \<or> fd = 2 then Some (put_console bytes s, sint cnt)
      else if fd = FD_DEV_NULL then Some (s, sint cnt)
      else if 3 \<le> fd then
        if is_dev_fd (ucast fd) s then Some (dev_write (ucast fd) buf cnt s)
        else write_fd (ucast fd) buf cnt s
      else Some (s, EBADF))"

definition sys_read :: "u64 \<Rightarrow> u64 \<Rightarrow> u64 \<Rightarrow> fsys \<Rightarrow> (fsys \<times> int) wait" where
  "sys_read fd buf cnt s =
     (if cnt = 0 then Now (s, 0)
      else if is_read_fd (ucast fd) (fs_pipe s) then
        let (bs, p) = pipe_read (unat cnt) (fs_pipe s) in
        if bs = [] then Waits
        else Now (s\<lparr>fs_pipe := p, fs_mem := poke buf bs (fs_mem s)\<rparr>, int (length bs))
      else if fd = 0 then
        (case read_key s of
           Waits \<Rightarrow> Waits
         | Now (s, b) \<Rightarrow>
             let s = (if b = 3 then s\<lparr>SIG_PENDING := SIG_PENDING s OR 2\<rparr> else s)
             in Now (s\<lparr>fs_mem := poke buf [b] (fs_mem s)\<rparr>, 1))
      else if fd = FD_DEV_NULL then Now (s, 0)
      else if 3 \<le> fd then
        if is_dev_fd (ucast fd) s then dev_read (ucast fd) buf cnt s
        else Now (fd_read (ucast fd) buf cnt s)
      else Now (s, EAGAIN))"

definition sys_close :: "u64 \<Rightarrow> fsys \<Rightarrow> fsys \<times> int" where
  "sys_close fd s =
     (if fd = 0 \<or> fd = 1 \<or> fd = 2 \<or> fd = FD_DEV_NULL then (s, 0)
      else if is_read_fd (ucast fd) (fs_pipe s) \<or> is_write_fd (ucast fd) (fs_pipe s) then (s, 0)
      else (fst (fd_close (ucast fd) s), 0))"

definition sys_lseek_v4 :: "u64 \<Rightarrow> u64 \<Rightarrow> u64 \<Rightarrow> fsys \<Rightarrow> (fsys \<times> int) option" where
  "sys_lseek_v4 raw_fd offset whence s =
     (if 3 \<le> raw_fd then fd_seek (ucast raw_fd) (sint offset) whence s else Some (s, sint offset))"

definition sys_pread64_v4 :: "u64 \<Rightarrow> u64 \<Rightarrow> u64 \<Rightarrow> u64 \<Rightarrow> fsys \<Rightarrow> fsys \<times> int" where
  "sys_pread64_v4 raw_fd buf cnt offset s =
     (if 3 \<le> raw_fd then fd_pread (ucast raw_fd) buf cnt offset s else (s, EBADF))"

definition sys_pwrite64 :: "u64 \<Rightarrow> u64 \<Rightarrow> u64 \<Rightarrow> u64 \<Rightarrow> fsys \<Rightarrow> (fsys \<times> int) option" where
  "sys_pwrite64 fd buf cnt offset s =
     (if fd = 1 \<or> fd = 2 then Some (put_console (peek (fs_mem s) buf (unat cnt)) s, sint cnt)
      else if 3 \<le> fd then do {
        (s, old_pos) \<leftarrow> fd_seek (ucast fd) 0 1 s;
        if old_pos < 0 then Some (s, old_pos)
        else do {
          (s, r) \<leftarrow> fd_seek (ucast fd) (sint offset) 0 s;
          if r < 0 then Some (s, r)
          else do {
            (s, n) \<leftarrow> write_fd (ucast fd) buf cnt s;
            (s, _) \<leftarrow> fd_seek (ucast fd) old_pos 0 s;
            Some (s, n)
          }
        }
      }
      else Some (s, EBADF))"


section \<open>Invariant\<close>

definition fs_ok :: "fsys \<Rightarrow> bool" where
  "fs_ok s \<longleftrightarrow> vfs_ok (fs_vfs s) \<and> ht_ok (FD_TABLE s) \<and>
     (\<forall>fd c f r. bt_get fd (ht_table (FD_TABLE s)) = Some c \<longrightarrow> cap_object c = FileRes f \<longrightarrow> fr_node f = Some r \<longrightarrow>
        r < length (vnodes (fs_vfs s)))"

lemma fd_file_Some:
  "fd_file fd need s = Some f \<longleftrightarrow>
    (\<exists>c. bt_get fd (ht_table (FD_TABLE s)) = Some c \<and> rights_contains (cap_rights c) need \<and> cap_object c = FileRes f)"
proof -
  have "as_file r = Some f \<longleftrightarrow> r = FileRes f" for r by (cases r) (auto simp: as_file_def)
  then show ?thesis by (auto simp: fd_file_def ht_get_def Option.bind_eq_Some_conv split: if_splits)
qed

lemma fs_okD:
  assumes "fs_ok s"
  shows "vfs_ok (fs_vfs s)" "ht_ok (FD_TABLE s)"
    "fd_file fd need s = Some f \<Longrightarrow> fr_node f = Some r \<Longrightarrow> r < length (vnodes (fs_vfs s))"
  using assms unfolding fs_ok_def by (auto simp: fd_file_Some)

lemma put_file_frame [simp]:
  "fs_vfs (put_file fd f s) = fs_vfs s" "fs_mem (put_file fd f s) = fs_mem s" "fs_pipe (put_file fd f s) = fs_pipe s"
  by (simp_all add: put_file_def split: option.split)

lemma fd_file_put:
  assumes "ht_ok (FD_TABLE s)" "fd_file fd need s = Some g"
  shows "fd_file fd' need' (put_file fd f s) =
    (if fd' = fd then map_option (\<lambda>_. f) (fd_file fd need' s) else fd_file fd' need' s)"
proof -
  obtain c where c: "bt_get fd (ht_table (FD_TABLE s)) = Some c" "cap_object c = FileRes g"
    using assms(2) by (auto simp: fd_file_Some)
  have wf: "bt_wf (ht_table (FD_TABLE s))" using assms(1) by (simp add: ht_ok_def)
  show ?thesis
    using c wf by (simp add: put_file_def fd_file_def ht_get_def as_file_def)
qed

lemma fs_ok_put:
  assumes ok: "fs_ok s" and f: "fd_file fd need s = Some g" "fr_node f = fr_node g"
  shows "fs_ok (put_file fd f s)"
proof -
  obtain c where c: "bt_get fd (ht_table (FD_TABLE s)) = Some c" "cap_object c = FileRes g"
    using f(1) by (auto simp: fd_file_Some)
  have wf: "bt_wf (ht_table (FD_TABLE s))" using fs_okD(2) [OF ok] by (simp add: ht_ok_def)
  let ?t = "bt_insert fd (c\<lparr>cap_object := FileRes f\<rparr>) (ht_table (FD_TABLE s))"
  have eq: "fst ` set ?t = fst ` set (ht_table (FD_TABLE s))"
    using bt_get_in_set [OF c(1)] by (force simp: fst_set_bt_insert)
  have "\<forall>x \<in> fst ` set (ht_table (FD_TABLE s)). 3 \<le> x \<and> x < next_id (FD_TABLE s)"
    using fs_okD(2) [OF ok] by (auto simp: ht_ok_def)
  then have "\<forall>p \<in> set ?t. 3 \<le> fst p \<and> fst p < next_id (FD_TABLE s)" unfolding eq [symmetric] by simp
  then have "ht_ok ((FD_TABLE s)\<lparr>ht_table := ?t\<rparr>)"
    using fs_okD(2) [OF ok] wf unfolding ht_ok_def by simp
  moreover have "r < length (vnodes (fs_vfs s))" if "fr_node f = Some r" for r
    using fs_okD(3) [OF ok f(1), of r] that f(2) by simp
  ultimately show ?thesis
    using ok c wf by (auto simp: fs_ok_def put_file_def)
qed

lemma fs_ok_cong:
  "fs_vfs s' = fs_vfs s \<Longrightarrow> FD_TABLE s' = FD_TABLE s \<Longrightarrow> fs_ok s' = fs_ok s"
  by (simp add: fs_ok_def)

lemma fs_ok_vfs:
  assumes "fs_ok s" "vfs_ok v" "length (vnodes (fs_vfs s)) \<le> length (vnodes v)"
  shows "fs_ok (s\<lparr>fs_vfs := v\<rparr>)"
  using assms unfolding fs_ok_def by simp (meson less_le_trans)

lemma fd_insert_ok:
  assumes "fs_ok s" "fd_insert r rights s = Some (s', fd)"
    and "\<And>f n. r = FileRes f \<Longrightarrow> fr_node f = Some n \<Longrightarrow> n < length (vnodes (fs_vfs s))"
  shows "fs_ok s'" "fs_vfs s' = fs_vfs s"
proof -
  obtain t h where t: "ht_insert \<lparr>cap_object = r, cap_rights = rights\<rparr> (FD_TABLE s) = Some (t, h)"
    "s' = s\<lparr>FD_TABLE := t\<rparr>"
    using assms(2) by (auto simp: fd_insert_def Option.bind_eq_Some_conv)
  have ok: "ht_ok t" by (rule ht_insert_ok [OF fs_okD(2) [OF assms(1)] t(1)])
  have wf: "bt_wf (ht_table (FD_TABLE s))" using fs_okD(2) [OF assms(1)] by (simp add: ht_ok_def)
  have "ht_table t = bt_insert (next_id (FD_TABLE s)) \<lparr>cap_object = r, cap_rights = rights\<rparr> (ht_table (FD_TABLE s))"
    using t(1) by (auto simp: ht_insert_def Option.bind_eq_Some_conv Let_def)
  then show "fs_ok s'" "fs_vfs s' = fs_vfs s"
    using assms(1,3) ok wf by (auto simp: fs_ok_def t(2) split: if_splits)
qed


lemma length_dir_create: "length (vnodes v) \<le> length (vnodes (fst (dir_create is_file P name v)))"
  by (simp add: dir_create_def Let_def new_node_def meta_new_file_def meta_new_dir_def alloc_ino_def
      split: vfs_node.split option.split prod.split)

lemma length_create_in: "length (vnodes v) \<le> length (vnodes (fst (create_in is_file path v)))"
  by (simp add: create_in_def length_dir_create split: option.split prod.split)

lemma length_ensure_dirs: "length (vnodes v) \<le> length (vnodes (ensure_dirs cur ps v))"
  by (induction cur ps v rule: ensure_dirs.induct)
    (auto simp: Let_def mkdir_def intro: order_trans [OF length_create_in])

lemma length_ensure_parent_dirs: "length (vnodes v) \<le> length (vnodes (ensure_parent_dirs path v))"
  by (simp add: ensure_parent_dirs_def Let_def length_ensure_dirs)

lemma length_set_data [simp]: "length (vnodes (set_data r data v)) = length (vnodes v)"
  by (simp add: set_data_def split: vfs_node.split)

lemma length_copy_up: "length (vnodes v) \<le> length (vnodes (fst (copy_up path v)))"
  using length_create_in [of "ensure_parent_dirs path v" True path] length_ensure_parent_dirs [of v path]
  by (auto simp: copy_up_def create_file_def split: option.split prod.splits)

lemma length_open_writable: "length (vnodes v) \<le> length (vnodes (fst (open_writable path o_creat v)))"
  using length_create_in [of "ensure_parent_dirs path v" True path] length_ensure_parent_dirs [of v path]
  by (auto simp: open_writable_def create_file_def length_copy_up split: option.split)

lemma length_truncate_node [simp]: "length (vnodes (fst (truncate_node r sz v))) = length (vnodes v)"
  by (simp add: truncate_node_def split: vfs_node.split)

lemma file_write_frame:
  assumes "file_write_at buf cnt v f = Some (v', f', n)"
  shows "length (vnodes v') = length (vnodes v)" "fr_node f' = fr_node f" "vfs_ok v \<Longrightarrow> vfs_ok v'"
  using assms
  by (auto simp: file_write_at_def Let_def Option.bind_eq_Some_conv intro: vfs_ok_file
      split: if_splits option.splits vfs_node.splits)

lemma write_fd_ok [kernel_inv]:
  assumes "fs_ok s" "write_fd fd buf cnt s = Some (s', n)"
  shows "fs_ok s'"
proof (cases "fd_file fd R_WRITE s")
  case (Some f)
  then obtain v f' where w: "file_write_at (peek (fs_mem s) buf (unat cnt)) cnt (fs_vfs s) f = Some (v, f', n)"
    "s' = put_file fd f' (s\<lparr>fs_vfs := v\<rparr>)"
    using assms(2) by (auto simp: write_fd_def Option.bind_eq_Some_conv)
  have "fs_ok (s\<lparr>fs_vfs := v\<rparr>)"
    using fs_okD(1) [OF assms(1)] file_write_frame [OF w(1)] by (intro fs_ok_vfs [OF assms(1)]) simp_all
  moreover have "fd_file fd R_WRITE (s\<lparr>fs_vfs := v\<rparr>) = Some f" using Some by (simp add: fd_file_def)
  ultimately show ?thesis unfolding w(2) using file_write_frame(2) [OF w(1)] by (rule fs_ok_put)
qed (use assms in \<open>simp add: write_fd_def\<close>)

lemma fd_read_ok [kernel_inv]: "fs_ok s \<Longrightarrow> fs_ok (fst (fd_read fd buf cnt s))"
proof (cases "fd_file fd R_READ s")
  case (Some f)
  assume ok: "fs_ok s"
  obtain f' bs where r: "file_read (fs_vfs s) cnt f = (f', bs)" by fastforce
  have "fr_node f' = fr_node f" using r by (auto simp: file_read_def Let_def split: option.splits)
  moreover have "fs_ok (s\<lparr>fs_mem := m\<rparr>)" "fd_file fd R_READ (s\<lparr>fs_mem := m\<rparr>) = Some f" for m
    using ok Some by (simp_all add: fs_ok_def fd_file_def)
  ultimately show ?thesis by (auto simp: fd_read_def Some r intro: fs_ok_put)
qed (simp add: fd_read_def)

lemma fd_seek_ok [kernel_inv]:
  assumes "fs_ok s" "fd_seek fd offset whence s = Some (s', n)"
  shows "fs_ok s'"
proof (cases "fd_file fd R_NONE s")
  case (Some f)
  then obtain f' where w: "file_seek (fs_vfs s) offset whence f = Some (f', n)" "s' = put_file fd f' s"
    using assms(2) by (auto simp: fd_seek_def)
  have "fr_node f' = fr_node f" using w(1) by (auto simp: file_seek_def Let_def split: if_splits)
  then show ?thesis unfolding w(2) by (rule fs_ok_put [OF assms(1) Some])
qed (use assms in \<open>simp add: fd_seek_def\<close>)

lemma truncate_fd_ok [kernel_inv]: "fs_ok s \<Longrightarrow> fs_ok (fst (truncate_fd fd sz s))"
  using truncate_node_ok [OF fs_okD(1)]
  by (auto simp: truncate_fd_def file_truncate_def case_prod_beta intro!: fs_ok_vfs split: option.split dest: fs_okD(1))

lemma fd_close_ok [kernel_inv]: "fs_ok s \<Longrightarrow> fs_ok (fst (fd_close fd s))"
  using ht_close_ok [of "FD_TABLE s" fd]
  by (auto simp: fs_ok_def fd_close_def ht_close_def case_prod_beta ht_ok_def split: if_splits)

lemma open_dir_ok [kernel_inv]: "fs_ok s \<Longrightarrow> open_dir path s = Some (s', fd) \<Longrightarrow> fs_ok s'"
  by (auto simp: open_dir_def dest: fd_insert_ok(1))

lemma dev_open_ok [kernel_inv]: "fs_ok s \<Longrightarrow> dev_open path s = Some (s', fd) \<Longrightarrow> fs_ok s'"
  by (auto simp: dev_open_def Option.bind_eq_Some_conv split: option.splits dest: fd_insert_ok(1))

lemma open_file_writable_ok [kernel_inv]:
  "fs_ok s \<Longrightarrow> r < length (vnodes (fs_vfs s)) \<Longrightarrow> open_file_writable path r s = Some (s', fd) \<Longrightarrow> fs_ok s'"
  by (auto simp: open_file_writable_def new_live_def dest: fd_insert_ok(1))


section \<open>What a write does\<close>

text \<open>The specification of a write: bytes are replaced, a gap before them is filled with zeros.\<close>

definition write_over :: "nat \<Rightarrow> bytes \<Rightarrow> bytes \<Rightarrow> bytes" where
  "write_over pos data bs =
     map (\<lambda>i. if pos \<le> i \<and> i < pos + length data then data ! (i - pos) else if i < length bs then bs ! i else 0)
       [0..<max (length bs) (pos + length data)]"

lemma length_write_over [simp]: "length (write_over pos data bs) = max (length bs) (pos + length data)"
  by (simp add: write_over_def)

lemma nth_resize: "i < n \<Longrightarrow> resize n bs ! i = (if i < length bs then bs ! i else 0)"
  by (auto simp: resize_def nth_append min_def)

lemma write_over_eq:
  fixes pos and buf bs :: bytes
  defines "m \<equiv> pos + length buf"
  defines "bs' \<equiv> (if length bs < m then resize m bs else bs)"
  shows "take pos bs' @ buf @ drop m bs' = write_over pos buf bs"
proof (rule nth_equalityI)
  have len: "length bs' = max (length bs) m" by (simp add: bs'_def resize_def)
  have nth: "bs' ! i = (if i < length bs then bs ! i else 0)" if "i < length bs'" for i
    using that len by (auto simp: bs'_def nth_resize)
  show "length (take pos bs' @ buf @ drop m bs') = length (write_over pos buf bs)" by (simp add: len m_def)
  fix i assume "i < length (take pos bs' @ buf @ drop m bs')"
  then have i: "i < max (length bs) m" by (simp add: len m_def)
  show "(take pos bs' @ buf @ drop m bs') ! i = write_over pos buf bs ! i"
    using i len nth [of i] unfolding m_def by (auto simp: nth_append write_over_def min_def)
qed

lemma peek_write_over: "take (length data) (drop pos (write_over pos data bs)) = data"
  by (rule nth_equalityI) (simp_all add: write_over_def)

lemma file_write_over:
  assumes "fr_write f" "fr_node f = Some r" "vnodes v ! r = VFile bs m"
    and "unat (fr_pos f) + unat cnt < 2 ^ 64" "length buf = unat cnt"
  shows "file_write_at buf cnt v f =
    Some (set_node r (VFile (write_over (unat (fr_pos f)) buf bs) m) v, f\<lparr>fr_pos := fr_pos f + cnt\<rparr>, sint cnt)"
proof -
  have "unat (fr_pos f + cnt) = unat (fr_pos f) + unat cnt" using assms(4) by (simp add: unat_word_ariths)
  then show ?thesis
    using assms(1-4) write_over_eq [of "unat (fr_pos f)" bs buf, unfolded assms(5)]
    by (simp add: file_write_at_def add_chk_def Let_def split: if_splits)
qed

lemma fd_file_upd [simp]:
  "fd_file fd need (s\<lparr>fs_vfs := v\<rparr>) = fd_file fd need s" "fd_file fd need (s\<lparr>fs_mem := m\<rparr>) = fd_file fd need s"
  by (simp_all add: fd_file_def)

text \<open>C35: a write through a descriptor replaces the bytes at its position (filling a gap with zeros), advances
  it, and changes no other file and no user memory; every open descriptor of the same file reads the new bytes
  back, at whatever position it stands.\<close>

theorem write_fd_visible:
  assumes ok: "fs_ok s" and f: "fd_file fd R_WRITE s = Some f" "fr_write f" "fr_node f = Some r"
    and v: "vnodes (fs_vfs s) ! r = VFile bs m" and len: "unat (fr_pos f) + unat cnt < 2 ^ 64"
  shows "\<exists>s'. write_fd fd buf cnt s = Some (s', sint cnt) \<and>
    vnodes (fs_vfs s') = (vnodes (fs_vfs s))[r := VFile (write_over (unat (fr_pos f)) (peek (fs_mem s) buf (unat cnt)) bs) m] \<and>
    fs_mem s' = fs_mem s \<and> fd_file fd R_WRITE s' = Some (f\<lparr>fr_pos := fr_pos f + cnt\<rparr>) \<and>
    (\<forall>fd2 f2 buf2. fd_file fd2 R_READ s = Some f2 \<longrightarrow> fr_node f2 = Some r \<longrightarrow>
       fs_mem (fst (fd_pread fd2 buf2 cnt (fr_pos f) s')) = poke buf2 (peek (fs_mem s) buf (unat cnt)) (fs_mem s) \<and>
       snd (fd_pread fd2 buf2 cnt (fr_pos f) s') = int (unat cnt))"
proof -
  let ?data = "peek (fs_mem s) buf (unat cnt)" and ?f = "f\<lparr>fr_pos := fr_pos f + cnt\<rparr>"
  let ?bs = "write_over (unat (fr_pos f)) ?data bs"
  let ?s = "put_file fd ?f (s\<lparr>fs_vfs := set_node r (VFile ?bs m) (fs_vfs s)\<rparr>)"
  have w: "write_fd fd buf cnt s = Some (?s, sint cnt)"
    using file_write_over [OF f(2,3) v len, of ?data] by (simp add: write_fd_def f(1) del: set_node_simps(5))
  have ht: "ht_ok (FD_TABLE (s\<lparr>fs_vfs := x\<rparr>))" for x using fs_okD(2) [OF ok] by simp
  note put = fd_file_put [OF ht, of fd R_WRITE _ f, unfolded fd_file_upd, OF f(1)]
  have r: "r < length (vnodes (fs_vfs s))" by (rule fs_okD(3) [OF ok f(1,3)])
  have "file_pread (fs_vfs ?s) cnt (fr_pos f) g = ?data" if "fr_node g = Some r" for g
  proof -
    have "min (unat cnt) (max (length bs) (unat (fr_pos f) + unat cnt) - unat (fr_pos f)) = unat cnt"
      by (cases "length bs \<le> unat (fr_pos f) + unat cnt") auto
    then show ?thesis
      using that r peek_write_over [of ?data "unat (fr_pos f)" bs] by (simp add: file_pread_def file_data_def)
  qed
  moreover have "\<exists>g. fd_file fd2 R_READ ?s = Some g \<and> fr_node g = Some r"
    if "fd_file fd2 R_READ s = Some f2" "fr_node f2 = Some r" for fd2 f2
    using that f(3) by (auto simp: put)
  ultimately show ?thesis
    using w by (intro exI [of _ ?s]) (fastforce simp: put f(1) fd_pread_def Let_def)
qed


definition demo_fs :: fsys where
  "demo_fs = \<lparr>fs_vfs = fst (create_file ''/a'' (vfs_init vfs_boot)), FD_TABLE = ht_new, fs_mem = (\<lambda>a. ucast a),
     RNG = 0xDEADBEEFCAFEBABE, console = [], keys = [], fs_pipe = pipe_init, SIG_PENDING = 0\<rparr>"

definition demo_open :: fsys where
  "demo_open = demo_fs\<lparr>FD_TABLE := \<lparr>ht_table = [(3, \<lparr>cap_object = FileRes (new_live ''/a'' 22), cap_rights = R_READ OR R_WRITE\<rparr>)],
     next_id = 4\<rparr>\<rparr>"

lemma demo_node: "map_option (\<lambda>n. case n of VFile bs m \<Rightarrow> Some bs | VDir _ _ \<Rightarrow> None)
    (if 22 < length (vnodes (fs_vfs demo_fs)) then Some (vnodes (fs_vfs demo_fs) ! 22) else None) = Some (Some [])"
  by code_simp

lemma demo_file:
  obtains m where "vnodes (fs_vfs demo_open) ! 22 = VFile [] m" "22 < length (vnodes (fs_vfs demo_fs))"
  using demo_node by (auto simp: demo_open_def split: if_splits vfs_node.splits)

lemma demo_fs_ok: "fs_ok demo_fs"
  by (simp add: fs_ok_def demo_fs_def ht_new_ok ht_new_def create_file_def create_in_ok vfs_init_ok vfs_boot_ok
      ht_new_ok [unfolded ht_new_def])

lemma demo_open_eq: "open_file_writable ''/a'' 22 demo_fs = Some (demo_open, 3)"
  by (simp add: open_file_writable_def fd_insert_def ht_insert_def demo_fs_def demo_open_def ht_new_def add_chk_def Let_def)

lemma demo_open_ok: "fs_ok demo_open"
  using demo_file open_file_writable_ok [OF demo_fs_ok _ demo_open_eq] by blast

lemma demo_open_fd: "rights_contains (R_READ OR R_WRITE) need \<Longrightarrow> fd_file 3 need demo_open = Some (new_live ''/a'' 22)"
  by (simp add: demo_open_def fd_file_Some)

lemma demo_rights: "rights_contains (R_READ OR R_WRITE) R_READ" "rights_contains (R_READ OR R_WRITE) R_WRITE"
  by (simp_all add: rights_contains_def R_READ_def R_WRITE_def)

theorem write_fd_visible_witness:
  "\<exists>s'. write_fd 3 16 4 demo_open = Some (s', 4) \<and>
     fs_mem (fst (fd_pread 3 64 4 0 s')) = poke 64 [16, 17, 18, 19] (fs_mem demo_open)"
proof -
  obtain m where m: "vnodes (fs_vfs demo_open) ! 22 = VFile [] m" by (rule demo_file)
  note f = demo_open_fd [OF demo_rights(2)]
  have "peek (\<lambda>a :: u64. ucast a :: u8) 16 4 = [16, 17, 18, 19]" by code_simp
  then have "peek (fs_mem demo_open) 16 (unat (4 :: u64)) = [16, 17, 18, 19]"
    by (simp add: demo_open_def demo_fs_def)
  then show ?thesis
    using write_fd_visible [OF demo_open_ok f _ _ m, of 4 16] demo_open_fd [OF demo_rights(1)]
    by (auto simp: new_live_def)
qed

section \<open>Sequential reads and positions\<close>

fun read_seq :: "vfs \<Rightarrow> u64 list \<Rightarrow> file_resource \<Rightarrow> file_resource \<times> bytes" where
  "read_seq v [] f = (f, [])"
| "read_seq v (c # cs) f = (let (f, b) = file_read v c f; (f, bs) = read_seq v cs f in (f, b @ bs))"

lemma file_read_pos:
  assumes "file_data v f = Some bs" "length bs < 2 ^ 64" "file_read v c f = (f', b)"
  shows "file_data v f' = Some bs"
    "unat (fr_pos f') = unat (fr_pos f) + min (unat c) (length bs - unat (fr_pos f))"
    "b = take (unat c) (drop (unat (fr_pos f)) bs)"
proof -
  let ?p = "unat (fr_pos f)" and ?n = "min (unat c) (length bs - unat (fr_pos f))"
  have f': "f' = f\<lparr>fr_pos := fr_pos f + of_nat ?n\<rparr>" and b: "b = take ?n (drop ?p bs)"
    using assms(1,3) by (auto simp: file_read_def Let_def)
  show "file_data v f' = Some bs" using assms(1) by (simp add: f' file_data_def split: option.splits)
  have "?p + ?n < 2 ^ 64"
  proof (cases "?p \<le> length bs")
    case False
    then show ?thesis using unsigned_less [of "fr_pos f"] by simp
  qed (use assms(2) in simp)
  moreover from this have "unat (of_nat ?n :: u64) = ?n" by (simp add: unat_of_nat)
  ultimately show "unat (fr_pos f') = ?p + ?n" by (simp add: f' unat_word_ariths)
  show "b = take (unat c) (drop ?p bs)" unfolding b by (simp add: min_def)
qed

text \<open>consecutive reads of any sizes return consecutive pieces of the file: together they give the bytes from
  the position on, as many as were asked for in total, or all up to the end.\<close>

theorem sequential_reads:
  assumes "file_data v f = Some bs" "length bs < 2 ^ 64"
  shows "snd (read_seq v cs f) = take (sum_list (map unat cs)) (drop (unat (fr_pos f)) bs)"
  using assms
proof (induction cs arbitrary: f)
  case (Cons c cs)
  obtain f' b where r: "file_read v c f = (f', b)" by fastforce
  note p = file_read_pos [OF Cons.prems r]
  have "snd (read_seq v cs f') = take (sum_list (map unat cs)) (drop (unat (fr_pos f')) bs)"
    by (rule Cons.IH [OF p(1) Cons.prems(2)])
  moreover have "drop (unat (fr_pos f')) bs = drop (unat c) (drop (unat (fr_pos f)) bs)"
    unfolding p(2) by (simp add: min_def add.commute)
  ultimately show ?case
    by (simp add: r case_prod_beta p(3) take_add)
qed simp

theorem sequential_reads_witness:
  "snd (read_seq vfs_boot [2, 1, 5] (new_readonly ''/a'' [1, 2, 3, 4, 5, 6])) = [1, 2, 3, 4, 5, 6]"
proof -
  have "file_data vfs_boot (new_readonly ''/a'' [1, 2, 3, 4, 5, 6]) = Some [1, 2, 3, 4, 5, 6]"
    by (simp add: file_data_def new_readonly_def)
  from sequential_reads [OF this, of "[2, 1, 5]"] show ?thesis by (simp add: new_readonly_def)
qed

lemma fd_seek_set:
  assumes "fd_file fd R_NONE s = Some f" "0 \<le> x"
  shows "fd_seek fd x 0 s = Some (put_file fd (f\<lparr>fr_pos := of_int x\<rparr>) s, x)"
  using assms by (simp add: fd_seek_def file_seek_def Let_def)

lemma fd_seek_cur:
  assumes "fd_file fd R_NONE s = Some f" "0 \<le> sint (fr_pos f)"
  shows "fd_seek fd 0 1 s = Some (put_file fd f s, sint (fr_pos f))"
proof -
  have "sint (fr_pos f) < 2 ^ 63" using sint_lt [of "fr_pos f"] by simp
  then show ?thesis using assms by (simp add: fd_seek_def file_seek_def Let_def i64_add_def)
qed

lemma fd_file_NONE: "fd_file fd need s = Some f \<Longrightarrow> fd_file fd R_NONE s = Some f"
  by (auto simp: fd_file_Some R_NONE_def rights_contains_def)

lemma put_file_put:
  assumes "ht_ok (FD_TABLE s)" "fd_file fd need s = Some g"
  shows "put_file fd f (put_file fd f' s) = put_file fd f s"
proof -
  have "bt_insert k c (bt_insert k c' m) = bt_insert k c m" for k :: u32 and c c' :: "resource capability" and m
    by (induction m) auto
  moreover obtain c where "bt_get fd (ht_table (FD_TABLE s)) = Some c" using assms(2) by (auto simp: fd_file_Some)
  moreover have "bt_wf (ht_table (FD_TABLE s))" using assms(1) by (simp add: ht_ok_def)
  ultimately show ?thesis by (simp add: put_file_def)
qed


text \<open>\<open>pwrite64\<close> writes at the given offset, whatever the position, and leaves the position unchanged.\<close>

theorem pwrite_keeps_position:
  assumes ok: "fs_ok s" and fd: "3 \<le> fd" and f: "fd_file (ucast fd) R_WRITE s = Some f" "fr_write f" "fr_node f = Some r"
    and v: "vnodes (fs_vfs s) ! r = VFile bs m"
    and pos: "0 \<le> sint (fr_pos f)" "0 \<le> sint offset" "unat offset + unat cnt < 2 ^ 64"
  shows "\<exists>s'. sys_pwrite64 fd buf cnt offset s = Some (s', sint cnt) \<and>
    vnodes (fs_vfs s') = (vnodes (fs_vfs s))[r := VFile (write_over (unat offset) (peek (fs_mem s) buf (unat cnt)) bs) m] \<and>
    fd_file (ucast fd) R_WRITE s' = Some f \<and> fs_mem s' = fs_mem s"
proof -
  let ?fd = "ucast fd :: u32" and ?data = "peek (fs_mem s) buf (unat cnt)"
  let ?g = "f\<lparr>fr_pos := offset\<rparr>" and ?h = "f\<lparr>fr_pos := offset + cnt\<rparr>"
  let ?v = "set_node r (VFile (write_over (unat offset) ?data bs) m) (fs_vfs s)"
  have ht: "ht_ok (FD_TABLE s)" by (rule fs_okD(2) [OF ok])
  note put = fd_file_put [OF ht f(1)] and same = put_file_put [OF ht f(1)]
  have ne: "fd \<noteq> 1" "fd \<noteq> 2" using fd by (auto simp: word_le_nat_alt)
  have no: "fd_file ?fd R_NONE s = Some f" by (rule fd_file_NONE [OF f(1)])
  have s1: "fd_seek ?fd 0 1 s = Some (put_file ?fd f s, sint (fr_pos f))" by (rule fd_seek_cur [OF no pos(1)])
  have s2: "fd_seek ?fd (sint offset) 0 (put_file ?fd f s) = Some (put_file ?fd ?g s, sint offset)"
    using fd_seek_set [OF _ pos(2), of ?fd "put_file ?fd f s" f] by (simp add: put no same)
  have "file_write_at ?data cnt (fs_vfs s) ?g = Some (?v, ?h, sint cnt)"
    using file_write_over [of ?g r "fs_vfs s" bs m cnt ?data] f(2,3) v pos(3) by (simp del: set_node_simps(5))
  then have s3: "write_fd ?fd buf cnt (put_file ?fd ?g s) = Some (put_file ?fd ?h ((put_file ?fd ?g s)\<lparr>fs_vfs := ?v\<rparr>), sint cnt)"
    by (simp add: write_fd_def put f(1) del: set_node_simps(5))
  have c: "(put_file ?fd ?g s)\<lparr>fs_vfs := ?v\<rparr> = put_file ?fd ?g (s\<lparr>fs_vfs := ?v\<rparr>)"
    by (simp add: put_file_def split: option.split)
  let ?s = "s\<lparr>fs_vfs := ?v\<rparr>"
  have ht': "ht_ok (FD_TABLE ?s)" "fd_file ?fd R_WRITE ?s = Some f" using ht f(1) by simp_all
  note put' = fd_file_put [OF ht'] and same' = put_file_put [OF ht']
  have s4: "fd_seek ?fd (sint (fr_pos f)) 0 (put_file ?fd ?h ?s) = Some (put_file ?fd f ?s, sint (fr_pos f))"
    using fd_seek_set [OF _ pos(1), of ?fd "put_file ?fd ?h ?s" ?h] no
    by (simp add: put' same' del: set_node_simps(5))
  have "sys_pwrite64 fd buf cnt offset s = Some (put_file ?fd f ?s, sint cnt)"
    using ne fd pos(1,2) s1 s2 s3 s4 unfolding c same' by (simp add: sys_pwrite64_def del: set_node_simps(5))
  then show ?thesis
    by (intro exI [of _ "put_file ?fd f ?s"]) (simp add: put' f(1))
qed

theorem pwrite_keeps_position_witness:
  "\<exists>s'. sys_pwrite64 3 16 4 100 demo_open = Some (s', 4) \<and> fd_file 3 R_WRITE s' = Some (new_live ''/a'' 22)"
proof -
  obtain m where m: "vnodes (fs_vfs demo_open) ! 22 = VFile [] m" by (rule demo_file)
  have f: "fd_file (ucast (3 :: u64)) R_WRITE demo_open = Some (new_live ''/a'' 22)"
    using demo_open_fd [OF demo_rights(2)] by simp
  show ?thesis
    using pwrite_keeps_position [OF demo_open_ok _ f _ _ m, of 100 4 16] by (auto simp: new_live_def)
qed

text \<open>a descriptor opened for reading cannot change anything: writes and truncation through it are refused
  and leave the whole state as it is, and it keeps reading the bytes the file had when it was opened.\<close>

theorem read_only_descriptor:
  assumes ok: "fs_ok s" and op: "open_file path data False s = Some (s', fd)"
  shows "write_fd fd buf cnt s' = Some (s', EBADF) \<and> truncate_fd fd sz s' = (s', EINVAL) \<and>
    (\<exists>f. fd_file fd R_READ s' = Some f \<and> (\<forall>v. file_data v f = Some data)) \<and> fd_file fd R_READ s = None"
proof -
  obtain t h where t: "ht_insert \<lparr>cap_object = FileRes (new_readonly path data), cap_rights = R_READ\<rparr> (FD_TABLE s) = Some (t, h)"
    "s' = s\<lparr>FD_TABLE := t\<rparr>" "fd = h_id h"
    using op by (auto simp: open_file_def fd_insert_def Option.bind_eq_Some_conv)
  have wf: "bt_wf (ht_table (FD_TABLE s))" using fs_okD(2) [OF ok] by (simp add: ht_ok_def)
  have id: "fd = next_id (FD_TABLE s)" and tb: "ht_table t = bt_insert fd \<lparr>cap_object = FileRes (new_readonly path data),
      cap_rights = R_READ\<rparr> (ht_table (FD_TABLE s))"
    using t by (auto simp: ht_insert_def Option.bind_eq_Some_conv Let_def)
  have e: "bt_get fd (ht_table (FD_TABLE s')) = Some \<lparr>cap_object = FileRes (new_readonly path data), cap_rights = R_READ\<rparr>"
    using wf by (simp add: t(2) tb)
  have "fd_file fd R_WRITE s' = None"
    using e by (simp add: fd_file_def ht_get_def rights_contains_def R_READ_def R_WRITE_def)
  moreover have "fd_file fd R_READ s' = Some (new_readonly path data)"
    using e by (simp add: fd_file_Some)
  moreover have "fd_file fd R_READ s = None"
    using ht_next_fresh [OF fs_okD(2) [OF ok]] by (simp add: fd_file_def ht_get_def id)
  ultimately show ?thesis
    by (simp add: write_fd_def truncate_fd_def file_data_def new_readonly_def)
qed


theorem read_only_descriptor_witness:
  "\<exists>s'. open_file ''/a'' [1, 2] False demo_fs = Some (s', 3) \<and> write_fd 3 0 8 s' = Some (s', EBADF)"
proof -
  obtain s' where o: "open_file ''/a'' [1, 2] False demo_fs = Some (s', 3)"
    by (simp add: open_file_def fd_insert_def ht_insert_def demo_fs_def ht_new_def add_chk_def Let_def)
  then show ?thesis using read_only_descriptor [OF demo_fs_ok o] by blast
qed

section \<open>Two defects\<close>

lemma peek_poke_sub:
  assumes "length bs \<le> 2 ^ 64" "i + n \<le> length bs"
  shows "peek (poke a bs m) (a + of_nat i) n = take n (drop i bs)"
proof (rule nth_equalityI)
  fix j assume "j < length (peek (poke a bs m) (a + of_nat i) n)"
  then have j: "j < n" by simp
  have "a + of_nat i + of_nat j = (a + of_nat (i + j) :: u64)" by simp
  moreover have "within (a + of_nat (i + j)) a (length bs)" using j assms by (intro within_offset) simp_all
  moreover have "unat (a + of_nat (i + j) - a) = i + j" using j assms by (intro unat_offset) simp
  ultimately show "peek (poke a bs m) (a + of_nat i) n ! j = take n (drop i bs) ! j"
    using j assms poke_apply [OF assms(1), of a m "a + of_nat (i + j)"] by (simp add: peek_def add.assoc)
qed (use assms in simp)

text \<open>\<open>fstat\<close> on a device writes the mode of a character device over the low half of the link count; the mode
  field itself says regular file.\<close>

theorem device_stat_wrong:
  assumes "kind_of_fd fd s = Some k"
  shows "snd (dev_fstat fd p s) = 0 \<and> rd32 (fs_mem (fst (dev_fstat fd p s))) (p + 24) = 0x8000 OR 0x1A4 \<and>
    rd32 (fs_mem (fst (dev_fstat fd p s))) (p + 16) = 0x2000 OR 0x1B6"
proof -
  let ?st = "stat_bytes 1 1 (0x8000 OR 0x1A4) 0 0 0"
  have "apart (p + of_nat 24) 4 (p + of_nat 16) 4" by (rule apart_offsets) simp_all
  then have "rd32 (wr32 (p + 16) 0x21B6 (poke p ?st (fs_mem s))) (p + 24) = from_le_bytes (take 4 (drop 24 ?st))"
    using peek_poke_sub [of ?st 24 4 p "fs_mem s"]
    by (simp add: rd32_def wr32_def peek_poke_apart stat_bytes_def)
  then show ?thesis
    using assms by (simp add: dev_fstat_def fill_stat_def stat_bytes_def)
qed

theorem device_stat_wrong_witness:
  "rd32 (fs_mem (fst (dev_fstat 3 0 (fst (the (dev_open ''/dev/tty'' demo_fs)))))) 24 = 0x81A4"
proof -
  have "kind_of_fd 3 (fst (the (dev_open ''/dev/tty'' demo_fs))) = Some DTty"
    by (simp add: dev_open_def kind_of_def fd_insert_def ht_insert_def demo_fs_def ht_new_def add_chk_def Let_def
        kind_of_fd_def ht_get_def as_dev_def R_NONE_def rights_contains_def)
  from device_stat_wrong [OF this, of 0] show ?thesis by simp
qed

text \<open>the ninety-seventh descriptor that is handed out is 99, the number reserved for \<open>/dev/null\<close>: what is written
  to it is reported as written and discarded, reads find nothing, and closing it leaves it open.\<close>

theorem descriptor_99_is_null:
  assumes "fs_ok s" "next_id (FD_TABLE s) = 99" "PIPE_READ_FD (fs_pipe s) = - 1" "PIPE_WRITE_FD (fs_pipe s) = - 1"
    and "cnt \<noteq> 0"
  shows "\<exists>s'. open_file_writable path r s = Some (s', 99) \<and> fd_file 99 R_WRITE s' = Some (new_live path r) \<and>
    sys_write 99 buf cnt s' = Some (s', sint cnt) \<and> sys_read 99 buf cnt s' = Now (s', 0) \<and> sys_close 99 s' = (s', 0)"
proof -
  have a: "add_chk (next_id (FD_TABLE s)) 1 = Some 100" by (simp add: assms(2) add_chk_def)
  let ?c = "\<lparr>cap_object = FileRes (new_live path r), cap_rights = R_READ OR R_WRITE\<rparr>"
  let ?s = "s\<lparr>FD_TABLE := \<lparr>ht_table = bt_insert 99 ?c (ht_table (FD_TABLE s)), next_id = 100\<rparr>\<rparr>"
  have o: "open_file_writable path r s = Some (?s, 99)"
    using a by (simp add: open_file_writable_def fd_insert_def ht_insert_def assms(2) Let_def)
  have "bt_wf (ht_table (FD_TABLE s))" using fs_okD(2) [OF assms(1)] by (simp add: ht_ok_def)
  then have "fd_file 99 R_WRITE ?s = Some (new_live path r)"
    by (simp add: fd_file_Some rights_contains_def R_READ_def R_WRITE_def)
  then show ?thesis
    using o assms(3-5)
    by (intro exI [of _ ?s]) (simp add: sys_write_def sys_read_def sys_close_def is_write_fd_def is_read_fd_def FD_DEV_NULL_def)
qed

theorem descriptor_99_is_null_witness:
  "\<exists>s'. open_file_writable ''/a'' 22 (demo_fs\<lparr>FD_TABLE := \<lparr>ht_table = [], next_id = 99\<rparr>\<rparr>) = Some (s', 99) \<and>
     sys_write 99 0 8 s' = Some (s', 8)"
proof -
  let ?s = "demo_fs\<lparr>FD_TABLE := \<lparr>ht_table = [], next_id = 99\<rparr>\<rparr>"
  have "fs_ok ?s" using demo_fs_ok by (simp add: fs_ok_def ht_ok_def)
  then show ?thesis
    using descriptor_99_is_null [of ?s 8 "''/a''" 22 0] by (auto simp: demo_fs_def pipe_init_def)
qed

end
