(* ===== verification/Fs_Calls.thy ===== *)
theory Fs_Calls
  imports Fd
begin

text \<open>
  The file system calls of \<open>syscall/fs.rs\<close> and the helpers of \<open>syscall/mod.rs\<close> and \<open>syscall/dev.rs\<close> they use,
  over the descriptors of theory \<open>Fd\<close>.

  \<^item> A call takes and returns the system state; \<open>None\<close> is a panic, \<open>Waits\<close> a call that waits for a key.
  \<^item> \<open>c_cwd\<close>, \<open>c_pid\<close> and \<open>c_cpus\<close> are the current directory and identifier of the calling process and the
    number of cores. \<open>LAST_OPEN_DIR\<close> is never set by any caller, so it is \<open>false\<close>.
  \<^item> Paths are read from user memory byte by byte up to a NUL or 4096 bytes and must be valid UTF-8; a path is
    the string of these bytes.
\<close>

section \<open>Strings from user memory\<close>

fun cstr :: "nat \<Rightarrow> umem \<Rightarrow> u64 \<Rightarrow> bytes" where
  "cstr 0 m a = []"
| "cstr (Suc k) m a = (if m a = 0 then [] else m a # cstr k m (a + 1))"

definition read_cstr :: "umem \<Rightarrow> u64 \<Rightarrow> string option" where
  "read_cstr m a =
     (if a = 0 then None
      else let bs = cstr 4096 m a in if utf8 bs then Some (map (\<lambda>b. char_of (unat b)) bs) else None)"

section \<open>State\<close>

record csys =
  c_fs :: fsys
  c_cwd :: string
  UMASK :: u32
  c_pid :: u64
  c_cpus :: nat

type_synonym call = "csys \<Rightarrow> (csys \<times> int) option"

definition c_mem :: "csys \<Rightarrow> umem" where "c_mem s = fs_mem (c_fs s)"

definition c_vfs :: "csys \<Rightarrow> vfs" where "c_vfs s = fs_vfs (c_fs s)"

definition set_vfs :: "vfs \<Rightarrow> csys \<Rightarrow> csys" where
  "set_vfs v s = s\<lparr>c_fs := (c_fs s)\<lparr>fs_vfs := v\<rparr>\<rparr>"

definition put_mem :: "u64 \<Rightarrow> bytes \<Rightarrow> csys \<Rightarrow> csys" where
  "put_mem a bs s = s\<lparr>c_fs := (c_fs s)\<lparr>fs_mem := poke a bs (fs_mem (c_fs s))\<rparr>\<rparr>"

definition with_path :: "u64 \<Rightarrow> (string \<Rightarrow> call) \<Rightarrow> call" where
  "with_path a k s = (case read_cstr (c_mem s) a of None \<Rightarrow> Some (s, EINVAL) | Some p \<Rightarrow> k p s)"

definition vfs_op :: "(vfs \<Rightarrow> vfs \<times> int) \<Rightarrow> call" where
  "vfs_op g s = (let (v, n) = g (c_vfs s) in Some (set_vfs v s, n))"

definition lift_fd :: "(fsys \<times> u32) option \<Rightarrow> csys \<Rightarrow> (csys \<times> int) option" where
  "lift_fd r s = map_option (\<lambda>(fs, fd). (s\<lparr>c_fs := fs\<rparr>, uint fd)) r"

section \<open>Status\<close>

definition sys_stat :: "u64 \<Rightarrow> u64 \<Rightarrow> call" where
  "sys_stat path_vaddr stat_vaddr = with_path path_vaddr (\<lambda>path s.
     if path = ''/'' \<or> ends_with ''/'' path then
       Some (s\<lparr>c_fs := (c_fs s)\<lparr>fs_mem := fill_stat stat_vaddr 0 True (c_mem s)\<rparr>\<rparr>, 0)
     else case stat_any (c_pid s) (c_cpus s) path (c_vfs s) of
         Some (ino, mode, uid, gid, nlink, sz) \<Rightarrow>
           Some (put_mem stat_vaddr (stat_bytes ino (ucast nlink) mode uid gid sz) s, 0)
       | None \<Rightarrow> Some (s, ENOENT))"

definition sys_lstat :: "u64 \<Rightarrow> u64 \<Rightarrow> call" where "sys_lstat = sys_stat"

definition sys_newfstatat :: "u64 \<Rightarrow> u64 \<Rightarrow> call" where "sys_newfstatat = sys_stat"

definition sys_access :: "u64 \<Rightarrow> call" where
  "sys_access path_vaddr = with_path path_vaddr (\<lambda>path s. Some (s, if exists_any path (c_vfs s) then 0 else ENOENT))"

definition statfs_bytes :: bytes where
  "statfs_bytes = concat (map to_le_bytes [0xEF53, 4096, 65536, 32768, 32768, 1024, 512, 0, 255, 4096, 0, 0, 0, 0, 0])"

definition sys_statfs :: "u64 \<Rightarrow> call" where
  "sys_statfs buf s = (if buf = 0 then Some (s, EFAULT) else Some (put_mem buf statfs_bytes s, 0))"

definition sys_prlimit64 :: "u64 \<Rightarrow> u64 \<Rightarrow> call" where
  "sys_prlimit64 res old s =
     (if old = 0 then Some (s, 0)
      else do {
        let v = (if res = 3 then 8 * 1024 * 1024 else - 1);
        hi \<leftarrow> add_chk old 8;
        Some (put_mem hi (to_le_bytes v) (put_mem old (to_le_bytes v) s), 0)
      })"

section \<open>Descriptors\<close>

definition sys_dup :: "u64 \<Rightarrow> int" where
  "sys_dup oldfd = (if oldfd \<le> 3 then uint oldfd else EBADF)"

definition sys_dup2 :: "u64 \<Rightarrow> u64 \<Rightarrow> int" where
  "sys_dup2 oldfd newfd = (if 3 < oldfd then EBADF else sint newfd)"

definition sys_fcntl :: "u64 \<Rightarrow> u64 \<Rightarrow> int" where
  "sys_fcntl fd cmd =
     (if cmd = 1 \<or> cmd = 2 then 0
      else if fd = 0 \<and> cmd = 3 then 0
      else if (fd = 1 \<or> fd = 2) \<and> cmd = 3 then 1
      else if fd = 3 \<and> cmd = 3 then 0
      else if cmd = 4 then 0
      else EINVAL)"

definition sys_ftruncate :: "u64 \<Rightarrow> u64 \<Rightarrow> call" where
  "sys_ftruncate fd len s = (let (fs, n) = truncate_fd (ucast fd) (unat len) (c_fs s) in Some (s\<lparr>c_fs := fs\<rparr>, n))"

fun readv_loop :: "nat \<Rightarrow> u64 \<Rightarrow> csys \<Rightarrow> (csys \<times> int) wait" where
  "readv_loop 0 iov s = Now (s, 0)"
| "readv_loop (Suc k) iov s =
     (if rd64 (c_mem s) (iov + 8) = 0 then readv_loop k (iov + 16) s
      else case read_key (c_fs s) of
          Waits \<Rightarrow> Waits
        | Now (fs, b) \<Rightarrow> Now (put_mem (rd64 (c_mem s) iov) [b] (s\<lparr>c_fs := fs\<rparr>), 1))"

definition sys_readv :: "u64 \<Rightarrow> u64 \<Rightarrow> u64 \<Rightarrow> csys \<Rightarrow> (csys \<times> int) wait" where
  "sys_readv fd iov cnt s = (if fd \<noteq> 0 then Now (s, EBADF) else readv_loop (unat cnt) iov s)"

fun writev_loop :: "u64 \<Rightarrow> nat \<Rightarrow> u64 \<Rightarrow> int \<Rightarrow> call" where
  "writev_loop fd 0 iov tot s = Some (s, tot)"
| "writev_loop fd (Suc k) iov tot s =
     (let a = rd64 (c_mem s) iov; len = rd64 (c_mem s) (iov + 8) in
      if len = 0 then writev_loop fd k (iov + 16) tot s
      else if fd = 0 then Some (s, EBADF)
      else do {
        (fs, n) \<leftarrow> (if fd = 1 \<or> fd = 2 then Some (put_console (peek (c_mem s) a (unat len)) (c_fs s), sint len)
                   else write_fd (ucast fd) a len (c_fs s));
        let s = s\<lparr>c_fs := fs\<rparr>;
        if n < 0 then Some (s, n)
        else do { tot \<leftarrow> i64_add tot n; writev_loop fd k (iov + 16) tot s }
      })"

definition sys_writev :: "u64 \<Rightarrow> u64 \<Rightarrow> u64 \<Rightarrow> call" where
  "sys_writev fd iov cnt = writev_loop fd (unat cnt) iov 0"

section \<open>Directories and names\<close>

definition sys_getcwd :: "u64 \<Rightarrow> u64 \<Rightarrow> call" where
  "sys_getcwd buf sz s =
     (let bytes = as_bytes (c_cwd s) in
      if unat sz < length bytes + 1 then Some (s, EINVAL)
      else do { e \<leftarrow> add_chk buf (of_nat (length bytes)); Some (put_mem e [0] (put_mem buf bytes s), sint buf) })"

definition sys_chdir :: "u64 \<Rightarrow> call" where
  "sys_chdir path_vaddr = with_path path_vaddr (\<lambda>path s.
     let p = (if path \<noteq> ''/'' then trim_end path else path) in
     if \<not> exists_any p (c_vfs s) then Some (s, ENOENT) else Some (s\<lparr>c_cwd := p\<rparr>, 0))"

definition sys_fchdir :: "u64 \<Rightarrow> call" where
  "sys_fchdir fd s =
     (case dir_path (ucast fd) (c_fs s) of
        Some p \<Rightarrow> Some (s\<lparr>c_cwd := p\<rparr>, 0)
      | None \<Rightarrow> (case file_path (ucast fd) (c_fs s) of
          Some p \<Rightarrow> Some (s\<lparr>c_cwd := p\<rparr>, 0)
        | None \<Rightarrow> Some (s, EBADF)))"

definition mkdir_result :: "string \<Rightarrow> vfs \<Rightarrow> vfs \<times> int" where
  "mkdir_result path v = (let (v, r) = mkdir path v in (v, if r = None then - 17 else 0))"

definition sys_mkdir :: "u64 \<Rightarrow> call" where "sys_mkdir a = with_path a (\<lambda>p. vfs_op (mkdir_result p))"

definition sys_rmdir :: "u64 \<Rightarrow> call" where "sys_rmdir a = with_path a (\<lambda>p. vfs_op (remove_entry p True))"

definition sys_unlink :: "u64 \<Rightarrow> call" where "sys_unlink a = with_path a (\<lambda>p. vfs_op (remove_entry p False))"

definition sys_creat :: "u64 \<Rightarrow> call" where
  "sys_creat a = with_path a (\<lambda>p. vfs_op (\<lambda>v. let (v, r) = create_file p v in (v, if r = None then - 17 else 3)))"

definition sys_truncate :: "u64 \<Rightarrow> u64 \<Rightarrow> call" where
  "sys_truncate a len = with_path a (\<lambda>p. vfs_op (truncate_vfs p (unat len)))"

definition sys_rename :: "u64 \<Rightarrow> u64 \<Rightarrow> call" where
  "sys_rename a b = with_path a (\<lambda>p. with_path b (\<lambda>q. vfs_op (rename p q)))"

definition link_op :: "string \<Rightarrow> string \<Rightarrow> call" where
  "link_op p q s = map_option (\<lambda>(v, n). (set_vfs v s, n)) (link_vfs p q (c_vfs s))"

definition sys_link :: "u64 \<Rightarrow> u64 \<Rightarrow> call" where
  "sys_link a b = with_path a (\<lambda>p. with_path b (link_op p))"

definition sys_symlink :: int where "sys_symlink = EPERM"

definition sys_readlink :: "u64 \<Rightarrow> u64 \<Rightarrow> u64 \<Rightarrow> call" where
  "sys_readlink a buf sz = with_path a (\<lambda>p s.
     case proc_readlink p of
       Some t \<Rightarrow> let n = min (length t) (unat sz) in Some (put_mem buf (take n t) s, int n)
     | None \<Rightarrow> Some (s, EINVAL))"

definition sys_chmod :: "u64 \<Rightarrow> u64 \<Rightarrow> call" where
  "sys_chmod a mode = with_path a (\<lambda>p. vfs_op (chmod_vfs p (ucast mode)))"

definition sys_chown :: "u64 \<Rightarrow> u64 \<Rightarrow> u64 \<Rightarrow> call" where
  "sys_chown a uid gid = with_path a (\<lambda>p. vfs_op (chown_vfs p (ucast uid) (ucast gid)))"

definition sys_umask :: "u64 \<Rightarrow> csys \<Rightarrow> csys \<times> int" where
  "sys_umask msk s = (s\<lparr>UMASK := ucast msk AND 0x1FF\<rparr>, uint (UMASK s))"

section \<open>Opening\<close>

definition open_special :: "string \<Rightarrow> call" where
  "open_special path s =
     (if dev_is_dir path then lift_fd (open_dir path (c_fs s)) s
      else if path = ''/dev/null'' \<or> path = ''/dev/zero'' then Some (s, uint FD_DEV_NULL)
      else map_option (\<lambda>(fs, r). (s\<lparr>c_fs := fs\<rparr>, case r of Some fd \<Rightarrow> uint fd | None \<Rightarrow> ENOENT)) (dev_open path (c_fs s)))"

definition open_proc :: "string \<Rightarrow> call" where
  "open_proc path s =
     (case proc_read (c_pid s) (c_cpus s) path of
        Some data \<Rightarrow> lift_fd (open_file path data False (c_fs s)) s
      | None \<Rightarrow> if proc_exists path then lift_fd (open_dir path (c_fs s)) s else Some (s, ENOENT))"

definition open_write :: "string \<Rightarrow> bool \<Rightarrow> bool \<Rightarrow> call" where
  "open_write path o_creat o_trunc s =
     (case open_writable path o_creat (c_vfs s) of
        (v, Some r) \<Rightarrow>
          let v = (if o_trunc then fst (truncate_node r 0 v) else v)
          in lift_fd (open_file_writable path r (c_fs (set_vfs v s))) s
      | (v, None) \<Rightarrow> Some (set_vfs v s, ENOENT))"

definition open_read :: "string \<Rightarrow> call" where
  "open_read path s =
     (case open_readonly path (c_vfs s) of
        Some data \<Rightarrow> lift_fd (open_file path data False (c_fs s)) s
      | None \<Rightarrow> if vfs_is_dir path (c_vfs s) then lift_fd (open_dir path (c_fs s)) s else Some (s, ENOENT))"

definition sys_open_impl :: "u64 \<Rightarrow> u64 \<Rightarrow> call" where
  "sys_open_impl path_vaddr flags = with_path path_vaddr (\<lambda>path s.
     if is_dev path then open_special path s
     else
       let o_dir = flags AND 0x10000 \<noteq> 0; o_creat = flags AND 0x40 \<noteq> 0; o_trunc = flags AND 0x200 \<noteq> 0;
           writable = flags AND 3 \<noteq> 0
       in if o_dir \<or> path = ''/'' \<or> ends_with ''/'' path then
            if exists_any path (c_vfs s) then lift_fd (open_dir path (c_fs s)) s else Some (s, ENOENT)
          else if is_proc path then open_proc path s
          else if writable \<or> o_creat then open_write path o_creat o_trunc s
          else open_read path s)"

definition sys_openat :: "u64 \<Rightarrow> u64 \<Rightarrow> call" where "sys_openat = sys_open_impl"

section \<open>Paths relative to a directory\<close>

definition resolve_at :: "int \<Rightarrow> u64 \<Rightarrow> csys \<Rightarrow> string option" where
  "resolve_at dirfd a s = do {
     path \<leftarrow> read_cstr (c_mem s) a;
     if starts_with ''/'' path then Some path
     else do {
       base \<leftarrow> (if dirfd = - 100 then Some (c_cwd s)
               else case dir_path (of_int dirfd) (c_fs s) of
                   Some p \<Rightarrow> Some p
                 | None \<Rightarrow> file_path (of_int dirfd) (c_fs s));
       Some (base @ (if ends_with ''/'' base then [] else ''/'') @ path)
     }
   }"

definition with_at :: "int \<Rightarrow> u64 \<Rightarrow> (string \<Rightarrow> call) \<Rightarrow> call" where
  "with_at dirfd a k s = (case resolve_at dirfd a s of None \<Rightarrow> Some (s, EINVAL) | Some p \<Rightarrow> k p s)"

definition sys_mkdirat :: "int \<Rightarrow> u64 \<Rightarrow> call" where
  "sys_mkdirat dirfd a = with_at dirfd a (\<lambda>p. vfs_op (mkdir_result p))"

definition sys_unlinkat :: "int \<Rightarrow> u64 \<Rightarrow> u64 \<Rightarrow> call" where
  "sys_unlinkat dirfd a flags = with_at dirfd a (\<lambda>p. vfs_op (remove_entry p (flags AND 0x200 \<noteq> 0)))"

definition sys_renameat :: "int \<Rightarrow> u64 \<Rightarrow> int \<Rightarrow> u64 \<Rightarrow> call" where
  "sys_renameat olddirfd a newdirfd b = with_at olddirfd a (\<lambda>p. with_at newdirfd b (\<lambda>q. vfs_op (rename p q)))"

definition sys_linkat :: "int \<Rightarrow> u64 \<Rightarrow> int \<Rightarrow> u64 \<Rightarrow> call" where
  "sys_linkat olddirfd a newdirfd b = with_at olddirfd a (\<lambda>p. with_at newdirfd b (link_op p))"

section \<open>Listing a directory\<close>

definition rec_len :: "string \<Rightarrow> nat" where "rec_len name = (19 + length name + 1 + 7) div 8 * 8"

definition dirent :: "u64 \<Rightarrow> nat \<Rightarrow> string \<Rightarrow> bool \<Rightarrow> bytes" where
  "dirent ino pos name is_dir =
     (let raw = 19 + length name + 1; r = rec_len name in
      to_le_bytes ino @ to_le_bytes (of_nat (pos + r)) @ take 2 (to_le_bytes (of_nat r)) @ [if is_dir then 4 else 8] @
      as_bytes name @ [0] @ replicate (r - raw) 0)"

fun dents :: "(string \<times> bool) list \<Rightarrow> nat \<Rightarrow> nat \<Rightarrow> u64 \<Rightarrow> bytes" where
  "dents [] pos mx ino = []"
| "dents ((name, is_dir) # es) pos mx ino =
     (if mx < pos + rec_len name then []
      else dirent ino pos name is_dir @ dents es (pos + rec_len name) mx (ino + 1))"

definition dir_entries :: "string \<Rightarrow> vfs \<Rightarrow> (string \<times> bool) list" where
  "dir_entries path v =
     (if is_dev path then dev_list path
      else if is_proc path then proc_list path
      else foldl (\<lambda>es e. if \<exists>x \<in> set es. fst x = de_name e then es else es @ [(de_name e, de_is_dir e)])
             (map (\<lambda>e. (de_name e, de_is_dir e)) (list_dir path v)) (ext4_list_dir path v))"

definition sys_getdents64 :: "u64 \<Rightarrow> u64 \<Rightarrow> u64 \<Rightarrow> call" where
  "sys_getdents64 fd buf cnt s =
     (if fd = 0 \<or> fd = 1 \<or> fd = 2 then Some (s, EBADF)
      else if buf = 0 then Some (s, EFAULT)
      else if cnt < 32 then Some (s, EINVAL)
      else case dir_path (ucast fd) (c_fs s) of
          None \<Rightarrow> Some (s, 0)
        | Some path \<Rightarrow>
            let out = dents (dir_entries path (c_vfs s)) 0 (unat cnt) 2
            in Some (put_mem buf out s, int (length out)))"

section \<open>Terminal control\<close>

definition termios :: bytes where
  "termios = [0, 5, 0, 0, 5, 0, 0, 0, 0xBF, 4, 0, 0, 0x3B, 0x8A, 0, 0, 0,
     3, 28, 127, 21, 4, 0, 1, 0, 17, 19, 26, 0, 18, 15, 23, 22, 0, 0, 0]"

definition is_tty_fd :: "u64 \<Rightarrow> fsys \<Rightarrow> bool" where
  "is_tty_fd fd s \<longleftrightarrow> fd \<le> 2 \<or>
     (case kind_of_fd (ucast fd) s of
        Some DTty \<Rightarrow> True | Some (DPts _) \<Rightarrow> True | Some DStdin \<Rightarrow> True | Some DStdout \<Rightarrow> True
      | Some DStderr \<Rightarrow> True | _ \<Rightarrow> False)"

definition opt_mem :: "u64 \<Rightarrow> bytes \<Rightarrow> csys \<Rightarrow> csys" where
  "opt_mem a bs s = (if a = 0 then s else put_mem a bs s)"

definition sys_ioctl :: "u64 \<Rightarrow> u64 \<Rightarrow> u64 \<Rightarrow> csys \<Rightarrow> csys \<times> int" where
  "sys_ioctl fd request arg s =
     (if request \<in> {0x5402, 0x5403, 0x5404, 0x5414, 0x5410, 0x5421, 0x5451, 0x5450, 0x40045431} then (s, 0)
      else if is_tty_fd fd (c_fs s) then
        (if request = 0x5401 then opt_mem arg termios s
         else if request = 0x5413 then opt_mem arg [24, 0, 80, 0, 0, 0, 0, 0] s
         else if request = 0x540F then opt_mem arg (le4 (ucast (c_pid s))) s
         else if request = 0x541B \<or> request = 0x80045430 then opt_mem arg (le4 0) s
         else s, 0)
      else (s, - 25))"


section \<open>A listing can be read back\<close>

text \<open>How a program walks the records of \<open>getdents64\<close>: by their length fields, names up to the NUL.\<close>

function read_dents :: "bytes \<Rightarrow> (bytes \<times> bool) list" where
  "read_dents bs =
     (if length bs < 20 \<or> unat (bs ! 16) + 256 * unat (bs ! 17) = 0 then []
      else let r = unat (bs ! 16) + 256 * unat (bs ! 17)
           in (takeWhile (\<lambda>b. b \<noteq> 0) (drop 19 (take r bs)), bs ! 18 = 4) # read_dents (drop r bs))"
  by auto
termination
  by (relation "measure length") auto

declare read_dents.simps [simp del]

definition listable :: "string \<Rightarrow> bool" where
  "listable name \<longleftrightarrow> CHR 0x00 \<notin> set name \<and> rec_len name < 65536"

lemma rec_len_bounds: "20 + length name \<le> rec_len name" "rec_len name \<le> 27 + length name"
  by (simp_all add: rec_len_def)

lemma length_as_bytes [simp]: "length (as_bytes s) = length s"
  by (simp add: as_bytes_def)

lemma length_dirent: "length (dirent ino pos name d) = rec_len name"
  using rec_len_bounds(1) [of name] by (simp add: dirent_def Let_def)

lemma as_bytes_nonzero: "CHR 0x00 \<notin> set s \<Longrightarrow> \<forall>b \<in> set (as_bytes s). b \<noteq> 0"
proof -
  assume a: "CHR 0x00 \<notin> set s"
  have "(of_char c :: u8) \<noteq> 0" if "c \<noteq> CHR 0x00" for c
  proof
    assume "(of_char c :: u8) = 0"
    then have "unat (of_char c :: u8) = 0" by simp
    moreover have "(of_char c :: u8) = of_nat (of_char c)" by (rule of_nat_of_char [symmetric])
    then have "unat (of_char c :: u8) = of_char c mod 256" by (simp only: unat_of_nat) simp
    moreover have "(of_char c :: nat) < 256" by simp
    ultimately have "(of_char c :: nat) = 0" by simp
    then have "char_of (of_char c :: nat) = char_of (0 :: nat)" by simp
    moreover have "char_of (0 :: nat) = CHR 0x00" by (simp add: char_of_def)
    ultimately show False using that by simp
  qed
  with a show ?thesis unfolding as_bytes_def by (metis (no_types, lifting) imageE list.set_map)
qed

lemma le_16:
  assumes "r < 65536"
  shows "unat (to_le_bytes (of_nat r) ! 0) + 256 * unat (to_le_bytes (of_nat r) ! 1) = r"
proof -
  have u: "unat (of_nat r :: u64) = r" using assms by (simp add: unat_of_nat)
  have "unat (ucast (of_nat r :: u64) :: u8) = r mod 256"
    using u by (simp add: unsigned_ucast_eq take_bit_eq_mod)
  moreover have "unat (ucast (drop_bit 8 (of_nat r :: u64)) :: u8) = r div 256 mod 256"
    unfolding unsigned_ucast_eq unat_drop_bit_eq u by (simp add: take_bit_eq_mod drop_bit_eq_div)
  ultimately show ?thesis using assms by (simp add: to_le_bytes_def)
qed

lemma read_dirent:
  assumes "listable name"
  shows "read_dents (dirent ino pos name d @ rest) = (as_bytes name, d) # read_dents rest"
proof -
  let ?r = "rec_len name" and ?e = "dirent ino pos name d"
  have nth: "?e ! 16 = to_le_bytes (of_nat ?r) ! 0" "?e ! 17 = to_le_bytes (of_nat ?r) ! 1" "?e ! 18 = (if d then 4 else 8)"
    by (simp_all add: dirent_def Let_def nth_append)
  have len: "20 \<le> ?r" using rec_len_bounds(1) [of name] by simp
  have r: "unat (?e ! 16) + 256 * unat (?e ! 17) = ?r"
    unfolding nth using le_16 [of ?r] assms by (simp add: listable_def)
  have "drop 19 ?e = as_bytes name @ 0 # replicate (?r - (20 + length name)) 0"
    by (simp add: dirent_def Let_def)
  then have nm: "takeWhile (\<lambda>b. b \<noteq> 0) (drop 19 ?e) = as_bytes name"
    using as_bytes_nonzero [of name] assms by (simp add: listable_def takeWhile_append2)
  have "(?e @ rest) ! 16 = ?e ! 16" "(?e @ rest) ! 17 = ?e ! 17" "(?e @ rest) ! 18 = ?e ! 18"
    using len by (simp_all add: nth_append length_dirent)
  then show ?thesis
    using len r nm nth(3) by (subst read_dents.simps) (simp add: length_dirent Let_def)
qed

lemma dents_spec:
  assumes "\<forall>e \<in> set es. listable (fst e)" "pos \<le> mx"
  shows "\<exists>k \<le> length es. read_dents (dents es pos mx ino) = map (\<lambda>e. (as_bytes (fst e), snd e)) (take k es) \<and>
    length (dents es pos mx ino) = (\<Sum>e \<leftarrow> take k es. rec_len (fst e)) \<and> pos + length (dents es pos mx ino) \<le> mx \<and>
    (k < length es \<longrightarrow> mx < pos + (\<Sum>e \<leftarrow> take (Suc k) es. rec_len (fst e)))"
  using assms
proof (induction es pos mx ino rule: dents.induct)
  case (1 pos mx ino)
  then show ?case by (simp add: read_dents.simps)
next
  case (2 name is_dir es pos mx ino)
  show ?case
  proof (cases "mx < pos + rec_len name")
    case True
    then show ?thesis by (intro exI [of _ 0]) (use 2(3) in \<open>simp add: read_dents.simps\<close>)
  next
    case False
    then obtain k where k: "k \<le> length es"
      "read_dents (dents es (pos + rec_len name) mx (ino + 1)) = map (\<lambda>e. (as_bytes (fst e), snd e)) (take k es)"
      "length (dents es (pos + rec_len name) mx (ino + 1)) = (\<Sum>e \<leftarrow> take k es. rec_len (fst e))"
      "pos + rec_len name + length (dents es (pos + rec_len name) mx (ino + 1)) \<le> mx"
      "k < length es \<longrightarrow> mx < pos + rec_len name + (\<Sum>e \<leftarrow> take (Suc k) es. rec_len (fst e))"
      using 2(1) [OF False] 2(2) by (metis (no_types, lifting) leI list.set_intros(2))
    then show ?thesis
      using False read_dirent [of name ino pos is_dir] 2(2)
      by (intro exI [of _ "Suc k"]) (auto simp: length_dirent add.assoc)
  qed
qed


text \<open>C30: \<open>getdents64\<close> fills the buffer with whole records that a program reads back as the entries of the directory,
  in order and as many as fit, never writes past the buffer, and returns the number of bytes written.\<close>

theorem getdents_readable:
  assumes "3 \<le> fd" "buf \<noteq> 0" "32 \<le> cnt" "dir_path (ucast fd) (c_fs s) = Some path"
    and "\<forall>e \<in> set (dir_entries path (c_vfs s)). listable (fst e)"
  shows "\<exists>out k. sys_getdents64 fd buf cnt s = Some (put_mem buf out s, int (length out)) \<and> length out \<le> unat cnt \<and>
    read_dents out = map (\<lambda>e. (as_bytes (fst e), snd e)) (take k (dir_entries path (c_vfs s))) \<and>
    (k < length (dir_entries path (c_vfs s)) \<longrightarrow>
       unat cnt < (\<Sum>e \<leftarrow> take (Suc k) (dir_entries path (c_vfs s)). rec_len (fst e)))"
proof -
  have ne: "fd \<noteq> 0" "fd \<noteq> 1" "fd \<noteq> 2" using assms(1) by (auto simp: word_le_nat_alt)
  have "\<not> cnt < 32" using assms(3) by simp
  then have "sys_getdents64 fd buf cnt s =
      (let out = dents (dir_entries path (c_vfs s)) 0 (unat cnt) 2 in Some (put_mem buf out s, int (length out)))"
    using ne assms(2,4) by (simp add: sys_getdents64_def)
  then show ?thesis
    using dents_spec [OF assms(5), of 0 "unat cnt" 2] by (auto simp: Let_def)
qed

section \<open>Opening for writing\<close>

lemma open_writable_lookup:
  assumes "vfs_ok v" "open_writable path o_creat v = (v', Some r)"
  shows "vlookup path v' = Some r"
proof (cases "vlookup path v")
  case None
  have cr: "vlookup path v' = Some r" if "create_file path (ensure_parent_dirs path v) = (v', Some r)"
    using create_in_names [OF ensure_parent_dirs_ok [OF assms(1)], of True path path] that
    by (simp add: create_file_def vlookup_names)
  show ?thesis
  proof (cases "ext4_exists path v")
    case True
    then obtain data v1 where "ext4_read_file path v = Some data"
      "create_file path (ensure_parent_dirs path v) = (v1, Some r)" "v' = set_data r data v1"
      using assms(2) None by (auto simp: open_writable_def copy_up_def split: option.splits prod.splits)
    then show ?thesis using copy_up_fresh(2) [OF assms(1) None] by blast
  qed (use assms(2) None cr in \<open>auto simp: open_writable_def split: if_splits\<close>)
qed (use assms(2) in \<open>auto simp: open_writable_def\<close>)

lemma truncate_node_names:
  assumes "vfs_ok v"
  shows "names (fst (truncate_node r sz v)) = names v"
  using names_set_file [OF assms] by (auto simp: truncate_node_def split: vfs_node.split)

lemma set_vfs_simps [simp]:
  "c_vfs (set_vfs v s) = v" "c_mem (set_vfs v s) = c_mem s" "c_fs (set_vfs v s) = (c_fs s)\<lparr>fs_vfs := v\<rparr>"
  by (simp_all add: set_vfs_def c_vfs_def c_mem_def)

lemma fd_insert_new:
  assumes "fs_ok s" "fd_insert r rights s = Some (s', fd)"
  shows "bt_get fd (ht_table (FD_TABLE s')) = Some \<lparr>cap_object = r, cap_rights = rights\<rparr>" "fs_mem s' = fs_mem s"
proof -
  have wf: "bt_wf (ht_table (FD_TABLE s))" using fs_okD(2) [OF assms(1)] by (simp add: ht_ok_def)
  show "bt_get fd (ht_table (FD_TABLE s')) = Some \<lparr>cap_object = r, cap_rights = rights\<rparr>" "fs_mem s' = fs_mem s"
    using assms(2) wf by (auto simp: fd_insert_def ht_insert_def Option.bind_eq_Some_conv Let_def)
qed

text \<open>opening a path for writing gives a fresh descriptor of exactly the file that the path names afterwards (an
  existing one, a copy of the file of the read-only image, or a new empty one), and \<open>O_TRUNC\<close> empties it.\<close>

theorem open_for_writing:
  assumes ok: "fs_ok (c_fs s)" and p: "read_cstr (c_mem s) a = Some path"
    and kind: "\<not> is_dev path" "\<not> is_proc path" "path \<noteq> ''/''" "\<not> ends_with ''/'' path" "flags AND 0x10000 = 0"
    and wr: "flags AND 3 \<noteq> 0 \<or> flags AND 0x40 \<noteq> 0"
    and op: "sys_open_impl a flags s = Some (s', n)" "n \<noteq> ENOENT"
  shows "\<exists>fd r. n = uint fd \<and> vlookup path (c_vfs s') = Some r \<and> fd_file fd R_NONE (c_fs s) = None \<and>
    fd_file fd (R_READ OR R_WRITE) (c_fs s') = Some (new_live path r) \<and>
    (flags AND 0x200 \<noteq> 0 \<longrightarrow> fcontent (c_vfs s') r \<noteq> None \<longrightarrow> fcontent (c_vfs s') r = Some [])"
proof -
  obtain v r where o: "open_writable path (flags AND 0x40 \<noteq> 0) (c_vfs s) = (v, Some r)"
    and l: "lift_fd (open_file_writable path r (c_fs (set_vfs (if flags AND 0x200 \<noteq> 0 then fst (truncate_node r 0 v) else v) s))) s = Some (s', n)"
    using op p kind wr by (auto simp: sys_open_impl_def with_path_def open_write_def Let_def split: prod.splits option.splits)
  let ?v = "if flags AND 0x200 \<noteq> 0 then fst (truncate_node r 0 v) else v"
  have ov: "vfs_ok (c_vfs s)" using fs_okD(1) [OF ok] by (simp add: c_vfs_def)
  have okv: "vfs_ok v" using open_writable_ok [OF ov, of path "flags AND 0x40 \<noteq> 0"] o by simp
  have okt: "vfs_ok ?v" "length (vnodes (c_vfs s)) \<le> length (vnodes ?v)"
    using okv truncate_node_ok [OF okv] length_open_writable [of "c_vfs s" path "flags AND 0x40 \<noteq> 0"] o by auto
  have lk: "vlookup path ?v = Some r"
    using open_writable_lookup [OF ov o] truncate_node_names [OF okv] by (simp add: vlookup_names)
  have ok1: "fs_ok (c_fs (set_vfs ?v s))" using fs_ok_vfs [OF ok okt(1)] okt(2) by (simp add: c_vfs_def)
  obtain fs fd where f: "fd_insert (FileRes (new_live path r)) (R_READ OR R_WRITE) (c_fs (set_vfs ?v s)) = Some (fs, fd)"
    "s' = s\<lparr>c_fs := fs\<rparr>" "n = uint fd"
    using l by (auto simp: lift_fd_def open_file_writable_def)
  note new = fd_insert_new [OF ok1 f(1)]
  have v': "c_vfs s' = ?v"
    using f(1,2) by (auto simp: c_vfs_def fd_insert_def Option.bind_eq_Some_conv)
  have "fd = next_id (FD_TABLE (c_fs s))"
    using f(1) by (auto simp: fd_insert_def ht_insert_def Option.bind_eq_Some_conv Let_def)
  then have "fd_file fd R_NONE (c_fs s) = None"
    using ht_next_fresh [OF fs_okD(2) [OF ok]] by (simp add: fd_file_def ht_get_def)
  moreover have "fd_file fd (R_READ OR R_WRITE) (c_fs s') = Some (new_live path r)"
    using new(1) by (simp add: fd_file_Some f(2))
  moreover have "fcontent ?v r = Some []" if "flags AND 0x200 \<noteq> 0" "fcontent ?v r \<noteq> None"
    using that vlookup_range [OF lk okt(1)]
    by (auto simp: fcontent_def truncate_node_def resize_def split: vfs_node.splits)
  ultimately show ?thesis using f(3) lk v' by auto
qed


section \<open>The invariant of the file system calls\<close>

definition keeps :: "call \<Rightarrow> bool" where
  "keeps g \<longleftrightarrow> (\<forall>s s' n. fs_ok (c_fs s) \<longrightarrow> g s = Some (s', n) \<longrightarrow> fs_ok (c_fs s'))"

definition vfs_safe :: "(vfs \<Rightarrow> vfs \<times> int) \<Rightarrow> bool" where
  "vfs_safe g \<longleftrightarrow> (\<forall>v. vfs_ok v \<longrightarrow> vfs_ok (fst (g v)) \<and> length (vnodes v) \<le> length (vnodes (fst (g v))))"

named_theorems keeps_rules \<open>calls that keep the invariant\<close>

lemma put_mem_fs [simp]: "fs_ok (c_fs (put_mem a bs s)) = fs_ok (c_fs s)" "fs_ok ((c_fs s)\<lparr>fs_mem := m\<rparr>) = fs_ok (c_fs s)"
  by (simp_all add: put_mem_def fs_ok_def)

lemma keeps_with_path: "(\<And>p. keeps (k p)) \<Longrightarrow> keeps (with_path a k)"
  by (auto simp: keeps_def with_path_def split: option.splits)

lemma keeps_with_at: "(\<And>p. keeps (k p)) \<Longrightarrow> keeps (with_at d a k)"
  by (auto simp: keeps_def with_at_def split: option.splits)

lemma keeps_vfs_op: "vfs_safe g \<Longrightarrow> keeps (vfs_op g)"
  by (auto simp: keeps_def vfs_op_def vfs_safe_def c_vfs_def case_prod_beta intro!: fs_ok_vfs dest: fs_okD(1))

lemma safe_mkdir: "vfs_safe (mkdir_result p)"
  using create_in_ok [of _ False p] length_create_in [of _ False p]
  by (simp add: vfs_safe_def mkdir_result_def mkdir_def case_prod_beta)

lemma safe_creat: "vfs_safe (\<lambda>v. let (v, r) = create_file p v in (v, if r = None then - 17 else 3))"
  using create_in_ok [of _ True p] length_create_in [of _ True p]
  by (simp add: vfs_safe_def create_file_def case_prod_beta)

lemma safe_remove: "vfs_safe (remove_entry p d)"
  using remove_entry_ok [of _ p d]
  by (auto simp: vfs_safe_def remove_entry_def split: option.split vfs_node.split prod.split)

lemma safe_rename: "vfs_safe (rename p q)"
proof -
  have "length (vnodes (fst (rename p q v))) = length (vnodes v)" for v
    by (auto simp: rename_def rename_in_def rename_across_def Let_def split: option.split vfs_node.split prod.split)
  then show ?thesis using rename_ok by (simp add: vfs_safe_def)
qed

lemma safe_truncate: "vfs_safe (truncate_vfs p sz)"
  using truncate_vfs_ok [of _ p sz]
  by (auto simp: vfs_safe_def truncate_vfs_def split: option.split)

lemma safe_meta: "vfs_safe (upd_meta f p)"
  using upd_meta_ok [of _ f p]
  by (auto simp: vfs_safe_def upd_meta_def split: option.split vfs_node.split)

lemma keeps_link: "keeps (link_op p q)"
proof -
  have "length (vnodes v') = length (vnodes v)" if "link_vfs p q v = Some (v', n)" for v v' n
    using that by (auto simp: link_vfs_def Option.bind_eq_Some_conv split: option.splits vfs_node.splits prod.splits)
  moreover have "vfs_ok v'" if "fs_ok t" "link_vfs p q (fs_vfs t) = Some (v', n)" for t v' n
    using link_vfs_ok [OF fs_okD(1) [OF that(1)] that(2)] .
  ultimately show ?thesis
    by (auto simp: keeps_def link_op_def c_vfs_def intro!: fs_ok_vfs)
qed

lemma keeps_name_calls [keeps_rules]:
  "keeps (sys_mkdir a)" "keeps (sys_rmdir a)" "keeps (sys_unlink a)" "keeps (sys_creat a)" "keeps (sys_truncate a len)"
  "keeps (sys_rename a b)" "keeps (sys_link a b)" "keeps (sys_chmod a mode)" "keeps (sys_chown a uid gid)"
  "keeps (sys_mkdirat d a)" "keeps (sys_unlinkat d a fl)" "keeps (sys_renameat d a d' b)" "keeps (sys_linkat d a d' b)"
  unfolding sys_mkdir_def sys_rmdir_def sys_unlink_def sys_creat_def sys_truncate_def sys_rename_def sys_link_def
    sys_chmod_def sys_chown_def sys_mkdirat_def sys_unlinkat_def sys_renameat_def sys_linkat_def chmod_vfs_def chown_vfs_def
  by (intro keeps_with_path keeps_with_at keeps_vfs_op keeps_link safe_mkdir safe_remove safe_creat safe_truncate
      safe_rename safe_meta)+

lemma keeps_query_calls [keeps_rules]:
  "keeps (sys_stat a p)" "keeps (sys_access a)" "keeps (sys_statfs p)" "keeps (sys_prlimit64 res old)"
  "keeps (sys_getcwd p sz)" "keeps (sys_chdir a)" "keeps (sys_fchdir fd)" "keeps (sys_readlink a p sz)"
  "keeps (sys_getdents64 fd p cnt)"
  by (auto simp: keeps_def with_path_def sys_stat_def sys_access_def sys_chdir_def sys_readlink_def sys_statfs_def sys_prlimit64_def sys_getcwd_def sys_fchdir_def
      sys_getdents64_def Let_def Option.bind_eq_Some_conv split: if_splits option.splits prod.splits)

lemma lift_fd_ok:
  "lift_fd r s = Some (s', n) \<Longrightarrow> (\<And>fs fd. r = Some (fs, fd) \<Longrightarrow> fs_ok fs) \<Longrightarrow> fs_ok (c_fs s')"
  by (auto simp: lift_fd_def)

lemma open_file_ro_ok: "fs_ok s \<Longrightarrow> open_file path data False s = Some (s', fd) \<Longrightarrow> fs_ok s'"
  by (auto simp: open_file_def new_readonly_def dest: fd_insert_ok(1))

lemma keeps_opens:
  "keeps (\<lambda>s. lift_fd (open_dir p (c_fs s)) s)" "keeps (open_special p)" "keeps (open_proc p)" "keeps (open_read p)"
  by (auto simp: keeps_def open_special_def open_proc_def open_read_def elim!: lift_fd_ok
      intro: open_dir_ok open_file_ro_ok dev_open_ok split: if_splits option.splits)

lemma keeps_open_write: "keeps (open_write p c t)"
proof -
  have "fs_ok (c_fs s')"
    if ok: "fs_ok (c_fs s)" and w: "open_writable p c (c_vfs s) = (v, x)" and r: "open_write p c t s = Some (s', n)" for s s' n v x
  proof -
    have ov: "vfs_ok (c_vfs s)" using fs_okD(1) [OF ok] by (simp add: c_vfs_def)
    have okv: "vfs_ok v" "length (vnodes (c_vfs s)) \<le> length (vnodes v)"
      using open_writable_ok [OF ov, of p c] length_open_writable [of "c_vfs s" p c] w by simp_all
    have ok': "fs_ok ((c_fs s)\<lparr>fs_vfs := v'\<rparr>)" if "vfs_ok v'" "length (vnodes v') = length (vnodes v)" for v'
      using fs_ok_vfs [OF ok that(1)] that(2) okv(2) by (simp add: c_vfs_def)
    show ?thesis
    proof (cases x)
      case None
      then show ?thesis using r w ok' okv by (auto simp: open_write_def)
    next
      case (Some y)
      have "y < length (vnodes v)"
        using vlookup_range [OF open_writable_lookup [OF ov] okv(1)] w Some by blast
      then have new: "fs_ok fs" if "open_file_writable p y ((c_fs s)\<lparr>fs_vfs := v'\<rparr>) = Some (fs, fd)"
          "vfs_ok v'" "length (vnodes v') = length (vnodes v)" for v' fs fd
        using open_file_writable_ok [OF ok' [OF that(2,3)] _ that(1)] that(3) by simp
      show ?thesis
        using r w Some okv(1) truncate_node_ok [OF okv(1)]
        by (auto simp: open_write_def Let_def elim!: lift_fd_ok intro: new split: if_splits)
    qed
  qed
  then show ?thesis unfolding keeps_def by (metis surj_pair)
qed

lemma keeps_if: "keeps g \<Longrightarrow> keeps h \<Longrightarrow> keeps (\<lambda>s. if b then g s else h s)"
  by (cases b) simp_all

lemma keepsD: "keeps g \<Longrightarrow> g s = Some (s', n) \<Longrightarrow> fs_ok (c_fs s) \<Longrightarrow> fs_ok (c_fs s')"
  unfolding keeps_def by blast

lemma keeps_open [keeps_rules]: "keeps (sys_open_impl a flags)"
proof -
  have dir: "keeps (\<lambda>s. if exists_any p (c_vfs s) then lift_fd (open_dir p (c_fs s)) s else Some (s, ENOENT))" for p
    using keeps_opens(1) [of p] by (auto simp: keeps_def split: if_splits)
  show ?thesis
    unfolding sys_open_impl_def Let_def
    by (intro keeps_with_path keeps_if dir keeps_opens keeps_open_write)
qed

lemma keeps_writev: "keeps (writev_loop fd k iov tot)"
proof (induction k arbitrary: iov tot)
  case 0
  then show ?case by (simp add: keeps_def)
next
  case (Suc k)
  have c: "fs_ok (put_console bs t) = fs_ok t" for bs t by (simp add: put_console_def fs_ok_def)
  show ?case
    unfolding keeps_def
  proof (intro allI impI)
    fix s s' n assume ok: "fs_ok (c_fs s)" and w: "writev_loop fd (Suc k) iov tot s = Some (s', n)"
    show "fs_ok (c_fs s')"
    proof (cases "rd64 (c_mem s) (iov + 8) = 0")
      case True
      then show ?thesis using w Suc [of "iov + 16" tot] ok unfolding keeps_def by (simp add: Let_def)
    next
      case False
      then show ?thesis
        using w ok c write_fd_ok [OF ok]
        by (auto simp: Let_def Option.bind_eq_Some_conv split: if_split_asm intro: keepsD [OF Suc])
    qed
  qed
qed

lemma keeps_fd_calls [keeps_rules]: "keeps (sys_ftruncate fd len)" "keeps (sys_writev fd iov cnt)"
  using truncate_fd_ok keeps_writev by (auto simp: keeps_def sys_ftruncate_def case_prod_beta sys_writev_def)


lemma fs_ok_devices:
  "fs_ok (t\<lparr>fs_mem := m\<rparr>) = fs_ok t" "fs_ok (t\<lparr>console := bs\<rparr>) = fs_ok t" "fs_ok (t\<lparr>keys := ks\<rparr>) = fs_ok t"
  "fs_ok (t\<lparr>RNG := x\<rparr>) = fs_ok t" "fs_ok (t\<lparr>fs_pipe := p\<rparr>) = fs_ok t" "fs_ok (t\<lparr>SIG_PENDING := w\<rparr>) = fs_ok t"
  by (simp_all add: fs_ok_def)

lemma fs_calls_ok:
  "fs_ok t \<Longrightarrow> sys_write fd buf cnt t = Some (t', n) \<Longrightarrow> fs_ok t'"
  "fs_ok t \<Longrightarrow> sys_read fd buf cnt t = Now (t', n) \<Longrightarrow> fs_ok t'"
  "fs_ok t \<Longrightarrow> sys_lseek_v4 fd off whence t = Some (t', n) \<Longrightarrow> fs_ok t'"
  "fs_ok t \<Longrightarrow> sys_pwrite64 fd buf cnt off t = Some (t', n) \<Longrightarrow> fs_ok t'"
proof -
  assume ok: "fs_ok t"
  note [simp] = put_console_def fs_ok_devices
  have dw: "fs_ok (fst (dev_write fd' buf cnt t))" for fd'
    using ok by (auto simp: dev_write_def split: option.split dev_kind.split)
  have key: "fs_ok u" if "read_key t = Now (u, b)" for u b
    using ok that by (auto simp: read_key_def split: list.splits)
  have dr: "fs_ok u" if "dev_read fd' buf cnt t = Now (u, m)" for fd' u m
    using ok that
    by (auto simp: dev_read_def case_prod_beta Let_def dest: key
        split: option.split_asm dev_kind.split_asm if_split_asm wait.split_asm)
  show "sys_write fd buf cnt t = Some (t', n) \<Longrightarrow> fs_ok t'"
    using ok dw [of "ucast fd"] write_fd_ok [OF ok]
    by (auto simp: sys_write_def Let_def split: if_splits prod.splits)
  show "sys_read fd buf cnt t = Now (t', n) \<Longrightarrow> fs_ok t'"
    using ok fd_read_ok [OF ok, of "ucast fd" buf cnt]
    by (auto simp: sys_read_def Let_def case_prod_beta split: if_split_asm wait.split_asm dest: key dr)
  show "sys_lseek_v4 fd off whence t = Some (t', n) \<Longrightarrow> fs_ok t'"
    using ok fd_seek_ok [OF ok] by (auto simp: sys_lseek_v4_def split: if_splits)
  show "sys_pwrite64 fd buf cnt off t = Some (t', n) \<Longrightarrow> fs_ok t'"
    using ok
    by (auto simp: sys_pwrite64_def Option.bind_eq_Some_conv split: if_split_asm)
      (meson fd_seek_ok write_fd_ok)+
qed


text \<open>One call of a process, whatever its arguments.\<close>

inductive fcall :: "csys \<Rightarrow> csys \<Rightarrow> bool" where
  stat: "sys_stat a p s = Some (s', n) \<Longrightarrow> fcall s s'"
| access: "sys_access a s = Some (s', n) \<Longrightarrow> fcall s s'"
| statfs: "sys_statfs p s = Some (s', n) \<Longrightarrow> fcall s s'"
| prlimit: "sys_prlimit64 res old s = Some (s', n) \<Longrightarrow> fcall s s'"
| getcwd: "sys_getcwd p sz s = Some (s', n) \<Longrightarrow> fcall s s'"
| chdir: "sys_chdir a s = Some (s', n) \<Longrightarrow> fcall s s'"
| fchdir: "sys_fchdir fd s = Some (s', n) \<Longrightarrow> fcall s s'"
| readlink: "sys_readlink a p sz s = Some (s', n) \<Longrightarrow> fcall s s'"
| getdents: "sys_getdents64 fd p cnt s = Some (s', n) \<Longrightarrow> fcall s s'"
| mkdir: "sys_mkdir a s = Some (s', n) \<Longrightarrow> fcall s s'"
| rmdir: "sys_rmdir a s = Some (s', n) \<Longrightarrow> fcall s s'"
| unlink: "sys_unlink a s = Some (s', n) \<Longrightarrow> fcall s s'"
| creat: "sys_creat a s = Some (s', n) \<Longrightarrow> fcall s s'"
| truncate: "sys_truncate a len s = Some (s', n) \<Longrightarrow> fcall s s'"
| rename: "sys_rename a b s = Some (s', n) \<Longrightarrow> fcall s s'"
| link: "sys_link a b s = Some (s', n) \<Longrightarrow> fcall s s'"
| chmod: "sys_chmod a mode s = Some (s', n) \<Longrightarrow> fcall s s'"
| chown: "sys_chown a uid gid s = Some (s', n) \<Longrightarrow> fcall s s'"
| mkdirat: "sys_mkdirat d a s = Some (s', n) \<Longrightarrow> fcall s s'"
| unlinkat: "sys_unlinkat d a fl s = Some (s', n) \<Longrightarrow> fcall s s'"
| renameat: "sys_renameat d a d' b s = Some (s', n) \<Longrightarrow> fcall s s'"
| linkat: "sys_linkat d a d' b s = Some (s', n) \<Longrightarrow> fcall s s'"
| umask: "sys_umask msk s = (s', n) \<Longrightarrow> fcall s s'"
| ioctl: "sys_ioctl fd request arg s = (s', n) \<Longrightarrow> fcall s s'"
| openat: "sys_openat a flags s = Some (s', n) \<Longrightarrow> fcall s s'"
| ftruncate: "sys_ftruncate fd len s = Some (s', n) \<Longrightarrow> fcall s s'"
| writev: "sys_writev fd iov cnt s = Some (s', n) \<Longrightarrow> fcall s s'"
| readv: "sys_readv fd iov cnt s = Now (s', n) \<Longrightarrow> fcall s s'"
| write_call: "sys_write fd buf cnt (c_fs s) = Some (fs, n) \<Longrightarrow> fcall s (s\<lparr>c_fs := fs\<rparr>)"
| read_call: "sys_read fd buf cnt (c_fs s) = Now (fs, n) \<Longrightarrow> fcall s (s\<lparr>c_fs := fs\<rparr>)"
| pread: "sys_pread64_v4 fd buf cnt off (c_fs s) = (fs, n) \<Longrightarrow> fcall s (s\<lparr>c_fs := fs\<rparr>)"
| pwrite: "sys_pwrite64 fd buf cnt off (c_fs s) = Some (fs, n) \<Longrightarrow> fcall s (s\<lparr>c_fs := fs\<rparr>)"
| lseek: "sys_lseek_v4 fd off whence (c_fs s) = Some (fs, n) \<Longrightarrow> fcall s (s\<lparr>c_fs := fs\<rparr>)"
| fstat: "sys_fstat_v4 fd p (c_fs s) = (fs, n) \<Longrightarrow> fcall s (s\<lparr>c_fs := fs\<rparr>)"
| close: "sys_close fd (c_fs s) = (fs, n) \<Longrightarrow> fcall s (s\<lparr>c_fs := fs\<rparr>)"

lemma readv_ok: "sys_readv fd iov cnt s = Now (s', n) \<Longrightarrow> fs_ok (c_fs s) \<Longrightarrow> fs_ok (c_fs s')"
proof -
  have "readv_loop k iov s = Now (s', n) \<Longrightarrow> fs_ok (c_fs s) \<Longrightarrow> fs_ok (c_fs s')" for k iov s
    by (induction k arbitrary: iov)
      (auto simp: read_key_def fs_ok_devices split: if_split_asm wait.split_asm list.split_asm)
  then show "sys_readv fd iov cnt s = Now (s', n) \<Longrightarrow> fs_ok (c_fs s) \<Longrightarrow> fs_ok (c_fs s')"
    by (auto simp: sys_readv_def split: if_split_asm)
qed

lemma fd_rest_ok:
  assumes "fs_ok t"
  shows "fs_ok (fst (sys_pread64_v4 fd buf cnt off t))" "fs_ok (fst (sys_fstat_v4 fd p t))" "fs_ok (fst (sys_close fd t))"
  using assms fd_close_ok [OF assms]
  by (auto simp: sys_pread64_v4_def fd_pread_def sys_fstat_v4_def sys_fstat_def dev_fstat_def sys_close_def Let_def
      fs_ok_devices split: option.split)

lemma fcall_ok: "fcall s s' \<Longrightarrow> fs_ok (c_fs s) \<Longrightarrow> fs_ok (c_fs s')"
proof (induction rule: fcall.induct)
  case (ioctl fd request arg s s' n)
  then show ?case by (auto simp: sys_ioctl_def opt_mem_def split: if_split_asm)
next
  case (umask msk s s' n)
  then show ?case by (auto simp: sys_umask_def)
next
  case (openat a flags s s' n)
  then show ?case unfolding sys_openat_def using keepsD [OF keeps_open] by blast
next
  case (readv fd iov cnt s s' n)
  then show ?case by (rule readv_ok)
next
  case (pread fd buf cnt off s fs n)
  then show ?case using fd_rest_ok(1) [of "c_fs s" fd buf cnt off] by simp
next
  case (fstat fd p s fs n)
  then show ?case using fd_rest_ok(2) [of "c_fs s" fd p] by simp
next
  case (close fd s fs n)
  then show ?case using fd_rest_ok(3) [of "c_fs s" fd] by simp
next
  case (write_call fd buf cnt s fs n)
  then show ?case using fs_calls_ok(1) by simp
next
  case (read_call fd buf cnt s fs n)
  then show ?case using fs_calls_ok(2) by simp
next
  case (lseek fd off whence s fs n)
  then show ?case using fs_calls_ok(3) by simp
next
  case (pwrite fd buf cnt off s fs n)
  then show ?case using fs_calls_ok(4) by simp
qed (rule keeps_rules [THEN keepsD]; assumption)+


text \<open>C29: whatever sequence of file calls a process makes, with any arguments and any contents of its memory, the file
  tree and the descriptor table stay well formed and every open descriptor refers to an existing file.\<close>

theorem file_calls_invariant:
  assumes "fcall\<^sup>*\<^sup>* s s'" "fs_ok (c_fs s)"
  shows "fs_ok (c_fs s')"
  using assms by (induction rule: rtranclp_induct) (auto intro: fcall_ok)

definition demo_calls :: csys where
  "demo_calls = \<lparr>c_fs = demo_fs\<lparr>fs_mem := poke 4096 (as_bytes ''/b'') (\<lambda>_. 0),
       FD_TABLE := \<lparr>ht_table = [(3, \<lparr>cap_object = DirRes ''/'', cap_rights = R_READ\<rparr>)], next_id = 4\<rparr>\<rparr>,
     c_cwd = ''/'', UMASK = 0x12, c_pid = 1, c_cpus = 1\<rparr>"

lemma demo_calls_ok: "fs_ok (c_fs demo_calls)"
proof -
  have "open_dir ''/'' (demo_fs\<lparr>fs_mem := poke 4096 (as_bytes ''/b'') (\<lambda>_. 0)\<rparr>) = Some (c_fs demo_calls, 3)"
    by (simp add: open_dir_def fd_insert_def ht_insert_def demo_fs_def demo_calls_def ht_new_def add_chk_def Let_def)
  then show ?thesis using open_dir_ok demo_fs_ok fs_ok_devices(1) by blast
qed

lemma demo_path: "read_cstr (c_mem demo_calls) 4096 = Some ''/b''"
  by code_simp

lemma demo_open_result: "map_option snd (sys_open_impl 4096 0x41 demo_calls) = Some 4"
  by code_simp

theorem open_for_writing_witness:
  "\<exists>s' r. sys_open_impl 4096 0x41 demo_calls = Some (s', 4) \<and> vlookup ''/b'' (c_vfs s') = Some r \<and>
    fd_file 4 (R_READ OR R_WRITE) (c_fs s') = Some (new_live ''/b'' r)"
proof -
  obtain s' where s': "sys_open_impl 4096 0x41 demo_calls = Some (s', 4)"
    using demo_open_result by auto
  have k: "\<not> is_dev ''/b''" "\<not> is_proc ''/b''" "\<not> ends_with ''/'' ''/b''" by code_simp+
  obtain fd r where "4 = uint fd" "vlookup ''/b'' (c_vfs s') = Some r"
    "fd_file fd (R_READ OR R_WRITE) (c_fs s') = Some (new_live ''/b'' r)"
    using open_for_writing [OF demo_calls_ok demo_path k(1,2) _ k(3) _ _ s'] by (auto simp: ENOENT_def)
  moreover from this have "fd = 4" by (simp add: word_uint_eq_iff)
  ultimately show ?thesis using s' by auto
qed

theorem file_calls_invariant_witness:
  "\<exists>s1 s2. fcall demo_calls s1 \<and> fcall s1 s2 \<and> s1 \<noteq> demo_calls \<and> fs_ok (c_fs s2)"
proof -
  obtain s1 where s1: "sys_open_impl 4096 0x41 demo_calls = Some (s1, 4)"
    using demo_open_result by auto
  let ?s2 = "fst (sys_umask 0 s1)"
  have c: "fcall demo_calls s1" "fcall s1 ?s2"
    using s1 fcall.openat [of 4096 "0x41" demo_calls s1 4] fcall.umask [of 0 s1 ?s2 "snd (sys_umask 0 s1)"]
    by (simp_all add: sys_openat_def)
  have n: "s1 \<noteq> demo_calls"
  proof
    assume "s1 = demo_calls"
    then have "map_option (\<lambda>r. next_id (FD_TABLE (c_fs (fst r)))) (sys_open_impl 4096 0x41 demo_calls) = Some 4"
      using s1 by (simp add: demo_calls_def)
    moreover have "map_option (\<lambda>r. next_id (FD_TABLE (c_fs (fst r)))) (sys_open_impl 4096 0x41 demo_calls) = Some 5"
      by code_simp
    ultimately show False by simp
  qed
  have "fs_ok (c_fs ?s2)"
    by (rule file_calls_invariant [OF _ demo_calls_ok]) (use c in \<open>meson rtranclp.simps\<close>)
  then show ?thesis using c n by blast
qed

lemma demo_listing: "list_all (\<lambda>e. CHR 0x00 \<notin> set (fst e) \<and> length (fst e) < 100) (dir_entries ''/'' (c_vfs demo_calls))"
  by code_simp

theorem getdents_readable_witness:
  "\<exists>out k. sys_getdents64 3 8192 1024 demo_calls = Some (put_mem 8192 out demo_calls, int (length out)) \<and>
     read_dents out = map (\<lambda>e. (as_bytes (fst e), snd e)) (take k (dir_entries ''/'' (c_vfs demo_calls)))"
proof -
  have "dir_path (ucast (3 :: u64)) (c_fs demo_calls) = Some ''/''"
    by (simp add: dir_path_def demo_calls_def ht_get_def rights_contains_def R_NONE_def as_dir_def)
  moreover have "\<forall>e \<in> set (dir_entries ''/'' (c_vfs demo_calls)). listable (fst e)"
    using demo_listing by (auto simp: list_all_iff listable_def rec_len_def)
  ultimately show ?thesis
    using getdents_readable [of 3 8192 1024 demo_calls "''/''"] by (auto simp: word_le_nat_alt)
qed

end
