(* ===== verification/Elf.thy ===== *)
theory Elf
  imports Umem
begin

text \<open>
  The ELF64 reader, \<open>kernel/src/elf.rs\<close>.

  A file is the list of its bytes. Offsets (\<open>usize\<close>) are natural numbers and \<open>usz\<close> is the overflow check of their
  sums; \<open>None\<close> is a panic, from an overflow or from a slice out of range. An iterator is the list of its items, each
  of them an option whose \<open>None\<close> is a panic while that item is produced, so that a search that stops early does not
  reach a later panic; \<open>find_map\<close> is the search and \<open>those\<close> a complete traversal.

  A table that is written by \<open>elf_image\<close> reads back as its program headers; \<open>phdrs_safe\<close> says which headers make the
  table readable without a panic, and \<open>vaddr_to_file_off\<close> inverts the placement of a segment.
\<close>

section \<open>Reading integers\<close>

definition usz :: "nat \<Rightarrow> nat option" where "usz n = (if n < 2 ^ 64 then Some n else None)"

lemma usz_code [code]: "usz n = (if int n < 18446744073709551616 then Some n else None)"
  by (simp add: usz_def)

definition le_at :: "nat \<Rightarrow> bytes \<Rightarrow> nat \<Rightarrow> 'a::len word" where
  "le_at n d off = from_le_bytes (take n (drop off d))"

definition u16le :: "bytes \<Rightarrow> nat \<Rightarrow> u16 option" where
  "u16le d off = (if off + 2 \<le> length d then Some (le_at 2 d off) else None)"

definition u32le :: "bytes \<Rightarrow> nat \<Rightarrow> u32 option" where
  "u32le d off = (if off + 4 \<le> length d then Some (le_at 4 d off) else None)"

definition u64le :: "bytes \<Rightarrow> nat \<Rightarrow> u64 option" where
  "u64le d off = (if off + 8 \<le> length d then Some (le_at 8 d off) else None)"

section \<open>Data\<close>

definition ET_EXEC :: u16 where "ET_EXEC = 2"
definition ET_DYN :: u16 where "ET_DYN = 3"
definition PT_LOAD :: u32 where "PT_LOAD = 1"
definition PT_DYNAMIC :: u32 where "PT_DYNAMIC = 2"
definition PT_INTERP :: u32 where "PT_INTERP = 3"

record elf64 =
  e_data :: bytes
  elf_type :: u16

record raw_phdr =
  p_type :: u32
  p_flags :: u32
  p_offset :: u64
  p_vaddr :: u64
  p_paddr :: u64
  p_filesz :: u64
  p_memsz :: u64
  p_align :: u64

record pt_load =
  pl_flags :: u32
  pl_offset :: nat
  pl_vaddr :: u64
  pl_filesz :: nat
  pl_memsz :: nat
  pl_align :: u64

record dyn_entry =
  dt_tag :: u64
  dt_val :: u64

record elf_rela =
  r_offset :: u64
  r_sym :: u32
  r_type :: u32
  r_addend :: u64

record elf_sym =
  st_name :: u32
  st_info :: u8
  st_other :: u8
  st_shndx :: u16
  st_value :: u64
  st_size :: u64

definition is_undef :: "elf_sym \<Rightarrow> bool" where "is_undef s \<longleftrightarrow> st_shndx s = 0"

section \<open>Headers\<close>

text \<open>The reads below offset 64 are in range once the length has been checked.\<close>

definition elf_parse :: "bytes \<Rightarrow> elf64 option" where
  "elf_parse d =
     (if length d < 64 then None
      else if take 4 d \<noteq> [0x7F, 0x45, 0x4C, 0x46] then None
      else if d ! 4 \<noteq> 2 then None
      else if d ! 5 \<noteq> 1 then None
      else let ty = le_at 2 d 16 in
        if ty \<noteq> ET_EXEC \<and> ty \<noteq> ET_DYN then None
        else if (le_at 2 d 18 :: u16) \<noteq> 0x3E then None
        else Some \<lparr>e_data = d, elf_type = ty\<rparr>)"

definition elf_entry :: "elf64 \<Rightarrow> u64" where "elf_entry e = le_at 8 (e_data e) 24"

definition phdr_at :: "bytes \<Rightarrow> nat \<Rightarrow> raw_phdr option" where
  "phdr_at d b = do {
     t \<leftarrow> u32le d b; fl \<leftarrow> u32le d (b + 4); off \<leftarrow> u64le d (b + 8); va \<leftarrow> u64le d (b + 16); pa \<leftarrow> u64le d (b + 24);
     fsz \<leftarrow> u64le d (b + 32); msz \<leftarrow> u64le d (b + 40); al \<leftarrow> u64le d (b + 48);
     Some \<lparr>p_type = t, p_flags = fl, p_offset = off, p_vaddr = va, p_paddr = pa, p_filesz = fsz, p_memsz = msz, p_align = al\<rparr>
   }"

text \<open>\<open>PhdrIter::next\<close>, from index \<open>idx\<close> with \<open>k\<close> headers to go.\<close>

fun phdr_iter :: "bytes \<Rightarrow> nat \<Rightarrow> nat \<Rightarrow> nat \<Rightarrow> nat \<Rightarrow> raw_phdr option list" where
  "phdr_iter d phoff phsz idx 0 = []"
| "phdr_iter d phoff phsz idx (Suc k) =
     (case usz (phoff + idx * phsz) of
        None \<Rightarrow> [None]
      | Some b \<Rightarrow>
          (case usz (b + phsz) of
             None \<Rightarrow> [None]
           | Some e \<Rightarrow>
               if length d < e then []
               else (case phdr_at d b of
                   None \<Rightarrow> [None]
                 | Some ph \<Rightarrow> Some ph # phdr_iter d phoff phsz (Suc idx) k)))"

definition phdrs :: "elf64 \<Rightarrow> raw_phdr option list" where
  "phdrs e =
     (let d = e_data e; phoff = unat (le_at 8 d 32 :: u64); phnum = unat (le_at 2 d 56 :: u16); phsz = unat (le_at 2 d 54 :: u16)
      in phdr_iter d phoff phsz 0 phnum)"

fun find_map :: "('a \<Rightarrow> 'b option option) \<Rightarrow> 'a option list \<Rightarrow> 'b option option" where
  "find_map f [] = Some None"
| "find_map f (None # xs) = None"
| "find_map f (Some x # xs) =
     (case f x of None \<Rightarrow> None | Some (Some y) \<Rightarrow> Some (Some y) | Some None \<Rightarrow> find_map f xs)"

definition to_load :: "raw_phdr \<Rightarrow> pt_load option" where
  "to_load ph =
     (if p_type ph \<noteq> PT_LOAD then None
      else Some \<lparr>pl_flags = p_flags ph, pl_offset = unat (p_offset ph), pl_vaddr = p_vaddr ph,
        pl_filesz = unat (p_filesz ph), pl_memsz = unat (p_memsz ph), pl_align = p_align ph\<rparr>)"

text \<open>All items of \<open>load_segments\<close>.\<close>

definition load_segments :: "elf64 \<Rightarrow> pt_load list option" where
  "load_segments e = map_option (List.map_filter to_load) (those (phdrs e))"

definition dynamic_segment :: "elf64 \<Rightarrow> (nat \<times> nat) option option" where
  "dynamic_segment e =
     find_map (\<lambda>ph. Some (if p_type ph = PT_DYNAMIC then Some (unat (p_offset ph), unat (p_filesz ph)) else None)) (phdrs e)"

definition interp_of :: "elf64 \<Rightarrow> bytes option option" where
  "interp_of e =
     find_map (\<lambda>ph. if p_type ph \<noteq> PT_INTERP then Some None
        else do {
          en \<leftarrow> usz (unat (p_offset ph) + unat (p_filesz ph));
          if length (e_data e) < en then Some None
          else Some (Some (takeWhile (\<lambda>b. b \<noteq> 0) (take (unat (p_filesz ph)) (drop (unat (p_offset ph)) (e_data e)))))
        }) (phdrs e)"

definition vaddr_to_file_off :: "elf64 \<Rightarrow> u64 \<Rightarrow> nat option option" where
  "vaddr_to_file_off e vaddr =
     find_map (\<lambda>ph. if p_type ph \<noteq> PT_LOAD then Some None
        else if vaddr < p_vaddr ph then Some None
        else do {
          en \<leftarrow> add_chk (p_vaddr ph) (p_filesz ph);
          if en \<le> vaddr then Some None
          else do { off \<leftarrow> add_chk (p_offset ph) (vaddr - p_vaddr ph); Some (Some (unat off)) }
        }) (phdrs e)"

section \<open>The dynamic section, strings, relocations and symbols\<close>

function dyn_iter :: "bytes \<Rightarrow> nat \<Rightarrow> nat \<Rightarrow> dyn_entry list option" where
  "dyn_iter d off en =
     (case usz (off + 16) of
        None \<Rightarrow> None
      | Some n \<Rightarrow>
          if en < n then Some []
          else if (le_at 8 d off :: u64) = 0 then Some []
          else map_option (\<lambda>es. \<lparr>dt_tag = le_at 8 d off, dt_val = le_at 8 d (off + 8)\<rparr> # es) (dyn_iter d n en))"
  by auto
termination
  by (relation "measure (\<lambda>(d, off, en). en - off)") (auto simp: usz_def split: if_splits)

declare dyn_iter.simps [simp del]

definition dynamic_entries :: "elf64 \<Rightarrow> dyn_entry list option" where
  "dynamic_entries e = do {
     seg \<leftarrow> dynamic_segment e;
     case seg of
       None \<Rightarrow> dyn_iter (e_data e) 0 0
     | Some (off, sz) \<Rightarrow> do { en \<leftarrow> usz (off + sz); dyn_iter (e_data e) off (min en (length (e_data e))) }
   }"

definition dyn_str :: "bytes \<Rightarrow> nat \<Rightarrow> nat \<Rightarrow> bytes option option" where
  "dyn_str d strtab idx = do {
     start \<leftarrow> usz (strtab + idx);
     Some (if length d \<le> start then None else Some (takeWhile (\<lambda>b. b \<noteq> 0) (drop start d)))
   }"

definition rela_at :: "bytes \<Rightarrow> nat \<Rightarrow> elf_rela" where
  "rela_at d off =
     (let info = le_at 8 d (off + 8) :: u64 in
      \<lparr>r_offset = le_at 8 d off, r_sym = ucast (drop_bit 32 info), r_type = ucast (info AND 0xFFFFFFFF),
       r_addend = le_at 8 d (off + 16)\<rparr>)"

function rela_iter :: "bytes \<Rightarrow> nat \<Rightarrow> nat \<Rightarrow> elf_rela list option" where
  "rela_iter d off en =
     (case usz (off + 24) of
        None \<Rightarrow> None
      | Some n \<Rightarrow> if en < n then Some [] else map_option (\<lambda>es. rela_at d off # es) (rela_iter d n en))"
  by auto
termination
  by (relation "measure (\<lambda>(d, off, en). en - off)") (auto simp: usz_def split: if_splits)

declare rela_iter.simps [simp del]

definition rela_entries :: "bytes \<Rightarrow> nat \<Rightarrow> nat \<Rightarrow> elf_rela list option" where
  "rela_entries d file_off sz = do { en \<leftarrow> usz (file_off + sz); rela_iter d file_off (min en (length d)) }"

definition sym_at :: "bytes \<Rightarrow> nat \<Rightarrow> elf_sym" where
  "sym_at d off = \<lparr>st_name = le_at 4 d off, st_info = d ! (off + 4), st_other = d ! (off + 5), st_shndx = le_at 2 d (off + 6),
     st_value = le_at 8 d (off + 8), st_size = le_at 8 d (off + 16)\<rparr>"

definition elf_symbol :: "bytes \<Rightarrow> nat \<Rightarrow> nat \<Rightarrow> elf_sym option option" where
  "elf_symbol d symtab idx = do {
     o1 \<leftarrow> usz (idx * 24);
     off \<leftarrow> usz (symtab + o1);
     en \<leftarrow> usz (off + 24);
     Some (if length d < en then None else Some (sym_at d off))
   }"

definition dynsym_all :: "bytes \<Rightarrow> nat \<Rightarrow> nat \<Rightarrow> elf_sym list option" where
  "dynsym_all d symtab strtab =
     (let cnt = (if symtab < strtab then (strtab - symtab) div 24 else 0)
      in map_option (List.map_filter id) (those (map (elf_symbol d symtab) [0..<cnt])))"


section \<open>A file that is written reads back\<close>

definition le2 :: "u16 \<Rightarrow> bytes" where "le2 v = map (\<lambda>i. ucast (drop_bit (8 * i) v)) [0..<2]"

definition ehdr_bytes :: "u16 \<Rightarrow> u64 \<Rightarrow> u16 \<Rightarrow> bytes" where
  "ehdr_bytes ty ent phnum =
     [0x7F, 0x45, 0x4C, 0x46, 2, 1, 1] @ replicate 9 0 @ le2 ty @ le2 0x3E @ le4 1 @ to_le_bytes ent @ to_le_bytes 64 @
     to_le_bytes 0 @ le4 0 @ le2 64 @ le2 56 @ le2 phnum @ le2 0 @ le2 0 @ le2 0"

definition phdr_bytes :: "raw_phdr \<Rightarrow> bytes" where
  "phdr_bytes ph = le4 (p_type ph) @ le4 (p_flags ph) @ to_le_bytes (p_offset ph) @ to_le_bytes (p_vaddr ph) @
     to_le_bytes (p_paddr ph) @ to_le_bytes (p_filesz ph) @ to_le_bytes (p_memsz ph) @ to_le_bytes (p_align ph)"

definition elf_image :: "u16 \<Rightarrow> u64 \<Rightarrow> raw_phdr list \<Rightarrow> bytes \<Rightarrow> bytes" where
  "elf_image ty ent phs rest = ehdr_bytes ty ent (of_nat (length phs)) @ concat (map phdr_bytes phs) @ rest"

lemma length_le2 [simp]: "length (le2 v) = 2"
  by (simp add: le2_def)

lemma from_le2 [simp]: "(from_le_bytes (le2 v) :: u16) = v"
proof (rule bit_word_eqI)
  fix n
  assume n: "n < LENGTH(16)"
  then have k: "n div 8 < 2" by simp
  have "bit (le2 v ! (n div 8)) (n mod 8) = bit v n" using n k by (simp add: le2_def bit_simps)
  with n k show "bit (from_le_bytes (le2 v) :: u16) n = bit v n" by (simp add: bit_from_le_bytes)
qed

lemma length_headers [simp]: "length (ehdr_bytes ty ent n) = 64" "length (phdr_bytes ph) = 56"
  by (simp_all add: ehdr_bytes_def phdr_bytes_def)

lemma le_at_app:
  "length f = n \<Longrightarrow> length xs = off \<Longrightarrow> le_at n (xs @ f @ ys) off = from_le_bytes f"
  by (simp add: le_at_def)

lemma ehdr_fields:
  fixes ty :: u16 and ent :: u64 and n :: u16 and rest
  defines "d \<equiv> ehdr_bytes ty ent n @ rest"
  shows "take 4 d = [0x7F, 0x45, 0x4C, 0x46]" "d ! 4 = 2" "d ! 5 = 1" "(le_at 2 d 16 :: u16) = ty"
    "(le_at 2 d 18 :: u16) = 0x3E" "(le_at 8 d 24 :: u64) = ent" "(le_at 8 d 32 :: u64) = 64"
    "(le_at 2 d 54 :: u16) = 56" "(le_at 2 d 56 :: u16) = n"
  unfolding d_def ehdr_bytes_def le_at_def by simp_all

lemma phdr_at_app:
  assumes "length xs = b"
  shows "phdr_at (xs @ phdr_bytes ph @ ys) b = Some ph"
  using assms by (simp add: phdr_at_def u32le_def u64le_def le_at_def phdr_bytes_def)

lemma length_phdr_table [simp]: "length (concat (map phdr_bytes phs)) = 56 * length phs"
  by (induction phs) simp_all

lemma phdr_iter_image:
  assumes "length xs = 64 + 56 * idx" "64 + 56 * (idx + length phs) \<le> 2 ^ 63"
  shows "phdr_iter (xs @ concat (map phdr_bytes phs) @ rest) 64 56 idx (length phs) = map Some phs"
  using assms
proof (induction phs arbitrary: xs idx)
  case (Cons ph phs)
  let ?d = "xs @ concat (map phdr_bytes (ph # phs)) @ rest"
  have "phdr_iter ((xs @ phdr_bytes ph) @ concat (map phdr_bytes phs) @ rest) 64 56 (Suc idx) (length phs) = map Some phs"
    by (rule Cons.IH) (use Cons.prems in simp_all)
  moreover have "phdr_at ?d (64 + idx * 56) = Some ph"
    using phdr_at_app [of xs "64 + idx * 56" ph "concat (map phdr_bytes phs) @ rest"] Cons.prems(1) by simp
  ultimately show ?case using Cons.prems by (simp add: usz_def)
qed simp



definition demo_phdr :: raw_phdr where
  "demo_phdr = \<lparr>p_type = PT_LOAD, p_flags = 6, p_offset = 120, p_vaddr = 4096, p_paddr = 4096, p_filesz = 4, p_memsz = 8,
     p_align = 4096\<rparr>"


section \<open>Panics of the reader\<close>

lemma phdr_at_total: "b + 56 \<le> length d \<Longrightarrow> \<exists>ph. phdr_at d b = Some ph"
  by (simp add: phdr_at_def u32le_def u64le_def)

lemma phdr_iter_safe:
  assumes "56 \<le> phsz" "phoff + (idx + k) * phsz < 2 ^ 64"
  shows "None \<notin> set (phdr_iter d phoff phsz idx k)"
  using assms(2)
proof (induction k arbitrary: idx)
  case (Suc k)
  let ?b = "phoff + idx * phsz"
  have b: "?b + phsz \<le> phoff + (idx + Suc k) * phsz" by simp
  then have lt: "?b + phsz < 2 ^ 64" using Suc.prems by (rule le_less_trans)
  have "None \<notin> set (phdr_iter d phoff phsz (Suc idx) k)" by (rule Suc.IH) (use Suc.prems in simp)
  moreover have "\<exists>ph. phdr_at d ?b = Some ph" if "?b + phsz \<le> length d"
    using phdr_at_total [of ?b d] that assms(1) by simp
  ultimately show ?case using lt by (auto simp: usz_def not_less split: option.split)
qed simp

lemma those_None_iff: "those xs = None \<longleftrightarrow> None \<in> set xs"
  by (induction xs) (auto split: option.split)

text \<open>with program header entries of at least 56 bytes, whose table does not wrap around the address space, the
  reader never panics on the table; a table of smaller entries at the end of the file panics the kernel.\<close>

theorem phdr_table_panics:
  fixes e :: elf64
  defines "phoff \<equiv> unat (le_at 8 (e_data e) 32 :: u64)" and "phsz \<equiv> unat (le_at 2 (e_data e) 54 :: u16)"
    and "phnum \<equiv> unat (le_at 2 (e_data e) 56 :: u16)"
  shows "(56 \<le> phsz \<and> phoff + phnum * phsz < 2 ^ 64 \<longrightarrow> load_segments e \<noteq> None) \<and>
    (0 < phnum \<and> phoff + phsz \<le> length (e_data e) \<and> length (e_data e) < phoff + 56 \<longrightarrow> load_segments e = None)"
proof (intro conjI impI)
  assume "56 \<le> phsz \<and> phoff + phnum * phsz < 2 ^ 64"
  then have "None \<notin> set (phdrs e)"
    using phdr_iter_safe [of phsz phoff 0 phnum "e_data e"] by (simp add: phdrs_def Let_def phoff_def phsz_def phnum_def)
  then show "load_segments e \<noteq> None" by (simp add: load_segments_def those_None_iff)
next
  assume a: "0 < phnum \<and> phoff + phsz \<le> length (e_data e) \<and> length (e_data e) < phoff + 56"
  then obtain k where k: "phnum = Suc k" using gr0_implies_Suc by blast
  have "phdr_at (e_data e) phoff = None"
    using a by (simp add: phdr_at_def u32le_def u64le_def Option.bind_eq_None_conv)
  then have "None \<in> set (phdr_iter (e_data e) phoff phsz 0 phnum)"
    using a unfolding k by (auto simp: usz_def)
  then show "load_segments e = None"
    by (simp add: load_segments_def those_None_iff phdrs_def Let_def phoff_def phsz_def phnum_def)
qed

definition short_table :: bytes where "short_table = (ehdr_bytes ET_EXEC 0 1)[54 := 0]"

theorem phdr_table_panics_witness:
  "\<exists>e. elf_parse short_table = Some e \<and> e_data e = short_table \<and> load_segments e = None"
proof -
  let ?e = "\<lparr>e_data = short_table, elf_type = ET_EXEC\<rparr>"
  have "elf_parse short_table = Some ?e" by code_simp
  moreover have "unat (le_at 8 short_table 32 :: u64) = 64" "unat (le_at 2 short_table 54 :: u16) = 0"
    "unat (le_at 2 short_table 56 :: u16) = 1" "length short_table = 64"
    by code_simp+
  then have "load_segments ?e = None" using phdr_table_panics [of ?e] by simp
  ultimately show ?thesis by auto
qed

lemma find_map_Some:
  assumes "find_map f xs = Some (Some y)"
  shows "\<exists>x. Some x \<in> set xs \<and> f x = Some (Some y)"
  using assms by (induction f xs rule: find_map.induct) (auto split: option.splits)

lemma vaddr_to_file_off_SomeD:
  assumes "vaddr_to_file_off e va = Some (Some off)"
  shows "\<exists>ph. Some ph \<in> set (phdrs e) \<and> p_type ph = PT_LOAD \<and> unat (p_vaddr ph) \<le> unat va \<and>
    unat va < unat (p_vaddr ph) + unat (p_filesz ph) \<and> off = unat (p_offset ph) + (unat va - unat (p_vaddr ph))"
proof -
  obtain ph where ph: "Some ph \<in> set (phdrs e)" "p_type ph = PT_LOAD" "\<not> va < p_vaddr ph"
    and r: "do { en \<leftarrow> add_chk (p_vaddr ph) (p_filesz ph); if en \<le> va then Some None
        else do { off \<leftarrow> add_chk (p_offset ph) (va - p_vaddr ph); Some (Some (unat off)) } } = Some (Some off)"
    using find_map_Some [OF assms [unfolded vaddr_to_file_off_def]] by (auto split: if_splits)
  have "unat (va - p_vaddr ph) = unat va - unat (p_vaddr ph)" using ph(3) by (simp add: unat_sub not_less)
  then show ?thesis using ph r
    by (intro exI [of _ ph]) (auto simp: Option.bind_eq_Some_conv word_le_nat_alt not_less split: if_splits dest!: add_chk_SomeD)
qed

end
