(* ===== verification/Address_Space.thy ===== *)
theory Address_Space
  imports Paging
begin

text \<open>
  The user half of an address space as a partial function from addresses to bytes, read through the page tables:
  \<open>ubyte root st va\<close>. An address space is well formed when its tables form a tree, no user address runs through a
  large page, and the frames behind user pages are neither free nor tables (\<open>space_ok\<close>). The step shared by every
  mapping loop of the kernel, to take a frame, fill it and map it, replaces the bytes of one page and changes no other
  byte (\<open>map_fresh\<close>); the loops of \<open>mmap_map\<close> and \<open>mmap_anon\<close> then install their data.
\<close>

definition user_va :: "u64 \<Rightarrow> bool" where "user_va va \<longleftrightarrow> pt_idx 39 va < 256"

definition off12 :: "u64 \<Rightarrow> nat" where "off12 va = unat (va AND 0xFFF)"

definition ubyte :: "u64 \<Rightarrow> vm \<Rightarrow> u64 \<Rightarrow> u8 option" where
  "ubyte root st va = map_option (\<lambda>pa. page_byte (pmem st (page_base pa)) (off12 pa)) (virt_to_phys root va st)"

definition space_ok :: "u64 \<Rightarrow> vm \<Rightarrow> bool" where
  "space_ok root st \<longleftrightarrow> tree_wf st root \<and> (\<forall>va. user_va va \<longrightarrow> small_path root va st) \<and>
     (\<forall>va pa. user_va va \<longrightarrow> virt_to_phys root va st = Some pa \<longrightarrow>
        page_base pa \<notin> vavail st \<and> (\<forall>q. path_ok q \<longrightarrow> table_of st root q \<noteq> Some (page_base pa)))"

lemma space_okD:
  assumes "space_ok root st"
  shows "tree_wf st root" "page_base root = root" "user_va va \<Longrightarrow> small_path root va st"
    "user_va va \<Longrightarrow> virt_to_phys root va st = Some pa \<Longrightarrow> page_base pa \<notin> vavail st"
    "user_va va \<Longrightarrow> virt_to_phys root va st = Some pa \<Longrightarrow> path_ok q \<Longrightarrow> table_of st root q \<noteq> Some (page_base pa)"
  using assms by (auto simp: space_ok_def tree_wf_def)

lemma page_base_low: "page_base (va AND 0xFFF) = 0"
  by (simp only: page_base_def and.assoc bit.conj_cancel_right and_zero_eq)

lemma page_base_join: "page_base pa = pa \<Longrightarrow> page_base (pa OR (va AND 0xFFF)) = pa"
  by (simp only: page_base_simps page_base_low or.right_neutral)

lemma off12_join: "page_base pa = pa \<Longrightarrow> off12 (pa OR (va AND 0xFFF)) = off12 va"
proof -
  assume "page_base pa = pa"
  then have "pa AND 0xFFF = (pa AND NOT 0xFFF) AND 0xFFF" by (simp only: page_base_def)
  also have "\<dots> = 0" by (simp only: and.assoc bit.conj_cancel_left and_zero_eq)
  finally have "pa AND 0xFFF = 0" .
  then have "(pa OR (va AND 0xFFF)) AND 0xFFF = va AND 0xFFF"
    by (simp only: bit.conj_disj_distrib2 and.assoc and.idem or.left_neutral)
  then show ?thesis by (simp only: off12_def)
qed

lemma small_path_map:
  assumes wf: "tree_wf st root" and sp: "\<And>va. user_va va \<Longrightarrow> small_path root va st" and u: "user_va va" "user_va va'"
    and m: "map_4k root va pa f st = Some st'"
  shows "small_path root va' st'"
proof -
  note r = map_4k_entries(9) [OF wf sp [OF u(1)] m]
  have c: "\<not> huge e" if "path_ok q" "j < 512" "length q < 3" "\<forall>e. entry_at st root q j = Some e \<longrightarrow> \<not> huge e"
    "entry_at st' root q j = Some e" for q j e
    using r [OF that(1,2)] that(3-5) by (auto simp: va_path_def)
  have "\<forall>e. entry_at st root [pt_idx 39 va'] (pt_idx 30 va') = Some e \<longrightarrow> \<not> huge e"
    "\<forall>e. entry_at st root [pt_idx 39 va', pt_idx 30 va'] (pt_idx 21 va') = Some e \<longrightarrow> \<not> huge e"
    using sp [OF u(2)] by (simp_all add: small_path_def)
  from c [OF path_ok_va(1) pt_idx_less _ this(1)] c [OF path_ok_va(2) pt_idx_less _ this(2)]
  show ?thesis by (simp add: small_path_def)
qed

text \<open>Take a frame, fill it with \<open>p\<close> and map it at \<open>va\<close>.\<close>

lemma map_fresh:
  assumes ok: "space_ok root st" and u: "user_va va" and f: "page_base f = 0"
    and t: "take_frame st = Some (st1, phys)" and m: "map_4k root va phys f (put_page phys p st1) = Some st'"
  shows "space_ok root st'"
    and "user_va va' \<Longrightarrow> ubyte root st' va' = (if same_page va va' then Some (page_byte p (off12 va')) else ubyte root st va')"
    and "vavail st' \<subseteq> vavail st"
proof -
  let ?s = "put_page phys p st1"
  note wf = space_okD(1) [OF ok] and tf = take_frame_SomeD [OF t]
  note tt = take_frame_tree(1-3) [OF wf t, where p = p] and tn = take_frame_tree(4) [OF wf t]
  have sp: "small_path root x ?s" if "user_va x" for x
    using space_okD(3) [OF ok that] tt(3) [OF path_ok_va(1)] tt(3) [OF path_ok_va(2)] by (simp add: small_path_def)
  note me = map_4k_entries [OF tt(1) sp [OF u] m]
  have av: "vavail ?s = vavail st - {phys}" by (simp add: tf(2))
  have pb: "page_base phys = phys" using tf(5) by (rule page_base_aligned)
  have v: "virt_to_phys root x ?s = virt_to_phys root x st" for x
    using virt_to_phys_cong [OF wf tt(1)] tt(3) by blast
  note tr = map_4k_translation [OF tt(1) sp [OF u] f m, unfolded v pb]
  show sub: "vavail st' \<subseteq> vavail st" using me(3) av by blast
  have keep: "pmem st' x = pmem ?s x" if "x \<notin> vavail st - {phys}" "\<And>q. path_ok q \<Longrightarrow> table_of st root q \<noteq> Some x" for x
    using me(8) [of x] that by (simp add: tf(2) tt(2))
  have nt: "table_of st' root q \<noteq> Some x" if "path_ok q" "x \<notin> vavail st - {phys}"
    "\<And>q. path_ok q \<Longrightarrow> table_of st root q \<noteq> Some x" for q x
    using me(10) [OF that(1)] that by (auto simp: tf(2) tt(2))
  have "page_base pa \<notin> vavail st' \<and> (\<forall>q. path_ok q \<longrightarrow> table_of st' root q \<noteq> Some (page_base pa))"
    if x: "user_va x" "virt_to_phys root x st' = Some pa" for x pa
  proof (cases "same_page va x")
    case True
    then have "page_base pa = phys" using x(2) tr pb page_base_join by auto
    then show ?thesis using nt [of _ phys] tn me(3) av by auto
  next
    case False
    then have o: "virt_to_phys root x st = Some pa" using x(2) tr by simp
    show ?thesis
      using nt [of _ "page_base pa"] space_okD(4,5) [OF ok x(1) o] sub by auto
  qed
  then show "space_ok root st'"
    using me(1) small_path_map [OF tt(1) sp u _ m] unfolding space_ok_def by blast
  assume u': "user_va va'"
  show "ubyte root st' va' = (if same_page va va' then Some (page_byte p (off12 va')) else ubyte root st va')"
  proof (cases "same_page va va'")
    case True
    have "pmem st' phys = p" using keep [of phys] tn by (simp add: put_page_def)
    then show ?thesis using True tr by (simp add: ubyte_def pb page_base_low off12_join [OF pb])
  next
    case False
    have "pmem st' (page_base pa) = pmem st (page_base pa)" if o: "virt_to_phys root va' st = Some pa" for pa
    proof -
      note d = space_okD(4,5) [OF ok u' o]
      have "page_base pa \<noteq> phys" using d(1) tf(1) by blast
      then show ?thesis using keep [of "page_base pa"] d by (simp add: put_page_def tf(3))
    qed
    then show ?thesis using False tr by (cases "virt_to_phys root va' st") (simp_all add: ubyte_def)
  qed
qed


section \<open>Loops over pages\<close>

definition low :: "u64 \<Rightarrow> bool" where "low va \<longleftrightarrow> unat va < 2 ^ 47"

lemma low_user: "low va \<Longrightarrow> user_va va"
  by (simp add: low_def user_va_def pt_idx_nat less_mult_imp_div_less)

lemma same_page_low:
  assumes "low va" "low va'"
  shows "same_page va va' \<longleftrightarrow> unat va' div 4096 = unat va div 4096"
proof
  let ?x = "unat va" and ?y = "unat va'"
  assume "same_page va va'"
  then have i: "?y div 2 ^ 12 mod 512 = ?x div 2 ^ 12 mod 512" "?y div 2 ^ 21 mod 512 = ?x div 2 ^ 21 mod 512"
    "?y div 2 ^ 30 mod 512 = ?x div 2 ^ 30 mod 512" "?y div 2 ^ 39 mod 512 = ?x div 2 ^ 39 mod 512"
    by (simp_all add: same_page_def va_path_def pt_idx_nat)
  have d: "n div 2 ^ 12 = n div 2 ^ 39 mod 512 * 2 ^ 27 + n div 2 ^ 30 mod 512 * 2 ^ 18 + n div 2 ^ 21 mod 512 * 2 ^ 9 +
      n div 2 ^ 12 mod 512" if "n < 2 ^ 47" for n :: nat
  proof -
    have s: "n div 2 ^ k = n div 2 ^ (k + 9) * 512 + n div 2 ^ k mod 512" for k
      by (simp add: power_add div_mult2_eq)
    have "n div 2 ^ 48 = 0" using that by simp
    then show ?thesis using s [of 12] s [of 21] s [of 30] s [of 39] by simp
  qed
  have "?y div 2 ^ 12 = ?x div 2 ^ 39 mod 512 * 2 ^ 27 + ?x div 2 ^ 30 mod 512 * 2 ^ 18 + ?x div 2 ^ 21 mod 512 * 2 ^ 9 +
      ?x div 2 ^ 12 mod 512"
    using d [of ?y] assms(2) unfolding low_def i by blast
  also have "\<dots> = ?x div 2 ^ 12" by (rule d [symmetric]) (use assms(1) in \<open>simp add: low_def\<close>)
  finally have "?y div 2 ^ 12 = ?x div 2 ^ 12" .
  then show "?y div 4096 = ?x div 4096" by simp
next
  assume e: "unat va' div 4096 = unat va div 4096"
  have "pt_idx (12 + k) v = (unat v div 4096) div 2 ^ k mod 512" for k v
    by (simp add: pt_idx_nat power_add div_mult2_eq)
  from this [of 0] this [of 9] this [of 18] this [of 27] show "same_page va va'"
    using e by (simp add: same_page_def va_path_def)
qed

lemma off12_nat: "off12 va = unat va mod 4096"
proof -
  have "va AND 0xFFF = take_bit 12 va" by (simp add: take_bit_eq_mask mask_eq_exp_minus_1)
  then have "off12 va = take_bit 12 (unat va)" by (simp only: off12_def unsigned_take_bit_eq)
  then show ?thesis by (simp add: take_bit_eq_mod)
qed

text \<open>A body that maps a fresh frame with contents \<open>P i\<close> at page \<open>i\<close> of an area.\<close>

definition maps_pages :: "u64 \<Rightarrow> u64 \<Rightarrow> (nat \<Rightarrow> page) \<Rightarrow> (nat \<Rightarrow> vm \<Rightarrow> vm option) \<Rightarrow> bool" where
  "maps_pages root base P body \<longleftrightarrow> (\<forall>i s s'. body i s = Some s' \<longrightarrow>
     (\<exists>s1 phys f va. take_frame s = Some (s1, phys) \<and> page_base f = 0 \<and> page_addr base i = Some va \<and>
        map_4k root va phys f (put_page phys (P i) s1) = Some s'))"

lemma page_addr_SomeD: "page_addr base i = Some va \<Longrightarrow> i < 2 ^ 64 \<Longrightarrow> unat va = unat base + i * 4096"
  by (auto simp: page_addr_def Option.bind_eq_Some_conv unat_of_nat dest!: mul_chk_SomeD add_chk_SomeD)

lemma pages_installed:
  assumes b: "maps_pages root base P body" and al: "unat base mod 4096 = 0" and n: "unat base + n * 4096 \<le> 2 ^ 47"
    and ok: "space_ok root st" and l: "for_each body [k..<n] st = Some st'" "k \<le> n"
  shows "space_ok root st' \<and> (\<forall>va. low va \<longrightarrow> ubyte root st' va =
    (let d = unat va div 4096 - unat base div 4096 in
     if unat base div 4096 + k \<le> unat va div 4096 \<and> d < n then Some (page_byte (P d) (off12 va)) else ubyte root st va))"
  using l ok
proof (induction "n - k" arbitrary: k st)
  case 0
  then show ?case by (auto simp: Let_def)
next
  case (Suc m)
  then have k: "k < n" "m = n - Suc k" by simp_all
  then obtain s where s: "body k st = Some s" "for_each body [Suc k..<n] s = Some st'"
    using Suc.prems(1) by (auto simp: upt_conv_Cons Option.bind_eq_Some_conv)
  obtain s1 phys f va where t: "take_frame st = Some (s1, phys)" "page_base f = 0" "page_addr base k = Some va"
    "map_4k root va phys f (put_page phys (P k) s1) = Some s"
    using b s(1) unfolding maps_pages_def by blast
  have "k < 2 ^ 64" using k(1) n by simp
  then have va: "unat va = unat base + k * 4096" using page_addr_SomeD [OF t(3)] by blast
  then have lo: "low va" using n k(1) by (simp add: low_def)
  note mf = map_fresh [OF Suc.prems(3) low_user [OF lo] t(2,1,4)]
  have q: "unat va div 4096 = unat base div 4096 + k" using va by simp
  have IH: "space_ok root st' \<and> (\<forall>va. low va \<longrightarrow> ubyte root st' va =
    (let d = unat va div 4096 - unat base div 4096 in
     if unat base div 4096 + Suc k \<le> unat va div 4096 \<and> d < n then Some (page_byte (P d) (off12 va)) else ubyte root s va))"
    by (rule Suc.hyps(1) [OF k(2) s(2) _ mf(1)]) (use k in simp)
  have step: "ubyte root s x = (if unat x div 4096 = unat base div 4096 + k then Some (page_byte (P k) (off12 x)) else ubyte root st x)"
    if "low x" for x
    using mf(2) [OF low_user [OF that]] same_page_low [OF lo that] q by simp
  show ?case using IH step k(1) by (auto simp: Let_def)
qed


text \<open>The bytes of an area: \<open>F\<close> of the distance from its start inside, the old bytes outside.\<close>

definition ubytes :: "u64 \<Rightarrow> nat \<Rightarrow> (nat \<Rightarrow> u8) \<Rightarrow> (u64 \<Rightarrow> u8 option) \<Rightarrow> u64 \<Rightarrow> u8 option" where
  "ubytes base n F old va =
     (if unat base \<le> unat va \<and> unat va < unat base + n then Some (F (unat va - unat base)) else old va)"

lemma area_installed:
  assumes "maps_pages root base P body" and al: "unat base mod 4096 = 0" and n: "unat base + n * 4096 \<le> 2 ^ 47"
    and "space_ok root st" and l: "for_each body [0..<n] st = Some st'"
    and F: "\<And>d k. d < n \<Longrightarrow> k < 4096 \<Longrightarrow> page_byte (P d) k = F (d * 4096 + k)"
  shows "space_ok root st'" and "low va \<Longrightarrow> ubyte root st' va = ubytes base (n * 4096) F (ubyte root st) va"
proof -
  note r = pages_installed [OF assms(1-4) l, simplified]
  show "space_ok root st'" using r by blast
  assume lo: "low va"
  let ?b = "unat base" and ?v = "unat va" and ?d = "unat va div 4096 - unat base div 4096"
  have b: "?b = ?b div 4096 * 4096" using al by (metis add.right_neutral div_mult_mod_eq)
  have in_area: "?b div 4096 \<le> ?v div 4096 \<and> ?d < n \<longleftrightarrow> ?b \<le> ?v \<and> ?v < ?b + n * 4096"
    using b by (auto simp: less_mult_imp_div_less algebra_simps)
  have "?v - ?b = ?d * 4096 + ?v mod 4096" if "?b \<le> ?v"
    using b div_mult_mod_eq [of ?v 4096] div_le_mono [OF that, of 4096] by linarith
  moreover have "ubyte root st' va = (if ?b div 4096 \<le> ?v div 4096 \<and> ?d < n
      then Some (page_byte (P ?d) (off12 va)) else ubyte root st va)"
    using r lo by (simp add: Let_def)
  ultimately show "ubyte root st' va = ubytes base (n * 4096) F (ubyte root st) va"
    using F [of ?d "?v mod 4096"] in_area by (auto simp: ubytes_def off12_nat)
qed


definition file_byte :: "bytes \<Rightarrow> nat \<Rightarrow> u8" where
  "file_byte data i = (if i < length data then data ! i else 0)"

lemma page_byte_zero [simp]: "page_byte zero_page k = 0"
  by (simp add: page_byte_def zero_page_def)

lemma space_ok_root: "space_ok (page_base cr3) st \<Longrightarrow> page_base (page_base cr3) = page_base cr3"
  by simp

definition mmap_pages :: "bytes \<Rightarrow> nat" where
  "mmap_pages data = (if length data = 0 then 1 else (length data + 4095) div 4096)"

lemma mmap_area:
  assumes "space_ok (page_base cr3) st" "unat vaddr mod 4096 = 0" "unat vaddr + mmap_pages data * 4096 \<le> 2 ^ 47"
    and m: "mmap_map cr3 vaddr data w st = Some st'"
  shows "space_ok (page_base cr3) st'" and "low va \<Longrightarrow> ubyte (page_base cr3) st' va =
    ubytes vaddr (mmap_pages data * 4096) (file_byte data) (ubyte (page_base cr3) st) va"
proof -
  let ?P = "\<lambda>i. if i * 4096 < min ((i + 1) * 4096) (length data)
    then put_bytes 0 (take (min ((i + 1) * 4096) (length data) - i * 4096) (drop (i * 4096) data)) zero_page else zero_page"
  let ?body = "\<lambda>i st. do {
      (st, phys) \<leftarrow> take_frame st;
      va \<leftarrow> page_addr vaddr i;
      map_4k (page_base cr3) va phys (PTE_USER OR (if w then PTE_WRITABLE else 0)) (put_page phys (?P i) st)
    }"
  have n: "(if (length data + 4095) div 4096 = 0 then 1 else (length data + 4095) div 4096) = mmap_pages data"
    by (cases data) (simp_all add: mmap_pages_def)
  have l: "for_each ?body [0..<mmap_pages data] st = Some st'"
    using m unfolding mmap_map_def Let_def n by simp
  have b: "maps_pages (page_base cr3) vaddr ?P ?body"
    by (auto simp: maps_pages_def Option.bind_eq_Some_conv)
      (metis (no_types, lifting) or.right_neutral page_base_simps(1,4,5,6))+
  have F: "page_byte (?P d) k = file_byte data (d * 4096 + k)" if "k < 4096" for d k
    using that by (auto simp: page_byte_put_bytes file_byte_def)
  show "space_ok (page_base cr3) st'" by (rule area_installed(1) [OF b assms(2,3,1) l]) (rule F)
  show "low va \<Longrightarrow> ubyte (page_base cr3) st' va =
      ubytes vaddr (mmap_pages data * 4096) (file_byte data) (ubyte (page_base cr3) st) va"
    by (rule area_installed(2) [OF b assms(2,3,1) l]) (rule F)
qed


text \<open>mapping a file puts its bytes at the address, followed by zeros to the end of the last page, in frames that
  were free, and leaves every other user byte as it was.\<close>

theorem mmap_map_contents:
  assumes "space_ok (page_base cr3) st" "unat vaddr mod 4096 = 0" "unat vaddr + mmap_pages data * 4096 \<le> 2 ^ 47"
    and m: "mmap_map cr3 vaddr data w st = Some st'"
  shows "space_ok (page_base cr3) st' \<and> (\<forall>va. low va \<longrightarrow> ubyte (page_base cr3) st' va =
    ubytes vaddr (mmap_pages data * 4096) (file_byte data) (ubyte (page_base cr3) st) va)"
  using mmap_area [OF assms] by blast

lemma demo_space_ok: "space_ok 0x1000 demo_vm"
proof -
  have rd: "rd t j demo_vm = 0" for t j by (simp add: rd_def demo_vm_def zero_page_def)
  then have "virt_to_phys 0x1000 va demo_vm = None" for va
    by (simp add: virt_to_phys_def Let_def)
  then show ?thesis using demo_vm_wf demo_vm_small by (simp add: space_ok_def)
qed

lemma demo_mmap:
  assumes "unat va + 4096 < 2 ^ 64" "data \<noteq> []" "length data \<le> 4096"
  shows "\<exists>st'. mmap_map 0x1000 va data True demo_vm = Some st'"
proof -
  obtain s phys where t: "take_frame demo_vm = Some (s, phys)"
    using take_frame_total [of demo_vm] demo_vm_card by fastforce
  have c: "3 \<le> card (vavail s)"
    using take_frame_SomeD(1,2) [OF t] demo_vm_card by simp
  let ?p = "put_bytes 0 data zero_page"
  have "vavail (put_page phys ?p s) = vavail s" by (simp add: vavail_def put_page_def)
  then obtain st' where m: "map_4k (page_base 0x1000) va phys (PTE_USER OR PTE_WRITABLE) (put_page phys ?p s) = Some st'"
    using map_4k_total [of "put_page phys ?p s" "page_base 0x1000" va phys "PTE_USER OR PTE_WRITABLE"] c by auto
  have n: "(length data + 4095) div 4096 = 1" using assms(2,3) by (cases data) (auto simp: div_nat_eqI)
  then show ?thesis
    using t m assms by (simp add: mmap_map_def page_addr_def mul_chk_def add_chk_def)
qed

theorem mmap_map_contents_witness:
  "\<exists>st'. mmap_map 0x1000 0x400000 [7, 8, 9] True demo_vm = Some st' \<and>
    map (ubyte 0x1000 st') [0x400000, 0x400002, 0x400003, 0x401000] = [Some 7, Some 9, Some 0, None]"
proof -
  have n: "mmap_pages ([7, 8, 9] :: bytes) = 1" by (simp add: mmap_pages_def)
  obtain st' where mm: "mmap_map 0x1000 0x400000 [7, 8, 9] True demo_vm = Some st'"
    using demo_mmap [of "0x400000" "[7, 8, 9]"] by auto
  have r: "page_base 0x1000 = (0x1000 :: u64)" by (simp add: page_base_def)
  have "space_ok 0x1000 st' \<and> (\<forall>va. low va \<longrightarrow> ubyte 0x1000 st' va =
    ubytes 0x400000 4096 (file_byte [7, 8, 9]) (ubyte 0x1000 demo_vm) va)"
    using mmap_map_contents [OF _ _ _ mm] demo_space_ok by (simp add: r n)
  moreover have "ubyte 0x1000 demo_vm 0x401000 = None"
    by (simp add: ubyte_def virt_to_phys_def Let_def rd_def demo_vm_def zero_page_def)
  ultimately show ?thesis using mm by (simp add: low_def ubytes_def file_byte_def)
qed

end
