(* ===== verification/Dynlink.thy ===== *)
theory Dynlink
  imports Elf Address_Space
begin

text \<open>
  The dynamic linker, \<open>kernel/src/dynlink.rs\<close>, and the two loaders of \<open>kernel/src/paging/mod.rs\<close>, over the page
  tables of theory \<open>Paging\<close> and the reader of theory \<open>Elf\<close>.

  Names are byte strings. \<open>lib_provider\<close>, a closure in the code, is the argument \<open>provider\<close>. \<open>None\<close> is a panic. The
  recursion over dependencies has the depth of the call stack as fuel, so that running out of it (\<open>Deep\<close>) is told apart
  from a panic; \<open>load_deps_ends\<close> says when a depth is enough.
\<close>

section \<open>Physical memory\<close>

fun phys_write :: "u64 \<Rightarrow> bytes \<Rightarrow> vm \<Rightarrow> vm" where
  "phys_write pa [] st = st"
| "phys_write pa (b # bs) st =
     phys_write (pa + 1) bs (put_page (page_base pa) (put_byte (off12 pa) b (pmem st (page_base pa))) st)"

definition phys_read :: "u64 \<Rightarrow> nat \<Rightarrow> vm \<Rightarrow> bytes" where
  "phys_read pa n st = map (\<lambda>i. page_byte (pmem st (page_base (pa + of_nat i))) (off12 (pa + of_nat i))) [0..<n]"

section \<open>Libraries and symbols\<close>

definition EXEC_LOAD_BASE :: u64 where "EXEC_LOAD_BASE = 0x400000"
definition SO_LOAD_BASE :: u64 where "SO_LOAD_BASE = 0x80000000"
definition SO_SLOT_SIZE :: u64 where "SO_SLOT_SIZE = 0x1000000"
definition INTERP_LOAD_BASE :: u64 where "INTERP_LOAD_BASE = 0xC0000000"

record shared_lib =
  sl_name :: bytes
  load_base :: u64
  symtab_foff :: nat
  strtab_foff :: nat
  rela_foff :: nat
  rela_sz :: nat
  plt_rela_foff :: nat
  plt_rela_sz :: nat
  init_array :: "u64 list"
  sl_needed :: "bytes list"
  vaddr_end :: u64

type_synonym symbol_map = "(bytes \<times> u64) list"

definition sym_lookup :: "bytes \<Rightarrow> symbol_map \<Rightarrow> u64 option" where
  "sym_lookup name m = map_option snd (find (\<lambda>e. fst e = name) m)"

definition sym_define :: "bytes \<Rightarrow> u64 \<Rightarrow> symbol_map \<Rightarrow> symbol_map" where
  "sym_define name va m = (if sym_lookup name m = None then m @ [(name, va)] else m)"

text \<open>The symbol that one entry of the table contributes, if any.\<close>

definition sym_export :: "shared_lib \<Rightarrow> bytes \<Rightarrow> elf_sym \<Rightarrow> (bytes \<times> u64) option option" where
  "sym_export lib d sy =
     (if is_undef sy \<or> st_value sy = 0 then Some None
      else do {
        start \<leftarrow> usz (strtab_foff lib + unat (st_name sy));
        if length d < start then Some None
        else let name = takeWhile (\<lambda>b. b \<noteq> 0) (drop start d) in
          if utf8 name then do { va \<leftarrow> add_chk (load_base lib) (st_value sy); Some (Some (name, va)) }
          else Some None
      })"

definition add_lib :: "shared_lib \<Rightarrow> bytes \<Rightarrow> symbol_map \<Rightarrow> symbol_map option" where
  "add_lib lib d m = do {
     syms \<leftarrow> dynsym_all d (symtab_foff lib) (strtab_foff lib);
     exps \<leftarrow> those (map (sym_export lib d) syms);
     Some (fold (\<lambda>(name, va). sym_define name va) (List.map_filter id exps) m)
   }"

section \<open>Loading one file\<close>

definition seg_page :: "bytes \<Rightarrow> pt_load \<Rightarrow> u64 \<Rightarrow> u64 \<Rightarrow> page option" where
  "seg_page d seg seg_start_va va = do {
     page_va_end \<leftarrow> add_chk va 4096;
     seg_end \<leftarrow> add_chk seg_start_va (of_nat (pl_filesz seg));
     let copy_lo = max seg_start_va va;
     let copy_hi = min seg_end page_va_end;
     if copy_lo < copy_hi then do {
       src_off \<leftarrow> usz (pl_offset seg + unat (copy_lo - seg_start_va));
       let n = unat (copy_hi - copy_lo);
       en \<leftarrow> usz (src_off + n);
       Some (if en \<le> length d then put_bytes (unat (copy_lo - va)) (take n (drop src_off d)) zero_page else zero_page)
     } else Some zero_page
   }"

definition load_segment :: "bytes \<Rightarrow> u64 \<Rightarrow> u64 \<Rightarrow> pt_load \<Rightarrow> vm \<times> u64 \<Rightarrow> (vm \<times> u64) option" where
  "load_segment d cr3 slot_base seg = (\<lambda>(st, vend). do {
     mapped_vaddr \<leftarrow> add_chk slot_base (pl_vaddr seg);
     let page_start = page_base mapped_vaddr;
     e1 \<leftarrow> add_chk mapped_vaddr (of_nat (pl_memsz seg));
     e2 \<leftarrow> add_chk e1 0xFFF;
     let page_end = page_base e2;
     len \<leftarrow> sub_chk page_end page_start;
     st \<leftarrow> for_each (\<lambda>i st. do {
         va \<leftarrow> page_addr page_start i;
         (st, phys) \<leftarrow> take_frame st;
         p \<leftarrow> seg_page d seg mapped_vaddr va;
         pub_map_4k cr3 va phys (pl_flags seg AND 2 \<noteq> 0) (put_page phys p st)
       }) [0..<unat len div 4096] st;
     Some (st, max vend page_end)
   })"

definition last_tag :: "u64 \<Rightarrow> dyn_entry list \<Rightarrow> u64" where
  "last_tag t es = fold (\<lambda>e v. if dt_tag e = t then dt_val e else v) es 0"

definition file_off :: "elf64 \<Rightarrow> u64 \<Rightarrow> nat option" where
  "file_off e va = map_option (\<lambda>r. case r of None \<Rightarrow> 0 | Some n \<Rightarrow> n) (vaddr_to_file_off e va)"

text \<open>The names of \<open>DT_NEEDED\<close>, for a string table at \<open>strtab\<close>.\<close>

definition needed_names :: "bytes \<Rightarrow> nat \<Rightarrow> dyn_entry list \<Rightarrow> bytes list option" where
  "needed_names d strtab es = do {
     ns \<leftarrow> those (map (\<lambda>e. dyn_str d strtab (unat (dt_val e))) (filter (\<lambda>e. dt_tag e = 1) es));
     Some (filter utf8 (List.map_filter id ns))
   }"

definition init_addrs :: "elf64 \<Rightarrow> u64 \<Rightarrow> dyn_entry list \<Rightarrow> u64 list option" where
  "init_addrs e slot_base es =
     (let va = last_tag 25 es; sz = last_tag 27 es; d = e_data e in
      if va \<noteq> 0 \<and> 0 < sz then do {
        r \<leftarrow> vaddr_to_file_off e va;
        case r of
          None \<Rightarrow> Some []
        | Some foff \<Rightarrow> do {
            vs \<leftarrow> those (map (\<lambda>i. do {
                off \<leftarrow> usz (foff + i * 8);
                en \<leftarrow> usz (off + 8);
                if en \<le> length d then map_option Some (add_chk slot_base (le_at 8 d off)) else Some None
              }) [0..<unat sz div 8]);
            Some (List.map_filter id vs)
          }
      } else Some [])"

definition load_so_at :: "bytes \<Rightarrow> bytes \<Rightarrow> u64 \<Rightarrow> u64 \<Rightarrow> vm \<Rightarrow> (vm \<times> shared_lib option) option" where
  "load_so_at name d cr3 slot_base st =
     (case elf_parse d of
        None \<Rightarrow> Some (st, None)
      | Some e \<Rightarrow> do {
          segs \<leftarrow> load_segments e;
          (st, vend) \<leftarrow> for_each (load_segment d cr3 slot_base) segs (st, slot_base);
          es \<leftarrow> dynamic_entries e;
          symtab \<leftarrow> file_off e (last_tag 6 es);
          strtab \<leftarrow> file_off e (last_tag 5 es);
          rela \<leftarrow> file_off e (last_tag 7 es);
          plt \<leftarrow> file_off e (last_tag 23 es);
          needed \<leftarrow> needed_names d strtab es;
          inits \<leftarrow> init_addrs e slot_base es;
          Some (st, Some \<lparr>sl_name = name, load_base = slot_base, symtab_foff = symtab, strtab_foff = strtab,
            rela_foff = rela, rela_sz = unat (last_tag 8 es), plt_rela_foff = plt, plt_rela_sz = unat (last_tag 2 es),
            init_array = inits, sl_needed = needed, vaddr_end = vend\<rparr>)
        })"

section \<open>The linker\<close>

record dyn_linker =
  libs :: "shared_lib list"
  elf_bufs :: "bytes list"
  dl_cr3 :: u64
  next_slot :: u64
  exec_phdr_va :: u64
  exec_phent :: u16
  exec_phnum :: u16
  exec_load_base :: u64
  exec_entry :: u64
  interp_entry :: u64
  exec_vaddr_end :: u64

definition dl_new :: "u64 \<Rightarrow> dyn_linker" where
  "dl_new cr3 = \<lparr>libs = [], elf_bufs = [], dl_cr3 = cr3, next_slot = SO_LOAD_BASE, exec_phdr_va = 0, exec_phent = 0,
     exec_phnum = 0, exec_load_base = 0, exec_entry = 0, interp_entry = 0, exec_vaddr_end = 0\<rparr>"

text \<open>\<open>rsplit('/').next()\<close>: what follows the last slash.\<close>

definition base_name :: "bytes \<Rightarrow> bytes" where
  "base_name p = rev (takeWhile (\<lambda>b. b \<noteq> 0x2F) (rev p))"

definition add_loaded :: "shared_lib \<Rightarrow> bytes \<Rightarrow> dyn_linker \<Rightarrow> dyn_linker" where
  "add_loaded lib d dl = dl\<lparr>libs := libs dl @ [lib], elf_bufs := elf_bufs dl @ [d]\<rparr>"

datatype 'a run = Done 'a | Panic | Deep

function load_deps :: "(bytes \<Rightarrow> bytes option) \<Rightarrow> nat \<Rightarrow> bytes list \<Rightarrow> vm \<times> dyn_linker \<Rightarrow> (vm \<times> dyn_linker) run" where
  "load_deps provider depth [] s = Done s"
| "load_deps provider depth (dep # rest) (st, dl) =
     (if dep \<in> sl_name ` set (libs dl) then load_deps provider depth rest (st, dl)
      else case provider (base_name dep) of
          None \<Rightarrow> load_deps provider depth rest (st, dl)
        | Some d \<Rightarrow>
            (case add_chk (next_slot dl) SO_SLOT_SIZE of
               None \<Rightarrow> Panic
             | Some nxt \<Rightarrow>
                 (case load_so_at (base_name dep) d (dl_cr3 dl) (next_slot dl) st of
                    None \<Rightarrow> Panic
                  | Some (st', None) \<Rightarrow> load_deps provider depth rest (st', dl\<lparr>next_slot := nxt\<rparr>)
                  | Some (st', Some lib) \<Rightarrow>
                      if depth = 0 then Deep
                      else (case load_deps provider (depth - 1) (sl_needed lib) (st', add_loaded lib d (dl\<lparr>next_slot := nxt\<rparr>)) of
                          Done s \<Rightarrow> load_deps provider depth rest s
                        | r \<Rightarrow> r))))"
  by pat_completeness auto
termination
  by (relation "inv_image (less_than <*lex*> less_than) (\<lambda>(p, depth, needed, s). (depth, length needed))") auto


definition exec_name :: bytes where "exec_name = [0x28, 0x65, 0x78, 0x65, 0x63, 0x29]"

text \<open>Where the program headers of a fixed-address file are mapped.\<close>

definition exec_phdrs :: "elf64 \<Rightarrow> u64 option" where
  "exec_phdrs e =
     (let e_phoff = le_at 8 (e_data e) 32 :: u64 in do {
        r \<leftarrow> find_map (\<lambda>ph. if p_type ph \<noteq> PT_LOAD then Some None
            else if p_offset ph \<le> e_phoff then do {
              en \<leftarrow> add_chk (p_offset ph) (p_filesz ph);
              Some (if e_phoff < en then Some ph else None)
            } else Some None) (phdrs e);
        case r of
          None \<Rightarrow> Some e_phoff
        | Some ph \<Rightarrow> do { a \<leftarrow> add_chk (p_vaddr ph) e_phoff; sub_chk a (p_offset ph) }
      })"

text \<open>Loading the program and its interpreter: the flag says whether the call goes on; what was mapped before a
  failure stays mapped.\<close>

definition load_main :: "elf64 \<Rightarrow> vm \<times> dyn_linker \<Rightarrow> (bool \<times> vm \<times> dyn_linker) option" where
  "load_main e = (\<lambda>(st, dl).
     let d = e_data e; base = (if elf_type e = ET_DYN then EXEC_LOAD_BASE else 0) in do {
       (st, r) \<leftarrow> load_so_at exec_name d (dl_cr3 dl) base st;
       case r of
         None \<Rightarrow> Some (False, st, dl)
       | Some lib \<Rightarrow> do {
           ent \<leftarrow> (if elf_type e = ET_DYN then add_chk base (elf_entry e) else Some (elf_entry e));
           ph \<leftarrow> (if elf_type e = ET_DYN then add_chk base (le_at 8 d 32) else exec_phdrs e);
           Some (True, st, add_loaded lib d (dl\<lparr>exec_load_base := base, exec_entry := ent, exec_phdr_va := ph,
             exec_phent := le_at 2 d 54, exec_phnum := le_at 2 d 56, exec_vaddr_end := vaddr_end lib\<rparr>))
         }
     })"

definition load_interp :: "(bytes \<Rightarrow> bytes option) \<Rightarrow> elf64 \<Rightarrow> vm \<times> dyn_linker \<Rightarrow> (bool \<times> vm \<times> dyn_linker) option" where
  "load_interp provider e = (\<lambda>(st, dl). do {
     r \<leftarrow> interp_of e;
     case r of
       None \<Rightarrow> Some (True, st, dl)
     | Some path \<Rightarrow>
         let lib_name = base_name (if utf8 path then path else []) in
         (case provider lib_name of
            None \<Rightarrow> Some (True, st, dl)
          | Some d \<Rightarrow>
              (case elf_parse d of
                 None \<Rightarrow> Some (False, st, dl)
               | Some ie \<Rightarrow> do {
                   (st, r) \<leftarrow> load_so_at lib_name d (dl_cr3 dl) INTERP_LOAD_BASE st;
                   case r of
                     None \<Rightarrow> Some (False, st, dl)
                   | Some lib \<Rightarrow> do {
                       ent \<leftarrow> add_chk INTERP_LOAD_BASE (elf_entry ie);
                       Some (True, st, add_loaded lib d (dl\<lparr>interp_entry := ent\<rparr>))
                     }
                 }))
   })"

definition entry_point :: "dyn_linker \<Rightarrow> u64" where
  "entry_point dl = (if interp_entry dl \<noteq> 0 then interp_entry dl else exec_entry dl)"

definition load_exec ::
  "(bytes \<Rightarrow> bytes option) \<Rightarrow> nat \<Rightarrow> bytes \<Rightarrow> vm \<times> dyn_linker \<Rightarrow> ((vm \<times> dyn_linker) \<times> u64 option) run" where
  "load_exec provider depth d s =
     (case elf_parse d of
        None \<Rightarrow> Done (s, None)
      | Some e \<Rightarrow>
          (case load_main e s of
             None \<Rightarrow> Panic
           | Some (False, s) \<Rightarrow> Done (s, None)
           | Some (True, s) \<Rightarrow>
               (case load_interp provider e s of
                  None \<Rightarrow> Panic
                | Some (False, s) \<Rightarrow> Done (s, None)
                | Some (True, st, dl) \<Rightarrow>
                    (case load_deps provider depth (sl_needed (hd (libs dl))) (st, dl) of
                       Done (st, dl) \<Rightarrow> Done ((st, dl), Some (entry_point dl))
                     | Panic \<Rightarrow> Panic
                     | Deep \<Rightarrow> Deep))))"

section \<open>Relocation\<close>

definition resolve_sym_inner :: "bytes \<Rightarrow> shared_lib \<Rightarrow> u32 \<Rightarrow> (bytes \<Rightarrow> u64 option) \<Rightarrow> u64 option" where
  "resolve_sym_inner d lib idx resolver = do {
     r \<leftarrow> elf_symbol d (symtab_foff lib) (unat idx);
     case r of
       None \<Rightarrow> Some 0
     | Some sy \<Rightarrow>
         if \<not> is_undef sy then add_chk (load_base lib) (st_value sy)
         else do {
           nm \<leftarrow> dyn_str d (strtab_foff lib) (unat (st_name sy));
           let name = (case nm of None \<Rightarrow> [0x3F, 0x3F] | Some n \<Rightarrow> n);
           Some (case resolver name of None \<Rightarrow> 0 | Some va \<Rightarrow> va)
         }
   }"

definition apply_copy :: "bytes \<Rightarrow> shared_lib \<Rightarrow> u64 \<Rightarrow> elf_rela \<Rightarrow> u64 \<Rightarrow> u64 \<Rightarrow> vm \<Rightarrow> vm option" where
  "apply_copy d lib cr3 rela target_phys sym_va st =
     (if sym_va = 0 then Some st
      else do {
        r \<leftarrow> elf_symbol d (symtab_foff lib) (unat (r_sym rela));
        Some (case r of
            None \<Rightarrow> st
          | Some sy \<Rightarrow>
              if st_size sy = 0 then st
              else (case virt_to_phys cr3 sym_va st of
                  None \<Rightarrow> st
                | Some src \<Rightarrow> phys_write target_phys (phys_read src (unat (st_size sy)) st) st))
      })"

definition apply_one ::
  "bytes \<Rightarrow> shared_lib \<Rightarrow> u64 \<Rightarrow> (bytes \<Rightarrow> u64 option) \<Rightarrow> elf_rela \<Rightarrow> vm \<times> nat \<Rightarrow> (vm \<times> nat) option" where
  "apply_one d lib cr3 resolver rela = (\<lambda>(st, failed). do {
     target_va \<leftarrow> add_chk (load_base lib) (r_offset rela);
     case virt_to_phys cr3 target_va st of
       None \<Rightarrow> Some (st, failed + 1)
     | Some pa \<Rightarrow>
         if r_type rela = 8 then Some (phys_write pa (to_le_bytes (load_base lib + r_addend rela)) st, failed)
         else if r_type rela = 1 then do {
           sym_va \<leftarrow> resolve_sym_inner d lib (r_sym rela) resolver;
           Some (phys_write pa (to_le_bytes (sym_va + r_addend rela)) st, failed)
         }
         else if r_type rela = 6 \<or> r_type rela = 7 then do {
           sym_va \<leftarrow> resolve_sym_inner d lib (r_sym rela) resolver;
           Some (phys_write pa (to_le_bytes sym_va) st, failed)
         }
         else if r_type rela = 5 then do {
           sym_va \<leftarrow> resolve_sym_inner d lib (r_sym rela) resolver;
           st \<leftarrow> apply_copy d lib cr3 rela pa sym_va st;
           Some (st, failed)
         }
         else Some (st, failed)
   })"

definition apply_section ::
  "bytes \<Rightarrow> shared_lib \<Rightarrow> u64 \<Rightarrow> (bytes \<Rightarrow> u64 option) \<Rightarrow> nat \<times> nat \<Rightarrow> vm \<times> nat \<Rightarrow> (vm \<times> nat) option" where
  "apply_section d lib cr3 resolver = (\<lambda>(foff, sz) s.
     if sz = 0 then Some s
     else do { relas \<leftarrow> rela_entries d foff sz; for_each (apply_one d lib cr3 resolver) relas s })"

definition apply_rela_impl :: "shared_lib \<Rightarrow> bytes \<Rightarrow> u64 \<Rightarrow> (bytes \<Rightarrow> u64 option) \<Rightarrow> vm \<Rightarrow> (vm \<times> nat) option" where
  "apply_rela_impl lib d cr3 resolver st =
     (case elf_parse d of
        None \<Rightarrow> Some (st, 0)
      | Some e \<Rightarrow> for_each (apply_section d lib cr3 resolver)
          [(rela_foff lib, rela_sz lib), (plt_rela_foff lib, plt_rela_sz lib)] (st, 0))"

definition apply_rela_with_map :: "shared_lib \<Rightarrow> bytes \<Rightarrow> u64 \<Rightarrow> symbol_map \<Rightarrow> vm \<Rightarrow> (vm \<times> nat) option" where
  "apply_rela_with_map lib d cr3 sym_map = apply_rela_impl lib d cr3 (\<lambda>name. sym_lookup name sym_map)"

definition build_map :: "dyn_linker \<Rightarrow> symbol_map option" where
  "build_map dl = for_each (\<lambda>(lib, d). add_lib lib d) (zip (libs dl) (elf_bufs dl)) []"

definition resolve_all :: "dyn_linker \<Rightarrow> vm \<Rightarrow> (vm \<times> nat) option" where
  "resolve_all dl st = do {
     m \<leftarrow> build_map dl;
     for_each (\<lambda>(lib, d) (st, failed). do {
         (st, n) \<leftarrow> apply_rela_with_map lib d (dl_cr3 dl) m st;
         Some (st, failed + n)
       }) (zip (libs dl) (elf_bufs dl)) (st, 0)
   }"

definition collect_init_arrays :: "dyn_linker \<Rightarrow> u64 list" where
  "collect_init_arrays dl = concat (map init_array (rev (libs dl)))"

section \<open>The loaders of the paging module\<close>

text \<open>One page of a segment; the copy may run past the end of the frame.\<close>

definition static_page :: "bytes \<Rightarrow> pt_load \<Rightarrow> u64 \<Rightarrow> u64 \<Rightarrow> u64 \<Rightarrow> u64 \<Rightarrow> vm \<Rightarrow> vm option" where
  "static_page d seg mapped page_start vpage phys st = do {
     let off = unat (vpage - page_start);
     src \<leftarrow> usz (pl_offset seg + off);
     src_end \<leftarrow> usz (src + 4096);
     seg_end \<leftarrow> usz (pl_offset seg + pl_filesz seg);
     let copy_end = min (min src_end seg_end) (length d);
     let st = put_page phys zero_page st;
     Some (if src < copy_end
           then phys_write (phys + (if vpage < mapped then mapped - vpage else 0)) (take (copy_end - src) (drop src d)) st
           else st)
   }"

definition load_static_segment :: "bytes \<Rightarrow> u64 \<Rightarrow> u64 \<Rightarrow> pt_load \<Rightarrow> vm \<Rightarrow> vm option" where
  "load_static_segment d pml4 base_addr seg st = do {
     mapped \<leftarrow> add_chk base_addr (pl_vaddr seg);
     let page_start = page_base mapped;
     e1 \<leftarrow> add_chk mapped (of_nat (pl_memsz seg));
     e2 \<leftarrow> add_chk e1 0xFFF;
     let page_end = page_base e2;
     for_each (\<lambda>i st. do {
         vpage \<leftarrow> page_addr page_start i;
         (st, phys) \<leftarrow> take_frame st;
         st \<leftarrow> static_page d seg mapped page_start vpage phys st;
         map_4k pml4 vpage phys (PTE_USER OR PTE_WRITABLE) st
       }) [0..<unat (page_end - page_start) div 4096] st
   }"

definition load_elf_into_space :: "bytes \<Rightarrow> vm \<Rightarrow> (vm \<times> u64 \<times> u64 \<times> u64) option" where
  "load_elf_into_space d st = do {
     e \<leftarrow> elf_parse d;
     (st, user_cr3) \<leftarrow> alloc_user_pml4 st;
     segs \<leftarrow> load_segments e;
     st \<leftarrow> for_each (load_static_segment d user_cr3 0) segs st;
     (st, top_phys) \<leftarrow> map_user_stack user_cr3 st;
     let (st, user_sp) = setup_elf_stack top_phys USER_STACK_TOP st;
     Some (st, user_cr3, elf_entry e, user_sp)
   }"

definition load_dyn_exec ::
  "bytes \<Rightarrow> u64 \<Rightarrow> u64 \<Rightarrow> u16 \<Rightarrow> u16 \<Rightarrow> u64 \<Rightarrow> u64 \<Rightarrow> vm \<Rightarrow> (vm \<times> u64 \<times> u64 \<times> u64) option" where
  "load_dyn_exec d base_addr phdr_va phent phnum exec_ent final_entry st = do {
     e \<leftarrow> elf_parse d;
     (st, cr3) \<leftarrow> alloc_user_pml4 st;
     segs \<leftarrow> load_segments e;
     st \<leftarrow> for_each (load_static_segment d cr3 base_addr) segs st;
     (st, top_phys) \<leftarrow> map_user_stack cr3 st;
     let (st, user_sp) = setup_elf_stack_dyn top_phys USER_STACK_TOP phdr_va phent phnum base_addr exec_ent st;
     Some (st, cr3, final_entry, user_sp)
   }"


section \<open>A segment is loaded with its bytes\<close>

definition seg_byte :: "bytes \<Rightarrow> pt_load \<Rightarrow> nat \<Rightarrow> nat \<Rightarrow> u8" where
  "seg_byte d seg m a = (if m \<le> a \<and> a < m + pl_filesz seg then d ! (pl_offset seg + (a - m)) else 0)"

lemma unat_max_word: "unat (max a b) = max (unat a) (unat (b :: 'a::len word))"
  by (simp add: max_def word_le_nat_alt)

lemma unat_min_word: "unat (min a b) = min (unat a) (unat (b :: 'a::len word))"
  by (simp add: min_def word_le_nat_alt)

lemma usz_copy:
  "usz a \<bind> (\<lambda>src. usz (src + n) \<bind> (\<lambda>en. Some (if en \<le> l then f src else z))) = Some p \<Longrightarrow> a + n \<le> l \<Longrightarrow> p = f a"
  by (auto simp: usz_def split: if_splits)

lemma seg_page_bytes:
  assumes p: "seg_page d seg m va = Some p" and fit: "pl_offset seg + pl_filesz seg \<le> length d" "pl_filesz seg < 2 ^ 64"
    and k: "k < 4096"
  shows "page_byte p k = seg_byte d seg (unat m) (unat va + k)"
proof -
  obtain ve se where a: "add_chk va 4096 = Some ve" "add_chk m (of_nat (pl_filesz seg)) = Some se"
    using p by (auto simp: seg_page_def Option.bind_eq_Some_conv)
  have fs: "unat (of_nat (pl_filesz seg) :: u64) = pl_filesz seg" using fit(2) by (simp add: unat_of_nat)
  have e: "unat ve = unat va + 4096" "unat se = unat m + pl_filesz seg"
    using add_chk_SomeD [OF a(1), THEN conjunct2] add_chk_SomeD [OF a(2), THEN conjunct2] fs by simp_all
  let ?lo = "max m va" and ?hi = "min se ve"
  let ?L = "max (unat m) (unat va)" and ?H = "min (unat m + pl_filesz seg) (unat va + 4096)"
  have lh: "unat ?lo = ?L" "unat ?hi = ?H" by (simp_all add: unat_max_word unat_min_word e)
  have pe: "(if ?lo < ?hi then usz (pl_offset seg + unat (?lo - m)) \<bind> (\<lambda>src. usz (src + unat (?hi - ?lo)) \<bind> (\<lambda>en.
      Some (if en \<le> length d then put_bytes (unat (?lo - va)) (take (unat (?hi - ?lo)) (drop src d)) zero_page else zero_page)))
     else Some zero_page) = Some p"
    using p unfolding seg_page_def a Let_def by (simp only: bind.bind_lunit)
  show ?thesis
  proof (cases "?lo < ?hi")
    case False
    have "p = zero_page" using pe unfolding if_not_P [OF False] by simp
    moreover have "\<not> (unat m \<le> unat va + k \<and> unat va + k < unat m + pl_filesz seg)"
      using False k lh by (auto simp: word_less_nat_alt)
    ultimately show ?thesis by (auto simp: seg_byte_def)
  next
    case True
    have s: "unat (?lo - m) = ?L - unat m" "unat (?hi - ?lo) = ?H - ?L" "unat (?lo - va) = ?L - unat va"
      using unat_sub [of m ?lo] unat_sub [of va ?lo] unat_sub [OF less_imp_le [OF True]] by (simp_all only: lh max.cobounded1 max.cobounded2)
    have LH: "?L < ?H" using True lh by (simp add: word_less_nat_alt)
    define A N where A: "A = pl_offset seg + (?L - unat m)" and N: "N = ?H - ?L"
    have en: "A + N \<le> length d" using fit(1) LH unfolding A N by linarith
    have p: "p = put_bytes (?L - unat va) (take N (drop A d)) zero_page"
      using pe unfolding if_P [OF True] s A [symmetric] N [symmetric] by (rule usz_copy) (rule en)
    have ln: "length (take N (drop A d)) = N" using en by simp
    have b: "page_byte p k = (if ?L - unat va \<le> k \<and> k < ?L - unat va + N then d ! (A + (k - (?L - unat va))) else 0)"
    proof -
      have "page_byte (put_bytes q (take N (drop A d)) zero_page) k = (if q \<le> k \<and> k < q + N then d ! (A + (k - q)) else 0)" for q
        unfolding page_byte_put_bytes ln using en by auto
      then show ?thesis unfolding p .
    qed
    have c: "?L - unat va \<le> k \<and> k < ?L - unat va + N \<longleftrightarrow> unat m \<le> unat va + k \<and> unat va + k < unat m + pl_filesz seg"
      using k LH unfolding N by (auto simp: max_def min_def)
    have "A + (k - (?L - unat va)) = pl_offset seg + (unat va + k - unat m)" if "?L - unat va \<le> k" "unat m \<le> unat va + k"
      using that unfolding A by (auto simp: max_def)
    then show ?thesis unfolding b seg_byte_def using c by auto
  qed
qed


lemma page_base_nat: "unat (page_base va) = unat va - unat va mod 4096"
proof -
  have "page_base va + (va AND 0xFFF) = va"
    using word_plus_and_or [of "page_base va" "va AND 0xFFF"]
    by (simp only: page_base_def) (metis (no_types, lifting) add.left_neutral and.assoc and.commute and.right_neutral
        bit.conj_cancel_left bit.conj_disj_distrib bit.disj_cancel_left and_zero_eq)
  then have e: "page_base va = va - (va AND 0xFFF)" by (metis add_diff_cancel_right')
  have o: "unat (va AND 0xFFF) = unat va mod 4096" using off12_nat [of va] by (simp only: off12_def)
  then have "va AND 0xFFF \<le> va" by (simp only: word_le_nat_alt mod_less_eq_dividend)
  then show ?thesis unfolding e using o by (simp add: unat_sub)
qed

lemma seg_page_total:
  assumes "unat m + pl_filesz seg < 2 ^ 63" "unat va + 4096 < 2 ^ 63" "pl_offset seg + pl_filesz seg \<le> length d" "length d < 2 ^ 64"
  shows "\<exists>p. seg_page d seg m va = Some p"
proof -
  have fs: "unat (of_nat (pl_filesz seg) :: u64) = pl_filesz seg" using assms(1) by (simp add: unat_of_nat)
  obtain ve se where a: "add_chk va 4096 = Some ve" "add_chk m (of_nat (pl_filesz seg)) = Some se"
    using assms(1,2) fs by (simp add: add_chk_def)
  have e: "unat ve = unat va + 4096" "unat se = unat m + pl_filesz seg"
    using add_chk_SomeD [OF a(1), THEN conjunct2] add_chk_SomeD [OF a(2), THEN conjunct2] fs by simp_all
  let ?lo = "max m va" and ?hi = "min se ve"
  have "pl_offset seg + unat (?lo - m) + unat (?hi - ?lo) \<le> pl_offset seg + pl_filesz seg" if "?lo < ?hi"
  proof -
    have "unat (?lo - m) = unat ?lo - unat m" by (rule unat_sub) simp
    moreover have "unat (?hi - ?lo) = unat ?hi - unat ?lo" by (rule unat_sub) (use that in \<open>rule less_imp_le\<close>)
    moreover have "unat m \<le> unat ?lo" "unat ?lo < unat ?hi" "unat ?hi \<le> unat m + pl_filesz seg"
      using that e by (simp_all add: unat_max_word unat_min_word word_less_nat_alt)
    ultimately show ?thesis by linarith
  qed
  then have "?lo < ?hi \<Longrightarrow> pl_offset seg + unat (?lo - m) + unat (?hi - ?lo) < 2 ^ 64" using assms(3,4) by fastforce
  then show ?thesis using a by (auto simp: seg_page_def Let_def usz_def)
qed


text \<open>The pages of a segment and the side conditions under which the loader is meant to be used.\<close>

definition seg_lo :: "u64 \<Rightarrow> pt_load \<Rightarrow> nat" where
  "seg_lo slot seg = (unat slot + unat (pl_vaddr seg)) div 4096 * 4096"

definition seg_hi :: "u64 \<Rightarrow> pt_load \<Rightarrow> nat" where
  "seg_hi slot seg = (unat slot + unat (pl_vaddr seg) + pl_memsz seg + 4095) div 4096 * 4096"

definition seg_fits :: "bytes \<Rightarrow> u64 \<Rightarrow> pt_load \<Rightarrow> bool" where
  "seg_fits d slot seg \<longleftrightarrow> pl_offset seg + pl_filesz seg \<le> length d \<and> pl_filesz seg \<le> pl_memsz seg \<and>
     unat slot + unat (pl_vaddr seg) + pl_memsz seg + 8192 \<le> 2 ^ 47"

lemma load_segment_installed:
  assumes ok: "space_ok (page_base cr3) st" and fit: "seg_fits d slot seg" and len: "length d < 2 ^ 64"
    and l: "load_segment d cr3 slot seg (st, vend) = Some (st', vend')"
  shows "space_ok (page_base cr3) st'"
    and "low va \<Longrightarrow> ubyte (page_base cr3) st' va =
      (if seg_lo slot seg \<le> unat va \<and> unat va < seg_hi slot seg
       then Some (seg_byte d seg (unat slot + unat (pl_vaddr seg)) (unat va)) else ubyte (page_base cr3) st va)"
proof -
  obtain m e1 e2 n where a: "add_chk slot (pl_vaddr seg) = Some m" "add_chk m (of_nat (pl_memsz seg)) = Some e1"
    "add_chk e1 0xFFF = Some e2" "sub_chk (page_base e2) (page_base m) = Some n"
    and loop: "for_each (\<lambda>i st. do {
         va \<leftarrow> page_addr (page_base m) i; (st, phys) \<leftarrow> take_frame st; p \<leftarrow> seg_page d seg m va;
         pub_map_4k cr3 va phys (pl_flags seg AND 2 \<noteq> 0) (put_page phys p st)
       }) [0..<unat n div 4096] st = Some st'"
    using l by (auto simp: load_segment_def Let_def Option.bind_eq_Some_conv)
  let ?M = "unat slot + unat (pl_vaddr seg)"
  have ms: "unat (of_nat (pl_memsz seg) :: u64) = pl_memsz seg" using fit by (simp add: seg_fits_def unat_of_nat)
  have m: "unat m = ?M" using add_chk_SomeD [OF a(1)] by blast
  have e2: "unat e2 = ?M + pl_memsz seg + 4095"
    using add_chk_SomeD [OF a(2), THEN conjunct2] add_chk_SomeD [OF a(3), THEN conjunct2] m ms by simp
  have lo: "unat (page_base m) = seg_lo slot seg" and hi: "unat (page_base e2) = seg_hi slot seg"
    unfolding page_base_nat m e2 seg_lo_def seg_hi_def by (simp_all add: minus_mod_eq_div_mult)
  have n: "unat n = seg_hi slot seg - seg_lo slot seg" using sub_chk_SomeD [OF a(4), THEN conjunct2] lo hi by simp
  have le: "seg_lo slot seg \<le> seg_hi slot seg" unfolding seg_lo_def seg_hi_def by (intro mult_le_mono1 div_le_mono) simp
  have dv: "unat n div 4096 * 4096 = seg_hi slot seg - seg_lo slot seg"
    unfolding n seg_lo_def seg_hi_def by (simp flip: diff_mult_distrib)
  have top: "seg_hi slot seg \<le> ?M + pl_memsz seg + 4095" unfolding seg_hi_def by simp
  let ?P = "\<lambda>i. the (seg_page d seg m (page_base m + of_nat i * 4096))"
  have b: "maps_pages (page_base cr3) (page_base m) ?P (\<lambda>i st. do {
         va \<leftarrow> page_addr (page_base m) i; (st, phys) \<leftarrow> take_frame st; p \<leftarrow> seg_page d seg m va;
         pub_map_4k cr3 va phys (pl_flags seg AND 2 \<noteq> 0) (put_page phys p st) })"
    unfolding maps_pages_def
  proof (intro allI impI)
    fix i s s' assume "do { va \<leftarrow> page_addr (page_base m) i; (st, phys) \<leftarrow> take_frame s; p \<leftarrow> seg_page d seg m va;
         pub_map_4k cr3 va phys (pl_flags seg AND 2 \<noteq> 0) (put_page phys p st) } = Some s'"
    then obtain v s1 phys p where r: "page_addr (page_base m) i = Some v" "take_frame s = Some (s1, phys)"
      "seg_page d seg m v = Some p" "pub_map_4k cr3 v phys (pl_flags seg AND 2 \<noteq> 0) (put_page phys p s1) = Some s'"
      by (auto simp: Option.bind_eq_Some_conv)
    have "v = page_base m + of_nat i * 4096"
      using r(1) by (auto simp: page_addr_def Option.bind_eq_Some_conv dest!: mul_chk_SomeD add_chk_SomeD)
    then have "?P i = p" using r(3) by simp
    then show "\<exists>s1 phys f va. take_frame s = Some (s1, phys) \<and> page_base f = 0 \<and> page_addr (page_base m) i = Some va \<and>
        map_4k (page_base cr3) va phys f (put_page phys (?P i) s1) = Some s'"
      using r by (auto simp: pub_map_4k_def intro!: exI [of _ "PTE_USER OR (if pl_flags seg AND 2 \<noteq> 0 then PTE_WRITABLE else 0)"])
  qed
  let ?F = "\<lambda>j. seg_byte d seg ?M (seg_lo slot seg + j)"
  have F: "page_byte (?P i) k = ?F (i * 4096 + k)" if "i < unat n div 4096" "k < 4096" for i k
  proof -
    let ?v = "page_base m + of_nat i * 4096"
    have i: "i * 4096 + 4096 \<le> seg_hi slot seg - seg_lo slot seg" using that(1) dv by linarith
    have tp: "seg_hi slot seg \<le> 140737488355328" using top fit unfolding seg_fits_def by simp
    then have "i < 4503599627370496" using i by linarith
    then have "unat ?v = seg_lo slot seg + i * 4096"
      using i tp lo by (simp add: unat_word_ariths unat_of_nat)
    moreover have "\<exists>p. seg_page d seg m ?v = Some p"
      by (rule seg_page_total) (use i tp fit len m calculation in \<open>simp_all add: seg_fits_def\<close>)
    then have "seg_page d seg m ?v = Some (?P i)" by auto
    from seg_page_bytes [OF this _ _ that(2)] fit have "page_byte (?P i) k = seg_byte d seg (unat m) (unat ?v + k)"
      by (simp add: seg_fits_def)
    ultimately show ?thesis using m by (simp add: add.assoc)
  qed
  have al: "unat (page_base m) mod 4096 = 0" unfolding lo seg_lo_def by simp
  have bd: "unat (page_base m) + unat n div 4096 * 4096 \<le> 2 ^ 47"
    unfolding lo dv using le top fit by (simp add: seg_fits_def)
  show "space_ok (page_base cr3) st'" by (rule area_installed(1) [OF b al bd ok loop]) (rule F)
  assume lw: "low va"
  have "ubyte (page_base cr3) st' va = ubytes (page_base m) (unat n div 4096 * 4096) ?F (ubyte (page_base cr3) st) va"
    by (rule area_installed(2) [OF b al bd ok loop _ lw]) (rule F)
  then show "ubyte (page_base cr3) st' va =
      (if seg_lo slot seg \<le> unat va \<and> unat va < seg_hi slot seg
       then Some (seg_byte d seg ?M (unat va)) else ubyte (page_base cr3) st va)"
    using le unfolding ubytes_def lo dv by auto
qed


definition seg_apart :: "u64 \<Rightarrow> pt_load \<Rightarrow> pt_load \<Rightarrow> bool" where
  "seg_apart slot s t \<longleftrightarrow> seg_hi slot s \<le> seg_lo slot t \<or> seg_hi slot t \<le> seg_lo slot s"

definition in_seg :: "u64 \<Rightarrow> pt_load \<Rightarrow> u64 \<Rightarrow> bool" where
  "in_seg slot seg va \<longleftrightarrow> seg_lo slot seg \<le> unat va \<and> unat va < seg_hi slot seg"

lemma segments_installed:
  assumes "length d < 2 ^ 64" "\<forall>seg \<in> set segs. seg_fits d slot seg" "sorted_wrt (seg_apart slot) segs"
    and "space_ok (page_base cr3) st" "for_each (load_segment d cr3 slot) segs (st, vend) = Some (st', vend')"
  shows "space_ok (page_base cr3) st' \<and>
    (\<forall>seg \<in> set segs. \<forall>va. low va \<longrightarrow> in_seg slot seg va \<longrightarrow>
       ubyte (page_base cr3) st' va = Some (seg_byte d seg (unat slot + unat (pl_vaddr seg)) (unat va))) \<and>
    (\<forall>va. low va \<longrightarrow> (\<forall>seg \<in> set segs. \<not> in_seg slot seg va) \<longrightarrow> ubyte (page_base cr3) st' va = ubyte (page_base cr3) st va)"
  using assms(2-)
proof (induction segs arbitrary: st vend)
  case (Cons seg segs)
  obtain s v where s: "load_segment d cr3 slot seg (st, vend) = Some (s, v)"
    "for_each (load_segment d cr3 slot) segs (s, v) = Some (st', vend')"
    using Cons.prems(4) by (auto simp: Option.bind_eq_Some_conv)
  have fit: "seg_fits d slot seg" using Cons.prems(1) by simp
  note r = load_segment_installed [OF Cons.prems(3) fit assms(1) s(1)]
  have IH: "space_ok (page_base cr3) st' \<and>
    (\<forall>seg \<in> set segs. \<forall>va. low va \<longrightarrow> in_seg slot seg va \<longrightarrow>
       ubyte (page_base cr3) st' va = Some (seg_byte d seg (unat slot + unat (pl_vaddr seg)) (unat va))) \<and>
    (\<forall>va. low va \<longrightarrow> (\<forall>seg \<in> set segs. \<not> in_seg slot seg va) \<longrightarrow> ubyte (page_base cr3) st' va = ubyte (page_base cr3) s va)"
    by (rule Cons.IH) (use Cons.prems r(1) s(2) in auto)
  have "\<not> in_seg slot t va" if "in_seg slot seg va" "t \<in> set segs" for t va
    using that Cons.prems(2) by (auto simp: in_seg_def seg_apart_def)
  then show ?case using IH r(2) by (fastforce simp: in_seg_def)
qed simp

text \<open>C16: loading a library or program whose segments lie in the file and on different pages makes every byte of every
  segment readable at its address: the bytes of the file, and zeros from the end of the file part to the end of the
  segment. All other user bytes stay as they were.\<close>

theorem load_so_contents:
  assumes "length d < 2 ^ 64" "elf_parse d = Some e" "load_segments e = Some segs"
    and "\<forall>seg \<in> set segs. seg_fits d slot seg" "sorted_wrt (seg_apart slot) segs"
    and ok: "space_ok (page_base cr3) st" and l: "load_so_at name d cr3 slot st = Some (st', r)"
  shows "space_ok (page_base cr3) st' \<and> r \<noteq> None \<and>
    (\<forall>seg \<in> set segs. \<forall>k < pl_memsz seg. ubyte (page_base cr3) st' (slot + pl_vaddr seg + of_nat k) =
       Some (if k < pl_filesz seg then d ! (pl_offset seg + k) else 0)) \<and>
    (\<forall>va. low va \<longrightarrow> (\<forall>seg \<in> set segs. \<not> in_seg slot seg va) \<longrightarrow> ubyte (page_base cr3) st' va = ubyte (page_base cr3) st va)"
proof -
  obtain vend where f: "for_each (load_segment d cr3 slot) segs (st, slot) = Some (st', vend)" and r: "r \<noteq> None"
    using l assms(2,3) by (auto simp: load_so_at_def Option.bind_eq_Some_conv)
  note i = segments_installed [OF assms(1,4,5) ok f]
  have "ubyte (page_base cr3) st' (slot + pl_vaddr seg + of_nat k) = Some (if k < pl_filesz seg then d ! (pl_offset seg + k) else 0)"
    if seg: "seg \<in> set segs" "k < pl_memsz seg" for seg k
  proof -
    let ?M = "unat slot + unat (pl_vaddr seg)" and ?va = "slot + pl_vaddr seg + of_nat k"
    have fit: "seg_fits d slot seg" using assms(4) seg(1) by blast
    then have b: "?M + pl_memsz seg \<le> 2 ^ 47" by (simp add: seg_fits_def)
    then have va: "unat ?va = ?M + k" using seg(2) by (simp add: unat_word_ariths unat_of_nat)
    then have lw: "low ?va" using b seg(2) unfolding low_def by linarith
    have "in_seg slot seg ?va"
      using seg(2) unfolding in_seg_def va seg_lo_def seg_hi_def by (simp add: add.assoc) linarith
    then have "ubyte (page_base cr3) st' ?va = Some (seg_byte d seg ?M (?M + k))" using i seg(1) lw va by metis
    then show ?thesis by (simp add: seg_byte_def)
  qed
  then show ?thesis using i r by blast
qed


definition demo_so :: bytes where "demo_so = elf_image ET_DYN 4100 [demo_phdr] [1, 2, 3, 4]"

definition demo_elf :: elf64 where "demo_elf = \<lparr>e_data = demo_so, elf_type = ET_DYN\<rparr>"

definition demo_seg :: pt_load where
  "demo_seg = \<lparr>pl_flags = 6, pl_offset = 120, pl_vaddr = 4096, pl_filesz = 4, pl_memsz = 8, pl_align = 4096\<rparr>"

lemma demo_so_parts:
  "elf_parse demo_so = Some demo_elf" "load_segments demo_elf = Some [demo_seg]" "dynamic_entries demo_elf = Some []"
  "file_off demo_elf 0 = Some 0" "length demo_so = 124" "drop 120 demo_so = [1, 2, 3, 4]"
  by code_simp+

lemma demo_load: "\<exists>st' lib. load_so_at [0x61] demo_so 0x1000 0x400000 demo_vm = Some (st', Some lib)"
proof -
  obtain s phys where t: "take_frame demo_vm = Some (s, phys)"
    using take_frame_total [of demo_vm] demo_vm_card by fastforce
  have c: "3 \<le> card (vavail s)"
    using take_frame_SomeD(1,2) [OF t] demo_vm_card by simp
  obtain p where p: "seg_page demo_so demo_seg 0x401000 0x401000 = Some p"
    using seg_page_total [of "0x401000" demo_seg "0x401000" demo_so] by (auto simp: demo_seg_def demo_so_parts(5))
  have "vavail (put_page phys p s) = vavail s" by (simp add: vavail_def put_page_def)
  then obtain st' where m: "map_4k (page_base 0x1000) 0x401000 phys (PTE_USER OR PTE_WRITABLE) (put_page phys p s) = Some st'"
    using map_4k_total [of "put_page phys p s" "page_base 0x1000" "0x401000" phys "PTE_USER OR PTE_WRITABLE"] c by auto
  have "load_segment demo_so 0x1000 0x400000 demo_seg (demo_vm, 0x400000) = Some (st', 0x402000)"
    using t p m by (simp add: load_segment_def demo_seg_def add_chk_def sub_chk_def page_base_def page_addr_def mul_chk_def
        pub_map_4k_def max_def)
  then show ?thesis
    by (simp add: load_so_at_def demo_so_parts(1-4) last_tag_def needed_names_def init_addrs_def map_filter_simps)
qed

theorem load_so_contents_witness:
  "\<exists>st' r. load_so_at [0x61] demo_so 0x1000 0x400000 demo_vm = Some (st', r) \<and>
    map (ubyte 0x1000 st') [0x401000, 0x401003, 0x401004, 0x401007] = [Some 1, Some 4, Some 0, Some 0]"
proof -
  obtain st' r where l: "load_so_at [0x61] demo_so 0x1000 0x400000 demo_vm = Some (st', r)"
    using demo_load by blast
  have fit: "seg_fits demo_so 0x400000 demo_seg" by (simp add: seg_fits_def demo_seg_def demo_so_parts(5))
  have root: "page_base 0x1000 = (0x1000 :: u64)" by (simp add: page_base_def)
  have "length demo_so < 2 ^ 64" by (simp add: demo_so_parts(5))
  from load_so_contents [OF this demo_so_parts(1,2) _ _ _ l, unfolded root] demo_space_ok fit
  have "\<forall>seg \<in> set [demo_seg]. \<forall>k < pl_memsz seg. ubyte 0x1000 st' (0x400000 + pl_vaddr seg + of_nat k) =
      Some (if k < pl_filesz seg then demo_so ! (pl_offset seg + k) else 0)" by simp
  then have "\<forall>k < pl_memsz demo_seg. ubyte 0x1000 st' (0x400000 + pl_vaddr demo_seg + of_nat k) =
      Some (if k < pl_filesz demo_seg then demo_so ! (pl_offset demo_seg + k) else 0)"
    by (rule bspec) (rule list.set_intros)
  then have "ubyte 0x1000 st' (0x400000 + 4096 + of_nat k) = Some (if k < 4 then demo_so ! (120 + k) else 0)" if "k < 8" for k
    using that by (simp add: demo_seg_def)
  from this [of 0] this [of 3] this [of 4] this [of 7] show ?thesis
    using l demo_so_parts(5,6) nth_drop [of 120 demo_so 0] nth_drop [of 120 demo_so 3] by simp
qed


section \<open>Loading dependencies ends\<close>

definition elf_needed :: "bytes \<Rightarrow> bytes list option" where
  "elf_needed d =
     (case elf_parse d of
        None \<Rightarrow> Some []
      | Some e \<Rightarrow> do { es \<leftarrow> dynamic_entries e; strtab \<leftarrow> file_off e (last_tag 5 es); needed_names d strtab es })"

definition plain :: "bytes \<Rightarrow> bool" where "plain n \<longleftrightarrow> 0x2F \<notin> set n"

abbreviation lib_names :: "dyn_linker \<Rightarrow> bytes set" where "lib_names dl \<equiv> sl_name ` set (libs dl)"

lemma base_name_plain: "plain n \<Longrightarrow> base_name n = n"
proof -
  assume "plain n"
  then have "takeWhile (\<lambda>b. b \<noteq> 0x2F) (rev n) = rev n" by (auto simp: plain_def takeWhile_eq_all_conv)
  then show ?thesis unfolding base_name_def by (simp only: rev_rev_ident)
qed

lemma load_so_at_SomeD:
  assumes "load_so_at name d cr3 slot st = Some (st', Some lib)"
  shows "sl_name lib = name" "elf_needed d = Some (sl_needed lib)"
  using assms by (auto simp: load_so_at_def elf_needed_def Option.bind_eq_Some_conv split: option.splits)

lemma lib_names_add [simp]: "lib_names (add_loaded lib d dl) = insert (sl_name lib) (lib_names dl)"
  by (auto simp: add_loaded_def)

text \<open>What one dependency does: nothing, a panic, or a library and then its own dependencies.\<close>

lemma load_deps_Cons_cases:
  obtains (skip) s1 where "lib_names (snd s1) = lib_names (snd s)" "load_deps provider depth (dep # rest) s = load_deps provider depth rest s1"
  | (panic) "load_deps provider depth (dep # rest) s = Panic"
  | (lib) d s1 and l :: shared_lib where "dep \<notin> lib_names (snd s)" "provider (base_name dep) = Some d" "elf_needed d = Some (sl_needed l)"
      "lib_names (snd s1) = insert (base_name dep) (lib_names (snd s))"
      "load_deps provider depth (dep # rest) s = (if depth = 0 then Deep
         else case load_deps provider (depth - 1) (sl_needed l) s1 of Done s2 \<Rightarrow> load_deps provider depth rest s2 | r \<Rightarrow> r)"
proof -
  obtain st dl where s: "s = (st, dl)" by fastforce
  show ?thesis
  proof (cases "dep \<in> lib_names dl \<or> provider (base_name dep) = None")
    case True
    then show ?thesis using skip [of s] s by auto
  next
    case False
    then obtain d where p: "provider (base_name dep) = Some d" "dep \<notin> lib_names dl" by auto
    show ?thesis
    proof (cases "add_chk (next_slot dl) SO_SLOT_SIZE = None \<or> load_so_at (base_name dep) d (dl_cr3 dl) (next_slot dl) st = None")
      case True
      then show ?thesis using panic p s by (auto split: option.splits)
    next
      case False
      then obtain nxt st' r where n: "add_chk (next_slot dl) SO_SLOT_SIZE = Some nxt"
        "load_so_at (base_name dep) d (dl_cr3 dl) (next_slot dl) st = Some (st', r)" by auto
      show ?thesis
      proof (cases r)
        case None
        then show ?thesis using skip [of "(st', dl\<lparr>next_slot := nxt\<rparr>)"] p n s by simp
      next
        case (Some l)
        note d = load_so_at_SomeD [OF n(2) [unfolded Some]]
        show ?thesis
          using lib [of d l "(st', add_loaded l d (dl\<lparr>next_slot := nxt\<rparr>))"] p n s d Some by simp
      qed
    qed
  qed
qed

lemma load_deps_names:
  "load_deps provider depth needed s = Done s' \<Longrightarrow> lib_names (snd s) \<subseteq> lib_names (snd s')"
proof (induction depth arbitrary: needed s s' rule: less_induct)
  case (less depth)
  show ?case
    using less.prems
  proof (induction needed arbitrary: s)
    case (Cons dep rest)
    show ?case
    proof (cases rule: load_deps_Cons_cases [of s provider depth dep rest])
      case (lib d s1 l)
      then obtain s2 where s2: "load_deps provider (depth - 1) (sl_needed l) s1 = Done s2" "depth \<noteq> 0"
        "load_deps provider depth rest s2 = Done s'"
        using Cons.prems by (auto split: if_splits run.splits)
      have "lib_names (snd s1) \<subseteq> lib_names (snd s2)" by (rule less.IH [OF _ s2(1)]) (use s2(2) in simp)
      also note Cons.IH [OF s2(3)]
      finally show ?thesis unfolding lib(4) by simp
    next
      case (skip s1)
      then show ?thesis using Cons.IH [of s1] Cons.prems by simp
    qed (use Cons.prems in simp)
  qed simp
qed

text \<open>C19: loading the dependencies of a program ends: when the provider knows finitely many libraries and no library
  asks for a name with a slash, the recursion is never deeper than the number of libraries not yet loaded.\<close>

theorem load_deps_ends:
  assumes N: "finite N" "\<forall>n. provider n \<noteq> None \<longrightarrow> n \<in> N"
    and pl: "\<forall>n d ns. provider n = Some d \<longrightarrow> elf_needed d = Some ns \<longrightarrow> (\<forall>x \<in> set ns. plain x)"
    and "\<forall>x \<in> set needed. plain x" "card (N - lib_names (snd s)) \<le> depth"
  shows "load_deps provider depth needed s \<noteq> Deep"
  using assms(4,5)
proof (induction depth arbitrary: needed s rule: less_induct)
  case (less depth)
  show ?case
    using less.prems
  proof (induction needed arbitrary: s)
    case (Cons dep rest)
    show ?case
    proof (cases rule: load_deps_Cons_cases [of s provider depth dep rest])
      case (lib d s1 l)
      have dep: "base_name dep = dep" using Cons.prems(1) base_name_plain by simp
      have "dep \<in> N" using lib(2) N(2) dep by auto
      then have lt: "card (N - lib_names (snd s1)) < card (N - lib_names (snd s))"
        using lib(1,4) dep N(1) by (intro psubset_card_mono) auto
      have "\<forall>x \<in> set (sl_needed l). plain x" using pl lib(2,3) by blast
      then have "load_deps provider (depth - 1) (sl_needed l) s1 \<noteq> Deep"
        using less.IH [of "depth - 1" "sl_needed l" s1] lt Cons.prems(2) by simp
      moreover have "load_deps provider depth rest s2 \<noteq> Deep"
        if "load_deps provider (depth - 1) (sl_needed l) s1 = Done s2" for s2
      proof -
        have "N - lib_names (snd s2) \<subseteq> N - lib_names (snd s1)" using load_deps_names [OF that] by blast
        then have "card (N - lib_names (snd s2)) \<le> card (N - lib_names (snd s1))" using N(1) by (simp add: card_mono)
        then show ?thesis using Cons.IH [of s2] Cons.prems lt by simp
      qed
      ultimately show ?thesis using lib(5) lt Cons.prems(2) by (auto split: run.split)
    next
      case (skip s1)
      then show ?thesis using Cons.IH [of s1] Cons.prems by simp
    qed simp
  qed simp
qed

definition demo_provider :: "bytes \<Rightarrow> bytes option" where
  "demo_provider n = (if n = [0x61] then Some demo_so else None)"

theorem load_deps_ends_witness:
  "load_deps demo_provider 1 [[0x61]] (demo_vm, dl_new 0x1000) \<noteq> Deep \<and> demo_provider [0x61] = Some demo_so"
proof -
  have "elf_needed demo_so = Some []"
    by (simp add: elf_needed_def demo_so_parts last_tag_def needed_names_def map_filter_simps)
  then have "\<forall>n d ns. demo_provider n = Some d \<longrightarrow> elf_needed d = Some ns \<longrightarrow> (\<forall>x \<in> set ns. plain x)"
    by (auto simp: demo_provider_def split: if_splits)
  moreover have "\<forall>n. demo_provider n \<noteq> None \<longrightarrow> n \<in> {[0x61]}" by (simp add: demo_provider_def)
  moreover have "\<forall>x \<in> set [[0x61]]. plain x" by (simp add: plain_def)
  moreover have "card ({[0x61]} - lib_names (snd (demo_vm, dl_new 0x1000))) \<le> 1" by (simp add: dl_new_def)
  ultimately have "load_deps demo_provider 1 [[0x61]] (demo_vm, dl_new 0x1000) \<noteq> Deep"
    by (intro load_deps_ends [of "{[0x61]}"]) simp_all
  then show ?thesis by (simp only: demo_provider_def) simp
qed


text \<open>A library that asks for itself with a slash in the name.\<close>

definition cyc_name :: bytes where "cyc_name = [0x64, 0x2F, 0x78]"

definition cyc_so :: bytes where
  "cyc_so = elf_image ET_DYN 0 [\<lparr>p_type = PT_DYNAMIC, p_flags = 4, p_offset = 120, p_vaddr = 120, p_paddr = 0, p_filesz = 32,
     p_memsz = 32, p_align = 8\<rparr>] (to_le_bytes 1 @ to_le_bytes 152 @ replicate 16 0 @ cyc_name @ [0])"

definition cyc_provider :: "bytes \<Rightarrow> bytes option" where
  "cyc_provider n = (if n = [0x78] then Some cyc_so else None)"

lemma cyc_provider_hit: "cyc_provider [0x78] = Some cyc_so"
  by (simp add: cyc_provider_def)

lemma cyc_parts:
  "elf_parse cyc_so = Some \<lparr>e_data = cyc_so, elf_type = ET_DYN\<rparr>" "load_segments \<lparr>e_data = cyc_so, elf_type = ET_DYN\<rparr> = Some []"
  "dynamic_entries \<lparr>e_data = cyc_so, elf_type = ET_DYN\<rparr> = Some [\<lparr>dt_tag = 1, dt_val = 152\<rparr>]"
  "file_off \<lparr>e_data = cyc_so, elf_type = ET_DYN\<rparr> 0 = Some 0" "dyn_str cyc_so 0 152 = Some (Some cyc_name)" "utf8 cyc_name"
  by code_simp+

lemma cyc_load:
  obtains lib where "load_so_at n cyc_so cr3 slot st = Some (st, Some lib)" "sl_needed lib = [cyc_name]" "sl_name lib = n"
proof -
  have "needed_names cyc_so 0 [\<lparr>dt_tag = 1, dt_val = 152\<rparr>] = Some [cyc_name]"
    by (simp add: needed_names_def cyc_parts map_filter_simps)
  then show ?thesis using that by (simp add: load_so_at_def cyc_parts last_tag_def init_addrs_def)
qed

text \<open>C39: a library whose dependency list names the library itself with a slash is loaded again and again, because
  loaded libraries are recorded by their base name and compared with the full name: no recursion depth is enough.\<close>

theorem cyclic_dependency_unbounded:
  assumes "unat (next_slot dl) + (depth + 1) * 0x1000000 < 2 ^ 64" "cyc_name \<notin> lib_names dl"
  shows "load_deps cyc_provider depth [cyc_name] (st, dl) = Deep"
  using assms
proof (induction depth arbitrary: dl)
  case (Suc depth)
  have b: "base_name cyc_name = [0x78]" by code_simp
  obtain l where l: "load_so_at [0x78] cyc_so (dl_cr3 dl) (next_slot dl) st = Some (st, Some l)" "sl_needed l = [cyc_name]"
    "sl_name l = [0x78]" by (rule cyc_load)
  have n: "add_chk (next_slot dl) SO_SLOT_SIZE = Some (next_slot dl + 0x1000000)" "unat (next_slot dl + 0x1000000) = unat (next_slot dl) + 0x1000000"
    using Suc.prems(1) by (simp_all add: add_chk_def SO_SLOT_SIZE_def unat_word_ariths)
  have "load_deps cyc_provider depth [cyc_name] (st, add_loaded l cyc_so (dl\<lparr>next_slot := next_slot dl + 0x1000000\<rparr>)) = Deep"
    by (rule Suc.IH) (use Suc.prems l(3) n(2) in \<open>simp_all add: add_loaded_def cyc_name_def\<close>)
  then show ?case
    using Suc.prems(2) b l n(1) by (subst load_deps.simps) (simp add: cyc_provider_hit del: load_deps.simps)
next
  case 0
  have b: "base_name cyc_name = [0x78]" by code_simp
  obtain l where l: "load_so_at [0x78] cyc_so (dl_cr3 dl) (next_slot dl) st = Some (st, Some l)" by (rule cyc_load)
  have n: "add_chk (next_slot dl) SO_SLOT_SIZE \<noteq> None" using "0.prems"(1) by (simp add: add_chk_def SO_SLOT_SIZE_def)
  then show ?case using "0.prems"(2) b l by (auto simp: cyc_provider_hit)
qed

theorem cyclic_dependency_unbounded_witness:
  "load_deps cyc_provider 1000000 [cyc_name] (demo_vm, dl_new 0x1000) = Deep"
  using cyclic_dependency_unbounded [of "dl_new 0x1000" 1000000 demo_vm] by (simp add: dl_new_def SO_LOAD_BASE_def)


section \<open>Symbols\<close>

text \<open>The symbols a library exports, in the order of its table.\<close>

definition exports :: "shared_lib \<Rightarrow> bytes \<Rightarrow> (bytes \<times> u64) list option" where
  "exports lib d = do {
     syms \<leftarrow> dynsym_all d (symtab_foff lib) (strtab_foff lib);
     exps \<leftarrow> those (map (sym_export lib d) syms);
     Some (List.map_filter id exps)
   }"

lemma sym_lookup_Nil [simp]: "sym_lookup n [] = None"
  by (simp add: sym_lookup_def)

lemma sym_lookup_Cons: "sym_lookup n ((k, v) # m) = (if k = n then Some v else sym_lookup n m)"
  by (simp add: sym_lookup_def)

lemma sym_lookup_append: "sym_lookup n (m @ m') = (case sym_lookup n m of Some v \<Rightarrow> Some v | None \<Rightarrow> sym_lookup n m')"
  by (induction m) (auto simp: sym_lookup_Cons)

lemma sym_lookup_map_of: "sym_lookup n m = map_of m n"
  by (induction m) (auto simp: sym_lookup_Cons)

lemma sym_define_lookup: "sym_lookup n (sym_define k v m) = sym_lookup n (m @ [(k, v)])"
  by (auto simp: sym_define_def sym_lookup_append sym_lookup_Cons split: option.split)

lemma fold_define: "sym_lookup n (fold (\<lambda>(k, v). sym_define k v) es m) = sym_lookup n (m @ es)"
  by (induction es arbitrary: m)
    (auto simp: sym_define_lookup sym_lookup_append sym_lookup_Cons split: option.split)

text \<open>C22: a symbol is resolved to its first definition in load order: the program's own before those of its libraries,
  and within a file the first entry of its table.\<close>

theorem first_definition_wins:
  assumes "build_map dl = Some m"
  shows "\<exists>ess. those (map (\<lambda>(lib, d). exports lib d) (zip (libs dl) (elf_bufs dl))) = Some ess \<and>
    sym_lookup name m = map_of (concat ess) name"
proof -
  have "for_each (\<lambda>(lib, d). add_lib lib d) xs m0 = Some m \<Longrightarrow>
      \<exists>ess. those (map (\<lambda>(lib, d). exports lib d) xs) = Some ess \<and> sym_lookup name m = sym_lookup name (m0 @ concat ess)" for xs m0
  proof (induction xs arbitrary: m0)
    case (Cons x xs)
    obtain lib d where x: "x = (lib, d)" by fastforce
    then obtain m1 where m1: "add_lib lib d m0 = Some m1" "for_each (\<lambda>(lib, d). add_lib lib d) xs m1 = Some m"
      using Cons.prems by (auto simp: Option.bind_eq_Some_conv)
    then obtain es where es: "exports lib d = Some es" "m1 = fold (\<lambda>(k, v). sym_define k v) es m0"
      by (auto simp: add_lib_def exports_def Option.bind_eq_Some_conv)
    obtain ess where ess: "those (map (\<lambda>(lib, d). exports lib d) xs) = Some ess"
      "sym_lookup name m = sym_lookup name (m1 @ concat ess)" using Cons.IH [OF m1(2)] by blast
    have "sym_lookup name (m1 @ concat ess) = sym_lookup name (m0 @ es @ concat ess)"
      by (simp add: es(2) sym_lookup_append fold_define split: option.split)
    then show ?case using ess es(1) x by simp
  qed simp
  from this [OF assms [unfolded build_map_def]] show ?thesis by (simp add: sym_lookup_map_of)
qed

definition demo_lib :: "bytes \<Rightarrow> u64 \<Rightarrow> shared_lib" where
  "demo_lib n b = \<lparr>sl_name = n, load_base = b, symtab_foff = 0, strtab_foff = 24, rela_foff = 0, rela_sz = 0, plt_rela_foff = 0,
     plt_rela_sz = 0, init_array = [], sl_needed = [], vaddr_end = 0\<rparr>"

definition demo_symtab :: bytes where
  "demo_symtab = le4 0 @ [0x12, 0] @ [1, 0] @ to_le_bytes 16 @ to_le_bytes 4 @ [0x66, 0]"

theorem first_definition_wins_witness:
  "\<exists>m. build_map ((dl_new 0x1000)\<lparr>libs := [demo_lib [0x61] 0x400000, demo_lib [0x62] 0x80000000],
      elf_bufs := [demo_symtab, demo_symtab]\<rparr>) = Some m \<and> sym_lookup [0x66] m = Some 0x400010"
proof -
  let ?dl = "(dl_new 0x1000)\<lparr>libs := [demo_lib [0x61] 0x400000, demo_lib [0x62] 0x80000000], elf_bufs := [demo_symtab, demo_symtab]\<rparr>"
  have e: "exports (demo_lib [0x61] 0x400000) demo_symtab = Some [([0x66], 0x400010)]"
    "exports (demo_lib [0x62] 0x80000000) demo_symtab = Some [([0x66], 0x80000010)]" by code_simp+
  have "map_option (\<lambda>_. ()) (build_map ?dl) = Some ()" by code_simp
  then obtain m where m: "build_map ?dl = Some m" by auto
  show ?thesis using first_definition_wins [OF m, of "[0x66]"] m by (simp add: e)
qed

end
