(* ===== verification/Loader.thy ===== *)
theory Loader
  imports Dynlink
begin

text \<open>
  What relocation does to the memory of a process, and the static loader.

  \<open>pbyte\<close> is physical memory as bytes, so that a store of the kernel through the direct map is a \<open>poke\<close>. A relocation
  writes the eight bytes of its value at its target and no other byte; the tables and the rest of the address space stay.
  The last section shows where the static loader of \<open>paging/mod.rs\<close> agrees with the linker's and where it does not.
\<close>

definition pbyte :: "vm \<Rightarrow> u64 \<Rightarrow> u8" where
  "pbyte st a = page_byte (pmem st (page_base a)) (off12 a)"

lemma page_parts: "page_base a = page_base b \<Longrightarrow> off12 a = off12 b \<Longrightarrow> a = b"
proof -
  assume p: "page_base a = page_base b" and o: "off12 a = off12 b"
  have "unat a = unat (page_base a) + off12 a" for a
    unfolding page_base_nat off12_nat by (simp add: mod_less_eq_dividend)
  from this [of a] this [of b] p o show ?thesis by (simp add: word_unat_eq_iff)
qed

lemma pbyte_put: "pbyte (put_page (page_base a) (put_byte (off12 a) b (pmem st (page_base a))) st) = (pbyte st)(a := b)"
proof
  fix x
  show "pbyte (put_page (page_base a) (put_byte (off12 a) b (pmem st (page_base a))) st) x = ((pbyte st)(a := b)) x"
    using page_parts [of x a] by (auto simp: pbyte_def put_page_def page_byte_put_byte)
qed

lemma pbyte_phys_write: "pbyte (phys_write pa bs st) = poke pa bs (pbyte st)"
  by (induction bs arbitrary: pa st) (simp_all add: pbyte_put)

lemma phys_read_peek: "phys_read pa n st = peek (pbyte st) pa n"
  by (simp add: phys_read_def peek_def pbyte_def)

lemma ubyte_pbyte: "ubyte root st va = map_option (pbyte st) (virt_to_phys root va st)"
  by (simp add: ubyte_def pbyte_def [abs_def])

lemma phys_write_simps [simp]:
  "vavail (phys_write pa bs st) = vavail st" "kernel_cr3 (phys_write pa bs st) = kernel_cr3 st"
  by (induction bs arbitrary: pa st) (simp_all add: put_page_def vavail_def)

lemma phys_write_frame:
  "(\<And>i. i < length bs \<Longrightarrow> page_base (pa + of_nat i) \<noteq> t) \<Longrightarrow> pmem (phys_write pa bs st) t = pmem st t"
proof (induction bs arbitrary: pa st)
  case (Cons b bs)
  have "page_base pa \<noteq> t" using Cons.prems [of 0] by simp
  moreover have "page_base (pa + 1 + of_nat i) \<noteq> t" if "i < length bs" for i
    using Cons.prems [of "Suc i"] that by (simp add: algebra_simps)
  ultimately show ?case using Cons.IH [of "pa + 1"] by (simp add: put_page_def)
qed simp

text \<open>Writing to frames that are not tables.\<close>

lemma data_write:
  assumes wf: "tree_wf st root" and same: "\<forall>t q. path_ok q \<longrightarrow> table_of st root q = Some t \<longrightarrow> pmem st' t = pmem st t"
    and av: "vavail st' = vavail st"
  shows "tree_wf st' root" and "path_ok q \<Longrightarrow> table_of st' root q = table_of st root q"
    and "path_ok q \<Longrightarrow> entry_at st' root q j = entry_at st root q j"
    and "virt_to_phys root va st' = virt_to_phys root va st"
proof -
  have rd': "rd t j st' = rd t j st" if "path_ok q" "table_of st root q = Some t" for q t j
    using same that by (simp add: rd_def)
  have e: "entry_at st' root q j = entry_at st root q j" if "path_ok q" "table_of st' root q = table_of st root q" for q j
    using that rd' [OF that(1)] by (cases "table_of st root q") (auto simp: entry_at_def Let_def)
  show t: "table_of st' root q = table_of st root q" if "path_ok q" for q
    using that
  proof (induction q rule: rev_induct)
    case (snoc j q)
    then show ?case using e [of q j] by (simp add: table_of_snoc path_ok_snoc)
  qed simp
  then show en: "\<And>q j. path_ok q \<Longrightarrow> entry_at st' root q j = entry_at st root q j" using e by blast
  show wf': "tree_wf st' root"
    using wf t rd' [of "[]" root] av unfolding tree_wf_def by auto
  show "virt_to_phys root va st' = virt_to_phys root va st"
    by (rule virt_to_phys_cong [OF wf wf']) (rule en)
qed


lemma page_step:
  assumes "off12 a + i < 4096"
  shows "unat (a + of_nat i) = unat a + i" "page_base (a + of_nat i) = page_base a" "off12 (a + of_nat i) = off12 a + i"
    "unat (a + of_nat i) div 4096 = unat a div 4096"
proof -
  let ?n = "unat a"
  have o: "?n mod 4096 + i < 4096" using assms by (simp add: off12_nat)
  have "?n < 2 ^ 64" using unsigned_less [of a, where ?'a = nat] by simp
  then have "?n div 4096 < 4503599627370496" by (simp add: less_mult_imp_div_less)
  then have "?n + i < 18446744073709551616" using o div_mult_mod_eq [of ?n 4096] by linarith
  then show u: "unat (a + of_nat i) = ?n + i" using o by (simp add: unat_word_ariths unat_of_nat)
  have "4096 * (?n div 4096) \<le> ?n + i" "?n + i < 4096 * Suc (?n div 4096)"
    using o div_mult_mod_eq [of ?n 4096] unfolding mult_Suc_right by linarith+
  then have d: "(?n + i) div 4096 = ?n div 4096" by (rule div_nat_eqI)
  then have m: "(?n + i) mod 4096 = ?n mod 4096 + i"
    using div_mult_mod_eq [of "?n + i" 4096] div_mult_mod_eq [of ?n 4096] by linarith
  show "off12 (a + of_nat i) = off12 a + i" unfolding off12_nat u m ..
  show "unat (a + of_nat i) div 4096 = ?n div 4096" unfolding u d ..
  have "unat (page_base (a + of_nat i)) = unat (page_base a)" unfolding page_base_nat u m by simp
  then show "page_base (a + of_nat i) = page_base a" by (simp add: word_unat_eq_iff)
qed

lemma same_page_div: "unat va' div 4096 = unat va div 4096 \<Longrightarrow> same_page va va'"
proof -
  assume e: "unat va' div 4096 = unat va div 4096"
  have "pt_idx (12 + k) v = (unat v div 4096) div 2 ^ k mod 512" for k v
    by (simp add: pt_idx_nat power_add div_mult2_eq)
  from this [of 0] this [of 9] this [of 18] this [of 27] show "same_page va va'"
    using e by (simp add: same_page_def va_path_def)
qed

lemma translate_page:
  assumes ok: "space_ok root st" and u: "user_va va" and t: "virt_to_phys root va st = Some pa" and i: "off12 va + i < 4096"
  shows "virt_to_phys root (va + of_nat i) st = Some (pa + of_nat i)" "off12 pa = off12 va" "user_va (va + of_nat i)"
proof -
  note wf = space_okD(1,2) [OF ok]
  have nh: "\<forall>i < 512. present (rd root i st) \<longrightarrow> \<not> huge (rd root i st)" using wf(1) by (simp add: tree_wf_def)
  note ve = virt_to_phys_entries [OF wf(2) nh]
  let ?v = "va + of_nat i"
  have sp: "same_page va ?v" by (rule same_page_div [OF page_step(4) [OF i]])
  then have ix: "pt_idx 39 ?v = pt_idx 39 va" "pt_idx 30 ?v = pt_idx 30 va" "pt_idx 21 ?v = pt_idx 21 va"
    "pt_idx 12 ?v = pt_idx 12 va" "va_path ?v = va_path va"
    by (auto simp: same_page_def va_path_def)
  show u': "user_va ?v" using u ix(1) by (simp add: user_va_def)
  obtain e1 where e: "pa = page_base e1 OR (va AND 0xFFF)" "virt_to_phys root ?v st = Some (page_base e1 OR (?v AND 0xFFF))"
    using t space_okD(3) [OF ok u] unfolding ve ix small_path_def by (auto split: option.splits if_splits)
  have pb: "page_base (page_base e1) = page_base e1" by simp
  show o: "off12 pa = off12 va" unfolding e(1) by (rule off12_join [OF pb])
  have "page_base e1 OR (?v AND 0xFFF) = pa + of_nat i"
  proof (rule page_parts)
    have "off12 pa + i < 4096" using i o by simp
    note ps = page_step [OF this]
    have "page_base pa = page_base e1" unfolding e(1) by (rule page_base_join [OF pb])
    then show "page_base (page_base e1 OR (?v AND 0xFFF)) = page_base (pa + of_nat i)"
      by (simp only: ps(2) page_base_join [OF pb])
    show "off12 (page_base e1 OR (?v AND 0xFFF)) = off12 (pa + of_nat i)"
      unfolding ps(3) off12_join [OF pb] o page_step(3) [OF i] ..
  qed
  with e(2) show "virt_to_phys root ?v st = Some (pa + of_nat i)" by simp
qed

text \<open>A store of the kernel into one mapped page.\<close>

lemma user_store:
  assumes ok: "space_ok root st" and u: "user_va va" and t: "virt_to_phys root va st = Some pa"
    and fit: "off12 va + length bs \<le> 4096"
  shows "space_ok root (phys_write pa bs st)"
    and "virt_to_phys root va' (phys_write pa bs st) = virt_to_phys root va' st"
    and "i < length bs \<Longrightarrow> ubyte root (phys_write pa bs st) (va + of_nat i) = Some (bs ! i)"
proof -
  let ?s = "phys_write pa bs st"
  have o: "off12 pa = off12 va" using translate_page(2) [OF ok u t, of 0] by (simp add: off12_nat)
  have pg: "page_base (pa + of_nat i) = page_base pa" if "i < length bs" for i
    using page_step(2) [of pa i] that fit o by simp
  have same: "pmem ?s x = pmem st x" if "path_ok q" "table_of st root q = Some x" for x q
    by (rule phys_write_frame) (use space_okD(5) [OF ok u t that(1)] that(2) pg in auto)
  then have "\<forall>x q. path_ok q \<longrightarrow> table_of st root q = Some x \<longrightarrow> pmem ?s x = pmem st x" by blast
  note dw = data_write [OF space_okD(1) [OF ok] this phys_write_simps(1)]
  show v: "virt_to_phys root va' ?s = virt_to_phys root va' st" for va' by (rule dw(4))
  show "space_ok root ?s"
    using ok dw(1-3) v unfolding space_ok_def small_path_def by simp
  assume i: "i < length bs"
  then have "virt_to_phys root (va + of_nat i) st = Some (pa + of_nat i)" using translate_page(1) [OF ok u t, of i] fit by simp
  moreover have "length bs \<le> 2 ^ 64" using fit by simp
  ultimately show "ubyte root ?s (va + of_nat i) = Some (bs ! i)"
    using i by (simp add: ubyte_pbyte v pbyte_phys_write poke_apply within_def unat_of_nat)
qed


section \<open>Relocations\<close>

definition reloc_value :: "bytes \<Rightarrow> shared_lib \<Rightarrow> (bytes \<Rightarrow> u64 option) \<Rightarrow> elf_rela \<Rightarrow> u64 option" where
  "reloc_value d lib resolver rela =
     (if r_type rela = 8 then Some (load_base lib + r_addend rela)
      else map_option (\<lambda>s. if r_type rela = 1 then s + r_addend rela else s) (resolve_sym_inner d lib (r_sym rela) resolver))"




section \<open>The static loader\<close>

lemma phys_write_page:
  assumes "page_base phys = phys" "k + length bs \<le> 4096"
  shows "phys_write (phys + of_nat k) bs st = put_page phys (put_bytes k bs (pmem st phys)) st"
  using assms(2)
proof (induction bs arbitrary: k st)
  case Nil
  then show ?case by (simp add: put_page_def)
next
  case (Cons b bs)
  have o: "off12 phys = 0"
    using page_base_nat [of phys] assms(1) mod_less_eq_dividend [of "unat phys" 4096] unfolding off12_nat by simp
  have "off12 phys + k < 4096" using Cons.prems o by simp
  note ps = page_step(2,3) [OF this]
  let ?s = "put_page phys (put_byte k b (pmem st phys)) st"
  have "phys_write (phys + of_nat (Suc k)) bs ?s = put_page phys (put_bytes (Suc k) bs (pmem ?s phys)) ?s"
    by (rule Cons.IH) (use Cons.prems in simp)
  moreover have "phys + of_nat k + 1 = phys + of_nat (Suc k)" by (simp add: algebra_simps)
  ultimately show ?case using ps o assms(1) by (simp add: put_page_def algebra_simps)
qed

text \<open>A page of an aligned segment.\<close>

lemma static_page_aligned:
  assumes fit: "pl_offset seg + pl_filesz seg \<le> length d" "length d < 2 ^ 63" and fs: "unat m + pl_filesz seg < 2 ^ 63"
    and va: "unat va = unat m + i * 4096" "unat va + 4096 < 2 ^ 63" and phys: "page_base phys = phys"
  shows "static_page d seg m m va phys st = map_option (\<lambda>p. put_page phys p st) (seg_page d seg m va)"
proof -
  let ?o = "pl_offset seg" and ?f = "pl_filesz seg" and ?z = "put_page phys zero_page st"
  have le: "m \<le> va" using va(1) by (simp add: word_le_nat_alt)
  have df: "unat (va - m) = i * 4096" using unat_sub [OF le] va(1) by simp
  have fsw: "unat (of_nat ?f :: u64) = ?f" using fs by (simp add: unat_of_nat)
  obtain ve se where a: "add_chk va 4096 = Some ve" "add_chk m (of_nat ?f) = Some se"
    using fs va(2) fsw by (simp add: add_chk_def)
  have e: "unat ve = unat va + 4096" "unat se = unat m + ?f"
    using add_chk_SomeD [OF a(1), THEN conjunct2] add_chk_SomeD [OF a(2), THEN conjunct2] fsw by simp_all
  have mx: "max m va = va" using le by (simp add: max_def)
  let ?src = "?o + i * 4096"
  define n where "n = min (?src + 4096) (?o + ?f) - ?src"
  have c: "va < min se ve \<longleftrightarrow> ?src < min (?src + 4096) (?o + ?f)"
    using e va(1) by (auto simp: word_less_nat_alt unat_min_word)
  have hn: "unat (min se ve - va) = n" if "va < min se ve"
    using unat_sub [OF less_imp_le [OF that]] e va(1) unfolding n_def by (simp add: unat_min_word)
  have n: "n \<le> 4096" "?src < min (?src + 4096) (?o + ?f) \<Longrightarrow> ?src + n \<le> length d"
    using fit(1) unfolding n_def by auto
  have u: "usz ?src = Some ?src" "usz (?src + 4096) = Some (?src + 4096)" "usz (?o + ?f) = Some (?o + ?f)"
    using fit va fs by (simp_all add: usz_def)
  have mn: "min (min (?src + 4096) (?o + ?f)) (length d) = min (?src + 4096) (?o + ?f)" using fit(1) by simp
  have st: "static_page d seg m m va phys st =
      Some (if ?src < min (?src + 4096) (?o + ?f) then phys_write phys (take n (drop ?src d)) ?z else ?z)"
    unfolding static_page_def df Let_def u bind.bind_lunit mn n_def using le by simp
  have "phys_write phys (take n (drop ?src d)) ?z = put_page phys (put_bytes 0 (take n (drop ?src d)) zero_page) st"
    using phys_write_page [OF phys, of 0 "take n (drop ?src d)" ?z] n(1) by (simp add: put_page_def)
  then show ?thesis
    unfolding st seg_page_def a bind.bind_lunit Let_def mx c using hn c df n(2) u(1) fit
    by (auto simp: usz_def)
qed


lemma for_each_cong: "(\<And>i s. i \<in> set xs \<Longrightarrow> f i s = g i s) \<Longrightarrow> for_each f xs s = for_each g xs s"
proof (induction xs arbitrary: s)
  case (Cons x xs)
  then show ?case by (cases "g x s") simp_all
qed simp

lemma static_segment_same:
  assumes fit: "seg_fits d base seg" "length d < 2 ^ 63" and w: "pl_flags seg AND 2 \<noteq> 0"
    and al: "(unat base + unat (pl_vaddr seg)) mod 4096 = 0" and cr3: "page_base cr3 = cr3"
  shows "load_static_segment d cr3 base seg st = map_option fst (load_segment d cr3 base seg (st, vend))"
proof -
  have b: "unat base + unat (pl_vaddr seg) + pl_memsz seg + 8192 \<le> 140737488355328"
    using fit(1) by (simp add: seg_fits_def)
  define m where "m = base + pl_vaddr seg"
  have m: "add_chk base (pl_vaddr seg) = Some m" "unat m = unat base + unat (pl_vaddr seg)"
    using b by (simp_all add: add_chk_def m_def unat_word_ariths)
  have pm: "page_base m = m" using page_base_nat [of m] al m(2) by (simp add: word_unat_eq_iff)
  have ms: "unat (of_nat (pl_memsz seg) :: u64) = pl_memsz seg" using b by (simp add: unat_of_nat)
  define e1 where "e1 = m + of_nat (pl_memsz seg)"
  have e1: "add_chk m (of_nat (pl_memsz seg)) = Some e1" "unat e1 = unat m + pl_memsz seg"
    using b m(2) ms by (simp_all add: add_chk_def e1_def unat_word_ariths)
  define e2 where "e2 = e1 + 0xFFF"
  have e2: "add_chk e1 0xFFF = Some e2" "unat e2 = unat m + pl_memsz seg + 4095"
    using b m(2) e1(2) by (simp_all add: add_chk_def e2_def unat_word_ariths)
  have "unat m \<le> unat (page_base e2)"
    using page_base_nat [of e2] e2(2) al m(2) by (simp add: minus_mod_eq_div_mult)
  then have sb: "sub_chk (page_base e2) m = Some (page_base e2 - m)" by (simp add: sub_chk_def word_le_nat_alt)
  have body: "(do { vpage \<leftarrow> page_addr m i; (st, phys) \<leftarrow> take_frame s; st \<leftarrow> static_page d seg m m vpage phys st;
        map_4k cr3 vpage phys (PTE_USER OR PTE_WRITABLE) st }) =
      (do { va \<leftarrow> page_addr m i; (st, phys) \<leftarrow> take_frame s; p \<leftarrow> seg_page d seg m va;
        pub_map_4k cr3 va phys (pl_flags seg AND 2 \<noteq> 0) (put_page phys p st) })" (is "?F i s = ?G i s")
    if i: "i \<in> set [0..<unat (page_base e2 - m) div 4096]" for i s
  proof (cases "page_addr m i"; cases "take_frame s")
    fix va r assume va: "page_addr m i = Some va" and r: "take_frame s = Some r"
    obtain s1 phys where r': "r = (s1, phys)" by fastforce
    have "unat (page_base e2 - m) = unat (page_base e2) - unat m"
      by (rule unat_sub) (use \<open>unat m \<le> unat (page_base e2)\<close> in \<open>simp add: word_le_nat_alt\<close>)
    moreover have "unat (page_base e2) \<le> unat e2" using page_base_nat [of e2] by simp
    ultimately have ib: "i * 4096 + 4096 \<le> pl_memsz seg + 4095" using i e2(2) by auto
    then have v: "unat va = unat m + i * 4096" using page_addr_SomeD [OF va] b by simp
    have "page_base phys = phys" using take_frame_SomeD(5) [OF r [unfolded r']] by (rule page_base_aligned)
    from static_page_aligned [OF _ fit(2) _ v _ this, of seg s1] fit(1) b m(2) ib v
    have "static_page d seg m m va phys s1 = map_option (\<lambda>p. put_page phys p s1) (seg_page d seg m va)"
      by (simp add: seg_fits_def)
    then show ?thesis using va r r' w cr3 by (cases "seg_page d seg m va") (simp_all add: pub_map_4k_def)
  qed simp_all
  let ?is = "[0..<unat (page_base e2 - m) div 4096]"
  have "for_each ?F ?is st = for_each ?G ?is st" by (rule for_each_cong) (rule body)
  then show ?thesis
    unfolding load_static_segment_def load_segment_def m e1 e2 bind.bind_lunit Let_def pm sb prod.case
    by (cases "for_each ?G ?is st") simp_all
qed




section \<open>The static loader on an unaligned segment\<close>

lemma pmem_put_page_same: "pmem (put_page a p st) a = p"
  by (simp add: put_page_def)

text \<open>when a segment does not start at a page boundary, every page of it after the first that the file covers is
  filled by the static loader from \<open>i * 4096\<close> bytes into the segment, although it starts only
  \<open>i * 4096 - off12 mapped\<close> bytes into it; the linker's loader reads the latter.\<close>

theorem static_loader_shifts:
  assumes m: "unat m + pl_filesz seg < 2 ^ 62" and fit: "pl_offset seg + pl_filesz seg \<le> length d" "length d < 2 ^ 62"
    and i: "0 < i" "i * 4096 + 4096 \<le> pl_filesz seg" and va: "va = page_base m + of_nat (i * 4096)"
    and phys: "page_base phys = phys" and j: "j < 4096"
  shows "\<exists>st' p. static_page d seg m (page_base m) va phys st = Some st' \<and> seg_page d seg m va = Some p \<and>
    page_byte (pmem st' phys) j = d ! (pl_offset seg + i * 4096 + j) \<and>
    page_byte p j = d ! (pl_offset seg + i * 4096 + j - off12 m)"
proof -
  let ?o = "pl_offset seg" and ?f = "pl_filesz seg" and ?z = "put_page phys zero_page st"
  have nb: "unat (page_base m) = unat m - off12 m" "off12 m < 4096" "off12 m \<le> unat m"
    using page_base_nat [of m] by (simp_all add: off12_nat)
  have ib: "i * 4096 < 2 ^ 62" using i m by linarith
  have "unat (of_nat (i * 4096) :: u64) = i * 4096" using ib by (simp add: unat_of_nat del: of_nat_mult)
  then have uv: "unat va = unat m - off12 m + i * 4096"
    unfolding va unat_word_ariths nb using ib m by (simp del: of_nat_mult)
  have le: "page_base m \<le> va" using uv nb by (simp add: word_le_nat_alt)
  have df: "unat (va - page_base m) = i * 4096" using unat_sub [OF le] uv nb by simp
  have nl: "\<not> va < m" using uv nb i(1) by (cases i) (simp_all add: word_less_nat_alt)
  let ?src = "?o + i * 4096"
  have u: "usz ?src = Some ?src" "usz (?src + 4096) = Some (?src + 4096)" "usz (?o + ?f) = Some (?o + ?f)"
    using fit i by (simp_all add: usz_def)
  have mn: "min (min (?src + 4096) (?o + ?f)) (length d) = ?src + 4096" using fit(1) i by simp
  have st: "static_page d seg m (page_base m) va phys st = Some (phys_write phys (take 4096 (drop ?src d)) ?z)"
    unfolding static_page_def df Let_def u bind.bind_lunit mn using nl by simp
  have w: "phys_write phys (take 4096 (drop ?src d)) ?z = put_page phys (put_bytes 0 (take 4096 (drop ?src d)) zero_page) ?z"
    using phys_write_page [OF phys, of 0 "take 4096 (drop ?src d)" ?z] by (simp add: pmem_put_page_same)
  have "unat va + 4096 < 2 ^ 62 + 2 ^ 62" using uv m i by linarith
  then have "unat va + 4096 < 2 ^ 63" by simp
  then obtain p where p: "seg_page d seg m va = Some p"
    using seg_page_total [of m seg va d] m fit by fastforce
  have "page_byte p j = seg_byte d seg (unat m) (unat va + j)"
    by (rule seg_page_bytes [OF p fit(1)]) (use m j in simp_all)
  moreover have "unat m \<le> unat va + j" "unat va + j < unat m + ?f" "unat va + j - unat m = i * 4096 + j - off12 m"
    using uv nb i j by (cases i; simp)+
  ultimately have "page_byte p j = d ! (?o + i * 4096 + j - off12 m)"
    using nb i(1) by (cases i) (simp_all add: seg_byte_def add.assoc)
  then show ?thesis
    using st p w j fit i by (simp add: pmem_put_page_same page_byte_put_bytes)
qed

definition skew_seg :: pt_load where
  "skew_seg = \<lparr>pl_flags = 6, pl_offset = 0, pl_vaddr = 0x400010, pl_filesz = 8192, pl_memsz = 8192, pl_align = 4096\<rparr>"

definition skew_data :: bytes where "skew_data = replicate 4096 1 @ replicate 4096 2"

theorem static_loader_shifts_witness:
  "\<exists>st' p. static_page skew_data skew_seg 0x400010 0x400000 0x401000 0x5000 demo_vm = Some st' \<and>
    seg_page skew_data skew_seg 0x400010 0x401000 = Some p \<and> page_byte (pmem st' 0x5000) 0 = 2 \<and> page_byte p 0 = 1"
proof -
  have "length skew_data = 8192" "skew_data ! 4096 = 2" "skew_data ! 4080 = 1"
    by (simp_all add: skew_data_def nth_append)
  moreover have "off12 0x400010 = 16" "page_base 0x400010 = (0x400000 :: u64)" "page_base 0x5000 = (0x5000 :: u64)"
    by (simp_all add: off12_def page_base_def)
  ultimately show ?thesis
    using static_loader_shifts [of "0x400010" skew_seg skew_data 1 "0x401000" "0x5000" 0 demo_vm] by (simp add: skew_seg_def)
qed

end
