(* ===== verification/Tracer.thy ===== *)
theory Tracer
  imports Elf Paging
begin

text \<open>
  The event tracer (\<open>tracer.rs\<close>): the ring of the last 256 decisions of the policy engine, the functions that record
  one kind of event each, and the snapshot that \<open>dump\<close> prints. The time stamp counter is an argument of the recording
  functions. The text of a line is left out; \<open>event_args\<close> are the numbers it shows.
\<close>

section \<open>Events\<close>

definition RING_SIZE :: nat where "RING_SIZE = 256"

datatype event_kind = ChannelCreated | ChannelDropped | HotPairDetected | PinPair | PriorityBoost | DecayWarning
  | PolicyTick | Anomaly | SafetyBound | ParamTuned

record trace_event =
  te_ts :: u64
  te_kind :: event_kind
  te_pid_a :: u32
  te_pid_b :: u32
  te_cap :: u32
  te_extra :: u64

definition event_zero :: trace_event where
  "event_zero = \<lparr>te_ts = 0, te_kind = PolicyTick, te_pid_a = 0, te_pid_b = 0, te_cap = 0, te_extra = 0\<rparr>"

record tracer_state =
  tr_buf :: "trace_event list"
  tr_head :: nat
  tr_total :: nat

definition tracer_new :: tracer_state where
  "tracer_new = \<lparr>tr_buf = replicate RING_SIZE event_zero, tr_head = 0, tr_total = 0\<rparr>"

definition tracer_push :: "trace_event \<Rightarrow> tracer_state \<Rightarrow> tracer_state option" where
  "tracer_push ev t =
     (if tr_head t < RING_SIZE then do {
        n \<leftarrow> usz (tr_total t + 1);
        Some \<lparr>tr_buf = (tr_buf t)[tr_head t := ev], tr_head = (tr_head t + 1) mod RING_SIZE, tr_total = n\<rparr>
      } else None)"

section \<open>Recording\<close>

definition channel_created :: "u64 \<Rightarrow> u32 \<Rightarrow> u32 \<Rightarrow> u32 \<Rightarrow> u64 \<Rightarrow> trace_event" where
  "channel_created ts a b cap capacity =
     \<lparr>te_ts = ts, te_kind = ChannelCreated, te_pid_a = a, te_pid_b = b, te_cap = cap, te_extra = capacity\<rparr>"

definition channel_dropped :: "u64 \<Rightarrow> u32 \<Rightarrow> u32 \<Rightarrow> u32 \<Rightarrow> u32 \<Rightarrow> trace_event" where
  "channel_dropped ts a b cap cold_count =
     \<lparr>te_ts = ts, te_kind = ChannelDropped, te_pid_a = a, te_pid_b = b, te_cap = cap, te_extra = ucast cold_count\<rparr>"

definition hot_pair_detected :: "u64 \<Rightarrow> u32 \<Rightarrow> u32 \<Rightarrow> u64 \<Rightarrow> trace_event" where
  "hot_pair_detected ts a b ipc_count =
     \<lparr>te_ts = ts, te_kind = HotPairDetected, te_pid_a = a, te_pid_b = b, te_cap = 0, te_extra = ipc_count\<rparr>"

definition pin_pair_event :: "u64 \<Rightarrow> u32 \<Rightarrow> u32 \<Rightarrow> u8 \<Rightarrow> trace_event" where
  "pin_pair_event ts a b cpu =
     \<lparr>te_ts = ts, te_kind = PinPair, te_pid_a = a, te_pid_b = b, te_cap = 0, te_extra = ucast cpu\<rparr>"

definition priority_boost :: "u64 \<Rightarrow> u32 \<Rightarrow> u8 \<Rightarrow> u8 \<Rightarrow> trace_event" where
  "priority_boost ts pid old_pri new_pri =
     \<lparr>te_ts = ts, te_kind = PriorityBoost, te_pid_a = pid, te_pid_b = 0, te_cap = 0,
      te_extra = push_bit 32 (ucast old_pri) OR ucast new_pri\<rparr>"

definition decay_warning :: "u64 \<Rightarrow> u32 \<Rightarrow> u32 \<Rightarrow> u32 \<Rightarrow> u32 \<Rightarrow> trace_event" where
  "decay_warning ts a b cold max_cold =
     \<lparr>te_ts = ts, te_kind = DecayWarning, te_pid_a = a, te_pid_b = b, te_cap = 0,
      te_extra = push_bit 16 (ucast cold) OR ucast max_cold\<rparr>"

definition policy_tick :: "u64 \<Rightarrow> u64 \<Rightarrow> trace_event" where
  "policy_tick ts tick =
     \<lparr>te_ts = ts, te_kind = PolicyTick, te_pid_a = 0, te_pid_b = 0, te_cap = 0, te_extra = tick\<rparr>"

definition safety_bound :: "u64 \<Rightarrow> u32 \<Rightarrow> u32 \<Rightarrow> u64 \<Rightarrow> trace_event" where
  "safety_bound ts a b reason =
     \<lparr>te_ts = ts, te_kind = SafetyBound, te_pid_a = a, te_pid_b = b, te_cap = 0, te_extra = reason\<rparr>"

definition anomaly_event :: "u64 \<Rightarrow> u32 \<Rightarrow> u32 \<Rightarrow> u32 \<Rightarrow> u64 \<Rightarrow> trace_event" where
  "anomaly_event ts a b cap reason =
     \<lparr>te_ts = ts, te_kind = Anomaly, te_pid_a = a, te_pid_b = b, te_cap = cap, te_extra = reason\<rparr>"

definition param_tuned :: "u64 \<Rightarrow> u32 \<Rightarrow> u32 \<Rightarrow> u64 \<Rightarrow> u64 \<Rightarrow> trace_event" where
  "param_tuned ts param_id subject_id old new =
     \<lparr>te_ts = ts, te_kind = ParamTuned, te_pid_a = param_id, te_pid_b = subject_id, te_cap = 0,
      te_extra = push_bit 32 old OR (new AND 0xFFFFFFFF)\<rparr>"

section \<open>The dump\<close>

definition tracer_dump :: "tracer_state \<Rightarrow> nat \<times> trace_event list" where
  "tracer_dump t =
     (let n = min (tr_total t) RING_SIZE; start = (if tr_total t \<ge> RING_SIZE then tr_head t else 0)
      in (tr_total t, map (\<lambda>i. tr_buf t ! ((start + i) mod RING_SIZE)) [0..<n]))"

definition event_args :: "trace_event \<Rightarrow> u64 list" where
  "event_args ev = (case te_kind ev of
      ChannelCreated \<Rightarrow> [ucast (te_pid_a ev), ucast (te_pid_b ev), ucast (te_cap ev), te_extra ev]
    | ChannelDropped \<Rightarrow> [ucast (te_pid_a ev), ucast (te_pid_b ev), ucast (te_cap ev), te_extra ev]
    | HotPairDetected \<Rightarrow> [ucast (te_pid_a ev), ucast (te_pid_b ev), te_extra ev]
    | PinPair \<Rightarrow> [ucast (te_pid_a ev), ucast (te_pid_b ev), te_extra ev]
    | PriorityBoost \<Rightarrow> [ucast (te_pid_a ev), ucast (ucast (drop_bit 32 (te_extra ev)) :: u8), ucast (ucast (te_extra ev) :: u8)]
    | DecayWarning \<Rightarrow> [ucast (te_pid_a ev), ucast (te_pid_b ev), ucast (ucast (drop_bit 16 (te_extra ev)) :: u32),
        ucast (ucast (te_extra ev AND 0xFFFF) :: u32)]
    | PolicyTick \<Rightarrow> [te_extra ev]
    | Anomaly \<Rightarrow> [ucast (te_pid_a ev), ucast (te_pid_b ev), ucast (te_cap ev), te_extra ev]
    | SafetyBound \<Rightarrow> [ucast (te_pid_a ev), ucast (te_pid_b ev), te_extra ev]
    | ParamTuned \<Rightarrow> [ucast (te_pid_a ev), ucast (te_pid_b ev), ucast (ucast (drop_bit 32 (te_extra ev)) :: u32),
        ucast (ucast (te_extra ev) :: u32)])"

section \<open>The ring keeps the most recent events\<close>

text \<open>The ring after a history of events: every event of the last 256 is in the slot of its number.\<close>

definition keeps :: "trace_event list \<Rightarrow> tracer_state \<Rightarrow> bool" where
  "keeps evs t \<longleftrightarrow> length (tr_buf t) = RING_SIZE \<and> tr_head t = length evs mod RING_SIZE \<and> tr_total t = length evs \<and>
     (\<forall>i < length evs. length evs \<le> i + RING_SIZE \<longrightarrow> tr_buf t ! (i mod RING_SIZE) = evs ! i)"

lemma for_each_append: "for_each f (xs @ ys) s = for_each f xs s \<bind> for_each f ys"
proof (induction xs arbitrary: s)
  case (Cons x xs)
  then show ?case by (cases "f x s") simp_all
qed simp

lemma keeps_new: "keeps [] tracer_new"
  by (simp add: keeps_def tracer_new_def)

lemma keeps_push:
  assumes "keeps evs t" "Suc (length evs) < 2 ^ 64"
  shows "\<exists>t'. tracer_push ev t = Some t' \<and> keeps (evs @ [ev]) t'"
proof -
  have R: "RING_SIZE > 0" by (simp add: RING_SIZE_def)
  have "(tr_buf t)[length evs mod RING_SIZE := ev] ! (i mod RING_SIZE) = (evs @ [ev]) ! i"
    if "i < Suc (length evs)" "Suc (length evs) \<le> i + RING_SIZE" for i
    using that assms(1) R mod_window [of i "length evs" RING_SIZE] by (cases "i = length evs") (auto simp: keeps_def nth_append)
  then show ?thesis using assms R by (simp add: tracer_push_def keeps_def usz_def mod_Suc_eq)
qed

lemma keeps_all: "length evs < 2 ^ 64 \<Longrightarrow> \<exists>t. for_each tracer_push evs tracer_new = Some t \<and> keeps evs t"
proof (induction evs rule: rev_induct)
  case (snoc ev evs)
  then obtain t where t: "for_each tracer_push evs tracer_new = Some t" "keeps evs t" by auto
  then obtain t' where "tracer_push ev t = Some t'" "keeps (evs @ [ev]) t'" using keeps_push snoc.prems by fastforce
  then show ?case using t(1) by (simp add: for_each_append)
qed (simp add: keeps_new)

lemma dump_keeps:
  assumes "keeps evs t"
  shows "tracer_dump t = (length evs, drop (length evs - RING_SIZE) evs)"
proof -
  let ?n = "length evs"
  have "tr_buf t ! (((if ?n \<ge> RING_SIZE then ?n mod RING_SIZE else 0) + i) mod RING_SIZE) = evs ! (?n - RING_SIZE + i)"
    if "i < min ?n RING_SIZE" for i
  proof -
    have "((if ?n \<ge> RING_SIZE then ?n mod RING_SIZE else 0) + i) mod RING_SIZE = (?n - RING_SIZE + i) mod RING_SIZE"
      using le_mod_geq [of RING_SIZE ?n] by (auto simp: mod_simps)
    then show ?thesis using assms that by (auto simp: keeps_def)
  qed
  then show ?thesis using assms by (auto simp: tracer_dump_def Let_def keeps_def intro!: nth_equalityI)
qed

text \<open>whatever events are recorded after boot, the dump reports their number and shows the last 256 of them, oldest
  first.\<close>

theorem dump_shows_recent:
  assumes "length evs < 2 ^ 64"
  shows "\<exists>t. for_each tracer_push evs tracer_new = Some t \<and> tracer_dump t = (length evs, drop (length evs - RING_SIZE) evs)"
  using keeps_all [OF assms] dump_keeps by blast

theorem dump_shows_recent_witness:
  "\<exists>t. for_each tracer_push (map (policy_tick 0) [7, 8, 9]) tracer_new = Some t \<and>
    tracer_dump t = (3, map (policy_tick 0) [7, 8, 9])"
proof -
  have "length (map (policy_tick 0) [7, 8, 9]) < 2 ^ 64" by simp
  from dump_shows_recent [OF this] show ?thesis by (simp add: RING_SIZE_def eval_nat_numeral)
qed

section \<open>What a line of the dump shows\<close>

lemma mask16: "(0xFFFF :: u64) = mask 16" and mask32: "(0xFFFFFFFF :: u64) = mask 32"
  by (simp_all add: mask_eq_exp_minus_1)

lemma bit_bound:
  fixes a :: "'a::len word"
  assumes "unat a < 2 ^ k" "bit a n"
  shows "n < k"
proof (rule ccontr)
  assume "\<not> n < k"
  then have "(2 :: nat) ^ k \<le> 2 ^ n" by simp
  moreover have "bit (unat a) n" using assms(2) by (simp add: bit_unsigned_iff)
  then have "2 ^ n \<le> unat a" using bit_imp_possible_bit by (metis bit_nat_iff div_less linorder_not_le odd_iff_mod_2_eq_one bit_iff_odd even_zero)
  ultimately show False using assms(1) by linarith
qed

text \<open>the numbers packed into one event come back as they were recorded: priorities always, the cold counters while
  the limit has 16 bits, the values of a tuned parameter while they have 32 bits.\<close>

theorem packed_arguments_shown:
  assumes "unat max_cold < 2 ^ 16" "unat old < 2 ^ 32" "unat new < 2 ^ 32"
  shows "event_args (priority_boost ts pid old_pri new_pri) = [ucast pid, ucast old_pri, ucast new_pri] \<and>
    event_args (decay_warning ts a b cold max_cold) = [ucast a, ucast b, ucast cold, ucast max_cold] \<and>
    event_args (param_tuned ts p q old new) = [ucast p, ucast q, old, new]"
proof (intro conjI)
  have "bit old_pri n \<Longrightarrow> n < 8" "bit new_pri n \<Longrightarrow> n < 8" for n
    using bit_imp_le_length [of old_pri n] bit_imp_le_length [of new_pri n] by simp_all
  then show "event_args (priority_boost ts pid old_pri new_pri) = [ucast pid, ucast old_pri, ucast new_pri]"
    by (fastforce simp: event_args_def priority_boost_def bit_simps intro!: bit_word_eqI)
  have "bit max_cold n \<Longrightarrow> n < 16" "bit cold n \<Longrightarrow> n < 32" for n
    using bit_bound [OF assms(1)] bit_imp_le_length [of cold n] by simp_all
  then show "event_args (decay_warning ts a b cold max_cold) = [ucast a, ucast b, ucast cold, ucast max_cold]"
    by (fastforce simp: event_args_def decay_warning_def bit_simps mask16 intro!: bit_word_eqI)
  have "bit old n \<Longrightarrow> n < 32" "bit new n \<Longrightarrow> n < 32" for n
    using bit_bound [OF assms(2)] bit_bound [OF assms(3)] by blast+
  then show "event_args (param_tuned ts p q old new) = [ucast p, ucast q, old, new]"
    by (fastforce simp: event_args_def param_tuned_def bit_simps mask32 intro!: bit_word_eqI)
qed

theorem packed_arguments_shown_witness:
  "event_args (decay_warning 0 1 2 3 40) = [1, 2, 3, 40]"
  using packed_arguments_shown [where max_cold = 40 and old = 5 and new = 6 and ts = 0 and a = 1 and b = 2 and cold = 3] by simp

end
