(* ===== verification/Terminal.thy ===== *)
theory Terminal
  imports Kernel_Prelude
begin

text \<open>
  The text terminal of the shell window (\<open>term.rs\<close>): a grid of 17 rows of 34 cells, a cursor and the state of an escape
  sequence. \<open>repaint\<close> draws the grid and changes none of it. The abstract terminal is a page that only grows downwards;
  the grid is the window on its last 17 rows.
\<close>

section \<open>The grid\<close>

definition COLS :: nat where "COLS = 34"
definition ROWS :: nat where "ROWS = 17"

record terminal =
  term_buf :: bytes
  term_col :: nat
  term_row :: nat
  esc_state :: u8

definition term_boot :: terminal where
  "term_boot = \<lparr>term_buf = replicate (COLS * ROWS) 0x20, term_col = 0, term_row = 0, esc_state = 0\<rparr>"

definition cell :: "nat \<Rightarrow> nat \<Rightarrow> nat" where "cell r c = r * COLS + c"

definition scroll_up :: "terminal \<Rightarrow> terminal" where
  "scroll_up t =
     (let up = fold (\<lambda>r b. fold (\<lambda>c b. b[cell r c := b ! cell (r + 1) c]) [0..<COLS] b) [0..<ROWS - 1] (term_buf t);
          out = fold (\<lambda>c b. b[cell (ROWS - 1) c := 0x20]) [0..<COLS] up
      in t\<lparr>term_buf := out, term_row := ROWS - 1\<rparr>)"

definition ascii_alphabetic :: "u8 \<Rightarrow> bool" where
  "ascii_alphabetic b \<longleftrightarrow> 0x41 \<le> b \<and> b \<le> 0x5A \<or> 0x61 \<le> b \<and> b \<le> 0x7A"

definition put_char :: "u8 \<Rightarrow> terminal \<Rightarrow> terminal" where
  "put_char b t =
     (let r = term_row t; c = term_col t in
      if r < ROWS \<and> c < COLS then
        let t = t\<lparr>term_buf := (term_buf t)[cell r c := b]\<rparr> in
        if c + 1 \<ge> COLS then
          let t = t\<lparr>term_col := 0\<rparr> in
          if r + 1 < ROWS then t\<lparr>term_row := r + 1\<rparr> else scroll_up t
        else t\<lparr>term_col := c + 1\<rparr>
      else t)"

definition write_byte :: "u8 \<Rightarrow> terminal \<Rightarrow> terminal" where
  "write_byte b t =
     (if esc_state t = 1 then t\<lparr>esc_state := if b = 0x5B then 2 else 0\<rparr>
      else if esc_state t = 2 then (if ascii_alphabetic b then t\<lparr>esc_state := 0\<rparr> else t)
      else if b = 0x1B then t\<lparr>esc_state := 1\<rparr>
      else if b = 0x0D then t\<lparr>term_col := 0\<rparr>
      else if b = 0x0A then
        let t = t\<lparr>term_col := 0\<rparr> in
        if term_row t + 1 < ROWS then t\<lparr>term_row := term_row t + 1\<rparr> else scroll_up t
      else if b = 0x08 then (if term_col t > 0 then t\<lparr>term_col := term_col t - 1\<rparr> else t)
      else if b = 0x07 then t
      else if 0x20 \<le> b \<and> b \<le> 0x7E then put_char b t
      else t)"

definition write_bytes :: "bytes \<Rightarrow> terminal \<Rightarrow> terminal" where
  "write_bytes bs t = fold write_byte bs t"

section \<open>Scrolling\<close>

lemma fold_copy_down:
  "k + n \<le> length b \<Longrightarrow>
    fold (\<lambda>i b. b[i := b ! (i + n)]) [0..<k] b = take k (drop n b) @ drop k b"
proof (induction k)
  case (Suc k)
  then have "fold (\<lambda>i b. b[i := b ! (i + n)]) [0..<k] b = take k (drop n b) @ drop k b" by simp
  moreover have "(take k (drop n b) @ drop k b) ! (k + n) = b ! (k + n)" using Suc.prems by (simp add: nth_append)
  ultimately show ?case using Suc.prems
    by (intro nth_equalityI) (auto simp: nth_append nth_list_update take_Suc_conv_app_nth add.commute)
qed simp

lemma fold_rows: "fold (\<lambda>r b. fold (\<lambda>c b. f (r * n + c) b) [0..<n] b) [0..<m] b = fold f [0..<m * n] b"
proof (induction m arbitrary: b)
  case (Suc m)
  have "[0..<Suc m * n] = [0..<m * n] @ map (\<lambda>c. m * n + c) [0..<n]"
    using upt_add_eq_append [of 0 "m * n" n] map_add_upt [of "m * n" n] by (simp add: add.commute)
  then show ?case using Suc.IH by (simp add: fold_map comp_def)
qed simp

lemma fold_fill:
  "s + k \<le> length b \<Longrightarrow> fold (\<lambda>c b. b[s + c := v]) [0..<k] b = take s b @ replicate k v @ drop (s + k) b"
proof (induction k)
  case (Suc k)
  then have "drop (s + k) b = b ! (s + k) # drop (s + Suc k) b" by (simp add: Cons_nth_drop_Suc)
  then show ?case using Suc by (simp add: list_update_append min_def flip: replicate_append_same)
qed simp

lemma scroll_up_rows:
  assumes "length (term_buf t) = COLS * ROWS"
  shows "scroll_up t = t\<lparr>term_buf := drop COLS (term_buf t) @ replicate COLS 0x20, term_row := ROWS - 1\<rparr>"
proof -
  let ?b = "term_buf t"
  have up: "fold (\<lambda>r b. fold (\<lambda>c b. b[cell r c := b ! cell (r + 1) c]) [0..<COLS] b) [0..<ROWS - 1] ?b =
      fold (\<lambda>i b. b[i := b ! (i + COLS)]) [0..<(ROWS - 1) * COLS] ?b"
    using fold_rows [of "\<lambda>i b. b[i := b ! (i + COLS)]" COLS "ROWS - 1" ?b] by (simp add: cell_def algebra_simps)
  have len: "length ?b = 578" using assms by (simp add: COLS_def ROWS_def)
  have "fold (\<lambda>i b. b[i := b ! (i + COLS)]) [0..<(ROWS - 1) * COLS] ?b = take 544 (drop 34 ?b) @ drop 544 ?b"
    using fold_copy_down [of 544 34 ?b] len by (simp only: COLS_def ROWS_def) simp
  moreover have "fold (\<lambda>c b. b[cell (ROWS - 1) c := 0x20]) [0..<COLS] b = take 544 b @ replicate 34 0x20 @ drop 578 b"
    if "length b = 578" for b :: bytes
    using fold_fill [of 544 34 b "0x20"] that by (simp only: COLS_def ROWS_def cell_def) simp
  ultimately show ?thesis unfolding scroll_up_def up Let_def using len by (simp add: COLS_def)
qed


section \<open>The window on a growing page\<close>

text \<open>The abstract terminal keeps every finished line.\<close>

record sheet =
  sh_done :: "bytes list"
  sh_line :: bytes
  sh_col :: nat
  sh_esc :: u8

definition sheet_boot :: sheet where
  "sheet_boot = \<lparr>sh_done = [], sh_line = replicate COLS 0x20, sh_col = 0, sh_esc = 0\<rparr>"

definition line_feed :: "sheet \<Rightarrow> sheet" where
  "line_feed p = p\<lparr>sh_done := sh_done p @ [sh_line p], sh_line := replicate COLS 0x20, sh_col := 0\<rparr>"

definition sheet_put :: "u8 \<Rightarrow> sheet \<Rightarrow> sheet" where
  "sheet_put b p =
     (let p' = p\<lparr>sh_line := (sh_line p)[sh_col p := b], sh_col := sh_col p + 1\<rparr>
      in if sh_col p + 1 = COLS then line_feed p' else p')"

definition sheet_byte :: "u8 \<Rightarrow> sheet \<Rightarrow> sheet" where
  "sheet_byte b p =
     (if sh_esc p = 1 then p\<lparr>sh_esc := if b = 0x5B then 2 else 0\<rparr>
      else if sh_esc p = 2 then (if ascii_alphabetic b then p\<lparr>sh_esc := 0\<rparr> else p)
      else if b = 0x1B then p\<lparr>sh_esc := 1\<rparr>
      else if b = 0x0D then p\<lparr>sh_col := 0\<rparr>
      else if b = 0x0A then line_feed p
      else if b = 0x08 then p\<lparr>sh_col := sh_col p - 1\<rparr>
      else if 0x20 \<le> b \<and> b \<le> 0x7E then sheet_put b p
      else p)"

definition window :: "sheet \<Rightarrow> terminal" where
  "window p =
     \<lparr>term_buf = concat (drop (length (sh_done p) - 16) (sh_done p)) @ sh_line p @
        replicate ((16 - length (sh_done p)) * COLS) 0x20,
      term_col = sh_col p, term_row = min (length (sh_done p)) 16, esc_state = sh_esc p\<rparr>"

definition sheet_ok :: "sheet \<Rightarrow> bool" where
  "sheet_ok p \<longleftrightarrow> sh_col p < COLS \<and> length (sh_line p) = COLS \<and> (\<forall>l \<in> set (sh_done p). length l = COLS)"

lemma length_concat_lines: "\<forall>l \<in> set ls. length l = n \<Longrightarrow> length (concat ls) = length ls * n"
  by (induction ls) simp_all

lemma window_parts:
  assumes "sheet_ok p"
  shows "length (concat (drop (length (sh_done p) - 16) (sh_done p))) = min (length (sh_done p)) 16 * COLS"
    "length (term_buf (window p)) = COLS * ROWS"
proof -
  have "\<forall>l \<in> set (drop (length (sh_done p) - 16) (sh_done p)). length l = COLS"
    using assms by (auto simp: sheet_ok_def dest: in_set_dropD)
  then show l: "length (concat (drop (length (sh_done p) - 16) (sh_done p))) = min (length (sh_done p)) 16 * COLS"
    using length_concat_lines by fastforce
  have "min q 16 + (16 - q) = (16 :: nat)" for q by simp
  then have "min q 16 * COLS + (COLS + (16 - q) * COLS) = COLS * ROWS" for q
    unfolding ROWS_def by (metis add.commute add.left_commute add_mult_distrib mult.commute mult_Suc_right numeral_nat(1) eval_nat_numeral(3) semiring_norm(26,27,28))
  then show "length (term_buf (window p)) = COLS * ROWS" using l assms by (simp add: window_def sheet_ok_def)
qed

lemma window_line_feed:
  assumes "sheet_ok p"
  shows "window (line_feed p) =
    (if min (length (sh_done p)) 16 + 1 < ROWS then (window p)\<lparr>term_col := 0, term_row := min (length (sh_done p)) 16 + 1\<rparr>
     else scroll_up ((window p)\<lparr>term_col := 0\<rparr>))"
proof (cases "length (sh_done p) < 16")
  case True
  then obtain k where k: "16 - length (sh_done p) = Suc k" by (metis Suc_diff_Suc)
  then have "16 - Suc (length (sh_done p)) = k" "length (sh_done p) - 15 = 0" by simp_all
  then show ?thesis using True k by (simp add: window_def line_feed_def ROWS_def replicate_add)
next
  case False
  let ?Q = "sh_done p" and ?n = "length (sh_done p) - 16"
  have "drop ?n ?Q = ?Q ! ?n # drop (Suc ?n) ?Q" using False by (intro Cons_nth_drop_Suc [symmetric]) auto
  moreover have "length (?Q ! ?n) = COLS" using assms False by (auto simp: sheet_ok_def)
  moreover have "Suc ?n = length ?Q - 15" using False by simp
  moreover have "length (term_buf ((window p)\<lparr>term_col := 0\<rparr>)) = COLS * ROWS" using window_parts(2) [OF assms] by simp
  ultimately show ?thesis using False by (simp add: scroll_up_rows) (simp add: window_def line_feed_def ROWS_def)
qed

lemma window_put:
  assumes "sheet_ok p"
  shows "put_char b (window p) = window (sheet_put b p)"
proof -
  let ?p = "p\<lparr>sh_line := (sh_line p)[sh_col p := b]\<rparr>"
  have c: "sh_col p < COLS" "length (sh_line p) = COLS" using assms by (simp_all add: sheet_ok_def)
  have ok: "sheet_ok (?p\<lparr>sh_col := sh_col p + 1\<rparr>) \<or> sh_col p + 1 = COLS" "sheet_ok ?p" using assms by (auto simp: sheet_ok_def)
  have "(term_buf (window p))[cell (min (length (sh_done p)) 16) (sh_col p) := b] = term_buf (window ?p)"
    using window_parts(1) [OF assms] c by (simp add: window_def cell_def list_update_append)
  then have buf: "(window p)\<lparr>term_buf := (term_buf (window p))[cell (min (length (sh_done p)) 16) (sh_col p) := b]\<rparr> = window ?p"
    by (simp add: window_def)
  have r: "term_row (window p) = min (length (sh_done p)) 16" "term_col (window p) = sh_col p" by (simp_all add: window_def)
  have row: "min (length (sh_done p)) 16 < ROWS" by (simp add: ROWS_def)
  have "window (line_feed (?p\<lparr>sh_col := sh_col p + 1\<rparr>)) = window (line_feed ?p)" by (simp add: line_feed_def window_def)
  moreover have "window (?p\<lparr>sh_col := sh_col p + 1\<rparr>) = (window ?p)\<lparr>term_col := sh_col p + 1\<rparr>" by (simp add: window_def)
  ultimately show ?thesis
    using window_line_feed [OF ok(2)] c(1) row
    by (auto simp: put_char_def sheet_put_def Let_def r buf)
qed

lemma sheet_ok_byte: "sheet_ok p \<Longrightarrow> sheet_ok (sheet_byte b p)"
  by (auto simp: sheet_byte_def sheet_put_def line_feed_def sheet_ok_def Let_def)

lemma window_byte:
  assumes "sheet_ok p"
  shows "write_byte b (window p) = window (sheet_byte b p)"
proof -
  have f: "term_col (window p) = sh_col p" "esc_state (window p) = sh_esc p" "term_row (window p) = min (length (sh_done p)) 16" for p
    by (simp_all add: window_def)
  have u: "(window p)\<lparr>term_col := c\<rparr> = window (p\<lparr>sh_col := c\<rparr>)" "(window p)\<lparr>esc_state := e\<rparr> = window (p\<lparr>sh_esc := e\<rparr>)" for c e
    by (simp_all add: window_def)
  have z: "p\<lparr>sh_col := 0\<rparr> = p" if "sh_col p = 0" using that by (cases p) simp
  show ?thesis
    unfolding write_byte_def sheet_byte_def f Let_def
    using window_line_feed [OF assms] window_put [OF assms] u
    by (auto simp: f z)
qed

lemma window_bytes: "sheet_ok p \<Longrightarrow> write_bytes bs (window p) = window (fold sheet_byte bs p)"
  by (induction bs arbitrary: p) (simp_all add: write_bytes_def window_byte sheet_ok_byte)

text \<open>C33: after any output the grid is the window on the last 17 rows of the page that the output would fill if no line
  were ever lost, with the cursor and the escape state of that page.\<close>

theorem terminal_shows_last_lines: "write_bytes bs term_boot = window (fold sheet_byte bs sheet_boot)"
proof -
  have "sheet_ok sheet_boot" by (simp add: sheet_ok_def sheet_boot_def COLS_def)
  moreover have "window sheet_boot = term_boot"
    by (simp add: window_def sheet_boot_def term_boot_def COLS_def ROWS_def flip: replicate_add)
  ultimately show ?thesis using window_bytes by metis
qed

end
