(* ===== verification/Mem_Calls.thy ===== *)
theory Mem_Calls
  imports Fs_Calls Signal Loader Policy
begin

text \<open>
  The memory calls (\<open>syscall/mem.rs\<close>, \<open>sys_mmap\<close>, \<open>sys_munmap\<close> and \<open>sys_dlopen\<close> of \<open>syscall/mod.rs\<close>). They join the
  descriptors, the memory areas, the page tables, the address bump of the current process and the policy engine, so
  their state is the record of these five and of the table of mappings. Allocation of kernel buffers always succeeds.
\<close>

section \<open>State\<close>

record 'o msys =
  ms_user :: "'o usys"
  ms_vm :: vm
  ms_files :: fsys
  MMAP_TABLE :: "(u64, u64) btree"
  ms_policy :: policy_engine

definition mmap_table_reset :: "'o msys \<Rightarrow> 'o msys" where
  "mmap_table_reset s = s\<lparr>MMAP_TABLE := []\<rparr>"

definition set_vmas :: "vma_table \<Rightarrow> 'o msys \<Rightarrow> 'o msys" where
  "set_vmas t s = s\<lparr>ms_user := (ms_user s)\<lparr>VMAS := t\<rparr>\<rparr>"

section \<open>Mapping\<close>

definition MAP_ANONYMOUS :: u64 where "MAP_ANONYMOUS = 0x20"
definition MAP_FIXED :: u64 where "MAP_FIXED = 0x10"

definition page_count :: "u64 \<Rightarrow> u64 option" where
  "page_count len = do { n \<leftarrow> add_chk len 4095; Some (n div 4096) }"

definition read_for_mmap :: "u32 \<Rightarrow> u64 \<Rightarrow> u64 \<Rightarrow> fsys \<Rightarrow> bytes" where
  "read_for_mmap fd offset len s =
     (case fd_file fd R_READ s of None \<Rightarrow> [] | Some f \<Rightarrow> file_pread (fs_vfs s) len offset f)"

text \<open>A store of the kernel through a user address; an address without a page is a fault in kernel mode.\<close>

fun user_write :: "u64 \<Rightarrow> u64 \<Rightarrow> bytes \<Rightarrow> vm \<Rightarrow> vm option" where
  "user_write cr3 va [] st = Some st"
| "user_write cr3 va (b # bs) st = do {
     pa \<leftarrow> virt_to_phys cr3 va st;
     user_write cr3 (va + 1) bs (phys_write pa [b] st)
   }"

definition fill_mmap_from_fd :: "u64 \<Rightarrow> u64 \<Rightarrow> u64 \<Rightarrow> u32 \<Rightarrow> u64 \<Rightarrow> fsys \<Rightarrow> vm \<Rightarrow> vm option" where
  "fill_mmap_from_fd cr3 dst dst_len fd offset fs st =
     user_write cr3 dst (take (unat dst_len) (read_for_mmap fd offset dst_len fs)) st"

text \<open>\<open>t.range(..=addr).next_back()\<close> and the test on it.\<close>

definition mmap_inside :: "u64 \<Rightarrow> u64 \<Rightarrow> (u64, u64) btree \<Rightarrow> bool option" where
  "mmap_inside addr len t =
     (case filter (\<lambda>p. fst p \<le> addr) t of
        [] \<Rightarrow> Some False
      | ps \<Rightarrow> let (base, cnt) = last ps in do {
          e \<leftarrow> add_chk addr len;
          n \<leftarrow> mul_chk cnt 4096;
          b \<leftarrow> add_chk base n;
          Some (base \<le> addr \<and> e \<le> b)
        })"

definition mmap_fixed ::
  "u64 \<Rightarrow> u64 \<Rightarrow> u64 \<Rightarrow> u32 \<Rightarrow> bool \<Rightarrow> u32 \<Rightarrow> u64 \<Rightarrow> u64 \<Rightarrow> 'o msys \<Rightarrow> ('o msys \<times> int) option" where
  "mmap_fixed addr len pages prot is_anon fd offset cr3 s = do {
     inside \<leftarrow> mmap_inside addr len (MMAP_TABLE s);
     if inside then
       if \<not> is_anon then do {
         st \<leftarrow> fill_mmap_from_fd cr3 addr (pages * 4096) fd offset (ms_files s) (ms_vm s);
         (t, _) \<leftarrow> update_prot addr len prot (VMAS (ms_user s));
         Some (set_vmas t (s\<lparr>ms_vm := st\<rparr>), sint addr)
       } else do {
         t \<leftarrow> vma_insert addr pages prot True (VMAS (ms_user s));
         Some (set_vmas t s, sint addr)
       }
     else do {
       st \<leftarrow> (if \<not> is_anon then mmap_map cr3 addr (read_for_mmap fd offset (pages * 4096) (ms_files s)) True (ms_vm s)
              else mmap_anon cr3 addr (unat pages) True (ms_vm s));
       t \<leftarrow> vma_insert addr pages prot False (VMAS (ms_user s));
       Some (set_vmas t (s\<lparr>ms_vm := st, MMAP_TABLE := bt_insert addr pages (MMAP_TABLE s)\<rparr>), sint addr)
     }
   }"

definition mmap_anywhere ::
  "u64 \<Rightarrow> u32 \<Rightarrow> bool \<Rightarrow> u32 \<Rightarrow> u64 \<Rightarrow> u64 \<Rightarrow> 'o msys \<Rightarrow> ('o msys \<times> int) option" where
  "mmap_anywhere pages prot is_anon fd offset cr3 s = do {
     (u, vaddr) \<leftarrow> alloc_mmap_vaddr pages (ms_user s);
     st \<leftarrow> (if is_anon then Some (ms_vm s)
            else mmap_map cr3 vaddr (read_for_mmap fd offset (pages * 4096) (ms_files s)) True (ms_vm s));
     t \<leftarrow> vma_insert vaddr pages prot is_anon (VMAS u);
     pid \<leftarrow> current_pid (usched u);
     pe \<leftarrow> observe_mmap pid (ms_policy s);
     Some (set_vmas t (s\<lparr>ms_user := u, ms_vm := st, MMAP_TABLE := bt_insert vaddr pages (MMAP_TABLE s), ms_policy := pe\<rparr>),
       sint vaddr)
   }"

definition sys_mmap ::
  "u64 \<Rightarrow> u64 \<Rightarrow> u64 \<Rightarrow> u64 \<Rightarrow> u64 \<Rightarrow> u64 \<Rightarrow> 'o msys \<Rightarrow> ('o msys \<times> int) option" where
  "sys_mmap addr len prot flags fd offset s =
     (if len = 0 then Some (s, EINVAL)
      else do {
        pages \<leftarrow> page_count len;
        let cr3 = current_cr3 (ms_user s);
        if cr3 = 0 then Some (s, ENOMEM)
        else
          let is_anon = (flags AND MAP_ANONYMOUS \<noteq> 0 \<or> fd = - 1) in
          if flags AND MAP_FIXED \<noteq> 0 \<and> addr \<noteq> 0
          then mmap_fixed addr len pages (ucast prot) is_anon (ucast fd) offset cr3 s
          else mmap_anywhere pages (ucast prot) is_anon (ucast fd) offset cr3 s
      })"

section \<open>Unmapping and protection\<close>

definition sys_munmap :: "u64 \<Rightarrow> u64 \<Rightarrow> 'o msys \<Rightarrow> ('o msys \<times> int) option" where
  "sys_munmap addr len s = do {
     pages \<leftarrow> page_count len;
     let cr3 = current_cr3 (ms_user s);
     if cr3 = 0 then Some (s, 0)
     else
       let actual = (case bt_get addr (MMAP_TABLE s) of None \<Rightarrow> pages | Some n \<Rightarrow> n);
           s = s\<lparr>MMAP_TABLE := bt_remove addr (MMAP_TABLE s)\<rparr>
       in if actual > 0 then do {
            st \<leftarrow> munmap_pages cr3 addr (unat actual) (ms_vm s);
            Some (s\<lparr>ms_vm := st\<rparr>, 0)
          } else Some (s, 0)
   }"

definition sys_mprotect :: "u64 \<Rightarrow> u64 \<Rightarrow> u64 \<Rightarrow> 'o msys \<Rightarrow> ('o msys \<times> int) option" where
  "sys_mprotect addr len prot s =
     (if addr AND 0xFFF \<noteq> 0 then Some (s, EINVAL)
      else if len = 0 then Some (s, 0)
      else do {
        pages \<leftarrow> page_count len;
        let cr3 = current_cr3 (ms_user s);
        if cr3 = 0 then Some (s, EINVAL)
        else do {
          (t, _) \<leftarrow> update_prot addr len (ucast prot) (VMAS (ms_user s));
          st \<leftarrow> set_page_prot cr3 addr (unat pages) (ucast prot) (ms_vm s);
          Some (set_vmas t (s\<lparr>ms_vm := st\<rparr>), 0)
        }
      })"

text \<open>The system call table answers these numbers itself, \<open>mprotect\<close> included.\<close>

definition mem_dispatch :: "u64 \<Rightarrow> int option" where
  "mem_dispatch nr =
     (if nr = 10 then Some 0
      else if nr = 25 then Some ENOMEM
      else if nr = 26 then Some 0
      else if nr = 27 then Some ENOSYS
      else if nr \<in> {28, 149, 150, 151, 152} then Some 0
      else None)"

section \<open>Loading a library at run time\<close>

definition sys_dlopen :: "u64 \<Rightarrow> 'o msys \<Rightarrow> ('o msys \<times> int) option" where
  "sys_dlopen path_ptr s =
     (let path = (case read_cstr (fs_mem (ms_files s)) path_ptr of None \<Rightarrow> [] | Some p \<Rightarrow> p) in
      case read_file path (fs_vfs (ms_files s)) of
        None \<Rightarrow> Some (s, 0)
      | Some [] \<Rightarrow> Some (s, 0)
      | Some d \<Rightarrow> do {
          (u, slot_base) \<leftarrow> alloc_mmap_vaddr (SO_SLOT_SIZE div 4096) (ms_user s);
          (st, r) \<leftarrow> load_so_at (map (\<lambda>c. of_nat (of_char c)) path) d (current_cr3 (ms_user s)) slot_base (ms_vm s);
          Some (s\<lparr>ms_user := u, ms_vm := st\<rparr>, case r of None \<Rightarrow> 0 | Some lib \<Rightarrow> sint (load_base lib))
        })"

section \<open>Exceptions\<close>

definition kill_with :: "nat \<Rightarrow> 'o msys \<Rightarrow> 'o msys \<times> unit flow" where
  "kill_with sig s =
     (let (u, fl) = sys_exit_impl (128 + of_nat sig) (raise_signal sig (ms_user s)) in (s\<lparr>ms_user := u\<rparr>, fl))"

text \<open>Vectors 14 (page fault), 17 (alignment) and 6 (invalid instruction) from ring 3; every other exception halts the
  machine.\<close>

definition exception_handler :: "u64 \<Rightarrow> u64 \<Rightarrow> u64 \<Rightarrow> u64 \<Rightarrow> 'o msys \<Rightarrow> ('o msys \<times> unit flow) option" where
  "exception_handler vec ec cs cr2 s =
     (let is_user = (cs AND 3 = 3) in
      if is_user \<and> vec = 14 then do {
        (st, ok) \<leftarrow> (if ec AND 1 = 0 then try_demand_page cr2 (hw_cr3 (ms_user s)) (VMAS (ms_user s)) (ms_vm s)
                     else Some (ms_vm s, False));
        let s = s\<lparr>ms_vm := st\<rparr>;
        if ok then Some (s, Returns ())
        else do {
          pid \<leftarrow> current_pid (usched (ms_user s));
          pe \<leftarrow> observe_page_fault pid (ms_policy s);
          Some (kill_with 11 (s\<lparr>ms_policy := pe\<rparr>))
        }
      }
      else if is_user \<and> vec = 17 then Some (kill_with 7 s)
      else if is_user \<and> vec = 6 then Some (kill_with 4 s)
      else None)"

section \<open>A mapped file\<close>

lemma page_count_nat:
  assumes "page_count len = Some n"
  shows "unat n = (unat len + 4095) div 4096" "unat (n * 4096) = unat n * 4096"
proof -
  obtain m where m: "add_chk len 4095 = Some m" "n = m div 4096"
    using assms by (auto simp: page_count_def Option.bind_eq_Some_conv)
  then have u: "unat m = unat len + 4095" using add_chk_SomeD [OF m(1), THEN conjunct2] by simp
  then show "unat n = (unat len + 4095) div 4096" using m(2) by (simp add: unat_div)
  have "unat m div 4096 * 4096 < 2 ^ 64"
    using unsigned_less [of m, where ?'a = nat] div_times_less_eq_dividend [of "unat m" 4096] by (simp del: div_times_less_eq_dividend)
  then show "unat (n * 4096) = unat n * 4096" using m(2) by (simp add: unat_word_ariths unat_div)
qed

lemma mmap_pages_le: "length d \<le> n * 4096 \<Longrightarrow> 0 < n \<Longrightarrow> mmap_pages d \<le> n"
  by (auto simp: mmap_pages_def less_mult_imp_div_less intro: less_Suc_eq_le [THEN iffD1])

lemma mmap_pages_covers: "length d \<le> mmap_pages d * 4096"
  using div_mult_mod_eq [of "length d + 4095" 4096] mod_less_divisor [of 4096 "length d + 4095"]
  by (auto simp: mmap_pages_def)

lemma sint_low: "unat (a :: u64) < 2 ^ 47 \<Longrightarrow> sint a = int (unat a)"
proof -
  assume "unat a < 2 ^ 47"
  then have "int (unat a) < int (2 ^ 47)" by (simp only: of_nat_less_iff)
  then have "uint a < 2 ^ 63" by simp
  then have "signed_take_bit 63 (uint a) = uint a"
    using uint_ge_0 [of a] by (intro signed_take_bit_int_eq_self) (linarith, simp)
  then have "sint a = uint a" by (simp add: sint_uint)
  then show ?thesis unfolding uint_nat .
qed


section \<open>Anonymous memory and what unmapping leaves\<close>

lemma demand_page_total:
  assumes "4 \<le> card (vavail st)"
  shows "\<exists>st'. demand_alloc_page cr3 va w st = Some st'"
proof -
  have "vavail st \<noteq> {}" using assms by auto
  then obtain s phys where t: "take_frame st = Some (s, phys)" using take_frame_total by blast
  have "3 \<le> card (vavail s)" using take_frame_SomeD(1,2) [OF t] assms by simp
  then have "3 \<le> card (vavail (put_page phys zero_page s))" by (simp add: vavail_def put_page_def)
  then show ?thesis using t map_4k_total by (fastforce simp: demand_alloc_page_def)
qed

lemma demand_page_zero:
  assumes "space_ok (page_base cr3) st" "low va" "demand_alloc_page cr3 (page_base va) w st = Some st'"
  shows "space_ok (page_base cr3) st'" and "ubyte (page_base cr3) st' va = Some 0"
    and "low va' \<Longrightarrow> unat va' div 4096 \<noteq> unat va div 4096 \<Longrightarrow> ubyte (page_base cr3) st' va' = ubyte (page_base cr3) st va'"
proof -
  let ?b = "page_base va" and ?f = "PTE_USER OR (if w then PTE_WRITABLE else 0)"
  obtain s phys where t: "take_frame st = Some (s, phys)" "map_4k (page_base cr3) ?b phys ?f (put_page phys zero_page s) = Some st'"
    using assms(3) by (auto simp: demand_alloc_page_def Option.bind_eq_Some_conv)
  have f: "page_base ?f = 0" by (simp add: page_base_simps)
  have q: "unat ?b div 4096 = unat va div 4096" using page_base_nat [of va] by (simp add: minus_mod_eq_div_mult)
  have lb: "low ?b" using assms(2) page_base_nat [of va] by (simp add: low_def)
  note mf = map_fresh [OF assms(1) low_user [OF lb] f t]
  show "space_ok (page_base cr3) st'" by (rule mf(1))
  show "ubyte (page_base cr3) st' va = Some 0"
    using mf(2) [OF low_user [OF assms(2)]] same_page_low [OF lb assms(2)] q by simp
  show "ubyte (page_base cr3) st' va' = ubyte (page_base cr3) st va'" if "low va'" "unat va' div 4096 \<noteq> unat va div 4096"
    using mf(2) [OF low_user [OF that(1)]] same_page_low [OF lb that(1)] q that(2) by simp
qed

text \<open>A fault on a lazy area is served.\<close>

lemma fault_served:
  assumes "vma_find va (VMAS (ms_user s)) = Some (Some e)" "vma_lazy e" "4 \<le> card (vavail (ms_vm s))"
  shows "\<exists>st'. exception_handler 14 4 0x23 va s = Some (s\<lparr>ms_vm := st'\<rparr>, Returns ()) \<and>
    demand_alloc_page (hw_cr3 (ms_user s)) (page_base va) (vma_prot e AND PROT_WRITE \<noteq> 0) (ms_vm s) = Some st'"
  using demand_page_total [OF assms(3), of "hw_cr3 (ms_user s)" "page_base va" "vma_prot e AND PROT_WRITE \<noteq> 0"] assms(1,2)
  by (auto simp: exception_handler_def try_demand_page_def)

lemma lazy_found:
  assumes "vma_ok t" "vma_view t va = Some (p, True)"
  shows "\<exists>e. vma_find va t = Some (Some e) \<and> vma_lazy e"
proof -
  have "vma_find va t = Some (find (\<lambda>e. covers e va) t)" using assms(1) by (intro vma_find_find) (simp add: vma_ok_def)
  then show ?thesis using assms(2) by (auto simp: vma_view_def)
qed

lemma vma_insert_view:
  assumes "vma_ok t" and "fits b n t" and "\<exists>e \<in> set t. \<not> vma_valid e"
  shows "\<exists>t'. vma_insert b n p l t = Some t' \<and> vma_ok t' \<and>
    (\<forall>va. vma_view t' va = (if in_area b n va then Some (p, l) else vma_view t va))"
  using vma_insert_new [OF assms] vma_insert_replace [OF assms]
  by (cases "find_idx (\<lambda>e. vma_valid e \<and> vma_base e = b) t") blast+


text \<open>Unmapping does not remove the memory area: a touch of an anonymous mapping after \<open>munmap\<close> is served with a new
  page instead of raising SIGSEGV.\<close>

theorem munmap_keeps_area:
  assumes "sys_munmap addr len s = Some (s', r)"
    and "vma_find va (VMAS (ms_user s)) = Some (Some e)" "vma_lazy e" "4 \<le> card (vavail (ms_vm s'))"
  shows "VMAS (ms_user s') = VMAS (ms_user s) \<and> (\<exists>s''. exception_handler 14 4 0x23 va s' = Some (s'', Returns ()))"
proof -
  have "VMAS (ms_user s') = VMAS (ms_user s)"
    using assms(1) by (auto simp: sys_munmap_def Let_def Option.bind_eq_Some_conv split: if_splits)
  then show ?thesis using fault_served [OF _ assms(3,4)] assms(2) by auto
qed

section \<open>Concrete runs\<close>

definition demo_msys :: "unit msys" where
  "demo_msys = \<lparr>ms_user = demo_usys\<lparr>usched := scheduler_init, VMAS := VMA_TABLE_init\<rparr>, ms_vm = demo_vm,
     ms_files = demo_fs\<lparr>FD_TABLE := \<lparr>ht_table = [(3, \<lparr>cap_object = FileRes (new_readonly ''/f'' [7, 8, 9]), cap_rights = R_READ\<rparr>)],
       next_id = 4\<rparr>\<rparr>,
     MMAP_TABLE = [], ms_policy = policy_new\<rparr>"

lemma demo_msys_parts:
  "cur_up (ms_user demo_msys) = Some (new_uproc 1 0 0x1000 0xFFFF900000010000)" "hw_cr3 (ms_user demo_msys) = 0x1000"
  "VMAS (ms_user demo_msys) = VMA_TABLE_init" "ms_vm demo_msys = demo_vm" "current_pid (usched (ms_user demo_msys)) = Some 0"
  "ms_policy demo_msys = policy_new"
  by (simp_all add: demo_msys_def demo_slots demo_usys_def current_pid_def scheduler_init_def scheduler_new_def cur_proc_def new_kernel_main_def)

lemma demo_msys_file:
  "fd_file 3 R_READ (ms_files demo_msys) = Some (new_readonly ''/f'' [7, 8, 9])"
  "file_data (fs_vfs (ms_files demo_msys)) (new_readonly ''/f'' [7, 8, 9]) = Some [7, 8, 9]"
  by (simp_all add: demo_msys_def fd_file_Some rights_contains_def R_READ_def file_data_def new_readonly_def)

lemma policy_new_mmap: "\<exists>pe. observe_mmap 0 policy_new = Some pe"
proof -
  have "find_idx (\<lambda>x. me_active x \<and> me_pid x = 0) (mem_table policy_new) = None"
    by (auto simp: find_idx_None_iff policy_new_def mem_entry_empty_def)
  then show ?thesis by (simp add: observe_mmap_def del: find_idx_None_iff)
qed

lemma demo_insert: "\<exists>t. vma_insert 0x40000000 1 3 l VMA_TABLE_init = Some t"
  using vma_insert_view [OF VMA_TABLE_init_ok fits_init, of 1 "0x40000000" 3 l] by (auto simp: VMA_TABLE_init_def vma_empty_def MAX_VMA_def)


lemma demo_anon: "\<exists>s' r. sys_mmap 0 4096 3 0x22 (- 1) 0 demo_msys = Some (s', r)"
  using policy_new_mmap demo_insert [of True] demo_msys_parts
  by (auto simp: sys_mmap_def page_count_def add_chk_def Let_def current_cr3_def new_uproc_def mmap_anywhere_def
      alloc_mmap_vaddr_def mul_chk_def MAP_ANONYMOUS_def MAP_FIXED_def upd_up_def)


definition demo_area :: vma_entry where
  "demo_area = \<lparr>vma_base = 0x40000000, vma_pages = 1, vma_prot = 3, vma_lazy = True, vma_valid = True\<rparr>"

theorem munmap_keeps_area_witness:
  "\<exists>s' s''. sys_munmap 0x40000000 4096 (set_vmas [demo_area] demo_msys) = Some (s', 0) \<and>
    exception_handler 14 4 0x23 0x40000008 s' = Some (s'', Returns ())"
proof -
  let ?s = "set_vmas [demo_area] demo_msys"
  have n: "virt_to_phys 0x1000 va demo_vm = None" for va
    by (simp add: virt_to_phys_def Let_def rd_def demo_vm_def zero_page_def)
  have "current_cr3 (ms_user ?s) = 0x1000" "ms_vm ?s = demo_vm" "MMAP_TABLE ?s = []"
    using demo_msys_parts by (simp_all add: set_vmas_def current_cr3_def new_uproc_def demo_msys_def)
  then obtain s' where m: "sys_munmap 0x40000000 4096 ?s = Some (s', 0)" "ms_vm s' = demo_vm"
    by (auto simp: sys_munmap_def page_count_def add_chk_def Let_def munmap_pages_def page_addr_def mul_chk_def munmap_page_def n)
  have "vma_find 0x40000008 (VMAS (ms_user ?s)) = Some (Some demo_area)"
    by (simp add: set_vmas_def demo_area_def vma_end_def mul_chk_def add_chk_def word_le_nat_alt word_less_nat_alt)
  from munmap_keeps_area [OF m(1) this] show ?thesis using m demo_vm_card by (auto simp: demo_area_def)
qed

end
