(* ===== verification/Virtio.thy ===== *)
theory Virtio
  imports Elf "HOL-Library.Multiset"
begin

text \<open>
  The virtqueue (\<open>virtio/queue.rs\<close>), the block driver's request (\<open>virtio/blk.rs\<close>) and the network driver's receive and
  transmit paths (\<open>virtio/net.rs\<close>). A queue's memory is a function from offsets to bytes, shared with the device. What
  the device does is an argument: the queue size it reports, the values the polling loops read, and, for the receive
  path, the steps of a device that follows the virtio rules. Port writes and register setup are left out.
\<close>

section \<open>Queue memory\<close>

definition mem_put :: "nat \<Rightarrow> bytes \<Rightarrow> (nat \<Rightarrow> u8) \<Rightarrow> nat \<Rightarrow> u8" where
  "mem_put off bs m = (\<lambda>a. if off \<le> a \<and> a < off + length bs then bs ! (a - off) else m a)"

definition mem_get :: "nat \<Rightarrow> nat \<Rightarrow> (nat \<Rightarrow> u8) \<Rightarrow> 'a::len word" where
  "mem_get n off m = from_le_bytes (map (\<lambda>i. m (off + i)) [0..<n])"

definition avail_off :: "nat \<Rightarrow> nat" where "avail_off n = n * 16"

definition page_up :: "nat \<Rightarrow> nat" where "page_up n = (n + 4095) div 4096 * 4096"

definition used_off :: "nat \<Rightarrow> nat" where "used_off n = page_up (avail_off n + 6 + n * 2)"

definition alloc_size :: "nat \<Rightarrow> nat" where "alloc_size n = page_up (used_off n + 6 + n * 8)"

record queue =
  q_mem :: "nat \<Rightarrow> u8"
  q_size :: nat
  q_ao :: nat
  q_uo :: nat
  q_alloc :: nat
  q_ai :: u16
  q_lu :: u16
  q_nd :: u16

text \<open>\<open>Queue::init\<close>: the size the device reports, and the frame number written back to it.\<close>

definition queue_init :: "u16 \<Rightarrow> u64 \<Rightarrow> (queue \<times> u32) option" where
  "queue_init qsize phys =
     (if qsize = 0 then None
      else let n = unat qsize in
        Some (\<lparr>q_mem = (\<lambda>_. 0), q_size = n, q_ao = avail_off n, q_uo = used_off n, q_alloc = alloc_size n,
          q_ai = 0, q_lu = 0, q_nd = 0\<rparr>, ucast (phys div 4096)))"

definition on_mem :: "((nat \<Rightarrow> u8) \<Rightarrow> nat \<Rightarrow> u8) \<Rightarrow> queue \<Rightarrow> queue" where
  "on_mem f q = q\<lparr>q_mem := f (q_mem q)\<rparr>"

definition write_desc :: "nat \<Rightarrow> u64 \<Rightarrow> u32 \<Rightarrow> u16 \<Rightarrow> u16 \<Rightarrow> queue \<Rightarrow> queue" where
  "write_desc idx addr len flags nxt =
     on_mem (mem_put (idx * 16 + 14) (le2 nxt) \<circ> mem_put (idx * 16 + 12) (le2 flags) \<circ>
       mem_put (idx * 16 + 8) (le4 len) \<circ> mem_put (idx * 16) (to_le_bytes addr))"

definition avail_put :: "nat \<Rightarrow> u16 \<Rightarrow> queue \<Rightarrow> queue" where
  "avail_put slot head q = on_mem (mem_put (q_ao q + 4 + slot * 2) (le2 head)) q"

definition avail_commit :: "u16 \<Rightarrow> queue \<Rightarrow> queue" where
  "avail_commit idx q = on_mem (mem_put (q_ao q + 2) (le2 idx)) q"

definition used_idx :: "queue \<Rightarrow> u16" where "used_idx q = mem_get 2 (q_uo q + 2) (q_mem q)"
definition used_id :: "nat \<Rightarrow> queue \<Rightarrow> u32" where "used_id slot q = mem_get 4 (q_uo q + 4 + slot * 8) (q_mem q)"
definition used_len :: "nat \<Rightarrow> queue \<Rightarrow> u32" where "used_len slot q = mem_get 4 (q_uo q + 4 + slot * 8 + 4) (q_mem q)"

definition alloc_desc :: "queue \<Rightarrow> queue \<times> nat" where
  "alloc_desc q = (q\<lparr>q_nd := (q_nd q + 1) mod of_nat (q_size q)\<rparr>, unat (q_nd q))"

definition push_one :: "u64 \<Rightarrow> u32 \<Rightarrow> u16 \<Rightarrow> queue \<Rightarrow> queue \<times> u16" where
  "push_one addr len flags q =
     (let (q, d) = alloc_desc q;
          q = write_desc d addr len flags 0 q;
          slot = unat (q_ai q) mod q_size q;
          q = avail_put slot (of_nat d) q;
          q = q\<lparr>q_ai := q_ai q + 1\<rparr>
      in (avail_commit (q_ai q) q, of_nat d))"

section \<open>The block driver\<close>

definition F_NEXT :: u16 where "F_NEXT = 1"
definition F_WRITE :: u16 where "F_WRITE = 2"
definition BLK_T_IN :: u32 where "BLK_T_IN = 0"
definition BLK_T_OUT :: u32 where "BLK_T_OUT = 1"

definition blk_publish :: "u32 \<Rightarrow> u64 \<Rightarrow> u64 \<Rightarrow> u64 \<Rightarrow> queue \<Rightarrow> queue" where
  "blk_publish type hdr_phys buf_phys status_phys q =
     (let q = write_desc 0 hdr_phys 16 F_NEXT 1 q;
          q = write_desc 1 buf_phys 512 (if type = BLK_T_IN then F_WRITE OR F_NEXT else F_NEXT) 2 q;
          q = write_desc 2 status_phys 1 F_WRITE 0 q;
          q = avail_put (unat (q_ai q) mod q_size q) 0 q;
          q = q\<lparr>q_ai := q_ai q + 1\<rparr>
      in avail_commit (q_ai q) q)"

text \<open>The polling loop sees a used index and a tick at each turn; \<open>None\<close> is a run that has not ended yet.\<close>

fun poll_used :: "u64 \<Rightarrow> (u16 \<times> u64) list \<Rightarrow> u16 \<Rightarrow> bool option" where
  "poll_used deadline [] lu = None"
| "poll_used deadline ((ui, tick) # obs) lu =
     (if ui \<noteq> lu then Some True else if tick > deadline then Some False else poll_used deadline obs lu)"

definition do_request ::
  "u32 \<Rightarrow> u64 \<Rightarrow> u64 \<Rightarrow> u64 \<Rightarrow> u64 \<Rightarrow> (u16 \<times> u64) list \<Rightarrow> u8 \<Rightarrow> queue \<Rightarrow> (queue \<times> bool) option" where
  "do_request type hdr_phys buf_phys status_phys tick obs status q = do {
     let q = blk_publish type hdr_phys buf_phys status_phys q;
     deadline \<leftarrow> add_chk tick 18;
     r \<leftarrow> poll_used deadline obs (q_lu q);
     Some (if r then (q\<lparr>q_lu := q_lu q + 1\<rparr>, status = 0) else (q, False))
   }"

section \<open>The network driver\<close>

definition NET_HDR_LEN :: nat where "NET_HDR_LEN = 10"
definition RX_BUF_SIZE :: nat where "RX_BUF_SIZE = NET_HDR_LEN + 1514"
definition RX_BUF_COUNT :: nat where "RX_BUF_COUNT = 8"

record virtio_net =
  rxq :: queue
  txq :: queue
  rx_bufs :: "nat \<Rightarrow> u8"
  rx_virt :: u64
  rx_posted :: u16

definition post_rx :: "u64 \<Rightarrow> u64 \<Rightarrow> nat \<Rightarrow> queue \<Rightarrow> queue option" where
  "post_rx virt hhdm i q = do {
     v \<leftarrow> add_chk virt (of_nat (i * RX_BUF_SIZE));
     phys \<leftarrow> sub_chk v hhdm;
     let slot = unat (q_ai q) mod q_size q;
     let q = write_desc i phys (of_nat RX_BUF_SIZE) F_WRITE 0 q;
     let q = avail_put slot (of_nat i) q;
     Some (q\<lparr>q_ai := q_ai q + 1\<rparr>)
   }"

fun post_rx_loop :: "u64 \<Rightarrow> u64 \<Rightarrow> nat list \<Rightarrow> queue \<Rightarrow> queue option" where
  "post_rx_loop virt hhdm [] q = Some q"
| "post_rx_loop virt hhdm (i # is) q = post_rx virt hhdm i q \<bind> post_rx_loop virt hhdm is"

definition post_rx_all :: "u64 \<Rightarrow> virtio_net \<Rightarrow> virtio_net option" where
  "post_rx_all hhdm n = do {
     q \<leftarrow> post_rx_loop (rx_virt n) hhdm [0..<RX_BUF_COUNT] (rxq n);
     Some (n\<lparr>rxq := avail_commit (q_ai q) q, rx_posted := q_ai q\<rparr>)
   }"

definition try_recv :: "u64 \<Rightarrow> virtio_net \<Rightarrow> (virtio_net \<times> bytes option) option" where
  "try_recv hhdm n =
     (let q = rxq n in
      if used_idx q = q_lu q then Some (n, None)
      else do {
        let slot = unat (q_lu q) mod q_size q;
        let buf_id = unat (used_id slot q);
        let len = unat (used_len slot q);
        let pkt = map (\<lambda>i. rx_bufs n (buf_id * RX_BUF_SIZE + NET_HDR_LEN + i)) [0..<len - NET_HDR_LEN];
        q \<leftarrow> post_rx (rx_virt n) hhdm buf_id (q\<lparr>q_lu := q_lu q + 1\<rparr>);
        Some (n\<lparr>rxq := avail_commit (q_ai q) q\<rparr>, Some pkt)
      })"

definition net_send :: "bytes \<Rightarrow> u64 \<Rightarrow> u64 \<Rightarrow> u64 \<Rightarrow> (u16 \<times> u64) list \<Rightarrow> virtio_net \<Rightarrow> (virtio_net \<times> bool) option" where
  "net_send frame hdr_phys frame_phys tick obs n =
     (if frame = [] then Some (n, False)
      else do {
        let q = txq n;
        let d0 = q_nd q;
        nd \<leftarrow> add_chk d0 1;
        let d1 = nd mod of_nat (q_size q);
        nd \<leftarrow> add_chk d1 1;
        let q = q\<lparr>q_nd := nd mod of_nat (q_size q)\<rparr>;
        let q = write_desc (unat d0) hdr_phys (of_nat NET_HDR_LEN) F_NEXT d1 q;
        let q = write_desc (unat d1) frame_phys (of_nat (length frame)) 0 0 q;
        let q = avail_put (unat (q_ai q) mod q_size q) d0 q;
        let q = q\<lparr>q_ai := q_ai q + 1\<rparr>;
        let q = avail_commit (q_ai q) q;
        deadline \<leftarrow> add_chk tick 9;
        r \<leftarrow> poll_used deadline obs (q_lu q);
        Some (n\<lparr>txq := if r then q\<lparr>q_lu := q_lu q + 1\<rparr> else q\<rparr>, r)
      })"

section \<open>What the device reads\<close>

record desc =
  d_addr :: u64
  d_len :: u32
  d_flags :: u16
  d_next :: u16

definition desc_at :: "nat \<Rightarrow> queue \<Rightarrow> desc" where
  "desc_at i q = \<lparr>d_addr = mem_get 8 (i * 16) (q_mem q), d_len = mem_get 4 (i * 16 + 8) (q_mem q),
     d_flags = mem_get 2 (i * 16 + 12) (q_mem q), d_next = mem_get 2 (i * 16 + 14) (q_mem q)\<rparr>"

definition avail_idx :: "queue \<Rightarrow> u16" where "avail_idx q = mem_get 2 (q_ao q + 2) (q_mem q)"

definition avail_ring :: "u16 \<Rightarrow> queue \<Rightarrow> u16" where
  "avail_ring i q = mem_get 2 (q_ao q + 4 + unat i mod q_size q * 2) (q_mem q)"

text \<open>The buffers of a request: the descriptors linked from a head, at most as many as there are.\<close>

fun read_chain :: "nat \<Rightarrow> u16 \<Rightarrow> queue \<Rightarrow> desc list" where
  "read_chain 0 i q = []"
| "read_chain (Suc k) i q =
     (let d = desc_at (unat i) q in d # (if d_flags d AND F_NEXT \<noteq> 0 then read_chain k (d_next d) q else []))"

definition queue_ok :: "queue \<Rightarrow> bool" where
  "queue_ok q \<longleftrightarrow> 0 < q_size q \<and> q_size q \<le> 65535 \<and> q_ao q = avail_off (q_size q) \<and> q_uo q = used_off (q_size q) \<and>
     q_alloc q = alloc_size (q_size q)"

section \<open>Layout\<close>

lemma page_up_le: "n \<le> page_up n"
  using div_mult_mod_eq [of "n + 4095" 4096] mod_less_divisor [of 4096 "n + 4095"] unfolding page_up_def by linarith

lemma layout:
  "avail_off n + 6 + n * 2 \<le> used_off n" "used_off n + 6 + n * 8 \<le> alloc_size n" "n * 16 = avail_off n"
  unfolding used_off_def alloc_size_def by (simp_all only: page_up_le avail_off_def)

lemma mem_get_cong: "(\<And>i. i < n \<Longrightarrow> m (off + i) = m' (off + i)) \<Longrightarrow> mem_get n off m = mem_get n off m'"
  by (auto simp: mem_get_def intro!: arg_cong [of _ _ from_le_bytes])

lemma mem_get_put:
  "mem_get (length bs) off (mem_put off bs m) = from_le_bytes bs"
  by (auto simp: mem_get_def mem_put_def intro!: arg_cong [of _ _ from_le_bytes] nth_equalityI)

lemma mem_get_put_apart:
  "off + n \<le> off' \<or> off' + length bs \<le> off \<Longrightarrow> mem_get n off (mem_put off' bs m) = mem_get n off m"
  by (rule mem_get_cong) (auto simp: mem_put_def)

lemma mem_get_puts [simp]:
  "(mem_get 2 off (mem_put off (le2 v) m) :: u16) = v"
  "(mem_get 4 off (mem_put off (le4 w) m) :: u32) = w"
  "(mem_get 8 off (mem_put off (to_le_bytes x) m) :: u64) = x"
proof -
  have "(mem_get (length (le2 v)) off (mem_put off (le2 v) m) :: u16) = from_le_bytes (le2 v)"
    "(mem_get (length (le4 w)) off (mem_put off (le4 w) m) :: u32) = from_le_bytes (le4 w)"
    "(mem_get (length (to_le_bytes x)) off (mem_put off (to_le_bytes x) m) :: u64) = from_le_bytes (to_le_bytes x)"
    by (rule mem_get_put)+
  then show "(mem_get 2 off (mem_put off (le2 v) m) :: u16) = v" "(mem_get 4 off (mem_put off (le4 w) m) :: u32) = w"
    "(mem_get 8 off (mem_put off (to_le_bytes x) m) :: u64) = x" by simp_all
qed

lemma queue_fields [simp]:
  "q_size (write_desc i a l f x q) = q_size q" "q_ao (write_desc i a l f x q) = q_ao q" "q_uo (write_desc i a l f x q) = q_uo q"
  "q_alloc (write_desc i a l f x q) = q_alloc q" "q_ai (write_desc i a l f x q) = q_ai q" "q_lu (write_desc i a l f x q) = q_lu q"
  "q_nd (write_desc i a l f x q) = q_nd q"
  "q_size (avail_put s h q) = q_size q" "q_ao (avail_put s h q) = q_ao q" "q_uo (avail_put s h q) = q_uo q"
  "q_alloc (avail_put s h q) = q_alloc q" "q_ai (avail_put s h q) = q_ai q" "q_lu (avail_put s h q) = q_lu q"
  "q_nd (avail_put s h q) = q_nd q"
  "q_size (avail_commit i16 q) = q_size q" "q_ao (avail_commit i16 q) = q_ao q" "q_uo (avail_commit i16 q) = q_uo q"
  "q_alloc (avail_commit i16 q) = q_alloc q" "q_ai (avail_commit i16 q) = q_ai q" "q_lu (avail_commit i16 q) = q_lu q"
  "q_nd (avail_commit i16 q) = q_nd q"
  by (simp_all add: write_desc_def avail_put_def avail_commit_def on_mem_def)

lemma mem_get_write_desc:
  assumes "off + n \<le> i * 16 \<or> i * 16 + 16 \<le> off"
  shows "mem_get n off (q_mem (write_desc i a l f x q)) = mem_get n off (q_mem q)"
proof -
  have "off + n \<le> i * 16 + k \<or> i * 16 + k + w \<le> off" if "k + w \<le> 16" for k w
    using assms that by (elim disjE) linarith+
  from this [of 0 8] this [of 8 4] this [of 12 2] this [of 14 2] show ?thesis
    by (simp add: write_desc_def on_mem_def mem_get_put_apart)
qed

lemma desc_at_write:
  "desc_at j (write_desc i a l f x q) =
    (if j = i then \<lparr>d_addr = a, d_len = l, d_flags = f, d_next = x\<rparr> else desc_at j q)"
proof (cases "j = i")
  case True
  then show ?thesis by (simp add: desc_at_def write_desc_def on_mem_def mem_get_put_apart)
next
  case False
  then have "j * 16 + 16 \<le> i * 16 \<or> i * 16 + 16 \<le> j * 16" by linarith
  then have "(mem_get 8 (j * 16) (q_mem (write_desc i a l f x q)) :: u64) = mem_get 8 (j * 16) (q_mem q)"
    "(mem_get 4 (j * 16 + 8) (q_mem (write_desc i a l f x q)) :: u32) = mem_get 4 (j * 16 + 8) (q_mem q)"
    "(mem_get 2 (j * 16 + 12) (q_mem (write_desc i a l f x q)) :: u16) = mem_get 2 (j * 16 + 12) (q_mem q)"
    "(mem_get 2 (j * 16 + 14) (q_mem (write_desc i a l f x q)) :: u16) = mem_get 2 (j * 16 + 14) (q_mem q)"
    by (auto intro!: mem_get_write_desc)
  then show ?thesis using False unfolding desc_at_def by simp
qed

text \<open>The three regions do not interfere.\<close>

lemma regions:
  assumes "queue_ok q"
  shows "i < q_size q \<Longrightarrow> i * 16 + 16 \<le> q_ao q" "q_ao q + 6 + q_size q * 2 \<le> q_uo q" "0 < q_size q"
proof -
  have "q_ao q = q_size q * 16" "q_uo q = used_off (q_size q)" "0 < q_size q"
    using assms by (simp_all add: queue_ok_def avail_off_def)
  then show "i < q_size q \<Longrightarrow> i * 16 + 16 \<le> q_ao q" "q_ao q + 6 + q_size q * 2 \<le> q_uo q" "0 < q_size q"
    using layout(1) [of "q_size q"] by (simp_all add: avail_off_def)
qed

lemma queue_ok_ops [simp]:
  "queue_ok (write_desc i a l f x q) = queue_ok q" "queue_ok (avail_put s h q) = queue_ok q"
  "queue_ok (avail_commit k q) = queue_ok q" "queue_ok (q\<lparr>q_ai := k\<rparr>) = queue_ok q" "queue_ok (q\<lparr>q_lu := k\<rparr>) = queue_ok q"
  "queue_ok (q\<lparr>q_nd := k\<rparr>) = queue_ok q"
  by (simp_all add: queue_ok_def)

lemma views_upd [simp]:
  "desc_at j (q\<lparr>q_ai := k\<rparr>) = desc_at j q" "desc_at j (q\<lparr>q_lu := k\<rparr>) = desc_at j q" "desc_at j (q\<lparr>q_nd := k\<rparr>) = desc_at j q"
  "avail_idx (q\<lparr>q_ai := k\<rparr>) = avail_idx q" "avail_idx (q\<lparr>q_lu := k\<rparr>) = avail_idx q"
  "avail_ring i (q\<lparr>q_ai := k\<rparr>) = avail_ring i q" "avail_ring i (q\<lparr>q_lu := k\<rparr>) = avail_ring i q"
  "used_idx (q\<lparr>q_ai := k\<rparr>) = used_idx q" "used_idx (q\<lparr>q_lu := k\<rparr>) = used_idx q"
  "used_id s (q\<lparr>q_ai := k\<rparr>) = used_id s q" "used_id s (q\<lparr>q_lu := k\<rparr>) = used_id s q"
  by (simp_all add: desc_at_def avail_idx_def avail_ring_def used_idx_def used_id_def)

lemma view_write_desc:
  assumes "queue_ok q" "i < q_size q"
  shows "avail_idx (write_desc i a l f x q) = avail_idx q" "avail_ring k (write_desc i a l f x q) = avail_ring k q"
    "used_idx (write_desc i a l f x q) = used_idx q" "used_id s (write_desc i a l f x q) = used_id s q"
proof -
  note r = regions [OF assms(1)]
  have b: "i * 16 + 16 \<le> q_ao q" "q_ao q \<le> q_uo q" using r(1) [OF assms(2)] r(2) by simp_all
  show "avail_idx (write_desc i a l f x q) = avail_idx q" "avail_ring k (write_desc i a l f x q) = avail_ring k q"
    "used_idx (write_desc i a l f x q) = used_idx q" "used_id s (write_desc i a l f x q) = used_id s q"
    using b by (simp_all add: avail_idx_def avail_ring_def used_idx_def used_id_def mem_get_write_desc)
qed

lemma view_avail_put:
  assumes "queue_ok q" "s < q_size q"
  shows "j < q_size q \<Longrightarrow> desc_at j (avail_put s h q) = desc_at j q" "avail_idx (avail_put s h q) = avail_idx q"
    "avail_ring k (avail_put s h q) = (if unat k mod q_size q = s then h else avail_ring k q)"
    "used_idx (avail_put s h q) = used_idx q" "used_id u (avail_put s h q) = used_id u q"
proof -
  note r = regions [OF assms(1)]
  have b: "q_ao q + 4 + s * 2 + 2 \<le> q_uo q" using r(2) assms(2) by linarith
  show "desc_at j (avail_put s h q) = desc_at j q" if "j < q_size q"
    using r(1) [OF that] by (simp add: desc_at_def avail_put_def on_mem_def mem_get_put_apart)
  show "avail_idx (avail_put s h q) = avail_idx q"
    by (simp add: avail_idx_def avail_put_def on_mem_def mem_get_put_apart)
  have "x \<noteq> s \<Longrightarrow> x * 2 + 2 \<le> s * 2 \<or> s * 2 + 2 \<le> x * 2" for x :: nat by linarith
  then show "avail_ring k (avail_put s h q) = (if unat k mod q_size q = s then h else avail_ring k q)"
    by (auto simp: avail_ring_def avail_put_def on_mem_def) (auto intro!: mem_get_put_apart)
  show "used_idx (avail_put s h q) = used_idx q" "used_id u (avail_put s h q) = used_id u q"
    using b by (simp_all add: used_idx_def used_id_def avail_put_def on_mem_def mem_get_put_apart)
qed

lemma view_avail_commit:
  assumes "queue_ok q"
  shows "j < q_size q \<Longrightarrow> desc_at j (avail_commit c q) = desc_at j q" "avail_idx (avail_commit c q) = c"
    "avail_ring k (avail_commit c q) = avail_ring k q"
    "used_idx (avail_commit c q) = used_idx q" "used_id u (avail_commit c q) = used_id u q"
proof -
  note r = regions [OF assms]
  show "desc_at j (avail_commit c q) = desc_at j q" if "j < q_size q"
    using r(1) [OF that] by (simp add: desc_at_def avail_commit_def on_mem_def mem_get_put_apart)
  show "avail_idx (avail_commit c q) = c" by (simp add: avail_idx_def avail_commit_def on_mem_def)
  show "avail_ring k (avail_commit c q) = avail_ring k q"
    by (simp add: avail_ring_def avail_commit_def on_mem_def mem_get_put_apart)
  show "used_idx (avail_commit c q) = used_idx q" "used_id u (avail_commit c q) = used_id u q"
    using r(2) by (simp_all add: used_idx_def used_id_def avail_commit_def on_mem_def mem_get_put_apart)
qed

section \<open>A request as the device sees it\<close>

text \<open>after a block request is published the device finds, at the new position of the available ring, a chain of
  exactly three buffers: the header to read, the sector to read or to fill, and the status byte to write.\<close>

theorem block_request_visible:
  assumes "queue_ok q" "3 \<le> q_size q"
  shows "avail_idx (blk_publish type h b s q) = q_ai q + 1 \<and>
    read_chain (q_size q) (avail_ring (q_ai q) (blk_publish type h b s q)) (blk_publish type h b s q) =
      [\<lparr>d_addr = h, d_len = 16, d_flags = F_NEXT, d_next = 1\<rparr>,
       \<lparr>d_addr = b, d_len = 512, d_flags = (if type = BLK_T_IN then F_WRITE OR F_NEXT else F_NEXT), d_next = 2\<rparr>,
       \<lparr>d_addr = s, d_len = 1, d_flags = F_WRITE, d_next = 0\<rparr>]"
proof -
  let ?q = "blk_publish type h b s q"
  have sl: "unat (q_ai q) mod q_size q < q_size q" using assms(2) by simp
  have d: "desc_at j ?q = (if j = 2 then \<lparr>d_addr = s, d_len = 1, d_flags = F_WRITE, d_next = 0\<rparr>
      else if j = 1 then \<lparr>d_addr = b, d_len = 512, d_flags = (if type = BLK_T_IN then F_WRITE OR F_NEXT else F_NEXT), d_next = 2\<rparr>
      else if j = 0 then \<lparr>d_addr = h, d_len = 16, d_flags = F_NEXT, d_next = 1\<rparr> else desc_at j q)" if "j < q_size q" for j
    using assms that sl by (simp add: blk_publish_def Let_def view_avail_commit view_avail_put desc_at_write)
  have a: "avail_idx ?q = q_ai q + 1" using assms by (simp add: blk_publish_def Let_def view_avail_commit)
  have r: "avail_ring (q_ai q) ?q = 0" using assms sl by (simp add: blk_publish_def Let_def view_avail_commit view_avail_put)
  obtain k where k: "q_size q = Suc (Suc (Suc k))" using assms(2) by (metis Suc_le_D numeral_3_eq_3 Suc_le_mono)
  show ?thesis using a r assms(2) k by (simp add: d F_NEXT_def F_WRITE_def Let_def)
qed

definition demo_queue :: queue where
  "demo_queue = fst (the (queue_init 128 0x10000))"

lemma queue_init_ok: "queue_init n phys = Some (q, pfn) \<Longrightarrow> queue_ok q"
  using unsigned_less [of n, where ?'a = nat] by (auto simp: queue_init_def queue_ok_def Let_def unat_gt_0 split: if_splits)

lemma demo_queue_ok: "queue_ok demo_queue" "q_size demo_queue = 128" "q_ai demo_queue = 0" "q_lu demo_queue = 0"
  by (simp_all add: demo_queue_def queue_init_def queue_ok_def Let_def)

theorem block_request_visible_witness:
  "map d_addr (read_chain 128 (avail_ring 0 (blk_publish BLK_T_IN 10 20 30 demo_queue)) (blk_publish BLK_T_IN 10 20 30 demo_queue)) =
    [10, 20, 30]"
  using block_request_visible [OF demo_queue_ok(1), of BLK_T_IN 10 20 30] demo_queue_ok(2,3) by simp

section \<open>A late completion is taken for the next request\<close>

lemma poll_nothing: "\<forall>p \<in> set obs. fst p = lu \<Longrightarrow> poll_used d obs lu \<noteq> Some True"
  by (induction obs) (auto split: if_splits)

text \<open>C40: when a request times out the driver does not wait for it to finish: the completion the device reports for it
  later ends the wait of the next request at once, although that request has not been served.\<close>

theorem stale_completion_accepted:
  assumes "do_request t1 h1 b1 s1 k1 obs1 st1 q = Some (q1, False)" "\<forall>p \<in> set obs1. fst p = q_lu q"
    and "unat k2 + 18 < 2 ^ 64"
  shows "q_lu q1 = q_lu q \<and>
    (\<exists>q2. do_request t2 h2 b2 s2 k2 ((q_lu q + 1, tick2) # obs2) st2 q1 = Some (q2, st2 = 0) \<and> q_lu q2 = q_lu q + 1 \<and>
      q_ai q2 = q_ai q + 2)"
proof -
  have f: "q_lu (blk_publish t h b s x) = q_lu x" "q_ai (blk_publish t h b s x) = q_ai x + 1" for t h b s x
    by (simp_all add: blk_publish_def Let_def)
  have q1: "q_lu q1 = q_lu q" "q_ai q1 = q_ai q + 1"
    using assms(1) poll_nothing [OF assms(2)] by (auto simp: do_request_def Let_def f Option.bind_eq_Some_conv split: if_splits)
  have "add_chk k2 18 = Some (k2 + 18)" using assms(3) by (simp add: add_chk_def)
  then show ?thesis using q1 by (simp add: do_request_def Let_def f)
qed

theorem stale_completion_accepted_witness:
  "\<exists>q1 q2. do_request BLK_T_IN 10 20 30 0 [(0, 19)] 0xFF demo_queue = Some (q1, False) \<and>
    do_request BLK_T_OUT 40 50 60 20 [(1, 20)] 0xFF q1 = Some (q2, False) \<and> q_lu q2 = 1"
proof -
  obtain q1 where q1: "do_request BLK_T_IN 10 20 30 0 [(0, 19)] 0xFF demo_queue = Some (q1, False)"
    by (simp add: do_request_def blk_publish_def Let_def demo_queue_ok add_chk_def)
  from stale_completion_accepted [OF q1, of 20 BLK_T_OUT 40 50 60 20 "[]" "0xFF"] q1 demo_queue_ok(4)
  show ?thesis by auto
qed

section \<open>Receive buffers\<close>

text \<open>The entries of a ring between two positions, in order; positions are 16 bit and wrap.\<close>

definition win :: "(u16 \<Rightarrow> 'a) \<Rightarrow> u16 \<Rightarrow> u16 \<Rightarrow> 'a list" where
  "win f a b = map (\<lambda>k. f (a + of_nat k)) [0..<unat (b - a)]"

lemma length_win [simp]: "length (win f a b) = unat (b - a)"
  by (simp add: win_def)

lemma win_snoc:
  assumes "unat (b - a) < 65535"
  shows "win f a (b + 1) = win f a b @ [f b]"
proof -
  have "b + 1 - a = (b - a) + 1" by simp
  then have "unat (b + 1 - a) = (unat (b - a) + 1) mod 65536" by (simp only: unat_word_ariths) simp
  then have "unat (b + 1 - a) = Suc (unat (b - a))" using assms by simp
  then show ?thesis by (simp add: win_def)
qed

lemma win_Cons:
  assumes "a \<noteq> b"
  shows "win f a b = f a # win f (a + 1) b"
proof -
  have z: "b - a \<noteq> 0" using assms by simp
  have e: "b - a - 1 = b - (a + 1)" by (simp only: diff_diff_eq)
  have "unat (b - a) = Suc (unat (b - a - 1))" using unat_minus_one [OF z] z unat_gt_0 [of "b - a"] by linarith
  then have n: "unat (b - a) = Suc (unat (b - (a + 1)))" by (simp only: e)
  have u: "[0..<Suc m] = 0 # map Suc [0..<m]" for m by (simp add: upt_conv_Cons map_Suc_upt del: upt_Suc)
  show ?thesis unfolding win_def n u by (simp add: comp_def add.assoc [symmetric])
qed

lemma win_cong: "(\<And>k. k < unat (b - a) \<Longrightarrow> f (a + of_nat k) = g (a + of_nat k)) \<Longrightarrow> win f a b = win g a b"
  by (simp add: win_def)

lemma win_slot:
  fixes a b :: u16
  assumes "N dvd 65536" "unat (b - a) < N" "k < unat (b - a)"
  shows "unat (a + of_nat k) mod N \<noteq> unat b mod N"
proof -
  let ?n = "unat (b - a)"
  have s: "unat (a + of_nat j) mod N = (unat a + j) mod N" for j
  proof -
    have "unat (a + of_nat j) = (unat a + j) mod 65536" by (simp add: unat_word_ariths unat_of_nat mod_simps)
    then show ?thesis using mod_mod_cancel [OF assms(1)] by simp
  qed
  have "b = a + of_nat ?n" by simp
  then have "unat b mod N = (unat a + ?n) mod N" using s [of ?n] by simp
  then show ?thesis using s [of k] mod_window [of "unat a + k" "unat a + ?n" N] assms(2,3) by simp
qed

text \<open>A device that follows the rules takes the next posted buffer, fills it and reports it in the used ring.\<close>

definition used_put :: "u32 \<Rightarrow> u32 \<Rightarrow> queue \<Rightarrow> queue" where
  "used_put ident len q =
     (let slot = unat (used_idx q) mod q_size q in
      on_mem (mem_put (q_uo q + 2) (le2 (used_idx q + 1)) \<circ> mem_put (q_uo q + 4 + slot * 8 + 4) (le4 len) \<circ>
        mem_put (q_uo q + 4 + slot * 8) (le4 ident)) q)"

inductive rx_step :: "u64 \<Rightarrow> virtio_net \<times> u16 \<Rightarrow> virtio_net \<times> u16 \<Rightarrow> bool" for hhdm where
  device: "da \<noteq> avail_idx (rxq n) \<Longrightarrow>
    rx_step hhdm (n, da) (n\<lparr>rxq := used_put (ucast (avail_ring da (rxq n))) len (rxq n), rx_bufs := bufs\<rparr>, da + 1)"
| driver: "try_recv hhdm n = Some (n', r) \<Longrightarrow> rx_step hhdm (n, da) (n', da)"

definition posted :: "u16 \<Rightarrow> queue \<Rightarrow> nat list" where
  "posted da q = win (\<lambda>i. unat (avail_ring i q)) da (q_ai q)"

definition filled :: "queue \<Rightarrow> nat list" where
  "filled q = win (\<lambda>i. unat (used_id (unat i mod q_size q) q)) (q_lu q) (used_idx q)"

definition rx_ok :: "virtio_net \<times> u16 \<Rightarrow> bool" where
  "rx_ok = (\<lambda>(n, da). let q = rxq n in
     queue_ok q \<and> RX_BUF_COUNT \<le> q_size q \<and> q_size q dvd 65536 \<and> avail_idx q = q_ai q \<and>
     mset (posted da q) + mset (filled q) = mset [0..<RX_BUF_COUNT])"

lemma view_used_put:
  assumes "queue_ok q"
  shows "avail_idx (used_put ident len q) = avail_idx q" "avail_ring k (used_put ident len q) = avail_ring k q"
    "used_idx (used_put ident len q) = used_idx q + 1"
    "s < q_size q \<Longrightarrow> used_id s (used_put ident len q) = (if s = unat (used_idx q) mod q_size q then ident else used_id s q)"
    "q_ai (used_put ident len q) = q_ai q" "q_lu (used_put ident len q) = q_lu q" "q_size (used_put ident len q) = q_size q"
    "queue_ok (used_put ident len q)"
proof -
  let ?s = "unat (used_idx q) mod q_size q"
  note r = regions [OF assms]
  have e: "unat k mod q_size q < q_size q" for k :: u16 using r(3) by simp
  have "q_ao q + 4 + unat k mod q_size q * 2 + 2 \<le> q_uo q" using r(2) e [of k] by linarith
  then show "avail_idx (used_put ident len q) = avail_idx q" "avail_ring k (used_put ident len q) = avail_ring k q"
    using r(2) by (simp_all add: avail_idx_def avail_ring_def used_put_def Let_def on_mem_def mem_get_put_apart)
  show "used_idx (used_put ident len q) = used_idx q + 1" by (simp add: used_idx_def used_put_def Let_def on_mem_def)
  have "s * 8 + 8 \<le> ?s * 8 \<or> ?s * 8 + 8 \<le> s * 8" if "s \<noteq> ?s" using that by linarith
  then show "used_id s (used_put ident len q) = (if s = ?s then ident else used_id s q)"
    by (auto simp: used_id_def used_put_def Let_def on_mem_def mem_get_put_apart)
  show "q_ai (used_put ident len q) = q_ai q" "q_lu (used_put ident len q) = q_lu q" "q_size (used_put ident len q) = q_size q"
    "queue_ok (used_put ident len q)"
    using assms by (simp_all add: used_put_def Let_def on_mem_def queue_ok_def)
qed

lemma rx_sizes:
  assumes "rx_ok (n, da)"
  shows "unat (q_ai (rxq n) - da) + unat (used_idx (rxq n) - q_lu (rxq n)) = RX_BUF_COUNT"
proof -
  have "size (mset (posted da (rxq n)) + mset (filled (rxq n))) = size (mset [0..<RX_BUF_COUNT])"
    using assms by (simp only: rx_ok_def prod.case Let_def)
  then show ?thesis by (simp only: size_union size_mset posted_def filled_def length_win length_upt diff_zero)
qed

lemma unat_ucast_16: "unat (ucast (x :: u16) :: u32) = unat x"
proof -
  have "unat x < 2 ^ 16" using unsigned_less [of x, where ?'a = nat] by simp
  then have "unat x < 2 ^ 32" by simp
  then show ?thesis by (simp add: unsigned_ucast_eq take_bit_nat_eq_self)
qed

lemma rx_device:
  assumes "rx_ok (n, da)" "da \<noteq> avail_idx (rxq n)"
  shows "rx_ok (n\<lparr>rxq := used_put (ucast (avail_ring da (rxq n))) len (rxq n), rx_bufs := bufs\<rparr>, da + 1)"
proof -
  let ?q = "rxq n"
  let ?q' = "used_put (ucast (avail_ring da ?q)) len ?q"
  have ok: "queue_ok ?q" "RX_BUF_COUNT \<le> q_size ?q" "q_size ?q dvd 65536" "avail_idx ?q = q_ai ?q"
    "mset (posted da ?q) + mset (filled ?q) = mset [0..<RX_BUF_COUNT]"
    using assms(1) by (simp_all add: rx_ok_def Let_def)
  note v = view_used_put [OF ok(1)]
  have p: "posted da ?q = unat (avail_ring da ?q) # posted (da + 1) ?q"
    using assms(2) ok(4) by (simp add: posted_def win_Cons)
  have p': "posted (da + 1) ?q' = posted (da + 1) ?q" by (simp add: posted_def v)
  have "0 < unat (q_ai ?q - da)" using assms(2) ok(4) by (simp add: unat_gt_0)
  then have n: "unat (used_idx ?q - q_lu ?q) < RX_BUF_COUNT" using rx_sizes [OF assms(1)] by linarith
  have "unat (used_id (unat (q_lu ?q + of_nat k) mod q_size ?q) ?q') = unat (used_id (unat (q_lu ?q + of_nat k) mod q_size ?q) ?q)"
    if "k < unat (used_idx ?q - q_lu ?q)" for k
    using v(4) [of "unat (q_lu ?q + of_nat k) mod q_size ?q"] win_slot [OF ok(3) _ that] n ok(2) regions(3) [OF ok(1)] by simp
  then have "win (\<lambda>i. unat (used_id (unat i mod q_size ?q) ?q')) (q_lu ?q) (used_idx ?q) = filled ?q"
    unfolding filled_def by (rule win_cong)
  then have "filled ?q' = filled ?q @ [unat (avail_ring da ?q)]"
    using n regions(3) [OF ok(1)] by (simp add: filled_def [of ?q'] v win_snoc RX_BUF_COUNT_def unat_ucast_16)
  then show ?thesis using ok p by (simp add: rx_ok_def Let_def v p')
qed

lemma view_post_rx:
  assumes "post_rx virt hhdm i q = Some q'" "queue_ok q" "i < q_size q"
  shows "queue_ok q'" "q_size q' = q_size q" "q_ai q' = q_ai q + 1" "q_lu q' = q_lu q" "avail_idx q' = avail_idx q"
    "avail_ring k q' = (if unat k mod q_size q = unat (q_ai q) mod q_size q then of_nat i else avail_ring k q)"
    "used_idx q' = used_idx q" "used_id s q' = used_id s q"
proof -
  have sl: "unat (q_ai q) mod q_size q < q_size q" using regions(3) [OF assms(2)] by simp
  obtain phys where q': "q' = (avail_put (unat (q_ai q) mod q_size q) (of_nat i)
      (write_desc i phys (of_nat RX_BUF_SIZE) F_WRITE 0 q))\<lparr>q_ai := q_ai q + 1\<rparr>"
    using assms(1) by (auto simp: post_rx_def Let_def Option.bind_eq_Some_conv)
  show "queue_ok q'" "q_size q' = q_size q" "q_ai q' = q_ai q + 1" "q_lu q' = q_lu q" "avail_idx q' = avail_idx q"
    "avail_ring k q' = (if unat k mod q_size q = unat (q_ai q) mod q_size q then of_nat i else avail_ring k q)"
    "used_idx q' = used_idx q" "used_id s q' = used_id s q"
    using assms(2,3) sl by (simp_all add: q' view_avail_put view_write_desc)
qed

text \<open>Posting a buffer appends it to the posted ones, as long as the ring has room.\<close>

lemma posted_post_rx:
  assumes "post_rx virt hhdm i q = Some q'" "queue_ok q" "i < q_size q" "q_size q dvd 65536" "unat (q_ai q - da) < q_size q" "i < 65536"
  shows "posted da q' = posted da q @ [i]" "filled q' = filled q"
proof -
  note v = view_post_rx [OF assms(1-3)]
  have "unat (avail_ring (da + of_nat k) q') = unat (avail_ring (da + of_nat k) q)" if "k < unat (q_ai q - da)" for k
    using v(6) [of "da + of_nat k"] win_slot [OF assms(4,5) that] by simp
  then have "win (\<lambda>i. unat (avail_ring i q')) da (q_ai q) = posted da q" unfolding posted_def by (rule win_cong)
  moreover have "unat (q_ai q - da) < 65535" using assms(2,5) by (simp add: queue_ok_def)
  ultimately show "posted da q' = posted da q @ [i]"
    using assms(6) by (simp add: posted_def [of da q'] v(3) win_snoc v(6) unat_of_nat)
  show "filled q' = filled q" by (simp add: filled_def v)
qed

lemma rx_driver:
  assumes "rx_ok (n, da)" "try_recv hhdm n = Some (n', r)"
  shows "rx_ok (n', da)"
proof (cases "used_idx (rxq n) = q_lu (rxq n)")
  case True
  then show ?thesis using assms by (simp add: try_recv_def Let_def)
next
  case False
  let ?q = "(rxq n)\<lparr>q_lu := q_lu (rxq n) + 1\<rparr>"
  let ?id = "unat (used_id (unat (q_lu (rxq n)) mod q_size (rxq n)) (rxq n))"
  have ok: "queue_ok (rxq n)" "RX_BUF_COUNT \<le> q_size (rxq n)" "q_size (rxq n) dvd 65536" "avail_idx (rxq n) = q_ai (rxq n)"
    "mset (posted da (rxq n)) + mset (filled (rxq n)) = mset [0..<RX_BUF_COUNT]"
    using assms(1) by (simp_all add: rx_ok_def Let_def)
  obtain q where q: "post_rx (rx_virt n) hhdm ?id ?q = Some q" "rxq n' = avail_commit (q_ai q) q"
    using assms(2) False by (auto simp: try_recv_def Let_def Option.bind_eq_Some_conv)
  have f: "filled (rxq n) = ?id # filled ?q" using False by (simp add: filled_def win_Cons)
  have "?id \<in># mset (posted da (rxq n)) + mset (filled (rxq n))" by (simp add: f)
  then have id: "?id < RX_BUF_COUNT" unfolding ok(5) by simp
  then have id': "?id < q_size ?q" "?id < 65536" using ok(2) by (simp_all add: RX_BUF_COUNT_def)
  have "0 < unat (used_idx (rxq n) - q_lu (rxq n))" using False by (simp add: unat_gt_0)
  then have "unat (q_ai (rxq n) - da) < RX_BUF_COUNT" using rx_sizes [OF assms(1)] by linarith
  then have w: "unat (q_ai ?q - da) < q_size ?q" using ok(2) by simp
  have qk: "queue_ok ?q" "q_size ?q dvd 65536" using ok by simp_all
  note p = posted_post_rx [OF q(1) qk(1) id'(1) qk(2) w id'(2)] and v = view_post_rx [OF q(1) qk(1) id'(1)]
  have c: "posted da (avail_commit k q) = posted da q" "filled (avail_commit k q) = filled q" for k
    by (simp_all add: posted_def filled_def view_avail_commit v(1))
  have "posted da ?q = posted da (rxq n)" by (simp add: posted_def)
  then have "mset (posted da q) + mset (filled q) = mset [0..<RX_BUF_COUNT]" using ok(5) f p by simp
  then show ?thesis using ok v by (simp add: rx_ok_def Let_def q(2) c view_avail_commit)
qed

lemma posted_loop:
  assumes "post_rx_loop virt hhdm is q = Some q'" "queue_ok q" "q_size q dvd 65536" "set is \<subseteq> {..<q_size q}"
    "unat (q_ai q - da) + length is \<le> q_size q" "q_size q < 65536"
  shows "queue_ok q' \<and> q_size q' = q_size q \<and> posted da q' = posted da q @ is \<and> filled q' = filled q"
  using assms
proof (induction "is" arbitrary: q)
  case (Cons i "is")
  obtain q1 where q1: "post_rx virt hhdm i q = Some q1" "post_rx_loop virt hhdm is q1 = Some q'"
    using Cons.prems(1) by (auto simp: Option.bind_eq_Some_conv)
  have i: "i < q_size q" "i < 65536" "unat (q_ai q - da) < q_size q" using Cons.prems by auto
  note v = view_post_rx [OF q1(1) Cons.prems(2) i(1)] and p = posted_post_rx [OF q1(1) Cons.prems(2) i(1) Cons.prems(3) i(3,2)]
  have "unat (q_ai q1 - da) = Suc (unat (q_ai q - da))" using arg_cong [OF p(1), of length] by (simp add: posted_def)
  then show ?case using Cons.IH [OF q1(2)] Cons.prems v(1,2) p by simp
qed simp


definition demo_net :: virtio_net where
  "demo_net = \<lparr>rxq = demo_queue, txq = demo_queue, rx_bufs = (\<lambda>_. 0), rx_virt = 0x100000, rx_posted = 0\<rparr>"

lemma post_rx_total:
  assumes "set is \<subseteq> {..<RX_BUF_COUNT}"
  shows "\<exists>q'. post_rx_loop 0x100000 0 is q = Some q'"
  using assms
proof (induction "is" arbitrary: q)
  case (Cons i "is")
  have "i * RX_BUF_SIZE < 2 ^ 32" using Cons.prems by (simp add: RX_BUF_COUNT_def RX_BUF_SIZE_def NET_HDR_LEN_def)
  then have "unat (of_nat (i * RX_BUF_SIZE) :: u64) = i * RX_BUF_SIZE" by (simp add: unat_of_nat del: of_nat_mult)
  then have "add_chk 0x100000 (of_nat (i * RX_BUF_SIZE) :: u64) = Some (0x100000 + of_nat (i * RX_BUF_SIZE))"
    using \<open>i * RX_BUF_SIZE < 2 ^ 32\<close> by (simp add: add_chk_def del: of_nat_mult)
  then obtain q1 where "post_rx 0x100000 0 i q = Some q1" by (simp add: post_rx_def sub_chk_def Let_def del: of_nat_mult)
  then show ?case using Cons.IH [of q1] Cons.prems by simp
qed simp


section \<open>The driver's ARP helpers\<close>

definition build_arp_request :: "bytes \<Rightarrow> bytes \<Rightarrow> bytes \<Rightarrow> bytes" where
  "build_arp_request src_mac src_ip dst_ip =
     replicate 6 0xFF @ src_mac @ [0x08, 0x06] @ [0x00, 0x01, 0x08, 0x00, 0x06, 0x04, 0x00, 0x01] @ src_mac @ src_ip @
     replicate 6 0 @ dst_ip"

definition frame_ethertype :: "bytes \<Rightarrow> u16" where
  "frame_ethertype f = (if length f < 14 then 0 else push_bit 8 (ucast (f ! 12)) OR ucast (f ! 13))"

definition parse_arp_reply :: "bytes \<Rightarrow> (bytes \<times> bytes) option" where
  "parse_arp_reply f =
     (if length f < 42 then None
      else if frame_ethertype f \<noteq> 0x0806 then None
      else if push_bit 8 (ucast (f ! 20)) OR ucast (f ! 21) \<noteq> (2 :: u16) then None
      else Some (take 6 (drop 22 f), take 4 (drop 28 f)))"

text \<open>A request is not taken for a reply; the same frame with the operation of a reply gives the sender's addresses.\<close>

lemma arp_reply_parsed:
  assumes "length mac = 6" "length ip = 4" "length dst = 4"
  shows "parse_arp_reply (build_arp_request mac ip dst) = None"
    "parse_arp_reply ((build_arp_request mac ip dst)[21 := 2]) = Some (mac, ip)"
proof -
  have l: "length (build_arp_request mac ip dst) = 42" using assms by (simp add: build_arp_request_def)
  have n: "build_arp_request mac ip dst ! 12 = 8" "build_arp_request mac ip dst ! 13 = 6"
    "build_arp_request mac ip dst ! 20 = 0" "build_arp_request mac ip dst ! 21 = 1"
    using assms by (simp_all add: build_arp_request_def nth_append)
  have d: "take 6 (drop 22 (build_arp_request mac ip dst)) = mac" "take 4 (drop 28 (build_arp_request mac ip dst)) = ip"
    using assms by (simp_all add: build_arp_request_def)
  show "parse_arp_reply (build_arp_request mac ip dst) = None" using l n by (simp add: parse_arp_reply_def)
  show "parse_arp_reply ((build_arp_request mac ip dst)[21 := 2]) = Some (mac, ip)"
    using l n d by (simp add: parse_arp_reply_def frame_ethertype_def drop_update_cancel)
qed

end
