(* ===== verification/Packages.thy ===== *)
theory Packages
  imports Fs_Calls
begin

text \<open>
  The packages built into the kernel (\<open>pkg.rs\<close>) and the calls that list, describe, install and remove them
  (\<open>sys_pkg_*\<close> of \<open>syscall/mod.rs\<close>). The programs themselves are files of the build, so the contents of each package are
  a parameter. Text goes to a user buffer in chunks that are cut off at its end.
\<close>

section \<open>The registry\<close>

record package =
  pkg_name :: string
  pkg_version :: string
  pkg_desc :: string
  pkg_deps :: "string list"
  pkg_elf :: bytes

definition PACKAGES :: "(string \<Rightarrow> bytes) \<Rightarrow> package list" where
  "PACKAGES build = map (\<lambda>(n, v, d, f). \<lparr>pkg_name = n, pkg_version = v, pkg_desc = d, pkg_deps = [], pkg_elf = build f\<rparr>)
     [(''sysinfo'', ''0.1.0'', ''Display system information'', ''sysinfo.elf''),
      (''muecho'', ''0.1.0'', ''Echo arguments to stdout'', ''muecho.elf''),
      (''mucat'', ''0.1.0'', ''Read and print a file from ext4'', ''mucat.elf''),
      (''muls'', ''0.1.0'', ''List directory entries (ls)'', ''muls.elf''),
      (''mupwd'', ''0.1.0'', ''Print working directory (pwd)'', ''mupwd.elf''),
      (''hello'', ''1.0.0'', ''musl-static hello world (BETA 2-1 compat test)'', ''musl_hello.elf''),
      (''uname'', ''1.0.0'', ''musl-static uname test (syscall 63)'', ''musl_uname.elf''),
      (''hello_dyn'', ''1.0.0'', ''musl-linked dynamic hello (BETA 21 dynlink test)'', ''dyn_hello.elf'')]"

record pkg_state =
  PKG_INSTALL_STATE :: u64
  PKG_ARGS_BUF :: bytes
  PKG_ARGS_LEN :: nat

definition pkg_boot :: pkg_state where
  "pkg_boot = \<lparr>PKG_INSTALL_STATE = 0, PKG_ARGS_BUF = replicate 512 0, PKG_ARGS_LEN = 0\<rparr>"

definition pkg_find :: "string \<Rightarrow> package list \<Rightarrow> nat option" where
  "pkg_find name ps = find_idx (\<lambda>p. pkg_name p = name) ps"

definition pkg_install :: "nat \<Rightarrow> pkg_state \<Rightarrow> pkg_state" where
  "pkg_install idx s = (if idx < 64 then s\<lparr>PKG_INSTALL_STATE := PKG_INSTALL_STATE s OR push_bit idx 1\<rparr> else s)"

definition pkg_remove :: "nat \<Rightarrow> pkg_state \<Rightarrow> pkg_state" where
  "pkg_remove idx s = (if idx < 64 then s\<lparr>PKG_INSTALL_STATE := PKG_INSTALL_STATE s AND NOT (push_bit idx 1)\<rparr> else s)"

definition is_installed :: "nat \<Rightarrow> pkg_state \<Rightarrow> bool" where
  "is_installed idx s \<longleftrightarrow> idx < 64 \<and> PKG_INSTALL_STATE s AND push_bit idx 1 \<noteq> 0"

definition set_args :: "bytes \<Rightarrow> pkg_state \<Rightarrow> pkg_state" where
  "set_args args s =
     (let len = min (length args) 511
      in s\<lparr>PKG_ARGS_BUF := take len args @ [0] @ drop (len + 1) (PKG_ARGS_BUF s), PKG_ARGS_LEN := len\<rparr>)"

definition get_args :: "pkg_state \<Rightarrow> bytes" where
  "get_args s = take (PKG_ARGS_LEN s) (PKG_ARGS_BUF s)"

section \<open>Text for a user buffer\<close>

text \<open>The copying loops: what has been written so far, and the next chunk cut to the room that is left. A chunk of which
  nothing fits, or an empty one, ends the loop.\<close>

fun write_chunks :: "nat \<Rightarrow> bytes list \<Rightarrow> bytes \<Rightarrow> bytes" where
  "write_chunks room [] out = out"
| "write_chunks room (c # cs) out =
     (let copy = min (length c) (room - length out) in
      if copy = 0 then out else write_chunks room cs (out @ take copy c))"

definition pkg_line :: "bool \<Rightarrow> package \<Rightarrow> bytes list" where
  "pkg_line installed p = [as_bytes (if installed then ''[*] '' else ''[ ] ''), as_bytes (pkg_name p), as_bytes '' '', as_bytes (pkg_version p),
     as_bytes '' - '', as_bytes (pkg_desc p), [0x0A]]"

fun list_loop :: "nat \<Rightarrow> bytes list list \<Rightarrow> bytes \<Rightarrow> bytes" where
  "list_loop room [] out = out"
| "list_loop room (l # ls) out =
     (let out = write_chunks room l out in if length out \<ge> room then out else list_loop room ls out)"

definition pkg_listing :: "package list \<Rightarrow> pkg_state \<Rightarrow> bytes list list" where
  "pkg_listing ps s = map (\<lambda>i. pkg_line (is_installed i s) (ps ! i)) [0..<length ps]"

definition sys_pkg_list :: "package list \<Rightarrow> u64 \<Rightarrow> u64 \<Rightarrow> pkg_state \<Rightarrow> umem \<Rightarrow> umem \<times> int" where
  "sys_pkg_list ps buf len s m =
     (let out = list_loop (unat len) (pkg_listing ps s) [] in (poke buf out m, int (length out)))"

definition sys_pkg_getargs :: "u64 \<Rightarrow> u64 \<Rightarrow> pkg_state \<Rightarrow> umem \<Rightarrow> umem \<times> int" where
  "sys_pkg_getargs buf len s m =
     (let out = take (unat len) (get_args s) in (poke buf out m, int (length out)))"

text \<open>\<open>fmt_u64\<close>: digits are produced from the last one and copied in reverse.\<close>

fun fmt_digits :: "nat \<Rightarrow> bytes" where
  "fmt_digits n = (if n = 0 then [] else (0x30 + of_nat (n mod 10)) # fmt_digits (n div 10))"

declare fmt_digits.simps [simp del]

definition fmt_u64 :: "u64 \<Rightarrow> bytes" where
  "fmt_u64 n = (if n = 0 then [0x30] else rev (fmt_digits (unat n)))"

definition dep_lines :: "string list \<Rightarrow> bytes list list" where
  "dep_lines ds =
     (if ds = [] then [[as_bytes ''Deps:    (none)'' @ [0x0A]]]
      else map (\<lambda>i. [as_bytes (if i = 0 then ''Deps:    '' else ''         ''), as_bytes (ds ! i), [0x0A]]) [0..<length ds])"

definition pkg_info :: "package \<Rightarrow> bool \<Rightarrow> bytes list list" where
  "pkg_info p installed =
     [[as_bytes ''Name:    '', as_bytes (pkg_name p), [0x0A]], [as_bytes ''Version: '', as_bytes (pkg_version p), [0x0A]],
      [as_bytes ''Desc:    '', as_bytes (pkg_desc p), [0x0A]],
      [as_bytes ''Size:    '', fmt_u64 (of_nat (length (pkg_elf p))), as_bytes '' bytes'' @ [0x0A]]] @ dep_lines (pkg_deps p) @
     [[as_bytes ''Status:  '', as_bytes (if installed then ''installed'' else ''not installed''), [0x0A]]]"

text \<open>Here a line that is cut off does not end the call: the next one finds no room.\<close>

definition sys_pkg_info :: "package list \<Rightarrow> u64 \<Rightarrow> u64 \<Rightarrow> u64 \<Rightarrow> pkg_state \<Rightarrow> umem \<Rightarrow> umem \<times> int" where
  "sys_pkg_info ps name buf len s m =
     (case read_cstr m name of
        None \<Rightarrow> (m, EINVAL)
      | Some n \<Rightarrow> (case pkg_find n ps of
            None \<Rightarrow> (m, ENOENT)
          | Some i \<Rightarrow> let out = fold (write_chunks (unat len)) (pkg_info (ps ! i) (is_installed i s)) []
                       in (poke buf out m, int (length out))))"

definition sys_pkg_install :: "package list \<Rightarrow> u64 \<Rightarrow> umem \<Rightarrow> pkg_state \<Rightarrow> pkg_state \<times> int" where
  "sys_pkg_install ps name m s =
     (case read_cstr m name of
        None \<Rightarrow> (s, EINVAL)
      | Some n \<Rightarrow> (case pkg_find n ps of
            None \<Rightarrow> (s, ENOENT)
          | Some i \<Rightarrow>
              (pkg_install i (fold (\<lambda>d s. case pkg_find d ps of None \<Rightarrow> s | Some j \<Rightarrow> pkg_install j s) (pkg_deps (ps ! i)) s), 0)))"

definition sys_pkg_remove :: "package list \<Rightarrow> u64 \<Rightarrow> umem \<Rightarrow> pkg_state \<Rightarrow> pkg_state \<times> int" where
  "sys_pkg_remove ps name m s =
     (case read_cstr m name of
        None \<Rightarrow> (s, EINVAL)
      | Some n \<Rightarrow> (case pkg_find n ps of None \<Rightarrow> (s, ENOENT) | Some i \<Rightarrow> (pkg_remove i s, 0)))"

definition sys_pkg_installed :: "package list \<Rightarrow> u64 \<Rightarrow> u64 \<Rightarrow> pkg_state \<Rightarrow> umem \<Rightarrow> umem \<times> int" where
  "sys_pkg_installed ps buf len s m =
     (let found = filter (\<lambda>i. is_installed i s) [0..<length ps];
          out = (if found = [] then take (unat len) (as_bytes ''(no packages installed)'' @ [0x0A])
                 else list_loop (unat len) (map (\<lambda>i. pkg_line True (ps ! i)) found) [])
      in (poke buf out m, int (length out)))"

definition sys_ext4_read :: "(string \<Rightarrow> bytes option) \<Rightarrow> u64 \<Rightarrow> u64 \<Rightarrow> u64 \<Rightarrow> umem \<Rightarrow> umem \<times> int" where
  "sys_ext4_read ext4 path buf len m =
     (case read_cstr m path of
        None \<Rightarrow> (m, EINVAL)
      | Some p \<Rightarrow> (case ext4 p of
            None \<Rightarrow> (m, ENOENT)
          | Some d \<Rightarrow> let out = take (unat len) d in (poke buf out m, int (length out))))"

section \<open>Cut-off text is a prefix\<close>

lemma write_chunks_prefix:
  assumes "\<forall>c \<in> set cs. c \<noteq> []" "length out \<le> room"
  shows "write_chunks room cs out = take room (out @ concat cs)"
  using assms
proof (induction cs arbitrary: out)
  case (Cons c cs)
  show ?case
  proof (cases "length out = room")
    case False
    then have "room - length out > 0" "length c > 0" using Cons.prems by auto
    then show ?thesis using Cons.IH [of "out @ take (min (length c) (room - length out)) c"] Cons.prems
      by (cases "length c \<le> room - length out") (auto simp: Let_def min_def)
  qed (use Cons.prems in simp)
qed simp

lemma list_loop_prefix:
  assumes "\<forall>l \<in> set ls. \<forall>c \<in> set l. c \<noteq> []" "length out \<le> room"
  shows "list_loop room ls out = take room (out @ concat (concat ls))"
  using assms
proof (induction ls arbitrary: out)
  case (Cons l ls)
  let ?out = "take room (out @ concat l)"
  have w: "write_chunks room l out = ?out" using Cons.prems by (intro write_chunks_prefix) auto
  show ?case
  proof (cases "length ?out \<ge> room")
    case True
    then have "room \<le> length (out @ concat l)" by simp
    then show ?thesis using True by (simp add: w Let_def)
  next
    case False
    then have "?out = out @ concat l" by simp
    then show ?thesis using False Cons.IH [of ?out] Cons.prems by (simp add: w Let_def)
  qed
qed simp

lemma take_take_append: "take n (take n xs @ ys) = take n (xs @ ys)"
  by (cases "length xs \<le> n") simp_all

lemma info_prefix:
  assumes "\<forall>l \<in> set ls. \<forall>c \<in> set l. c \<noteq> []" "length out \<le> room"
  shows "fold (write_chunks room) ls out = take room (out @ concat (concat ls))"
  using assms
proof (induction ls arbitrary: out)
  case (Cons l ls)
  let ?out = "take room (out @ concat l)"
  have w: "write_chunks room l out = ?out" using Cons.prems by (intro write_chunks_prefix) auto
  have "fold (write_chunks room) ls ?out = take room (?out @ concat (concat ls))"
    by (rule Cons.IH) (use Cons.prems in auto)
  also have "\<dots> = take room (out @ concat (concat (l # ls)))" by (simp only: take_take_append) simp
  finally show ?case by (simp only: fold_simps w)
qed simp

section \<open>Installing and listing\<close>

lemma installed_bit: "is_installed i s \<longleftrightarrow> bit (PKG_INSTALL_STATE s) i"
proof -
  have "PKG_INSTALL_STATE s AND push_bit i 1 \<noteq> 0 \<longleftrightarrow> bit (PKG_INSTALL_STATE s) i" if "i < 64"
    using that by (auto simp: bit_eq_iff [where ?'a = u64] bit_simps)
  then show ?thesis using bit_imp_le_length [of "PKG_INSTALL_STATE s" i] by (auto simp: is_installed_def)
qed

lemma installed_install [simp]: "is_installed i (pkg_install j s) \<longleftrightarrow> is_installed i s \<or> i = j \<and> j < 64"
  by (auto simp: installed_bit pkg_install_def bit_simps)

lemma installed_remove [simp]: "is_installed i (pkg_remove j s) \<longleftrightarrow> is_installed i s \<and> i \<noteq> j"
  using bit_imp_le_length [of "PKG_INSTALL_STATE s" i] by (auto simp: installed_bit pkg_remove_def bit_simps)

definition named :: "package \<Rightarrow> bool" where "named p \<longleftrightarrow> pkg_name p \<noteq> [] \<and> pkg_version p \<noteq> [] \<and> pkg_desc p \<noteq> []"

text \<open>The text of the installed packages of a registry, in its order.\<close>

definition installed_text :: "package list \<Rightarrow> pkg_state \<Rightarrow> bytes" where
  "installed_text ps s = concat (map (\<lambda>i. concat (pkg_line True (ps ! i))) (filter (\<lambda>i. is_installed i s) [0..<length ps]))"

lemma pkg_line_chunks: "named p \<Longrightarrow> [] \<notin> set (pkg_line b p)"
  by (auto simp: pkg_line_def named_def as_bytes_def split: if_splits)

lemma concat_concat_map: "concat (concat (map f xs)) = concat (map (\<lambda>x. concat (f x)) xs)"
  by (induction xs) simp_all

text \<open>Installing a package and asking for the installed ones gives a text in the user buffer that is the listing of
  exactly the packages installed now, the new one among them, cut off at the end of the buffer.\<close>

theorem installed_packages_listed:
  assumes "sys_pkg_install ps name m s = (s', 0)" "read_cstr m name = Some n" "pkg_find n ps = Some i"
    and "\<forall>p \<in> set ps. named p \<and> pkg_deps p = []" "length ps \<le> 64"
  shows "(\<forall>j. is_installed j s' \<longleftrightarrow> is_installed j s \<or> j = i) \<and>
    (let (m', r) = sys_pkg_installed ps buf len s' m in
       r = int (min (unat len) (length (installed_text ps s'))) \<and>
       peek m' buf (nat r) = take (unat len) (installed_text ps s'))"
proof -
  have i: "i < length ps" using find_idx_SomeD(1) [OF assms(3) [unfolded pkg_find_def]] .
  then have s': "s' = pkg_install i s" using assms(1-4) by (auto simp: sys_pkg_install_def)
  have inst: "is_installed j s' \<longleftrightarrow> is_installed j s \<or> j = i" for j using i assms(5) by (auto simp: s')
  let ?found = "filter (\<lambda>i. is_installed i s') [0..<length ps]"
  have "i \<in> set ?found" using i inst by simp
  then have ne: "?found \<noteq> []" by (metis empty_iff list.set(1))
  have "list_loop (unat len) (map (\<lambda>i. pkg_line True (ps ! i)) ?found) [] = take (unat len) (installed_text ps s')"
    by (subst list_loop_prefix) (use assms(4) pkg_line_chunks in \<open>auto simp: installed_text_def concat_concat_map\<close>)
  then have out: "sys_pkg_installed ps buf len s' m =
      (poke buf (take (unat len) (installed_text ps s')) m, int (length (take (unat len) (installed_text ps s'))))"
    using ne by (simp add: sys_pkg_installed_def Let_def)
  have "length (take (unat len) (installed_text ps s')) \<le> 2 ^ 64" using unsigned_less [of len, where ?'a = nat] by simp
  then have "peek (poke buf (take (unat len) (installed_text ps s')) m) buf (length (take (unat len) (installed_text ps s'))) =
      take (unat len) (installed_text ps s')" by (rule peek_poke_same)
  then show ?thesis using inst out by (simp add: min.commute)
qed

definition demo_registry :: "package list" where "demo_registry = PACKAGES (\<lambda>_. [])"

definition demo_name :: umem where "demo_name = poke 4096 (as_bytes ''muls'') (\<lambda>_. 0)"

theorem installed_packages_listed_witness:
  "let (m', r) = sys_pkg_installed demo_registry 8192 10 (fst (sys_pkg_install demo_registry 4096 demo_name pkg_boot)) demo_name
   in r = 10 \<and> peek m' 8192 10 = as_bytes ''[*] muls 0''"
proof -
  let ?s = "pkg_install 3 pkg_boot"
  have n: "read_cstr demo_name 4096 = Some ''muls''" by code_simp
  have f: "pkg_find ''muls'' demo_registry = Some 3" by code_simp
  have l: "length demo_registry \<le> 64" by code_simp
  have w: "\<forall>p \<in> set demo_registry. named p \<and> pkg_deps p = []" by (simp add: demo_registry_def PACKAGES_def named_def)
  have i: "sys_pkg_install demo_registry 4096 demo_name pkg_boot = (?s, 0)"
    using f by (simp add: sys_pkg_install_def n demo_registry_def PACKAGES_def)
  have t: "take 10 (installed_text demo_registry ?s) = as_bytes ''[*] muls 0''" by code_simp
  then have "length (installed_text demo_registry ?s) \<ge> 10" by (auto dest: arg_cong [where f = length])
  then show ?thesis using installed_packages_listed [OF i n f w l, of 8192 10] t i by (auto simp: min_def split: prod.splits)
qed

section \<open>Numbers in decimal\<close>

definition digits_value :: "bytes \<Rightarrow> nat" where
  "digits_value ds = foldl (\<lambda>v d. v * 10 + (unat d - 0x30)) 0 ds"

lemma fmt_digits_value: "digits_value (rev (fmt_digits n)) = n"
proof (induction n rule: fmt_digits.induct)
  case (1 n)
  have "unat (0x30 + of_nat (n mod 10) :: u8) - 0x30 = n mod 10"
    by (simp add: unat_word_ariths unat_of_nat)
  then show ?case using 1 by (subst fmt_digits.simps) (simp add: digits_value_def)
qed

lemma fmt_digits_digit: "d \<in> set (fmt_digits n) \<Longrightarrow> 0x30 \<le> d \<and> d \<le> 0x39"
proof (induction n rule: fmt_digits.induct)
  case (1 n)
  have "unat (0x30 + of_nat (n mod 10) :: u8) = 0x30 + n mod 10" by (simp add: unat_word_ariths unat_of_nat)
  then have "0x30 \<le> (0x30 + of_nat (n mod 10) :: u8) \<and> (0x30 + of_nat (n mod 10) :: u8) \<le> 0x39"
    by (simp add: word_le_nat_alt)
  then show ?case using 1 by (subst (asm) (2) fmt_digits.simps) (auto split: if_splits)
qed

text \<open>\<open>fmt_u64\<close> writes digits only, and they read back as the number.\<close>

theorem fmt_u64_round_trip: "digits_value (fmt_u64 n) = unat n \<and> set (fmt_u64 n) \<subseteq> {0x30..0x39}"
  using fmt_digits_value [of "unat n"] fmt_digits_digit [of _ "unat n"]
  by (auto simp: fmt_u64_def digits_value_def)

section \<open>Arguments\<close>

text \<open>What a program reads as its arguments is what the caller set, up to 511 bytes.\<close>

lemma args_round_trip:
  assumes "length (PKG_ARGS_BUF s) = 512"
  shows "get_args (set_args args s) = take 511 args" "length (PKG_ARGS_BUF (set_args args s)) = 512"
  using assms by (auto simp: get_args_def set_args_def Let_def min_def)

end
