(* ===== verification/Info_Calls.thy ===== *)
theory Info_Calls
  imports Packages Pipe Elf
begin

text \<open>
  The small calls: sockets (\<open>syscall/sock.rs\<close>, which answers without a network), time and limits
  (\<open>syscall/sysinfo.rs\<close>), \<open>uname\<close>, \<open>nanosleep\<close> and \<open>poll\<close> (\<open>syscall/proc.rs\<close>).

  As for \<open>select\<close>, a list of snapshots of keyboard and pipe stands for what the waiting loop of \<open>poll\<close> finds each
  time it is woken; \<open>None\<close> means that it is still waiting after the last one, or that an address overflowed, which panics.
\<close>

section \<open>Sockets\<close>

definition EAFNOSUPPORT :: int where "EAFNOSUPPORT = - 97"
definition EPROTONOSUPPORT :: int where "EPROTONOSUPPORT = - 93"
definition ECONNREFUSED :: int where "ECONNREFUSED = - 111"
definition ENOTCONN :: int where "ENOTCONN = - 107"
definition EOPNOTSUPP :: int where "EOPNOTSUPP = - 95"

definition SOCK_NEXT_FD_init :: u32 where "SOCK_NEXT_FD_init = 20"

definition is_sock_fd :: "u32 \<Rightarrow> bool" where "is_sock_fd fd \<longleftrightarrow> sint fd \<ge> 20"

definition sys_socket :: "u64 \<Rightarrow> u64 \<Rightarrow> u64 \<Rightarrow> u32 \<Rightarrow> u32 \<times> int" where
  "sys_socket domain sock_type protocol next =
     (if domain \<notin> {1, 2, 10} then (next, EAFNOSUPPORT)
      else if sock_type AND NOT 0x800 \<notin> {1, 2, 3} then (next, EPROTONOSUPPORT)
      else (next + 1, sint next))"

definition sys_connect :: "u64 \<Rightarrow> u64 \<Rightarrow> u64 \<Rightarrow> int" where "sys_connect sockfd addr addrlen = ECONNREFUSED"
definition sys_accept :: "u64 \<Rightarrow> u64 \<Rightarrow> u64 \<Rightarrow> int" where "sys_accept sockfd addr addrlen = EOPNOTSUPP"
definition sys_bind :: "u64 \<Rightarrow> u64 \<Rightarrow> u64 \<Rightarrow> int" where "sys_bind sockfd addr addrlen = 0"
definition sys_listen :: "u64 \<Rightarrow> u64 \<Rightarrow> int" where "sys_listen sockfd backlog = 0"
definition sys_getpeername :: "u64 \<Rightarrow> u64 \<Rightarrow> u64 \<Rightarrow> int" where "sys_getpeername sockfd addr addrlen = ENOTCONN"
definition sys_shutdown :: "u64 \<Rightarrow> u64 \<Rightarrow> int" where "sys_shutdown sockfd how = 0"
definition sys_sendto :: "u64 \<Rightarrow> u64 \<Rightarrow> u64 \<Rightarrow> u64 \<Rightarrow> u64 \<Rightarrow> u64 \<Rightarrow> int" where
  "sys_sendto sockfd buf len flags addr addrlen = ENOTCONN"
definition sys_recvfrom :: "u64 \<Rightarrow> u64 \<Rightarrow> u64 \<Rightarrow> u64 \<Rightarrow> u64 \<Rightarrow> u64 \<Rightarrow> int" where
  "sys_recvfrom sockfd buf len flags addr addrlen = ENOTCONN"
definition sys_sendmsg :: "u64 \<Rightarrow> u64 \<Rightarrow> u64 \<Rightarrow> int" where "sys_sendmsg sockfd msg flags = ENOTCONN"
definition sys_recvmsg :: "u64 \<Rightarrow> u64 \<Rightarrow> u64 \<Rightarrow> int" where "sys_recvmsg sockfd msg flags = ENOTCONN"
definition sys_setsockopt :: "u64 \<Rightarrow> u64 \<Rightarrow> u64 \<Rightarrow> u64 \<Rightarrow> u64 \<Rightarrow> int" where
  "sys_setsockopt sockfd level optname optval optlen = 0"

text \<open>The address or option value the caller asks for is cleared, at most 128 bytes of it.\<close>

definition zero_answer :: "u64 \<Rightarrow> u64 \<Rightarrow> umem \<Rightarrow> umem" where
  "zero_answer buf len m = (if buf \<noteq> 0 \<and> len \<noteq> 0 then poke buf (replicate (min (unat (rd32 m len)) 128) 0) m else m)"

definition sys_getsockname :: "u64 \<Rightarrow> u64 \<Rightarrow> u64 \<Rightarrow> umem \<Rightarrow> umem \<times> int" where
  "sys_getsockname sockfd addr addrlen m = (zero_answer addr addrlen m, 0)"

definition sys_getsockopt :: "u64 \<Rightarrow> u64 \<Rightarrow> u64 \<Rightarrow> u64 \<Rightarrow> u64 \<Rightarrow> umem \<Rightarrow> umem \<times> int" where
  "sys_getsockopt sockfd level optname optval optlen m = (zero_answer optval optlen m, 0)"

section \<open>Time and limits\<close>

definition RLIM_INFINITY :: u64 where "RLIM_INFINITY = - 1"

definition uptime_ms :: u64 where "uptime_ms = 0"

definition sys_gettimeofday :: "u64 \<Rightarrow> u64 \<Rightarrow> umem \<Rightarrow> umem \<times> int" where
  "sys_gettimeofday tv tz m =
     (if tv \<noteq> 0 then (wr64 (tv + 8) (uptime_ms mod 1000 * 1000) (wr64 tv (uptime_ms div 1000) m), 0) else (m, 0))"

definition sys_getrlimit :: "u64 \<Rightarrow> u64 \<Rightarrow> umem \<Rightarrow> umem \<times> int" where
  "sys_getrlimit resource rlim m =
     (if rlim \<noteq> 0 then (wr64 (rlim + 8) RLIM_INFINITY (wr64 rlim RLIM_INFINITY m), 0) else (m, 0))"

record sys_info =
  uptime :: u64
  loads :: "u64 list"
  totalram :: u64
  freeram :: u64
  sharedram :: u64
  bufferram :: u64
  totalswap :: u64
  freeswap :: u64
  procs :: u16
  totalhigh :: u64
  freehigh :: u64
  mem_unit :: u32

text \<open>The structure as \<open>repr(C)\<close> lays it out: \<open>mem_unit\<close> and the 20 bytes after it end on a multiple of eight.\<close>

definition sys_info_bytes :: "sys_info \<Rightarrow> bytes" where
  "sys_info_bytes s = to_le_bytes (uptime s) @ concat (map to_le_bytes (loads s)) @ to_le_bytes (totalram s) @
     to_le_bytes (freeram s) @ to_le_bytes (sharedram s) @ to_le_bytes (bufferram s) @ to_le_bytes (totalswap s) @
     to_le_bytes (freeswap s) @ le2 (procs s) @ replicate 6 0 @ to_le_bytes (totalhigh s) @ to_le_bytes (freehigh s) @
     le4 (mem_unit s) @ replicate 20 0"

definition sys_sysinfo :: "u64 \<Rightarrow> umem \<Rightarrow> umem \<times> int" where
  "sys_sysinfo info m =
     (poke info (sys_info_bytes \<lparr>uptime = uptime_ms div 1000, loads = [0, 0, 0], totalram = 256 * 1024 * 1024,
        freeram = 128 * 1024 * 1024, sharedram = 0, bufferram = 0, totalswap = 0, freeswap = 0, procs = 1, totalhigh = 0,
        freehigh = 0, mem_unit = 1\<rparr>) m, 0)"

definition sys_clock_gettime :: "u64 \<Rightarrow> u64 \<Rightarrow> umem \<Rightarrow> umem \<times> int" where
  "sys_clock_gettime clockid tp m =
     (if tp = 0 then (m, EFAULT)
      else if clockid \<notin> {0, 1, 2, 3, 4, 6, 7} then (m, EINVAL)
      else (wr64 (tp + 8) (uptime_ms mod 1000 * 1000000) (wr64 tp (uptime_ms div 1000) m), 0))"

definition sys_clock_getres :: "u64 \<Rightarrow> u64 \<Rightarrow> umem \<Rightarrow> umem \<times> int" where
  "sys_clock_getres clockid tp m = (if tp \<noteq> 0 then (wr64 (tp + 8) 10000000 (wr64 tp 0 m), 0) else (m, 0))"

section \<open>\<open>uname\<close> and \<open>nanosleep\<close>\<close>

definition copy_str :: "bytes \<Rightarrow> bytes \<Rightarrow> bytes" where
  "copy_str dst src =
     (let n = min (length src) (length dst - 1); dst = take n src @ drop n dst in if n < length dst then dst[n := 0] else dst)"

definition sys_uname :: "nat \<Rightarrow> u64 \<Rightarrow> umem \<Rightarrow> umem \<times> int" where
  "sys_uname cpus buf m =
     (poke buf (concat (map (copy_str (replicate 65 0) \<circ> as_bytes)
        [''MuKernel'', ''mukernel'', ''0.1.0-BETA5'', ''#1 SMP MuKernel 2026 ('' @ decimal cpus @ '' core(s))'', ''x86_64'',
         ''(none)''])) m, 0)"

text \<open>The result and the number of \<open>pause\<close> instructions executed.\<close>

definition sys_nanosleep :: "u64 \<Rightarrow> u64 \<Rightarrow> umem \<Rightarrow> (int \<times> nat) option" where
  "sys_nanosleep req rem m =
     (if req = 0 then Some (EFAULT, 0)
      else do {
        a \<leftarrow> add_chk req 8;
        let secs = sint (rd64 m req);
        let nsecs = sint (rd64 m a);
        if secs < 0 \<or> nsecs < 0 \<or> nsecs \<ge> 1000000000 then Some (EINVAL, 0)
        else Some (0, nat ((min secs 1 * 1000000000 + nsecs) div 10))
      })"

section \<open>\<open>poll\<close>\<close>

definition POLLIN :: u16 where "POLLIN = 0x0001"
definition POLLOUT :: u16 where "POLLOUT = 0x0004"
definition POLLERR :: u16 where "POLLERR = 0x0008"

definition read_u16 :: "umem \<Rightarrow> u64 \<Rightarrow> u16" where "read_u16 m a = from_le_bytes (peek m a 2)"

definition poll_revents :: "snapshot \<Rightarrow> u32 \<Rightarrow> u16 \<Rightarrow> u16" where
  "poll_revents e fd events =
     (if fd = 0 then (if events AND POLLIN \<noteq> 0 \<and> has_key (fst e) then POLLIN else 0)
      else if fd = 1 \<or> fd = 2 then events AND POLLOUT
      else if is_read_fd fd (snd e) then (if events AND POLLIN \<noteq> 0 \<and> has_data (snd e) then POLLIN else 0)
      else if is_write_fd fd (snd e) then events AND POLLOUT
      else if is_sock_fd fd then POLLERR
      else 0)"

text \<open>One entry. The index times eight, the entry's address and the address of each field are checked additions.\<close>

definition poll_entry :: "snapshot \<Rightarrow> u64 \<Rightarrow> nat \<Rightarrow> umem \<times> int \<Rightarrow> (umem \<times> int) option" where
  "poll_entry e fds i mr =
     (case mr of (m, ready) \<Rightarrow> do {
        off \<leftarrow> mul_chk (of_nat i) 8;
        base \<leftarrow> add_chk fds off;
        ev \<leftarrow> add_chk base 4;
        rptr \<leftarrow> add_chk base 6;
        let revents = poll_revents e (rd32 m base) (read_u16 m ev);
        Some (poke rptr (le2 revents) m, if revents \<noteq> 0 then ready + 1 else ready)
      })"

fun poll_scan :: "snapshot \<Rightarrow> u64 \<Rightarrow> nat list \<Rightarrow> umem \<times> int \<Rightarrow> (umem \<times> int) option" where
  "poll_scan e fds [] mr = Some mr"
| "poll_scan e fds (i # is) mr = Option.bind (poll_entry e fds i mr) (poll_scan e fds is)"

fun poll_loop :: "snapshot list \<Rightarrow> u64 \<Rightarrow> nat \<Rightarrow> bool \<Rightarrow> umem \<Rightarrow> (umem \<times> int) option" where
  "poll_loop [] fds nfds blocking m = None"
| "poll_loop (e # es) fds nfds blocking m =
     (case poll_scan e fds [0..<nfds] (m, 0) of
        None \<Rightarrow> None
      | Some (m, ready) \<Rightarrow> if ready > 0 \<or> \<not> blocking then Some (m, ready) else poll_loop es fds nfds blocking m)"

definition sys_poll :: "snapshot list \<Rightarrow> u64 \<Rightarrow> u64 \<Rightarrow> u64 \<Rightarrow> umem \<Rightarrow> (umem \<times> int) option" where
  "sys_poll es fds nfds timeout m = poll_loop es fds (unat nfds) (timeout = - 1 \<or> timeout \<noteq> 0) m"

section \<open>What \<open>poll\<close> answers\<close>

text \<open>The answer to one entry, and the array with all answers filled in.\<close>

definition poll_at :: "snapshot \<Rightarrow> u64 \<Rightarrow> umem \<Rightarrow> nat \<Rightarrow> u16" where
  "poll_at e a m i = poll_revents e (rd32 m (a + of_nat (8 * i))) (read_u16 m (a + of_nat (8 * i) + 4))"

definition poll_reply :: "snapshot \<Rightarrow> u64 \<Rightarrow> umem \<Rightarrow> nat \<Rightarrow> bytes" where
  "poll_reply e a m n = concat (map (\<lambda>i. peek m (a + of_nat (8 * i)) 6 @ le2 (poll_at e a m i)) [0..<n])"

definition poll_ready :: "snapshot \<Rightarrow> u64 \<Rightarrow> umem \<Rightarrow> nat \<Rightarrow> nat list" where
  "poll_ready e a m n = filter (\<lambda>i. poll_at e a m i \<noteq> 0) [0..<n]"

lemma length_poll_reply [simp]: "length (poll_reply e a m n) = 8 * n"
  by (induction n) (simp_all add: poll_reply_def)

lemma poll_reply_cong:
  assumes "\<And>i. i < n \<Longrightarrow> peek m' (a + of_nat (8 * i)) 6 = peek m (a + of_nat (8 * i)) 6" "\<And>i. i < n \<Longrightarrow> poll_at e a m' i = poll_at e a m i"
  shows "poll_reply e a m' n = poll_reply e a m n"
  using assms by (induction n) (simp_all add: poll_reply_def)

lemma poll_at_peek:
  "poll_at e a m i = (let p = peek m (a + of_nat (8 * i)) 6
     in poll_revents e (from_le_bytes (take 4 p)) (from_le_bytes (drop 4 p)))"
proof -
  have "take 4 (peek m b 6) = peek m b 4" "drop 4 (peek m b 6) = peek m (b + 4) 2" for b
    by (simp_all add: peek_def upt_rec numeral_2_eq_2 add.assoc)
  then show ?thesis by (simp add: poll_at_def rd32_def read_u16_def Let_def)
qed

lemma poke_peek_same: "n \<le> 2 ^ 64 \<Longrightarrow> poke a (peek m a n) m = m"
  by (rule ext) (simp add: poke_apply peek_def within_def)

text \<open>The request part of an entry is never overwritten.\<close>

lemma request_apart:
  assumes "8 * Suc i \<le> 2 ^ 64" "8 * Suc n \<le> 2 ^ 64"
  shows "apart (a + of_nat (8 * i)) 6 (a + of_nat (8 * n) + 6) 2"
  unfolding apart_def
proof (intro allI impI notI)
  fix k :: nat assume k: "k < 6" and w: "within (a + of_nat (8 * i) + of_nat k) (a + of_nat (8 * n) + 6) 2"
  let ?d = "of_nat (8 * i + k) - of_nat (8 * n + 6) :: u64"
  have "a + of_nat (8 * i) + of_nat k - (a + of_nat (8 * n) + 6) = ?d" by simp
  then have "unat ?d < 2" using w by (simp only: within_def)
  then have "unat ?d = 0 \<or> unat ?d = 1" by linarith
  then have "?d = 0 \<or> ?d = 1" by (simp only: word_unat_eq_iff unat_0 unat_1)
  then have "of_nat (8 * i + k) = (of_nat (8 * n + 6) :: u64) \<or> of_nat (8 * i + k) = (of_nat (8 * n + 7) :: u64)"
    by (auto simp: algebra_simps)
  then have "8 * i + k = 8 * n + 6 \<or> 8 * i + k = 8 * n + 7"
    using assms k by (auto simp only: word_of_nat_eq_iff take_bit_nat_eq_self) (simp_all add: take_bit_nat_eq_self)
  then show False using k by presburger
qed

lemma poke_reply_Suc:
  assumes "8 * Suc n \<le> 2 ^ 64" and req: "peek (poke a (poll_reply e a m n) m) (a + of_nat (8 * n)) 6 = peek m (a + of_nat (8 * n)) 6"
  shows "poke a (poll_reply e a m (Suc n)) m = poke (a + of_nat (8 * n) + 6) (le2 (poll_at e a m n)) (poke a (poll_reply e a m n) m)"
proof -
  let ?b = "a + of_nat (8 * n)" and ?m = "poke a (poll_reply e a m n) m"
  have "poll_reply e a m (Suc n) = poll_reply e a m n @ peek m ?b 6 @ le2 (poll_at e a m n)" by (simp add: poll_reply_def)
  then have "poke a (poll_reply e a m (Suc n)) m = poke (?b + 6) (le2 (poll_at e a m n)) (poke ?b (peek m ?b 6) ?m)"
    by (simp only: poke_append length_poll_reply length_peek of_nat_numeral)
  then show ?thesis using poke_peek_same [of 6 ?b ?m] req by simp
qed

lemma requests_kept:
  assumes "8 * n \<le> 2 ^ 64" "8 * Suc i \<le> 2 ^ 64"
  shows "peek (poke a (poll_reply e a m n) m) (a + of_nat (8 * i)) 6 = peek m (a + of_nat (8 * i)) 6"
  using assms
proof (induction n arbitrary: i)
  case (Suc n)
  then have "peek (poke a (poll_reply e a m n) m) (a + of_nat (8 * n)) 6 = peek m (a + of_nat (8 * n)) 6" by simp
  then show ?case using Suc request_apart [of i n a]
    by (simp only: poke_reply_Suc) (simp add: peek_poke_apart)
qed (simp add: poll_reply_def)

lemma poll_at_kept:
  assumes "8 * n \<le> 2 ^ 64" "8 * Suc i \<le> 2 ^ 64"
  shows "poll_at e' a (poke a (poll_reply e a m n) m) i = poll_at e' a m i"
  by (simp only: poll_at_peek requests_kept [OF assms])

lemma poll_scan_append: "poll_scan e a (xs @ ys) mr = Option.bind (poll_scan e a xs mr) (poll_scan e a ys)"
proof (induction xs arbitrary: mr)
  case (Cons i xs)
  then show ?case by (cases "poll_entry e a i mr") simp_all
qed simp

lemma poll_scan_spec:
  assumes "unat a + 8 * n \<le> 2 ^ 64"
  shows "poll_scan e a [0..<n] (m, 0) = Some (poke a (poll_reply e a m n) m, int (length (poll_ready e a m n)))"
  using assms
proof (induction n)
  case (Suc n)
  let ?m = "poke a (poll_reply e a m n) m"
  have b: "8 * n \<le> 2 ^ 64" "8 * Suc n \<le> 2 ^ 64" using Suc.prems by simp_all
  have "unat (of_nat (8 * n) :: u64) = 8 * n" "unat (of_nat n :: u64) = n"
    using b by (simp_all only: unat_of_nat) simp_all
  then have "mul_chk (of_nat n) 8 = Some (of_nat (8 * n) :: u64)" "add_chk a (of_nat (8 * n)) = Some (a + of_nat (8 * n))"
    "unat (a + of_nat (8 * n)) = unat a + 8 * n"
    using Suc.prems by (simp_all add: mul_chk_def add_chk_def unat_word_ariths mult.commute)
  moreover from this(3) have "add_chk (a + of_nat (8 * n)) 4 = Some (a + of_nat (8 * n) + 4)"
    "add_chk (a + of_nat (8 * n)) 6 = Some (a + of_nat (8 * n) + 6)" using Suc.prems by (simp_all add: add_chk_def)
  moreover have "poll_revents e (rd32 ?m (a + of_nat (8 * n))) (read_u16 ?m (a + of_nat (8 * n) + 4)) = poll_at e a m n"
    using poll_at_kept [OF b, of e a e m] by (simp only: poll_at_def)
  ultimately have "poll_entry e a n (?m, r) =
      Some (poke a (poll_reply e a m (Suc n)) m, if poll_at e a m n \<noteq> 0 then r + 1 else r)" for r
    using poke_reply_Suc [OF b(2) requests_kept [OF b]] by (simp add: poll_entry_def Let_def del: of_nat_mult of_nat_numeral)
  then show ?case using Suc by (simp add: poll_scan_append poll_ready_def)
qed (simp add: poll_reply_def poll_ready_def)

lemma poll_loop_blocking:
  assumes "unat a + 8 * n \<le> 2 ^ 64"
  shows "poll_loop es a n True m =
    map_option (\<lambda>e. (poke a (poll_reply e a m n) m, int (length (poll_ready e a m n)))) (find (\<lambda>e. poll_ready e a m n \<noteq> []) es)"
proof (induction es arbitrary: m)
  case (Cons e es)
  let ?m = "poke a (poll_reply e a m n) m"
  have at: "poll_at e' a ?m i = poll_at e' a m i" "peek ?m (a + of_nat (8 * i)) 6 = peek m (a + of_nat (8 * i)) 6" if "i < n" for e' i
  proof -
    have "8 * n \<le> 2 ^ 64" "8 * Suc i \<le> 2 ^ 64" using that assms by auto
    then show "poll_at e' a ?m i = poll_at e' a m i" "peek ?m (a + of_nat (8 * i)) 6 = peek m (a + of_nat (8 * i)) 6"
      by (rule poll_at_kept, rule requests_kept)
  qed
  have r: "poll_ready e' a ?m n = poll_ready e' a m n" for e' by (auto simp: poll_ready_def at intro: filter_cong)
  have p: "poll_reply e' a ?m n = poll_reply e' a m n" for e' by (rule poll_reply_cong) (simp_all only: at)
  have "poke a (poll_reply e' a m n) ?m = poke a (poll_reply e' a m n) m" for e'
    using assms by (intro ext) (simp add: poke_apply)
  then show ?case using Cons.IH [of ?m] by (simp add: poll_scan_spec [OF assms] r p)
qed simp

text \<open>C37: a \<open>poll\<close> over an array that does not wrap around the address space writes the answers to all entries and counts
  those that are ready. Without a timeout it answers at once; otherwise it answers in the first round in which some entry is
  ready and in no other, whatever the timeout is.\<close>

theorem poll_reports_first_ready:
  assumes "unat fds + 8 * unat nfds \<le> 2 ^ 64"
  shows "sys_poll es fds nfds timeout m =
    map_option (\<lambda>e. (poke fds (poll_reply e fds m (unat nfds)) m, int (length (poll_ready e fds m (unat nfds)))))
      (if timeout = 0 then (case es of [] \<Rightarrow> None | e # _ \<Rightarrow> Some e)
       else find (\<lambda>e. poll_ready e fds m (unat nfds) \<noteq> []) es)"
proof (cases "timeout = 0")
  case True
  then show ?thesis using poll_scan_spec [OF assms] by (cases es) (simp_all add: sys_poll_def)
qed (simp add: sys_poll_def poll_loop_blocking [OF assms])

definition poll_mem :: umem where "poll_mem = poke 4100 (le2 POLLIN) (poke 4096 (le4 10) (\<lambda>_. 0))"

definition poll_pipe :: pipe_state where "poll_pipe = pipe_init\<lparr>PIPE_READ_FD := 10, PIPE_WRITE_FD := 11, NEXT_PIPE_FD := 12\<rparr>"

text \<open>A process waits on the reading end of a pipe with a timeout of one millisecond: an empty pipe keeps it waiting, the
  first byte in the pipe ends the call.\<close>

theorem poll_reports_first_ready_witness:
  "sys_poll [(input_init, poll_pipe)] 4096 1 1 poll_mem = None \<and>
   map_option snd (sys_poll [(input_init, poll_pipe), (input_init, fst (pipe_write [65] poll_pipe))] 4096 1 1 poll_mem) = Some 1"
proof -
  have "poll_ready (input_init, poll_pipe) 4096 poll_mem 1 = []" by code_simp
  moreover have "poll_ready (input_init, fst (pipe_write [65] poll_pipe)) 4096 poll_mem 1 = [0]" by code_simp
  ultimately show ?thesis using poll_reports_first_ready [of 4096 1] by simp
qed

section \<open>What the other calls answer\<close>

text \<open>A field of \<open>uname\<close> holds the text, cut to 64 bytes, and zeros up to its end.\<close>

lemma copy_str_field: "copy_str (replicate 65 0) src = take 64 src @ replicate (65 - min (length src) 64) 0"
proof -
  have "(xs @ replicate n (0 :: u8))[length xs := 0] = xs @ replicate n 0" for xs n by (cases n) (simp_all add: list_update_beyond)
  from this [of "take 64 src" "65 - min (length src) 64"] show ?thesis
    by (simp add: copy_str_def Let_def min_def split: if_splits)
qed

lemma uname_length:
  "length (concat (map (copy_str (replicate 65 0) \<circ> as_bytes) ts)) = 65 * length ts"
  by (induction ts) (simp_all add: copy_str_field)

text \<open>However long the time asked for, at most two hundred million \<open>pause\<close> instructions are executed.\<close>

lemma nanosleep_bound: "sys_nanosleep req rem m = Some (r, n) \<Longrightarrow> n < 200000000"
  by (auto simp: sys_nanosleep_def Let_def split: if_splits Option.bind_splits)

text \<open>Descriptors of successful \<open>socket\<close> calls are recognised as sockets and differ, until the counter wraps.\<close>

lemma socket_fd:
  assumes "sys_socket d t p next = (next', r)" "0 \<le> r" "20 \<le> unat next" "unat next < 2 ^ 31 - 1"
  shows "r = int (unat next)" "is_sock_fd next" "unat next' = Suc (unat next)"
proof -
  have "unat next < 2147483648" using assms(4) by simp
  then have "- 2147483648 \<le> int (unat next)" "int (unat next) < 2147483648" by linarith+
  then have "signed_take_bit 31 (int (unat next)) = int (unat next)"
    using signed_take_bit_int_eq_self [of 31 "int (unat next)"] by (simp only: power_numeral) simp
  then have s: "sint next = int (unat next)" by (simp add: sint_uint)
  have "20 \<le> int (unat next)" using assms(3) by linarith
  then show "is_sock_fd next" by (simp only: is_sock_fd_def s)
  have "next' = next + 1 \<and> r = sint next" using assms(1,2)
    by (auto simp: sys_socket_def EAFNOSUPPORT_def EPROTONOSUPPORT_def split: if_splits)
  then show "r = int (unat next)" "unat next' = Suc (unat next)" using s assms(4) by (simp_all add: unat_word_ariths)
qed

text \<open>The C layout of the structure of \<open>sysinfo\<close>.\<close>

lemma length_sys_info: "length (loads s) = 3 \<Longrightarrow> length (sys_info_bytes s) = 128"
  by (simp add: sys_info_bytes_def length_concat comp_def sum_list_triv)

end
