(* ===== verification/Spec2Isabelle.thy ===== *)
theory Spec2Isabelle
  imports Frame_Alloc Vma Btree_Map Handle_Table Scheduler Paging Ipc Policy_Safety Desktop Pipe Net Signal Fs_Calls Loader Tracer Terminal
    Mem_Calls Virtio Info_Calls
begin

text \<open>
  \<^bold>\<open>Verification of the chodOS kernel (MuKernel).\<close>

  chodOS is a small x86-64 kernel written in Rust (\<open>src/kernel/src\<close>): a frame allocator and four-level page tables,
  a preemptive scheduler whose decisions a learning policy engine may influence, capability handles and message
  channels, and above them a Linux-compatible system call layer with processes, signals, descriptors, an in-memory
  file system over a read-only ext4 image, pipes, a small network stack and a desktop. Every component below is a
  theory with its state as a record, one definition per operation, an invariant with its preservation lemmas, and
  theorems about the operations. The names of the definitions are those of the code.

  \<^bold>\<open>Conventions.\<close> Machine integers are words of their width. The kernel is built with overflow checks, so \<open>+ - *\<close> on
  unsigned values are \<open>add_chk\<close>, \<open>sub_chk\<close>, \<open>mul_chk\<close> of \<open>Kernel_Prelude\<close>, whose \<open>None\<close> is the panic; atomics and
  \<open>wrapping_\<close> operations wrap. An operation that can panic returns an option; \<open>Some\<close> is its normal return. Error
  numbers are negative integers as in \<open>syscall/mod.rs\<close>. Loops are structural recursion over the data the code
  iterates over or have a termination proof; a loop that waits for an event takes the events as a list, and ends with
  \<open>Waits\<close>, \<open>None\<close> or the last state when the list is used up. There is one core: code under a spin lock or with
  interrupts disabled is one step.

  \<^bold>\<open>Memory.\<close> There are two views of user memory. Theories about page tables (\<open>Paging\<close> and those above it) work on
  physical frames of 512 slots and on the tables themselves. Theories about calls that copy to and from user pointers
  (\<open>Umem\<close>, \<open>User_Proc\<close>, \<open>Signal\<close>, \<open>Pipe\<close>, \<open>Fd\<close>, \<open>Fs_Calls\<close>) work on the bytes of an address space, one function from
  addresses to bytes for each CR3. A fault while the kernel touches user memory is not modelled in the second view.

  \<^bold>\<open>Components.\<close>

  \<^item> \<open>Kernel_Prelude\<close>: integer types, checked and saturating arithmetic, little-endian bytes, list search lemmas.
    \<open>Btree_Map\<close>: the ordered map (\<open>BTreeMap\<close>) behind the handle tables, as a locale and its implementation.
  \<^item> \<open>Frame_Alloc\<close> (\<open>memory/frame.rs\<close>): the bitmap allocator. The locale of a frame source (acquire gives a frame that
    was free, release gives it back) is interpreted on it; boot establishes the invariant, contiguous allocation is
    first fit.
  \<^item> \<open>Vma\<close> (\<open>process/vma.rs\<close>): the table of memory areas as a partial function from addresses to protections.
  \<^item> \<open>Paging\<close> (\<open>paging/mod.rs\<close>): walking, mapping, unmapping, protecting and cloning; \<open>map_4k\<close> changes one translation,
    demand paging installs a fresh zeroed frame, a channel frame is read-only for its reader.
  \<^item> \<open>Handle_Table\<close> (\<open>process/handle.rs\<close>): rights and capabilities.
  \<^item> \<open>Scheduler\<close> (\<open>process/mod.rs\<close>, \<open>process/scheduler.rs\<close>): process records, weighted and fair selection, preemption,
    sleeping, priorities, aging; the scheduler invariant and bounded starvation.
  \<^item> \<open>Ipc\<close> (\<open>process/ipc*.rs\<close>): messages, capability channels and fast channels over shared frames, with isolation and
    delivery theorems.
  \<^item> \<open>Policy\<close>, \<open>Policy_Learn\<close>, \<open>Policy_Safety\<close> (\<open>policy/mod.rs\<close>, \<open>power.rs\<close>, \<open>smp.rs\<close>): the observation hooks, the
    learned scores and the actions of the engine, with the bounds that keep it from harming the scheduler.
  \<^item> \<open>Ring\<close>, \<open>Input\<close>, \<open>Desktop\<close> (\<open>kbd.rs\<close>, \<open>input_direct.rs\<close>, \<open>mouse.rs\<close>, \<open>wm.rs\<close>): key and mouse events, windows.
  \<^item> \<open>Net\<close> (\<open>net/\<close>): checksum, IPv4, ICMP, UDP, ARP, frames in and out.
  \<^item> \<open>Umem\<close>, \<open>User_Proc\<close> (\<open>process/userproc.rs\<close>): the process table with fork, threads, wait and exit, futexes.
  \<^item> \<open>Signal\<close> (\<open>signal.rs\<close>): raising, delivery with the frame on the user stack, return, actions and masks.
  \<^item> \<open>Pipe\<close> (\<open>syscall/pipe.rs\<close>): the pipe ring refines a bounded queue; select and epoll.
  \<^item> \<open>Vfs\<close> (\<open>vfs/mod.rs\<close>, \<open>vfs/tmpfs.rs\<close>): the node graph is a tree and its operations refine an abstract name space.
  \<^item> \<open>Devfs\<close>, \<open>Fd\<close>, \<open>Fs_Calls\<close> (\<open>vfs/procfs.rs\<close>, \<open>syscall/dev.rs\<close>, \<open>syscall/fd.rs\<close>, \<open>syscall/fs.rs\<close>): virtual files and
    devices, descriptors, and every file call with its paths read from user memory; the invariant of any call sequence.

  \<^item> \<open>Address_Space\<close> (over \<open>Paging\<close>): the bytes a program sees through its page tables, and file mappings.
  \<^item> \<open>Elf\<close> (\<open>elf.rs\<close>): headers, program headers, dynamic section, symbols and relocations, with the bounds the code
    checks; parsing inverts an encoder of images.
  \<^item> \<open>Dynlink\<close>, \<open>Loader\<close> (\<open>dynlink.rs\<close>, the loaders of \<open>paging/mod.rs\<close>): mapping segments, dependencies, symbol
    resolution, relocation, and the static loader. A loaded segment has its file's bytes, a relocation writes its
    value and nothing else, the static loader agrees with the linker's on aligned segments. The depth of the recursion
    over dependencies is an argument of \<open>load_deps\<close>; the number of libraries is enough when names carry no directory.
  \<^item> \<open>Mem_Calls\<close> (\<open>syscall/mem.rs\<close>, \<open>sys_mmap\<close> and its relatives in \<open>syscall/mod.rs\<close>, \<open>exception_handler\<close>): the calls that join
    descriptors, areas, page tables and the policy engine, and the user faults: a mapped file reads as the file,
    anonymous memory reads as zeros when it is first touched.
  \<^item> \<open>Tracer\<close> (\<open>tracer.rs\<close>): the ring of recorded decisions refines the list of all events cut to its last 256.
    \<open>Terminal\<close> (\<open>term.rs\<close>): the character grid is the window on the last rows of a page that only grows.
  \<^item> \<open>Virtio\<close> (\<open>virtio/\<close>): queue memory shared with a device, block requests as the device reads them, and the receive
    ring as a step relation of device and driver in which every buffer stays accounted for.
  \<^item> \<open>Packages\<close> (\<open>pkg.rs\<close>, \<open>sys_pkg_*\<close>): the programs built into the kernel and the texts about them, which are cut off at
    the end of the user's buffer. \<open>Info_Calls\<close> (\<open>syscall/sock.rs\<close>, \<open>syscall/sysinfo.rs\<close>, parts of \<open>syscall/proc.rs\<close>): the calls
    that answer without changing the kernel, and \<open>poll\<close>, which answers at the first snapshot with a ready entry.

  \<^bold>\<open>Not modelled.\<close> Boot and the benchmark programs of \<open>main.rs\<close> and \<open>bench_*.rs\<close> (sequences of calls with printing),
  interrupt stubs, descriptor tables and context switch assembly, port and PCI drivers, drawing, \<open>execve\<close>, the ext4
  reader (a third-party crate; its answers are functions of the model), and the user programs.
\<close>

end
